(* ===== verification/Prelude.thy ===== *)
theory Prelude
  imports Main "HOL-Library.Word" "HOL-Library.State_Monad" "HOL-Library.Monad_Syntax"
begin

unbundle bit_operations_syntax

text \<open>
  Shared vocabulary of the development: the fixed-width integer types of the C++
  sources, the two ways the sources read a 32-bit word (unsigned and two's complement),
  truncating division, the lemma collections the component theories extend, and the
  generic facts about words, lists and functions that more than one component uses.
\<close>

section \<open>Integer types\<close>

type_synonym u8 = "8 word"
type_synonym u16 = "16 word"
type_synonym u32 = "32 word"
type_synonym u64 = "64 word"

text \<open>
  \<open>static_cast<int32_t>\<close> of an unsigned word is \<open>sint\<close>; storing a signed value in an
  unsigned word is \<open>word_of_int\<close>.  C++ division truncates towards zero.
\<close>

abbreviation (input) i32 :: "u32 \<Rightarrow> int" where
  "i32 w \<equiv> sint w"

definition cdiv :: "int \<Rightarrow> int \<Rightarrow> int" where
  "cdiv a b = sgn a * sgn b * (\<bar>a\<bar> div \<bar>b\<bar>)"

section \<open>Lemma collections\<close>

named_theorems word_facts \<open>bit-level facts about machine words\<close>
named_theorems run_simps \<open>symbolic execution of the guest-machine monad\<close>
named_theorems frame_simps \<open>reads that a write leaves unchanged\<close>

section \<open>Words\<close>

lemma and_single_bit: "(x :: 'a::len word) AND push_bit n 1 = push_bit n (of_bool (bit x n))"
  by (rule bit_word_eqI) (auto simp: bit_simps)

lemma and_single_bit_nonzero: "((x :: 'a::len word) AND push_bit n 1 \<noteq> 0) = bit x n"
proof -
  have "(push_bit n (1 :: 'a word) \<noteq> 0) = (n < LENGTH('a))"
    by (simp add: not_le)
  then show ?thesis
    unfolding and_single_bit by (cases "bit x n") (auto dest: bit_imp_le_length)
qed

lemma and_top_bit_nonzero [word_facts]: "((x :: u32) AND 0x80000000 \<noteq> 0) = bit x 31"
  using and_single_bit_nonzero [of x 31] by simp

lemma and_one_nonzero [word_facts]: "((x :: u32) AND 1 \<noteq> 0) = bit x 0"
  using and_single_bit_nonzero [of x 0] by simp

text \<open>Bits of the small masks the sources use, at the integer type the simplifier reduces to.\<close>

lemma bit_small_masks [word_facts]:
  "bit (2 :: int) n = (n = 1)" "bit (4 :: int) n = (n = 2)" "bit (8 :: int) n = (n = 3)"
  "bit (15 :: int) n = (n < 4)" "bit (- 16 :: int) n = (4 \<le> n)"
proof -
  show "bit (2 :: int) n = (n = 1)" using bit_exp_iff [where 'a = int, of 1 n] by auto
  show "bit (4 :: int) n = (n = 2)" using bit_exp_iff [where 'a = int, of 2 n] by auto
  show "bit (8 :: int) n = (n = 3)" using bit_exp_iff [where 'a = int, of 3 n] by auto
  have e: "(15 :: int) = mask 4" "(- 16 :: int) = NOT (mask 4)" by (simp_all add: mask_eq_exp_minus_1)
  show "bit (15 :: int) n = (n < 4)" unfolding e by (simp only: bit_mask_iff) simp
  show "bit (- 16 :: int) n = (4 \<le> n)" unfolding e by (simp only: bit_not_iff bit_mask_iff) auto
qed

lemma bit31_iff_neg [word_facts]: "bit (x :: u32) 31 = (sint x < 0)"
  using bit_last_iff [of x] by simp

lemma sint_u32_bounds: "- 2147483648 \<le> sint (x :: u32)" "sint (x :: u32) < 2147483648"
  using sint_ge [of x] sint_lt [of x] by simp_all

lemma uint_u32_bounds: "0 \<le> uint (x :: u32)" "uint (x :: u32) < 4294967296"
  using uint_bounded [of x] by simp_all

text \<open>The signed reading of a wrapped integer: it is the integer itself when it fits.\<close>

lemma sint_word_of_int_u32:
  "sint (word_of_int k :: u32) = (k + 2147483648) mod 4294967296 - 2147483648"
  by (simp add: sint_sbintrunc' signed_take_bit_eq_take_bit_shift take_bit_eq_mod)

lemma sint_word_of_int_eq_iff:
  "(sint (word_of_int k :: u32) = k) = (- 2147483648 \<le> k \<and> k < 2147483648)"
proof
  assume "sint (word_of_int k :: u32) = k"
  with sint_u32_bounds [of "word_of_int k"] show "- 2147483648 \<le> k \<and> k < 2147483648"
    by simp
next
  assume "- 2147483648 \<le> k \<and> k < 2147483648"
  then show "sint (word_of_int k :: u32) = k"
    by (simp add: sint_word_of_int_u32 mod_pos_pos_trivial)
qed

text \<open>A sum that leaves the signed range at most once wraps by one modulus.\<close>

lemma wrap_once:
  assumes "- 6442450944 \<le> (s :: int)" "s < 6442450944"
  shows "(s + 2147483648) mod 4294967296 - 2147483648 =
    (if s < - 2147483648 then s + 4294967296
     else if s < 2147483648 then s else s - 4294967296)"
proof -
  have shift: "(s + 2147483648) mod 4294967296 = (s + 2147483648 + 4294967296 * k) mod 4294967296" for k
    by (rule mod_mult_self2 [symmetric])
  consider "s < - 2147483648" | "- 2147483648 \<le> s" "s < 2147483648" | "2147483648 \<le> s" by linarith
  then show ?thesis
  proof cases
    case 1
    then show ?thesis using assms shift [of 1] by (simp add: mod_pos_pos_trivial)
  next
    case 2
    then show ?thesis by (simp add: mod_pos_pos_trivial)
  next
    case 3
    then show ?thesis using assms shift [of "-1"] by (simp add: mod_pos_pos_trivial)
  qed
qed

lemma sint_of_uint: "sint (x :: u32) = (if bit x 31 then uint x - 4294967296 else uint x)"
proof -
  have "sint x = (uint x + 2147483648) mod 4294967296 - 2147483648"
    using sint_word_of_int_u32 [of "uint x"] by simp
  then have "sint x = (if uint x < 2147483648 then uint x else uint x - 4294967296)"
    using uint_u32_bounds [of x] by (simp add: wrap_once)
  then show ?thesis using uint_u32_bounds [of x] by (auto simp: bit31_iff_neg split: if_splits)
qed

lemma uint_eq_sint_mod: "\<exists>b. uint (x :: u32) = sint x + 4294967296 * b"
  using sint_of_uint [of x] by (intro exI [of _ "of_bool (bit x 31)"]) simp

lemma uint_word_of_int_u32:
  "0 \<le> k \<Longrightarrow> k < 4294967296 \<Longrightarrow> uint (word_of_int k :: u32) = k"
  by (simp add: uint_word_of_int mod_pos_pos_trivial)

lemma sint_eq_0_iff: "(sint (r :: u32) = 0) = (r = 0)"
proof
  assume z: "sint r = 0"
  have "word_of_int (sint r) = r" by simp
  with z show "r = 0" by simp
qed simp

lemma word_of_int_wrap: "word_of_int (k + 4294967296 * b) = (word_of_int k :: u32)"
  by (rule word_of_int_eq_iff [THEN iffD2]) (simp add: take_bit_eq_mod)

text \<open>A truncated quotient of two signed words fits unless it is the one overflowing pair.\<close>

lemma cdiv_fits:
  assumes "- 2147483648 \<le> a" "a < 2147483648" "- 2147483648 \<le> b" "b < 2147483648" "b \<noteq> 0"
  shows "(- 2147483648 \<le> cdiv a b \<and> cdiv a b < 2147483648) = (\<not> (a = - 2147483648 \<and> b = -1))"
proof -
  have le: "\<bar>a\<bar> div \<bar>b\<bar> \<le> \<bar>a\<bar>" using zdiv_mono2 [of "\<bar>a\<bar>" 1 "\<bar>b\<bar>"] assms(5) by simp
  have nn: "0 \<le> \<bar>a\<bar> div \<bar>b\<bar>" by (simp add: pos_imp_zdiv_nonneg_iff assms)
  show ?thesis
  proof (cases "a = - 2147483648 \<and> b = -1")
    case True
    then show ?thesis by (simp add: cdiv_def)
  next
    case False
    have "cdiv a b < 2147483648 \<and> - 2147483648 \<le> cdiv a b"
    proof (cases "a = - 2147483648 \<and> b < 0")
      case True
      with False have "2 \<le> \<bar>b\<bar>" by auto
      then have "\<bar>a\<bar> div \<bar>b\<bar> \<le> \<bar>a\<bar> div 2"
        by (intro zdiv_mono2) (use assms in auto)
      with True nn show ?thesis by (simp add: cdiv_def)
    next
      case False
      then show ?thesis
        using le nn assms by (auto simp: cdiv_def sgn_if split: if_splits)
    qed
    with False show ?thesis by auto
  qed
qed

section \<open>Lists\<close>

lemma takeWhile_all_length: "\<forall>x\<in>set xs. P x \<Longrightarrow> length (takeWhile P xs) = length xs"
  by (simp add: takeWhile_eq_all_conv [THEN iffD2])

text \<open>The ends of a linked list: its first or last element, or a default when it is empty.\<close>

definition head_or :: "'a \<Rightarrow> 'a list \<Rightarrow> 'a" where
  "head_or d xs = (case xs of [] \<Rightarrow> d | x # _ \<Rightarrow> x)"

definition last_or :: "'a \<Rightarrow> 'a list \<Rightarrow> 'a" where
  "last_or d xs = (if xs = [] then d else last xs)"

lemma head_or_simps [simp]: "head_or d [] = d" "head_or d (x # xs) = x"
  by (simp_all add: head_or_def)

lemma last_or_simps [simp]: "last_or d [] = d" "last_or d (xs @ [x]) = x"
    "last_or d (x # xs) = last_or x xs"
  by (simp_all add: last_or_def)

lemma head_or_append [simp]: "head_or d (xs @ ys) = head_or (head_or d ys) xs"
  by (cases xs) simp_all

lemma last_or_append [simp]: "last_or d (xs @ ys) = last_or (last_or d xs) ys"
  by (simp add: last_or_def)

lemma head_or_eq_0 [simp]: "(0 :: 'a :: zero) \<notin> set xs \<Longrightarrow> (head_or 0 xs = 0) = (xs = [])"
  by (cases xs) auto

lemma last_or_eq_0 [simp]: "(0 :: 'a :: zero) \<notin> set xs \<Longrightarrow> (last_or 0 xs = 0) = (xs = [])"
  by (auto simp: last_or_def) (metis last_in_set)

text \<open>\<open>linked pv nx p xs n\<close>: the nodes \<open>xs\<close> are chained both ways, entered from \<open>p\<close> and left to \<open>n\<close>.\<close>

fun linked :: "('a \<Rightarrow> 'a) \<Rightarrow> ('a \<Rightarrow> 'a) \<Rightarrow> 'a \<Rightarrow> 'a list \<Rightarrow> 'a \<Rightarrow> bool" where
  "linked pv nx p [] n = True"
| "linked pv nx p (x # xs) n = (pv x = p \<and> nx x = head_or n xs \<and> linked pv nx x xs n)"

lemma linked_append [simp]:
  "linked pv nx p (xs @ ys) n = (linked pv nx p xs (head_or n ys) \<and> linked pv nx (last_or p xs) ys n)"
  by (induction xs arbitrary: p) auto

lemma linked_cong:
  "(\<And>x. x \<in> set xs \<Longrightarrow> pv x = pv' x \<and> nx x = nx' x) \<Longrightarrow> linked pv nx p xs n = linked pv' nx' p xs n"
  by (induction xs arbitrary: p) auto

lemma linked_relink_next:
  assumes "linked pv nx p xs n" "distinct xs"
  shows "linked pv (if xs = [] then nx else nx(last xs := n')) p xs n'"
  using assms
proof (induction xs arbitrary: p)
  case (Cons x xs)
  then show ?case by (cases xs) auto
qed simp

lemma linked_relink_prev:
  assumes "linked pv nx p xs n" "distinct xs"
  shows "linked (if xs = [] then pv else pv(hd xs := p')) nx p' xs n"
proof (cases xs)
  case (Cons x ys)
  with assms have "linked (pv(x := p')) nx x ys n" by (subst linked_cong [where pv' = pv and nx' = nx]) auto
  with assms Cons show ?thesis by simp
qed simp

end
