(* ===== verification/PpcInt.thy ===== *)
theory PpcInt
  imports Prelude
begin

unbundle bit_operations_syntax

text \<open>
  The pure integer and condition-register semantics of \<open>runtime/include/isa/ppc_isa_int.h\<close>
  and \<open>runtime/include/isa/ppc_isa_cr.h\<close>: what translated PowerPC code calls on
  register-resident values.
\<close>

section \<open>Integer helpers\<close>

definition PpcRotl32Inline :: "u32 \<Rightarrow> u32 \<Rightarrow> u32" where
  "PpcRotl32Inline val shift = word_rotl (unat shift mod 32) val"

text \<open>\<open>__builtin_clz\<close>, defined for a nonzero argument only: the zero bits above the top one.\<close>

definition builtin_clz :: "u32 \<Rightarrow> nat" where
  "builtin_clz v = length (takeWhile (\<lambda>i. \<not> bit v i) (rev [0..<32]))"

definition PPC_CntlzwInline :: "u32 \<Rightarrow> u32" where
  "PPC_CntlzwInline val = (if val = 0 then 32 else of_nat (builtin_clz val))"

definition CompareUnsigned :: "u32 \<Rightarrow> u32 \<Rightarrow> int" where
  "CompareUnsigned a b = (if a < b then -1 else if a > b then 1 else 0)"

definition SignExtend :: "nat \<Rightarrow> u32 \<Rightarrow> int" where
  "SignExtend bits val = signed_take_bit (bits - 1) (uint val)"

definition ArithmeticShiftRight :: "u32 \<Rightarrow> nat \<Rightarrow> u32" where
  "ArithmeticShiftRight val amount = signed_drop_bit amount val"

definition PPC_Slw :: "u32 \<Rightarrow> u32 \<Rightarrow> u32" where
  "PPC_Slw val amount =
     (if amount AND 0x20 \<noteq> 0 then 0 else push_bit (unat (amount AND 0x1F)) val)"

definition PPC_Srw :: "u32 \<Rightarrow> u32 \<Rightarrow> u32" where
  "PPC_Srw val amount =
     (if amount AND 0x20 \<noteq> 0 then 0 else drop_bit (unat (amount AND 0x1F)) val)"

definition PPC_Sraw :: "u32 \<Rightarrow> u32 \<Rightarrow> u32" where
  "PPC_Sraw val amount =
     (if amount AND 0x20 \<noteq> 0
      then (if val AND 0x80000000 \<noteq> 0 then 0xFFFFFFFF else 0)
      else signed_drop_bit (unat (amount AND 0x1F)) val)"

definition PPC_Divwu :: "u32 \<Rightarrow> u32 \<Rightarrow> u32" where
  "PPC_Divwu dividend divisor = (if divisor = 0 then 0 else dividend div divisor)"

definition PPC_Divw :: "u32 \<Rightarrow> u32 \<Rightarrow> u32" where
  "PPC_Divw dividend divisor =
     (if divisor = 0 \<or> sint dividend = - 2147483648 \<and> sint divisor = -1
      then (if sint dividend < 0 then -1 else 0)
      else word_of_int (cdiv (sint dividend) (sint divisor)))"

section \<open>Condition register\<close>

text \<open>The 4-bit val a comparison stores: LT, GT, EQ and a copy of XER[SO].\<close>

definition cr_compare_value :: "bool \<Rightarrow> bool \<Rightarrow> bool \<Rightarrow> u32 \<Rightarrow> u32" where
  "cr_compare_value lt gt eq xer =
     (if lt then 8 else 0) OR (if gt then 4 else 0) OR (if eq then 2 else 0)
     OR (drop_bit 31 xer AND 1)"

definition cr_insert :: "u32 \<Rightarrow> nat \<Rightarrow> u32 \<Rightarrow> u32" where
  "cr_insert cr shift val = (cr AND NOT (push_bit shift 0xF)) OR push_bit shift val"

definition SetCRResident_signed :: "u32 \<Rightarrow> u32 \<Rightarrow> nat \<Rightarrow> u32 \<Rightarrow> u32 \<Rightarrow> u32" where
  "SetCRResident_signed cr xer field a b =
     cr_insert cr ((7 - field) * 4)
       (cr_compare_value (sint a < sint b) (sint a > sint b) (a = b) xer)"

definition SetCRResident_unsigned :: "u32 \<Rightarrow> u32 \<Rightarrow> nat \<Rightarrow> u32 \<Rightarrow> u32 \<Rightarrow> u32" where
  "SetCRResident_unsigned cr xer field a b =
     cr_insert cr ((7 - field) * 4) (cr_compare_value (a < b) (a > b) (a = b) xer)"

definition GetCRBitResident :: "u32 \<Rightarrow> nat \<Rightarrow> nat \<Rightarrow> bool" where
  "GetCRBitResident cr field b = (drop_bit ((7 - field) * 4 + (3 - b)) cr AND 1 \<noteq> 0)"

definition PpcCrSetBitResident :: "u32 \<Rightarrow> u32 \<Rightarrow> u32 \<Rightarrow> u32" where
  "PpcCrSetBitResident cr bitIndex val =
     (let mask = push_bit (31 - unat (bitIndex AND 31)) 1
      in if val AND 1 \<noteq> 0 then cr OR mask else cr AND NOT mask)"

definition PpcCrLogicalResident :: "u32 \<Rightarrow> u32 \<Rightarrow> u32 \<Rightarrow> u32 \<Rightarrow> u32 \<Rightarrow> u32" where
  "PpcCrLogicalResident cr op bt ba bb =
     (let readBit = (\<lambda>index. drop_bit (31 - unat (index AND 31)) cr AND 1);
          a = readBit ba;
          b = readBit bb;
          sel = op AND 7;
          result =
            (if sel = 0 then NOT (a OR b) AND 1
             else if sel = 1 then a AND (NOT b AND 1)
             else if sel = 2 then a XOR b
             else if sel = 3 then NOT (a AND b) AND 1
             else if sel = 4 then a AND b
             else if sel = 5 then NOT (a XOR b) AND 1
             else if sel = 6 then (NOT a AND 1) OR b
             else a OR b)
      in PpcCrSetBitResident cr bt result)"

definition PpcMcrfResident :: "u32 \<Rightarrow> u32 \<Rightarrow> u32 \<Rightarrow> u32" where
  "PpcMcrfResident cr dstField srcField =
     (let dstShift = (7 - unat (dstField AND 7)) * 4;
          srcShift = (7 - unat (srcField AND 7)) * 4;
          field = drop_bit srcShift cr AND 0xF
      in (cr AND NOT (push_bit dstShift 0xF)) OR push_bit dstShift field)"


section \<open>Shifts\<close>

lemma amount_high_bit: "((a :: u32) AND 0x20 \<noteq> 0) = bit a 5"
  using and_single_bit_nonzero [of a 5] by simp

lemma amount_low_bits: "unat ((a :: u32) AND 0x1F) = unat a mod 32"
proof -
  have "a AND mask 5 = take_bit 5 a" by (simp add: take_bit_eq_mask)
  then have "unat (a AND 0x1F) = unat (take_bit 5 a)" by (simp add: mask_eq_decr_exp)
  then show ?thesis by (simp add: take_bit_eq_mod unat_mod_distrib)
qed

lemma amount_mod64:
  "unat (a :: u32) mod 64 = (if bit a 5 then 32 + unat a mod 32 else unat a mod 32)"
proof -
  have "bit a 5 = odd (unat a div 32)"
    using bit_unsigned_iff [where 'a = nat, of a 5] by (simp add: bit_iff_odd)
  moreover have "n mod 64 = (if odd (n div 32) then 32 + n mod 32 else n mod 32)" for n :: nat
    using mod_mult2_eq [of n 32 2] by (simp add: odd_iff_mod_2_eq_one)
  ultimately show ?thesis by simp
qed


lemma uint_Slw:
  "uint (PPC_Slw v a) = uint v * 2 ^ (unat a mod 64) mod 2 ^ 32"
proof (cases "bit a 5")
  case True
  then have "unat a mod 64 = 32 + unat a mod 32" by (simp add: amount_mod64)
  then have "uint v * 2 ^ (unat a mod 64) = 2 ^ 32 * (uint v * 2 ^ (unat a mod 32))"
    by (simp add: power_add)
  then have "uint v * 2 ^ (unat a mod 64) mod 2 ^ 32 = 0"
    by (metis mod_mult_self1_is_0)
  moreover have "PPC_Slw v a = 0" using True by (simp add: PPC_Slw_def amount_high_bit)
  ultimately show ?thesis by simp
next
  case False
  then show ?thesis
    by (simp add: PPC_Slw_def amount_high_bit amount_mod64 amount_low_bits 
        push_bit_eq_mult [where 'a = int] take_bit_eq_mod unsigned_push_bit_eq)
qed

lemma uint_Srw:
  "uint (PPC_Srw v a) = uint v div 2 ^ (unat a mod 64)"
proof (cases "bit a 5")
  case True
  have "uint v < 2 ^ 32" using uint_bounded [of v] by simp
  also have "\<dots> \<le> 2 ^ (unat a mod 64)"
    using True by (intro power_increasing) (simp_all add: amount_mod64)
  finally have "uint v div 2 ^ (unat a mod 64) = 0" by simp
  moreover have "PPC_Srw v a = 0" using True by (simp add: PPC_Srw_def amount_high_bit)
  ultimately show ?thesis by simp
next
  case False
  then show ?thesis
    by (simp add: PPC_Srw_def amount_high_bit amount_mod64 amount_low_bits
        unsigned_drop_bit_eq drop_bit_eq_div [where 'a = int]
        take_bit_int_eq_self uint_u32_bounds)
qed

lemma sint_Sraw:
  "sint (PPC_Sraw v a) = sint v div 2 ^ (unat a mod 64)"
proof (cases "bit a 5")
  case True
  have big: "(2147483648 :: int) \<le> 2 ^ (unat a mod 64)"
    using True power_increasing [of 31 "unat a mod 64" "2 :: int"] by (simp add: amount_mod64)
  have "sint v div 2 ^ (unat a mod 64) = (if sint v < 0 then -1 else 0)"
  proof (cases "sint v < 0")
    case neg: True
    then have "sint v div 2 ^ (unat a mod 64) = -1"
      using sint_u32_bounds [of v] big
      by (intro int_div_pos_eq [where r = "sint v + 2 ^ (unat a mod 64)"]) simp_all
    with neg show ?thesis by simp
  next
    case False
    then show ?thesis using sint_u32_bounds [of v] big by (simp add: div_pos_pos_trivial)
  qed
  with True show ?thesis
    by (simp add: PPC_Sraw_def amount_high_bit and_top_bit_nonzero bit31_iff_neg)
next
  case False
  then show ?thesis
    by (simp add: PPC_Sraw_def amount_high_bit amount_mod64 amount_low_bits
        sint_signed_drop_bit_eq drop_bit_eq_div [where 'a = int])
qed


section \<open>Leading zeros\<close>

lemma uint_ge_of_bit: "bit (v :: u32) m \<Longrightarrow> 2 ^ m \<le> uint v"
proof -
  assume "bit v m"
  then have "odd (uint v div 2 ^ m)"
    using bit_uint_iff [of v m] bit_imp_le_length [of v m] by (simp add: bit_iff_odd)
  then have "uint v div 2 ^ m \<noteq> 0" by (metis even_zero)
  then show ?thesis by (meson div_pos_pos_trivial not_le uint_lt_0 uint_ge_0)
qed

lemma uint_lt_of_no_bits:
  assumes "\<And>i. m \<le> i \<Longrightarrow> i < 32 \<Longrightarrow> \<not> bit (v :: u32) i"
  shows "uint v < 2 ^ m"
proof -
  have "take_bit m (uint v) = uint v"
  proof (rule bit_eqI)
    fix i
    show "bit (take_bit m (uint v)) i = bit (uint v) i"
      using assms [of i] by (cases "m \<le> i") (auto simp: bit_take_bit_iff bit_uint_iff not_le)
  qed
  then show ?thesis using take_bit_int_less_exp [of m "uint v"] by simp
qed

lemma takeWhile_rev_upt:
  fixes P :: "nat \<Rightarrow> bool"
  defines "k n \<equiv> length (takeWhile P (rev [0..<n]))"
  assumes "j < n" "\<not> P j"
  shows "k n < n" "\<not> P (n - 1 - k n)" "n - 1 - k n < i \<Longrightarrow> i < n \<Longrightarrow> P i"
proof -
  have nth: "rev [0..<n] ! m = n - 1 - m" if "m < n" for m
    using that by (simp add: rev_nth)
  have "k n \<noteq> n"
  proof
    assume "k n = n"
    then have "takeWhile P (rev [0..<n]) = rev [0..<n]"
      by (metis k_def diff_zero length_rev length_upt order_refl take_all takeWhile_eq_take)
    with assms(2,3) show False by (auto simp: takeWhile_eq_all_conv)
  qed
  moreover have "k n \<le> n"
    using length_takeWhile_le [of P "rev [0..<n]"] by (simp add: k_def)
  ultimately show lt: "k n < n" by simp
  have "\<not> P (rev [0..<n] ! k n)"
    unfolding k_def using lt by (intro nth_length_takeWhile) (simp add: k_def)
  then show "\<not> P (n - 1 - k n)" using lt nth by simp
  assume i: "n - 1 - k n < i" "i < n"
  then have m: "n - 1 - i < k n" by simp
  then have "takeWhile P (rev [0..<n]) ! (n - 1 - i) \<in> set (takeWhile P (rev [0..<n]))"
    unfolding k_def by (rule nth_mem)
  then have "P (takeWhile P (rev [0..<n]) ! (n - 1 - i))" by (rule set_takeWhileD [THEN conjunct2])
  then show "P i" using m i nth [of "n - 1 - i"] by (simp add: takeWhile_nth k_def)
qed

lemma builtin_clz_props:
  assumes "v \<noteq> 0"
  shows "builtin_clz v < 32" "bit v (31 - builtin_clz v)"
    "31 - builtin_clz v < i \<Longrightarrow> i < 32 \<Longrightarrow> \<not> bit v i"
proof -
  obtain j where j: "bit v j" using assms by (auto simp: bit_eq_iff)
  then have "j < 32" using bit_imp_le_length [of v j] by simp
  with j show "builtin_clz v < 32" "bit v (31 - builtin_clz v)"
    "31 - builtin_clz v < i \<Longrightarrow> i < 32 \<Longrightarrow> \<not> bit v i"
    using takeWhile_rev_upt(1,2) [where j = j and n = 32 and P = "\<lambda>i. \<not> bit v i"]
      takeWhile_rev_upt(3) [where j = j and n = 32 and P = "\<lambda>i. \<not> bit v i" and i = i]
    unfolding builtin_clz_def [symmetric] by (simp_all del: upt_rec_numeral)
qed

lemma cntlzw_spec:
  assumes "v \<noteq> 0"
  shows "unat (PPC_CntlzwInline v) < 32"
    "2 ^ (31 - unat (PPC_CntlzwInline v)) \<le> uint v"
    "uint v < 2 ^ (32 - unat (PPC_CntlzwInline v))"
proof -
  have n: "unat (PPC_CntlzwInline v) = builtin_clz v"
    using assms builtin_clz_props(1) [of v]
    by (simp add: PPC_CntlzwInline_def unat_of_nat)
  show "unat (PPC_CntlzwInline v) < 32" using assms n builtin_clz_props(1) by simp
  show "2 ^ (31 - unat (PPC_CntlzwInline v)) \<le> uint v"
    using assms n builtin_clz_props(2) by (simp add: uint_ge_of_bit)
  show "uint v < 2 ^ (32 - unat (PPC_CntlzwInline v))"
    unfolding n using assms builtin_clz_props(1,3) [of v] by (intro uint_lt_of_no_bits) auto
qed

section \<open>Condition-register fields\<close>

lemma bit_cr_insert:
  assumes "s + 4 \<le> 32" "\<And>k. 4 \<le> k \<Longrightarrow> \<not> bit v k"
  shows "bit (cr_insert cr s v) n =
    (if s \<le> n \<and> n < s + 4 then bit v (n - s) else bit cr n)"
proof (cases "n < 32")
  case True
  then show ?thesis
    using assms(1) assms(2) [of "n - s"]
    by (cases "4 \<le> n - s") (auto simp: cr_insert_def bit_or_iff bit_and_iff bit_not_iff bit_push_bit_iff word_facts)
next
  case False
  then show ?thesis
    using assms(1) bit_imp_le_length [of cr n] bit_imp_le_length [of "cr_insert cr s v" n]
    by auto
qed

lemma cr_compare_value_bits:
  "bit (cr_compare_value lt gt eq xer) n =
     (n = 3 \<and> lt \<or> n = 2 \<and> gt \<or> n = 1 \<and> eq \<or> n = 0 \<and> bit xer 31)"
  by (auto simp: cr_compare_value_def bit_or_iff bit_and_iff bit_drop_bit_eq bit_1_iff word_facts)

lemma GetCRBit_bit: "GetCRBitResident cr field b = bit cr ((7 - field) * 4 + (3 - b))"
  by (simp add: GetCRBitResident_def and_one_nonzero bit_drop_bit_eq)


lemma cr_insert_compare_bits:
  assumes "field \<le> 7" "b \<le> 3"
  shows "GetCRBitResident (cr_insert cr ((7 - field) * 4) (cr_compare_value lt gt eq xer)) field b =
    (b = 0 \<and> lt \<or> b = 1 \<and> gt \<or> b = 2 \<and> eq \<or> b = 3 \<and> bit xer 31)"
proof -
  have "(7 - field) * 4 + 4 \<le> 32" using assms by simp
  then show ?thesis
    using assms by (auto simp: GetCRBit_bit bit_cr_insert cr_compare_value_bits)
qed

lemma cr_insert_other_field:
  assumes "field \<le> 7" "field' \<le> 7" "field \<noteq> field'" "b \<le> 3"
  shows "GetCRBitResident (cr_insert cr ((7 - field) * 4) (cr_compare_value lt gt eq xer)) field' b =
    GetCRBitResident cr field' b"
proof -
  have "(7 - field) * 4 + 4 \<le> 32" using assms by simp
  moreover have "\<not> ((7 - field) * 4 \<le> (7 - field') * 4 + (3 - b) \<and>
      (7 - field') * 4 + (3 - b) < (7 - field) * 4 + 4)"
    using assms by linarith
  ultimately show ?thesis
    using assms by (auto simp: GetCRBit_bit bit_cr_insert cr_compare_value_bits)
qed

lemma bit_index_31: "unat ((i :: u32) AND 31) \<le> 31"
  using amount_low_bits [of i] by simp

lemma bit_PpcCrSetBitResident:
  "bit (PpcCrSetBitResident cr i v) n =
     (if n = 31 - unat (i AND 31) then bit v 0 else bit cr n)"
proof (cases "n < 32")
  case True
  have p: "bit (push_bit m (1 :: u32)) k = (k < 32 \<and> k = m)" for m k
    by (auto simp: bit_push_bit_iff bit_1_iff simp del: push_bit_of_1)
  show ?thesis
    using True
    by (auto simp: p PpcCrSetBitResident_def Let_def and_one_nonzero bit_or_iff bit_and_iff bit_not_iff
        simp del: push_bit_of_1)
next
  case False
  then show ?thesis
    using bit_index_31 [of i] bit_imp_le_length [of cr n]
      bit_imp_le_length [of "PpcCrSetBitResident cr i v" n] by auto
qed


lemma cr_read_bit:
  "drop_bit (31 - unat (i AND 31)) (cr :: u32) AND 1 = of_bool (bit cr (31 - unat (i AND 31)))"
  by (rule bit_word_eqI) (auto simp: bit_and_iff bit_drop_bit_eq bit_1_iff bit_of_bool_iff)

section \<open>Properties\<close>

text \<open>The three variable shifts of the PowerPC (slw, srw, sraw) compute, for every shift
  amount, multiplication and flooring division by \<open>2 ^ (amount mod 64)\<close>: a left shift modulo
  \<open>2 ^ 32\<close>, an unsigned right shift, and an arithmetic right shift on the signed reading.
  Amounts 32 to 63 clear the word (or fill it with the sign).\<close>

theorem ppc_shift_semantics:
  "uint (PPC_Slw v a) = uint v * 2 ^ (unat a mod 64) mod 2 ^ 32 \<and>
   uint (PPC_Srw v a) = uint v div 2 ^ (unat a mod 64) \<and>
   sint (PPC_Sraw v a) = sint v div 2 ^ (unat a mod 64)"
  by (simp add: uint_Slw uint_Srw sint_Sraw)

text \<open>A comparison writes its condition-register field exactly: the four bits of the field
  are less, greater, equal (of the signed readings) and a copy of XER[SO], exactly one of the first
  three is set, and every bit of every other field is unchanged.\<close>

theorem set_cr_signed_field:
  assumes "field \<le> 7" "field' \<le> 7" "b \<le> 3"
  shows "GetCRBitResident (SetCRResident_signed cr xer field x y) field' b =
    (if field' = field
     then (if b = 0 then sint x < sint y else if b = 1 then sint x > sint y
           else if b = 2 then x = y else bit xer 31)
     else GetCRBitResident cr field' b)"
  using assms cr_insert_compare_bits cr_insert_other_field
  by (cases "field' = field") (auto simp: SetCRResident_signed_def)

theorem set_cr_signed_field_witness:
  "GetCRBitResident (SetCRResident_signed 0xFFFFFFFF 0x80000000 2 (-5) 3) 2 0 = True \<and>
   GetCRBitResident (SetCRResident_signed 0xFFFFFFFF 0x80000000 2 (-5) 3) 7 1 =
     GetCRBitResident 0xFFFFFFFF 7 1"
  using set_cr_signed_field [of 2 2 0 "0xFFFFFFFF" "0x80000000" "-5" 3]
    set_cr_signed_field [of 2 7 1 "0xFFFFFFFF" "0x80000000" "-5" 3] by simp

text \<open>A condition-register logical operation writes bit \<open>bt\<close> with the Boolean function the
  opcode selects, of the old bits \<open>ba\<close> and \<open>bb\<close>, and leaves the other 31 bits alone.\<close>

theorem cr_logical_semantics:
  defines "pos i \<equiv> 31 - unat (i AND (31 :: u32))"
  shows "bit (PpcCrLogicalResident cr op bt ba bb) n =
    (if n = pos bt
     then (let a = bit cr (pos ba); b = bit cr (pos bb); sel = unat op mod 8 in
       [\<not> (a \<or> b), a \<and> \<not> b, a \<noteq> b, \<not> (a \<and> b), a \<and> b, a = b, \<not> (a \<and> \<not> b), a \<or> b] ! sel)
     else bit cr n)"
proof -
  have sel: "op AND 7 = of_nat (unat op mod 8)"
  proof -
    have "op AND mask 3 = take_bit 3 op" by (simp add: take_bit_eq_mask)
    moreover have "of_nat (unat (op mod 8)) = op mod 8" by (simp only: of_nat_unat ucast_id)
    ultimately show ?thesis
      by (simp add: mask_eq_exp_minus_1 take_bit_eq_mod unat_mod_distrib)
  qed
  have "unat op mod 8 < 8" by simp
  then consider "unat op mod 8 = 0" | "unat op mod 8 = 1" | "unat op mod 8 = 2"
    | "unat op mod 8 = 3" | "unat op mod 8 = 4" | "unat op mod 8 = 5"
    | "unat op mod 8 = 6" | "unat op mod 8 = 7" by linarith
  then show ?thesis
    by cases (auto simp: PpcCrLogicalResident_def Let_def bit_PpcCrSetBitResident sel cr_read_bit
        pos_def)
qed

end
