(* ===== verification/CpuContext.thy ===== *)
theory CpuContext
  imports Prelude
begin

text \<open>The register file translated code runs on, shared by the instruction helpers and the
  guest-machine model.\<close>

section \<open>The CPU context\<close>

text \<open>\<open>CpuContext\<close>: the register file of \<open>isa/ppc_isa_context.h\<close> (FPRs as their raw bits).\<close>

record cpu_context =
  gpr :: "nat \<Rightarrow> u32"
  cr :: u32
  lr :: u32
  ctr :: u32
  xer :: u32
  fpscr :: u32
  pc :: u32
  fpr :: "nat \<Rightarrow> u64"
  gqr :: "nat \<Rightarrow> u32"
  hid0 :: u32
  hid1 :: u32
  hid2 :: u32
  srr0 :: u32
  srr1 :: u32
  msr :: u32

definition zero_cpu :: cpu_context where
  "zero_cpu = \<lparr>gpr = (\<lambda>_. 0), cr = 0, lr = 0, ctr = 0, xer = 0, fpscr = 0, pc = 0,
    fpr = (\<lambda>_. 0), gqr = (\<lambda>_. 0), hid0 = 0, hid1 = 0, hid2 = 0, srr0 = 0, srr1 = 0, msr = 0\<rparr>"

end
