(* ===== verification/PpcXer.thy ===== *)
theory PpcXer
  imports PpcInt CpuContext
begin

unbundle bit_operations_syntax

text \<open>
  The out-of-line integer helpers of \<open>runtime/src/ppc_helpers.cpp\<close> that keep the carry and
  overflow bits of XER, the special-purpose registers and the condition register in the
  current CPU context.  \<open>TryGetCpuContext()\<close> may return null, so each helper takes and
  returns a \<open>cpu_context option\<close>; with no context the code computes its result and
  changes nothing.
\<close>

section \<open>Carry and overflow\<close>

text \<open>\<open>cpu->xer = (cpu->xer & ~0x20000000u) | (carryOut << 29)\<close>\<close>

definition put_carry :: "u32 \<Rightarrow> cpu_context \<Rightarrow> cpu_context" where
  "put_carry carryOut c = c\<lparr>xer := (xer c AND NOT 0x20000000) OR push_bit 29 carryOut\<rparr>"

text \<open>What the three \<open>PPC_UpdateCarry*\<close> helpers end with: the new XER, or the bare bit.\<close>

definition publish_carry :: "u32 \<Rightarrow> cpu_context option \<Rightarrow> u32 \<times> cpu_context option" where
  "publish_carry carryOut cpu =
     (case cpu of
       Some c \<Rightarrow> (xer (put_carry carryOut c), Some (put_carry carryOut c))
     | None \<Rightarrow> (push_bit 29 carryOut, None))"

definition PPC_UpdateCarryAdd :: "u32 \<Rightarrow> u32 \<Rightarrow> u32 \<Rightarrow> cpu_context option \<Rightarrow> u32 \<times> cpu_context option" where
  "PPC_UpdateCarryAdd lhs rhs carryIn cpu =
     (let sum = (ucast lhs :: u64) + ucast rhs + ucast (carryIn AND 1);
          carryOut = (ucast (drop_bit 32 sum AND 1) :: u32)
      in publish_carry carryOut cpu)"

definition PPC_UpdateCarrySub :: "u32 \<Rightarrow> u32 \<Rightarrow> cpu_context option \<Rightarrow> u32 \<times> cpu_context option" where
  "PPC_UpdateCarrySub lhs rhs cpu = publish_carry (if rhs \<le> lhs then 1 else 0) cpu"

definition PPC_UpdateCarryShiftRight :: "u32 \<Rightarrow> u32 \<Rightarrow> cpu_context option \<Rightarrow> u32 \<times> cpu_context option" where
  "PPC_UpdateCarryShiftRight val shift cpu =
     (let isNegative = (val AND 0x80000000 \<noteq> 0);
          carryOut =
            (if shift AND 0x20 \<noteq> 0 then (if isNegative then 1 else 0)
             else let sh = unat (shift AND 31) in
               if sh \<noteq> 0 \<and> isNegative
               then (if val AND (push_bit sh 1 - 1) \<noteq> 0 then 1 else 0)
               else 0)
      in publish_carry carryOut cpu)"

definition PPC_GetCarry :: "cpu_context option \<Rightarrow> u32" where
  "PPC_GetCarry cpu = (case cpu of None \<Rightarrow> 0 | Some c \<Rightarrow> drop_bit 29 (xer c) AND 1)"

definition UpdateOverflow :: "bool \<Rightarrow> cpu_context option \<Rightarrow> cpu_context option" where
  "UpdateOverflow overflow cpu =
     map_option (\<lambda>c. if overflow then c\<lparr>xer := xer c OR 0xC0000000\<rparr>
                     else c\<lparr>xer := xer c AND NOT 0x40000000\<rparr>) cpu"

definition AddWithXer :: "u32 \<Rightarrow> u32 \<Rightarrow> u32 \<Rightarrow> bool \<Rightarrow> cpu_context option \<Rightarrow> u32 \<times> cpu_context option" where
  "AddWithXer lhs rhs carryIn updateCarry cpu =
     (let wide = (ucast lhs :: u64) + ucast rhs + ucast (carryIn AND 1);
          result = (ucast wide :: u32);
          overflow = ((NOT (lhs XOR rhs) AND (lhs XOR result)) AND 0x80000000 \<noteq> 0);
          cpu1 = (if updateCarry then snd (PPC_UpdateCarryAdd lhs rhs carryIn cpu) else cpu)
      in (result, UpdateOverflow overflow cpu1))"

definition SubfWithXer :: "u32 \<Rightarrow> u32 \<Rightarrow> u32 \<Rightarrow> bool \<Rightarrow> bool \<Rightarrow> cpu_context option \<Rightarrow> u32 \<times> cpu_context option" where
  "SubfWithXer subtrahend minuend carryIn extended updateCarry cpu =
     (let rhs = NOT subtrahend;
          wide = (ucast rhs :: u64) + ucast minuend
            + (if extended then ucast (carryIn AND 1) else 1);
          result = (ucast wide :: u32);
          overflow = (((minuend XOR subtrahend) AND (minuend XOR result)) AND 0x80000000 \<noteq> 0);
          carryOut = (ucast (drop_bit 32 wide AND 1) :: u32);
          cpu1 = (if updateCarry then map_option (put_carry carryOut) cpu else cpu)
      in (result, UpdateOverflow overflow cpu1))"

definition PPC_Addo where "PPC_Addo lhs rhs cpu = AddWithXer lhs rhs 0 False cpu"
definition PPC_Addco where "PPC_Addco lhs rhs cpu = AddWithXer lhs rhs 0 True cpu"
definition PPC_Addeo where "PPC_Addeo lhs rhs cpu = AddWithXer lhs rhs (PPC_GetCarry cpu) True cpu"
definition PPC_Addmeo where "PPC_Addmeo val cpu = AddWithXer val 0xFFFFFFFF (PPC_GetCarry cpu) True cpu"
definition PPC_Addzeo where "PPC_Addzeo val cpu = AddWithXer val 0 (PPC_GetCarry cpu) True cpu"
definition PPC_Subfo where "PPC_Subfo sub minu cpu = SubfWithXer sub minu 0 False False cpu"
definition PPC_Subfco where "PPC_Subfco sub minu cpu = SubfWithXer sub minu 0 False True cpu"
definition PPC_Subfeo where "PPC_Subfeo sub minu cpu = SubfWithXer sub minu (PPC_GetCarry cpu) True True cpu"
definition PPC_Subfmeo where "PPC_Subfmeo val cpu = SubfWithXer val 0xFFFFFFFF (PPC_GetCarry cpu) True True cpu"
definition PPC_Subfzeo where "PPC_Subfzeo val cpu = SubfWithXer val 0 (PPC_GetCarry cpu) True True cpu"
definition PPC_Nego where "PPC_Nego val cpu = SubfWithXer val 0 0 False False cpu"

definition PPC_Mullwo :: "u32 \<Rightarrow> u32 \<Rightarrow> cpu_context option \<Rightarrow> u32 \<times> cpu_context option" where
  "PPC_Mullwo lhs rhs cpu =
     (let product = sint lhs * sint rhs
      in (word_of_int product,
          UpdateOverflow (product < - 2147483648 \<or> product > 2147483647) cpu))"

definition PPC_Divwo :: "u32 \<Rightarrow> u32 \<Rightarrow> cpu_context option \<Rightarrow> u32 \<times> cpu_context option" where
  "PPC_Divwo lhs rhs cpu =
     (let dividend = sint lhs; divisor = sint rhs
      in if divisor = 0 \<or> dividend = - 2147483648 \<and> divisor = -1
         then (if dividend < 0 then 0xFFFFFFFF else 0, UpdateOverflow True cpu)
         else (word_of_int (cdiv dividend divisor), UpdateOverflow False cpu))"

definition PPC_Divwuo :: "u32 \<Rightarrow> u32 \<Rightarrow> cpu_context option \<Rightarrow> u32 \<times> cpu_context option" where
  "PPC_Divwuo lhs rhs cpu =
     (if rhs = 0 then (0, UpdateOverflow True cpu) else (lhs div rhs, UpdateOverflow False cpu))"

section \<open>Trap, condition register and special-purpose registers\<close>

text \<open>\<open>PPC_TrapWord\<close> throws exactly when the trap fires: \<open>True\<close> is the exception.\<close>

definition PPC_TrapWord :: "u32 \<Rightarrow> u32 \<Rightarrow> u32 \<Rightarrow> bool" where
  "PPC_TrapWord trapOptions lhs rhs \<longleftrightarrow>
     (trapOptions AND 0x10 \<noteq> 0 \<and> sint lhs < sint rhs) \<or>
     (trapOptions AND 0x08 \<noteq> 0 \<and> sint lhs > sint rhs) \<or>
     (trapOptions AND 0x04 \<noteq> 0 \<and> lhs = rhs) \<or>
     (trapOptions AND 0x02 \<noteq> 0 \<and> lhs < rhs) \<or>
     (trapOptions AND 0x01 \<noteq> 0 \<and> lhs > rhs)"

definition kFpscrVxAny :: u32 where
  "kFpscrVxAny = push_bit 24 1 OR push_bit 23 1 OR push_bit 22 1 OR push_bit 21 1 OR push_bit 20 1
     OR push_bit 19 1 OR push_bit 10 1 OR push_bit 9 1 OR push_bit 8 1"

definition kFpscrAnyX :: u32 where
  "kFpscrAnyX = push_bit 28 1 OR push_bit 27 1 OR push_bit 26 1 OR push_bit 25 1 OR kFpscrVxAny"

definition kFpscrAnyE :: u32 where
  "kFpscrAnyE = push_bit 7 1 OR push_bit 6 1 OR push_bit 5 1 OR push_bit 4 1 OR push_bit 3 1"

definition UpdateFpscrSummary :: "u32 \<Rightarrow> u32" where
  "UpdateFpscrSummary f =
     (let f1 = (if f AND kFpscrVxAny \<noteq> 0 then f OR push_bit 29 1 else f AND NOT (push_bit 29 1))
      in if drop_bit 22 f1 AND (f1 AND kFpscrAnyE) \<noteq> 0 then f1 OR push_bit 30 1
         else f1 AND NOT (push_bit 30 1))"

definition PPC_Mcrfs :: "u32 \<Rightarrow> u32 \<Rightarrow> cpu_context option \<Rightarrow> u32 \<times> cpu_context option" where
  "PPC_Mcrfs dstField srcField cpu =
     (case cpu of
       None \<Rightarrow> (0, None)
     | Some c \<Rightarrow>
         (let dst = unat (dstField AND 7);
              src = unat (srcField AND 7);
              val = drop_bit ((7 - src) * 4) (fpscr c) AND 0xF;
              cr' = (cr c AND NOT (push_bit ((7 - dst) * 4) 0xF)) OR push_bit ((7 - dst) * 4) val;
              f' = fpscr c AND NOT (push_bit ((7 - src) * 4) 0xF AND (push_bit 31 1 OR kFpscrAnyX))
          in (cr', Some (c\<lparr>cr := cr', fpscr := UpdateFpscrSummary f'\<rparr>))))"

definition PPC_Mcrxr :: "u32 \<Rightarrow> cpu_context option \<Rightarrow> u32 \<times> cpu_context option" where
  "PPC_Mcrxr crField cpu =
     (case cpu of
       None \<Rightarrow> (0, None)
     | Some c \<Rightarrow>
         (let field = unat (crField AND 7);
              val = drop_bit 28 (xer c) AND 0xF;
              shift = (7 - field) * 4;
              cr' = (cr c AND NOT (push_bit shift 0xF)) OR push_bit shift val
          in (cr', Some (c\<lparr>cr := cr', xer := xer c AND NOT 0xF0000000\<rparr>))))"

text \<open>
  The shadow array holds the last value written to each unhandled SPR below 2048.  The
  time base is read from the host clock, a parameter.
\<close>

definition PPC_ReadSpr :: "u64 \<Rightarrow> u32 \<Rightarrow> cpu_context option \<Rightarrow> (nat \<Rightarrow> u32) \<Rightarrow> u32" where
  "PPC_ReadSpr timebase spr cpu shadow =
     (let n = unat spr;
          shadowValue = (if n < 2048 then shadow n else 0);
          reg = (\<lambda>f. case cpu of None \<Rightarrow> 0 | Some c \<Rightarrow> f c)
      in if 912 \<le> n \<and> n \<le> 919 then reg (\<lambda>c. gqr c (n - 912))
         else if n = 8 then reg lr
         else if n = 9 then reg ctr
         else if n = 1 then reg xer
         else if n = 26 then reg srr0
         else if n = 27 then reg srr1
         else if n = 268 then ucast timebase
         else if n = 269 then ucast (drop_bit 32 timebase)
         else if n = 287 then 0x00087200
         else if n = 920 then reg hid2
         else if n = 1008 then reg hid0
         else if n = 1009 then reg hid1
         else shadowValue)"

definition PPC_WriteSpr ::
  "u32 \<Rightarrow> u32 \<Rightarrow> cpu_context option \<times> (nat \<Rightarrow> u32) \<Rightarrow> cpu_context option \<times> (nat \<Rightarrow> u32)" where
  "PPC_WriteSpr spr val st =
     (let n = unat spr; cpu = fst st; shadow = snd st;
          put = (\<lambda>f. (map_option f cpu, shadow))
      in if 912 \<le> n \<and> n \<le> 919 then put (\<lambda>c. c\<lparr>gqr := (gqr c)(n - 912 := val)\<rparr>)
         else if n = 8 then put (\<lambda>c. c\<lparr>lr := val\<rparr>)
         else if n = 9 then put (\<lambda>c. c\<lparr>ctr := val\<rparr>)
         else if n = 1 then put (\<lambda>c. c\<lparr>xer := val\<rparr>)
         else if n = 26 then put (\<lambda>c. c\<lparr>srr0 := val\<rparr>)
         else if n = 27 then put (\<lambda>c. c\<lparr>srr1 := val\<rparr>)
         else if n = 920 then put (\<lambda>c. c\<lparr>hid2 := val\<rparr>)
         else if n = 1008 then put (\<lambda>c. c\<lparr>hid0 := val\<rparr>)
         else if n = 1009 then put (\<lambda>c. c\<lparr>hid1 := val\<rparr>)
         else (cpu, if n < 2048 then shadow(n := val) else shadow))"

definition PPC_CrSetBit :: "u32 \<Rightarrow> u32 \<Rightarrow> cpu_context option \<Rightarrow> u32 \<times> cpu_context option" where
  "PPC_CrSetBit bitIndex val cpu =
     (case cpu of None \<Rightarrow> (0, None)
      | Some c \<Rightarrow> let cr' = PpcCrSetBitResident (cr c) bitIndex val in (cr', Some (c\<lparr>cr := cr'\<rparr>)))"

definition PPC_CrLogical :: "u32 \<Rightarrow> u32 \<Rightarrow> u32 \<Rightarrow> u32 \<Rightarrow> cpu_context option \<Rightarrow> u32 \<times> cpu_context option" where
  "PPC_CrLogical op bt ba bb cpu =
     (case cpu of None \<Rightarrow> (0, None)
      | Some c \<Rightarrow> let cr' = PpcCrLogicalResident (cr c) op bt ba bb in (cr', Some (c\<lparr>cr := cr'\<rparr>)))"

definition PPC_Mcrf :: "u32 \<Rightarrow> u32 \<Rightarrow> cpu_context option \<Rightarrow> u32 \<times> cpu_context option" where
  "PPC_Mcrf dstField srcField cpu =
     (case cpu of None \<Rightarrow> (0, None)
      | Some c \<Rightarrow> let cr' = PpcMcrfResident (cr c) dstField srcField in (cr', Some (c\<lparr>cr := cr'\<rparr>)))"

section \<open>Arithmetic of the widened sum\<close>

lemma and_one_of_bool: "(c :: u32) AND 1 = of_bool (bit c 0)"
  by (rule bit_word_eqI) (auto simp: bit_and_iff bit_1_iff bit_of_bool_iff)

abbreviation carry_in :: "u32 \<Rightarrow> int" where
  "carry_in c \<equiv> of_bool (bit c 0)"

lemma take_bit_64_u32: "take_bit 64 (uint (v :: u32)) = uint v"
  using uint_u32_bounds [of v] by (simp add: take_bit_int_eq_self)

lemma uint_wide:
  "uint ((ucast (l :: u32) :: u64) + ucast (r :: u32) + ucast (c AND 1 :: u32))
    = uint l + uint r + carry_in c"
proof -
  have "uint l + uint r + carry_in c < 18446744073709551616" "uint l + uint r < 18446744073709551616"
    using uint_u32_bounds(2) [of l] uint_u32_bounds(2) [of r] by (simp_all add: of_bool_def)
  then show ?thesis
    by (simp add: uint_word_ariths and_one_of_bool unsigned_ucast_eq take_bit_64_u32
        mod_pos_pos_trivial of_bool_def split: if_splits)
qed

lemma ucast_sum_result:
  assumes "uint (w :: u64) = k"
  shows "(ucast w :: u32) = word_of_int k"
  using assms by (metis ucast_eq)

lemma sum_carry_out:
  assumes "uint (w :: u64) = k" "k < 2 ^ 33"
  shows "(ucast (drop_bit 32 w AND 1) :: u32) = of_bool (2 ^ 32 \<le> k)"
proof -
  have "uint (drop_bit 32 w) = k div 2 ^ 32"
    using assms uint_ge_0 [of w] uint_bounded [of w]
    by (simp add: unsigned_drop_bit_eq drop_bit_eq_div [where 'a = int] take_bit_int_eq_self)
  moreover have "k div 2 ^ 32 = (if 2 ^ 32 \<le> k then 1 else 0)"
    using assms uint_ge_0 [of w] by (auto simp: div_pos_pos_trivial intro: int_div_pos_eq [where r = "k - 2 ^ 32"])
  ultimately have "drop_bit 32 w = of_bool (2 ^ 32 \<le> k)"
    by (simp add: word_uint_eq_iff)
  then show ?thesis by simp
qed


text \<open>A wrapped sum differs from the true sum exactly when the signs say so.\<close>

lemma add_overflow_bit:
  assumes res: "res = word_of_int (uint l + uint r + carry_in c)"
  shows "(((NOT (l XOR r) AND (l XOR res)) AND 0x80000000 :: u32) \<noteq> 0)
    = (sint l + sint r + carry_in c \<noteq> sint res)"
proof -
  have eq: "sint res = (sint l + sint r + carry_in c + 2147483648) mod 4294967296 - 2147483648"
  proof -
    obtain x y where "uint l = sint l + 4294967296 * x" "uint r = sint r + 4294967296 * y"
      using uint_eq_sint_mod by metis
    then have "uint l + uint r + carry_in c + 2147483648 =
      sint l + sint r + carry_in c + 2147483648 + 4294967296 * (x + y)"
      by (simp add: algebra_simps)
    then show ?thesis unfolding res sint_word_of_int_u32 by (simp only: mod_mult_self2)
  qed
  have b: "(((NOT (l XOR r) AND (l XOR res)) AND 0x80000000 :: u32) \<noteq> 0)
    = ((sint l < 0) = (sint r < 0) \<and> (sint l < 0) \<noteq> (sint res < 0))"
    by (auto simp: and_top_bit_nonzero bit_and_iff bit_not_iff bit_xor_iff simp flip: bit31_iff_neg)
  have k: "0 \<le> carry_in c" "carry_in c \<le> 1" by simp_all
  show ?thesis
    unfolding b using eq k sint_u32_bounds [of l] sint_u32_bounds [of r]
    by (subst (asm) wrap_once) (linarith, linarith, auto split: if_splits)
qed

section \<open>The XER bits\<close>

lemma bit_xer_masks:
  "bit (- 536870913 :: int) n = (n \<noteq> 29)"
  "bit (- 1073741825 :: int) n = (n \<noteq> 30)"
  "bit (3221225472 :: int) n = (n = 30 \<or> n = 31)"
proof -
  have e: "(- 536870913 :: int) = NOT (2 ^ 29)" "(- 1073741825 :: int) = NOT (2 ^ 30)"
    "(3221225472 :: int) = 2 ^ 30 OR 2 ^ 31" by simp_all
  show "bit (- 536870913 :: int) n = (n \<noteq> 29)"
    unfolding e by (simp only: bit_not_iff bit_exp_iff) auto
  show "bit (- 1073741825 :: int) n = (n \<noteq> 30)"
    unfolding e by (simp only: bit_not_iff bit_exp_iff) auto
  show "bit (3221225472 :: int) n = (n = 30 \<or> n = 31)"
    unfolding e by (simp only: bit_or_iff bit_exp_iff) auto
qed

lemma bit_put_carry [simp]:
  "bit (xer (put_carry (of_bool b) c)) n = (if n = 29 then b else bit (xer c) n)"
proof -
  have "bit (push_bit 29 (of_bool b :: u32)) n = (n = 29 \<and> b)"
    by (cases b) (auto simp: bit_push_bit_iff bit_1_iff simp del: push_bit_of_1)
  then show ?thesis
    using bit_imp_le_length [of "xer c" n]
    by (auto simp: put_carry_def bit_or_iff bit_and_iff bit_xer_masks)
qed

lemma bit_UpdateOverflow [simp]:
  "bit (xer (the (UpdateOverflow ov (Some c)))) n =
    (if n = 30 then ov else if n = 31 then bit (xer c) 31 \<or> ov else bit (xer c) n)"
  using bit_imp_le_length [of "xer c" n]
  by (auto simp: UpdateOverflow_def bit_or_iff bit_and_iff bit_xer_masks)

lemma UpdateOverflow_Some: "UpdateOverflow ov (Some c) = Some (the (UpdateOverflow ov (Some c)))"
  by (simp add: UpdateOverflow_def)

text \<open>What an add or subtract with carry leaves in XER: a reference description.\<close>

definition xer_after :: "bool \<Rightarrow> bool \<Rightarrow> bool \<Rightarrow> u32 \<Rightarrow> nat \<Rightarrow> bool" where
  "xer_after updateCarry ca ov x n =
     (if n = 29 \<and> updateCarry then ca
      else if n = 30 then ov
      else if n = 31 then bit x 31 \<or> ov
      else bit x n)"

section \<open>Properties\<close>

text \<open>C34: the carrying adds (addo, addco, addeo, addmeo, addzeo all run this) return the sum
  modulo \<open>2 ^ 32\<close>; XER[CA] becomes the unsigned carry out when the instruction records it, XER[OV]
  is set exactly when the signed sum does not fit in 32 bits, XER[SO] is sticky, and no other bit
  of XER changes.\<close>

theorem add_with_xer_semantics:
  "\<exists>c'. AddWithXer l r cin upd (Some c) = (word_of_int (uint l + uint r + carry_in cin), Some c') \<and>
    (\<forall>n. bit (xer c') n =
      xer_after upd (2 ^ 32 \<le> uint l + uint r + carry_in cin)
        (\<not> (- (2 ^ 31) \<le> sint l + sint r + carry_in cin \<and>
            sint l + sint r + carry_in cin < 2 ^ 31)) (xer c) n)"
proof -
  let ?k = "uint l + uint r + carry_in cin" and ?s = "sint l + sint r + carry_in cin"
  let ?w = "(ucast l :: u64) + ucast r + ucast (cin AND 1)"
  have w: "uint ?w = ?k" by (rule uint_wide)
  have k33: "?k < 2 ^ 33"
    using uint_u32_bounds(2) [of l] uint_u32_bounds(2) [of r] by (simp add: of_bool_def)
  let ?res = "word_of_int ?k :: u32"
  have res: "(ucast ?w :: u32) = ?res" using w by (rule ucast_sum_result)
  have fits: "(?s \<noteq> sint ?res) = (\<not> (- (2 ^ 31) \<le> ?s \<and> ?s < 2 ^ 31))"
  proof -
    have "?res = word_of_int ?s"
    proof -
      obtain x y where "uint l = sint l + 4294967296 * x" "uint r = sint r + 4294967296 * y"
        using uint_eq_sint_mod by metis
      then have "?k = ?s + 4294967296 * (x + y)" by (simp add: algebra_simps)
      then show ?thesis using word_of_int_wrap [of ?s "x + y"] by simp
    qed
    then show ?thesis using sint_word_of_int_eq_iff [of ?s] by auto
  qed
  have ov: "((NOT (l XOR r) AND (l XOR ?res)) AND 0x80000000 \<noteq> 0) =
      (\<not> (- (2 ^ 31) \<le> ?s \<and> ?s < 2 ^ 31))"
    using add_overflow_bit [of ?res l r cin] fits by blast
  let ?ov = "(NOT (l XOR r) AND (l XOR ?res)) AND 0x80000000 \<noteq> 0"
  let ?c1 = "if upd then put_carry (of_bool (2 ^ 32 \<le> ?k)) c else c"
  let ?c' = "the (UpdateOverflow ?ov (Some ?c1))"
  have "AddWithXer l r cin upd (Some c) = (?res, Some ?c')"
    using sum_carry_out [OF w k33]
    by (simp add: AddWithXer_def Let_def res PPC_UpdateCarryAdd_def publish_carry_def
        UpdateOverflow_def)
  moreover have "bit (xer ?c') n = xer_after upd (2 ^ 32 \<le> ?k) ?ov (xer c) n" for n
    by (simp add: xer_after_def)
  ultimately show ?thesis unfolding ov by blast
qed


lemma subf_as_add:
  "SubfWithXer s m cin ext upd cpu = AddWithXer m (NOT s) (if ext then cin else 1) upd cpu"
proof -
  have w: "(ucast (NOT s) :: u64) + ucast m + (if ext then ucast (cin AND 1) else 1) =
      ucast m + ucast (NOT s) + ucast ((if ext then cin else 1) AND 1 :: u32)"
    by simp
  have o: "(m XOR s) AND (m XOR res) = NOT (m XOR NOT s) AND (m XOR res)" for res
    by (rule bit_word_eqI) (auto simp: bit_and_iff bit_not_iff bit_xor_iff)
  show ?thesis
    unfolding SubfWithXer_def AddWithXer_def Let_def w o
    by (cases cpu) (simp_all add: PPC_UpdateCarryAdd_def publish_carry_def Let_def)
qed

lemma NOT_u32: "NOT (s :: u32) = - 1 - s"
  by (simp add: not_eq_complement)

lemma uint_NOT: "uint (NOT s :: u32) = 4294967295 - uint s"
proof -
  have "NOT s = word_of_int (- 1 - uint s + 4294967296 * 1)"
    unfolding word_of_int_wrap by (simp add: NOT_u32)
  moreover have "uint (word_of_int (4294967295 - uint s) :: u32) = 4294967295 - uint s"
    using uint_u32_bounds [of s] by (intro uint_word_of_int_u32) linarith+
  ultimately show ?thesis by simp
qed

lemma sint_NOT: "sint (NOT s :: u32) = - 1 - sint s"
proof -
  have "NOT s = word_of_int (- 1 - sint s)" by (simp add: NOT_u32)
  then show ?thesis
    using sint_u32_bounds [of s] sint_word_of_int_eq_iff [of "- 1 - sint s"] by simp
qed

text \<open>The subtract-from family returns minuend - subtrahend (minus one plus the carry in when
  extended) modulo \<open>2 ^ 32\<close>; CA records "no borrow", OV the signed overflow of the true
  difference, SO is sticky, and no other bit of XER changes.\<close>

theorem subf_with_xer_semantics:
  defines "k ext cin \<equiv> (if ext then carry_in cin else 1)"
  shows "\<exists>c'. SubfWithXer s m cin ext upd (Some c) =
      (word_of_int (uint m - uint s - 1 + k ext cin), Some c') \<and>
    (\<forall>n. bit (xer c') n =
      xer_after upd (uint s + 1 - k ext cin \<le> uint m)
        (\<not> (- (2 ^ 31) \<le> sint m - sint s - 1 + k ext cin \<and>
            sint m - sint s - 1 + k ext cin < 2 ^ 31)) (xer c) n)"
proof -
  let ?c = "if ext then cin else 1"
  have k: "carry_in ?c = k ext cin" by (simp add: k_def)
  have u: "uint m + uint (NOT s) + carry_in ?c = uint m - uint s - 1 + k ext cin + 4294967296 * 1"
    unfolding k by (simp add: uint_NOT)
  have v: "sint m + sint (NOT s) + carry_in ?c = sint m - sint s - 1 + k ext cin"
    unfolding k by (simp add: sint_NOT)
  have ca: "(2 ^ 32 \<le> uint m - uint s - 1 + k ext cin + 4294967296 * 1) =
      (uint s + 1 - k ext cin \<le> uint m)"
    by (simp, linarith)
  show ?thesis
    using add_with_xer_semantics [of m "NOT s" ?c upd c]
    unfolding subf_as_add u v ca word_of_int_wrap .
qed

text \<open>
  What recording an overflow leaves: XER[OV] is the overflow, XER[SO] is sticky, every other bit of XER
  and every other register is as before; without a CPU context nothing happens.
\<close>

definition overflow_recorded :: "bool \<Rightarrow> cpu_context option \<Rightarrow> cpu_context option \<Rightarrow> bool" where
  "overflow_recorded ov cpu cpu' \<longleftrightarrow>
     (case cpu of
        None \<Rightarrow> cpu' = None
      | Some c \<Rightarrow> (\<exists>x. cpu' = Some (c\<lparr>xer := x\<rparr>) \<and> (\<forall>n. bit x n = xer_after False False ov (xer c) n)))"

lemma UpdateOverflow_records: "overflow_recorded ov cpu (UpdateOverflow ov cpu)"
proof (cases cpu)
  case None
  then show ?thesis by (simp add: overflow_recorded_def UpdateOverflow_def)
next
  case (Some c)
  let ?x = "xer (the (UpdateOverflow ov (Some c)))"
  have "UpdateOverflow ov (Some c) = Some (c\<lparr>xer := ?x\<rparr>)" by (simp add: UpdateOverflow_def)
  moreover have "bit ?x n = xer_after False False ov (xer c) n" for n by (simp add: xer_after_def)
  ultimately show ?thesis unfolding Some overflow_recorded_def by auto
qed

text \<open>The quotient of a truncating division is the integer that leaves a remainder smaller than the divisor
  with the sign of the dividend.\<close>

definition truncated_quotient :: "int \<Rightarrow> int \<Rightarrow> int \<Rightarrow> bool" where
  "truncated_quotient a b q \<longleftrightarrow> \<bar>a - q * b\<bar> < \<bar>b\<bar> \<and> (a - q * b = 0 \<or> sgn (a - q * b) = sgn a)"

lemma cdiv_truncated:
  assumes "b \<noteq> 0"
  shows "truncated_quotient a b (cdiv a b)"
proof -
  have r: "a - cdiv a b * b = sgn a * (\<bar>a\<bar> mod \<bar>b\<bar>)"
  proof -
    have "cdiv a b * b = sgn a * (\<bar>a\<bar> div \<bar>b\<bar> * \<bar>b\<bar>)" by (simp add: cdiv_def abs_sgn mult_ac)
    moreover have "a = sgn a * \<bar>a\<bar>" by (simp add: sgn_mult_abs)
    ultimately have "a - cdiv a b * b = sgn a * (\<bar>a\<bar> - \<bar>a\<bar> div \<bar>b\<bar> * \<bar>b\<bar>)" by (metis right_diff_distrib)
    then show ?thesis by (simp add: minus_div_mult_eq_mod)
  qed
  define m where "m = \<bar>a\<bar> mod \<bar>b\<bar>"
  have m: "m < \<bar>b\<bar>" "0 \<le> m" using assms by (simp_all add: m_def)
  have z: "m = 0" if "a = 0" using that by (simp add: m_def)
  show ?thesis unfolding truncated_quotient_def r m_def [symmetric] using m z
    by (cases "a = 0"; cases "m = 0") (auto simp: sgn_if abs_mult)
qed

text \<open>C35: the overflow-recording multiply returns the product modulo \<open>2 ^ 32\<close> and the divides the
  truncated quotient, or 0 (and -1 for a negative dividend of the signed divide) where there is none; each
  records an overflow exactly when the true result does not fit, which for a division is a zero divisor
  or, signed, \<open>-2 ^ 31 / -1\<close>.  Recording sets XER[OV] to it, keeps XER[SO] once set, and changes nothing
  else.\<close>

theorem mul_div_overflow:
  "fst (PPC_Mullwo l r cpu) = word_of_int (sint l * sint r) \<and>
   overflow_recorded (\<not> (- (2 ^ 31) \<le> sint l * sint r \<and> sint l * sint r < 2 ^ 31)) cpu (snd (PPC_Mullwo l r cpu)) \<and>
   (let none = (r = 0 \<or> sint l = - (2 ^ 31) \<and> sint r = -1) in
      overflow_recorded none cpu (snd (PPC_Divwo l r cpu)) \<and>
      (if none then fst (PPC_Divwo l r cpu) = (if sint l < 0 then - 1 else 0)
       else truncated_quotient (sint l) (sint r) (sint (fst (PPC_Divwo l r cpu))))) \<and>
   overflow_recorded (r = 0) cpu (snd (PPC_Divwuo l r cpu)) \<and>
   (if r = 0 then fst (PPC_Divwuo l r cpu) = 0
    else truncated_quotient (uint l) (uint r) (uint (fst (PPC_Divwuo l r cpu))))"
proof -
  have mul: "(sint l * sint r < - 2147483648 \<or> 2147483647 < sint l * sint r) =
      (\<not> (- (2 ^ 31) \<le> sint l * sint r \<and> sint l * sint r < 2 ^ 31))" by auto
  have s: "sint (word_of_int (cdiv (sint l) (sint r)) :: u32) = cdiv (sint l) (sint r)"
    if "r \<noteq> 0" "\<not> (sint l = - 2147483648 \<and> sint r = -1)"
    using cdiv_fits [of "sint l" "sint r"] sint_u32_bounds [of l] sint_u32_bounds [of r] that
    unfolding sint_word_of_int_eq_iff sint_eq_0_iff by auto
  have sq: "truncated_quotient (sint l) (sint r) (cdiv (sint l) (sint r))" if "r \<noteq> 0"
    using cdiv_truncated that by (simp add: sint_eq_0_iff)
  have uq: "truncated_quotient (uint l) (uint r) (uint (l div r))" if "r \<noteq> 0"
  proof -
    have r0: "0 < uint r" using that by (simp add: word_greater_zero_iff uint_0_iff order_less_le)
    define m where "m = uint l mod uint r"
    have m: "0 \<le> m" "m < uint r" "uint l = 0 \<Longrightarrow> m = 0" "0 \<le> uint l" using r0 by (simp_all add: m_def)
    have "uint l - uint (l div r) * uint r = uint l mod uint r"
      by (simp add: uint_div minus_div_mult_eq_mod)
    then show ?thesis unfolding truncated_quotient_def m_def [symmetric] using m r0
      by (cases "uint l = 0"; cases "m = 0") (auto simp: sgn_if order_less_le)
  qed
  show ?thesis
    using s sq uq UpdateOverflow_records
    by (auto simp: PPC_Mullwo_def PPC_Divwo_def PPC_Divwuo_def Let_def mul sint_eq_0_iff)
qed


text \<open>\<open>mtspr\<close> then \<open>mfspr\<close>: with a CPU context, every SPR below 2048 other than the two time
  base registers and the read-only PVR reads back the value last written to it, and writing it
  changes what no other SPR reads.\<close>

theorem spr_write_read:
  assumes "unat spr < 2048" "unat spr \<notin> {268, 269, 287}"
    and "PPC_WriteSpr spr val (Some c, shadow) = (cpu', shadow')"
  shows "PPC_ReadSpr tb spr cpu' shadow' = val \<and>
    (\<forall>spr'. spr' \<noteq> spr \<longrightarrow> PPC_ReadSpr tb spr' cpu' shadow' = PPC_ReadSpr tb spr' (Some c) shadow)"
proof -
  have ne: "spr' \<noteq> spr \<longleftrightarrow> unat spr' \<noteq> unat spr" for spr' :: u32
    by (simp add: word_unat_eq_iff)
  define n where "n = unat spr"
  consider "912 \<le> n \<and> n \<le> 919" | "n = 8" | "n = 9" | "n = 1" | "n = 26" | "n = 27" | "n = 920"
    | "n = 1008" | "n = 1009"
    | "\<not> (912 \<le> n \<and> n \<le> 919)" "n \<notin> {8, 9, 1, 26, 27, 920, 1008, 1009}" by auto
  then show ?thesis
    using assms unfolding ne n_def [symmetric] PPC_WriteSpr_def PPC_ReadSpr_def Let_def
    by cases auto
qed

theorem spr_write_read_witness:
  "PPC_ReadSpr 0 913 (fst (PPC_WriteSpr 913 7 (Some zero_cpu, \<lambda>_. 0)))
     (snd (PPC_WriteSpr 913 7 (Some zero_cpu, \<lambda>_. 0))) = 7"
  using spr_write_read [of 913 7 zero_cpu "\<lambda>_. 0"
      "fst (PPC_WriteSpr 913 7 (Some zero_cpu, \<lambda>_. 0))"
      "snd (PPC_WriteSpr 913 7 (Some zero_cpu, \<lambda>_. 0))" 0]
  by simp

end
