(* ===== verification/GuestMemory.thy ===== *)
theory GuestMemory
  imports CpuContext
begin

unbundle bit_operations_syntax

text \<open>
  Guest memory as the checked path of \<open>runtime/src/memory.cpp\<close> sees it: the region table of
  \<open>Memory::Config::WiiDefaults\<close>, the backing store each region aliases, region lookup, and
  the big-endian scalar accesses with their MMIO and gather-pipe cases.

  The machine state carries the exception in flight: \<open>fault\<close> is \<open>Some (AccessViolation a)\<close>
  from the moment an access to \<open>a\<close> throws until a \<open>catch\<close> handles it, and every primitive is
  skipped while it is set.  A sequence of accesses therefore stops, with the writes made so
  far in place, exactly where the C++ exception leaves it.  Loops over guest memory, which
  need not end on corrupt lists, run on fuel; running out is the other value of \<open>fault\<close>, and
  no \<open>catch\<close> handles it.
\<close>

section \<open>Regions and their backing\<close>

datatype backing = Mem1 | Mem2 | Owned

record region =
  region_name :: string
  base_address :: u32
  size_bytes :: nat

definition kMem1Size :: nat where "kMem1Size = 24 * 1024 * 1024"
definition kMem2Size :: nat where "kMem2Size = 128 * 1024 * 1024"
definition kPageSize :: nat where "kPageSize = 1048576"

definition WiiDefaults :: "region list" where
  "WiiDefaults =
    [\<lparr>region_name = ''MEM1_PHYS'', base_address = 0x00000000, size_bytes = kMem1Size\<rparr>,
     \<lparr>region_name = ''MEM1'', base_address = 0x80000000, size_bytes = kMem1Size\<rparr>,
     \<lparr>region_name = ''MEM1_UNCACHED'', base_address = 0xC0000000, size_bytes = kMem1Size\<rparr>,
     \<lparr>region_name = ''MEM2_PHYS'', base_address = 0x10000000, size_bytes = kMem2Size\<rparr>,
     \<lparr>region_name = ''MEM2'', base_address = 0x90000000, size_bytes = kMem2Size\<rparr>,
     \<lparr>region_name = ''MEM2_UNCACHED'', base_address = 0xD0000000, size_bytes = kMem2Size\<rparr>,
     \<lparr>region_name = ''MEM1_KAMEK_OVERLAY'', base_address = 0x81800000, size_bytes = 0x200000\<rparr>,
     \<lparr>region_name = ''LOCKED_CACHE'', base_address = 0xE0000000, size_bytes = kPageSize + 4096\<rparr>]"

definition ClassifyBacking :: "u32 \<Rightarrow> backing" where
  "ClassifyBacking b =
    (let a = unat b in
     if a < kMem1Size
        \<or> 0x80000000 \<le> a \<and> a < 0x80000000 + kMem1Size
        \<or> 0xC0000000 \<le> a \<and> a < 0xC0000000 + kMem1Size then Mem1
     else if 0x10000000 \<le> a \<and> a < 0x10000000 + kMem2Size
        \<or> 0x90000000 \<le> a \<and> a < 0x90000000 + kMem2Size
        \<or> 0xD0000000 \<le> a \<and> a < 0xD0000000 + kMem2Size then Mem2
     else Owned)"

definition TryResolveRegion :: "region list \<Rightarrow> u32 \<Rightarrow> nat \<Rightarrow> region option" where
  "TryResolveRegion regions address len =
     List.find (\<lambda>r. unat (base_address r) \<le> unat address \<and>
       unat address + len \<le> unat (base_address r) + size_bytes r) regions"

definition IsMmioAddress :: "u32 \<Rightarrow> bool" where
  "IsMmioAddress a \<longleftrightarrow> 0xCC000000 \<le> a \<and> a < 0xCE000000"

definition IsGpuFifoAddress :: "u32 \<Rightarrow> bool" where
  "IsGpuFifoAddress a \<longleftrightarrow> 0xCC008000 \<le> a \<and> a < 0xCC008100"

text \<open>
  \<open>guest_flat_memory.cpp\<close>: a region is a view of a section (one per shared backing, one per
  owned base) at a section offset; a host byte is a section and an offset in it.
\<close>

type_synonym section_key = "backing \<times> u32"
type_synonym location = "section_key \<times> nat"

definition KeyFor :: "region \<Rightarrow> section_key" where
  "KeyFor r = (let b = ClassifyBacking (base_address r)
               in (b, if b = Owned then base_address r else 0))"

definition SectionOffsetFor :: "region \<Rightarrow> nat" where
  "SectionOffsetFor r =
     (case ClassifyBacking (base_address r) of
       Mem1 \<Rightarrow> unat (base_address r AND 0x01FFFFFF)
     | Mem2 \<Rightarrow> unat (base_address r AND 0x0FFFFFFF)
     | Owned \<Rightarrow> 0)"

definition host_location :: "region \<Rightarrow> u32 \<Rightarrow> nat \<Rightarrow> location" where
  "host_location r address i =
     (KeyFor r, SectionOffsetFor r + (unat address - unat (base_address r)) + i)"

section \<open>The machine\<close>

datatype stop = AccessViolation u32 | OutOfFuel

record machine =
  regions :: "region list"
  bytes :: "location \<Rightarrow> u8"
  gather_pipe :: "u8 list"
  fault :: "stop option"
  cpu :: cpu_context
  reservation :: "u32 option"
  interrupts_enabled :: bool

definition Contains :: "region list \<Rightarrow> u32 \<Rightarrow> nat \<Rightarrow> bool" where
  "Contains rs address len = (TryResolveRegion rs address len \<noteq> None)"

section \<open>Big-endian scalars\<close>

definition be_bytes16 :: "u16 \<Rightarrow> u8 list" where
  "be_bytes16 v = [ucast (drop_bit 8 v), ucast v]"

definition be_bytes32 :: "u32 \<Rightarrow> u8 list" where
  "be_bytes32 v = [ucast (drop_bit 24 v), ucast (drop_bit 16 v), ucast (drop_bit 8 v), ucast v]"

definition be_word16 :: "u8 \<Rightarrow> u8 \<Rightarrow> u16" where
  "be_word16 b0 b1 = push_bit 8 (ucast b0) OR ucast b1"

definition be_word32 :: "u8 \<Rightarrow> u8 \<Rightarrow> u8 \<Rightarrow> u8 \<Rightarrow> u32" where
  "be_word32 b0 b1 b2 b3 =
     push_bit 24 (ucast b0) OR push_bit 16 (ucast b1) OR push_bit 8 (ucast b2) OR ucast b3"

lemma be_word16_bytes: "be_word16 (ucast (drop_bit 8 v)) (ucast v) = v"
  by (rule bit_word_eqI)
    (auto simp: be_word16_def bit_or_iff bit_push_bit_iff bit_ucast_iff bit_drop_bit_eq)

lemma be_word32_bytes:
  "be_word32 (ucast (drop_bit 24 v)) (ucast (drop_bit 16 v)) (ucast (drop_bit 8 v)) (ucast v) = v"
proof (rule bit_word_eqI)
  fix n assume "n < LENGTH(32)"
  then consider "n < 8" | "8 \<le> n" "n < 16" | "16 \<le> n" "n < 24" | "24 \<le> n" "n < 32" by fastforce
  then show "bit (be_word32 (ucast (drop_bit 24 v)) (ucast (drop_bit 16 v)) (ucast (drop_bit 8 v))
      (ucast v)) n = bit v n"
    by cases (auto simp: be_word32_def bit_or_iff bit_push_bit_iff bit_ucast_iff bit_drop_bit_eq)
qed

section \<open>Checked accesses\<close>

text \<open>
  \<open>Read8Slow\<close>, \<open>Read16Slow\<close>, \<open>Read32Slow\<close>: MMIO reads and unmapped addresses throw
  (\<open>None\<close>); otherwise the bytes behind the first region that holds the whole access.
\<close>

definition load_byte :: "'z machine_scheme \<Rightarrow> region \<Rightarrow> u32 \<Rightarrow> nat \<Rightarrow> u8" where
  "load_byte s r a i = bytes s (host_location r a i)"

definition Read8Slow :: "'z machine_scheme \<Rightarrow> u32 \<Rightarrow> u8 option" where
  "Read8Slow s a =
     (if IsMmioAddress a then None
      else map_option (\<lambda>r. load_byte s r a 0) (TryResolveRegion (regions s) a 1))"

definition Read16Slow :: "'z machine_scheme \<Rightarrow> u32 \<Rightarrow> u16 option" where
  "Read16Slow s a =
     (if IsMmioAddress a then None
      else map_option (\<lambda>r. be_word16 (load_byte s r a 0) (load_byte s r a 1))
        (TryResolveRegion (regions s) a 2))"

definition Read32Slow :: "'z machine_scheme \<Rightarrow> u32 \<Rightarrow> u32 option" where
  "Read32Slow s a =
     (if IsMmioAddress a then None
      else map_option (\<lambda>r. be_word32 (load_byte s r a 0) (load_byte s r a 1)
                                     (load_byte s r a 2) (load_byte s r a 3))
        (TryResolveRegion (regions s) a 4))"

fun store_bytes :: "(location \<Rightarrow> u8) \<Rightarrow> region \<Rightarrow> u32 \<Rightarrow> nat \<Rightarrow> u8 list \<Rightarrow> (location \<Rightarrow> u8)" where
  "store_bytes m r a i [] = m"
| "store_bytes m r a i (b # bs) = store_bytes (m(host_location r a i := b)) r a (Suc i) bs"

text \<open>
  \<open>Write8Slow\<close>, \<open>Write16Slow\<close>, \<open>Write32Slow\<close>: a store to the gather pipe is a push on the
  GX byte stream, any other MMIO store throws, and the rest goes through \<open>WriteScalar\<close>.
\<close>

definition write_scalar :: "u8 list \<Rightarrow> u32 \<Rightarrow> 'z machine_scheme \<Rightarrow> 'z machine_scheme option" where
  "write_scalar bs a s =
     (if IsGpuFifoAddress a then Some (s\<lparr>gather_pipe := gather_pipe s @ bs\<rparr>)
      else if IsMmioAddress a then None
      else map_option (\<lambda>r. s\<lparr>bytes := store_bytes (bytes s) r a 0 bs\<rparr>)
        (TryResolveRegion (regions s) a (length bs)))"

definition Write8Slow :: "u32 \<Rightarrow> u8 \<Rightarrow> 'z machine_scheme \<Rightarrow> 'z machine_scheme option" where
  "Write8Slow a v = write_scalar [v] a"

definition Write16Slow :: "u32 \<Rightarrow> u16 \<Rightarrow> 'z machine_scheme \<Rightarrow> 'z machine_scheme option" where
  "Write16Slow a v = write_scalar (be_bytes16 v) a"

definition Write32Slow :: "u32 \<Rightarrow> u32 \<Rightarrow> 'z machine_scheme \<Rightarrow> 'z machine_scheme option" where
  "Write32Slow a v = write_scalar (be_bytes32 v) a"

section \<open>Guest programs\<close>

text \<open>A guest program is a state transformer; an access that throws sets \<open>fault\<close>.\<close>

type_synonym ('z, 'a) guest = "('z machine_scheme, 'a) state"

definition access :: "u32 \<Rightarrow> ('z machine_scheme \<Rightarrow> ('a \<times> 'z machine_scheme) option) \<Rightarrow> 'a \<Rightarrow> ('z, 'a) guest" where
  "access a f d = State (\<lambda>s. if fault s \<noteq> None then (d, s)
     else case f s of None \<Rightarrow> (d, s\<lparr>fault := Some (AccessViolation a)\<rparr>) | Some r \<Rightarrow> r)"

definition Read8 :: "u32 \<Rightarrow> ('z, u8) guest" where
  "Read8 a = access a (\<lambda>s. map_option (\<lambda>v. (v, s)) (Read8Slow s a)) 0"

definition Read16 :: "u32 \<Rightarrow> ('z, u16) guest" where
  "Read16 a = access a (\<lambda>s. map_option (\<lambda>v. (v, s)) (Read16Slow s a)) 0"

definition Read32 :: "u32 \<Rightarrow> ('z, u32) guest" where
  "Read32 a = access a (\<lambda>s. map_option (\<lambda>v. (v, s)) (Read32Slow s a)) 0"

definition Write8 :: "u32 \<Rightarrow> u8 \<Rightarrow> ('z, unit) guest" where
  "Write8 a v = access a (\<lambda>s. map_option (Pair ()) (Write8Slow a v s)) ()"

definition Write16 :: "u32 \<Rightarrow> u16 \<Rightarrow> ('z, unit) guest" where
  "Write16 a v = access a (\<lambda>s. map_option (Pair ()) (Write16Slow a v s)) ()"

definition Write32 :: "u32 \<Rightarrow> u32 \<Rightarrow> ('z, unit) guest" where
  "Write32 a v = access a (\<lambda>s. map_option (Pair ()) (Write32Slow a v s)) ()"

text \<open>Host-state steps are skipped too while an exception is in flight.\<close>

definition get_host :: "('z machine_scheme \<Rightarrow> 'a) \<Rightarrow> ('z, 'a) guest" where
  "get_host f = State (\<lambda>s. (f s, s))"

definition put_host :: "('z machine_scheme \<Rightarrow> 'z machine_scheme) \<Rightarrow> ('z, unit) guest" where
  "put_host f = State (\<lambda>s. ((), if fault s \<noteq> None then s else f s))"

definition gpr_get :: "nat \<Rightarrow> ('z, u32) guest" where
  "gpr_get i = get_host (\<lambda>s. gpr (cpu s) i)"

definition gpr_put :: "nat \<Rightarrow> u32 \<Rightarrow> ('z, unit) guest" where
  "gpr_put i v = put_host (\<lambda>s. s\<lparr>cpu := (cpu s)\<lparr>gpr := (gpr (cpu s))(i := v)\<rparr>\<rparr>)"

text \<open>\<open>try { m } catch (const AccessViolation&) { h }\<close> inside code with no exception in flight.\<close>

definition try_catch :: "('z, 'a) guest \<Rightarrow> ('z, 'a) guest \<Rightarrow> ('z, 'a) guest" where
  "try_catch m h = State (\<lambda>s. if fault s \<noteq> None then run_state m s
     else case run_state m s of
       (r, s') \<Rightarrow> (case fault s' of
           Some (AccessViolation a) \<Rightarrow> run_state h (s'\<lparr>fault := None\<rparr>)
         | _ \<Rightarrow> (r, s')))"

text \<open>A loop: each round of \<open>body\<close> yields the next loop state (\<open>Inl\<close>) or the result (\<open>Inr\<close>).\<close>

definition out_of_fuel :: "'a \<Rightarrow> ('z, 'a) guest" where
  "out_of_fuel d = State (\<lambda>s. (d, if fault s \<noteq> None then s else s\<lparr>fault := Some OutOfFuel\<rparr>))"

fun loop :: "nat \<Rightarrow> 'b \<Rightarrow> ('a \<Rightarrow> ('z, 'a + 'b) guest) \<Rightarrow> 'a \<Rightarrow> ('z, 'b) guest" where
  "loop 0 d body x = out_of_fuel d"
| "loop (Suc n) d body x =
     State_Monad.bind (body x) (\<lambda>r. case r of Inl y \<Rightarrow> loop n d body y | Inr v \<Rightarrow> State_Monad.return v)"

text \<open>
  \<open>TryReadGuestScalar\<close>, \<open>TryWriteGuestScalar\<close>: the fast path, taken when \<open>BuildPageTable\<close> has marked the
  megabyte page of the address, that is when one region backs the whole page and the first bytes of the
  next one, as many as an access can reach over the end of the page.  So the last page of every region is
  not marked.  On a page that is not, both report failure and touch nothing.
\<close>

definition kMaxFastScalarSize :: nat where "kMaxFastScalarSize = 8"

definition full_page :: "region list \<Rightarrow> u32 \<Rightarrow> bool" where
  "full_page rs a = Contains rs (push_bit 20 (drop_bit 20 a)) (kPageSize + (kMaxFastScalarSize - 1))"

definition TryReadGuestScalar32 :: "u32 \<Rightarrow> ('z, u32 option) guest" where
  "TryReadGuestScalar32 a = State (\<lambda>s. (if full_page (regions s) a then Read32Slow s a else None, s))"

definition TryReadGuestScalar16 :: "u32 \<Rightarrow> ('z, u16 option) guest" where
  "TryReadGuestScalar16 a = State (\<lambda>s. (if full_page (regions s) a then Read16Slow s a else None, s))"

definition TryWriteGuestScalar16 :: "u32 \<Rightarrow> u16 \<Rightarrow> ('z, bool) guest" where
  "TryWriteGuestScalar16 a v = State (\<lambda>s.
     if fault s \<noteq> None \<or> \<not> full_page (regions s) a then (False, s)
     else case Write16Slow a v s of None \<Rightarrow> (False, s) | Some s' \<Rightarrow> (True, s'))"

definition whenM :: "bool \<Rightarrow> ('z, unit) guest \<Rightarrow> ('z, unit) guest" where
  "whenM b m = (if b then m else State_Monad.return ())"

lemma run_bind [run_simps]:
  "run_state (State_Monad.bind m k) s = (case run_state m s of (a, s') \<Rightarrow> run_state (k a) s')"
  by (simp add: State_Monad.bind_def)

lemma run_return [run_simps]: "run_state (State_Monad.return x) s = (x, s)"
  by (simp add: State_Monad.return_def)

lemma run_whenM [run_simps]: "run_state (whenM b m) s = (if b then run_state m s else ((), s))"
  by (simp add: whenM_def run_return)

lemma run_get_host [run_simps]: "run_state (get_host f) s = (f s, s)"
  by (simp add: get_host_def)

lemma run_put_host [run_simps]: "fault s = None \<Longrightarrow> run_state (put_host f) s = ((), f s)"
  by (simp add: put_host_def)

lemma run_try_catch:
  assumes "fault s = None" "run_state m s = (r, s')" "fault s' = None"
  shows "run_state (try_catch m h) s = (r, s')"
  using assms by (simp add: try_catch_def)

lemmas gpr_defs [run_simps] = gpr_get_def gpr_put_def


section \<open>The cached windows\<close>

text \<open>
  The guest's own data structures live at word-aligned addresses of the cached windows of
  MEM1 and MEM2.  On those a scalar access never throws, and memory is a map from aligned
  addresses to words: a write changes the word it names and no other.
\<close>

definition cached :: "u32 \<Rightarrow> bool" where
  "cached a \<longleftrightarrow> 0x80000000 \<le> a \<and> a < 0x81800000 \<or> 0x90000000 \<le> a \<and> a < 0x98000000"

definition word_ok :: "u32 \<Rightarrow> bool" where
  "word_ok a \<longleftrightarrow> cached a \<and> unat a mod 4 = 0"

definition half_ok :: "u32 \<Rightarrow> bool" where
  "half_ok a \<longleftrightarrow> cached a \<and> unat a mod 2 = 0"

definition wii :: "'z machine_scheme \<Rightarrow> bool" where
  "wii s \<longleftrightarrow> regions s = WiiDefaults \<and> fault s = None"

definition cached_region :: "u32 \<Rightarrow> region" where
  "cached_region a = (if unat a < 0x81800000 then WiiDefaults ! 1 else WiiDefaults ! 4)"

lemma cached_unat:
  "cached a = (2147483648 \<le> unat a \<and> unat a < 2172649472 \<or> 2415919104 \<le> unat a \<and> unat a < 2550136832)"
  by (simp add: cached_def word_le_nat_alt word_less_nat_alt)

lemma cached_not_mmio: "cached a \<Longrightarrow> \<not> IsMmioAddress a"
  by (auto simp: cached_unat IsMmioAddress_def word_le_nat_alt word_less_nat_alt)

lemma cached_not_fifo: "cached a \<Longrightarrow> \<not> IsGpuFifoAddress a"
  by (auto simp: cached_unat IsGpuFifoAddress_def word_le_nat_alt word_less_nat_alt)

lemmas memory_sizes = kMem1Size_def kMem2Size_def kPageSize_def


lemma find_cached:
  assumes "cached a" "0 < m" "unat a + m \<le> 2172649472 \<or> 2415919104 \<le> unat a \<and> unat a + m \<le> 2550136832"
  shows "TryResolveRegion WiiDefaults a m = Some (cached_region a)"
proof -
  define n where "n = unat a"
  have "2147483648 \<le> n \<and> n + m \<le> 2172649472 \<or> 2415919104 \<le> n \<and> n + m \<le> 2550136832"
    using assms by (auto simp: cached_unat n_def)
  then show ?thesis
    unfolding TryResolveRegion_def WiiDefaults_def cached_region_def memory_sizes n_def [symmetric]
    using assms(2) by (elim disjE) simp_all
qed

lemma resolve_cached:
  assumes "cached a" "unat a mod m = 0" "m = 2 \<or> m = 4"
  shows "TryResolveRegion WiiDefaults a m = Some (cached_region a)"
proof (rule find_cached [OF assms(1)])
  show "0 < m" using assms(3) by auto
next
  define n where "n = unat a"
  from assms(2,3) have "n mod 2 = 0 \<and> m = 2 \<or> n mod 4 = 0 \<and> m = 4" by (auto simp: n_def)
  then have "n < 2172649472 \<Longrightarrow> n + m \<le> 2172649472" "n < 2550136832 \<Longrightarrow> n + m \<le> 2550136832"
    by presburger+
  with assms(1) show "unat a + m \<le> 2172649472 \<or> 2415919104 \<le> unat a \<and> unat a + m \<le> 2550136832"
    by (auto simp: cached_unat n_def)
qed

text \<open>The host byte behind a cached address, and that distinct addresses have distinct bytes.\<close>

definition byte_of :: "u32 \<Rightarrow> nat \<Rightarrow> location" where
  "byte_of a i = host_location (cached_region a) a i"

lemma byte_of_cached:
  assumes "cached a"
  shows "byte_of a i = (if unat a < 2172649472 then ((Mem1, 0), unat a - 2147483648 + i)
                        else ((Mem2, 0), unat a - 2415919104 + i))"
  using assms
  by (auto simp: byte_of_def host_location_def cached_region_def WiiDefaults_def KeyFor_def
      SectionOffsetFor_def ClassifyBacking_def memory_sizes cached_unat Let_def)

lemma byte_of_eq:
  assumes "cached a" "cached b"
  shows "(byte_of a i = byte_of b j) =
    ((unat a < 2172649472) = (unat b < 2172649472) \<and> unat a + i = unat b + j)"
  using assms by (auto simp: byte_of_cached cached_unat)

lemma byte_of_block:
  assumes "cached a" "cached b" "unat a mod m = 0" "unat b mod m = 0" "i < m" "j < m"
  shows "(byte_of a i = byte_of b j) = (a = b \<and> i = j)"
proof
  assume "byte_of a i = byte_of b j"
  then have e: "unat a + i = unat b + j" using assms by (simp add: byte_of_eq)
  have "(unat a + i) div m = unat a div m" "(unat a + i) mod m = i"
    using assms(3,5) by (auto simp: div_add1_eq mod_add_eq [symmetric])
  moreover have "(unat b + j) div m = unat b div m" "(unat b + j) mod m = j"
    using assms(4,6) by (auto simp: div_add1_eq mod_add_eq [symmetric])
  ultimately have "unat a div m = unat b div m" "i = j" using e by auto
  then have "unat a = unat b" using assms(3,4) by (metis mod_div_mult_eq add.right_neutral)
  with \<open>i = j\<close> show "a = b \<and> i = j" by (simp add: word_unat_eq_iff)
qed simp

section \<open>Words and half-words of the cached windows\<close>

definition rd32 :: "'z machine_scheme \<Rightarrow> u32 \<Rightarrow> u32" where
  "rd32 s a = be_word32 (bytes s (byte_of a 0)) (bytes s (byte_of a 1))
                        (bytes s (byte_of a 2)) (bytes s (byte_of a 3))"

definition rd16 :: "'z machine_scheme \<Rightarrow> u32 \<Rightarrow> u16" where
  "rd16 s a = be_word16 (bytes s (byte_of a 0)) (bytes s (byte_of a 1))"

definition wr32 :: "u32 \<Rightarrow> u32 \<Rightarrow> 'z machine_scheme \<Rightarrow> 'z machine_scheme" where
  "wr32 a v s = s\<lparr>bytes := (bytes s)(byte_of a 0 := ucast (drop_bit 24 v),
     byte_of a 1 := ucast (drop_bit 16 v), byte_of a 2 := ucast (drop_bit 8 v),
     byte_of a 3 := ucast v)\<rparr>"

definition wr16 :: "u32 \<Rightarrow> u16 \<Rightarrow> 'z machine_scheme \<Rightarrow> 'z machine_scheme" where
  "wr16 a v s = s\<lparr>bytes := (bytes s)(byte_of a 0 := ucast (drop_bit 8 v), byte_of a 1 := ucast v)\<rparr>"

lemma read32_cached:
  assumes "wii s" "word_ok a" shows "run_state (Read32 a) s = (rd32 s a, s)"
  using assms
  by (simp add: Read32_def access_def Read32Slow_def wii_def word_ok_def cached_not_mmio
      resolve_cached rd32_def load_byte_def byte_of_def)

lemma read16_cached [run_simps]:
  assumes "wii s" "half_ok a" shows "run_state (Read16 a) s = (rd16 s a, s)"
  using assms
  by (simp add: Read16_def access_def Read16Slow_def wii_def half_ok_def cached_not_mmio
      resolve_cached rd16_def load_byte_def byte_of_def)

lemma write_scalar_cached:
  assumes "wii s" "cached a" "unat a mod length bs = 0" "length bs = 2 \<or> length bs = 4"
  shows "write_scalar bs a s = Some (s\<lparr>bytes := store_bytes (bytes s) (cached_region a) a 0 bs\<rparr>)"
  using assms by (simp add: write_scalar_def wii_def cached_not_mmio cached_not_fifo resolve_cached)

lemma write32_cached [run_simps]:
  assumes "wii s" "word_ok a" shows "run_state (Write32 a v) s = ((), wr32 a v s)"
proof -
  have "write_scalar (be_bytes32 v) a s =
      Some (s\<lparr>bytes := store_bytes (bytes s) (cached_region a) a 0 (be_bytes32 v)\<rparr>)"
    by (rule write_scalar_cached) (use assms in \<open>simp_all add: be_bytes32_def word_ok_def\<close>)
  then show ?thesis
    using assms(1) by (simp add: Write32_def access_def Write32Slow_def be_bytes32_def wii_def
        wr32_def byte_of_def numeral_2_eq_2 numeral_3_eq_3)
qed

lemma write16_cached [run_simps]:
  assumes "wii s" "half_ok a" shows "run_state (Write16 a v) s = ((), wr16 a v s)"
proof -
  have "write_scalar (be_bytes16 v) a s =
      Some (s\<lparr>bytes := store_bytes (bytes s) (cached_region a) a 0 (be_bytes16 v)\<rparr>)"
    by (rule write_scalar_cached) (use assms in \<open>simp_all add: be_bytes16_def half_ok_def flip: numeral_2_eq_2\<close>)
  then show ?thesis
    using assms(1) by (simp add: Write16_def access_def Write16Slow_def be_bytes16_def wii_def
        wr16_def byte_of_def)
qed

lemma wii_wr [simp]: "wii (wr32 a v s) = wii s" "wii (wr16 a h s) = wii s"
  by (simp_all add: wii_def wr32_def wr16_def)

lemma wii_fault: "wii s \<Longrightarrow> fault s = None"
  by (simp add: wii_def)


lemma rd32_wr32 [simp, frame_simps]:
  assumes "word_ok a" "word_ok b"
  shows "rd32 (wr32 a v s) b = (if b = a then v else rd32 s b)"
proof -
  note ab = assms [unfolded word_ok_def]
  have "(byte_of b j = byte_of a i) = (b = a \<and> j = i)" if "i < 4" "j < 4" for i j
    using ab that by (intro byte_of_block [of b a 4 j i]) auto
  then show ?thesis by (simp add: rd32_def wr32_def be_word32_bytes)
qed

lemma rd16_wr16 [simp, frame_simps]:
  assumes "half_ok a" "half_ok b"
  shows "rd16 (wr16 a v s) b = (if b = a then v else rd16 s b)"
proof -
  note ab = assms [unfolded half_ok_def]
  have "(byte_of b j = byte_of a i) = (b = a \<and> j = i)" if "i < 2" "j < 2" for i j
    using ab that by (intro byte_of_block [of b a 2 j i]) auto
  then show ?thesis by (simp add: rd16_def wr16_def be_word16_bytes)
qed

lemma word_half: "word_ok a \<Longrightarrow> half_ok a"
  by (auto simp: word_ok_def half_ok_def; presburger)

lemma word_half2:
  assumes "word_ok a"
  shows "half_ok (a + 2)" "unat (a + 2) = unat a + 2"
proof -
  define n where "n = unat a"
  have n: "2147483648 \<le> n \<and> n < 2172649472 \<or> 2415919104 \<le> n \<and> n < 2550136832" "n mod 4 = 0"
    using assms by (auto simp: word_ok_def cached_unat n_def)
  then have m: "2147483648 \<le> n + 2 \<and> n + 2 < 2172649472 \<or> 2415919104 \<le> n + 2 \<and> n + 2 < 2550136832"
    "(n + 2) mod 2 = 0" by presburger+
  show u: "unat (a + 2) = unat a + 2"
    using n by (auto simp: n_def unat_word_ariths)
  show "half_ok (a + 2)" using m by (simp add: half_ok_def cached_unat u n_def)
qed

text \<open>A half-word field shares its word with the half-word beside it and with nothing else.\<close>

lemma rd32_wr16 [simp, frame_simps]:
  assumes "word_ok a" "word_ok b"
  shows "rd32 (wr16 a v s) b = (if b = a then be_word32 (ucast (drop_bit 8 v)) (ucast v)
     (bytes s (byte_of a 2)) (bytes s (byte_of a 3)) else rd32 s b)"
proof -
  note ab = assms [unfolded word_ok_def]
  have "(byte_of b j = byte_of a i) = (b = a \<and> j = i)" if "i < 4" "j < 4" for i j
    using ab that by (intro byte_of_block [of b a 4 j i]) auto
  then show ?thesis by (simp add: rd32_def wr16_def)
qed

lemma rd16_wr32 [simp, frame_simps]:
  assumes "word_ok a" "word_ok b"
  shows "rd16 (wr32 a v s) b = (if b = a then ucast (drop_bit 16 v) else rd16 s b)"
proof -
  note ab = assms [unfolded word_ok_def]
  have e: "(byte_of b j = byte_of a i) = (b = a \<and> j = i)" if "i < 4" "j < 4" for i j
    using ab that by (intro byte_of_block [of b a 4 j i]) auto
  have "be_word16 (ucast (drop_bit 24 v)) (ucast (drop_bit 16 v)) = ucast (drop_bit 16 v)"
    using be_word16_bytes [of "ucast (drop_bit 16 v)"]
    by (simp add: be_word16_def) (rule bit_word_eqI,
      auto simp: bit_or_iff bit_push_bit_iff bit_ucast_iff bit_drop_bit_eq)
  with e show ?thesis by (simp add: rd16_def wr32_def)
qed


section \<open>Memory as a map of words\<close>

text \<open>
  The abstraction the list and queue proofs use: \<open>mem s\<close> maps each aligned word of the cached
  windows to its value, and every access on those windows is a lookup or an update of it.
\<close>

definition mem :: "'z machine_scheme \<Rightarrow> u32 \<Rightarrow> u32" where
  "mem s a = (if word_ok a then rd32 s a else 0)"

definition hi16 :: "u32 \<Rightarrow> u16" where "hi16 w = ucast (drop_bit 16 w)"
definition lo16 :: "u32 \<Rightarrow> u16" where "lo16 w = ucast w"

definition set_hi16 :: "u16 \<Rightarrow> u32 \<Rightarrow> u32" where
  "set_hi16 h w = push_bit 16 (ucast h) OR (w AND 0xFFFF)"

definition set_lo16 :: "u16 \<Rightarrow> u32 \<Rightarrow> u32" where
  "set_lo16 h w = (w AND 0xFFFF0000) OR ucast h"

lemma mem_wr32 [simp]: "word_ok a \<Longrightarrow> mem (wr32 a v s) = (mem s)(a := v)"
  by (auto simp: mem_def fun_eq_iff)

lemma run_read32 [run_simps]: "wii s \<Longrightarrow> word_ok a \<Longrightarrow> run_state (Read32 a) s = (mem s a, s)"
  by (simp add: mem_def read32_cached)


lemma be_word32_halves:
  "be_word32 b0 b1 b2 b3 = push_bit 16 (ucast (be_word16 b0 b1)) OR ucast (be_word16 b2 b3)"
proof (rule bit_word_eqI)
  fix n assume "n < LENGTH(32)"
  then consider "n < 8" | "8 \<le> n" "n < 16" | "16 \<le> n" "n < 24" | "24 \<le> n" "n < 32" by fastforce
  then show "bit (be_word32 b0 b1 b2 b3) n =
      bit (push_bit 16 (ucast (be_word16 b0 b1) :: u32) OR ucast (be_word16 b2 b3)) n"
    by cases (auto simp: be_word32_def be_word16_def bit_simps dest: bit_imp_le_length)
qed

lemma hi16_be [simp]: "hi16 (be_word32 b0 b1 b2 b3) = be_word16 b0 b1"
  unfolding be_word32_halves hi16_def
  by (rule bit_word_eqI) (auto simp: bit_simps dest: bit_imp_le_length)

lemma lo16_be [simp]: "lo16 (be_word32 b0 b1 b2 b3) = be_word16 b2 b3"
  unfolding be_word32_halves lo16_def
  by (rule bit_word_eqI) (auto simp: bit_simps dest: bit_imp_le_length)

lemma set_hi16_be: "set_hi16 h (be_word32 b0 b1 b2 b3) =
    be_word32 (ucast (drop_bit 8 h)) (ucast h) b2 b3"
proof -
  have m: "(0xFFFF :: u32) = mask 16" by (simp add: mask_eq_exp_minus_1)
  show ?thesis
    unfolding be_word32_halves be_word16_bytes set_hi16_def m
    by (rule bit_word_eqI) (auto simp: bit_simps dest: bit_imp_le_length)
qed

lemma set_lo16_be: "set_lo16 h (be_word32 b0 b1 b2 b3) =
    be_word32 b0 b1 (ucast (drop_bit 8 h)) (ucast h)"
proof -
  have m: "(0xFFFF0000 :: u32) = push_bit 16 (mask 16)" by (simp add: mask_eq_exp_minus_1)
  show ?thesis
    unfolding be_word32_halves be_word16_bytes set_lo16_def m
    by (rule bit_word_eqI) (auto simp: bit_simps dest: bit_imp_le_length)
qed

lemma set_half [simp]:
  "hi16 (set_hi16 h w) = h" "lo16 (set_hi16 h w) = lo16 w"
  "lo16 (set_lo16 h w) = h" "hi16 (set_lo16 h w) = hi16 w"
proof -
  have m: "(0xFFFF :: u32) = mask 16" "(0xFFFF0000 :: u32) = push_bit 16 (mask 16)"
    by (simp_all add: mask_eq_exp_minus_1)
  show "hi16 (set_hi16 h w) = h" "lo16 (set_hi16 h w) = lo16 w"
    "lo16 (set_lo16 h w) = h" "hi16 (set_lo16 h w) = hi16 w"
    unfolding hi16_def lo16_def set_hi16_def set_lo16_def m
    by (rule bit_word_eqI; auto simp: bit_simps dest: bit_imp_le_length)+
qed

lemma byte_of_half2: "word_ok a \<Longrightarrow> byte_of (a + 2) i = byte_of a (i + 2)"
  using word_half2 [of a] by (subst byte_of_eq) (auto simp: word_ok_def half_ok_def cached_unat)

lemma run_read16 [run_simps]:
  assumes "wii s" "word_ok a"
  shows "run_state (Read16 a) s = (hi16 (mem s a), s)"
    "run_state (Read16 (a + 2)) s = (lo16 (mem s a), s)"
  using assms word_half2 [of a]
  by (simp_all add: read16_cached word_half mem_def rd32_def rd16_def byte_of_half2 numeral_eq_Suc)

lemma mem_wr16 [simp]:
  assumes "word_ok a"
  shows "mem (wr16 a h s) = (mem s)(a := set_hi16 h (mem s a))"
    "mem (wr16 (a + 2) h s) = (mem s)(a := set_lo16 h (mem s a))"
proof -
  show "mem (wr16 a h s) = (mem s)(a := set_hi16 h (mem s a))"
    using assms by (auto simp: mem_def fun_eq_iff set_hi16_be rd32_def [of s])
  show "mem (wr16 (a + 2) h s) = (mem s)(a := set_lo16 h (mem s a))"
  proof
    fix b
    show "mem (wr16 (a + 2) h s) b = ((mem s)(a := set_lo16 h (mem s a))) b"
    proof (cases "word_ok b")
      case True
      have "(byte_of b j = byte_of a i) = (b = a \<and> j = i)" if "i < 4" "j < 4" for i j
        using assms True that by (intro byte_of_block [of b a 4 j i]) (auto simp: word_ok_def)
      with True assms show ?thesis
        by (auto simp: mem_def rd32_def wr16_def byte_of_half2 set_lo16_be numeral_eq_Suc)
    qed (use assms in \<open>auto simp: mem_def\<close>)
  qed
qed

lemma run_write16_hi [run_simps]:
  "wii s \<Longrightarrow> word_ok a \<Longrightarrow> run_state (Write16 a v) s = ((), wr16 a v s)"
  by (simp add: write16_cached word_half)

lemma run_write16_lo [run_simps]:
  "wii s \<Longrightarrow> word_ok a \<Longrightarrow> run_state (Write16 (a + 2) v) s = ((), wr16 (a + 2) v s)"
  by (simp add: write16_cached word_half2)

section \<open>The fast path on the cached windows\<close>

lemma full_page_low: "full_page WiiDefaults 0x800000D4"
proof -
  have "TryResolveRegion WiiDefaults (push_bit 20 (drop_bit 20 0x800000D4)) 1048583 =
      Some (cached_region (push_bit 20 (drop_bit 20 0x800000D4)))"
    by (rule find_cached) (simp_all add: cached_unat)
  then show ?thesis by (simp add: full_page_def Contains_def kPageSize_def kMaxFastScalarSize_def)
qed

lemma run_try_read32 [run_simps]:
  "wii s \<Longrightarrow> word_ok a \<Longrightarrow> run_state (TryReadGuestScalar32 a) s = (if full_page WiiDefaults a then Some (mem s a) else None, s)"
  using run_read32 [of s a]
  by (auto simp: TryReadGuestScalar32_def Read32_def access_def wii_def word_ok_def
      dest: arg_cong [where f = fault] split: option.splits)

lemma run_try_read16_lo [run_simps]:
  "wii s \<Longrightarrow> word_ok a \<Longrightarrow>
   run_state (TryReadGuestScalar16 (a + 2)) s = (if full_page WiiDefaults (a + 2) then Some (lo16 (mem s a)) else None, s)"
  using run_read16(2) [of s a] word_half2 [of a]
  by (auto simp: TryReadGuestScalar16_def Read16_def access_def wii_def half_ok_def
      dest: arg_cong [where f = fault] split: option.splits)

lemma run_try_write16_lo [run_simps]:
  "wii s \<Longrightarrow> word_ok a \<Longrightarrow> full_page WiiDefaults (a + 2) \<Longrightarrow> run_state (TryWriteGuestScalar16 (a + 2) h) s = (True, wr16 (a + 2) h s)"
  using run_write16_lo [of s a h] word_half2 [of a]
  by (auto simp: TryWriteGuestScalar16_def Write16_def access_def wii_def half_ok_def wr16_def
      dest: arg_cong [where f = fault] split: option.splits)

section \<open>Views of one store\<close>

lemma unat_view:
  assumes "b \<in> {0, 0x80000000, 0xC0000000, 0x10000000, 0x90000000, 0xD0000000}" "k < 134217728"
  shows "unat (b + of_nat k :: u32) = unat b + k"
  using assms by (auto simp: unat_word_ariths unat_of_nat)

lemma mem1_view:
  assumes b: "b \<in> {0, 0x80000000, 0xC0000000}" and k: "k + m \<le> 25165824" "0 < m"
  shows "\<exists>r. TryResolveRegion WiiDefaults (b + of_nat k) m = Some r \<and>
    (\<forall>i. host_location r (b + of_nat k) i = ((Mem1, 0), k + i))"
proof -
  have "unat (b + of_nat k :: u32) = unat b + k" using b k by (intro unat_view) auto
  with b k show ?thesis
    unfolding TryResolveRegion_def WiiDefaults_def memory_sizes
    by (elim insertE emptyE) (simp_all add: host_location_def KeyFor_def SectionOffsetFor_def
        ClassifyBacking_def memory_sizes Let_def)
qed

lemma mem2_view:
  assumes b: "b \<in> {0x10000000, 0x90000000, 0xD0000000}" and k: "k + m \<le> 134217728" "0 < m"
  shows "\<exists>r. TryResolveRegion WiiDefaults (b + of_nat k) m = Some r \<and>
    (\<forall>i. host_location r (b + of_nat k) i = ((Mem2, 0), k + i))"
proof -
  have "unat (b + of_nat k :: u32) = unat b + k" using b k by (intro unat_view) auto
  with b k show ?thesis
    unfolding TryResolveRegion_def WiiDefaults_def memory_sizes
    by (elim insertE emptyE) (simp_all add: host_location_def KeyFor_def SectionOffsetFor_def
        ClassifyBacking_def memory_sizes Let_def)
qed

lemma view_not_mmio:
  assumes "b \<in> {0, 0x80000000, 0xC0000000, 0x10000000, 0x90000000, 0xD0000000}"
    "k < (if b \<in> {0, 0x80000000, 0xC0000000} then 25165824 else 134217728)"
  shows "\<not> IsMmioAddress (b + of_nat k)" "\<not> IsGpuFifoAddress (b + of_nat k)"
proof -
  have "unat (b + of_nat k :: u32) = unat b + k"
    using assms by (intro unat_view) (auto split: if_splits)
  with assms show "\<not> IsMmioAddress (b + of_nat k)" "\<not> IsGpuFifoAddress (b + of_nat k)"
    unfolding IsMmioAddress_def IsGpuFifoAddress_def word_le_nat_alt word_less_nat_alt
    by (auto split: if_splits)
qed

lemma length_be_bytes [simp]: "length (be_bytes32 v) = 4" "length (be_bytes16 h) = 2"
  by (simp_all add: be_bytes32_def be_bytes16_def)

lemma store_bytes32:
  assumes "\<And>i j. (f i = f j) = (i = (j :: nat))" "\<And>i. host_location r a i = f i"
  shows "store_bytes m r a 0 (be_bytes32 v) = m(f 0 := ucast (drop_bit 24 v),
     f 1 := ucast (drop_bit 16 v), f 2 := ucast (drop_bit 8 v), f 3 := ucast v)"
  by (simp add: be_bytes32_def assms numeral_2_eq_2 numeral_3_eq_3)

lemma Write32Slow_ram:
  assumes "\<not> IsMmioAddress a" "\<not> IsGpuFifoAddress a" "TryResolveRegion (regions s) a 4 = Some r"
  shows "Write32Slow a v s = Some (s\<lparr>bytes := store_bytes (bytes s) r a 0 (be_bytes32 v)\<rparr>)"
  using assms by (simp add: Write32Slow_def write_scalar_def)

lemma store_then_load:
  assumes "regions s = WiiDefaults" "\<not> IsMmioAddress a" "\<not> IsGpuFifoAddress a" "\<not> IsMmioAddress a'"
    and "TryResolveRegion WiiDefaults a 4 = Some r" "\<And>i. host_location r a i = (key, k + i)"
    and "TryResolveRegion WiiDefaults a' 4 = Some r'" "\<And>i. host_location r' a' i = (key, k + i)"
  shows "\<exists>s'. Write32Slow a v s = Some s' \<and> Read32Slow s' a' = Some v"
  using assms by (simp add: Write32Slow_ram Read32Slow_def load_byte_def be_word32_bytes
      store_bytes32 [where f = "\<lambda>i. (key, k + i)"])

text \<open>C33: the physical, cached and uncached views of MEM1, and those of MEM2, are one store: a
  32-bit write through any view of a location (aligned or not) succeeds and is what a read
  through any view of the location returns.\<close>

theorem mem_views_alias:
  assumes "regions s = WiiDefaults"
    and "b \<in> {0, 0x80000000, 0xC0000000} \<and> c \<in> {0, 0x80000000, 0xC0000000} \<and> k + 4 \<le> kMem1Size \<or>
         b \<in> {0x10000000, 0x90000000, 0xD0000000} \<and> c \<in> {0x10000000, 0x90000000, 0xD0000000} \<and>
         k + 4 \<le> kMem2Size"
  shows "\<exists>s'. Write32Slow (b + of_nat k) v s = Some s' \<and> Read32Slow s' (c + of_nat k) = Some v"
  using assms(2)
proof (elim disjE conjE)
  assume h: "b \<in> {0, 0x80000000, 0xC0000000}" "c \<in> {0, 0x80000000, 0xC0000000}" "k + 4 \<le> kMem1Size"
  then have k: "k + 4 \<le> 25165824" by (simp add: memory_sizes)
  obtain r r' where
    "TryResolveRegion WiiDefaults (b + of_nat k) 4 = Some r"
    "\<And>i. host_location r (b + of_nat k) i = ((Mem1, 0), k + i)"
    "TryResolveRegion WiiDefaults (c + of_nat k) 4 = Some r'"
    "\<And>i. host_location r' (c + of_nat k) i = ((Mem1, 0), k + i)"
    using mem1_view [OF h(1) k] mem1_view [OF h(2) k] by auto
  then show ?thesis
    by (intro store_then_load [OF assms(1)] view_not_mmio) (use h k in auto)
next
  assume h: "b \<in> {0x10000000, 0x90000000, 0xD0000000}" "c \<in> {0x10000000, 0x90000000, 0xD0000000}"
    "k + 4 \<le> kMem2Size"
  then have k: "k + 4 \<le> 134217728" by (simp add: memory_sizes)
  obtain r r' where
    "TryResolveRegion WiiDefaults (b + of_nat k) 4 = Some r"
    "\<And>i. host_location r (b + of_nat k) i = ((Mem2, 0), k + i)"
    "TryResolveRegion WiiDefaults (c + of_nat k) 4 = Some r'"
    "\<And>i. host_location r' (c + of_nat k) i = ((Mem2, 0), k + i)"
    using mem2_view [OF h(1) k] mem2_view [OF h(2) k] by auto
  then show ?thesis
    by (intro store_then_load [OF assms(1)] view_not_mmio) (use h k in auto)
qed

definition boot_machine :: machine where
  "boot_machine = \<lparr>regions = WiiDefaults, bytes = (\<lambda>_. 0), gather_pipe = [], fault = None,
     cpu = zero_cpu, reservation = None, interrupts_enabled = True\<rparr>"

lemma wii_boot [simp]: "wii boot_machine"
  by (simp add: wii_def boot_machine_def)

lemma mem_views_alias_witness:
  "\<exists>s'. Write32Slow (0x80000000 + of_nat 3) 0xCAFEBABE boot_machine = Some s' \<and>
     Read32Slow s' (0xC0000000 + of_nat 3) = Some 0xCAFEBABE"
  by (rule mem_views_alias) (simp_all add: boot_machine_def memory_sizes)

text \<open>Every 32-bit store has one of three outcomes, decided by its address alone: a store
  to the gather pipe pushes its four bytes, most significant first, and touches no memory; a
  store to other MMIO or to an unmapped address throws; any other store succeeds, leaves the
  pipe alone, and changes at most the four host bytes behind its address.\<close>

theorem write32_outcome:
  "(case Write32Slow a v s of
      None \<Rightarrow> \<not> IsGpuFifoAddress a \<and> (IsMmioAddress a \<or> \<not> Contains (regions s) a 4)
    | Some s' \<Rightarrow>
        (if IsGpuFifoAddress a then
           s' = s\<lparr>gather_pipe := gather_pipe s @
             [ucast (drop_bit 24 v), ucast (drop_bit 16 v), ucast (drop_bit 8 v), ucast v]\<rparr>
         else \<not> IsMmioAddress a \<and>
           (\<exists>r. TryResolveRegion (regions s) a 4 = Some r \<and> gather_pipe s' = gather_pipe s \<and>
              Read32Slow s' a = Some v \<and>
              (\<forall>l. l \<notin> host_location r a ` {..<4} \<longrightarrow> bytes s' l = bytes s l))))"
proof (cases "IsGpuFifoAddress a \<or> IsMmioAddress a")
  case True
  then show ?thesis
    by (auto simp: Write32Slow_def write_scalar_def be_bytes32_def)
next
  case False
  show ?thesis
  proof (cases "TryResolveRegion (regions s) a 4")
    case None
    with False show ?thesis
      by (simp add: Write32Slow_def write_scalar_def Contains_def)
  next
    case (Some r)
    define f where "f = host_location r a"
    have inj: "(f i = f j) = (i = j)" for i j
      by (simp add: f_def host_location_def)
    note st = store_bytes32 [of f r a, OF inj, of "bytes s" v, unfolded f_def, OF refl, folded f_def]
    have "bytes (s\<lparr>bytes := store_bytes (bytes s) r a 0 (be_bytes32 v)\<rparr>) l = bytes s l"
      if "l \<notin> f ` {..<4}" for l
    proof -
      have "l \<noteq> f 0" "l \<noteq> f 1" "l \<noteq> f 2" "l \<noteq> f 3" using that by auto
      then show ?thesis by (simp add: st)
    qed
    moreover have "Read32Slow (s\<lparr>bytes := store_bytes (bytes s) r a 0 (be_bytes32 v)\<rparr>) a = Some v"
      using False Some by (simp add: Read32Slow_def load_byte_def st inj be_word32_bytes flip: f_def)
    ultimately show ?thesis
      using False Some by (simp add: Write32Slow_ram f_def)
  qed
qed

lemma write32_outcome_witness:
  "Write32Slow 0xCC008000 0x61000000 boot_machine =
     Some (boot_machine\<lparr>gather_pipe := [0x61, 0, 0, 0]\<rparr>) \<and>
   Write32Slow 0xCC000000 0x61000000 boot_machine = None"
  using write32_outcome [where a = "0xCC008000" and v = "0x61000000" and s = boot_machine]
    write32_outcome [where a = "0xCC000000" and v = "0x61000000" and s = boot_machine]
  by (auto simp: IsGpuFifoAddress_def IsMmioAddress_def boot_machine_def split: option.splits)

text \<open>C8: on word-aligned addresses of the cached MEM1 and MEM2 windows, memory is a map: no
  access throws, a load returns the last word stored at its address, a store to one address
  leaves every other aligned word unchanged, and a half-word store changes no other word.\<close>

theorem guest_words_are_a_map:
  assumes "wii s" "word_ok a" "word_ok b"
  shows "run_state (Write32 a v \<bind> (\<lambda>_. Read32 b)) s =
           (if b = a then v else fst (run_state (Read32 b) s), snd (run_state (Write32 a v) s)) \<and>
         fault (snd (run_state (Write32 a v) s)) = None \<and>
         (b \<noteq> a \<longrightarrow> fst (run_state (Write16 a h \<bind> (\<lambda>_. Read32 b)) s) = fst (run_state (Read32 b) s)) \<and>
         fst (run_state (Write16 a h \<bind> (\<lambda>_. Read16 a)) s) = h"
  using assms by (simp add: run_simps word_half wii_fault)

lemma guest_words_are_a_map_witness:
  "fst (run_state (Write32 0x80001000 7 \<bind> (\<lambda>_. Read32 0x80001000)) boot_machine) = 7"
  using guest_words_are_a_map [where s = boot_machine and a = "0x80001000" and b = "0x80001000" and v = 7]
  by (simp add: word_ok_def cached_def)

end
