(* ===== verification/GuestList.thy ===== *)
theory GuestList
  imports GuestMemory
begin

unbundle bit_operations_syntax

text \<open>
  Doubly linked lists in guest memory: the shape predicate the queue proofs use, the two
  pointer updates every splice is made of, and \<open>UnlinkGuestListNode\<close> of
  \<open>runtime/src/hle/os/os_internal.h\<close>, which all the OS lists share.
\<close>

section \<open>Layout\<close>

text \<open>
  \<open>layout T Off G\<close>: the objects at the addresses \<open>T\<close> have aligned word fields at the offsets
  \<open>Off\<close>, no two fields coincide, and none coincides with the global words \<open>G\<close>.
\<close>

definition layout :: "u32 set \<Rightarrow> u32 set \<Rightarrow> u32 set \<Rightarrow> bool" where
  "layout T Off G \<longleftrightarrow>
     (\<forall>x\<in>T. \<forall>i\<in>Off. word_ok (x + i) \<and> x + i \<notin> G) \<and>
     (\<forall>x\<in>T. \<forall>y\<in>T. \<forall>i\<in>Off. \<forall>j\<in>Off. x + i = y + j \<longrightarrow> x = y \<and> i = j) \<and>
     (\<forall>g\<in>G. word_ok g)"

lemma layoutD:
  assumes "layout T Off G"
  shows "x \<in> T \<Longrightarrow> i \<in> Off \<Longrightarrow> word_ok (x + i)"
    "g \<in> G \<Longrightarrow> word_ok g"
    "x \<in> T \<Longrightarrow> i \<in> Off \<Longrightarrow> g \<in> G \<Longrightarrow> x + i \<noteq> g"
    "x \<in> T \<Longrightarrow> i \<in> Off \<Longrightarrow> g \<in> G \<Longrightarrow> g \<noteq> x + i"
    "x \<in> T \<Longrightarrow> y \<in> T \<Longrightarrow> i \<in> Off \<Longrightarrow> j \<in> Off \<Longrightarrow> (x + i = y + j) = (x = y \<and> i = j)"
  using assms unfolding layout_def by blast+

lemma layout_mono: "layout T Off G \<Longrightarrow> T' \<subseteq> T \<Longrightarrow> Off' \<subseteq> Off \<Longrightarrow> G' \<subseteq> G \<Longrightarrow> layout T' Off' G'"
  unfolding layout_def by blast

text \<open>A layout checked object by object: objects of at most \<open>sz\<close> bytes, far enough apart.\<close>

lemma layout_spaced:
  assumes off: "\<forall>i\<in>Off. unat i + 4 \<le> sz \<and> unat i mod 4 = 0"
    and T: "\<forall>x\<in>T. unat x mod 4 = 0 \<and> 2147483648 \<le> unat x \<and> unat x + sz \<le> 2172649472"
    and apart: "\<forall>x\<in>T. \<forall>y\<in>T. x = y \<or> unat x + sz \<le> unat y \<or> unat y + sz \<le> unat x"
    and G: "\<forall>g\<in>G. word_ok g \<and> (\<forall>x\<in>T. unat g < unat x \<or> unat x + sz \<le> unat g)"
  shows "layout T Off G"
proof -
  have u: "unat (x + i) = unat x + unat i" if "x \<in> T" "i \<in> Off" for x i
    using that off T unat_add_lem [of x i] by force
  have w: "word_ok (x + i)" if "x \<in> T" "i \<in> Off" for x i
  proof -
    have "unat i + 4 \<le> sz" "unat i mod 4 = 0" "unat x mod 4 = 0" "2147483648 \<le> unat x" "unat x + sz \<le> 2172649472"
      using that off T by blast+
    moreover from this have "(unat x + unat i) mod 4 = 0" by presburger
    ultimately show ?thesis using u [OF that] by (simp add: word_ok_def cached_unat)
  qed
  have g: "x + i \<noteq> g" if "x \<in> T" "i \<in> Off" "g \<in> G" for x i g
  proof
    assume "x + i = g"
    moreover have "unat i + 4 \<le> sz" using off that by blast
    moreover have "unat g < unat x \<or> unat x + sz \<le> unat g" using G that by blast
    ultimately show False using u [OF that(1,2)] by auto
  qed
  have inj: "x = y \<and> i = j" if "x \<in> T" "y \<in> T" "i \<in> Off" "j \<in> Off" "x + i = y + j" for x y i j
  proof -
    have e: "unat x + unat i = unat y + unat j"
      using u that by metis
    moreover have "unat i + 4 \<le> sz" "unat j + 4 \<le> sz" using off that by blast+
    ultimately have "x = y" using apart that(1,2) by force
    with e show ?thesis by (simp add: word_unat_eq_iff)
  qed
  show ?thesis unfolding layout_def using w g inj G by blast
qed

section \<open>Shape\<close>

text \<open>\<open>links m no po p xs n\<close>: the nodes \<open>xs\<close> are chained, entered from \<open>p\<close> and left to \<open>n\<close>.\<close>

fun links :: "(u32 \<Rightarrow> u32) \<Rightarrow> u32 \<Rightarrow> u32 \<Rightarrow> u32 \<Rightarrow> u32 list \<Rightarrow> u32 \<Rightarrow> bool" where
  "links m no po p [] n = True"
| "links m no po p (x # xs) n =
     (m (x + po) = p \<and> m (x + no) = head_or n xs \<and> links m no po x xs n)"

definition dlist :: "(u32 \<Rightarrow> u32) \<Rightarrow> u32 \<Rightarrow> u32 \<Rightarrow> u32 \<Rightarrow> u32 \<Rightarrow> u32 list \<Rightarrow> bool" where
  "dlist m no po h t xs \<longleftrightarrow>
     m h = head_or 0 xs \<and> m t = last_or 0 xs \<and> links m no po 0 xs 0 \<and> distinct xs \<and> 0 \<notin> set xs"

lemma links_append [simp]:
  "links m no po p (xs @ ys) n =
     (links m no po p xs (head_or n ys) \<and> links m no po (last_or p xs) ys n)"
  by (induction xs arbitrary: p) auto

lemma links_frame:
  assumes "\<And>x. x \<in> set xs \<Longrightarrow> m' (x + no) = m (x + no) \<and> m' (x + po) = m (x + po)"
  shows "links m' no po p xs n = links m no po p xs n"
  using assms by (induction xs arbitrary: p) auto

lemma dlist_frame:
  assumes "\<And>x. x \<in> set xs \<Longrightarrow> m' (x + no) = m (x + no) \<and> m' (x + po) = m (x + po)"
    "m' h = m h" "m' t = m t"
  shows "dlist m' no po h t xs = dlist m no po h t xs"
  using links_frame [OF assms(1)] assms(2,3) by (simp add: dlist_def)

lemma links_set_next:
  assumes "links m no po p xs n" "xs \<noteq> []" "distinct xs" "layout (set xs) {no, po} {}" "no \<noteq> po"
  shows "links (m(last xs + no := n')) no po p xs n'"
  using assms
proof (induction xs arbitrary: p)
  case (Cons x xs)
  show ?case
  proof (cases "xs = []")
    case True
    then show ?thesis using Cons.prems layoutD(5) [OF Cons.prems(4), of x x po no] by auto
  next
    case False
    have l: "layout (set xs) {no, po} {}" using Cons.prems(4) by (rule layout_mono) auto
    have "last xs \<noteq> x" using Cons.prems(3) False by auto
    then have "x + no \<noteq> last xs + no" "x + po \<noteq> last xs + no"
      using layoutD(5) [OF Cons.prems(4), of x "last xs"] False Cons.prems(5) by auto
    moreover have "head_or n xs = head_or n' xs" using False by (cases xs) auto
    ultimately show ?thesis using Cons l False by auto
  qed
qed simp

lemma links_set_prev:
  assumes "links m no po p xs n" "xs \<noteq> []" "distinct xs" "layout (set xs) {no, po} {}" "no \<noteq> po"
  shows "links (m(hd xs + po := p')) no po p' xs n"
proof (cases xs)
  case (Cons x ys)
  have d: "x + no \<noteq> x + po" using assms(5) by simp
  have "links (m(x + po := p')) no po x ys n"
    using assms Cons layoutD(5) [OF assms(4)] by (subst links_frame) auto
  with d assms Cons show ?thesis by auto
qed (use assms in simp)

section \<open>Unlinking a node\<close>

definition UnlinkGuestListNode :: "u32 \<Rightarrow> u32 \<Rightarrow> u32 \<Rightarrow> u32 \<Rightarrow> u32 \<Rightarrow> ('z, unit) guest" where
  "UnlinkGuestListNode node nextOff prevOff headAddr tailAddr = do {
     nxt \<leftarrow> Read32 (node + nextOff);
     prv \<leftarrow> Read32 (node + prevOff);
     (if nxt \<noteq> 0 then Write32 (nxt + prevOff) prv else Write32 tailAddr prv);
     (if prv \<noteq> 0 then Write32 (prv + nextOff) nxt else Write32 headAddr nxt);
     Write32 (node + nextOff) 0;
     Write32 (node + prevOff) 0
   }"


text \<open>
  The two slots a splice writes: the one that leads into the part after it (the previous
  node's next field, or the head slot) and the one that leads back from it.
\<close>

definition next_slot :: "u32 \<Rightarrow> u32 \<Rightarrow> u32 list \<Rightarrow> u32" where
  "next_slot no h xs = (if xs = [] then h else last xs + no)"

definition prev_slot :: "u32 \<Rightarrow> u32 \<Rightarrow> u32 list \<Rightarrow> u32" where
  "prev_slot po t ys = (if ys = [] then t else hd ys + po)"

lemma dlist_append:
  "dlist m no po h t (xs @ ys) \<longleftrightarrow>
     m (next_slot no h xs) = head_or 0 ys \<and> m (prev_slot po t ys) = last_or 0 xs \<and>
     (xs \<noteq> [] \<longrightarrow> m h = hd xs) \<and> (ys \<noteq> [] \<longrightarrow> m t = last ys) \<and>
     links m no po 0 xs (head_or 0 ys) \<and> links m no po (last_or 0 xs) ys 0 \<and>
     distinct (xs @ ys) \<and> 0 \<notin> set (xs @ ys)"
proof -
  have a: "m (last xs + no) = n" if "links m no po p xs n" "xs \<noteq> []" for p n
    using that by (induction xs arbitrary: p) (auto split: if_splits)
  have b: "m (hd ys + po) = p" if "links m no po p ys n" "ys \<noteq> []" for p n
    using that by (cases ys) auto
  have hd: "head_or d zs = hd zs" if "zs \<noteq> []" for d zs using that by (cases zs) auto
  show ?thesis
  proof (cases "xs = []")
    case True
    then show ?thesis
      by (cases "ys = []") (auto simp: dlist_def next_slot_def prev_slot_def last_or_def hd b)
  next
    case False
    then show ?thesis
      by (cases "ys = []") (auto simp: dlist_def next_slot_def prev_slot_def last_or_def hd a b)
  qed
qed

text \<open>The two slot updates of a splice re-link \<open>xs\<close> to \<open>ys\<close>, whatever was between them.\<close>

lemma splice_join:
  assumes "links m no po 0 xs n" "links m no po p ys 0" "distinct (xs @ ys)" "0 \<notin> set (xs @ ys)"
    and lay: "layout (set (xs @ ys)) {no, po} {h, t}" and ne: "no \<noteq> po" "h \<noteq> t"
    and h: "xs \<noteq> [] \<Longrightarrow> m h = hd xs" and t: "ys \<noteq> [] \<Longrightarrow> m t = last ys"
  shows "dlist (m(prev_slot po t ys := last_or 0 xs, next_slot no h xs := head_or 0 ys)) no po h t (xs @ ys)"
proof -
  let ?A = "prev_slot po t ys" and ?B = "next_slot no h xs"
  let ?m = "m(?A := last_or 0 xs, ?B := head_or 0 ys)"
  note L = layoutD [OF lay]
  have AB: "?A \<noteq> ?B"
    using ne L(5) [of "hd ys" "last xs" po no] L(3,4)
    by (auto simp: prev_slot_def next_slot_def)
  have xsA: "y + no \<noteq> ?A \<and> y + po \<noteq> ?A" if "y \<in> set xs" for y
    using that L(3,5) assms(3) ne hd_in_set [of ys] by (auto simp: prev_slot_def)
  have ysB: "y + no \<noteq> ?B \<and> y + po \<noteq> ?B" if "y \<in> set ys" for y
  proof (cases "xs = []")
    case False
    then have i: "last xs \<in> set xs" by simp
    then have "last xs \<noteq> y" using assms(3) that by auto
    with False that i L(5) [of y "last xs"] ne show ?thesis by (auto simp: next_slot_def)
  qed (use that L(3) in \<open>auto simp: next_slot_def\<close>)
  have 1: "links (m(?B := head_or 0 ys)) no po 0 xs (head_or 0 ys)"
  proof (cases "xs = []")
    case False
    then show ?thesis
      using links_set_next [OF assms(1) False, of "head_or 0 ys"] assms(3) ne
        layout_mono [OF lay, of "set xs" "{no, po}" "{}"] by (simp add: next_slot_def)
  qed simp
  have 2: "links (m(?A := last_or 0 xs)) no po (last_or 0 xs) ys 0"
  proof (cases "ys = []")
    case False
    then show ?thesis
      using links_set_prev [OF assms(2) False, of "last_or 0 xs"] assms(3) ne
        layout_mono [OF lay, of "set ys" "{no, po}" "{}"] by (simp add: prev_slot_def)
  qed simp
  have "links ?m no po 0 xs (head_or 0 ys)"
    using 1 xsA AB by (subst links_frame [where m = "m(?B := head_or 0 ys)"]) auto
  moreover have "links ?m no po (last_or 0 xs) ys 0"
    using 2 ysB AB by (subst links_frame [where m = "m(?A := last_or 0 xs)"]) auto
  moreover have "xs \<noteq> [] \<longrightarrow> ?m h = hd xs" "ys \<noteq> [] \<longrightarrow> ?m t = last ys"
    using h t ne L(3,4) by (auto simp: prev_slot_def next_slot_def)
  moreover have "?m ?A = last_or 0 xs" "?m ?B = head_or 0 ys"
    using AB by simp_all
  ultimately show ?thesis
    using assms(3,4) by (simp add: dlist_append)
qed

text \<open>What a host-side observer sees of a routine that only writes guest memory.\<close>

definition only_memory :: "'z machine_scheme \<Rightarrow> 'z machine_scheme \<Rightarrow> bool" where
  "only_memory s s' \<longleftrightarrow> s' = s\<lparr>bytes := bytes s'\<rparr>"

lemma only_memory_refl [simp]: "only_memory s s"
  by (simp add: only_memory_def)

lemma only_memory_wr [simp]:
  "only_memory s (wr32 a v s') = only_memory s s'" "only_memory s (wr16 a h s') = only_memory s s'"
  unfolding only_memory_def wr32_def wr16_def by (cases s; cases s'; simp)+

lemma only_memory_trans: "only_memory s s' \<Longrightarrow> only_memory s' s'' \<Longrightarrow> only_memory s s''"
  unfolding only_memory_def by (cases s; cases s'; cases s''; simp)

lemma only_memory_wii: "only_memory s s' \<Longrightarrow> wii s \<Longrightarrow> wii s'"
  unfolding only_memory_def wii_def by (cases s; cases s'; simp)

lemma only_memory_host:
  assumes "only_memory s s'"
  shows "machine.more s' = machine.more s" "cpu s' = cpu s" "interrupts_enabled s' = interrupts_enabled s"
  using assms unfolding only_memory_def by (cases s; cases s'; simp)+

definition touches :: "u32 set \<Rightarrow> 'z machine_scheme \<Rightarrow> 'z machine_scheme \<Rightarrow> bool" where
  "touches A s s' \<longleftrightarrow> only_memory s s' \<and> (\<forall>a. a \<notin> A \<longrightarrow> mem s' a = mem s a)"

lemma touches_trans: "touches A s s' \<Longrightarrow> touches B s' s'' \<Longrightarrow> touches (A \<union> B) s s''"
  by (auto simp: touches_def intro: only_memory_trans)

lemma touches_mono: "touches A s s' \<Longrightarrow> A \<subseteq> B \<Longrightarrow> touches B s s'"
  by (auto simp: touches_def)

lemma touches_mem: "touches A s s' \<Longrightarrow> a \<notin> A \<Longrightarrow> mem s' a = mem s a"
  by (simp add: touches_def)

lemma touches_wii: "touches A s s' \<Longrightarrow> wii s \<Longrightarrow> wii s'"
  by (auto simp: touches_def intro: only_memory_wii)

lemma touches_host:
  assumes "touches A s s'"
  shows "cpu s' = cpu s" "interrupts_enabled s' = interrupts_enabled s" "machine.more s' = machine.more s"
  using assms only_memory_host unfolding touches_def by blast+

definition fields_of :: "u32 set \<Rightarrow> u32 set \<Rightarrow> u32 set" where
  "fields_of T Off = {x + i | x i. x \<in> T \<and> i \<in> Off}"

lemma fields_of_mono: "T \<subseteq> T' \<Longrightarrow> Off \<subseteq> Off' \<Longrightarrow> fields_of T Off \<subseteq> fields_of T' Off'"
  unfolding fields_of_def by blast

lemma run_unlink:
  fixes s :: "'z machine_scheme"
  assumes "wii s" and d: "dlist (mem s) no po h t (xs @ x # ys)"
    and lay: "layout (set (xs @ x # ys)) {no, po} {h, t}" and ne: "no \<noteq> po" "h \<noteq> t"
  defines "m \<equiv> (mem s)(prev_slot po t ys := last_or 0 xs, next_slot no h xs := head_or 0 ys,
                   x + no := 0, x + po := 0)"
  shows "\<exists>s'. run_state (UnlinkGuestListNode x no po h t) s = ((), s') \<and>
     only_memory s s' \<and> mem s' = m"
proof -
  note L = layoutD [OF lay]
  have w: "word_ok (x + no)" "word_ok (x + po)" "word_ok h" "word_ok t"
    using L by auto
  have sl: "word_ok (prev_slot po t ys)" "word_ok (next_slot no h xs)"
    using L by (auto simp: prev_slot_def next_slot_def)
  have r: "mem s (x + no) = head_or 0 ys" "mem s (x + po) = last_or 0 xs"
    using d by (auto simp: dlist_def)
  have z: "0 \<notin> set xs" "0 \<notin> set ys" using d by (auto simp: dlist_def)
  let ?s = "wr32 (x + po) 0 (wr32 (x + no) 0 (wr32 (next_slot no h xs) (head_or 0 ys)
       (wr32 (prev_slot po t ys) (last_or 0 xs) s)))"
  have "(if head_or 0 ys \<noteq> 0 then Write32 (head_or 0 ys + po) v else Write32 t v) =
      (Write32 (prev_slot po t ys) v :: ('z, unit) guest)" for v
    using z by (cases ys) (auto simp: prev_slot_def)
  moreover have "(if last_or 0 xs \<noteq> 0 then Write32 (last_or 0 xs + no) v else Write32 h v) =
      (Write32 (next_slot no h xs) v :: ('z, unit) guest)" for v
    using z(1) last_in_set [of xs] by (auto simp: next_slot_def last_or_def simp del: last_in_set)
  ultimately have "run_state (UnlinkGuestListNode x no po h t) s = ((), ?s)"
    unfolding UnlinkGuestListNode_def using assms(1) w sl r
    by (simp only: run_simps prod.case wii_wr)
  moreover have "mem ?s = m" using w sl by (simp add: m_def)
  ultimately show ?thesis by simp
qed


definition list_words :: "u32 list \<Rightarrow> u32 \<Rightarrow> u32 \<Rightarrow> u32 \<Rightarrow> u32 \<Rightarrow> u32 set" where
  "list_words xs no po h t = insert h (insert t (fields_of (set xs) {no, po}))"

lemma fields_ofI [intro]: "x \<in> T \<Longrightarrow> i \<in> Off \<Longrightarrow> x + i \<in> fields_of T Off"
  unfolding fields_of_def by blast

lemma slots_in_words:
  "next_slot no h xs \<in> list_words (xs @ zs) no po h t"
  "prev_slot po t ys \<in> list_words (zs @ ys) no po h t"
proof -
  show "next_slot no h xs \<in> list_words (xs @ zs) no po h t"
    using fields_ofI [of "last xs" "set (xs @ zs)" no "{no, po}"]
    by (cases "xs = []") (simp_all add: next_slot_def list_words_def)
  show "prev_slot po t ys \<in> list_words (zs @ ys) no po h t"
    using fields_ofI [of "hd ys" "set (zs @ ys)" po "{no, po}"]
    by (cases "ys = []") (simp_all add: prev_slot_def list_words_def)
qed

text \<open>Unlinking a node of a well-formed list removes exactly that node, and writes only the
  list's own link words.\<close>

lemma unlink_correct:
  assumes "wii s" and d: "dlist (mem s) no po h t (xs @ x # ys)"
    and lay: "layout (set (xs @ x # ys)) {no, po} {h, t}" and ne: "no \<noteq> po" "h \<noteq> t"
  shows "\<exists>s'. run_state (UnlinkGuestListNode x no po h t) s = ((), s') \<and>
     touches (list_words (xs @ x # ys) no po h t) s s' \<and>
     dlist (mem s') no po h t (xs @ ys) \<and> mem s' (x + no) = 0 \<and> mem s' (x + po) = 0"
proof -
  let ?j = "(mem s)(prev_slot po t ys := last_or 0 xs, next_slot no h xs := head_or 0 ys)"
  let ?m = "?j(x + no := 0, x + po := 0)"
  obtain s' where s': "run_state (UnlinkGuestListNode x no po h t) s = ((), s')"
    "only_memory s s'" "mem s' = ?m"
    using run_unlink [OF assms] by auto
  note L = layoutD [OF lay]
  have p: "distinct (xs @ x # ys)" "0 \<notin> set (xs @ x # ys)" using d by (auto simp: dlist_def)
  have "dlist ?j no po h t (xs @ ys)"
  proof (rule splice_join)
    show "links (mem s) no po 0 xs x" "links (mem s) no po x ys 0"
      using d by (auto simp: dlist_def)
    show "layout (set (xs @ ys)) {no, po} {h, t}" using lay by (rule layout_mono) auto
    show "xs \<noteq> [] \<Longrightarrow> mem s h = hd xs" using d by (cases xs) (auto simp: dlist_def)
    show "ys \<noteq> [] \<Longrightarrow> mem s t = last ys" using d by (auto simp: dlist_def last_or_def)
  qed (use p ne in auto)
  moreover have "dlist ?m no po h t (xs @ ys) = dlist ?j no po h t (xs @ ys)"
    by (rule dlist_frame) (use p ne L(3,4,5) in auto)
  ultimately have "dlist ?m no po h t (xs @ ys)" by simp
  moreover have "?m (x + no) = 0" "?m (x + po) = 0" using L(5) [of x x no po] ne by auto
  moreover have "touches (list_words (xs @ x # ys) no po h t) s s'"
  proof -
    have sl: "next_slot no h xs \<in> list_words (xs @ x # ys) no po h t"
      "prev_slot po t ys \<in> list_words (xs @ x # ys) no po h t"
      using slots_in_words(2) [of po t ys "xs @ [x]" no h] slots_in_words(1) by auto
    have "x + no \<in> list_words (xs @ x # ys) no po h t" "x + po \<in> list_words (xs @ x # ys) no po h t"
      by (auto simp: list_words_def fields_of_def)
    with sl s'(2,3) show ?thesis by (auto simp: touches_def)
  qed
  ultimately show ?thesis using s' by auto
qed

text \<open>Linking a fresh node between two parts of a list: four words, in any order.\<close>

lemma splice_insert:
  assumes d: "dlist m no po h t (xs @ ys)" and x: "x \<notin> set (xs @ ys)" "x \<noteq> 0"
    and lay: "layout (set (xs @ x # ys)) {no, po} {h, t}" and ne: "no \<noteq> po" "h \<noteq> t"
  shows "dlist (m(x + no := head_or 0 ys, prev_slot po t ys := x,
     x + po := last_or 0 xs, next_slot no h xs := x)) no po h t (xs @ x # ys)"
proof -
  note L = layoutD [OF lay]
  let ?n = "m(x + no := head_or 0 ys)" and ?m = "m(x + no := head_or 0 ys, prev_slot po t ys := x)"
  have d': "links m no po 0 xs (head_or 0 ys)" "links m no po (last_or 0 xs) ys 0"
    "distinct (xs @ ys)" "0 \<notin> set (xs @ ys)" "xs \<noteq> [] \<Longrightarrow> m h = hd xs" "ys \<noteq> [] \<Longrightarrow> m t = last ys"
    using d by (simp_all add: dlist_append)
  have xn: "x + no \<noteq> prev_slot po t ys"
    using L(3,5) x ne hd_in_set [of ys] by (auto simp: prev_slot_def)
  have "y + no \<noteq> prev_slot po t ys \<and> y + po \<noteq> prev_slot po t ys" if "y \<in> set xs" for y
    using that L(3,5) d'(3) ne hd_in_set [of ys] by (auto simp: prev_slot_def)
  then have 1: "links ?m no po 0 xs (head_or 0 ys)"
    using d'(1) x L(5) ne by (subst links_frame [where m = m]) auto
  have 2: "links ?m no po x ys 0"
  proof (cases "ys = []")
    case False
    have "links ?n no po (last_or 0 xs) ys 0"
      using d'(2) x L(5) ne by (subst links_frame [where m = m]) auto
    moreover have "layout (set ys) {no, po} {}" using lay by (rule layout_mono) auto
    ultimately show ?thesis
      using links_set_prev [of ?n no po "last_or 0 xs" ys 0 x] False d'(3) ne
      by (simp add: prev_slot_def)
  qed simp
  have 3: "links ?m no po (?m (x + po)) (x # ys) 0"
    using 2 xn L(5) ne by simp
  have "dlist (?m(prev_slot po t (x # ys) := last_or 0 xs, next_slot no h xs := head_or 0 (x # ys)))
      no po h t (xs @ x # ys)"
  proof (rule splice_join [OF 1 3])
    show "xs \<noteq> [] \<Longrightarrow> ?m h = hd xs"
      using d'(5) L(3,4) ne by (auto simp: prev_slot_def)
    show "x # ys \<noteq> [] \<Longrightarrow> ?m t = last (x # ys)"
      using d'(6) L(3,4) ne by (auto simp: prev_slot_def)
  qed (use lay ne d'(3,4) x in auto)
  then show ?thesis by (simp add: prev_slot_def)
qed

end
