(* ===== verification/QueueSpec.thy ===== *)
theory QueueSpec
  imports Prelude "HOL-Library.Multiset"
begin

text \<open>
  The two queue contracts the kernel relies on, as interfaces: a queue kept in key order by
  insertion (thread queues ordered by priority, the alarm queue ordered by firing time), and
  a bounded FIFO with a put-back operation (message queues).  Each interface names what the
  provider promises about the list it represents; the client facts are proved once here.
\<close>

section \<open>Ordered insertion\<close>

text \<open>Insertion before the first element of a strictly larger key: after all equal keys.\<close>

definition insert_by :: "('a \<Rightarrow> 'k :: linorder) \<Rightarrow> 'k \<Rightarrow> 'a \<Rightarrow> 'a list \<Rightarrow> 'a list" where
  "insert_by key p x xs = takeWhile (\<lambda>y. key y \<le> p) xs @ x # dropWhile (\<lambda>y. key y \<le> p) xs"

lemma mset_insert_by [simp]: "mset (insert_by key p x xs) = add_mset x (mset xs)"
proof -
  have "mset xs = mset (takeWhile (\<lambda>y. key y \<le> p) xs) + mset (dropWhile (\<lambda>y. key y \<le> p) xs)"
    by (metis mset_append takeWhile_dropWhile_id)
  then show ?thesis by (simp add: insert_by_def)
qed

lemma set_insert_by [simp]: "set (insert_by key p x xs) = insert x (set xs)"
  by (metis mset_insert_by set_mset_add_mset_insert set_mset_mset)

lemma insert_by_cong:
  "(\<And>y. y \<in> set xs \<Longrightarrow> key y = key' y) \<Longrightarrow> insert_by key p x xs = insert_by key' p x xs"
  unfolding insert_by_def by (simp cong: takeWhile_cong dropWhile_cong)

lemma sorted_insert_by:
  assumes "sorted (map key xs)"
  shows "sorted (map key (insert_by key (key x) x xs))"
  using assms
proof (induction xs)
  case (Cons y ys)
  show ?case
  proof (cases "key y \<le> key x")
    case True
    then have e: "insert_by key (key x) x (y # ys) = y # insert_by key (key x) x ys"
      by (simp add: insert_by_def)
    show ?thesis using Cons True unfolding e by auto
  next
    case False
    then show ?thesis using Cons.prems by (auto simp: insert_by_def)
  qed
qed (simp add: insert_by_def)

lemma filter_insert_by:
  assumes "sorted (map key xs)"
  shows "filter (\<lambda>y. key y = k) (insert_by key (key x) x xs) =
    filter (\<lambda>y. key y = k) xs @ (if key x = k then [x] else [])"
  using assms
proof (induction xs)
  case (Cons y ys)
  show ?case
  proof (cases "key y \<le> key x")
    case True
    then have e: "insert_by key (key x) x (y # ys) = y # insert_by key (key x) x ys"
      by (simp add: insert_by_def)
    show ?thesis using Cons unfolding e by auto
  next
    case False
    then have "filter (\<lambda>z. key z = key x) (y # ys) = []"
      using Cons.prems by (auto simp: filter_empty_conv)
    with False show ?thesis by (auto simp: insert_by_def)
  qed
qed (simp add: insert_by_def)

text \<open>Inserting the last element into the stably sorted rest sorts the whole list stably.\<close>

lemma sort_key_snoc: "sort_key key (xs @ [x]) = insert_by key (key x) x (sort_key key xs)"
proof (rule properties_for_sort_key)
  show "sorted (map key (insert_by key (key x) x (sort_key key xs)))"
    by (rule sorted_insert_by) simp
  fix k
  have "filter (\<lambda>y. key k = key y) zs = filter (\<lambda>y. key y = key k) zs" for zs
    by (rule filter_cong) auto
  then show "filter (\<lambda>y. key k = key y) (insert_by key (key x) x (sort_key key xs)) =
      filter (\<lambda>y. key k = key y) (xs @ [x])"
    by (auto simp: filter_insert_by sort_key_stable)
qed simp

lemma sort_key_cong: "(\<And>y. y \<in> set xs \<Longrightarrow> f y = g y) \<Longrightarrow> sort_key f xs = sort_key g xs"
proof (induction xs rule: rev_induct)
  case (snoc x xs)
  then have "sort_key f xs = sort_key g xs" "f x = g x" by auto
  moreover have "insert_by f (g x) x (sort_key g xs) = insert_by g (g x) x (sort_key g xs)"
    by (rule insert_by_cong) (use snoc.prems in auto)
  ultimately show ?case by (simp add: sort_key_snoc)
qed simp

text \<open>A queue that represents a list and inserts by key.\<close>

locale ordered_queue =
  fixes rep :: "'s \<Rightarrow> 'a list \<Rightarrow> bool"
    and key :: "'s \<Rightarrow> 'a \<Rightarrow> 'k :: linorder"
    and eligible :: "'s \<Rightarrow> 'a \<Rightarrow> bool"
    and ins :: "'a \<Rightarrow> 's \<Rightarrow> 's"
  assumes ins_rep: "rep s xs \<Longrightarrow> eligible s x \<Longrightarrow> x \<notin> set xs \<Longrightarrow>
      rep (ins x s) (insert_by (key s) (key s x) x xs)"
    and ins_key: "rep s xs \<Longrightarrow> eligible s x \<Longrightarrow> x \<notin> set xs \<Longrightarrow> eligible s y \<Longrightarrow> key (ins x s) y = key s y"
    and ins_eligible: "rep s xs \<Longrightarrow> eligible s x \<Longrightarrow> x \<notin> set xs \<Longrightarrow> eligible s y \<Longrightarrow> eligible (ins x s) y"
    and rep_eligible: "rep s xs \<Longrightarrow> x \<in> set xs \<Longrightarrow> eligible s x"
begin

lemma ins_sorted:
  assumes "rep s xs" "eligible s x" "x \<notin> set xs" "sorted (map (key s) xs)"
  shows "\<exists>ys. rep (ins x s) ys \<and> sorted (map (key (ins x s)) ys) \<and> mset ys = add_mset x (mset xs)"
proof (intro exI conjI)
  let ?ys = "insert_by (key s) (key s x) x xs"
  show "rep (ins x s) ?ys" by (rule ins_rep [OF assms(1-3)])
  have "map (key (ins x s)) ?ys = map (key s) ?ys"
    using ins_key [OF assms(1-3)] rep_eligible [OF assms(1)] assms(2) by auto
  then show "sorted (map (key (ins x s)) ?ys)"
    using sorted_insert_by [OF assms(4)] by (simp only:)
qed simp

lemma ins_sort_key:
  assumes "rep s (sort_key (key s) xs)" "eligible s x" "x \<notin> set xs"
  shows "rep (ins x s) (sort_key (key s) (xs @ [x]))"
  unfolding sort_key_snoc by (rule ins_rep) (use assms in simp_all)

text \<open>Inserting one by one yields the stable sort: key order, arrival order among equals.\<close>

theorem inserts_stable_sort:
  assumes "rep s []" "\<forall>x\<in>set xs. eligible s x" "distinct xs"
  shows "rep (fold ins xs s) (sort_key (key s) xs) \<and>
    (\<forall>y. eligible s y \<longrightarrow> eligible (fold ins xs s) y \<and> key (fold ins xs s) y = key s y)"
  using assms(2,3)
proof (induction xs rule: rev_induct)
  case (snoc x xs)
  let ?s = "fold ins xs s" and ?ys = "sort_key (key s) xs"
  from snoc have ih: "rep ?s ?ys" "\<And>y. eligible s y \<Longrightarrow> eligible ?s y \<and> key ?s y = key s y"
    and x: "eligible s x" "x \<notin> set ?ys" by auto
  have ex: "eligible ?s x" using ih(2) x(1) by blast
  have "insert_by (key ?s) (key ?s x) x ?ys = insert_by (key s) (key s x) x ?ys"
    using ih(2) snoc.prems x(1) by (auto intro: insert_by_cong)
  then have "rep (ins x ?s) (sort_key (key s) (xs @ [x]))"
    using ins_rep [OF ih(1) ex x(2)] by (simp add: sort_key_snoc)
  moreover have "eligible (ins x ?s) y \<and> key (ins x ?s) y = key s y" if "eligible s y" for y
    using ins_key [OF ih(1) ex x(2), of y] ins_eligible [OF ih(1) ex x(2), of y] ih(2) [OF that] by simp
  ultimately show ?case by simp
qed (simp add: assms(1))

end

section \<open>Bounded FIFO\<close>

text \<open>
  A bounded buffer: \<open>enq\<close> appends, \<open>jam\<close> prepends, \<open>deq\<close> removes the front; \<open>full\<close> and
  \<open>empty\<close> are the tests a client makes before it calls them.
\<close>

text \<open>The specification: a list of at most \<open>cap\<close> elements under the three guarded operations.\<close>

datatype 'a buf_op = Append 'a | PutBack 'a | Take

datatype 'a buf_out = Done | Refused | Got 'a

fun spec_step :: "nat \<Rightarrow> 'a buf_op \<Rightarrow> 'a list \<Rightarrow> 'a buf_out \<times> 'a list" where
  "spec_step cap (Append x) xs = (if length xs = cap then (Refused, xs) else (Done, xs @ [x]))"
| "spec_step cap (PutBack x) xs = (if length xs = cap then (Refused, xs) else (Done, x # xs))"
| "spec_step cap Take [] = (Refused, [])"
| "spec_step cap Take (x # xs) = (Got x, xs)"

fun run_ops :: "('op \<Rightarrow> 's \<Rightarrow> 'out \<times> 's) \<Rightarrow> 'op list \<Rightarrow> 's \<Rightarrow> 'out list \<times> 's" where
  "run_ops step [] s = ([], s)"
| "run_ops step (c # cs) s = (let (r, s1) = step c s; (rs, s2) = run_ops step cs s1 in (r # rs, s2))"

locale bounded_fifo =
  fixes rep :: "'s \<Rightarrow> 'a list \<Rightarrow> bool"
    and capacity :: "'s \<Rightarrow> nat"
    and full :: "'s \<Rightarrow> bool"
    and empty :: "'s \<Rightarrow> bool"
    and enq :: "'a \<Rightarrow> 's \<Rightarrow> 's"
    and jam :: "'a \<Rightarrow> 's \<Rightarrow> 's"
    and deq :: "'s \<Rightarrow> 'a \<times> 's"
  assumes full_iff: "rep s xs \<Longrightarrow> full s = (length xs = capacity s)"
    and empty_iff: "rep s xs \<Longrightarrow> empty s = (xs = [])"
    and enq_rep: "rep s xs \<Longrightarrow> length xs < capacity s \<Longrightarrow> rep (enq x s) (xs @ [x]) \<and> capacity (enq x s) = capacity s"
    and jam_rep: "rep s xs \<Longrightarrow> length xs < capacity s \<Longrightarrow> rep (jam x s) (x # xs) \<and> capacity (jam x s) = capacity s"
    and deq_rep: "rep s (x # xs) \<Longrightarrow> fst (deq s) = x \<and> rep (snd (deq s)) xs \<and> capacity (snd (deq s)) = capacity s"
    and rep_bounded: "rep s xs \<Longrightarrow> length xs \<le> capacity s"
begin

fun drain :: "nat \<Rightarrow> 's \<Rightarrow> 'a list \<times> 's" where
  "drain 0 s = ([], s)"
| "drain (Suc n) s = (let (x, s1) = deq s; (xs, s2) = drain n s1 in (x # xs, s2))"

lemma drain_rep:
  "rep s (xs @ ys) \<Longrightarrow> fst (drain (length xs) s) = xs \<and> rep (snd (drain (length xs) s)) ys \<and>
    capacity (snd (drain (length xs) s)) = capacity s"
proof (induction xs arbitrary: s)
  case (Cons x xs)
  then have "rep s (x # (xs @ ys))" by simp
  from deq_rep [OF this] Cons.IH [of "snd (deq s)"] show ?case
    by (simp add: case_prod_unfold Let_def)
qed simp

lemma enqs_rep:
  "rep s xs \<Longrightarrow> length xs + length ys \<le> capacity s \<Longrightarrow>
    rep (fold enq ys s) (xs @ ys) \<and> capacity (fold enq ys s) = capacity s"
proof (induction ys arbitrary: s xs)
  case (Cons y ys)
  have "rep (enq y s) (xs @ [y]) \<and> capacity (enq y s) = capacity s"
    using Cons.prems by (intro enq_rep) auto
  with Cons.IH [of "enq y s" "xs @ [y]"] Cons.prems show ?case by simp
qed simp

text \<open>The guarded operations simulate the specification, step by step and over any sequence.\<close>

fun guarded :: "'a buf_op \<Rightarrow> 's \<Rightarrow> 'a buf_out \<times> 's" where
  "guarded (Append x) s = (if full s then (Refused, s) else (Done, enq x s))"
| "guarded (PutBack x) s = (if full s then (Refused, s) else (Done, jam x s))"
| "guarded Take s = (if empty s then (Refused, s) else (let (x, s1) = deq s in (Got x, s1)))"

lemma guarded_refines:
  assumes "rep s xs"
  shows "fst (guarded c s) = fst (spec_step (capacity s) c xs) \<and>
    rep (snd (guarded c s)) (snd (spec_step (capacity s) c xs)) \<and>
    capacity (snd (guarded c s)) = capacity s"
proof (cases c)
  case (Append x)
  then show ?thesis using full_iff [OF assms] rep_bounded [OF assms] enq_rep [OF assms] assms by auto
next
  case (PutBack x)
  then show ?thesis using full_iff [OF assms] rep_bounded [OF assms] jam_rep [OF assms] assms by auto
next
  case Take
  then show ?thesis
    using empty_iff [OF assms] deq_rep assms by (cases xs) (auto simp: case_prod_unfold Let_def)
qed

theorem guarded_simulates:
  "rep s xs \<Longrightarrow> fst (run_ops guarded cs s) = fst (run_ops (spec_step (capacity s)) cs xs) \<and>
    rep (snd (run_ops guarded cs s)) (snd (run_ops (spec_step (capacity s)) cs xs))"
proof (induction cs arbitrary: s xs)
  case (Cons c cs)
  from guarded_refines [OF Cons.prems, of c] Cons.IH [of "snd (guarded c s)" "snd (spec_step (capacity s) c xs)"]
  show ?case by (simp add: case_prod_unfold Let_def)
qed simp

text \<open>Messages come out in the order they went in, and a jammed one comes out first.\<close>

theorem fifo_order:
  assumes "rep s []" "length ys \<le> capacity s"
  shows "fst (drain (length ys) (fold enq ys s)) = ys"
    "length ys < capacity s \<Longrightarrow> fst (deq (jam x (fold enq ys s))) = x"
proof -
  have r: "rep (fold enq ys s) ys" "capacity (fold enq ys s) = capacity s"
    using enqs_rep [OF assms(1), of ys] assms(2) by simp_all
  show "fst (drain (length ys) (fold enq ys s)) = ys"
    using drain_rep [of "fold enq ys s" ys "[]"] r by simp
  show "length ys < capacity s \<Longrightarrow> fst (deq (jam x (fold enq ys s))) = x"
    using jam_rep [OF r(1), of x] r(2) deq_rep [of "jam x (fold enq ys s)" x ys] by simp
qed

end

end
