(* ===== verification/OsThread.thy ===== *)
theory OsThread
  imports GuestList QueueSpec
begin

unbundle bit_operations_syntax

text \<open>
  The OSThread and OSThreadQueue layout of \<open>runtime/src/hle/os/os_internal.h\<close> and the queue
  helpers of \<open>runtime/src/hle/os/os_thread.cpp\<close> (lines 15-188): removal, priority insertion,
  effective priorities and priority propagation.  The loops over guest lists take the fuel
  as an argument; the theorems give the fuel that is enough from the length of the list.
\<close>

section \<open>Layout of the guest kernel's data\<close>

definition kOSPhysicalContextAddr :: u32 where "kOSPhysicalContextAddr = 0x800000c0"
definition kOSCurrentContextAddr :: u32 where "kOSCurrentContextAddr = 0x800000d4"
definition kOSExceptionContextAddr :: u32 where "kOSExceptionContextAddr = 0x800000d8"
definition kThreadListHeadAddr :: u32 where "kThreadListHeadAddr = 0x800000dc"
definition kThreadListTailAddr :: u32 where "kThreadListTailAddr = 0x800000e0"
definition kOSRunningContextAddr :: u32 where "kOSRunningContextAddr = 0x800000e4"
definition kDefaultThreadContextAddr :: u32 where "kDefaultThreadContextAddr = 0x80347498"
definition kIdleThreadContextAddr :: u32 where "kIdleThreadContextAddr = 0x803478b0"
definition kThreadQueueArrayAddr :: u32 where "kThreadQueueArrayAddr = 0x803477b0"
definition kThreadQueueArrayBytes :: u32 where "kThreadQueueArrayBytes = 0x100"
definition kSwitchThreadCallbackPtrAddr :: u32 where "kSwitchThreadCallbackPtrAddr = 0x80385ae0"
definition kSchedulerReschedCounterAddr :: u32 where "kSchedulerReschedCounterAddr = 0x8038691c"
definition kSchedulerPendingFlagAddr :: u32 where "kSchedulerPendingFlagAddr = 0x80386920"
definition kSchedulerIdleFlagAddr :: u32 where "kSchedulerIdleFlagAddr = 0x80386918"

definition kThreadStateOffset :: u32 where "kThreadStateOffset = 0x2C8"
definition kThreadAttrOffset :: u32 where "kThreadAttrOffset = 0x2CA"
definition kThreadSuspendOffset :: u32 where "kThreadSuspendOffset = 0x2CC"
definition kThreadPriorityOffset :: u32 where "kThreadPriorityOffset = 0x2D0"
definition kThreadBasePriorityOffset :: u32 where "kThreadBasePriorityOffset = 0x2D4"
definition kThreadExitValueOffset :: u32 where "kThreadExitValueOffset = 0x2D8"
definition kThreadQueueOffset :: u32 where "kThreadQueueOffset = 0x2DC"
definition kThreadNextOffset :: u32 where "kThreadNextOffset = 0x2E0"
definition kThreadPrevOffset :: u32 where "kThreadPrevOffset = 0x2E4"
definition kThreadJoinQueueOffset :: u32 where "kThreadJoinQueueOffset = 0x2E8"
definition kThreadMutexOffset :: u32 where "kThreadMutexOffset = 0x2F0"
definition kThreadMutexQueueOffset :: u32 where "kThreadMutexQueueOffset = 0x2F4"
definition kThreadMutexTailOffset :: u32 where "kThreadMutexTailOffset = 0x2F8"
definition kThreadListNextOffset :: u32 where "kThreadListNextOffset = 0x2FC"
definition kThreadListPrevOffset :: u32 where "kThreadListPrevOffset = 0x300"

definition kThreadStateReady :: u16 where "kThreadStateReady = 1"
definition kThreadStateRunning :: u16 where "kThreadStateRunning = 2"
definition kThreadStateWaiting :: u16 where "kThreadStateWaiting = 4"
definition kThreadStateMoribund :: u16 where "kThreadStateMoribund = 8"

definition kMutexWaitQueueHeadOffset :: u32 where "kMutexWaitQueueHeadOffset = 0x00"
definition kMutexOwnerOffset :: u32 where "kMutexOwnerOffset = 0x08"
definition kMutexCountOffset :: u32 where "kMutexCountOffset = 0x0C"
definition kMutexThreadNextOffset :: u32 where "kMutexThreadNextOffset = 0x10"
definition kMutexThreadPrevOffset :: u32 where "kMutexThreadPrevOffset = 0x14"

lemmas thread_offsets = kThreadStateOffset_def kThreadAttrOffset_def kThreadSuspendOffset_def
  kThreadPriorityOffset_def kThreadBasePriorityOffset_def kThreadExitValueOffset_def
  kThreadQueueOffset_def kThreadNextOffset_def kThreadPrevOffset_def kThreadJoinQueueOffset_def
  kThreadMutexOffset_def kThreadMutexQueueOffset_def kThreadMutexTailOffset_def
  kThreadListNextOffset_def kThreadListPrevOffset_def

lemmas kernel_words = kOSPhysicalContextAddr_def kOSCurrentContextAddr_def
  kOSExceptionContextAddr_def kThreadListHeadAddr_def kThreadListTailAddr_def
  kOSRunningContextAddr_def kSwitchThreadCallbackPtrAddr_def kSchedulerReschedCounterAddr_def
  kSchedulerPendingFlagAddr_def kSchedulerIdleFlagAddr_def

lemmas mutex_offsets = kMutexWaitQueueHeadOffset_def kMutexOwnerOffset_def kMutexCountOffset_def
  kMutexThreadNextOffset_def kMutexThreadPrevOffset_def

definition ThreadStateIsTerminated :: "u16 \<Rightarrow> bool" where
  "ThreadStateIsTerminated st \<longleftrightarrow> st = 0 \<or> st = kThreadStateMoribund"

section \<open>Queue operations\<close>

definition RemoveThreadFromList :: "u32 \<Rightarrow> ('z, unit) guest" where
  "RemoveThreadFromList threadPtr =
     UnlinkGuestListNode threadPtr kThreadListNextOffset kThreadListPrevOffset
       kThreadListHeadAddr kThreadListTailAddr"

text \<open>The run queues are the 32 head/tail pairs of \<open>kThreadQueueArrayAddr\<close>.\<close>

definition is_run_queue :: "u32 \<Rightarrow> bool" where
  "is_run_queue q \<longleftrightarrow> kThreadQueueArrayAddr \<le> q \<and> q < kThreadQueueArrayAddr + kThreadQueueArrayBytes \<and>
     (q - kThreadQueueArrayAddr) mod 8 = 0"

definition run_queue_index :: "u32 \<Rightarrow> nat" where
  "run_queue_index q = unat ((q - kThreadQueueArrayAddr) div 8)"

definition UpdatePendingMaskForQueue :: "u32 \<Rightarrow> ('z, unit) guest" where
  "UpdatePendingMaskForQueue queueEntry =
     whenM (is_run_queue queueEntry) (do {
       head \<leftarrow> Read32 queueEntry;
       whenM (head = 0) (do {
         pending \<leftarrow> Read32 kSchedulerPendingFlagAddr;
         Write32 kSchedulerPendingFlagAddr
           (pending AND NOT (push_bit (31 - run_queue_index queueEntry) 1))
       })
     })"

definition RemoveThreadFromQueue :: "u32 \<Rightarrow> ('z, unit) guest" where
  "RemoveThreadFromQueue threadPtr = do {
     queuePtr \<leftarrow> Read32 (threadPtr + kThreadQueueOffset);
     whenM (queuePtr \<noteq> 0) (do {
       UnlinkGuestListNode threadPtr kThreadNextOffset kThreadPrevOffset queuePtr (queuePtr + 4);
       Write32 (threadPtr + kThreadQueueOffset) 0;
       UpdatePendingMaskForQueue queuePtr
     })
   }"

text \<open>One round of the mutex loop: the state is the mutex and the smallest priority so far.\<close>

definition priority_round :: "u32 \<times> int \<Rightarrow> ('z, (u32 \<times> int) + int) guest" where
  "priority_round = (\<lambda>(mutexPtr, priority).
       if mutexPtr = 0 then State_Monad.return (Inr priority)
       else do {
         waiterThread \<leftarrow> Read32 (mutexPtr + kMutexWaitQueueHeadOffset);
         priority' \<leftarrow>
           (if waiterThread = 0 then State_Monad.return priority
            else do {
              w \<leftarrow> Read32 (waiterThread + kThreadPriorityOffset);
              State_Monad.return (if sint w < priority then sint w else priority)
            });
         nxt \<leftarrow> Read32 (mutexPtr + kMutexThreadNextOffset);
         State_Monad.return (Inl (nxt, priority'))
       })"

definition ComputeThreadEffectivePriority :: "nat \<Rightarrow> u32 \<Rightarrow> ('z, int) guest" where
  "ComputeThreadEffectivePriority fuel threadPtr = do {
     base \<leftarrow> Read32 (threadPtr + kThreadBasePriorityOffset);
     first \<leftarrow> Read32 (threadPtr + kThreadMutexQueueOffset);
     loop fuel 0 priority_round (first, sint base)
   }"

definition IsThpVideoDecoderEntry :: "u32 \<Rightarrow> bool" where
  "IsThpVideoDecoderEntry entryFunc \<longleftrightarrow> entryFunc = 0x805529A8 \<or> entryFunc = 0x80552A74"

text \<open>The scan for the first queued thread of a strictly larger priority value.\<close>

definition insert_position :: "nat \<Rightarrow> int \<Rightarrow> u32 \<Rightarrow> ('z, u32) guest" where
  "insert_position fuel priority start = loop fuel 0 (\<lambda>insertBefore.
     if insertBefore = 0 then State_Monad.return (Inr insertBefore)
     else do {
       queuedPriority \<leftarrow> Read32 (insertBefore + kThreadPriorityOffset);
       (if sint queuedPriority > priority then State_Monad.return (Inr insertBefore)
        else do {
          nxt \<leftarrow> Read32 (insertBefore + kThreadNextOffset);
          State_Monad.return (Inl nxt)
        })
     }) start"

text \<open>Splicing the thread in before that one, or at the tail.\<close>

definition link_before :: "u32 \<Rightarrow> u32 \<Rightarrow> u32 \<Rightarrow> ('z, unit) guest" where
  "link_before queuePtr threadPtr insertBefore =
     (if insertBefore = 0 then do {
        tail \<leftarrow> Read32 (queuePtr + 4);
        (if tail = 0 then Write32 queuePtr threadPtr
         else Write32 (tail + kThreadNextOffset) threadPtr);
        Write32 (threadPtr + kThreadPrevOffset) tail;
        Write32 (threadPtr + kThreadNextOffset) 0;
        Write32 (queuePtr + 4) threadPtr
      } else do {
        Write32 (threadPtr + kThreadNextOffset) insertBefore;
        prev \<leftarrow> Read32 (insertBefore + kThreadPrevOffset);
        Write32 (insertBefore + kThreadPrevOffset) threadPtr;
        Write32 (threadPtr + kThreadPrevOffset) prev;
        (if prev = 0 then Write32 queuePtr threadPtr
         else Write32 (prev + kThreadNextOffset) threadPtr)
      })"

definition InsertThreadIntoQueueByPriority :: "nat \<Rightarrow> u32 \<Rightarrow> u32 \<Rightarrow> int \<Rightarrow> ('z, unit) guest" where
  "InsertThreadIntoQueueByPriority fuel queuePtr threadPtr priority = do {
     Write32 (threadPtr + kThreadQueueOffset) queuePtr;
     head \<leftarrow> Read32 queuePtr;
     insertBefore \<leftarrow> insert_position fuel priority head;
     link_before queuePtr threadPtr insertBefore;
     whenM (is_run_queue queuePtr) (do {
       pending \<leftarrow> Read32 kSchedulerPendingFlagAddr;
       Write32 kSchedulerPendingFlagAddr (pending OR push_bit (31 - run_queue_index queuePtr) 1)
     })
   }"

definition SetThreadEffectivePriority :: "nat \<Rightarrow> u32 \<Rightarrow> int \<Rightarrow> ('z, u32) guest" where
  "SetThreadEffectivePriority fuel threadPtr priority = do {
     st \<leftarrow> Read16 (threadPtr + kThreadStateOffset);
     (if st = 3 then State_Monad.return 0
      else if st < 3 then do {
        (if st = kThreadStateReady then do {
           RemoveThreadFromQueue threadPtr;
           Write32 (threadPtr + kThreadPriorityOffset) (word_of_int priority);
           InsertThreadIntoQueueByPriority fuel (kThreadQueueArrayAddr + word_of_int priority * 8)
             threadPtr priority;
           Write32 kSchedulerReschedCounterAddr 1
         } else whenM (st \<noteq> 0) (do {
           Write32 kSchedulerReschedCounterAddr 1;
           Write32 (threadPtr + kThreadPriorityOffset) (word_of_int priority)
         }));
        State_Monad.return 0
      } else if st < 5 then do {
        queuePtr \<leftarrow> Read32 (threadPtr + kThreadQueueOffset);
        RemoveThreadFromQueue threadPtr;
        Write32 (threadPtr + kThreadPriorityOffset) (word_of_int priority);
        whenM (queuePtr \<noteq> 0) (InsertThreadIntoQueueByPriority fuel queuePtr threadPtr priority);
        mutexPtr \<leftarrow> Read32 (threadPtr + kThreadMutexOffset);
        (if mutexPtr \<noteq> 0 then Read32 (mutexPtr + kMutexOwnerOffset) else State_Monad.return 0)
      } else State_Monad.return 0)
   }"

definition PropagateMutexOwnerPriority :: "nat \<Rightarrow> u32 \<Rightarrow> ('z, unit) guest" where
  "PropagateMutexOwnerPriority fuel mutexPtr =
     whenM (mutexPtr \<noteq> 0) (do {
       owner \<leftarrow> Read32 (mutexPtr + kMutexOwnerOffset);
       loop fuel () (\<lambda>ownerThread.
         if ownerThread = 0 then State_Monad.return (Inr ())
         else do {
           suspend \<leftarrow> Read32 (ownerThread + kThreadSuspendOffset);
           (if \<not> sint suspend < 1 then State_Monad.return (Inr ())
            else do {
              ownerPriority \<leftarrow> ComputeThreadEffectivePriority fuel ownerThread;
              current \<leftarrow> Read32 (ownerThread + kThreadPriorityOffset);
              (if current = word_of_int ownerPriority then State_Monad.return (Inr ())
               else do {
                 nxt \<leftarrow> SetThreadEffectivePriority fuel ownerThread ownerPriority;
                 State_Monad.return (Inl nxt)
               })
            })
         }) owner
     })"


section \<open>Priority insertion\<close>

abbreviation thread_queue :: "(u32 \<Rightarrow> u32) \<Rightarrow> u32 \<Rightarrow> u32 list \<Rightarrow> bool" where
  "thread_queue m q xs \<equiv> dlist m kThreadNextOffset kThreadPrevOffset q (q + 4) xs"

definition prio_of :: "(u32 \<Rightarrow> u32) \<Rightarrow> u32 \<Rightarrow> int" where
  "prio_of m x = sint (m (x + kThreadPriorityOffset))"

text \<open>The thread words the queue and context operations use.\<close>

definition queue_fields :: "u32 set" where
  "queue_fields = {0x19C, 0x1A0, kThreadStateOffset, kThreadSuspendOffset, kThreadPriorityOffset,
     kThreadBasePriorityOffset, kThreadQueueOffset, kThreadNextOffset, kThreadPrevOffset,
     kThreadMutexOffset, kThreadMutexQueueOffset, kThreadMutexTailOffset}"

definition queue_layout :: "u32 \<Rightarrow> u32 set \<Rightarrow> bool" where
  "queue_layout q T \<longleftrightarrow> layout T queue_fields {q, q + 4, kSchedulerPendingFlagAddr} \<and>
     q \<noteq> kSchedulerPendingFlagAddr \<and> q + 4 \<noteq> kSchedulerPendingFlagAddr"

lemma link_offsets_ne [simp]:
  "kThreadNextOffset \<noteq> kThreadPrevOffset" "kThreadPrevOffset \<noteq> kThreadNextOffset"
  "kThreadQueueOffset \<noteq> kThreadNextOffset" "kThreadQueueOffset \<noteq> kThreadPrevOffset"
  "kThreadNextOffset \<noteq> kThreadQueueOffset" "kThreadPrevOffset \<noteq> kThreadQueueOffset"
  "kThreadPriorityOffset \<noteq> kThreadNextOffset" "kThreadPriorityOffset \<noteq> kThreadPrevOffset"
  "kThreadPriorityOffset \<noteq> kThreadQueueOffset" "kThreadNextOffset \<noteq> kThreadPriorityOffset"
  "kThreadPrevOffset \<noteq> kThreadPriorityOffset" "kThreadQueueOffset \<noteq> kThreadPriorityOffset"
  by (simp_all add: thread_offsets)

lemma plus4_ne [simp]: "(q :: u32) \<noteq> q + 4" "q + 4 \<noteq> (q :: u32)"
  by simp_all

lemma queue_fieldsI [simp]:
  "kThreadPriorityOffset \<in> queue_fields" "kThreadQueueOffset \<in> queue_fields"
  "kThreadNextOffset \<in> queue_fields" "kThreadPrevOffset \<in> queue_fields"
  "kThreadStateOffset \<in> queue_fields" "kThreadSuspendOffset \<in> queue_fields"
  "kThreadBasePriorityOffset \<in> queue_fields" "kThreadMutexOffset \<in> queue_fields"
  "kThreadMutexQueueOffset \<in> queue_fields" "kThreadMutexTailOffset \<in> queue_fields"
  "0x19C \<in> queue_fields" "0x1A0 \<in> queue_fields"
  by (simp_all add: queue_fields_def)

lemma queue_layoutD:
  assumes "queue_layout q T"
  shows "layout T queue_fields {q, q + 4, kSchedulerPendingFlagAddr}"
    "layout T {kThreadNextOffset, kThreadPrevOffset} {q, q + 4}"
    "word_ok q" "word_ok (q + 4)" "word_ok kSchedulerPendingFlagAddr"
    "q \<noteq> kSchedulerPendingFlagAddr" "q + 4 \<noteq> kSchedulerPendingFlagAddr"
    "kSchedulerPendingFlagAddr \<noteq> q" "kSchedulerPendingFlagAddr \<noteq> q + 4"
    "x \<in> T \<Longrightarrow> word_ok (x + kThreadPriorityOffset)" "x \<in> T \<Longrightarrow> word_ok (x + kThreadQueueOffset)"
    "x \<in> T \<Longrightarrow> word_ok (x + kThreadNextOffset)" "x \<in> T \<Longrightarrow> word_ok (x + kThreadPrevOffset)"
proof -
  have l: "layout T queue_fields {q, q + 4, kSchedulerPendingFlagAddr}"
    and ne: "q \<noteq> kSchedulerPendingFlagAddr" "q + 4 \<noteq> kSchedulerPendingFlagAddr"
    using assms by (simp_all add: queue_layout_def)
  show "layout T queue_fields {q, q + 4, kSchedulerPendingFlagAddr}" by (rule l)
  show "layout T {kThreadNextOffset, kThreadPrevOffset} {q, q + 4}"
    using l by (rule layout_mono) simp_all
  show "word_ok q" "word_ok (q + 4)" "word_ok kSchedulerPendingFlagAddr"
    by (rule layoutD(2) [OF l]; simp)+
  show "q \<noteq> kSchedulerPendingFlagAddr" "q + 4 \<noteq> kSchedulerPendingFlagAddr"
    "kSchedulerPendingFlagAddr \<noteq> q" "kSchedulerPendingFlagAddr \<noteq> q + 4" using ne by metis+
  show "x \<in> T \<Longrightarrow> word_ok (x + kThreadPriorityOffset)" "x \<in> T \<Longrightarrow> word_ok (x + kThreadQueueOffset)"
    "x \<in> T \<Longrightarrow> word_ok (x + kThreadNextOffset)" "x \<in> T \<Longrightarrow> word_ok (x + kThreadPrevOffset)"
    by (rule layoutD(1) [OF l]; simp)+
qed

lemma queue_layout_mono: "queue_layout q T \<Longrightarrow> T' \<subseteq> T \<Longrightarrow> queue_layout q T'"
  unfolding queue_layout_def by (auto elim: layout_mono)

text \<open>Fields of threads laid out for queue operations never collide.\<close>

lemma queue_field_ne:
  assumes "queue_layout q T" "x \<in> T" "i \<in> queue_fields"
  shows "x + i \<noteq> q" "x + i \<noteq> q + 4" "x + i \<noteq> kSchedulerPendingFlagAddr"
    "q \<noteq> x + i" "q + 4 \<noteq> x + i" "kSchedulerPendingFlagAddr \<noteq> x + i"
    "y \<in> T \<Longrightarrow> j \<in> queue_fields \<Longrightarrow> (x + i = y + j) = (x = y \<and> i = j)"
proof -
  note L = layoutD [OF queue_layoutD(1) [OF assms(1)]]
  show "x + i \<noteq> q" "x + i \<noteq> q + 4" "x + i \<noteq> kSchedulerPendingFlagAddr"
    by (rule L(3) [OF assms(2,3)]; simp)+
  show "q \<noteq> x + i" "q + 4 \<noteq> x + i" "kSchedulerPendingFlagAddr \<noteq> x + i"
    by (rule L(4) [OF assms(2,3)]; simp)+
  show "y \<in> T \<Longrightarrow> j \<in> queue_fields \<Longrightarrow> (x + i = y + j) = (x = y \<and> i = j)"
    using L(5) [OF assms(2) _ assms(3)] by blast
qed

lemma run_insert_position:
  assumes "wii s" "links (mem s) kThreadNextOffset kThreadPrevOffset p xs 0" "0 \<notin> set xs"
    "\<And>y. y \<in> set xs \<Longrightarrow> word_ok (y + kThreadPriorityOffset) \<and> word_ok (y + kThreadNextOffset)"
    "length xs < fuel"
  shows "run_state (insert_position fuel pr (head_or 0 xs)) s =
    (head_or 0 (dropWhile (\<lambda>y. prio_of (mem s) y \<le> pr) xs), s)"
  using assms(2-5)
proof (induction xs arbitrary: p fuel)
  case Nil
  then obtain n where "fuel = Suc n" by (cases fuel) auto
  then show ?case by (simp add: insert_position_def run_simps)
next
  case (Cons x xs)
  then obtain n where n: "fuel = Suc n" by (cases fuel) auto
  have ih: "run_state (insert_position n pr (head_or 0 xs)) s =
      (head_or 0 (dropWhile (\<lambda>y. prio_of (mem s) y \<le> pr) xs), s)"
    by (rule Cons.IH) (use Cons.prems n in auto)
  have w: "word_ok (x + kThreadPriorityOffset)" "word_ok (x + kThreadNextOffset)" "x \<noteq> 0"
    "mem s (x + kThreadNextOffset) = head_or 0 xs"
    using Cons.prems by auto
  show ?case
    using assms(1) w ih by (simp add: insert_position_def n run_simps prio_of_def)
qed


lemma run_link_before:
  fixes s :: "'z machine_scheme"
  assumes "wii s" and d: "thread_queue (mem s) q (xs @ ys)"
    and lay: "queue_layout q (set (xs @ x # ys))" and x: "x \<notin> set (xs @ ys)" "x \<noteq> 0"
  shows "\<exists>s'. run_state (link_before q x (head_or 0 ys)) s = ((), s') \<and>
     touches (list_words (xs @ x # ys) kThreadNextOffset kThreadPrevOffset q (q + 4)) s s' \<and>
     thread_queue (mem s') q (xs @ x # ys)"
proof -
  let ?no = kThreadNextOffset and ?po = kThreadPrevOffset
  let ?B = "next_slot ?no q xs" and ?A = "prev_slot ?po (q + 4) ys"
  let ?m = "(mem s)(x + ?no := head_or 0 ys, ?A := x, x + ?po := last_or 0 xs, ?B := x)"
  note Q = queue_layoutD [OF lay] and F = queue_field_ne [OF lay]
  have ok: "word_ok ?A" "word_ok ?B" "word_ok (x + ?no)" "word_ok (x + ?po)" "word_ok q" "word_ok (q + 4)"
    using Q by (auto simp: prev_slot_def next_slot_def)
  have z: "0 \<notin> set xs" "0 \<notin> set ys" using d by (auto simp: dlist_def)
  have dm: "mem s ?A = last_or 0 xs" "mem s ?B = head_or 0 ys" using d by (simp_all add: dlist_append)
  have xA: "x + ?no \<noteq> ?A" "x + ?po \<noteq> ?A"
    using F(2) [of x] F(7) [of x _ "hd ys"] x by (auto simp: prev_slot_def)
  have xB: "x + ?no \<noteq> ?B" "x + ?po \<noteq> ?B"
  proof -
    have "xs \<noteq> [] \<Longrightarrow> last xs \<noteq> x" using x last_in_set [of xs] by auto
    then show "x + ?no \<noteq> ?B" "x + ?po \<noteq> ?B"
      using F(1) [of x] F(7) [of x _ "last xs"] by (auto simp: next_slot_def)
  qed
  have AB: "?A \<noteq> ?B"
    using F(2) [of "last xs" ?no] F(1) [of "hd ys" ?po] F(7) [of "hd ys" ?po "last xs" ?no]
    by (auto simp: prev_slot_def next_slot_def)
  have nB: "(if last_or 0 xs = 0 then Write32 q v else Write32 (last_or 0 xs + ?no) v) =
      (Write32 ?B v :: ('z, unit) guest)" for v
    using z(1) last_in_set [of xs] by (auto simp: next_slot_def last_or_def simp del: last_in_set)
  have "\<exists>s'. run_state (link_before q x (head_or 0 ys)) s = ((), s') \<and> only_memory s s' \<and> mem s' = ?m"
  proof (cases "ys = []")
    case True
    let ?s = "wr32 (q + 4) x (wr32 (x + ?no) 0 (wr32 (x + ?po) (last_or 0 xs) (wr32 ?B x s)))"
    have A: "?A = q + 4" using True by (simp add: prev_slot_def)
    have "run_state (link_before q x (head_or 0 ys)) s = ((), ?s)"
      using assms(1) ok dm nB A True by (simp add: link_before_def run_simps)
    moreover have "mem ?s = ?m"
      using ok A True xA xB AB by (auto simp: fun_eq_iff)
    ultimately show ?thesis by simp
  next
    case False
    then have h: "head_or 0 ys \<noteq> 0" "head_or 0 ys + ?po = ?A" using z by (cases ys; simp add: prev_slot_def)+
    let ?s = "wr32 ?B x (wr32 (x + ?po) (last_or 0 xs) (wr32 ?A x (wr32 (x + ?no) (head_or 0 ys) s)))"
    have "run_state (link_before q x (head_or 0 ys)) s = ((), ?s)"
      using assms(1) ok dm nB h xA by (simp add: link_before_def run_simps)
    moreover have "mem ?s = ?m" using ok by simp
    ultimately show ?thesis by simp
  qed
  then obtain s' where s': "run_state (link_before q x (head_or 0 ys)) s = ((), s')"
    "only_memory s s'" "mem s' = ?m" by auto
  have "thread_queue (mem s') q (xs @ x # ys)"
    unfolding s'(3) by (rule splice_insert [OF d x(1,2) Q(2)]) simp_all
  moreover have "touches (list_words (xs @ x # ys) ?no ?po q (q + 4)) s s'"
  proof -
    let ?W = "list_words (xs @ x # ys) ?no ?po q (q + 4)"
    have "?B \<in> ?W" "?A \<in> ?W" "x + ?no \<in> ?W" "x + ?po \<in> ?W"
      using slots_in_words(1) [of ?no q xs "x # ys" ?po "q + 4"]
        slots_in_words(2) [of ?po "q + 4" ys "xs @ [x]" ?no q]
      by (auto simp: list_words_def)
    then show ?thesis using s'(2,3) by (auto simp: touches_def)
  qed
  ultimately show ?thesis using s'(1) by blast
qed


lemma list_words_perm: "set xs = set ys \<Longrightarrow> list_words xs no po h t = list_words ys no po h t"
  by (simp add: list_words_def)

text \<open>A word outside the links, the back pointers and the run-queue mask.\<close>

definition queue_words :: "u32 list \<Rightarrow> u32 \<Rightarrow> u32 set" where
  "queue_words xs q = list_words xs kThreadNextOffset kThreadPrevOffset q (q + 4) \<union>
     fields_of (set xs) {kThreadQueueOffset} \<union> {kSchedulerPendingFlagAddr}"

text \<open>What one insertion or removal really writes: the back pointer of its own thread only.\<close>

definition splice_words :: "u32 list \<Rightarrow> u32 \<Rightarrow> u32 \<Rightarrow> u32 set" where
  "splice_words xs x q = list_words xs kThreadNextOffset kThreadPrevOffset q (q + 4) \<union>
     {x + kThreadQueueOffset, kSchedulerPendingFlagAddr}"

lemma splice_words_sub: "x \<in> set xs \<Longrightarrow> splice_words xs x q \<subseteq> queue_words xs q"
  by (auto simp: splice_words_def queue_words_def)

lemma not_in_fields_of:
  assumes "queue_layout q T" "y \<in> T" "i \<in> queue_fields" "X \<subseteq> T" "Off \<subseteq> queue_fields"
    and "i \<notin> Off \<or> y \<notin> X"
  shows "y + i \<notin> fields_of X Off"
proof
  assume "y + i \<in> fields_of X Off"
  then obtain x j where e: "y + i = x + j" and x: "x \<in> X" "j \<in> Off" by (auto simp: fields_of_def)
  then have "y = x \<and> i = j" using queue_field_ne(7) [OF assms(1-3), of x j] assms(4,5) by blast
  with x assms(6) show False by blast
qed

lemma not_in_list_words:
  assumes "queue_layout q T" "y \<in> T" "i \<in> queue_fields" "set xs \<subseteq> T"
    and "i \<notin> {kThreadNextOffset, kThreadPrevOffset} \<or> y \<notin> set xs"
  shows "y + i \<notin> list_words xs kThreadNextOffset kThreadPrevOffset q (q + 4)"
  using not_in_fields_of [OF assms(1-4), of "{kThreadNextOffset, kThreadPrevOffset}"] assms(5)
    queue_field_ne(1,2) [OF assms(1-3)]
  by (auto simp: list_words_def)

lemma pending_not_in_list_words:
  assumes "queue_layout q T" "set xs \<subseteq> T"
  shows "kSchedulerPendingFlagAddr \<notin> list_words xs kThreadNextOffset kThreadPrevOffset q (q + 4)"
  using queue_layoutD(8,9) [OF assms(1)] queue_field_ne(6) [OF assms(1)] assms(2)
  by (auto simp: list_words_def fields_of_def)

lemma not_in_queue_words:
  assumes "queue_layout q T" "y \<in> T" "i \<in> queue_fields" "set xs \<subseteq> T"
    and "i \<notin> {kThreadNextOffset, kThreadPrevOffset, kThreadQueueOffset} \<or> y \<notin> set xs"
  shows "y + i \<notin> queue_words xs q"
  using not_in_list_words [OF assms(1-4)] not_in_fields_of [OF assms(1-4), of "{kThreadQueueOffset}"]
    assms(5) queue_field_ne(3) [OF assms(1-3)]
  by (auto simp: queue_words_def)

lemma not_in_splice_words:
  assumes "queue_layout q T" "y \<in> T" "i \<in> queue_fields" "set xs \<subseteq> T" "x \<in> T"
    and "i \<notin> {kThreadNextOffset, kThreadPrevOffset}" "i \<noteq> kThreadQueueOffset \<or> y \<noteq> x"
  shows "y + i \<notin> splice_words xs x q"
  using not_in_list_words [OF assms(1-4)] assms(6,7) queue_field_ne(3) [OF assms(1-3)]
    queue_field_ne(7) [OF assms(1-3,5), of kThreadQueueOffset]
  by (auto simp: splice_words_def)

lemma insert_by_priority_correct:
  fixes s :: "'z machine_scheme"
  assumes "wii s" and d: "thread_queue (mem s) q xs"
    and lay: "queue_layout q (set (x # xs))" and x: "x \<notin> set xs" "x \<noteq> 0" and f: "length xs < fuel"
  shows "\<exists>s'. run_state (InsertThreadIntoQueueByPriority fuel q x p) s = ((), s') \<and>
     touches (queue_words (x # xs) q) s s' \<and> touches (splice_words (x # xs) x q) s s' \<and>
     thread_queue (mem s') q (insert_by (prio_of (mem s)) p x xs) \<and>
     mem s' (x + kThreadQueueOffset) = q \<and>
     mem s' kSchedulerPendingFlagAddr =
       (if is_run_queue q then mem s kSchedulerPendingFlagAddr OR push_bit (31 - run_queue_index q) 1
        else mem s kSchedulerPendingFlagAddr)"
proof -
  let ?W = "list_words (x # xs) kThreadNextOffset kThreadPrevOffset q (q + 4)"
  let ?pf = kSchedulerPendingFlagAddr
  define P where "P = (\<lambda>y. prio_of (mem s) y \<le> p)"
  define as where "as = takeWhile P xs"
  define bs where "bs = dropWhile P xs"
  have ab: "xs = as @ bs" by (simp add: as_def bs_def)
  note Q = queue_layoutD [OF lay] and F = queue_field_ne [OF lay]
  define s1 where "s1 = wr32 (x + kThreadQueueOffset) q s"
  have m1: "mem s1 = (mem s)(x + kThreadQueueOffset := q)" and w1: "wii s1"
    using Q assms(1) by (simp_all add: s1_def)
  have d1: "thread_queue (mem s1) q xs"
    using d F x unfolding m1 by (subst dlist_frame) auto
  have pr1: "prio_of (mem s1) y = prio_of (mem s) y" if "y \<in> set xs" for y
    using F(7) [of y kThreadPriorityOffset x kThreadQueueOffset] that by (simp add: m1 prio_of_def)
  have "dropWhile (\<lambda>y. prio_of (mem s1) y \<le> p) xs = bs"
    unfolding bs_def P_def by (rule dropWhile_cong) (simp_all add: pr1)
  then have pos: "run_state (insert_position fuel p (head_or 0 xs)) s1 = (head_or 0 bs, s1)"
    using run_insert_position [OF w1, of 0 xs fuel p] d1 Q f by (simp add: dlist_def)
  obtain s2 where s2: "run_state (link_before q x (head_or 0 bs)) s1 = ((), s2)"
    "touches ?W s1 s2" "thread_queue (mem s2) q (as @ x # bs)"
    using run_link_before [OF w1, of q as bs x] d1 lay x list_words_perm [of "as @ x # bs" "x # xs"]
    by (auto simp: ab Un_commute)
  have w2: "wii s2" using s2(2) w1 by (rule touches_wii)
  define s3 where "s3 = (if is_run_queue q
      then wr32 ?pf (mem s2 ?pf OR push_bit (31 - run_queue_index q) 1) s2 else s2)"
  have run: "run_state (InsertThreadIntoQueueByPriority fuel q x p) s = ((), s3)"
    using assms(1) w1 w2 Q pos s2(1) d1
    by (simp add: InsertThreadIntoQueueByPriority_def run_simps s3_def dlist_def flip: s1_def)
  have pf2: "mem s2 ?pf = mem s ?pf"
  proof -
    have "?pf \<notin> ?W" by (rule pending_not_in_list_words [OF lay]) simp
    then show ?thesis using touches_mem [OF s2(2), of ?pf] F(6) [of x kThreadQueueOffset] by (simp add: m1)
  qed
  have xq2: "mem s2 (x + kThreadQueueOffset) = q"
  proof -
    have "x + kThreadQueueOffset \<notin> ?W" by (rule not_in_list_words [OF lay]) simp_all
    then show ?thesis using touches_mem [OF s2(2)] by (simp add: m1)
  qed
  have m3: "mem s3 = (mem s2)(?pf := if is_run_queue q then mem s ?pf OR push_bit (31 - run_queue_index q) 1
      else mem s ?pf)"
    using Q pf2 by (auto simp: s3_def)
  have "thread_queue (mem s3) q (as @ x # bs)"
    using s2(3) Q F unfolding m3 by (subst dlist_frame) (auto simp: ab)
  moreover have t: "touches (splice_words (x # xs) x q) s s3"
  proof -
    have "touches {x + kThreadQueueOffset} s s1" using m1 by (simp add: touches_def s1_def)
    moreover have "touches {?pf} s2 s3" using Q by (simp add: touches_def s3_def)
    ultimately have "touches ({x + kThreadQueueOffset} \<union> ?W \<union> {?pf}) s s3"
      using s2(2) by (blast intro: touches_trans)
    then show ?thesis by (rule touches_mono) (auto simp: splice_words_def)
  qed
  moreover have "touches (queue_words (x # xs) q) s s3"
    by (rule touches_mono [OF t splice_words_sub]) simp
  ultimately show ?thesis
    using run m3 xq2 F(3) [of x kThreadQueueOffset]
    by (simp add: insert_by_def as_def bs_def P_def)
qed


section \<open>Thread queues implement the ordered-queue contract\<close>

definition thread_queue_rep :: "nat \<Rightarrow> u32 \<Rightarrow> u32 set \<Rightarrow> 'z machine_scheme \<Rightarrow> u32 list \<Rightarrow> bool" where
  "thread_queue_rep fuel q T s xs \<longleftrightarrow> wii s \<and> queue_layout q T \<and> finite T \<and> card T \<le> fuel \<and> 0 \<notin> T \<and>
     set xs \<subseteq> T \<and> thread_queue (mem s) q xs"

definition enqueue_thread :: "nat \<Rightarrow> u32 \<Rightarrow> u32 \<Rightarrow> 'z machine_scheme \<Rightarrow> 'z machine_scheme" where
  "enqueue_thread fuel q x s =
     snd (run_state (InsertThreadIntoQueueByPriority fuel q x (prio_of (mem s) x)) s)"

lemma enqueue_thread_step:
  assumes "thread_queue_rep fuel q T s xs" "x \<in> T" "x \<notin> set xs"
  shows "thread_queue_rep fuel q T (enqueue_thread fuel q x s)
           (insert_by (prio_of (mem s)) (prio_of (mem s) x) x xs) \<and>
         (\<forall>y\<in>T. prio_of (mem (enqueue_thread fuel q x s)) y = prio_of (mem s) y)"
proof -
  note r = assms(1) [unfolded thread_queue_rep_def]
  have d: "distinct (x # xs)" using r assms(3) by (auto simp: dlist_def)
  have "set (x # xs) \<subseteq> T" using r assms(2) by auto
  then have "length xs < fuel"
    using card_mono [of T "set (x # xs)"] r distinct_card [OF d] by simp
  moreover have "queue_layout q (set (x # xs))"
    using r assms(2) by (auto elim!: queue_layout_mono)
  moreover have "x \<noteq> 0" using r assms(2) by auto
  ultimately obtain s' where s': "enqueue_thread fuel q x s = s'"
    "touches (queue_words (x # xs) q) s s'"
    "thread_queue (mem s') q (insert_by (prio_of (mem s)) (prio_of (mem s) x) x xs)"
    using insert_by_priority_correct [of s q xs x fuel "prio_of (mem s) x"] r assms(3)
    by (auto simp: enqueue_thread_def)
  have "prio_of (mem s') y = prio_of (mem s) y" if "y \<in> T" for y
  proof -
    have "y + kThreadPriorityOffset \<notin> queue_words (x # xs) q"
      by (rule not_in_queue_words [of q T]) (use r that assms(2) in auto)
    then show ?thesis by (simp add: prio_of_def touches_mem [OF s'(2)])
  qed
  moreover have "wii s'" using touches_wii [OF s'(2)] r by simp
  ultimately show ?thesis using s' r assms(2) by (auto simp: thread_queue_rep_def)
qed

interpretation tq: ordered_queue "thread_queue_rep fuel q T" "\<lambda>s. prio_of (mem s)"
  "\<lambda>s x. x \<in> T" "enqueue_thread fuel q" for fuel q T
proof
  fix s :: "'z machine_scheme" and xs x y
  assume r: "thread_queue_rep fuel q T s xs"
  { assume x: "x \<in> T" "x \<notin> set xs"
    note e = enqueue_thread_step [OF r x]
    show "thread_queue_rep fuel q T (enqueue_thread fuel q x s)
        (insert_by (prio_of (mem s)) (prio_of (mem s) x) x xs)" using e by simp
    assume "y \<in> T"
    then show "prio_of (mem (enqueue_thread fuel q x s)) y = prio_of (mem s) y" "y \<in> T" using e by simp_all }
  assume "x \<in> set xs"
  then show "x \<in> T" using r by (auto simp: thread_queue_rep_def)
qed

text \<open>C1: putting distinct threads one after another into an empty thread queue with
  \<open>InsertThreadIntoQueueByPriority\<close> leaves a well-formed doubly linked guest list that is the
  stable sort of the threads by priority: a smaller priority value comes first and threads of
  equal priority keep their arrival order.  No access faults, and fuel for one more step than
  there are threads is enough.\<close>

theorem thread_queue_is_stable_sort:
  assumes "wii s" "queue_layout q (set xs)" "distinct xs" "0 \<notin> set xs" "length xs \<le> fuel"
    and "thread_queue (mem s) q []"
  shows "thread_queue (mem (fold (enqueue_thread fuel q) xs s)) q (sort_key (prio_of (mem s)) xs) \<and>
    fault (fold (enqueue_thread fuel q) xs s) = None"
proof -
  have "thread_queue_rep fuel q (set xs) s []"
    using assms distinct_card [of xs] by (simp add: thread_queue_rep_def)
  from tq.inserts_stable_sort [OF this, of xs] show ?thesis
    using assms(3) by (auto simp: thread_queue_rep_def wii_def)
qed


lemma mem_boot [simp]: "mem boot_machine = (\<lambda>_. 0)"
  by (simp add: fun_eq_iff mem_def rd32_def boot_machine_def be_word32_def)

definition demo_machine :: machine where
  "demo_machine = wr32 0x804002D0 16 (wr32 0x804012D0 8 boot_machine)"

lemmas layout_eval = word_ok_def cached_def thread_offsets kernel_words

lemma queue_fields_bounds: "\<forall>i\<in>queue_fields. unat i + 4 \<le> 792 \<and> unat i mod 4 = 0"
  by (simp add: queue_fields_def thread_offsets)

lemma demo_machine_facts: "wii demo_machine" "queue_layout 0x80402000 {0x80400000, 0x80401000}"
  "mem demo_machine = (\<lambda>_. 0)(0x804012D0 := 8, 0x804002D0 := 16)"
proof -
  show "wii demo_machine" by (simp add: demo_machine_def)
  show "mem demo_machine = (\<lambda>_. 0)(0x804012D0 := 8, 0x804002D0 := 16)"
    by (simp add: demo_machine_def layout_eval)
  have "layout {0x80400000, 0x80401000} queue_fields
      {0x80402000, 0x80402000 + 4, kSchedulerPendingFlagAddr}"
    by (rule layout_spaced [OF queue_fields_bounds]) (simp_all add: layout_eval)
  then show "queue_layout 0x80402000 {0x80400000, 0x80401000}"
    by (simp add: queue_layout_def kernel_words)
qed

lemma thread_queue_is_stable_sort_witness:
  "thread_queue (mem (fold (enqueue_thread 2 0x80402000) [0x80400000, 0x80401000] demo_machine))
     0x80402000 [0x80401000, 0x80400000]"
proof -
  have "sort_key (prio_of (mem demo_machine)) [0x80400000, 0x80401000] = [0x80401000, 0x80400000]"
    by (simp add: demo_machine_facts prio_of_def thread_offsets)
  then show ?thesis
    using thread_queue_is_stable_sort [of demo_machine "0x80402000" "[0x80400000, 0x80401000]" 2]
      demo_machine_facts by (simp add: dlist_def)
qed

section \<open>Removal\<close>

lemma remove_from_queue_correct:
  fixes s :: "'z machine_scheme"
  assumes "wii s" and d: "thread_queue (mem s) q (xs @ x # ys)"
    and lay: "queue_layout q (set (xs @ x # ys))"
    and q: "mem s (x + kThreadQueueOffset) = q" "q \<noteq> 0"
  shows "\<exists>s'. run_state (RemoveThreadFromQueue x) s = ((), s') \<and>
     touches (queue_words (xs @ x # ys) q) s s' \<and> touches (splice_words (xs @ x # ys) x q) s s' \<and>
     thread_queue (mem s') q (xs @ ys) \<and> mem s' (x + kThreadQueueOffset) = 0 \<and>
     mem s' kSchedulerPendingFlagAddr =
       (if is_run_queue q \<and> xs @ ys = [] then mem s kSchedulerPendingFlagAddr AND NOT (push_bit (31 - run_queue_index q) 1)
        else mem s kSchedulerPendingFlagAddr)"
proof -
  let ?xs = "xs @ x # ys" and ?pf = kSchedulerPendingFlagAddr
  let ?W = "list_words ?xs kThreadNextOffset kThreadPrevOffset q (q + 4)"
  note Q = queue_layoutD [OF lay] and F = queue_field_ne [OF lay]
  obtain s1 where s1: "run_state (UnlinkGuestListNode x kThreadNextOffset kThreadPrevOffset q (q + 4)) s = ((), s1)"
    "touches ?W s s1" "thread_queue (mem s1) q (xs @ ys)"
    using unlink_correct [OF assms(1) d Q(2)] by auto
  have w1: "wii s1" using s1(2) assms(1) by (rule touches_wii)
  define s2 where "s2 = wr32 (x + kThreadQueueOffset) 0 s1"
  have m2: "mem s2 = (mem s1)(x + kThreadQueueOffset := 0)" "wii s2" using Q w1 by (simp_all add: s2_def)
  have d2: "thread_queue (mem s2) q (xs @ ys)"
    using s1(3) F by (simp only: m2) (subst dlist_frame; simp)
  have hq: "mem s2 q = head_or 0 (xs @ ys)" using d2 by (simp add: dlist_def)
  have pf: "mem s2 ?pf = mem s ?pf"
    using touches_mem [OF s1(2)] pending_not_in_list_words [OF lay order_refl] F(6) [of x kThreadQueueOffset]
    by (simp add: m2)
  define s3 where "s3 = (if is_run_queue q \<and> xs @ ys = []
      then wr32 ?pf (mem s2 ?pf AND NOT (push_bit (31 - run_queue_index q) 1)) s2 else s2)"
  have z: "(head_or 0 (xs @ ys) = 0) = (xs @ ys = [])" using d by (intro head_or_eq_0) (auto simp: dlist_def)
  have upd: "run_state (UpdatePendingMaskForQueue q) s2 = ((), s3)"
    using m2(2) Q hq z by (simp add: UpdatePendingMaskForQueue_def run_simps s3_def)
  have run: "run_state (RemoveThreadFromQueue x) s = ((), s3)"
    using assms(1) w1 Q q s1(1) upd
    by (simp add: RemoveThreadFromQueue_def run_simps flip: s2_def)
  have m3: "mem s3 = (mem s2)(?pf := if is_run_queue q \<and> xs @ ys = []
      then mem s ?pf AND NOT (push_bit (31 - run_queue_index q) 1) else mem s ?pf)"
    using Q pf by (auto simp: s3_def)
  have "thread_queue (mem s3) q (xs @ ys)"
    using d2 Q F by (simp only: m3) (subst dlist_frame; simp)
  moreover have t: "touches (splice_words ?xs x q) s s3"
  proof -
    have "touches {x + kThreadQueueOffset} s1 s2" using m2 by (simp add: touches_def s2_def)
    moreover have "touches {?pf} s2 s3" using Q by (simp add: touches_def s3_def)
    ultimately have "touches (?W \<union> {x + kThreadQueueOffset} \<union> {?pf}) s s3"
      using s1(2) by (blast intro: touches_trans)
    then show ?thesis by (rule touches_mono) (auto simp: splice_words_def)
  qed
  moreover have "touches (queue_words ?xs q) s s3"
    by (rule touches_mono [OF t splice_words_sub]) simp
  moreover have "mem s3 (x + kThreadQueueOffset) = 0"
    using F(3) [of x kThreadQueueOffset] by (simp add: m3 m2)
  ultimately show ?thesis using run m3 by simp
qed

text \<open>\<open>RemoveThreadFromQueue\<close> takes exactly its thread out of the queue the thread records,
  wherever in the queue it is: the other threads keep their order, the thread's back pointer is
  cleared, and the run-queue bit of the pending mask is cleared just when a run queue becomes
  empty.\<close>

theorem remove_thread_correct:
  assumes "wii s" and "thread_queue (mem s) q (xs @ x # ys)" and "queue_layout q (set (xs @ x # ys))"
    and "mem s (x + kThreadQueueOffset) = q" "q \<noteq> 0"
  shows "case run_state (RemoveThreadFromQueue x) s of (u, s') \<Rightarrow>
     fault s' = None \<and> thread_queue (mem s') q (xs @ ys) \<and> mem s' (x + kThreadQueueOffset) = 0 \<and>
     mem s' kSchedulerPendingFlagAddr =
       (if is_run_queue q \<and> xs @ ys = [] then mem s kSchedulerPendingFlagAddr AND NOT (push_bit (31 - run_queue_index q) 1)
        else mem s kSchedulerPendingFlagAddr)"
  using remove_from_queue_correct [OF assms] touches_wii [OF _ assms(1)] by (auto simp: wii_def)


definition demo_queue :: machine where
  "demo_queue =
     wr32 0x80402000 0x80401000 (wr32 0x80402004 0x80400000
     (wr32 0x804012DC 0x80402000 (wr32 0x804002DC 0x80402000
     (wr32 0x804012E0 0x80400000 (wr32 0x804002E4 0x80401000
     (wr32 0x804012C8 0x00040000 demo_machine))))))"

lemma demo_queue_facts: "wii demo_queue"
  "mem demo_queue = (\<lambda>_. 0)(0x804012D0 := 8, 0x804002D0 := 16, 0x804012C8 := 0x40000,
     0x804002E4 := 0x80401000, 0x804012E0 := 0x80400000, 0x804002DC := 0x80402000,
     0x804012DC := 0x80402000, 0x80402004 := 0x80400000, 0x80402000 := 0x80401000)"
  "thread_queue (mem demo_queue) 0x80402000 ([] @ 0x80401000 # [0x80400000])"
proof -
  show "wii demo_queue" by (simp add: demo_queue_def demo_machine_facts)
  show m: "mem demo_queue = (\<lambda>_. 0)(0x804012D0 := 8, 0x804002D0 := 16, 0x804012C8 := 0x40000,
     0x804002E4 := 0x80401000, 0x804012E0 := 0x80400000, 0x804002DC := 0x80402000,
     0x804012DC := 0x80402000, 0x80402004 := 0x80400000, 0x80402000 := 0x80401000)"
    by (simp add: demo_queue_def demo_machine_facts layout_eval)
  show "thread_queue (mem demo_queue) 0x80402000 ([] @ 0x80401000 # [0x80400000])"
    unfolding m by (simp add: dlist_def thread_offsets)
qed

lemma remove_thread_correct_witness:
  "case run_state (RemoveThreadFromQueue 0x80401000) demo_queue of (u, s') \<Rightarrow>
     fault s' = None \<and> thread_queue (mem s') 0x80402000 [0x80400000]"
  using remove_thread_correct [of demo_queue "0x80402000" "[]" "0x80401000" "[0x80400000]"]
    demo_queue_facts demo_machine_facts(2)
  by (simp add: insert_commute thread_offsets split: prod.splits)


section \<open>Effective priority\<close>

definition first_waiter :: "(u32 \<Rightarrow> u32) \<Rightarrow> u32 \<Rightarrow> u32" where
  "first_waiter m mutex = m (mutex + kMutexWaitQueueHeadOffset)"

text \<open>The priorities inherited from the first waiter of each mutex.\<close>

definition inherited :: "(u32 \<Rightarrow> u32) \<Rightarrow> u32 list \<Rightarrow> int set" where
  "inherited m ms = {prio_of m (first_waiter m mx) | mx. mx \<in> set ms \<and> first_waiter m mx \<noteq> 0}"

lemma inherited_simps [simp]:
  "inherited m [] = {}"
  "inherited m (mx # ms) = (if first_waiter m mx = 0 then inherited m ms
     else insert (prio_of m (first_waiter m mx)) (inherited m ms))"
  by (auto simp: inherited_def)

lemma finite_inherited [simp]: "finite (inherited m ms)"
  by (induction ms) auto

lemma run_priority_loop:
  assumes "wii s"
    and "links (mem s) kMutexThreadNextOffset kMutexThreadPrevOffset p ms 0" "0 \<notin> set ms"
    and "\<And>mx. mx \<in> set ms \<Longrightarrow> word_ok (mx + kMutexWaitQueueHeadOffset) \<and> word_ok (mx + kMutexThreadNextOffset) \<and>
      (first_waiter (mem s) mx \<noteq> 0 \<longrightarrow> word_ok (first_waiter (mem s) mx + kThreadPriorityOffset))"
    and "length ms < fuel"
  shows "run_state (loop fuel 0 priority_round (head_or 0 ms, b)) s = (Min (insert b (inherited (mem s) ms)), s)"
  using assms(2-5)
proof (induction ms arbitrary: p b fuel)
  case Nil
  then obtain n where "fuel = Suc n" by (cases fuel) auto
  then show ?case by (simp add: run_simps priority_round_def)
next
  case (Cons mx ms)
  then obtain n where n: "fuel = Suc n" by (cases fuel) auto
  let ?w = "first_waiter (mem s) mx"
  have w: "word_ok (mx + kMutexWaitQueueHeadOffset)" "word_ok (mx + kMutexThreadNextOffset)" "mx \<noteq> 0"
    "mem s (mx + kMutexThreadNextOffset) = head_or 0 ms" "?w \<noteq> 0 \<Longrightarrow> word_ok (?w + kThreadPriorityOffset)"
    using Cons.prems by auto
  define b' where "b' = (if ?w = 0 then b else min b (prio_of (mem s) ?w))"
  have ms: "Min (insert b' (inherited (mem s) ms)) = Min (insert b (inherited (mem s) (mx # ms)))"
    by (cases "inherited (mem s) ms = {}") (auto simp: b'_def Min_insert min.assoc min.left_commute)
  have ih: "run_state (loop n 0 priority_round (head_or 0 ms, b')) s = (Min (insert b' (inherited (mem s) ms)), s)"
    by (rule Cons.IH) (use Cons.prems n in auto)
  have b': "(if sint (mem s (?w + kThreadPriorityOffset)) < b then sint (mem s (?w + kThreadPriorityOffset)) else b) = b'"
    if "?w \<noteq> 0" using that by (auto simp: b'_def prio_of_def min_def)
  show ?case
  proof (cases "?w = 0")
    case True
    then have "b' = b" by (simp add: b'_def)
    with True show ?thesis
      using assms(1) w(1-4) ih ms by (simp add: n run_simps first_waiter_def priority_round_def)
  next
    case False
    show ?thesis
      using assms(1) w False ih ms b'
      by (simp add: n run_simps flip: first_waiter_def) (simp add: priority_round_def run_simps b' flip: first_waiter_def)
  qed
qed

lemma run_effective_priority:
  assumes "wii s" "word_ok (t + kThreadBasePriorityOffset)" "word_ok (t + kThreadMutexQueueOffset)"
    and "dlist (mem s) kMutexThreadNextOffset kMutexThreadPrevOffset
           (t + kThreadMutexQueueOffset) (t + kThreadMutexTailOffset) ms"
    and "\<forall>mx\<in>set ms. word_ok (mx + kMutexWaitQueueHeadOffset) \<and> word_ok (mx + kMutexThreadNextOffset) \<and>
      (first_waiter (mem s) mx \<noteq> 0 \<longrightarrow> word_ok (first_waiter (mem s) mx + kThreadPriorityOffset))"
    and "length ms < fuel"
  shows "run_state (ComputeThreadEffectivePriority fuel t) s =
    (Min (insert (sint (mem s (t + kThreadBasePriorityOffset))) (inherited (mem s) ms)), s)"
proof -
  have d: "mem s (t + kThreadMutexQueueOffset) = head_or 0 ms"
    "links (mem s) kMutexThreadNextOffset kMutexThreadPrevOffset 0 ms 0" "0 \<notin> set ms"
    using assms(4) by (simp_all add: dlist_def)
  note l = run_priority_loop [OF assms(1) d(2,3) _ assms(6)]
  show ?thesis
    unfolding ComputeThreadEffectivePriority_def
    using assms(1,2,3,5) d(1) by (simp add: run_simps l)
qed

text \<open>\<open>ComputeThreadEffectivePriority\<close> implements priority inheritance over the whole
  list of mutexes a thread owns: it returns the minimum of the thread's base priority and the
  priorities of the first waiters of those mutexes, reads memory only, and stops within one
  more round than there are mutexes.\<close>

theorem effective_priority_is_minimum:
  assumes "wii s" "word_ok (t + kThreadBasePriorityOffset)" "word_ok (t + kThreadMutexQueueOffset)"
    and "dlist (mem s) kMutexThreadNextOffset kMutexThreadPrevOffset
           (t + kThreadMutexQueueOffset) (t + kThreadMutexTailOffset) ms"
    and "\<forall>mx\<in>set ms. word_ok (mx + kMutexWaitQueueHeadOffset) \<and> word_ok (mx + kMutexThreadNextOffset) \<and>
      (first_waiter (mem s) mx \<noteq> 0 \<longrightarrow> word_ok (first_waiter (mem s) mx + kThreadPriorityOffset))"
    and "length ms < fuel"
  shows "run_state (ComputeThreadEffectivePriority fuel t) s =
    (Min (insert (sint (mem s (t + kThreadBasePriorityOffset))) (inherited (mem s) ms)), s)"
  using assms by (rule run_effective_priority)


definition demo_owner :: machine where
  "demo_owner =
     wr32 0x804002F4 0x80403000 (wr32 0x804002F8 0x80403000 (wr32 0x80403000 0x80401000
     (wr32 0x804002D4 16 demo_machine)))"

lemma effective_priority_is_minimum_witness:
  "run_state (ComputeThreadEffectivePriority 2 0x80400000) demo_owner = (8, demo_owner)"
proof -
  have m: "mem demo_owner = (\<lambda>_. 0)(0x804012D0 := 8, 0x804002D0 := 16, 0x804002D4 := 16,
      0x80403000 := 0x80401000, 0x804002F8 := 0x80403000, 0x804002F4 := 0x80403000)"
    by (simp add: demo_owner_def demo_machine_facts layout_eval)
  have w: "wii demo_owner" by (simp add: demo_owner_def demo_machine_facts)
  show ?thesis
    using effective_priority_is_minimum [OF w, of "0x80400000" "[0x80403000]" 2]
    by (simp add: m layout_eval mutex_offsets dlist_def first_waiter_def prio_of_def)
qed

section \<open>Changing the priority of a waiting thread\<close>

text \<open>\<open>SetThreadEffectivePriority\<close> on a WAITING thread re-files it: the thread leaves its
  place in the wait queue and re-enters it at its new priority behind its equals, the new
  priority is stored, no other thread's priority changes, and the owner of the mutex the thread
  blocks on (or 0) is returned so that the caller can propagate the change.\<close>

theorem set_priority_refiles_waiter:
  fixes s :: "'z machine_scheme"
  assumes "wii s" and lay: "queue_layout q (set (xs @ x # ys))"
    and d: "thread_queue (mem s) q (xs @ x # ys)"
    and st: "hi16 (mem s (x + kThreadStateOffset)) = kThreadStateWaiting"
    and q: "mem s (x + kThreadQueueOffset) = q" "q \<noteq> 0" "\<not> is_run_queue q"
    and p: "- 2147483648 \<le> p" "p < 2147483648"
    and f: "length (xs @ ys) < fuel"
    and mx: "mem s (x + kThreadMutexOffset) = mutex"
      "mutex \<noteq> 0 \<longrightarrow> word_ok (mutex + kMutexOwnerOffset) \<and>
         mutex + kMutexOwnerOffset \<notin> queue_words (xs @ x # ys) q \<and>
         mutex + kMutexOwnerOffset \<noteq> x + kThreadPriorityOffset"
  shows "case run_state (SetThreadEffectivePriority fuel x p) s of (r, s') \<Rightarrow>
     fault s' = None \<and> prio_of (mem s') x = p \<and>
     (\<forall>y\<in>set (xs @ ys). prio_of (mem s') y = prio_of (mem s) y) \<and>
     thread_queue (mem s') q (insert_by (prio_of (mem s)) p x (xs @ ys)) \<and>
     r = (if mutex = 0 then 0 else mem s (mutex + kMutexOwnerOffset))"
proof -
  let ?xs = "xs @ x # ys"
  note Q = queue_layoutD [OF lay] and F = queue_field_ne [OF lay]
  have dist: "x \<notin> set (xs @ ys)" "x \<noteq> 0" using d by (auto simp: dlist_def)
  obtain s1 where s1: "run_state (RemoveThreadFromQueue x) s = ((), s1)"
    "touches (queue_words ?xs q) s s1" "thread_queue (mem s1) q (xs @ ys)"
    using remove_from_queue_correct [OF assms(1) d lay q(1,2)] by blast
  have w1: "wii s1" using s1(2) assms(1) by (rule touches_wii)
  define s2 where "s2 = wr32 (x + kThreadPriorityOffset) (word_of_int p) s1"
  have m2: "mem s2 = (mem s1)(x + kThreadPriorityOffset := word_of_int p)" "wii s2"
    using Q w1 by (simp_all add: s2_def)
  have d2: "thread_queue (mem s2) q (xs @ ys)"
    using s1(3) F by (simp only: m2) (subst dlist_frame; simp)
  have lay': "queue_layout q (set (x # xs @ ys))" using lay by (simp add: insert_commute)
  obtain s3 where s3: "run_state (InsertThreadIntoQueueByPriority fuel q x p) s2 = ((), s3)"
    "touches (queue_words (x # xs @ ys) q) s2 s3"
    "thread_queue (mem s3) q (insert_by (prio_of (mem s2)) p x (xs @ ys))"
    using insert_by_priority_correct [OF m2(2) d2 lay' dist f, of p] by auto
  have w3: "wii s3" using s3(2) m2(2) by (rule touches_wii)
  have same: "queue_words (x # xs @ ys) q = queue_words ?xs q"
    by (simp add: queue_words_def list_words_def insert_commute)
  have keep: "mem s3 a = mem s a" if "a \<notin> queue_words ?xs q" "a \<noteq> x + kThreadPriorityOffset" for a
    using that touches_mem [OF s1(2)] touches_mem [OF s3(2)] by (simp add: m2 same)
  have pr: "prio_of (mem s2) y = prio_of (mem s) y" "prio_of (mem s3) y = prio_of (mem s) y"
    if "y \<in> set (xs @ ys)" for y
  proof -
    have "y + kThreadPriorityOffset \<notin> queue_words ?xs q"
      by (rule not_in_queue_words [OF lay]) (use that in auto)
    moreover have "y + kThreadPriorityOffset \<noteq> x + kThreadPriorityOffset" using that dist by auto
    ultimately show "prio_of (mem s2) y = prio_of (mem s) y" "prio_of (mem s3) y = prio_of (mem s) y"
      using touches_mem [OF s1(2)] keep by (simp_all add: prio_of_def m2)
  qed
  have "x + kThreadPriorityOffset \<notin> queue_words ?xs q"
    by (rule not_in_queue_words [OF lay]) auto
  then have px: "prio_of (mem s3) x = p"
    using touches_mem [OF s3(2)] p by (simp add: same prio_of_def m2 sint_word_of_int_eq_iff)
  have mk: "mem s3 (x + kThreadMutexOffset) = mutex"
  proof -
    have "kThreadMutexOffset \<notin> {kThreadNextOffset, kThreadPrevOffset, kThreadQueueOffset}"
      "kThreadMutexOffset \<noteq> kThreadPriorityOffset" by (simp_all add: thread_offsets)
    then show ?thesis using keep not_in_queue_words [OF lay, of x kThreadMutexOffset ?xs] mx(1) by simp
  qed
  have ok: "word_ok (x + kThreadStateOffset)" "word_ok (x + kThreadMutexOffset)"
    using layoutD(1) [OF Q(1), of x] by simp_all
  let ?r = "if mutex = 0 then 0 else mem s (mutex + kMutexOwnerOffset)"
  have "run_state (SetThreadEffectivePriority fuel x p) s = (?r, s3)"
    unfolding SetThreadEffectivePriority_def
    using assms(1) w1 m2(2) w3 Q ok q st mk mx(2) keep
    by (simp add: run_simps s1(1) s3(1) kThreadStateWaiting_def flip: s2_def)
  moreover have "insert_by (prio_of (mem s2)) p x (xs @ ys) = insert_by (prio_of (mem s)) p x (xs @ ys)"
    by (rule insert_by_cong) (rule pr(1))
  ultimately show ?thesis
    using px pr s3(3) wii_fault [OF w3] by simp
qed

lemma set_priority_refiles_waiter_witness:
  "case run_state (SetThreadEffectivePriority 2 0x80401000 20) demo_queue of (r, s') \<Rightarrow>
     thread_queue (mem s') 0x80402000 [0x80400000, 0x80401000] \<and> r = 0"
  using set_priority_refiles_waiter [of demo_queue "0x80402000" "[]" "0x80401000" "[0x80400000]" 20 2 0]
    demo_queue_facts demo_machine_facts(2)
  by (simp add: insert_commute thread_offsets hi16_def kThreadStateWaiting_def is_run_queue_def
      kThreadQueueArrayAddr_def kThreadQueueArrayBytes_def insert_by_def prio_of_def split: prod.splits)

end
