(* ===== verification/OsSched.thy ===== *)
theory OsSched
  imports OsThread PpcInt
begin

unbundle bit_operations_syntax

text \<open>
  The scheduler: interrupt masking (\<open>runtime/src/hle/os/os_interrupt.cpp\<close>), the current
  context words (\<open>os_context.cpp\<close>), the table of host fibers (\<open>runtime/src/fiber_manager.cpp\<close>),
  and \<open>os_scheduler.cpp\<close>: run queues, \<open>SelectThread\<close>, \<open>OSWakeupThread\<close>; and
  \<open>OSSleepThread\<close> of \<open>os_sleep.cpp\<close>.

  What runs outside these files while the scheduler waits or switches is an argument, the
  record \<open>world\<close>: translated guest code, the host context switch (whatever other fibers do
  until this one is resumed), the host services the idle loop polls, the completions of the network and
  of the storage, and the base of the small data area, a constant of the generated configuration.
\<close>

section \<open>The kernel's host-side state\<close>

text \<open>
  \<open>host_clock\<close> is the list of the readings the host's steady clock will give, in nanoseconds since the
  start of the program; reading it takes the first.  The last fields are the static variables of
  \<open>os_alarm.cpp\<close> and \<open>os_sleep.cpp\<close>: the depth of the alarm processing, the armed sleep timers with
  their deadlines, the threads with an outstanding park, and the bookkeeping of the reconciler.
\<close>

datatype host_fiber = SchedulerFiber | ThreadFiber u32

datatype thread_state = READY | RUNNING | WAITING | MORIBUND

record guest_fiber =
  fiber :: "host_fiber option"
  cpuContext :: cpu_context
  entryPoint :: u32
  entryArg :: u32
  fiber_state :: thread_state
  isSchedulerFiber :: bool
  terminated :: bool

record os_machine = machine +
  fibers :: "u32 \<Rightarrow> guest_fiber option"
  fibers_initialized :: bool
  current_guest_thread :: u32
  current_host :: host_fiber
  host_clock :: "nat \<Rightarrow> nat"
  alarm_depth :: nat
  sleep_timers :: "(u32 \<times> nat) list"
  outstanding_parks :: "u32 list"
  strand_scan_due :: nat
  strand_first_seen :: "(u32 \<times> nat) list"

type_synonym 'a os = "(os_machine, 'a) state"

record world =
  invoke :: "u32 \<Rightarrow> unit os"
  registered :: "u32 \<Rightarrow> bool"
  save_context :: "unit os"
  load_context :: "unit os"
  host_switch :: "host_fiber \<Rightarrow> unit os"
  process_sleep_timers :: "unit os"
  idle_poll :: "unit os"
  advancing_retrace :: "os_machine \<Rightarrow> bool"
  sda1_base :: u32
  network_completions :: "bool os"
  nand_callbacks :: "int \<Rightarrow> bool os"

section \<open>Interrupts and the current context\<close>

definition UpdateCurrentContextInterruptFlag :: "bool \<Rightarrow> ('z, unit) guest" where
  "UpdateCurrentContextInterruptFlag enabled = do {
     c \<leftarrow> TryReadGuestScalar32 kOSCurrentContextAddr;
     (case c of None \<Rightarrow> State_Monad.return ()
      | Some currentContext \<Rightarrow>
        whenM (currentContext \<noteq> 0) (do {
          m \<leftarrow> TryReadGuestScalar16 (currentContext + 0x1A2);
          (case m of None \<Rightarrow> State_Monad.return ()
           | Some modeFlags \<Rightarrow>
             (let updated = (if enabled then modeFlags OR 2 else modeFlags AND NOT 2)
              in whenM (updated \<noteq> modeFlags) (do {
                   _ \<leftarrow> TryWriteGuestScalar16 (currentContext + 0x1A2) updated;
                   State_Monad.return ()
                 })))
        }))
   }"

definition exchange_interrupts :: "bool \<Rightarrow> ('z, int) guest" where
  "exchange_interrupts v = do {
     prev \<leftarrow> get_host interrupts_enabled;
     put_host (interrupts_enabled_update (\<lambda>_. v));
     UpdateCurrentContextInterruptFlag v;
     State_Monad.return (if prev then 1 else 0)
   }"

definition OS__DisableInterrupts :: "('z, int) guest" where
  "OS__DisableInterrupts = exchange_interrupts False"

definition OS__RestoreInterrupts :: "int \<Rightarrow> ('z, int) guest" where
  "OS__RestoreInterrupts level = exchange_interrupts (level \<noteq> 0)"

definition OS__EnableInterrupts :: "('z, int) guest" where
  "OS__EnableInterrupts = exchange_interrupts True"

definition OS__GetCurrentThread :: "('z, u32) guest" where
  "OS__GetCurrentThread = try_catch (Read32 kOSRunningContextAddr) (State_Monad.return 0)"

definition OS__ClearContext :: "u32 \<Rightarrow> ('z, unit) guest" where
  "OS__ClearContext contextAddr = whenM (contextAddr \<noteq> 0) (try_catch (do {
     Write16 (contextAddr + 0x1a0) 0;
     Write16 (contextAddr + 0x1a2) 0;
     exceptionCtx \<leftarrow> Read32 kOSExceptionContextAddr;
     whenM (exceptionCtx = contextAddr) (Write32 kOSExceptionContextAddr 0)
   }) (State_Monad.return ()))"

definition OS__SetCurrentContext :: "u32 \<Rightarrow> ('z, unit) guest" where
  "OS__SetCurrentContext contextAddr = try_catch (
     if contextAddr = 0 then do {
       Write32 kOSPhysicalContextAddr 0;
       Write32 kOSCurrentContextAddr 0
     } else do {
       Write32 kOSPhysicalContextAddr (contextAddr AND 0x3fffffff);
       Write32 kOSCurrentContextAddr contextAddr;
       exceptionCtx \<leftarrow> Read32 kOSExceptionContextAddr;
       flags \<leftarrow> Read32 (contextAddr + 0x19c);
       Write32 (contextAddr + 0x19c)
         (if exceptionCtx = contextAddr then flags OR 0x2000 else flags AND NOT 0x2000);
       modeFlags \<leftarrow> Read16 (contextAddr + 0x1a2);
       enabled \<leftarrow> get_host interrupts_enabled;
       Write16 (contextAddr + 0x1a2) (if enabled then modeFlags OR 2 else modeFlags AND NOT 2)
     }) (State_Monad.return ())"

section \<open>The fiber table\<close>

definition IsInitialized :: "bool os" where "IsInitialized = get_host fibers_initialized"

definition GetCurrentGuestThread :: "u32 os" where
  "GetCurrentGuestThread = get_host current_guest_thread"

definition HasFiber :: "u32 \<Rightarrow> bool os" where
  "HasFiber t = get_host (\<lambda>s. fibers s t \<noteq> None)"

definition IsTerminated :: "u32 \<Rightarrow> bool os" where
  "IsTerminated t = get_host (\<lambda>s. case fibers s t of None \<Rightarrow> False | Some f \<Rightarrow> terminated f)"

text \<open>\<open>Create\<close> may fail to obtain a host context; \<open>created\<close> says whether it did.\<close>

definition CreateGuestFiber :: "bool \<Rightarrow> u32 \<Rightarrow> u32 \<Rightarrow> u32 \<Rightarrow> u32 \<Rightarrow> bool os" where
  "CreateGuestFiber created t entry arg stackBase = do {
     ini \<leftarrow> IsInitialized;
     (if \<not> ini then State_Monad.return False
      else do {
        put_host (\<lambda>s. s\<lparr>fibers := (fibers s)(t := None)\<rparr>);
        (if \<not> created then State_Monad.return False
         else do {
           put_host (\<lambda>s. s\<lparr>fibers := (fibers s)(t \<mapsto> \<lparr>fiber = Some (ThreadFiber t),
             cpuContext = zero_cpu\<lparr>gpr := (\<lambda>_. 0)(1 := stackBase, 3 := arg), lr := 0,
               pc := entry, srr0 := entry\<rparr>,
             entryPoint = entry, entryArg = arg, fiber_state = WAITING, isSchedulerFiber = False,
             terminated = False\<rparr>)\<rparr>);
           State_Monad.return True
         })
      })
   }"

definition ResumeGuestThread :: "u32 \<Rightarrow> unit os" where
  "ResumeGuestThread t = put_host (\<lambda>s. case fibers s t of
       None \<Rightarrow> s
     | Some f \<Rightarrow> if terminated f then s
                else s\<lparr>fibers := (fibers s)(t \<mapsto> f\<lparr>fiber_state := READY\<rparr>)\<rparr>)"

definition SuspendGuestThread :: "u32 \<Rightarrow> unit os" where
  "SuspendGuestThread t = put_host (\<lambda>s. case fibers s t of
       None \<Rightarrow> s
     | Some f \<Rightarrow> s\<lparr>fibers := (fibers s)(t \<mapsto> f\<lparr>fiber_state := WAITING\<rparr>)\<rparr>)"

definition ExitGuestThread :: "u32 \<Rightarrow> thread_state \<Rightarrow> unit os" where
  "ExitGuestThread t finalState = put_host (\<lambda>s. case fibers s t of
       None \<Rightarrow> s
     | Some f \<Rightarrow>
         s\<lparr>fibers := (fibers s)(t \<mapsto> f\<lparr>fiber_state := finalState, terminated := True,
             fiber := (if fiber f \<noteq> None \<and> \<not> isSchedulerFiber f then None else fiber f)\<rparr>),
           current_guest_thread := (if current_guest_thread s = t then 0 else current_guest_thread s)\<rparr>)"

definition RegisterMainThreadAsFiber :: "u32 \<Rightarrow> bool os" where
  "RegisterMainThreadAsFiber t = do {
     ini \<leftarrow> IsInitialized;
     has \<leftarrow> HasFiber t;
     (if \<not> ini then State_Monad.return False
      else if has then State_Monad.return True
      else do {
        put_host (\<lambda>s. s\<lparr>fibers := (fibers s)(t \<mapsto> \<lparr>fiber = Some SchedulerFiber, cpuContext = cpu s,
            entryPoint = 0, entryArg = 0, fiber_state = RUNNING, isSchedulerFiber = True,
            terminated = False\<rparr>), current_guest_thread := t\<rparr>);
        State_Monad.return True
      })
   }"

text \<open>
  \<open>SwitchToThread\<close>: the switch itself is \<open>host_switch\<close>; around it the CPU contexts of the
  outgoing and the incoming thread are swapped, and on return the caller's registers come
  back from its fiber only if the kernel says that thread is running again.
\<close>

definition SwitchToThread :: "world \<Rightarrow> u32 \<Rightarrow> unit os" where
  "SwitchToThread W t = do {
     ini \<leftarrow> IsInitialized;
     tab \<leftarrow> get_host fibers;
     (case (if ini then tab t else None) of
        None \<Rightarrow> State_Monad.return ()
      | Some f \<Rightarrow> (case fiber f of
          None \<Rightarrow> State_Monad.return ()
        | Some handle \<Rightarrow>
            whenM (\<not> terminated f) (do {
              callerContext \<leftarrow> get_host cpu;
              previousThread \<leftarrow> get_host current_guest_thread;
              put_host (\<lambda>s. case (if previousThread \<noteq> 0 then fibers s previousThread else None) of
                  None \<Rightarrow> s
                | Some g \<Rightarrow> s\<lparr>fibers := (fibers s)(previousThread \<mapsto> g\<lparr>cpuContext := callerContext\<rparr>)\<rparr>);
              put_host (\<lambda>s. s\<lparr>current_guest_thread := t,
                fibers := (fibers s)(t := map_option (\<lambda>g. g\<lparr>fiber_state := RUNNING\<rparr>) (fibers s t))\<rparr>);
              here \<leftarrow> get_host current_host;
              whenM (here \<noteq> handle) (do {
                put_host (\<lambda>s. s\<lparr>cpu := (case fibers s t of None \<Rightarrow> cpu s | Some g \<Rightarrow> cpuContext g)\<rparr>);
                host_switch W handle;
                (runningContext, currentContext) \<leftarrow> try_catch (do {
                    r \<leftarrow> Read32 kOSRunningContextAddr;
                    c \<leftarrow> Read32 kOSCurrentContextAddr;
                    State_Monad.return (r, c)
                  }) (State_Monad.return (0, 0));
                (if previousThread \<noteq> 0 \<and> runningContext = previousThread \<and> currentContext = previousThread
                 then put_host (\<lambda>s. (case fibers s previousThread of
                     None \<Rightarrow> s
                   | Some g \<Rightarrow> s\<lparr>cpu := cpuContext g,
                       fibers := (fibers s)(previousThread \<mapsto> g\<lparr>fiber_state := RUNNING\<rparr>)\<rparr>)
                     \<lparr>current_guest_thread := previousThread\<rparr>)
                 else put_host (\<lambda>s. s\<lparr>cpu := callerContext, current_guest_thread := 0\<rparr>))
              })
            })))
   }"

section \<open>Run queues\<close>

definition LinkThreadOnRunQueue :: "u32 \<Rightarrow> int \<Rightarrow> ('z, unit) guest" where
  "LinkThreadOnRunQueue thread priority =
     (let queueEntry = kThreadQueueArrayAddr + word_of_int priority * 8 in do {
        tail \<leftarrow> Read32 (queueEntry + 4);
        (if tail = 0 then Write32 queueEntry thread
         else Write32 (tail + kThreadNextOffset) thread);
        Write32 (thread + kThreadPrevOffset) tail;
        Write32 (thread + kThreadNextOffset) 0;
        Write32 (queueEntry + 4) thread;
        Write32 (thread + kThreadQueueOffset) queueEntry
      })"

definition MarkRunQueuePending :: "int \<Rightarrow> ('z, unit) guest" where
  "MarkRunQueuePending priority = do {
     pending \<leftarrow> Read32 kSchedulerPendingFlagAddr;
     Write32 kSchedulerPendingFlagAddr (pending OR push_bit (nat (31 - priority)) 1);
     Write32 kSchedulerReschedCounterAddr 1
   }"

definition PopThreadQueueHead :: "u32 \<Rightarrow> u32 \<Rightarrow> ('z, u32) guest" where
  "PopThreadQueueHead queueAddr head = do {
     nxt \<leftarrow> Read32 (head + kThreadNextOffset);
     (if nxt = 0 then Write32 (queueAddr + 4) 0
      else Write32 (nxt + kThreadPrevOffset) 0);
     Write32 queueAddr nxt;
     State_Monad.return nxt
   }"

definition PromoteThreadPriority :: "nat \<Rightarrow> u32 \<Rightarrow> int \<Rightarrow> ('z, unit) guest" where
  "PromoteThreadPriority fuel threadPtr priority = loop fuel () (\<lambda>t.
     if t = 0 then State_Monad.return (Inr ())
     else do {
       suspend \<leftarrow> Read32 (t + kThreadSuspendOffset);
       (if sint suspend > 0 then State_Monad.return (Inr ())
        else do {
          current \<leftarrow> Read32 (t + kThreadPriorityOffset);
          (if sint current \<le> priority then State_Monad.return (Inr ())
           else do {
             nxt \<leftarrow> SetThreadEffectivePriority fuel t priority;
             State_Monad.return (Inl nxt)
           })
        })
     }) threadPtr"

section \<open>SelectThread\<close>

definition TryInvokeSwitchCallback :: "world \<Rightarrow> u32 \<Rightarrow> u32 \<Rightarrow> unit os" where
  "TryInvokeSwitchCallback W oldCtx newCtx = try_catch (do {
     callbackAddr \<leftarrow> Read32 kSwitchThreadCallbackPtrAddr;
     whenM (callbackAddr \<noteq> 0 \<and> registered W callbackAddr) (do {
       gpr_put 3 oldCtx;
       gpr_put 4 newCtx;
       invoke W callbackAddr
     })
   }) (State_Monad.return ())"

text \<open>
  The idle loop: interrupts on, poll the host services until a run queue is pending, interrupts
  off, and look again.
\<close>

definition idle_wait :: "world \<Rightarrow> nat \<Rightarrow> unit os" where
  "idle_wait W fuel = loop fuel () (\<lambda>_. do {
     pending \<leftarrow> Read32 kSchedulerPendingFlagAddr;
     (if pending \<noteq> 0 then State_Monad.return (Inr ())
      else do { idle_poll W; State_Monad.return (Inl ()) })
   }) ()"

definition idle_loop :: "world \<Rightarrow> nat \<Rightarrow> unit os" where
  "idle_loop W fuel = loop fuel () (\<lambda>_. do {
     _ \<leftarrow> OS__EnableInterrupts;
     idle_wait W fuel;
     _ \<leftarrow> OS__DisableInterrupts;
     pending \<leftarrow> Read32 kSchedulerPendingFlagAddr;
     State_Monad.return (if pending \<noteq> 0 then Inr () else Inl ())
   }) ()"

text \<open>
  The search for the next thread: the head of the first pending run queue, dropping stale
  pending bits and terminated threads.  The result is the pending mask, the priority level
  and the thread, or \<open>None\<close> when the mask runs empty.
\<close>

definition find_next_thread :: "nat \<Rightarrow> u32 \<Rightarrow> (u32 \<times> u32 \<times> u32) option os" where
  "find_next_thread fuel startMask = loop fuel None (\<lambda>pendingMask.
     let priorityLevel = PPC_CntlzwInline pendingMask;
         queueEntry = kThreadQueueArrayAddr + priorityLevel * 8 in do {
       nextThread \<leftarrow> Read32 queueEntry;
       (if nextThread = 0 then do {
          Write32 kSchedulerPendingFlagAddr
            (pendingMask AND NOT (push_bit (nat (31 - uint priorityLevel)) 1));
          m \<leftarrow> Read32 kSchedulerPendingFlagAddr;
          State_Monad.return (if m = 0 then Inr None else Inl m)
        } else do {
          st \<leftarrow> Read16 (nextThread + kThreadStateOffset);
          dead \<leftarrow> IsTerminated nextThread;
          (if ThreadStateIsTerminated st \<or> dead then do {
             RemoveThreadFromQueue nextThread;
             m \<leftarrow> Read32 kSchedulerPendingFlagAddr;
             State_Monad.return (if m = 0 then Inr None else Inl m)
           } else State_Monad.return (Inr (Some (pendingMask, priorityLevel, nextThread))))
        })
     }) startMask"

definition dispatch_thread :: "world \<Rightarrow> u32 \<Rightarrow> u32 \<times> u32 \<times> u32 \<Rightarrow> unit os" where
  "dispatch_thread W runningContext = (\<lambda>(pendingMask, priorityLevel, nextThread). do {
     threadNext \<leftarrow> PopThreadQueueHead (kThreadQueueArrayAddr + priorityLevel * 8) nextThread;
     whenM (threadNext = 0) (Write32 kSchedulerPendingFlagAddr
       (pendingMask AND NOT (push_bit (nat (31 - uint priorityLevel)) 1)));
     Write32 (nextThread + kThreadQueueOffset) 0;
     Write16 (nextThread + kThreadStateOffset) kThreadStateRunning;
     TryInvokeSwitchCallback W runningContext nextThread;
     Write32 kOSRunningContextAddr nextThread;
     OS__SetCurrentContext nextThread
   })"

text \<open>After the kernel state names the next thread: hand the host over to its fiber.\<close>

definition switch_fiber :: "world \<Rightarrow> u32 \<Rightarrow> u32 \<Rightarrow> unit os" where
  "switch_fiber W runningContext nextThread = do {
     ini \<leftarrow> IsInitialized;
     (if ini then do {
        current \<leftarrow> GetCurrentGuestThread;
        whenM (current = 0 \<and> runningContext \<noteq> 0) (do {
          has \<leftarrow> HasFiber runningContext;
          whenM (\<not> has) (do { _ \<leftarrow> RegisterMainThreadAsFiber runningContext; State_Monad.return () })
        });
        has \<leftarrow> HasFiber nextThread;
        (if \<not> has then do { gpr_put 3 nextThread; load_context W }
         else SwitchToThread W nextThread)
      } else do { gpr_put 3 nextThread; load_context W })
   }"

text \<open>The tail of \<open>SelectThread\<close>: idle until a queue is pending, pick, dispatch, switch.\<close>

definition run_next_thread :: "world \<Rightarrow> nat \<Rightarrow> u32 \<Rightarrow> unit os" where
  "run_next_thread W fuel runningContext = do {
     pending \<leftarrow> Read32 kSchedulerPendingFlagAddr;
     whenM (pending = 0) (do {
       TryInvokeSwitchCallback W runningContext 0;
       Write32 kOSRunningContextAddr 0;
       OS__SetCurrentContext kIdleThreadContextAddr;
       idle_loop W fuel;
       OS__ClearContext kIdleThreadContextAddr
     });
     Write32 kSchedulerReschedCounterAddr 0;
     pendingMask \<leftarrow> Read32 kSchedulerPendingFlagAddr;
     (if pendingMask = 0 then gpr_put 3 0
      else do {
        r \<leftarrow> find_next_thread fuel pendingMask;
        (case r of
           None \<Rightarrow> gpr_put 3 0
         | Some (m, level, nextThread) \<Rightarrow> do {
             dispatch_thread W runningContext (m, level, nextThread);
             switch_fiber W runningContext nextThread
           })
      })
   }"

text \<open>
  Save the outgoing context when it is preemptible; \<open>True\<close> means that the save returned
  nonzero, that is, the thread has been resumed and \<open>SelectThread\<close> returns.
\<close>

definition save_if_preemptible :: "world \<Rightarrow> u32 \<Rightarrow> bool os" where
  "save_if_preemptible W runningContext = try_catch (do {
     modeFlags \<leftarrow> Read16 (runningContext + 0x1A2);
     (if modeFlags AND 2 = 0 then do {
        gpr_put 3 runningContext;
        save_context W;
        r \<leftarrow> gpr_get 3;
        (if r \<noteq> 0 then do { gpr_put 3 0; State_Monad.return True } else State_Monad.return False)
      } else State_Monad.return False)
   }) (State_Monad.return False)"

definition SelectThread :: "world \<Rightarrow> nat \<Rightarrow> unit os" where
  "SelectThread W fuel = do {
     forceSwitch \<leftarrow> gpr_get 3;
     process_sleep_timers W;
     idleFlag \<leftarrow> Read32 kSchedulerIdleFlagAddr;
     (if 1 \<le> idleFlag then gpr_put 3 0
      else do {
        currentContext \<leftarrow> Read32 kOSCurrentContextAddr;
        runningContext \<leftarrow> Read32 kOSRunningContextAddr;
        (if currentContext = 0 \<and> runningContext = 0 \<or> currentContext \<noteq> runningContext
         then gpr_put 3 0
         else if runningContext = 0 then run_next_thread W fuel runningContext
         else do {
           threadState \<leftarrow> Read16 (runningContext + kThreadStateOffset);
           keep \<leftarrow>
             (if threadState = 2 then do {
                reschedPending \<leftarrow> Read32 kSchedulerPendingFlagAddr;
                stays \<leftarrow>
                  (if forceSwitch = 0 then do {
                     threadPriority \<leftarrow> Read32 (runningContext + kThreadPriorityOffset);
                     State_Monad.return (sint threadPriority \<le> uint (PPC_CntlzwInline reschedPending))
                   } else State_Monad.return False);
                (if stays then State_Monad.return True
                 else do {
                   Write16 (runningContext + kThreadStateOffset) 1;
                   prio \<leftarrow> Read32 (runningContext + kThreadPriorityOffset);
                   LinkThreadOnRunQueue runningContext (sint prio);
                   MarkRunQueuePending (sint prio);
                   State_Monad.return False
                 })
              } else State_Monad.return False);
           (if keep then gpr_put 3 0
            else do {
              resumed \<leftarrow> save_if_preemptible W runningContext;
              whenM (\<not> resumed) (run_next_thread W fuel runningContext)
            })
         })
      })
   }"

section \<open>Waking and sleeping\<close>

definition kMaxWake :: nat where "kMaxWake = 256"

text \<open>The fiber bookkeeping of a wake-up.\<close>

definition wake_fiber :: "u32 \<Rightarrow> unit os" where
  "wake_fiber thread = do {
     ini \<leftarrow> IsInitialized;
     has \<leftarrow> HasFiber thread;
     whenM ini (do {
       whenM (thread = kDefaultThreadContextAddr \<and> \<not> has)
         (do { _ \<leftarrow> RegisterMainThreadAsFiber thread; State_Monad.return () });
       ResumeGuestThread thread
     })
   }"

text \<open>One round of the wake-up loop, after the head \<open>thread\<close> was found nonzero; \<open>True\<close> asks
  for a reschedule.\<close>

definition wake_head :: "u32 \<Rightarrow> u32 \<Rightarrow> bool os" where
  "wake_head queueAddr thread = do {
     _ \<leftarrow> PopThreadQueueHead queueAddr thread;
     st \<leftarrow> Read16 (thread + kThreadStateOffset);
     dead \<leftarrow> IsTerminated thread;
     (if ThreadStateIsTerminated st \<or> dead then do {
        Write32 (thread + kThreadQueueOffset) 0;
        Write32 (thread + kThreadNextOffset) 0;
        Write32 (thread + kThreadPrevOffset) 0;
        State_Monad.return False
      } else do {
        Write16 (thread + kThreadStateOffset) 1;
        suspend \<leftarrow> Read32 (thread + kThreadSuspendOffset);
        (if sint suspend < 1 then do {
           p \<leftarrow> Read32 (thread + kThreadPriorityOffset);
           (let prio = (if sint p < 0 then 0 else if sint p > 31 then 31 else sint p) in do {
              LinkThreadOnRunQueue thread prio;
              wake_fiber thread;
              MarkRunQueuePending prio;
              State_Monad.return True
            })
         } else State_Monad.return False)
      })
   }"

fun wake_loop :: "nat \<Rightarrow> u32 \<Rightarrow> bool \<Rightarrow> bool os" where
  "wake_loop 0 queueAddr resched = State_Monad.return resched"
| "wake_loop (Suc n) queueAddr resched = do {
     thread \<leftarrow> Read32 queueAddr;
     (if thread = 0 then State_Monad.return resched
      else do {
        r \<leftarrow> wake_head queueAddr thread;
        wake_loop n queueAddr (resched \<or> r)
      })
   }"

definition WakeupThreadQueue :: "world \<Rightarrow> nat \<Rightarrow> bool \<Rightarrow> unit os" where
  "WakeupThreadQueue W fuel allowImmediateReschedule = do {
     queueAddr \<leftarrow> gpr_get 3;
     whenM (queueAddr \<noteq> 0) (do {
       irqState \<leftarrow> OS__DisableInterrupts;
       resched \<leftarrow> wake_loop kMaxWake queueAddr False;
       retrace \<leftarrow> get_host (advancing_retrace W);
       whenM (allowImmediateReschedule \<and> resched \<and> \<not> retrace) (do {
         gpr_put 3 0;
         SelectThread W fuel
       });
       _ \<leftarrow> OS__RestoreInterrupts irqState;
       State_Monad.return ()
     })
   }"

definition OSWakeupThread :: "world \<Rightarrow> nat \<Rightarrow> unit os" where
  "OSWakeupThread W fuel = WakeupThreadQueue W fuel True"

definition OS_HLE_WakeupThreadNoReschedule :: "world \<Rightarrow> nat \<Rightarrow> u32 \<Rightarrow> unit os" where
  "OS_HLE_WakeupThreadNoReschedule W fuel waitQueue = do {
     savedR3 \<leftarrow> gpr_get 3;
     gpr_put 3 waitQueue;
     WakeupThreadQueue W fuel False;
     gpr_put 3 savedR3
   }"

definition SchedulerCanSwitchAway :: "bool os" where
  "SchedulerCanSwitchAway = do {
     n \<leftarrow> Read32 kSchedulerIdleFlagAddr;
     State_Monad.return (n = 0)
   }"

definition sleep_body :: "world \<Rightarrow> nat \<Rightarrow> u32 \<Rightarrow> u32 \<Rightarrow> unit os" where
  "sleep_body W fuel queuePtr currentThread = do {
     Write16 (currentThread + kThreadStateOffset) 4;
     Write32 (currentThread + kThreadQueueOffset) queuePtr;
     ourPrio \<leftarrow> Read32 (currentThread + kThreadPriorityOffset);
     InsertThreadIntoQueueByPriority fuel queuePtr currentThread (sint ourPrio);
     ini \<leftarrow> IsInitialized;
     whenM ini (SuspendGuestThread currentThread);
     Write32 kSchedulerReschedCounterAddr 1;
     gpr_put 3 0;
     SelectThread W fuel;
     st \<leftarrow> Read16 (currentThread + kThreadStateOffset);
     q \<leftarrow> (if st = kThreadStateWaiting then Read32 (currentThread + kThreadQueueOffset)
          else State_Monad.return 0);
     whenM (st = kThreadStateWaiting \<and> q = queuePtr) (do {
       UnlinkGuestListNode currentThread kThreadNextOffset kThreadPrevOffset queuePtr (queuePtr + 4);
       Write32 (currentThread + kThreadQueueOffset) 0;
       Write16 (currentThread + kThreadStateOffset) kThreadStateRunning;
       ini2 \<leftarrow> IsInitialized;
       has \<leftarrow> HasFiber currentThread;
       whenM (ini2 \<and> has) (ResumeGuestThread currentThread)
     })
   }"

definition OSSleepThread :: "world \<Rightarrow> nat \<Rightarrow> unit os" where
  "OSSleepThread W fuel = do {
     queuePtr \<leftarrow> gpr_get 3;
     whenM (queuePtr \<noteq> 0) (do {
       irqState \<leftarrow> OS__DisableInterrupts;
       try_catch (do {
         running \<leftarrow> Read32 kOSRunningContextAddr;
         rs \<leftarrow> get_host regions;
         (if running = 0 \<and> \<not> Contains rs kDefaultThreadContextAddr 4 then State_Monad.return ()
          else do {
            whenM (running = 0) (do {
              Write32 kOSRunningContextAddr kDefaultThreadContextAddr;
              OS__SetCurrentContext kDefaultThreadContextAddr;
              ini \<leftarrow> IsInitialized;
              has \<leftarrow> HasFiber kDefaultThreadContextAddr;
              whenM (ini \<and> \<not> has)
                (do { _ \<leftarrow> RegisterMainThreadAsFiber kDefaultThreadContextAddr; State_Monad.return () })
            });
            can \<leftarrow> SchedulerCanSwitchAway;
            whenM can (sleep_body W fuel queuePtr
              (if running = 0 then kDefaultThreadContextAddr else running))
          })
       }) (State_Monad.return ());
       _ \<leftarrow> OS__RestoreInterrupts irqState;
       State_Monad.return ()
     })
   }"

end
