(* ===== verification/OsRunQueue.thy ===== *)
theory OsRunQueue
  imports OsSched
begin

unbundle bit_operations_syntax

text \<open>
  Correctness of the scheduler's queues: the invariant that ties the 32 run queues and a wait
  queue to lists of threads and the pending mask, and what waking a queue and picking the next
  thread do to it.
\<close>

section \<open>Addresses of the run queues\<close>

definition rq_addr :: "nat \<Rightarrow> u32" where
  "rq_addr i = kThreadQueueArrayAddr + of_nat i * 8"

lemma unat_rq_addr:
  assumes "i < 32"
  shows "unat (rq_addr i) = 2150922160 + 8 * i" "unat (rq_addr i + 4) = 2150922164 + 8 * i"
  using assms by (simp_all add: rq_addr_def kThreadQueueArrayAddr_def unat_word_ariths unat_of_nat)

lemma rq_addr_ok:
  assumes "i < 32"
  shows "word_ok (rq_addr i)" "word_ok (rq_addr i + 4)"
proof -
  have m: "(2150922160 + 8 * i) mod 4 = (0 :: nat)" "(2150922164 + 8 * i) mod 4 = (0 :: nat)"
    by presburger+
  show "word_ok (rq_addr i)" "word_ok (rq_addr i + 4)"
    using assms m by (simp_all add: word_ok_def cached_unat unat_rq_addr)
qed

lemma rq_addr_eq:
  assumes "i < 32" "j < 32"
  shows "(rq_addr i = rq_addr j) = (i = j)" "(rq_addr i + 4 = rq_addr j + 4) = (i = j)"
    "rq_addr i \<noteq> rq_addr j + 4" "rq_addr j + 4 \<noteq> rq_addr i"
proof -
  show "(rq_addr i = rq_addr j) = (i = j)" "(rq_addr i + 4 = rq_addr j + 4) = (i = j)"
    using assms by (simp_all add: word_unat_eq_iff unat_rq_addr)
  have "2150922160 + 8 * i \<noteq> 2150922164 + 8 * j" by presburger
  then show "rq_addr i \<noteq> rq_addr j + 4" "rq_addr j + 4 \<noteq> rq_addr i"
    using assms by (simp_all add: word_unat_eq_iff unat_rq_addr)
qed

definition rq_slots :: "u32 set" where
  "rq_slots = (\<Union>i<32. {rq_addr i, rq_addr i + 4})"

definition sched_words :: "u32 set" where
  "sched_words = {kSchedulerPendingFlagAddr, kSchedulerReschedCounterAddr, kSchedulerIdleFlagAddr,
     kOSRunningContextAddr, kOSCurrentContextAddr, kOSPhysicalContextAddr, kOSExceptionContextAddr,
     kSwitchThreadCallbackPtrAddr}"

lemma rq_slots_not_sched: "a \<in> rq_slots \<Longrightarrow> a \<notin> sched_words"
  by (auto simp: rq_slots_def sched_words_def word_unat_eq_iff unat_rq_addr kernel_words)

lemma sched_words_ok: "a \<in> sched_words \<Longrightarrow> word_ok a"
  by (auto simp: sched_words_def kernel_words word_ok_def cached_def)

lemma rq_slotsI [simp]: "i < 32 \<Longrightarrow> rq_addr i \<in> rq_slots" "i < 32 \<Longrightarrow> rq_addr i + 4 \<in> rq_slots"
  by (auto simp: rq_slots_def)

text \<open>The run queue of index \<open>i\<close> is the one the pending mask names with bit \<open>31 - i\<close>.\<close>

lemma rq_addr_index:
  assumes "i < 32"
  shows "is_run_queue (rq_addr i)" "run_queue_index (rq_addr i) = i"
proof -
  have d: "rq_addr i - kThreadQueueArrayAddr = of_nat (8 * i)"
    by (simp add: rq_addr_def mult.commute)
  have u: "unat (of_nat (8 * i) :: u32) = 8 * i"
    by (simp only: unat_of_nat) (use assms in simp)
  show "run_queue_index (rq_addr i) = i"
    unfolding run_queue_index_def d by (simp only: unat_div u) simp
  have "unat ((of_nat (8 * i) :: u32) mod 8) = 0" by (simp only: unat_mod u) simp
  then have "(of_nat (8 * i) :: u32) mod 8 = 0" by (simp add: unat_eq_0)
  moreover have "kThreadQueueArrayAddr \<le> rq_addr i" "rq_addr i < kThreadQueueArrayAddr + kThreadQueueArrayBytes"
    using assms unat_rq_addr(1) [OF assms]
    by (simp_all add: word_le_nat_alt word_less_nat_alt kThreadQueueArrayAddr_def kThreadQueueArrayBytes_def)
  ultimately show "is_run_queue (rq_addr i)" by (simp add: is_run_queue_def d)
qed

section \<open>Elementary queue steps\<close>

lemma run_pop_head:
  fixes s :: "'z machine_scheme"
  assumes "wii s" and d: "thread_queue (mem s) q (x # xs)" and lay: "queue_layout q (set (x # xs))"
  shows "\<exists>s'. run_state (PopThreadQueueHead q x) s = (head_or 0 xs, s') \<and>
     touches (list_words (x # xs) kThreadNextOffset kThreadPrevOffset q (q + 4)) s s' \<and>
     thread_queue (mem s') q xs"
proof -
  let ?no = kThreadNextOffset and ?po = kThreadPrevOffset
  let ?A = "prev_slot ?po (q + 4) xs"
  note Q = queue_layoutD [OF lay]
  have z: "0 \<notin> set xs" using d by (auto simp: dlist_def)
  have ok: "word_ok ?A" "word_ok q" "word_ok (x + ?no)" using Q by (auto simp: prev_slot_def)
  have r: "mem s (x + ?no) = head_or 0 xs" using d by (auto simp: dlist_def)
  have w: "(if head_or 0 xs = 0 then Write32 (q + 4) v else Write32 (head_or 0 xs + ?po) v) =
      (Write32 ?A v :: ('z, unit) guest)" for v
    using z by (cases xs) (auto simp: prev_slot_def)
  let ?s = "wr32 q (head_or 0 xs) (wr32 ?A 0 s)"
  have run: "run_state (PopThreadQueueHead q x) s = (head_or 0 xs, ?s)"
    unfolding PopThreadQueueHead_def using assms(1) ok r w by (simp add: run_simps)
  have m: "mem ?s = (mem s)(?A := last_or 0 [], next_slot ?no q [] := head_or 0 xs)"
    using ok by (simp add: next_slot_def)
  have "thread_queue (mem ?s) q ([] @ xs)"
    unfolding m
  proof (rule splice_join)
    show "links (mem s) ?no ?po x xs 0" using d by (auto simp: dlist_def)
    show "layout (set ([] @ xs)) {?no, ?po} {q, q + 4}"
      using Q(2) by (rule layout_mono) auto
    show "xs \<noteq> [] \<Longrightarrow> mem s (q + 4) = last xs" using d by (auto simp: dlist_def last_or_def)
  qed (use d in \<open>auto simp: dlist_def\<close>)
  moreover have "touches (list_words (x # xs) ?no ?po q (q + 4)) s ?s"
    using m slots_in_words(2) [of ?po "q + 4" xs "[x]" ?no q]
    by (auto simp: touches_def next_slot_def list_words_def)
  ultimately show ?thesis using run by auto
qed

lemma run_link_run_queue:
  fixes s :: "'z machine_scheme"
  assumes "wii s" and i: "i < 32" and d: "thread_queue (mem s) (rq_addr i) zs"
    and lay: "queue_layout (rq_addr i) (set (x # zs))" and x: "x \<notin> set zs" "x \<noteq> 0"
  shows "\<exists>s'. run_state (LinkThreadOnRunQueue x (int i)) s = ((), s') \<and>
     touches (queue_words (x # zs) (rq_addr i)) s s' \<and>
     thread_queue (mem s') (rq_addr i) (zs @ [x]) \<and> mem s' (x + kThreadQueueOffset) = rq_addr i \<and>
     mem s' kSchedulerPendingFlagAddr = mem s kSchedulerPendingFlagAddr"
proof -
  let ?q = "rq_addr i" and ?W = "list_words (zs @ [x]) kThreadNextOffset kThreadPrevOffset (rq_addr i) (rq_addr i + 4)"
  note Q = queue_layoutD [OF lay] and F = queue_field_ne [OF lay]
  obtain s1 where s1: "run_state (link_before ?q x (head_or 0 [])) s = ((), s1)"
    "touches ?W s s1" "thread_queue (mem s1) ?q (zs @ [x])"
    using run_link_before [OF assms(1), of ?q zs "[]" x] d lay x by auto
  have w1: "wii s1" using s1(2) assms(1) by (rule touches_wii)
  define s2 where "s2 = wr32 (x + kThreadQueueOffset) ?q s1"
  have m2: "mem s2 = (mem s1)(x + kThreadQueueOffset := ?q)" using Q by (simp add: s2_def)
  have "LinkThreadOnRunQueue x (int i) =
      (State_Monad.bind (link_before ?q x 0) (\<lambda>_. Write32 (x + kThreadQueueOffset) ?q) :: ('z, unit) guest)"
    by (simp add: LinkThreadOnRunQueue_def link_before_def rq_addr_def Let_def)
  then have run: "run_state (LinkThreadOnRunQueue x (int i)) s = ((), s2)"
    using s1(1) w1 Q by (simp add: run_simps s2_def)
  have "thread_queue (mem s2) ?q (zs @ [x])"
    using s1(3) F by (simp only: m2) (subst dlist_frame; simp; auto)
  moreover have "touches (queue_words (x # zs) ?q) s s2"
  proof -
    have "touches {x + kThreadQueueOffset} s1 s2" using m2 by (simp add: touches_def s2_def)
    with s1(2) have "touches (?W \<union> {x + kThreadQueueOffset}) s s2" by (rule touches_trans)
    then show ?thesis
      by (rule touches_mono) (auto simp: queue_words_def list_words_def)
  qed
  moreover have "mem s2 kSchedulerPendingFlagAddr = mem s kSchedulerPendingFlagAddr"
    using touches_mem [OF s1(2)] pending_not_in_list_words [OF lay, of "zs @ [x]"] F(6) [of x kThreadQueueOffset]
    by (simp add: m2)
  ultimately show ?thesis using run m2 by simp
qed


section \<open>The scheduler invariant\<close>

definition sched_layout :: "u32 set \<Rightarrow> u32 \<Rightarrow> bool" where
  "sched_layout T q \<longleftrightarrow> layout T queue_fields (sched_words \<union> rq_slots \<union> {q, q + 4}) \<and>
     q \<notin> sched_words \<union> rq_slots \<and> q + 4 \<notin> sched_words \<union> rq_slots \<and> 0 \<notin> T"

definition sched_inv :: "(u32 \<Rightarrow> u32) \<Rightarrow> u32 \<Rightarrow> u32 set \<Rightarrow> u32 list \<Rightarrow> (nat \<Rightarrow> u32 list) \<Rightarrow> bool" where
  "sched_inv m q T xs rq \<longleftrightarrow>
     thread_queue m q xs \<and> set xs \<subseteq> T \<and>
     (\<forall>i<32. thread_queue m (rq_addr i) (rq i) \<and> set (rq i) \<subseteq> T \<and> set xs \<inter> set (rq i) = {} \<and>
        bit (m kSchedulerPendingFlagAddr) (31 - i) = (rq i \<noteq> [])) \<and>
     (\<forall>i<32. \<forall>j<32. i \<noteq> j \<longrightarrow> set (rq i) \<inter> set (rq j) = {})"

lemma sched_layoutD:
  assumes "sched_layout T q"
  shows "queue_layout q T" "i < 32 \<Longrightarrow> queue_layout (rq_addr i) T" "0 \<notin> T"
    "x \<in> T \<Longrightarrow> f \<in> queue_fields \<Longrightarrow> x + f \<notin> sched_words"
    "x \<in> T \<Longrightarrow> f \<in> queue_fields \<Longrightarrow> word_ok (x + f)"
proof -
  have l: "layout T queue_fields (sched_words \<union> rq_slots \<union> {q, q + 4})"
    and q: "q \<notin> sched_words \<union> rq_slots" "q + 4 \<notin> sched_words \<union> rq_slots"
    using assms by (simp_all add: sched_layout_def)
  have p: "kSchedulerPendingFlagAddr \<in> sched_words" by (simp add: sched_words_def)
  show "0 \<notin> T" using assms by (simp add: sched_layout_def)
  show "queue_layout q T"
  proof -
    have "layout T queue_fields {q, q + 4, kSchedulerPendingFlagAddr}"
      using l by (rule layout_mono) (use p in auto)
    moreover have "q \<noteq> kSchedulerPendingFlagAddr" "q + 4 \<noteq> kSchedulerPendingFlagAddr"
      using q p by (metis UnI1)+
    ultimately show ?thesis by (simp add: queue_layout_def)
  qed
  show "queue_layout (rq_addr i) T" if i: "i < 32"
  proof -
    have "rq_addr i \<in> rq_slots" "rq_addr i + 4 \<in> rq_slots" using i by simp_all
    then have "rq_addr i \<noteq> kSchedulerPendingFlagAddr" "rq_addr i + 4 \<noteq> kSchedulerPendingFlagAddr"
      using rq_slots_not_sched p by metis+
    moreover have "{rq_addr i, rq_addr i + 4, kSchedulerPendingFlagAddr} \<subseteq> sched_words \<union> rq_slots \<union> {q, q + 4}"
      using p i by simp
    ultimately show ?thesis unfolding queue_layout_def using layout_mono [OF l order_refl order_refl] by simp
  qed
  show "x \<in> T \<Longrightarrow> f \<in> queue_fields \<Longrightarrow> x + f \<notin> sched_words" using layoutD(3) [OF l] by blast
  show "x \<in> T \<Longrightarrow> f \<in> queue_fields \<Longrightarrow> word_ok (x + f)" using layoutD(1) [OF l] by blast
qed

text \<open>What one queue operation writes is disjoint from the link words of another queue.\<close>

lemma queue_words_disjoint:
  assumes a: "queue_layout qa T" and b: "queue_layout qb T"
    and sub: "set as \<subseteq> T" "set bs \<subseteq> T" "set as \<inter> set bs = {}"
    and ne: "qa \<noteq> qb" "qa \<noteq> qb + 4" "qa + 4 \<noteq> qb"
  shows "queue_words as qa \<inter> list_words bs kThreadNextOffset kThreadPrevOffset qb (qb + 4) = {}"
proof -
  have "w \<notin> queue_words as qa" if w: "w \<in> list_words bs kThreadNextOffset kThreadPrevOffset qb (qb + 4)" for w
  proof -
    consider "w \<in> {qb, qb + 4}" | y i where "w = y + i" "y \<in> set bs" "i \<in> {kThreadNextOffset, kThreadPrevOffset}"
      using w by (auto simp: list_words_def fields_of_def)
    then show ?thesis
    proof cases
      case 1
      have "w \<notin> fields_of (set as) Off" if "Off \<subseteq> queue_fields" for Off
      proof
        assume "w \<in> fields_of (set as) Off"
        then obtain x f where "w = x + f" "x \<in> set as" "f \<in> Off" by (auto simp: fields_of_def)
        then show False using queue_field_ne(1,2) [OF b, of x f] that sub(1) 1 by blast
      qed
      then have "w \<notin> fields_of (set as) {kThreadNextOffset, kThreadPrevOffset}"
        "w \<notin> fields_of (set as) {kThreadQueueOffset}" by simp_all
      then show ?thesis
        using 1 ne queue_layoutD(6,7) [OF b] by (auto simp: queue_words_def list_words_def)
    next
      case 2
      then have "y \<in> T" "y \<notin> set as" "i \<in> queue_fields" using sub by auto
      then show ?thesis unfolding 2(1) by (intro not_in_queue_words [OF a _ _ sub(1)]) simp_all
    qed
  qed
  then show ?thesis by blast
qed

lemma thread_queue_frame:
  assumes "\<And>a. a \<in> list_words xs kThreadNextOffset kThreadPrevOffset q (q + 4) \<Longrightarrow> m' a = m a"
  shows "thread_queue m' q xs = thread_queue m q xs"
proof (rule dlist_frame)
  fix x assume "x \<in> set xs"
  then have "x + kThreadNextOffset \<in> list_words xs kThreadNextOffset kThreadPrevOffset q (q + 4)"
    "x + kThreadPrevOffset \<in> list_words xs kThreadNextOffset kThreadPrevOffset q (q + 4)"
    by (auto simp: list_words_def)
  then show "m' (x + kThreadNextOffset) = m (x + kThreadNextOffset) \<and>
      m' (x + kThreadPrevOffset) = m (x + kThreadPrevOffset)" using assms by blast
qed (use assms in \<open>auto simp: list_words_def\<close>)

lemma list_words_sub_queue_words:
  "list_words xs kThreadNextOffset kThreadPrevOffset q (q + 4) \<subseteq> queue_words xs q"
  by (auto simp: queue_words_def)

lemma mem_cong: "bytes s = bytes s' \<Longrightarrow> mem s = mem s'"
  by (rule ext) (simp only: mem_def rd32_def)

definition fiber_dead :: "os_machine \<Rightarrow> u32 \<Rightarrow> bool" where
  "fiber_dead s t = (case fibers s t of None \<Rightarrow> False | Some f \<Rightarrow> terminated f)"

lemma only_memory_dead:
  assumes "only_memory s s'"
  shows "fiber_dead s' = fiber_dead s"
proof -
  have "fibers s' = fibers (s\<lparr>bytes := bytes s'\<rparr>)"
    using assms unfolding only_memory_def by (rule arg_cong)
  then show ?thesis by (simp add: fiber_dead_def fun_eq_iff)
qed

lemma run_IsTerminated [run_simps]: "run_state (IsTerminated t) s = (fiber_dead s t, s)"
  by (simp add: IsTerminated_def run_simps fiber_dead_def)

text \<open>The fiber bookkeeping of a wake-up: no effect on guest memory or on who is dead.\<close>

lemma run_wake_fiber:
  assumes "wii s"
  shows "\<exists>s'. run_state (wake_fiber thread) s = ((), s') \<and> wii s' \<and> mem s' = mem s \<and> fiber_dead s' = fiber_dead s"
proof -
  have f: "fault s = None" using assms by (rule wii_fault)
  define s1 where "s1 = (if fibers_initialized s \<and> thread = kDefaultThreadContextAddr \<and> fibers s thread = None
    then s\<lparr>fibers := (fibers s)(thread \<mapsto> \<lparr>fiber = Some SchedulerFiber, cpuContext = cpu s,
            entryPoint = 0, entryArg = 0, fiber_state = RUNNING, isSchedulerFiber = True,
            terminated = False\<rparr>), current_guest_thread := thread\<rparr> else s)"
  define s2 where "s2 = (if fibers_initialized s then (case fibers s1 thread of
       None \<Rightarrow> s1
     | Some f \<Rightarrow> if terminated f then s1
                else s1\<lparr>fibers := (fibers s1)(thread \<mapsto> f\<lparr>fiber_state := READY\<rparr>)\<rparr>) else s1)"
  have 1: "wii s1" "bytes s1 = bytes s" "fiber_dead s1 = fiber_dead s"
    using assms by (auto simp: s1_def wii_def fiber_dead_def fun_eq_iff)
  have 2: "wii s2" "bytes s2 = bytes s1" "fiber_dead s2 = fiber_dead s1"
    using 1(1) by (auto simp: s2_def wii_def fiber_dead_def fun_eq_iff split: option.splits)
  have r1: "run_state (whenM (thread = kDefaultThreadContextAddr \<and> fibers s thread = None)
      (do { _ \<leftarrow> RegisterMainThreadAsFiber thread; State_Monad.return () })) s = ((), s1)"
    if "fibers_initialized s"
    using f that
    by (cases "thread = kDefaultThreadContextAddr"; cases "fibers s thread")
      (simp_all add: run_simps IsInitialized_def HasFiber_def RegisterMainThreadAsFiber_def s1_def)
  have r2: "run_state (ResumeGuestThread thread) s1 = ((), s2)" if "fibers_initialized s"
    using wii_fault [OF 1(1)] that by (simp add: run_simps ResumeGuestThread_def s2_def)
  have "run_state (wake_fiber thread) s = ((), s2)"
  proof (cases "fibers_initialized s")
    case True
    show ?thesis
      using r1 [OF True] r2 [OF True] True by (simp only: wake_fiber_def run_bind run_get_host IsInitialized_def
          HasFiber_def whenM_def not_not if_True prod.case)
  next
    case False
    then show ?thesis by (simp add: wake_fiber_def run_simps IsInitialized_def HasFiber_def s1_def s2_def)
  qed
  with 1 2 mem_cong [of s2 s] show ?thesis by auto
qed


text \<open>The queues of the scheduler: the wait queue and the 32 run queues.\<close>

definition sched_queue :: "u32 \<Rightarrow> u32 \<Rightarrow> bool" where
  "sched_queue q qa \<longleftrightarrow> qa = q \<or> (\<exists>i<32. qa = rq_addr i)"

lemma sched_queue_simps [simp]: "sched_queue q q" "i < 32 \<Longrightarrow> sched_queue q (rq_addr i)"
  by (auto simp: sched_queue_def)

lemma sched_queue_layout: "sched_layout T q \<Longrightarrow> sched_queue q qa \<Longrightarrow> queue_layout qa T"
  using sched_layoutD(1,2) by (auto simp: sched_queue_def)

lemma sched_queues_apart:
  assumes "sched_layout T q" "sched_queue q qa" "sched_queue q qb" "qa \<noteq> qb"
  shows "qa \<noteq> qb + 4" "qa + 4 \<noteq> qb"
proof -
  have q: "q \<notin> rq_slots" "q + 4 \<notin> rq_slots" using assms(1) by (auto simp: sched_layout_def)
  consider i where "i < 32" "qa = q" "qb = rq_addr i" | i where "i < 32" "qb = q" "qa = rq_addr i"
    | i j where "i < 32" "j < 32" "qa = rq_addr i" "qb = rq_addr j"
    using assms(2-4) by (auto simp: sched_queue_def)
  then have "qa \<noteq> qb + 4 \<and> qa + 4 \<noteq> qb"
  proof cases
    case 1
    then show ?thesis using q rq_slotsI [of i] by metis
  next
    case 2
    then show ?thesis using q rq_slotsI [of i] by metis
  next
    case 3
    then show ?thesis using rq_addr_eq(3,4) by metis
  qed
  then show "qa \<noteq> qb + 4" "qa + 4 \<noteq> qb" by simp_all
qed

lemma sched_queue_safe:
  assumes L: "sched_layout T q" and b: "sched_queue q qb" "set bs \<subseteq> T"
    and a: "a \<in> list_words bs kThreadNextOffset kThreadPrevOffset qb (qb + 4)"
  shows "a \<notin> sched_words"
    "x \<in> T \<Longrightarrow> f \<in> queue_fields - {kThreadNextOffset, kThreadPrevOffset} \<Longrightarrow> a \<noteq> x + f"
    "sched_queue q qa \<Longrightarrow> qa \<noteq> qb \<Longrightarrow> set zs \<subseteq> T \<Longrightarrow> set zs \<inter> set bs = {} \<Longrightarrow> a \<notin> queue_words zs qa"
proof -
  have qb: "qb \<notin> sched_words" "qb + 4 \<notin> sched_words"
    using L b(1) rq_slots_not_sched rq_slotsI by (auto simp: sched_queue_def sched_layout_def)
  show "a \<notin> sched_words"
    using a qb sched_layoutD(4) [OF L] b(2) by (auto simp: list_words_def fields_of_def)
  show "a \<noteq> x + f" if x: "x \<in> T" "f \<in> queue_fields - {kThreadNextOffset, kThreadPrevOffset}"
  proof -
    have "x + f \<notin> list_words bs kThreadNextOffset kThreadPrevOffset qb (qb + 4)"
      by (rule not_in_list_words [OF sched_queue_layout [OF L b(1)]]) (use x b(2) in auto)
    with a show ?thesis by auto
  qed
  show "a \<notin> queue_words zs qa"
    if "sched_queue q qa" "qa \<noteq> qb" "set zs \<subseteq> T" "set zs \<inter> set bs = {}"
  proof -
    note ap = sched_queues_apart [OF L that(1) b(1) that(2)]
    have "queue_words zs qa \<inter> list_words bs kThreadNextOffset kThreadPrevOffset qb (qb + 4) = {}"
      by (rule queue_words_disjoint [OF sched_queue_layout [OF L that(1)] sched_queue_layout [OF L b(1)]
            that(3) b(2) that(4,2) ap])
    with a show ?thesis by blast
  qed
qed

section \<open>Waking one thread\<close>

definition wakeable :: "os_machine \<Rightarrow> u32 \<Rightarrow> bool" where
  "wakeable s x \<longleftrightarrow> \<not> ThreadStateIsTerminated (hi16 (mem s (x + kThreadStateOffset))) \<and> \<not> fiber_dead s x \<and>
     sint (mem s (x + kThreadSuspendOffset)) < 1 \<and> 0 \<le> prio_of (mem s) x \<and> prio_of (mem s) x < 32"

lemma more_offsets_ne [simp]:
  "kThreadStateOffset \<noteq> kThreadNextOffset" "kThreadStateOffset \<noteq> kThreadPrevOffset"
  "kThreadStateOffset \<noteq> kThreadQueueOffset" "kThreadSuspendOffset \<noteq> kThreadNextOffset"
  "kThreadSuspendOffset \<noteq> kThreadPrevOffset" "kThreadSuspendOffset \<noteq> kThreadQueueOffset"
  "kThreadStateOffset \<noteq> kThreadSuspendOffset" "kThreadStateOffset \<noteq> kThreadPriorityOffset"
  "kThreadSuspendOffset \<noteq> kThreadStateOffset" "kThreadPriorityOffset \<noteq> kThreadStateOffset"
  by (simp_all add: thread_offsets)

text \<open>What waking threads of \<open>T\<close> may change: link words, their states, the mask and the resched flag.\<close>

definition wake_words :: "u32 \<Rightarrow> u32 set \<Rightarrow> u32 set" where
  "wake_words q T = {q, q + 4, kSchedulerPendingFlagAddr, kSchedulerReschedCounterAddr} \<union> rq_slots \<union>
     fields_of T {kThreadStateOffset, kThreadNextOffset, kThreadPrevOffset, kThreadQueueOffset}"

lemma queue_words_sub_wake: "sched_queue q qa \<Longrightarrow> set zs \<subseteq> T \<Longrightarrow> queue_words zs qa \<subseteq> wake_words q T"
  by (auto simp: sched_queue_def wake_words_def queue_words_def list_words_def fields_of_def)

lemma run_wake_head:
  fixes s :: os_machine
  assumes w: "wii s" and L: "sched_layout T q" and inv: "sched_inv (mem s) q T (x # xs) rq"
    and wk: "wakeable s x"
  defines "p \<equiv> nat (prio_of (mem s) x)"
  shows "\<exists>s'. run_state (wake_head q x) s = (True, s') \<and> wii s' \<and>
     sched_inv (mem s') q T xs (rq(p := rq p @ [x])) \<and>
     hi16 (mem s' (x + kThreadStateOffset)) = kThreadStateReady \<and>
     fiber_dead s' = fiber_dead s \<and>
     (\<forall>y\<in>T. \<forall>f\<in>{kThreadStateOffset, kThreadSuspendOffset, kThreadPriorityOffset}.
        y + f \<noteq> x + kThreadStateOffset \<longrightarrow> mem s' (y + f) = mem s (y + f)) \<and>
     (\<forall>a. a \<notin> wake_words q T \<longrightarrow> mem s' a = mem s a)"
proof -
  let ?pf = kSchedulerPendingFlagAddr and ?rs = kSchedulerReschedCounterAddr
  let ?st = "x + kThreadStateOffset" and ?qp = "rq_addr p"
  have p: "p < 32" "int p = prio_of (mem s) x" using wk by (auto simp: wakeable_def p_def)
  have I: "thread_queue (mem s) q (x # xs)" "set (x # xs) \<subseteq> T"
    "\<And>i. i < 32 \<Longrightarrow> thread_queue (mem s) (rq_addr i) (rq i)" "\<And>i. i < 32 \<Longrightarrow> set (rq i) \<subseteq> T"
    "\<And>i. i < 32 \<Longrightarrow> set (x # xs) \<inter> set (rq i) = {}"
    "\<And>i. i < 32 \<Longrightarrow> bit (mem s ?pf) (31 - i) = (rq i \<noteq> [])"
    "\<And>i j. i < 32 \<Longrightarrow> j < 32 \<Longrightarrow> i \<noteq> j \<Longrightarrow> set (rq i) \<inter> set (rq j) = {}"
    using inv by (auto simp: sched_inv_def)
  have xT: "x \<in> T" "x \<noteq> 0" using I(2) sched_layoutD(3) [OF L] by auto
  have q_ne: "q \<noteq> rq_addr i" if "i < 32" for i
  proof
    assume "q = rq_addr i"
    then have "q \<in> rq_slots" using rq_slotsI(1) [OF that] by simp
    then show False using L by (simp add: sched_layout_def)
  qed
  have ok: "word_ok ?st" "word_ok (x + kThreadSuspendOffset)" "word_ok (x + kThreadPriorityOffset)"
    "word_ok ?pf" "word_ok ?rs"
    using sched_layoutD(5) [OF L xT(1)] sched_words_ok by (simp_all add: sched_words_def)
  have lq: "queue_layout q (set (x # xs))" using sched_layoutD(1) [OF L] I(2) by (rule queue_layout_mono)
  obtain s1 where s1: "run_state (PopThreadQueueHead q x) s = (head_or 0 xs, s1)"
    "touches (list_words (x # xs) kThreadNextOffset kThreadPrevOffset q (q + 4)) s s1"
    "thread_queue (mem s1) q xs"
    using run_pop_head [OF w I(1) lq] by blast
  have w1: "wii s1" using s1(2) w by (rule touches_wii)
  have t1: "touches (queue_words (x # xs) q) s s1"
    using s1(2) list_words_sub_queue_words by (rule touches_mono)
  have keep1: "mem s1 (y + f) = mem s (y + f)"
    if "y \<in> T" "f \<in> {kThreadStateOffset, kThreadSuspendOffset, kThreadPriorityOffset}" for y f
  proof -
    have "f \<in> queue_fields" "f \<notin> {kThreadNextOffset, kThreadPrevOffset, kThreadQueueOffset}" using that(2) by auto
    then have "y + f \<notin> queue_words (x # xs) q"
      by (intro not_in_queue_words [OF sched_layoutD(1) [OF L] that(1) _ I(2)]) simp_all
    then show ?thesis by (rule touches_mem [OF t1])
  qed
  define s2 where "s2 = wr16 ?st 1 s1"
  have m2: "mem s2 = (mem s1)(?st := set_hi16 1 (mem s1 ?st))" and w2: "wii s2"
    using ok w1 by (simp_all add: s2_def)
  have rq2: "mem s2 a = mem s a" if "i < 32" "a \<in> list_words (rq i) kThreadNextOffset kThreadPrevOffset (rq_addr i) (rq_addr i + 4)" for i a
    using sched_queue_safe(2) [OF L _ I(4) that(2), of x kThreadStateOffset]
      sched_queue_safe(3) [OF L _ I(4) that(2), of q "x # xs"] that(1) xT(1) I(2,5) q_ne [OF that(1)] touches_mem [OF t1]
    by (simp add: m2)
  have "thread_queue (mem s2) ?qp (rq p)"
    using thread_queue_frame [OF rq2 [OF p(1)]] I(3) [OF p(1)] by simp
  moreover have "queue_layout ?qp (set (x # rq p))"
    using sched_layoutD(2) [OF L p(1)] by (rule queue_layout_mono) (use xT I(4) p(1) in auto)
  ultimately obtain s3 where s3: "run_state (LinkThreadOnRunQueue x (int p)) s2 = ((), s3)"
    "touches (queue_words (x # rq p) ?qp) s2 s3" "thread_queue (mem s3) ?qp (rq p @ [x])"
    "mem s3 ?pf = mem s2 ?pf"
    using run_link_run_queue [OF w2 p(1), of "rq p" x] I(5) [OF p(1)] xT(2) by auto
  have w3: "wii s3" using s3(2) w2 by (rule touches_wii)
  have keep3: "mem s3 (y + f) = mem s2 (y + f)"
    if "y \<in> T" "f \<in> {kThreadStateOffset, kThreadSuspendOffset, kThreadPriorityOffset}" for y f
  proof -
    have "f \<in> queue_fields" "f \<notin> {kThreadNextOffset, kThreadPrevOffset, kThreadQueueOffset}" using that(2) by auto
    then have "y + f \<notin> queue_words (x # rq p) ?qp"
      by (intro not_in_queue_words [OF sched_layoutD(2) [OF L p(1)] that(1)]) (use xT I(4) [OF p(1)] in auto)
    then show ?thesis by (rule touches_mem [OF s3(2)])
  qed
  obtain s4 where s4: "run_state (wake_fiber x) s3 = ((), s4)" "wii s4" "mem s4 = mem s3"
    "fiber_dead s4 = fiber_dead s3"
    using run_wake_fiber [OF w3] by blast
  define s5 where "s5 = wr32 ?rs 1 (wr32 ?pf (mem s4 ?pf OR push_bit (nat (31 - int p)) 1) s4)"
  have m5: "mem s5 = (mem s3)(?pf := mem s3 ?pf OR push_bit (31 - p) 1, ?rs := 1)" and w5: "wii s5"
    using ok s4(2,3) p(1) by (simp_all add: s5_def nat_diff_distrib)
  have run: "run_state (wake_head q x) s = (True, s5)"
  proof -
    have st: "hi16 (mem s1 ?st) = hi16 (mem s ?st)" "fiber_dead s1 x = fiber_dead s x"
      using keep1 [OF xT(1)] only_memory_dead [of s s1] s1(2) by (simp_all add: touches_def)
    have v: "mem s2 (x + kThreadSuspendOffset) = mem s (x + kThreadSuspendOffset)"
      "mem s2 (x + kThreadPriorityOffset) = mem s (x + kThreadPriorityOffset)"
      using keep1 [OF xT(1)] by (simp_all add: m2)
    show ?thesis
      unfolding wake_head_def
      using wk w w1 w2 ok p s1(1) s3(1) s4(1,2) st v
      by (simp add: run_simps wakeable_def prio_of_def MarkRunQueuePending_def s5_def nat_diff_distrib
          Let_def flip: s2_def)
  qed
  have dead: "fiber_dead s5 = fiber_dead s"
  proof -
    have "fiber_dead s5 = fiber_dead s4"
      by (rule only_memory_dead) (simp add: s5_def)
    moreover have "fiber_dead s3 = fiber_dead s2" "fiber_dead s2 = fiber_dead s1" "fiber_dead s1 = fiber_dead s"
      using s1(2) s3(2) by (auto intro!: only_memory_dead simp: touches_def s2_def)
    ultimately show ?thesis using s4(4) by simp
  qed
  have sw: "a \<noteq> ?pf" "a \<noteq> ?rs" if "a \<notin> sched_words" for a
    using that by (auto simp: sched_words_def)
  have Tw: "y + f \<notin> sched_words" if "y \<in> T" "f \<in> queue_fields" for y f
    using sched_layoutD(4) [OF L] that by blast
  have qxs: "thread_queue (mem s5) q xs"
  proof -
    have "mem s5 a = mem s1 a" if a: "a \<in> list_words xs kThreadNextOffset kThreadPrevOffset q (q + 4)" for a
    proof -
      have xs: "set xs \<subseteq> T" "x \<notin> set xs" using I(1,2) by (auto simp: dlist_def)
      note S = sched_queue_safe [OF L _ xs(1) a]
      have "a \<notin> queue_words (x # rq p) ?qp"
        by (rule S(3)) (use p(1) q_ne xT(1) xs(2) I(4,5) [OF p(1)] in auto)
      moreover have "a \<noteq> ?st" by (rule S(2)) (use xT(1) in auto)
      ultimately show ?thesis using S(1) sw [of a] touches_mem [OF s3(2)] by (simp add: m5 m2)
    qed
    then show ?thesis using thread_queue_frame [of xs q "mem s5" "mem s1"] s1(3) by simp
  qed
  have rqp: "thread_queue (mem s5) ?qp (rq p @ [x])"
  proof -
    have sub: "set (rq p @ [x]) \<subseteq> T" using I(4) [OF p(1)] xT(1) by auto
    have "mem s5 a = mem s3 a"
      if "a \<in> list_words (rq p @ [x]) kThreadNextOffset kThreadPrevOffset ?qp (?qp + 4)" for a
      using sched_queue_safe(1) [OF L _ sub that] sw [of a] p(1) by (simp add: m5)
    then show ?thesis
      using thread_queue_frame [of "rq p @ [x]" ?qp "mem s5" "mem s3"] s3(3) by blast
  qed
  have rqi: "thread_queue (mem s5) (rq_addr i) (rq i)" if i: "i < 32" "i \<noteq> p" for i
  proof -
    have "mem s5 a = mem s a"
      if a: "a \<in> list_words (rq i) kThreadNextOffset kThreadPrevOffset (rq_addr i) (rq_addr i + 4)" for a
    proof -
      note S = sched_queue_safe [OF L _ I(4) [OF i(1)] a]
      have "a \<notin> queue_words (x # rq p) ?qp"
        using S(3) [of ?qp "x # rq p"] p(1) i rq_addr_eq(1) [OF p(1) i(1)] xT(1) I(4) [OF p(1)]
          I(5) [OF i(1)] I(7) [OF p(1) i(1)] by auto
      then show ?thesis
        using S(1) i(1) sw [of a] touches_mem [OF s3(2)] rq2 [OF i(1) a] by (simp add: m5)
    qed
    then show ?thesis
      using thread_queue_frame [of "rq i" "rq_addr i" "mem s5" "mem s"] I(3) [OF i(1)] by blast
  qed
  have pf5: "mem s5 ?pf = mem s ?pf OR push_bit (31 - p) 1"
  proof -
    have pw: "?pf \<noteq> y + f" if "y \<in> T" "f \<in> queue_fields" for y f
      using Tw [OF that] by (auto simp: sched_words_def)
    have "?pf \<noteq> ?rs" by (simp add: kernel_words)
    moreover have "mem s1 ?pf = mem s ?pf"
      using touches_mem [OF s1(2)] pending_not_in_list_words [OF sched_layoutD(1) [OF L] I(2)] by simp
    ultimately show ?thesis using s3(4) pw [OF xT(1), of kThreadStateOffset] by (simp add: m5 m2)
  qed
  have bits: "bit (mem s5 ?pf) (31 - i) = ((rq(p := rq p @ [x])) i \<noteq> [])" if i: "i < 32" for i
    using I(6) [OF i] that p(1) by (auto simp: pf5 bit_simps)
  have keep5: "mem s5 (y + f) = mem s2 (y + f)"
    if "y \<in> T" "f \<in> {kThreadStateOffset, kThreadSuspendOffset, kThreadPriorityOffset}" for y f
  proof -
    have "f \<in> queue_fields" using that(2) by auto
    then show ?thesis using keep3 [OF that] sw [OF Tw [OF that(1)]] by (simp add: m5)
  qed
  have "sched_inv (mem s5) q T xs (rq(p := rq p @ [x]))"
    unfolding sched_inv_def
  proof (intro conjI allI impI)
    show "thread_queue (mem s5) q xs" by (rule qxs)
    show "set xs \<subseteq> T" using I(2) by simp
    fix i :: nat
    assume i: "i < 32"
    show "thread_queue (mem s5) (rq_addr i) ((rq(p := rq p @ [x])) i)" using rqp rqi [OF i] by auto
    show "set ((rq(p := rq p @ [x])) i) \<subseteq> T" using I(4) [OF i] xT(1) by auto
    show "set xs \<inter> set ((rq(p := rq p @ [x])) i) = {}"
      using I(1) I(5) [OF i] by (auto simp: dlist_def)
    show "bit (mem s5 ?pf) (31 - i) = ((rq(p := rq p @ [x])) i \<noteq> [])" by (rule bits [OF i])
    fix j :: nat
    assume j: "j < 32" "i \<noteq> j"
    show "set ((rq(p := rq p @ [x])) i) \<inter> set ((rq(p := rq p @ [x])) j) = {}"
      using I(7) [OF i j] I(5) [OF i] I(5) [OF j(1)] j(2) by auto
  qed
  moreover have "hi16 (mem s5 ?st) = kThreadStateReady"
    using keep5 [OF xT(1), of kThreadStateOffset] by (simp add: m2 kThreadStateReady_def)
  moreover have "\<forall>y\<in>T. \<forall>f\<in>{kThreadStateOffset, kThreadSuspendOffset, kThreadPriorityOffset}.
      y + f \<noteq> ?st \<longrightarrow> mem s5 (y + f) = mem s (y + f)"
    using keep5 keep1 by (auto simp: m2)
  moreover have "\<forall>a. a \<notin> wake_words q T \<longrightarrow> mem s5 a = mem s a"
  proof (intro allI impI)
    fix a assume a: "a \<notin> wake_words q T"
    have "queue_words (x # xs) q \<subseteq> wake_words q T" "queue_words (x # rq p) ?qp \<subseteq> wake_words q T"
      using I(2) I(4) [OF p(1)] xT(1) p(1) by (intro queue_words_sub_wake; simp)+
    moreover have "?st \<in> wake_words q T" using xT(1) by (auto simp: wake_words_def)
    moreover have "?pf \<in> wake_words q T" "?rs \<in> wake_words q T" by (simp_all add: wake_words_def)
    ultimately have "a \<notin> queue_words (x # xs) q" "a \<notin> queue_words (x # rq p) ?qp" "a \<noteq> ?st" "a \<noteq> ?pf" "a \<noteq> ?rs"
      using a by auto
    then show "mem s5 a = mem s a" using touches_mem [OF t1] touches_mem [OF s3(2)] by (simp add: m5 m2)
  qed
  ultimately show ?thesis using run w5 dead by blast
qed


section \<open>Waking a whole queue\<close>

definition woken :: "(u32 \<Rightarrow> u32) \<Rightarrow> u32 list \<Rightarrow> (nat \<Rightarrow> u32 list) \<Rightarrow> nat \<Rightarrow> u32 list" where
  "woken m xs rq i = rq i @ filter (\<lambda>x. prio_of m x = int i) xs"

lemma run_wake_loop:
  assumes "wii s" "sched_layout T q" "sched_inv (mem s) q T xs rq" "\<forall>x\<in>set xs. wakeable s x"
    "length xs \<le> n"
  shows "\<exists>s'. run_state (wake_loop n q b) s = (b \<or> xs \<noteq> [], s') \<and> wii s' \<and>
     sched_inv (mem s') q T [] (woken (mem s) xs rq) \<and>
     (\<forall>x\<in>set xs. hi16 (mem s' (x + kThreadStateOffset)) = kThreadStateReady) \<and>
     (\<forall>y\<in>T. prio_of (mem s') y = prio_of (mem s) y \<and>
        (y \<notin> set xs \<longrightarrow> mem s' (y + kThreadStateOffset) = mem s (y + kThreadStateOffset))) \<and>
     (\<forall>a. a \<notin> wake_words q T \<longrightarrow> mem s' a = mem s a)"
  using assms
proof (induction xs arbitrary: s n b rq)
  case Nil
  have w: "woken (mem s) [] rq = rq" by (simp add: woken_def fun_eq_iff)
  have "mem s q = 0" "word_ok q"
    using Nil.prems(3) queue_layoutD(3) [OF sched_layoutD(1) [OF Nil.prems(2)]]
    by (simp_all add: sched_inv_def dlist_def)
  then have "run_state (wake_loop n q b) s = (b, s)"
    using Nil.prems(1) by (cases n) (simp_all add: run_simps)
  then show ?case using Nil.prems w by auto
next
  case (Cons x xs)
  obtain k where n: "n = Suc k" using Cons.prems(5) by (cases n) auto
  let ?p = "nat (prio_of (mem s) x)"
  have wk: "wakeable s x" using Cons.prems(4) by simp
  have d: "thread_queue (mem s) q (x # xs)" "set (x # xs) \<subseteq> T" using Cons.prems(3) by (auto simp: sched_inv_def)
  obtain s1 where s1: "run_state (wake_head q x) s = (True, s1)" "wii s1"
    "sched_inv (mem s1) q T xs (rq(?p := rq ?p @ [x]))"
    "hi16 (mem s1 (x + kThreadStateOffset)) = kThreadStateReady" "fiber_dead s1 = fiber_dead s"
    and keep: "\<And>y f. y \<in> T \<Longrightarrow> f \<in> {kThreadStateOffset, kThreadSuspendOffset, kThreadPriorityOffset} \<Longrightarrow>
        y + f \<noteq> x + kThreadStateOffset \<Longrightarrow> mem s1 (y + f) = mem s (y + f)"
    and frame: "\<And>a. a \<notin> wake_words q T \<Longrightarrow> mem s1 a = mem s a"
    using run_wake_head [OF Cons.prems(1-3) wk] by blast
  have x: "x \<in> T" "x \<noteq> 0" "x \<notin> set xs" using d by (auto simp: dlist_def)
  have ne: "y + f \<noteq> x + kThreadStateOffset"
    if "y \<in> T" "f \<in> queue_fields" "y \<noteq> x \<or> f \<noteq> kThreadStateOffset" for y f
    using queue_field_ne(7) [OF sched_layoutD(1) [OF Cons.prems(2)] that(1,2) x(1), of kThreadStateOffset] that(3)
    by auto
  have pr: "prio_of (mem s1) y = prio_of (mem s) y" if "y \<in> T" for y
    using keep [OF that] ne [OF that] by (simp add: prio_of_def)
  have st: "mem s1 (y + kThreadStateOffset) = mem s (y + kThreadStateOffset)"
    "mem s1 (y + kThreadSuspendOffset) = mem s (y + kThreadSuspendOffset)" if "y \<in> T" "y \<noteq> x" for y
    using keep [OF that(1)] ne [OF that(1)] that(2) by simp_all
  have k: "length xs \<le> k" using Cons.prems(5) n by simp
  have "\<forall>y\<in>set xs. wakeable s1 y"
  proof
    fix y assume y: "y \<in> set xs"
    then have "y \<in> T" "y \<noteq> x" "wakeable s y" using d(2) x(3) Cons.prems(4) by auto
    then show "wakeable s1 y" using st pr s1(5) by (simp add: wakeable_def)
  qed
  then obtain s2 where s2: "run_state (wake_loop k q (b \<or> True)) s1 = ((b \<or> True) \<or> xs \<noteq> [], s2)" "wii s2"
    "sched_inv (mem s2) q T [] (woken (mem s1) xs (rq(?p := rq ?p @ [x])))"
    "\<forall>y\<in>set xs. hi16 (mem s2 (y + kThreadStateOffset)) = kThreadStateReady"
    "\<forall>y\<in>T. prio_of (mem s2) y = prio_of (mem s1) y \<and>
        (y \<notin> set xs \<longrightarrow> mem s2 (y + kThreadStateOffset) = mem s1 (y + kThreadStateOffset))"
    "\<forall>a. a \<notin> wake_words q T \<longrightarrow> mem s2 a = mem s1 a"
    using Cons.IH [OF s1(2) Cons.prems(2) s1(3) _ k, of "b \<or> True"] by blast
  have "woken (mem s1) xs (rq(?p := rq ?p @ [x])) = woken (mem s) (x # xs) rq"
  proof
    fix i
    have "filter (\<lambda>y. prio_of (mem s1) y = int i) xs = filter (\<lambda>y. prio_of (mem s) y = int i) xs"
      by (rule filter_cong) (use pr d(2) in auto)
    moreover have "(prio_of (mem s) x = int i) = (i = ?p)" using wk by (auto simp: wakeable_def)
    ultimately show "woken (mem s1) xs (rq(?p := rq ?p @ [x])) i = woken (mem s) (x # xs) rq i"
      by (simp add: woken_def)
  qed
  moreover have "run_state (wake_loop n q b) s = (b \<or> x # xs \<noteq> [], s2)"
  proof -
    have "mem s q = x" "word_ok q"
      using d(1) queue_layoutD(3) [OF sched_layoutD(1) [OF Cons.prems(2)]] by (simp_all add: dlist_def)
    then show ?thesis
      using Cons.prems(1) s1(1) s2(1) x(2) by (simp add: n run_simps)
  qed
  moreover have "\<forall>y\<in>set (x # xs). hi16 (mem s2 (y + kThreadStateOffset)) = kThreadStateReady"
    using s2(4,5) s1(4) x by auto
  moreover have "\<forall>y\<in>T. prio_of (mem s2) y = prio_of (mem s) y \<and>
      (y \<notin> set (x # xs) \<longrightarrow> mem s2 (y + kThreadStateOffset) = mem s (y + kThreadStateOffset))"
    using s2(5) pr st by auto
  moreover have "\<forall>a. a \<notin> wake_words q T \<longrightarrow> mem s2 a = mem s a"
    using s2(6) frame by simp
  ultimately show ?case using s2(2,3) by metis
qed

text \<open>C9: waking a wait queue of at most 256 live, unsuspended threads loses none of them and
  keeps their order: the wait queue is left empty, each thread is READY and stands, behind the
  threads that were already there, in the run queue of its priority in the order it was waiting,
  every other run queue is unchanged, and bit \<open>31 - i\<close> of the pending mask says exactly whether
  run queue \<open>i\<close> is nonempty.  The result asks for a reschedule exactly if a thread was woken.\<close>

theorem wakeup_moves_all_in_order:
  assumes "wii s" "sched_layout T q" "sched_inv (mem s) q T xs rq" "\<forall>x\<in>set xs. wakeable s x"
    and "length xs \<le> kMaxWake"
  shows "case run_state (wake_loop kMaxWake q False) s of (resched, s') \<Rightarrow>
     resched = (xs \<noteq> []) \<and> fault s' = None \<and>
     thread_queue (mem s') q [] \<and>
     (\<forall>x\<in>set xs. hi16 (mem s' (x + kThreadStateOffset)) = kThreadStateReady) \<and>
     (\<forall>i<32. thread_queue (mem s') (rq_addr i) (rq i @ filter (\<lambda>x. prio_of (mem s) x = int i) xs) \<and>
        bit (mem s' kSchedulerPendingFlagAddr) (31 - i) =
          (rq i \<noteq> [] \<or> (\<exists>x\<in>set xs. prio_of (mem s) x = int i)))"
proof -
  obtain s' where s': "run_state (wake_loop kMaxWake q False) s = (False \<or> xs \<noteq> [], s')" "wii s'"
    "sched_inv (mem s') q T [] (woken (mem s) xs rq)"
    "\<forall>x\<in>set xs. hi16 (mem s' (x + kThreadStateOffset)) = kThreadStateReady"
    using run_wake_loop [OF assms] by blast
  then show ?thesis
    using wii_fault [OF s'(2)]
    by (auto simp: sched_inv_def woken_def filter_empty_conv)
qed


section \<open>Choosing and dispatching the next thread\<close>

lemma clz_unique:
  assumes "i < 32" "bit (v :: u32) (31 - i)" "\<And>j. j < i \<Longrightarrow> \<not> bit v (31 - j)"
  shows "PPC_CntlzwInline v = of_nat i"
proof -
  have v: "v \<noteq> 0" using assms(2) by auto
  note c = builtin_clz_props [OF v]
  have "\<not> builtin_clz v < i" using c(2) assms(3) by blast
  moreover have "\<not> i < builtin_clz v"
  proof
    assume "i < builtin_clz v"
    then have "31 - builtin_clz v < 31 - i" "31 - i < 32" using c(1) by linarith+
    then show False using c(3) assms(2) by blast
  qed
  ultimately show ?thesis using v by (simp add: PPC_CntlzwInline_def)
qed

lemma rq_addr_of_nat: "kThreadQueueArrayAddr + of_nat i * 8 = rq_addr i"
  by (simp add: rq_addr_def)

definition runnable :: "os_machine \<Rightarrow> u32 \<Rightarrow> bool" where
  "runnable s x \<longleftrightarrow> \<not> ThreadStateIsTerminated (hi16 (mem s (x + kThreadStateOffset))) \<and> \<not> fiber_dead s x"

lemma run_find_next:
  assumes "wii s" and L: "sched_layout T q" and inv: "sched_inv (mem s) q T xs rq"
    and i: "i < 32" "rq i = x # ys" "\<forall>j<i. rq j = []" and x: "runnable s x" and f: "0 < fuel"
  shows "run_state (find_next_thread fuel (mem s kSchedulerPendingFlagAddr)) s =
    (Some (mem s kSchedulerPendingFlagAddr, of_nat i, x), s)"
proof -
  have I: "thread_queue (mem s) (rq_addr i) (x # ys)" "x \<in> T"
    "\<And>j. j < 32 \<Longrightarrow> bit (mem s kSchedulerPendingFlagAddr) (31 - j) = (rq j \<noteq> [])"
    using inv i by (auto simp: sched_inv_def)
  have clz: "PPC_CntlzwInline (mem s kSchedulerPendingFlagAddr) = of_nat i"
    by (rule clz_unique) (use i I(3) in auto)
  obtain n where n: "fuel = Suc n" using f by (cases fuel) auto
  have "mem s (rq_addr i) = x" "x \<noteq> 0" using I(1) by (auto simp: dlist_def)
  then show ?thesis
    using assms(1) x rq_addr_ok [OF i(1)] sched_layoutD(5) [OF L I(2), of kThreadStateOffset]
    by (simp add: find_next_thread_def n run_simps clz rq_addr_of_nat runnable_def Let_def)
qed

text \<open>The mode flags are the lower half-word of the word at 0x1A0.\<close>

lemma mode_halfword:
  assumes "word_ok (c + 0x1A0)"
  shows "wii s \<Longrightarrow> run_state (Read16 (c + 0x1A2)) s = (lo16 (mem s (c + 0x1A0)), s)"
    "wii s \<Longrightarrow> run_state (Write16 (c + 0x1A2) h) s = ((), wr16 (c + 0x1A2) h s)"
    "mem (wr16 (c + 0x1A2) h s) = (mem s)(c + 0x1A0 := set_lo16 h (mem s (c + 0x1A0)))"
  using run_read16(2) [of s "c + 0x1A0"] run_write16_lo [of s "c + 0x1A0" h] mem_wr16(2) [of "c + 0x1A0" h s]
    assms by (simp_all add: add.assoc)

lemma run_set_current_context:
  assumes "wii s" "c \<noteq> 0" "word_ok (c + 0x19C)" "word_ok (c + 0x1A0)"
    and "c + 0x19C \<noteq> kOSCurrentContextAddr" "c + 0x1A0 \<noteq> kOSCurrentContextAddr"
  shows "\<exists>s'. run_state (OS__SetCurrentContext c) s = ((), s') \<and> wii s' \<and> mem s' kOSCurrentContextAddr = c \<and>
    touches {kOSPhysicalContextAddr, kOSCurrentContextAddr, c + 0x19C, c + 0x1A0} s s'"
proof -
  have ok: "word_ok kOSPhysicalContextAddr" "word_ok kOSCurrentContextAddr" "word_ok kOSExceptionContextAddr"
    by (simp_all add: sched_words_ok sched_words_def)
  have ne: "kOSPhysicalContextAddr \<noteq> kOSCurrentContextAddr" by (simp add: kernel_words)
  define s1 where "s1 = wr32 kOSCurrentContextAddr c (wr32 kOSPhysicalContextAddr (c AND 0x3fffffff) s)"
  define v where "v = (if mem s1 kOSExceptionContextAddr = c then mem s1 (c + 0x19C) OR 0x2000
     else mem s1 (c + 0x19C) AND NOT 0x2000)"
  define s2 where "s2 = wr32 (c + 0x19C) v s1"
  define h where "h = (if interrupts_enabled s2 then lo16 (mem s2 (c + 0x1A0)) OR 2
     else lo16 (mem s2 (c + 0x1A0)) AND NOT 2)"
  define s3 where "s3 = wr16 (c + 0x1A2) h s2"
  have w: "wii s1" "wii s2" "wii s3" using assms(1) by (simp_all add: s1_def s2_def s3_def)
  have "run_state (OS__SetCurrentContext c) s = ((), s3)"
    unfolding OS__SetCurrentContext_def
    apply (rule run_try_catch [OF wii_fault [OF assms(1)] _ wii_fault [OF w(3)]])
    using assms(1-4) ok w
    by (simp add: run_simps mode_halfword [OF assms(4)] s1_def s2_def s3_def v_def h_def)
  moreover have "mem s3 kOSCurrentContextAddr = c"
    using assms(3-6) ok ne by (simp add: mode_halfword(3) [OF assms(4)] s3_def s2_def s1_def)
  moreover have "touches {kOSPhysicalContextAddr, kOSCurrentContextAddr, c + 0x19C, c + 0x1A0} s s3"
    using assms(3,4) ok
    by (simp add: mode_halfword(3) [OF assms(4)] touches_def s1_def s2_def s3_def)
  ultimately show ?thesis using w by blast
qed


lemma dispatch_memory:
  fixes s :: os_machine
  assumes w: "wii s" and L: "sched_layout T q" and inv: "sched_inv (mem s) q T xs rq"
    and i: "i < 32" "rq i = x # ys" and cb: "mem s kSwitchThreadCallbackPtrAddr = 0"
  shows "\<exists>s'. run_state (dispatch_thread W run (mem s kSchedulerPendingFlagAddr, of_nat i, x)) s = ((), s') \<and>
     wii s' \<and> mem s' kOSCurrentContextAddr = x \<and> mem s' kOSRunningContextAddr = x \<and>
     thread_queue (mem s') (rq_addr i) ys \<and>
     hi16 (mem s' (x + kThreadStateOffset)) = kThreadStateRunning \<and> mem s' (x + kThreadQueueOffset) = 0 \<and>
     mem s' kSchedulerPendingFlagAddr = (if ys = [] then mem s kSchedulerPendingFlagAddr AND NOT (push_bit (31 - i) 1)
        else mem s kSchedulerPendingFlagAddr) \<and>
     (\<forall>a. a \<notin> list_words (x # ys) kThreadNextOffset kThreadPrevOffset (rq_addr i) (rq_addr i + 4) \<longrightarrow>
        a \<notin> sched_words \<longrightarrow> a \<notin> {x + kThreadQueueOffset, x + kThreadStateOffset, x + 0x19C, x + 0x1A0} \<longrightarrow>
        mem s' a = mem s a)"
proof -
  let ?pf = kSchedulerPendingFlagAddr and ?q = "rq_addr i"
  have "thread_queue (mem s) ?q (rq i)" "set (rq i) \<subseteq> T"
    using inv i(1) by (simp_all add: sched_inv_def)
  then have I: "thread_queue (mem s) ?q (x # ys)" "set (x # ys) \<subseteq> T" "x \<in> T"
    unfolding i(2) by simp_all
  have x0: "x \<noteq> 0" using I(3) sched_layoutD(3) [OF L] by auto
  have lay: "queue_layout ?q (set (x # ys))" using sched_layoutD(2) [OF L i(1)] I(2) by (rule queue_layout_mono)
  have ok: "word_ok (x + f)" if "f \<in> queue_fields" for f using sched_layoutD(5) [OF L I(3) that] .
  have sw: "word_ok a" if "a \<in> sched_words" for a using that by (rule sched_words_ok)
  have xf: "x + f \<noteq> a" if "f \<in> queue_fields" "a \<in> sched_words" for f a
    using sched_layoutD(4) [OF L I(3) that(1)] that(2) by auto
  have xf': "a \<noteq> x + f" if "f \<in> queue_fields" "a \<in> sched_words" for f a
    using xf [OF that] by (rule not_sym)
  have in_sw: "?pf \<in> sched_words" "kOSRunningContextAddr \<in> sched_words" "kOSCurrentContextAddr \<in> sched_words"
    "kOSPhysicalContextAddr \<in> sched_words" "kSwitchThreadCallbackPtrAddr \<in> sched_words"
    by (simp_all add: sched_words_def)
  obtain s1 where s1: "run_state (PopThreadQueueHead ?q x) s = (head_or 0 ys, s1)"
    "touches (list_words (x # ys) kThreadNextOffset kThreadPrevOffset ?q (?q + 4)) s s1"
    "thread_queue (mem s1) ?q ys"
    using run_pop_head [OF w I(1) lay] by blast
  have safe: "a \<notin> list_words (x # ys) kThreadNextOffset kThreadPrevOffset ?q (?q + 4)" if "a \<in> sched_words" for a
    using sched_queue_safe(1) [OF L _ I(2), of ?q a] that i(1) by auto
  have m1: "mem s1 a = mem s a" if "a \<in> sched_words" for a
    using touches_mem [OF s1(2) safe [OF that]] .
  have y0: "(head_or 0 ys = 0) = (ys = [])"
    by (rule head_or_eq_0) (use I(1) in \<open>auto simp: dlist_def\<close>)
  define s2 where "s2 = (if ys = [] then wr32 ?pf (mem s ?pf AND NOT (push_bit (31 - i) 1)) s1 else s1)"
  define s3 where "s3 = wr32 (x + kThreadQueueOffset) 0 s2"
  define s4 where "s4 = wr16 (x + kThreadStateOffset) kThreadStateRunning s3"
  define s5 where "s5 = wr32 kOSRunningContextAddr x s4"
  have ws: "wii s1" "wii s2" "wii s3" "wii s4" "wii s5"
    using touches_wii [OF s1(2) w] by (simp_all add: s2_def s3_def s4_def s5_def)
  have m5: "mem s5 = (mem s2)(x + kThreadQueueOffset := 0,
      x + kThreadStateOffset := set_hi16 kThreadStateRunning (mem s2 (x + kThreadStateOffset)),
      kOSRunningContextAddr := x)"
    using ok sw in_sw by (simp add: s5_def s4_def s3_def)
  have m2: "mem s2 = (mem s1)(?pf := if ys = [] then mem s ?pf AND NOT (push_bit (31 - i) 1) else mem s ?pf)"
    using sw in_sw m1 [OF in_sw(1)] by (auto simp: s2_def fun_eq_iff)
  obtain s6 where s6: "run_state (OS__SetCurrentContext x) s5 = ((), s6)" "wii s6"
    "mem s6 kOSCurrentContextAddr = x"
    "touches {kOSPhysicalContextAddr, kOSCurrentContextAddr, x + 0x19C, x + 0x1A0} s5 s6"
    using run_set_current_context [OF ws(5) x0] ok xf in_sw by (metis queue_fieldsI(11,12))
  have cb4: "mem s4 kSwitchThreadCallbackPtrAddr = 0"
    using cb m1 [OF in_sw(5)] xf in_sw ok sw
    by (simp add: s4_def s3_def m2 kernel_words)
  have tcb: "run_state (TryInvokeSwitchCallback W run x) s4 = ((), s4)"
    unfolding TryInvokeSwitchCallback_def
    by (rule run_try_catch) (use ws cb4 sw in_sw wii_fault in \<open>simp_all add: run_simps\<close>)
  have un: "uint (of_nat i :: u32) = int i"
    using i(1) by (simp add: uint_nat unat_of_nat)
  have r2: "run_state (whenM (head_or 0 ys = 0) (Write32 ?pf
      (mem s ?pf AND NOT (push_bit (nat (31 - uint (of_nat i :: u32))) 1)))) s1 = ((), s2)"
    using ws(1) sw in_sw i(1) y0 by (simp add: run_simps un nat_diff_distrib s2_def)
  have r3: "run_state (Write32 (x + kThreadQueueOffset) 0) s2 = ((), s3)"
    "run_state (Write16 (x + kThreadStateOffset) kThreadStateRunning) s3 = ((), s4)"
    "run_state (Write32 kOSRunningContextAddr x) s4 = ((), s5)"
    using ws ok sw in_sw by (simp_all add: run_simps s3_def s4_def s5_def)
  have run: "run_state (dispatch_thread W run (mem s ?pf, of_nat i, x)) s = ((), s6)"
    unfolding dispatch_thread_def prod.case rq_addr_of_nat
    by (simp only: run_bind s1(1) r2 r3 tcb s6(1) prod.case)
  have m6: "mem s6 a = mem s5 a" if "a \<notin> {kOSPhysicalContextAddr, kOSCurrentContextAddr, x + 0x19C, x + 0x1A0}" for a
    using touches_mem [OF s6(4) that] .
  have ne: "kOSRunningContextAddr \<noteq> kOSPhysicalContextAddr" "kOSRunningContextAddr \<noteq> kOSCurrentContextAddr"
    "?pf \<noteq> kOSPhysicalContextAddr" "?pf \<noteq> kOSCurrentContextAddr" "?pf \<noteq> kOSRunningContextAddr"
    by (simp_all add: kernel_words)
  have fne: "kThreadStateOffset \<noteq> 0x19C" "kThreadStateOffset \<noteq> 0x1A0" "kThreadQueueOffset \<noteq> 0x19C"
    "kThreadQueueOffset \<noteq> 0x1A0" "kThreadQueueOffset \<noteq> kThreadStateOffset" by (simp_all add: thread_offsets)
  have xne: "x + kThreadStateOffset \<notin> {kOSPhysicalContextAddr, kOSCurrentContextAddr, x + 0x19C, x + 0x1A0}"
    "x + kThreadQueueOffset \<notin> {kOSPhysicalContextAddr, kOSCurrentContextAddr, x + 0x19C, x + 0x1A0}"
    using xf in_sw fne by simp_all
  have frame: "mem s6 a = mem s1 a"
    if "a \<notin> sched_words" "a \<notin> {x + kThreadQueueOffset, x + kThreadStateOffset, x + 0x19C, x + 0x1A0}" for a
  proof -
    have "a \<noteq> kOSPhysicalContextAddr" "a \<noteq> kOSCurrentContextAddr" "a \<noteq> kOSRunningContextAddr" "a \<noteq> ?pf"
      using that(1) in_sw by auto
    then show ?thesis using m6 [of a] that(2) by (simp add: m5 m2)
  qed
  have "thread_queue (mem s6) ?q ys = thread_queue (mem s1) ?q ys"
  proof (rule thread_queue_frame)
    fix a assume a: "a \<in> list_words ys kThreadNextOffset kThreadPrevOffset ?q (?q + 4)"
    have sub: "set ys \<subseteq> T" using I(2) by auto
    note S = sched_queue_safe [OF L _ sub a]
    have "a \<noteq> x + f" if "f \<in> queue_fields - {kThreadNextOffset, kThreadPrevOffset}" for f
      by (rule S(2)) (use that I(3) i(1) in auto)
    moreover have "0x19C \<in> queue_fields - {kThreadNextOffset, kThreadPrevOffset}"
      "0x1A0 \<in> queue_fields - {kThreadNextOffset, kThreadPrevOffset}" by (simp_all add: thread_offsets queue_fields_def)
    ultimately show "mem s6 a = mem s1 a"
      using S(1) i(1) by (intro frame) auto
  qed
  moreover have "mem s6 kOSRunningContextAddr = x" using m6 [of kOSRunningContextAddr] xf' in_sw ne by (simp add: m5)
  moreover have "hi16 (mem s6 (x + kThreadStateOffset)) = kThreadStateRunning"
    using m6 [OF xne(1)] xf [of kThreadStateOffset] in_sw by (simp add: m5)
  moreover have "mem s6 (x + kThreadQueueOffset) = 0"
    using m6 [OF xne(2)] xf [of kThreadQueueOffset] in_sw fne by (simp add: m5)
  moreover have "mem s6 ?pf = (if ys = [] then mem s ?pf AND NOT (push_bit (31 - i) 1) else mem s ?pf)"
    using m6 [of ?pf] xf' in_sw ne by (simp add: m5 m2)
  moreover have "mem s6 a = mem s a"
    if "a \<notin> list_words (x # ys) kThreadNextOffset kThreadPrevOffset ?q (?q + 4)" "a \<notin> sched_words"
      "a \<notin> {x + kThreadQueueOffset, x + kThreadStateOffset, x + 0x19C, x + 0x1A0}" for a
    using frame [OF that(2,3)] touches_mem [OF s1(2) that(1)] by simp
  ultimately show ?thesis using run s6(2,3) s1(3) by blast
qed


text \<open>C2: with the 32 run queues well formed and their pending bits exact, the scheduler picks
  and dispatches the head of the first nonempty run queue, that is, the longest-waiting thread
  of the smallest priority value: it leaves its queue, all other queues and the wait queue stay
  as they are, the pending bits stay exact, the thread is RUNNING, on no queue, and named by
  both the running and the current context word.\<close>

theorem dispatch_picks_highest_priority:
  assumes w: "wii s" and L: "sched_layout T q" and inv: "sched_inv (mem s) q T xs rq"
    and i: "i < 32" "rq i = x # ys" "\<forall>j<i. rq j = []" and x: "runnable s x" and f: "0 < fuel"
    and cb: "mem s kSwitchThreadCallbackPtrAddr = 0"
  shows "case run_state (find_next_thread fuel (mem s kSchedulerPendingFlagAddr) \<bind>
      (\<lambda>r. case r of None \<Rightarrow> State_Monad.return () | Some n \<Rightarrow> dispatch_thread W run n)) s of (u, s') \<Rightarrow>
     fault s' = None \<and> sched_inv (mem s') q T xs (rq(i := ys)) \<and>
     hi16 (mem s' (x + kThreadStateOffset)) = kThreadStateRunning \<and> mem s' (x + kThreadQueueOffset) = 0 \<and>
     mem s' kOSRunningContextAddr = x \<and> mem s' kOSCurrentContextAddr = x"
proof -
  let ?pf = kSchedulerPendingFlagAddr
  have I: "thread_queue (mem s) q xs" "set xs \<subseteq> T" 
    "\<And>j. j < 32 \<Longrightarrow> thread_queue (mem s) (rq_addr j) (rq j)" "\<And>j. j < 32 \<Longrightarrow> set (rq j) \<subseteq> T"
    "\<And>j. j < 32 \<Longrightarrow> set xs \<inter> set (rq j) = {}"
    "\<And>j. j < 32 \<Longrightarrow> bit (mem s ?pf) (31 - j) = (rq j \<noteq> [])"
    "\<And>j k. j < 32 \<Longrightarrow> k < 32 \<Longrightarrow> j \<noteq> k \<Longrightarrow> set (rq j) \<inter> set (rq k) = {}"
    using inv by (simp_all add: sched_inv_def)
  have xT: "x \<in> T" "set (x # ys) \<subseteq> T" using I(4) [OF i(1)] i(2) by auto
  obtain s' where s': "run_state (dispatch_thread W run (mem s ?pf, of_nat i, x)) s = ((), s')"
     "wii s'" "mem s' kOSCurrentContextAddr = x" "mem s' kOSRunningContextAddr = x"
     "thread_queue (mem s') (rq_addr i) ys"
     "hi16 (mem s' (x + kThreadStateOffset)) = kThreadStateRunning" "mem s' (x + kThreadQueueOffset) = 0"
     "mem s' ?pf = (if ys = [] then mem s ?pf AND NOT (push_bit (31 - i) 1) else mem s ?pf)"
    and frame: "\<And>a. a \<notin> list_words (x # ys) kThreadNextOffset kThreadPrevOffset (rq_addr i) (rq_addr i + 4) \<Longrightarrow>
        a \<notin> sched_words \<Longrightarrow> a \<notin> {x + kThreadQueueOffset, x + kThreadStateOffset, x + 0x19C, x + 0x1A0} \<Longrightarrow>
        mem s' a = mem s a"
    using dispatch_memory [OF w L inv i(1,2) cb] by blast
  have other: "thread_queue (mem s') qb bs"
    if b: "sched_queue q qb" "qb \<noteq> rq_addr i" "set bs \<subseteq> T" "set (x # ys) \<inter> set bs = {}"
      "thread_queue (mem s) qb bs" for qb bs
  proof -
    have "mem s' a = mem s a" if a: "a \<in> list_words bs kThreadNextOffset kThreadPrevOffset qb (qb + 4)" for a
    proof (rule frame)
      note S = sched_queue_safe [OF L b(1) b(3) a]
      show "a \<notin> list_words (x # ys) kThreadNextOffset kThreadPrevOffset (rq_addr i) (rq_addr i + 4)"
        using S(3) [of "rq_addr i" "x # ys"] i(1) b(2,4) xT(2) list_words_sub_queue_words by auto
      show "a \<notin> sched_words" by (rule S(1))
      have "a \<noteq> x + f" if "f \<in> queue_fields - {kThreadNextOffset, kThreadPrevOffset}" for f
        using S(2) xT(1) that by blast
      moreover have "0x19C \<in> queue_fields - {kThreadNextOffset, kThreadPrevOffset}"
        "0x1A0 \<in> queue_fields - {kThreadNextOffset, kThreadPrevOffset}" by (simp_all add: thread_offsets queue_fields_def)
      ultimately show "a \<notin> {x + kThreadQueueOffset, x + kThreadStateOffset, x + 0x19C, x + 0x1A0}" by simp
    qed
    then show ?thesis using thread_queue_frame [of bs qb "mem s'" "mem s"] b(5) by blast
  qed
  have q_ne: "q \<noteq> rq_addr i"
    using L rq_slotsI(1) [OF i(1)] by (auto simp: sched_layout_def)
  have "sched_inv (mem s') q T xs (rq(i := ys))"
    unfolding sched_inv_def
  proof (intro conjI allI impI)
    show "thread_queue (mem s') q xs"
      by (rule other) (use q_ne I(1,2) I(5) [OF i(1)] i(2) in auto)
    show "set xs \<subseteq> T" by (rule I(2))
    fix j :: nat
    assume j: "j < 32"
    show "thread_queue (mem s') (rq_addr j) ((rq(i := ys)) j)"
    proof (cases "j = i")
      case False
      then have "rq_addr j \<noteq> rq_addr i" using rq_addr_eq(1) [OF j i(1)] by simp
      moreover have "set (x # ys) \<inter> set (rq j) = {}" using I(7) [OF i(1) j] False i(2) by auto
      ultimately show ?thesis using other [of "rq_addr j" "rq j"] j I(3) [OF j] I(4) [OF j] False by simp
    qed (use s'(5) in simp)
    show "set ((rq(i := ys)) j) \<subseteq> T" using I(4) [OF j] xT by auto
    show "set xs \<inter> set ((rq(i := ys)) j) = {}" using I(5) [OF j] i(2) by auto
    show "bit (mem s' ?pf) (31 - j) = ((rq(i := ys)) j \<noteq> [])"
      using I(6) [OF j] j i(1,2) by (auto simp: s'(8) bit_simps)
    fix k :: nat
    assume k: "k < 32" "j \<noteq> k"
    show "set ((rq(i := ys)) j) \<inter> set ((rq(i := ys)) k) = {}"
      using I(7) [OF j k] i(2) by (auto split: if_splits)
  qed
  then show ?thesis
    using run_find_next [OF w L inv i x f] s' wii_fault [OF s'(2)] by (simp add: run_simps)
qed


section \<open>A concrete machine\<close>

text \<open>Two waiting threads, of priorities 8 and 16, on a wait queue; all run queues empty.\<close>

definition boot_os :: os_machine where
  "boot_os = \<lparr>regions = WiiDefaults, bytes = (\<lambda>_. 0), gather_pipe = [], fault = None,
     cpu = zero_cpu, reservation = None, interrupts_enabled = True,
     fibers = Map.empty, fibers_initialized = False, current_guest_thread = 0,
     current_host = SchedulerFiber, host_clock = (\<lambda>_. 0), alarm_depth = 0, sleep_timers = [],
     outstanding_parks = [], strand_scan_due = 0, strand_first_seen = []\<rparr>"

definition demo_os :: os_machine where
  "demo_os =
     wr32 0x80402000 0x80401000 (wr32 0x80402004 0x80400000
     (wr32 0x804012E0 0x80400000 (wr32 0x804002E4 0x80401000
     (wr32 0x804012D0 8 (wr32 0x804002D0 16
     (wr32 0x804012C8 0x00040000 (wr32 0x804002C8 0x00040000 boot_os)))))))"

definition demo_mem :: "u32 \<Rightarrow> u32" where
  "demo_mem = (\<lambda>_. 0)(0x804002C8 := 0x40000, 0x804012C8 := 0x40000, 0x804002D0 := 16, 0x804012D0 := 8,
     0x804002E4 := 0x80401000, 0x804012E0 := 0x80400000, 0x80402004 := 0x80400000, 0x80402000 := 0x80401000)"

lemma demo_os_facts: "wii demo_os" "mem demo_os = demo_mem" "fiber_dead demo_os x = False"
proof -
  have b: "mem boot_os = (\<lambda>_. 0)" "wii boot_os"
    by (simp_all add: fun_eq_iff mem_def rd32_def boot_os_def be_word32_def wii_def)
  show "wii demo_os" by (simp add: demo_os_def b)
  show "mem demo_os = demo_mem" by (simp add: demo_os_def demo_mem_def b layout_eval)
  show "fiber_dead demo_os x = False" by (simp add: demo_os_def boot_os_def fiber_dead_def wr32_def)
qed

lemma rq_slot_range: "a \<in> rq_slots \<Longrightarrow> 2150922160 \<le> unat a \<and> unat a < 2150922416"
  by (auto simp: rq_slots_def unat_rq_addr)

lemma rq_slot_zero: "i < 32 \<Longrightarrow> demo_mem (rq_addr i) = 0" "i < 32 \<Longrightarrow> demo_mem (rq_addr i + 4) = 0"
  by (simp_all add: demo_mem_def word_unat_eq_iff unat_rq_addr)

lemma demo_layout: "sched_layout {0x80400000, 0x80401000} 0x80402000"
proof -
  have ns: "0x80402000 \<notin> rq_slots" "0x80402004 \<notin> rq_slots" using rq_slot_range by force+
  have "layout {0x80400000, 0x80401000} queue_fields (sched_words \<union> rq_slots \<union> {0x80402000, 0x80402000 + 4})"
  proof (rule layout_spaced [OF queue_fields_bounds])
    show "\<forall>g\<in>sched_words \<union> rq_slots \<union> {0x80402000, 0x80402000 + 4}. word_ok g \<and>
        (\<forall>x\<in>{0x80400000 :: u32, 0x80401000}. unat g < unat x \<or> unat x + 792 \<le> unat g)"
    proof
      fix g :: u32
      assume "g \<in> sched_words \<union> rq_slots \<union> {0x80402000, 0x80402000 + 4}"
      then consider "g \<in> sched_words" | "g \<in> rq_slots" | "g = 0x80402000" | "g = 0x80402004" by auto
      then show "word_ok g \<and> (\<forall>x\<in>{0x80400000 :: u32, 0x80401000}. unat g < unat x \<or> unat x + 792 \<le> unat g)"
      proof cases
        case 1
        then show ?thesis by (auto simp: sched_words_def layout_eval)
      next
        case 2
        then have "word_ok g" by (auto simp: rq_slots_def rq_addr_ok)
        then show ?thesis using rq_slot_range [OF 2] by simp
      qed (simp_all add: layout_eval)
    qed
  qed simp_all
  then show ?thesis using ns by (simp add: sched_layout_def sched_words_def kernel_words)
qed

lemma demo_inv: "sched_inv demo_mem 0x80402000 {0x80400000, 0x80401000} [0x80401000, 0x80400000] (\<lambda>_. [])"
  unfolding sched_inv_def
  by (auto simp: dlist_def rq_slot_zero) (simp_all add: demo_mem_def thread_offsets kernel_words)

lemma wakeup_moves_all_in_order_witness:
  "case run_state (wake_loop kMaxWake 0x80402000 False) demo_os of (resched, s') \<Rightarrow>
     resched \<and> thread_queue (mem s') (rq_addr 8) [0x80401000] \<and> thread_queue (mem s') (rq_addr 16) [0x80400000]"
proof -
  have wk: "\<forall>x\<in>set [0x80401000, 0x80400000]. wakeable demo_os x"
    by (simp add: wakeable_def demo_os_facts demo_mem_def prio_of_def thread_offsets hi16_def
        ThreadStateIsTerminated_def kThreadStateMoribund_def)
  have l: "length [0x80401000 :: u32, 0x80400000] \<le> kMaxWake" by (simp add: kMaxWake_def)
  have pr: "prio_of demo_mem 0x80401000 = 8" "prio_of demo_mem 0x80400000 = 16"
    by (simp_all add: demo_mem_def prio_of_def thread_offsets)
  note W = wakeup_moves_all_in_order [OF demo_os_facts(1) demo_layout demo_inv [folded demo_os_facts(2)] wk l]
  obtain r s' where rs: "run_state (wake_loop kMaxWake 0x80402000 False) demo_os = (r, s')" by fastforce
  have f: "filter (\<lambda>x. prio_of demo_mem x = 8) [0x80401000, 0x80400000] = [0x80401000]"
    "filter (\<lambda>x. prio_of demo_mem x = 16) [0x80401000, 0x80400000] = [0x80400000]"
    using pr by simp_all
  from W have r: "r" and q: "\<And>i. i < 32 \<Longrightarrow> thread_queue (mem s') (rq_addr i)
      ([] @ filter (\<lambda>x. prio_of demo_mem x = int i) [0x80401000, 0x80400000])"
    unfolding rs demo_os_facts(2) prod.case by blast+
  show ?thesis using r q [of 8] q [of 16] by (simp only: rs prod.case) (simp add: f del: filter.simps)
qed

text \<open>One READY thread on run queue 8.\<close>

definition demo_ready :: os_machine where
  "demo_ready =
     wr32 0x803477F0 0x80401000 (wr32 0x803477F4 0x80401000
     (wr32 0x804012DC 0x803477F0 (wr32 0x804012D0 8
     (wr32 0x804012C8 0x00010000 (wr32 0x80386920 0x00800000 boot_os)))))"

definition ready_mem :: "u32 \<Rightarrow> u32" where
  "ready_mem = (\<lambda>_. 0)(0x80386920 := 0x00800000, 0x804012C8 := 0x10000, 0x804012D0 := 8,
     0x804012DC := 0x803477F0, 0x803477F4 := 0x80401000, 0x803477F0 := 0x80401000)"

lemma demo_ready_facts: "wii demo_ready" "mem demo_ready = ready_mem" "fiber_dead demo_ready x = False"
proof -
  have b: "mem boot_os = (\<lambda>_. 0)" "wii boot_os"
    by (simp_all add: fun_eq_iff mem_def rd32_def boot_os_def be_word32_def wii_def)
  show "wii demo_ready" by (simp add: demo_ready_def b)
  show "mem demo_ready = ready_mem" by (simp add: demo_ready_def ready_mem_def b layout_eval)
  show "fiber_dead demo_ready x = False" by (simp add: demo_ready_def boot_os_def fiber_dead_def wr32_def)
qed

lemma ready_inv: "sched_inv ready_mem 0x80402000 {0x80400000, 0x80401000} [] ((\<lambda>_. [])(8 := [0x80401000]))"
proof -
  have z: "ready_mem (rq_addr i) = (if i = 8 then 0x80401000 else 0)"
    "ready_mem (rq_addr i + 4) = (if i = 8 then 0x80401000 else 0)" if "i < 32" for i
    using that by (auto simp: ready_mem_def word_unat_eq_iff unat_rq_addr)
  have pf: "ready_mem kSchedulerPendingFlagAddr = push_bit 23 1" by (simp add: ready_mem_def kernel_words)
  have bits: "bit (ready_mem kSchedulerPendingFlagAddr) (31 - i) = (i = 8)" if "i < 32" for i
  proof -
    have "bit (push_bit 23 1 :: u32) (31 - i) = (31 - i = 23)"
      using that by (auto simp: bit_push_bit_iff bit_1_iff simp del: push_bit_of_1)
    then show ?thesis using that pf by auto
  qed
  show ?thesis
    unfolding sched_inv_def
    by (auto simp: dlist_def z bits) (simp_all add: ready_mem_def thread_offsets)
qed

lemma dispatch_picks_highest_priority_witness:
  "case run_state (find_next_thread 1 (mem demo_ready kSchedulerPendingFlagAddr) \<bind>
      (\<lambda>r. case r of None \<Rightarrow> State_Monad.return () | Some n \<Rightarrow> dispatch_thread undefined 0 n)) demo_ready of (u, s') \<Rightarrow>
     mem s' kOSRunningContextAddr = 0x80401000"
proof -
  have x: "runnable demo_ready 0x80401000"
    by (simp add: runnable_def demo_ready_facts ready_mem_def thread_offsets hi16_def
        ThreadStateIsTerminated_def kThreadStateMoribund_def)
  have cb: "mem demo_ready kSwitchThreadCallbackPtrAddr = 0"
    by (simp add: demo_ready_facts ready_mem_def kernel_words)
  show ?thesis
    using dispatch_picks_highest_priority [OF demo_ready_facts(1) demo_layout ready_inv [folded demo_ready_facts(2)]
        _ _ _ x _ cb, of 8 "[]" 1 undefined 0]
    by (simp split: prod.splits)
qed

end
