(* ===== verification/OsWakeup.thy ===== *)
theory OsWakeup
  imports OsRunQueue
begin

unbundle bit_operations_syntax

text \<open>
  What the calls of the OS share: calls that leave the kernel, the interrupt bracket
  (\<open>OS__DisableInterrupts\<close>, \<open>OS__RestoreInterrupts\<close>) and \<open>OSWakeupThread\<close> on a queue nobody waits on.
\<close>

section \<open>Calls that leave the kernel\<close>

text \<open>Code outside these files runs only while no exception is in flight.\<close>

definition unless_fault :: "'a \<Rightarrow> ('z, 'a) guest \<Rightarrow> ('z, 'a) guest" where
  "unless_fault d m = State (\<lambda>s. if fault s \<noteq> None then (d, s) else run_state m s)"

definition InvokeIndirectCpu :: "world \<Rightarrow> u32 \<Rightarrow> unit os" where
  "InvokeIndirectCpu W target = unless_fault () (invoke W target)"

section \<open>The interrupt bracket\<close>

lemma wr_host [simp]:
  "cpu (wr32 a v s) = cpu s" "interrupts_enabled (wr32 a v s) = interrupts_enabled s"
  "cpu (wr16 a h s) = cpu s" "interrupts_enabled (wr16 a h s) = interrupts_enabled s"
  "machine.more (wr32 a v s) = machine.more s" "machine.more (wr16 a h s) = machine.more s"
  by (simp_all add: wr32_def wr16_def)

lemma run_exchange_interrupts:
  assumes "wii s" "mem s kOSCurrentContextAddr = c" "c = 0 \<or> word_ok (c + 0x1A0)"
  shows "\<exists>s'. run_state (exchange_interrupts v) s = (if interrupts_enabled s then 1 else 0, s') \<and>
    wii s' \<and> interrupts_enabled s' = v \<and> cpu s' = cpu s \<and> machine.more s' = machine.more s \<and>
    (\<forall>a. a \<noteq> c + 0x1A0 \<longrightarrow> mem s' a = mem s a)"
proof -
  define s1 where "s1 = interrupts_enabled_update (\<lambda>_. v) s"
  have s1: "wii s1" "mem s1 = mem s" "interrupts_enabled s1 = v" "cpu s1 = cpu s"
    "machine.more s1 = machine.more s"
    using assms(1) mem_cong [of s1 s] by (simp_all add: s1_def wii_def)
  have ok: "word_ok kOSCurrentContextAddr" by (simp add: kernel_words word_ok_def cached_def)
  have fast: "full_page WiiDefaults kOSCurrentContextAddr" using full_page_low by (simp add: kernel_words)
  have "\<exists>s'. run_state (UpdateCurrentContextInterruptFlag v) s1 = ((), s') \<and> wii s' \<and>
      interrupts_enabled s' = v \<and> cpu s' = cpu s \<and> machine.more s' = machine.more s \<and>
      (\<forall>a. a \<noteq> c + 0x1A0 \<longrightarrow> mem s' a = mem s a)"
  proof (cases "c = 0")
    case True
    then have "run_state (UpdateCurrentContextInterruptFlag v) s1 = ((), s1)"
      using s1 ok fast assms(2) by (simp add: UpdateCurrentContextInterruptFlag_def run_simps)
    with s1 show ?thesis by auto
  next
    case False
    then have c: "word_ok (c + 0x1A0)" using assms(3) by simp
    have e: "c + 0x1A2 = c + 0x1A0 + 2" by (simp add: add.assoc)
    show ?thesis
    proof (cases "full_page WiiDefaults (c + 0x1A2)")
      case slow: False
      then have "run_state (TryReadGuestScalar16 (c + 0x1A2)) s1 = (None, s1)"
        unfolding e using s1(1) c by (simp only: run_try_read16_lo if_False)
      then have "run_state (UpdateCurrentContextInterruptFlag v) s1 = ((), s1)"
        using s1 ok fast False assms(2) by (simp add: UpdateCurrentContextInterruptFlag_def run_simps)
      with s1 show ?thesis by auto
    next
    case page: True
    define h where "h = (if v then lo16 (mem s1 (c + 0x1A0)) OR 2 else lo16 (mem s1 (c + 0x1A0)) AND NOT 2)"
    define s2 where "s2 = (if h = lo16 (mem s1 (c + 0x1A0)) then s1 else wr16 (c + 0x1A2) h s1)"
    have rw: "run_state (TryReadGuestScalar16 (c + 0x1A2)) s1 = (Some (lo16 (mem s1 (c + 0x1A0))), s1)"
      "run_state (TryWriteGuestScalar16 (c + 0x1A2) k) s1 = (True, wr16 (c + 0x1A2) k s1)"
      "mem (wr16 (c + 0x1A2) k s1) = (mem s1)(c + 0x1A0 := set_lo16 k (mem s1 (c + 0x1A0)))" for k
      unfolding e using s1(1) c page by (simp_all only: e run_try_read16_lo run_try_write16_lo mem_wr16(2) if_True)
    have "run_state (UpdateCurrentContextInterruptFlag v) s1 = ((), s2)"
      unfolding UpdateCurrentContextInterruptFlag_def
      using s1(1,2) ok fast False assms(2)
      by (cases v) (simp_all add: run_simps rw(1,2) s2_def h_def Let_def)
    moreover have "wii s2" "interrupts_enabled s2 = v" "cpu s2 = cpu s" "machine.more s2 = machine.more s" "\<forall>a. a \<noteq> c + 0x1A0 \<longrightarrow> mem s2 a = mem s a"
      using s1 rw(3) by (auto simp: s2_def)
    ultimately show ?thesis by blast
    qed
  qed
  then obtain s' where "run_state (UpdateCurrentContextInterruptFlag v) s1 = ((), s')" "wii s'"
    "interrupts_enabled s' = v" "cpu s' = cpu s" "machine.more s' = machine.more s"
    "\<forall>a. a \<noteq> c + 0x1A0 \<longrightarrow> mem s' a = mem s a" by blast
  then show ?thesis
    using assms(1) by (intro exI [of _ s'])
      (simp add: exchange_interrupts_def run_simps wii_fault flip: s1_def)
qed

text \<open>A guarded body between the two: what it establishes survives if it does not depend on the interrupt
  flag word of the current context.\<close>

lemma run_bracketed:
  fixes s :: "'z machine_scheme"
  assumes w: "wii s" and c: "mem s kOSCurrentContextAddr = c" "c = 0 \<or> word_ok (c + 0x1A0)"
    and body: "\<And>s1. wii s1 \<Longrightarrow> cpu s1 = cpu s \<Longrightarrow> machine.more s1 = machine.more s \<Longrightarrow> \<not> interrupts_enabled s1 \<Longrightarrow>
      (\<forall>a. a \<noteq> c + 0x1A0 \<longrightarrow> mem s1 a = mem s a) \<Longrightarrow>
      \<exists>s2. run_state b s1 = ((), s2) \<and> wii s2 \<and> mem s2 kOSCurrentContextAddr = c \<and> P s2"
    and stable: "\<And>s2 s3. P s2 \<Longrightarrow> wii s3 \<Longrightarrow> cpu s3 = cpu s2 \<Longrightarrow> machine.more s3 = machine.more s2 \<Longrightarrow>
      (\<forall>a. a \<noteq> c + 0x1A0 \<longrightarrow> mem s3 a = mem s2 a) \<Longrightarrow> P s3"
  shows "\<exists>s'. run_state (do { irqState \<leftarrow> OS__DisableInterrupts; try_catch b h;
      _ \<leftarrow> OS__RestoreInterrupts irqState; State_Monad.return () }) s = ((), s') \<and>
    wii s' \<and> interrupts_enabled s' = interrupts_enabled s \<and> P s'"
proof -
  define lvl where "lvl = (if interrupts_enabled s then 1 else 0 :: int)"
  obtain s1 where s1: "run_state OS__DisableInterrupts s = (lvl, s1)" "wii s1" "cpu s1 = cpu s"
    "machine.more s1 = machine.more s" "\<not> interrupts_enabled s1" "\<forall>a. a \<noteq> c + 0x1A0 \<longrightarrow> mem s1 a = mem s a"
    using run_exchange_interrupts [OF w c, of False] unfolding OS__DisableInterrupts_def lvl_def by blast
  obtain s2 where s2: "run_state b s1 = ((), s2)" "wii s2" "mem s2 kOSCurrentContextAddr = c" "P s2"
    using body [OF s1(2-6)] by blast
  obtain s3 where s3: "run_state (OS__RestoreInterrupts lvl) s2 = (if interrupts_enabled s2 then 1 else 0, s3)"
    "wii s3" "interrupts_enabled s3 = interrupts_enabled s" "cpu s3 = cpu s2" "machine.more s3 = machine.more s2"
    "\<forall>a. a \<noteq> c + 0x1A0 \<longrightarrow> mem s3 a = mem s2 a"
    using run_exchange_interrupts [OF s2(2,3) c(2), of "interrupts_enabled s"]
    unfolding OS__RestoreInterrupts_def lvl_def by (cases "interrupts_enabled s") auto
  have "run_state (try_catch b h) s1 = ((), s2)"
    using s1(2) s2(1,2) by (intro run_try_catch) (simp_all add: wii_fault)
  then show ?thesis
    using s1(1) s3 stable [OF s2(4) s3(2,4,5,6)] by (simp add: run_simps)
qed

section \<open>Waking nobody\<close>

lemma run_gpr_put [run_simps]:
  "fault s = None \<Longrightarrow> run_state (gpr_put i v) s = ((), s\<lparr>cpu := (cpu s)\<lparr>gpr := (gpr (cpu s))(i := v)\<rparr>\<rparr>)"
  by (simp add: run_simps)

lemma cpu_update_simps [simp]:
  "mem (s\<lparr>cpu := c\<rparr>) = mem s" "wii (s\<lparr>cpu := c\<rparr>) = wii s" 
  by (rule mem_cong, simp) (simp add: wii_def)

text \<open>Waking an empty wait queue: nothing happens, interrupts come back as they were.\<close>

lemma run_wakeup_empty:
  fixes s :: os_machine
  assumes "wii s" "gpr (cpu s) 3 = wake" "wake \<noteq> 0" "word_ok wake" "mem s wake = 0"
    and c: "mem s kOSCurrentContextAddr = c" "c = 0 \<or> word_ok (c + 0x1A0)"
    and ne: "wake \<noteq> c + 0x1A0" "kOSCurrentContextAddr \<noteq> c + 0x1A0"
  shows "\<exists>s'. run_state (OSWakeupThread W fuel) s = ((), s') \<and> wii s' \<and>
    interrupts_enabled s' = interrupts_enabled s \<and> cpu s' = cpu s \<and>
    (\<forall>a. a \<noteq> c + 0x1A0 \<longrightarrow> mem s' a = mem s a)"
proof -
  obtain s1 where s1: "run_state OS__DisableInterrupts s = (if interrupts_enabled s then 1 else 0, s1)" "wii s1"
    "cpu s1 = cpu s" "\<forall>a. a \<noteq> c + 0x1A0 \<longrightarrow> mem s1 a = mem s a"
    using run_exchange_interrupts [OF assms(1) c, of False] unfolding OS__DisableInterrupts_def by blast
  have "mem s1 kOSCurrentContextAddr = c" using s1(4) ne c(1) by simp
  then obtain s2 where s2: "run_state (OS__RestoreInterrupts (if interrupts_enabled s then 1 else 0)) s1 =
        (if interrupts_enabled s1 then 1 else 0, s2)" "wii s2"
    "interrupts_enabled s2 = interrupts_enabled s" "cpu s2 = cpu s1"
    "\<forall>a. a \<noteq> c + 0x1A0 \<longrightarrow> mem s2 a = mem s1 a"
    using run_exchange_interrupts [OF s1(2) _ c(2), of "interrupts_enabled s"]
    unfolding OS__RestoreInterrupts_def by (cases "interrupts_enabled s") auto
  have loop: "run_state (wake_loop kMaxWake wake b) s1 = (b, s1)" for b
    using s1(2,4) assms(4,5) ne(1) by (simp add: kMaxWake_def numeral_eq_Suc run_simps)
  have "run_state (OSWakeupThread W fuel) s = ((), s2)"
    unfolding OSWakeupThread_def WakeupThreadQueue_def
    using assms(2,3) s1(1) s2(1) loop by (simp add: run_simps)
  then show ?thesis using s2 s1 by auto
qed

section \<open>Waking everybody, the switch deferred\<close>

text \<open>The words the scheduler invariant is about.\<close>

definition sched_frame :: "u32 \<Rightarrow> u32 set \<Rightarrow> u32 set" where
  "sched_frame q T = {q, q + 4, kSchedulerPendingFlagAddr} \<union> rq_slots \<union> fields_of T {kThreadNextOffset, kThreadPrevOffset}"

lemma sched_inv_frame:
  assumes "sched_inv m q T xs rq" "\<And>a. a \<in> sched_frame q T \<Longrightarrow> m' a = m a"
  shows "sched_inv m' q T xs rq"
proof -
  have w: "list_words zs kThreadNextOffset kThreadPrevOffset qa (qa + 4) \<subseteq> sched_frame q T"
    if "set zs \<subseteq> T" "sched_queue q qa" for zs qa
    using that by (auto simp: sched_queue_def sched_frame_def list_words_def fields_of_def)
  have f: "thread_queue m' qa zs = thread_queue m qa zs" if "set zs \<subseteq> T" "sched_queue q qa" for zs qa
    by (rule thread_queue_frame) (use w [OF that] assms(2) in blast)
  have p: "m' kSchedulerPendingFlagAddr = m kSchedulerPendingFlagAddr" using assms(2) by (simp add: sched_frame_def)
  show ?thesis using assms(1) f p unfolding sched_inv_def by simp
qed

lemma flag_apart_threads:
  assumes "sched_layout T q" "c = 0 \<or> c \<in> T"
  shows "c = 0 \<or> word_ok (c + 0x1A0)" "a \<in> sched_words \<union> rq_slots \<union> {q, q + 4} \<Longrightarrow> a \<noteq> c + 0x1A0"
    "x \<in> T \<Longrightarrow> i \<in> queue_fields \<Longrightarrow> i \<noteq> 0x1A0 \<Longrightarrow> x + i \<noteq> c + 0x1A0"
proof -
  have l: "layout T queue_fields (sched_words \<union> rq_slots \<union> {q, q + 4})" using assms(1) by (simp add: sched_layout_def)
  have n0: "\<not> word_ok 0x1A0" by (simp add: word_ok_def cached_def)
  show "c = 0 \<or> word_ok (c + 0x1A0)" using assms(2) layoutD(1) [OF l, of c "0x1A0"] by auto
  show "a \<noteq> c + 0x1A0" if "a \<in> sched_words \<union> rq_slots \<union> {q, q + 4}"
    using assms(2) layoutD(2) [OF l that] layoutD(3) [OF l _ _ that, of c "0x1A0"] n0 by auto
  show "x \<in> T \<Longrightarrow> i \<in> queue_fields \<Longrightarrow> i \<noteq> 0x1A0 \<Longrightarrow> x + i \<noteq> c + 0x1A0"
    using assms(2) layoutD(1) [OF l, of x i] layoutD(5) [OF l, of x c i "0x1A0"] n0 by auto
qed

lemma sched_frame_apart:
  assumes "sched_layout T q" "c = 0 \<or> c \<in> T" "a \<in> sched_frame q T"
  shows "a \<noteq> c + 0x1A0"
proof -
  have o: "kThreadNextOffset \<noteq> 0x1A0" "kThreadPrevOffset \<noteq> 0x1A0" by (simp_all add: thread_offsets)
  consider "a \<in> sched_words \<union> rq_slots \<union> {q, q + 4}" | x i where "a = x + i" "x \<in> T" "i \<in> {kThreadNextOffset, kThreadPrevOffset}"
    using assms(3) by (auto simp: sched_frame_def sched_words_def fields_of_def)
  then show ?thesis
  proof cases
    case 2
    then show ?thesis using flag_apart_threads(3) [OF assms(1,2) 2(2), of i] o by auto
  qed (rule flag_apart_threads(2) [OF assms(1,2)])
qed

lemma run_wakeup_deferred:
  fixes s :: os_machine
  assumes w: "wii s" "gpr (cpu s) 3 = q" "q \<noteq> 0" and L: "sched_layout T q" and inv: "sched_inv (mem s) q T xs rq"
    and wk: "\<forall>x\<in>set xs. wakeable s x" "length xs \<le> kMaxWake" and adv: "advancing_retrace W = (\<lambda>_. True)"
    and c: "mem s kOSCurrentContextAddr = c" "c = 0 \<or> c \<in> T"
  shows "\<exists>s'. run_state (OSWakeupThread W fuel) s = ((), s') \<and> wii s' \<and> interrupts_enabled s' = interrupts_enabled s \<and>
    sched_inv (mem s') q T [] (woken (mem s) xs rq) \<and>
    (\<forall>x\<in>set xs. hi16 (mem s' (x + kThreadStateOffset)) = kThreadStateReady) \<and>
    (\<forall>y\<in>T. prio_of (mem s') y = prio_of (mem s) y) \<and>
    (\<forall>a. a \<notin> insert (c + 0x1A0) (wake_words q T) \<longrightarrow> mem s' a = mem s a)"
proof -
  note F = flag_apart_threads [OF L c(2)]
  have o: "kThreadStateOffset \<noteq> 0x1A0" "kThreadSuspendOffset \<noteq> 0x1A0" "kThreadPriorityOffset \<noteq> 0x1A0" by (simp_all add: thread_offsets)
  obtain s1 where s1: "run_state OS__DisableInterrupts s = (if interrupts_enabled s then 1 else 0, s1)" "wii s1"
    "cpu s1 = cpu s" "machine.more s1 = machine.more s" "\<forall>a. a \<noteq> c + 0x1A0 \<longrightarrow> mem s1 a = mem s a"
    using run_exchange_interrupts [OF w(1) c(1) F(1), of False] unfolding OS__DisableInterrupts_def by blast
  have pr1: "prio_of (mem s1) y = prio_of (mem s) y" if "y \<in> T" for y
    using s1(5) F(3) [OF that, of kThreadPriorityOffset] o by (simp add: prio_of_def)
  have xsT: "set xs \<subseteq> T" using inv by (simp add: sched_inv_def)
  have "fibers s1 = fibers s" using s1(4) by (cases s; cases s1) simp
  then have d1: "fiber_dead s1 = fiber_dead s" by (simp add: fiber_dead_def fun_eq_iff)
  have wk1: "\<forall>x\<in>set xs. wakeable s1 x"
  proof
    fix x assume x: "x \<in> set xs"
    then have xT: "x \<in> T" using xsT by blast
    then show "wakeable s1 x"
      using wk(1) x d1 pr1 [OF xT] s1(5) F(3) [OF xT, of kThreadStateOffset] F(3) [OF xT, of kThreadSuspendOffset] o
      by (simp add: wakeable_def)
  qed
  have inv1: "sched_inv (mem s1) q T xs rq"
    by (rule sched_inv_frame [OF inv]) (use s1(5) sched_frame_apart [OF L c(2)] in metis)
  obtain s2 where s2: "run_state (wake_loop kMaxWake q False) s1 = (False \<or> xs \<noteq> [], s2)" "wii s2"
    "sched_inv (mem s2) q T [] (woken (mem s1) xs rq)"
    "\<forall>x\<in>set xs. hi16 (mem s2 (x + kThreadStateOffset)) = kThreadStateReady"
    "\<forall>y\<in>T. prio_of (mem s2) y = prio_of (mem s1) y" "\<forall>a. a \<notin> wake_words q T \<longrightarrow> mem s2 a = mem s1 a"
    using run_wake_loop [OF s1(2) L inv1 wk1 wk(2), of False] by blast
  have woken: "woken (mem s1) xs rq = woken (mem s) xs rq"
    unfolding woken_def using pr1 xsT by (intro ext arg_cong2 [where f = append] refl filter_cong) auto
  have cur: "mem s2 kOSCurrentContextAddr = c"
  proof -
    have sw: "kOSCurrentContextAddr \<in> sched_words" by (simp add: sched_words_def)
    have "kOSCurrentContextAddr \<noteq> x + i" if "x \<in> T" "i \<in> queue_fields" for x i
      using sched_layoutD(4) [OF L that] sw by auto
    moreover have "kOSCurrentContextAddr \<notin> rq_slots" "kOSCurrentContextAddr \<noteq> q" "kOSCurrentContextAddr \<noteq> q + 4"
      using rq_slots_not_sched sw L by (auto simp: sched_layout_def)
    ultimately have "kOSCurrentContextAddr \<notin> wake_words q T"
      by (auto simp: wake_words_def fields_of_def kernel_words)
    then show ?thesis using s2(6) s1(5) c(1) F(2) [of kOSCurrentContextAddr] sw by simp
  qed
  define lvl where "lvl = (if interrupts_enabled s then 1 else 0 :: int)"
  obtain s3 where s3: "run_state (OS__RestoreInterrupts lvl) s2 = (if interrupts_enabled s2 then 1 else 0, s3)" "wii s3"
    "interrupts_enabled s3 = interrupts_enabled s" "\<forall>a. a \<noteq> c + 0x1A0 \<longrightarrow> mem s3 a = mem s2 a"
    using run_exchange_interrupts [OF s2(2) cur F(1), of "interrupts_enabled s"]
    unfolding OS__RestoreInterrupts_def lvl_def by (cases "interrupts_enabled s") auto
  have "run_state (OSWakeupThread W fuel) s = ((), s3)"
    unfolding OSWakeupThread_def WakeupThreadQueue_def
    using w(2,3) s1(1) s2(1) s3(1) adv by (simp add: run_simps flip: lvl_def)
  moreover have "sched_inv (mem s3) q T [] (woken (mem s) xs rq)"
    unfolding woken [symmetric] by (rule sched_inv_frame [OF s2(3)]) (use s3(4) sched_frame_apart [OF L c(2)] in metis)
  moreover have "hi16 (mem s3 (x + kThreadStateOffset)) = kThreadStateReady" if "x \<in> set xs" for x
    using s2(4) s3(4) F(3) [of x kThreadStateOffset] that xsT o by auto
  moreover have "prio_of (mem s3) y = prio_of (mem s) y" if "y \<in> T" for y
    using s2(5) s3(4) F(3) [OF that, of kThreadPriorityOffset] pr1 [OF that] that o by (simp add: prio_of_def)
  moreover have "mem s3 a = mem s a" if "a \<notin> insert (c + 0x1A0) (wake_words q T)" for a
    using that s3(4) s2(6) s1(5) by simp
  ultimately show ?thesis using s3(2,3) by blast
qed

text \<open>An outside world that does nothing, for concrete runs.\<close>

definition quiet_world :: world where
  "quiet_world = \<lparr>invoke = (\<lambda>_. State_Monad.return ()), registered = (\<lambda>_. False),
     save_context = State_Monad.return (), load_context = State_Monad.return (),
     host_switch = (\<lambda>_. State_Monad.return ()), process_sleep_timers = State_Monad.return (),
     idle_poll = State_Monad.return (), advancing_retrace = (\<lambda>_. False),
     sda1_base = 0x80386000, network_completions = State_Monad.return False,
     nand_callbacks = (\<lambda>_. State_Monad.return False)\<rparr>"

end
