(* ===== verification/OsMessage.thy ===== *)
theory OsMessage
  imports OsWakeup QueueSpec
begin

unbundle bit_operations_syntax

text \<open>
  \<open>runtime/src/hle/os/os_message.cpp\<close>: the guest's message queues, a ring buffer in guest
  memory with two wait queues of threads, and the blocking send, receive and jam built on it.
\<close>

section \<open>Operations\<close>

definition kMsgQueueSendOffset :: u32 where "kMsgQueueSendOffset = 0x00"
definition kMsgQueueRecvOffset :: u32 where "kMsgQueueRecvOffset = 0x08"
definition kMsgQueueArrayOffset :: u32 where "kMsgQueueArrayOffset = 0x10"
definition kMsgQueueCountOffset :: u32 where "kMsgQueueCountOffset = 0x14"
definition kMsgQueueFirstOffset :: u32 where "kMsgQueueFirstOffset = 0x18"
definition kMsgQueueUsedOffset :: u32 where "kMsgQueueUsedOffset = 0x1C"

definition OS__InitMessageQueue :: "('z, unit) guest" where
  "OS__InitMessageQueue = do {
     queuePtr \<leftarrow> gpr_get 3;
     msgArrayPtr \<leftarrow> gpr_get 4;
     msgCount \<leftarrow> gpr_get 5;
     whenM (queuePtr \<noteq> 0) (try_catch (do {
       Write32 (queuePtr + kMsgQueueSendOffset) 0;
       Write32 (queuePtr + kMsgQueueSendOffset + 4) 0;
       Write32 (queuePtr + kMsgQueueRecvOffset) 0;
       Write32 (queuePtr + kMsgQueueRecvOffset + 4) 0;
       Write32 (queuePtr + kMsgQueueArrayOffset) msgArrayPtr;
       Write32 (queuePtr + kMsgQueueCountOffset) msgCount;
       Write32 (queuePtr + kMsgQueueFirstOffset) 0;
       Write32 (queuePtr + kMsgQueueUsedOffset) 0
     }) (State_Monad.return ()))
   }"

definition MsgQueueIsFull :: "u32 \<Rightarrow> ('z, bool) guest" where
  "MsgQueueIsFull queuePtr = do {
     used \<leftarrow> Read32 (queuePtr + kMsgQueueUsedOffset);
     count \<leftarrow> Read32 (queuePtr + kMsgQueueCountOffset);
     State_Monad.return (count \<noteq> 0 \<and> count \<le> used)
   }"

definition MsgQueueIsEmpty :: "u32 \<Rightarrow> ('z, bool) guest" where
  "MsgQueueIsEmpty queuePtr = do {
     used \<leftarrow> Read32 (queuePtr + kMsgQueueUsedOffset);
     State_Monad.return (used = 0)
   }"

definition MsgQueueEnqueue :: "u32 \<Rightarrow> u32 \<Rightarrow> ('z, unit) guest" where
  "MsgQueueEnqueue queuePtr msg = do {
     arrayPtr \<leftarrow> Read32 (queuePtr + kMsgQueueArrayOffset);
     count \<leftarrow> Read32 (queuePtr + kMsgQueueCountOffset);
     first \<leftarrow> Read32 (queuePtr + kMsgQueueFirstOffset);
     used \<leftarrow> Read32 (queuePtr + kMsgQueueUsedOffset);
     whenM (count \<noteq> 0) (do {
       Write32 (arrayPtr + ((first + used) mod count) * 4) msg;
       Write32 (queuePtr + kMsgQueueUsedOffset) (used + 1)
     })
   }"

definition MsgQueueJam :: "u32 \<Rightarrow> u32 \<Rightarrow> ('z, unit) guest" where
  "MsgQueueJam queuePtr msg = do {
     arrayPtr \<leftarrow> Read32 (queuePtr + kMsgQueueArrayOffset);
     count \<leftarrow> Read32 (queuePtr + kMsgQueueCountOffset);
     first \<leftarrow> Read32 (queuePtr + kMsgQueueFirstOffset);
     used \<leftarrow> Read32 (queuePtr + kMsgQueueUsedOffset);
     whenM (count \<noteq> 0) (let first' = (if first = 0 then count - 1 else first - 1) in do {
       Write32 (arrayPtr + first' * 4) msg;
       Write32 (queuePtr + kMsgQueueFirstOffset) first';
       Write32 (queuePtr + kMsgQueueUsedOffset) (used + 1)
     })
   }"

definition MsgQueueDequeue :: "u32 \<Rightarrow> ('z, u32) guest" where
  "MsgQueueDequeue queuePtr = do {
     arrayPtr \<leftarrow> Read32 (queuePtr + kMsgQueueArrayOffset);
     count \<leftarrow> Read32 (queuePtr + kMsgQueueCountOffset);
     first \<leftarrow> Read32 (queuePtr + kMsgQueueFirstOffset);
     used \<leftarrow> Read32 (queuePtr + kMsgQueueUsedOffset);
     (if count = 0 \<or> used = 0 then State_Monad.return 0
      else do {
        msg \<leftarrow> Read32 (arrayPtr + first * 4);
        Write32 (queuePtr + kMsgQueueFirstOffset) ((first + 1) mod count);
        Write32 (queuePtr + kMsgQueueUsedOffset) (used - 1);
        State_Monad.return msg
      })
   }"

text \<open>The shared blocking loop; \<open>Some v\<close> of a round is the C++ \<open>return v\<close>.\<close>

definition MsgQueueOp ::
  "world \<Rightarrow> nat \<Rightarrow> u32 \<Rightarrow> bool \<Rightarrow> (u32 \<Rightarrow> bool os) \<Rightarrow> (u32 \<Rightarrow> unit os) \<Rightarrow> u32 \<Rightarrow> u32 \<Rightarrow> int os" where
  "MsgQueueOp W fuel queuePtr block ready apply wakeOffset blockOffset = do {
     irqState \<leftarrow> OS__DisableInterrupts;
     loop fuel 0 (\<lambda>_. do {
       r \<leftarrow> try_catch (do {
           b \<leftarrow> ready queuePtr;
           (if b then do {
              apply queuePtr;
              gpr_put 3 (queuePtr + wakeOffset);
              OSWakeupThread W fuel;
              gpr_put 3 1;
              _ \<leftarrow> OS__RestoreInterrupts irqState;
              State_Monad.return (Some 1)
            } else State_Monad.return None)
         }) (do {
           gpr_put 3 0;
           _ \<leftarrow> OS__RestoreInterrupts irqState;
           State_Monad.return (Some 0)
         });
       (case r of
          Some v \<Rightarrow> State_Monad.return (Inr v)
        | None \<Rightarrow>
          (if \<not> block then do {
             gpr_put 3 0;
             _ \<leftarrow> OS__RestoreInterrupts irqState;
             State_Monad.return (Inr 0)
           } else do {
             gpr_put 3 (queuePtr + blockOffset);
             OSSleepThread W fuel;
             State_Monad.return (Inl ())
           }))
     }) ()
   }"

definition OS__SendMessage :: "world \<Rightarrow> nat \<Rightarrow> int os" where
  "OS__SendMessage W fuel = do {
     queuePtr \<leftarrow> gpr_get 3;
     msg \<leftarrow> gpr_get 4;
     flags \<leftarrow> gpr_get 5;
     (if queuePtr = 0 then do { gpr_put 3 0; State_Monad.return 0 }
      else MsgQueueOp W fuel queuePtr (flags AND 1 \<noteq> 0)
        (\<lambda>queue. do { f \<leftarrow> MsgQueueIsFull queue; State_Monad.return (\<not> f) })
        (\<lambda>queue. MsgQueueEnqueue queue msg) kMsgQueueRecvOffset kMsgQueueSendOffset)
   }"

definition OS__ReceiveMessage :: "world \<Rightarrow> nat \<Rightarrow> int os" where
  "OS__ReceiveMessage W fuel = do {
     queuePtr \<leftarrow> gpr_get 3;
     outMsgPtr \<leftarrow> gpr_get 4;
     flags \<leftarrow> gpr_get 5;
     (if queuePtr = 0 then do { gpr_put 3 0; State_Monad.return 0 }
      else MsgQueueOp W fuel queuePtr (flags AND 1 \<noteq> 0)
        (\<lambda>queue. do { e \<leftarrow> MsgQueueIsEmpty queue; State_Monad.return (\<not> e) })
        (\<lambda>queue. do {
           msg \<leftarrow> MsgQueueDequeue queue;
           whenM (outMsgPtr \<noteq> 0) (Write32 outMsgPtr msg)
         }) kMsgQueueSendOffset kMsgQueueRecvOffset)
   }"

definition OS__JamMessage :: "world \<Rightarrow> nat \<Rightarrow> int os" where
  "OS__JamMessage W fuel = do {
     queuePtr \<leftarrow> gpr_get 3;
     msg \<leftarrow> gpr_get 4;
     flags \<leftarrow> gpr_get 5;
     (if queuePtr = 0 then do { gpr_put 3 0; State_Monad.return 0 }
      else MsgQueueOp W fuel queuePtr (flags AND 1 \<noteq> 0)
        (\<lambda>queue. do { f \<leftarrow> MsgQueueIsFull queue; State_Monad.return (\<not> f) })
        (\<lambda>queue. MsgQueueJam queue msg) kMsgQueueRecvOffset kMsgQueueSendOffset)
   }"

section \<open>The ring buffer represents a list\<close>

definition slot :: "u32 \<Rightarrow> nat \<Rightarrow> u32" where
  "slot arr i = arr + of_nat i * 4"

definition msg_layout :: "u32 \<Rightarrow> u32 \<Rightarrow> nat \<Rightarrow> bool" where
  "msg_layout q arr n \<longleftrightarrow> 0 < n \<and> n < 1073741824 \<and>
     word_ok (q + kMsgQueueArrayOffset) \<and> word_ok (q + kMsgQueueCountOffset) \<and>
     word_ok (q + kMsgQueueFirstOffset) \<and> word_ok (q + kMsgQueueUsedOffset) \<and>
     (\<forall>i<n. word_ok (slot arr i) \<and> slot arr i \<notin> {q + kMsgQueueArrayOffset, q + kMsgQueueCountOffset,
        q + kMsgQueueFirstOffset, q + kMsgQueueUsedOffset} \<and> (\<forall>j<n. slot arr i = slot arr j \<longrightarrow> i = j))"

definition msg_rep :: "u32 \<Rightarrow> u32 \<Rightarrow> nat \<Rightarrow> 'z machine_scheme \<Rightarrow> u32 list \<Rightarrow> bool" where
  "msg_rep q arr n s xs \<longleftrightarrow> wii s \<and> msg_layout q arr n \<and> length xs \<le> n \<and>
     mem s (q + kMsgQueueArrayOffset) = arr \<and> mem s (q + kMsgQueueCountOffset) = of_nat n \<and>
     mem s (q + kMsgQueueUsedOffset) = of_nat (length xs) \<and>
     (\<exists>f<n. mem s (q + kMsgQueueFirstOffset) = of_nat f \<and>
        (\<forall>i<length xs. mem s (slot arr ((f + i) mod n)) = xs ! i))"

lemmas msg_offsets = kMsgQueueSendOffset_def kMsgQueueRecvOffset_def kMsgQueueArrayOffset_def
  kMsgQueueCountOffset_def kMsgQueueFirstOffset_def kMsgQueueUsedOffset_def

lemma msg_fields_ne [simp]:
  "kMsgQueueUsedOffset \<noteq> kMsgQueueArrayOffset" "kMsgQueueUsedOffset \<noteq> kMsgQueueCountOffset"
  "kMsgQueueUsedOffset \<noteq> kMsgQueueFirstOffset" "kMsgQueueFirstOffset \<noteq> kMsgQueueArrayOffset"
  "kMsgQueueFirstOffset \<noteq> kMsgQueueCountOffset" "kMsgQueueFirstOffset \<noteq> kMsgQueueUsedOffset"
  "kMsgQueueArrayOffset \<noteq> kMsgQueueUsedOffset" "kMsgQueueCountOffset \<noteq> kMsgQueueUsedOffset"
  "kMsgQueueArrayOffset \<noteq> kMsgQueueFirstOffset" "kMsgQueueCountOffset \<noteq> kMsgQueueFirstOffset"
  by (simp_all add: msg_offsets)

lemma msg_layoutD:
  assumes "msg_layout q arr n"
  shows "0 < n" "n < 1073741824"
    "word_ok (q + kMsgQueueArrayOffset)" "word_ok (q + kMsgQueueCountOffset)"
    "word_ok (q + kMsgQueueFirstOffset)" "word_ok (q + kMsgQueueUsedOffset)"
    "i < n \<Longrightarrow> word_ok (slot arr i)"
    "i < n \<Longrightarrow> slot arr i \<noteq> q + kMsgQueueArrayOffset" "i < n \<Longrightarrow> slot arr i \<noteq> q + kMsgQueueCountOffset"
    "i < n \<Longrightarrow> slot arr i \<noteq> q + kMsgQueueFirstOffset" "i < n \<Longrightarrow> slot arr i \<noteq> q + kMsgQueueUsedOffset"
    "i < n \<Longrightarrow> j < n \<Longrightarrow> (slot arr i = slot arr j) = (i = j)"
  using assms unfolding msg_layout_def by blast+

lemma of_nat_mod_u32: "a < 4294967296 \<Longrightarrow> b < 4294967296 \<Longrightarrow> (of_nat a :: u32) mod of_nat b = of_nat (a mod b)"
  using mod_less_eq_dividend [of a b]
  by (simp add: word_unat_eq_iff unat_mod unat_of_nat del: mod_less_eq_dividend)

lemma of_nat_eq_0_u32: "a < 4294967296 \<Longrightarrow> ((of_nat a :: u32) = 0) = (a = 0)"
  by (simp add: word_unat_eq_iff unat_of_nat)

text \<open>Two ring positions coincide only if their distances from \<open>f\<close> do.\<close>

lemma ring_inj:
  assumes "i < n" "j < (n :: nat)"
  shows "((f + i) mod n = (f + j) mod n) = (i = j)"
proof
  assume e: "(f + i) mod n = (f + j) mod n"
  have "i = j" if "i \<le> j" "j < n" "(f + i) mod n = (f + j) mod n" for i j
  proof -
    have "n dvd (f + j) - (f + i)" using that by (intro mod_eq_dvd_iff_nat [THEN iffD1]) auto
    then show ?thesis using that by (auto dest: dvd_imp_le)
  qed
  from this [of i j] this [of j i] show "i = j" using e assms by (metis linear)
qed simp

section \<open>Each operation on the represented list\<close>

text \<open>The queue writes its slots and its own words only.\<close>

definition msg_words :: "u32 \<Rightarrow> u32 \<Rightarrow> nat \<Rightarrow> u32 set" where
  "msg_words q arr n = slot arr ` {..<n} \<union> {q + kMsgQueueFirstOffset, q + kMsgQueueUsedOffset}"

lemma msg_repD:
  assumes "msg_rep q arr n s xs"
  obtains f where "wii s" "msg_layout q arr n" "length xs \<le> n" "f < n"
    "mem s (q + kMsgQueueArrayOffset) = arr" "mem s (q + kMsgQueueCountOffset) = of_nat n"
    "mem s (q + kMsgQueueUsedOffset) = of_nat (length xs)" "mem s (q + kMsgQueueFirstOffset) = of_nat f"
    "\<forall>i<length xs. mem s (slot arr ((f + i) mod n)) = xs ! i"
  using assms unfolding msg_rep_def by blast

lemma run_enqueue:
  assumes "msg_rep q arr n s xs" "length xs < n"
  shows "\<exists>s'. run_state (MsgQueueEnqueue q msg) s = ((), s') \<and> msg_rep q arr n s' (xs @ [msg]) \<and>
    touches (msg_words q arr n) s s'"
proof -
  obtain f where r: "wii s" "msg_layout q arr n" "length xs \<le> n" "f < n"
    "mem s (q + kMsgQueueArrayOffset) = arr" "mem s (q + kMsgQueueCountOffset) = of_nat n"
    "mem s (q + kMsgQueueUsedOffset) = of_nat (length xs)" "mem s (q + kMsgQueueFirstOffset) = of_nat f"
    "\<forall>i<length xs. mem s (slot arr ((f + i) mod n)) = xs ! i"
    using assms(1) by (rule msg_repD) blast
  note L = msg_layoutD [OF r(2)]
  let ?k = "(f + length xs) mod n"
  have k: "?k < n" using L(1) by simp
  have idx: "(of_nat f + of_nat (length xs)) mod of_nat n = (of_nat ?k :: u32)"
    using of_nat_mod_u32 [of "f + length xs" n] r(3,4) L(2) by simp
  let ?s = "wr32 (q + kMsgQueueUsedOffset) (1 + of_nat (length xs)) (wr32 (slot arr ?k) msg s)"
  have nz: "(of_nat n :: u32) \<noteq> 0" using of_nat_eq_0_u32 [of n] L(1,2) by simp
  have run: "run_state (MsgQueueEnqueue q msg) s = ((), ?s)"
    using r(1,5-8) L(3-6) L(7) [OF k] nz
    by (simp add: MsgQueueEnqueue_def run_simps idx add.commute [of "of_nat (length xs)" 1] flip: slot_def)
  have m: "mem ?s = (mem s)(slot arr ?k := msg, q + kMsgQueueUsedOffset := 1 + of_nat (length xs))"
    using L(6) L(7) [OF k] by simp
  have "mem ?s (slot arr ((f + i) mod n)) = (xs @ [msg]) ! i" if "i < Suc (length xs)" for i
  proof (cases "i = length xs")
    case True
    then show ?thesis using L(11) [OF k] by (simp add: m)
  next
    case False
    then have "i < length xs" using that by simp
    moreover have "(f + i) mod n \<noteq> ?k" using ring_inj [of i n "length xs" f] assms(2) calculation by simp
    moreover have "(f + i) mod n < n" using L(1) by simp
    ultimately show ?thesis using L(11,12) [of "(f + i) mod n"] k r(9) by (simp add: m nth_append)
  qed
  then have "msg_rep q arr n ?s (xs @ [msg])"
    using r(1-8) assms(2) L(8-10) [OF k] unfolding msg_rep_def
    by (intro conjI exI [of _ f]) (simp_all add: m)
  moreover have "touches (msg_words q arr n) s ?s"
    using k m by (auto simp: touches_def msg_words_def)
  ultimately show ?thesis using run by blast
qed

lemma run_jam:
  assumes "msg_rep q arr n s xs" "length xs < n"
  shows "\<exists>s'. run_state (MsgQueueJam q msg) s = ((), s') \<and> msg_rep q arr n s' (msg # xs) \<and>
    touches (msg_words q arr n) s s'"
proof -
  obtain f where r: "wii s" "msg_layout q arr n" "length xs \<le> n" "f < n"
    "mem s (q + kMsgQueueArrayOffset) = arr" "mem s (q + kMsgQueueCountOffset) = of_nat n"
    "mem s (q + kMsgQueueUsedOffset) = of_nat (length xs)" "mem s (q + kMsgQueueFirstOffset) = of_nat f"
    "\<forall>i<length xs. mem s (slot arr ((f + i) mod n)) = xs ! i"
    using assms(1) by (rule msg_repD) blast
  note L = msg_layoutD [OF r(2)]
  define k where "k = (if f = 0 then n - 1 else f - 1)"
  have k: "k < n" using r(4) L(1) by (auto simp: k_def)
  have kn: "(k + Suc i) mod n = (f + i) mod n" for i
    using r(4) L(1) by (auto simp: k_def)
  have idx: "(if (of_nat f :: u32) = 0 then of_nat n - 1 else of_nat f - 1) = (of_nat k :: u32)"
    using of_nat_eq_0_u32 [of f] r(4) L(1,2) by (auto simp: k_def of_nat_diff)
  have nz: "(of_nat n :: u32) \<noteq> 0" using of_nat_eq_0_u32 [of n] L(1,2) by simp
  let ?s = "wr32 (q + kMsgQueueUsedOffset) (1 + of_nat (length xs))
     (wr32 (q + kMsgQueueFirstOffset) (of_nat k) (wr32 (slot arr k) msg s))"
  have run: "run_state (MsgQueueJam q msg) s = ((), ?s)"
    using r(1,5-8) L(3-6) L(7) [OF k] nz
    by (simp only: MsgQueueJam_def run_simps prod.case wii_wr idx Let_def
        add.commute [of "of_nat (length xs)" 1] slot_def [symmetric] simp_thms if_True)
  have m: "mem ?s = (mem s)(slot arr k := msg, q + kMsgQueueFirstOffset := of_nat k,
      q + kMsgQueueUsedOffset := 1 + of_nat (length xs))"
    using L(5,6) L(7) [OF k] by simp
  have "mem ?s (slot arr ((k + i) mod n)) = (msg # xs) ! i" if "i < Suc (length xs)" for i
  proof (cases i)
    case 0
    then show ?thesis using L(10,11) [OF k] k by (simp add: m)
  next
    case (Suc j)
    then have "(k + i) mod n \<noteq> k" using ring_inj [of i n 0 k] that assms(2) k by simp
    moreover have "(k + i) mod n < n" using L(1) by simp
    ultimately show ?thesis
      using L(10,11,12) [of "(k + i) mod n"] k r(9) [rule_format, of j] that Suc kn [of j] by (simp add: m)
  qed
  then have "msg_rep q arr n ?s (msg # xs)"
    using r(1-8) assms(2) L(8-10) [OF k] k unfolding msg_rep_def
    by (intro conjI exI [of _ k]) (simp_all add: m)
  moreover have "touches (msg_words q arr n) s ?s"
    using k m by (auto simp: touches_def msg_words_def)
  ultimately show ?thesis using run by blast
qed

lemma run_dequeue:
  assumes "msg_rep q arr n s (x # xs)"
  shows "\<exists>s'. run_state (MsgQueueDequeue q) s = (x, s') \<and> msg_rep q arr n s' xs \<and>
    touches (msg_words q arr n) s s'"
proof -
  obtain f where r: "wii s" "msg_layout q arr n" "length (x # xs) \<le> n" "f < n"
    "mem s (q + kMsgQueueArrayOffset) = arr" "mem s (q + kMsgQueueCountOffset) = of_nat n"
    "mem s (q + kMsgQueueUsedOffset) = of_nat (length (x # xs))" "mem s (q + kMsgQueueFirstOffset) = of_nat f"
    "\<forall>i<length (x # xs). mem s (slot arr ((f + i) mod n)) = (x # xs) ! i"
    using assms(1) by (rule msg_repD) blast
  note L = msg_layoutD [OF r(2)]
  let ?k = "Suc f mod n"
  have k: "?k < n" using L(1) by simp
  have idx: "(of_nat f + 1) mod of_nat n = (of_nat ?k :: u32)"
    using of_nat_mod_u32 [of "f + 1" n] r(4) L(2) by (simp add: add.commute)
  have nz: "(of_nat n :: u32) \<noteq> 0" "(of_nat (length (x # xs)) :: u32) \<noteq> 0"
    using of_nat_eq_0_u32 [of n] of_nat_eq_0_u32 [of "length (x # xs)"] L(1,2) r(3) by auto
  have u: "(of_nat (length (x # xs)) :: u32) - 1 = of_nat (length xs)" by simp
  let ?s = "wr32 (q + kMsgQueueUsedOffset) (of_nat (length xs)) (wr32 (q + kMsgQueueFirstOffset) (of_nat ?k) s)"
  have x: "mem s (slot arr f) = x" using r(4) r(9) [rule_format, of 0] by simp
  have run: "run_state (MsgQueueDequeue q) s = (x, ?s)"
    using r(1,5-8) L(3-6) L(7) [OF r(4)] nz x
    by (simp only: MsgQueueDequeue_def run_simps prod.case wii_wr idx u slot_def [symmetric] simp_thms if_False)
  have m: "mem ?s = (mem s)(q + kMsgQueueFirstOffset := of_nat ?k, q + kMsgQueueUsedOffset := of_nat (length xs))"
    using L(5,6) by simp
  have "mem ?s (slot arr ((?k + i) mod n)) = xs ! i" if "i < length xs" for i
  proof -
    have e: "(?k + i) mod n = (f + Suc i) mod n" by (simp add: mod_add_left_eq)
    have "(f + Suc i) mod n < n" using L(1) by simp
    then show ?thesis using L(10,11) [of "(f + Suc i) mod n"] r(9) [rule_format, of "Suc i"] that by (simp add: m e)
  qed
  then have "msg_rep q arr n ?s xs"
    using r(1-8) k unfolding msg_rep_def
    by (intro conjI exI [of _ ?k]) (simp_all add: m)
  moreover have "touches (msg_words q arr n) s ?s"
    using m by (auto simp: touches_def msg_words_def)
  ultimately show ?thesis using run by blast
qed


section \<open>Message queues implement the bounded-FIFO contract\<close>

definition msg_full :: "u32 \<Rightarrow> 'z machine_scheme \<Rightarrow> bool" where
  "msg_full q s = fst (run_state (MsgQueueIsFull q) s)"

definition msg_empty :: "u32 \<Rightarrow> 'z machine_scheme \<Rightarrow> bool" where
  "msg_empty q s = fst (run_state (MsgQueueIsEmpty q) s)"

definition msg_enq :: "u32 \<Rightarrow> u32 \<Rightarrow> 'z machine_scheme \<Rightarrow> 'z machine_scheme" where
  "msg_enq q msg s = snd (run_state (MsgQueueEnqueue q msg) s)"

definition msg_jam :: "u32 \<Rightarrow> u32 \<Rightarrow> 'z machine_scheme \<Rightarrow> 'z machine_scheme" where
  "msg_jam q msg s = snd (run_state (MsgQueueJam q msg) s)"

lemma run_full:
  assumes "msg_rep q arr n s xs"
  shows "run_state (MsgQueueIsFull q) s = (length xs = n, s)"
proof -
  obtain f where r: "wii s" "msg_layout q arr n" "length xs \<le> n"
    "mem s (q + kMsgQueueCountOffset) = of_nat n" "mem s (q + kMsgQueueUsedOffset) = of_nat (length xs)"
    using assms by (rule msg_repD) blast
  note L = msg_layoutD [OF r(2)]
  have "(of_nat n :: u32) \<noteq> 0" "((of_nat n :: u32) \<le> of_nat (length xs)) = (n \<le> length xs)"
    using L(1,2) r(3) by (simp_all add: of_nat_eq_0_u32 word_le_nat_alt unat_of_nat)
  then show ?thesis using r L by (auto simp: MsgQueueIsFull_def run_simps)
qed

lemma run_empty:
  assumes "msg_rep q arr n s xs"
  shows "run_state (MsgQueueIsEmpty q) s = (xs = [], s)"
proof -
  obtain f where r: "wii s" "msg_layout q arr n" "length xs \<le> n"
    "mem s (q + kMsgQueueUsedOffset) = of_nat (length xs)"
    using assms by (rule msg_repD) blast
  note L = msg_layoutD [OF r(2)]
  have "((of_nat (length xs) :: u32) = 0) = (xs = [])"
    using L(2) r(3) by (simp add: of_nat_eq_0_u32)
  then show ?thesis using r L by (simp add: MsgQueueIsEmpty_def run_simps)
qed

interpretation mq: bounded_fifo "msg_rep q arr n" "\<lambda>_. n" "msg_full q" "msg_empty q"
  "msg_enq q" "msg_jam q" "run_state (MsgQueueDequeue q)" for q arr n
proof
  fix s :: "'z machine_scheme" and xs x
  { assume r: "msg_rep q arr n s xs"
    show "msg_full q s = (length xs = n)" using run_full [OF r] by (simp add: msg_full_def)
    show "msg_empty q s = (xs = [])" using run_empty [OF r] by (simp add: msg_empty_def)
    show "length xs \<le> n" using r by (simp add: msg_rep_def)
    assume "length xs < n"
    then show "msg_rep q arr n (msg_enq q x s) (xs @ [x]) \<and> n = n"
      "msg_rep q arr n (msg_jam q x s) (x # xs) \<and> n = n"
      using run_enqueue [OF r, of x] run_jam [OF r, of x] by (auto simp: msg_enq_def msg_jam_def) }
  assume "msg_rep q arr n s (x # xs)"
  from run_dequeue [OF this] show "fst (run_state (MsgQueueDequeue q) s) = x \<and>
      msg_rep q arr n (snd (run_state (MsgQueueDequeue q) s)) xs \<and> n = n" by auto
qed

text \<open>One guarded operation as \<open>MsgQueueOp\<close> performs it: the test, then the update.\<close>

fun msg_step :: "u32 \<Rightarrow> u32 buf_op \<Rightarrow> 'z machine_scheme \<Rightarrow> u32 buf_out \<times> 'z machine_scheme" where
  "msg_step q (Append m) s = (if fst (run_state (MsgQueueIsFull q) s) then (Refused, s)
     else (Done, snd (run_state (MsgQueueEnqueue q m) s)))"
| "msg_step q (PutBack m) s = (if fst (run_state (MsgQueueIsFull q) s) then (Refused, s)
     else (Done, snd (run_state (MsgQueueJam q m) s)))"
| "msg_step q Take s = (if fst (run_state (MsgQueueIsEmpty q) s) then (Refused, s)
     else (case run_state (MsgQueueDequeue q) s of (m, s') \<Rightarrow> (Got m, s')))"

lemma msg_step_guarded: "mq.guarded q = msg_step q"
proof (intro ext)
  fix c and s :: "'z machine_scheme"
  show "mq.guarded q c s = msg_step q c s" by (cases c) (simp_all add: msg_full_def msg_empty_def msg_enq_def msg_jam_def case_prod_unfold Let_def)
qed

text \<open>C3: the ring buffer in guest memory is a bounded list: any sequence of guarded enqueues,
  jams and dequeues on a well-formed message queue of capacity \<open>n\<close> gives exactly the results of
  the same sequence on a list of at most \<open>n\<close> messages, where enqueue appends, jam prepends and
  dequeue takes the front, and it ends in a well-formed queue that holds the final list; wrap
  around the end of the array is covered, and no access faults.\<close>

theorem message_queue_refines_list:
  assumes "msg_rep q arr n s xs"
  shows "fst (run_ops (msg_step q) cs s) = fst (run_ops (spec_step n) cs xs) \<and>
    msg_rep q arr n (snd (run_ops (msg_step q) cs s)) (snd (run_ops (spec_step n) cs xs)) \<and>
    fault (snd (run_ops (msg_step q) cs s)) = None"
  using mq.guarded_simulates [OF assms, of cs, unfolded msg_step_guarded]
  by (auto simp: msg_rep_def wii_def)

definition demo_msgq :: machine where
  "demo_msgq = wr32 0x80401010 0x80402000 (wr32 0x80401014 2 boot_machine)"

lemma demo_msg_rep: "msg_rep 0x80401000 0x80402000 2 demo_msgq []"
proof -
  have m: "mem demo_msgq = (\<lambda>_. 0)(0x80401014 := 2, 0x80401010 := 0x80402000)" "wii demo_msgq"
    by (simp_all add: demo_msgq_def word_ok_def cached_def)
  have "msg_layout 0x80401000 0x80402000 2"
    by (simp add: msg_layout_def msg_offsets slot_def word_ok_def cached_def less_2_cases_iff all_conj_distrib)
  then show ?thesis
    unfolding msg_rep_def using m by (auto simp: msg_offsets intro!: exI [of _ 0])
qed

lemma message_queue_refines_list_witness:
  "fst (run_ops (msg_step 0x80401000) [Append 7, Append 8, Append 9, Take, PutBack 5, Take, Take] demo_msgq) =
     [Done, Done, Refused, Got 7, Done, Got 5, Got 8]"
  using message_queue_refines_list [OF demo_msg_rep, of "[Append 7, Append 8, Append 9, Take, PutBack 5, Take, Take]"]
  by simp


section \<open>Sending without blocking\<close>

lemma msg_rep_frame:
  assumes "msg_rep q arr n s xs" "wii s'"
    and "\<And>a. a \<in> msg_words q arr n \<union> {q + kMsgQueueArrayOffset, q + kMsgQueueCountOffset} \<Longrightarrow> mem s' a = mem s a"
  shows "msg_rep q arr n s' xs"
proof -
  obtain f where r: "wii s" "msg_layout q arr n" "length xs \<le> n" "f < n"
    "mem s (q + kMsgQueueArrayOffset) = arr" "mem s (q + kMsgQueueCountOffset) = of_nat n"
    "mem s (q + kMsgQueueUsedOffset) = of_nat (length xs)" "mem s (q + kMsgQueueFirstOffset) = of_nat f"
    "\<forall>i<length xs. mem s (slot arr ((f + i) mod n)) = xs ! i"
    using assms(1) by (rule msg_repD) blast
  have "mem s' (slot arr ((f + i) mod n)) = mem s (slot arr ((f + i) mod n))" for i
    by (rule assms(3)) (use r(4) in \<open>auto simp: msg_words_def\<close>)
  then show ?thesis
    unfolding msg_rep_def using r assms(2) assms(3)
    by (intro conjI exI [of _ f]) (simp_all add: msg_words_def)
qed


text \<open>A machine on which a non-blocking operation on the queue can run: the words the queue,
  the wait queue and the interrupt code use are apart.\<close>

definition op_ready :: "u32 \<Rightarrow> u32 \<Rightarrow> nat \<Rightarrow> u32 \<Rightarrow> 'z machine_scheme \<Rightarrow> bool" where
  "op_ready q arr n wake s \<longleftrightarrow> q \<noteq> 0 \<and> wake \<noteq> 0 \<and>
     word_ok wake \<and> mem s wake = 0 \<and>
     (let W = msg_words q arr n \<union> {q + kMsgQueueArrayOffset, q + kMsgQueueCountOffset};
          c = mem s kOSCurrentContextAddr
      in (c = 0 \<or> word_ok (c + 0x1A0)) \<and>
         wake \<notin> W \<union> {c + 0x1A0} \<and> kOSCurrentContextAddr \<notin> W \<union> {c + 0x1A0} \<and> c + 0x1A0 \<notin> W)"

text \<open>A send that must not block (flag bit 0 clear) is decided by the queue alone.  When there
  is room it appends the message and returns 1; when the queue is full it changes nothing and
  returns 0.  Either way the result is also left in r3, no access faults, and the interrupt
  state the caller had is restored.  (The receivers' wait queue is taken empty, so that nothing
  is woken.)\<close>

theorem send_message_nonblocking:
  fixes s :: os_machine
  assumes "msg_rep q arr n s xs" and o: "op_ready q arr n (q + kMsgQueueRecvOffset) s"
    and g: "gpr (cpu s) 3 = q" "gpr (cpu s) 4 = msg" "gpr (cpu s) 5 AND 1 = 0" and fuel: "0 < fuel"
  shows "case run_state (OS__SendMessage W fuel) s of (r, s') \<Rightarrow>
    fault s' = None \<and> interrupts_enabled s' = interrupts_enabled s \<and> gpr (cpu s') 3 = word_of_int r \<and>
    (if length xs < n then r = 1 \<and> msg_rep q arr n s' (xs @ [msg]) else r = 0 \<and> msg_rep q arr n s' xs)"
proof -
  let ?wake = "q + kMsgQueueRecvOffset"
  define c where "c = mem s kOSCurrentContextAddr"
  define V where "V = msg_words q arr n \<union> {q + kMsgQueueArrayOffset, q + kMsgQueueCountOffset}"
  have w: "wii s" "length xs \<le> n" using assms(1) by (simp_all add: msg_rep_def)
  have o': "q \<noteq> 0" "?wake \<noteq> 0" "word_ok ?wake" "mem s ?wake = 0" "c = 0 \<or> word_ok (c + 0x1A0)"
    "?wake \<notin> V" "?wake \<noteq> c + 0x1A0" "kOSCurrentContextAddr \<notin> V" "kOSCurrentContextAddr \<noteq> c + 0x1A0"
    "c + 0x1A0 \<notin> V"
    using o by (auto simp: op_ready_def Let_def V_def c_def)
  obtain k where k: "fuel = Suc k" using fuel by (cases fuel) auto
  define lvl where "lvl = (if interrupts_enabled s then 1 else 0 :: int)"
  obtain s1 where s1: "run_state OS__DisableInterrupts s = (lvl, s1)" "wii s1"
    "cpu s1 = cpu s" "\<forall>a. a \<noteq> c + 0x1A0 \<longrightarrow> mem s1 a = mem s a"
    using run_exchange_interrupts [OF w(1) c_def [symmetric] o'(5), of False]
    unfolding OS__DisableInterrupts_def lvl_def by blast
  have ne: "a \<noteq> c + 0x1A0" if "a \<in> V" for a using that o'(10) by blast
  have V: "q + kMsgQueueArrayOffset \<in> V" "q + kMsgQueueCountOffset \<in> V" "\<And>a. a \<in> msg_words q arr n \<Longrightarrow> a \<in> V"
    by (auto simp: V_def)
  have rep: "msg_rep q arr n u' ys" if "msg_rep q arr n u ys" "wii u'" "\<forall>a. a \<noteq> c + 0x1A0 \<longrightarrow> mem u' a = mem u a" for u u' ys
  proof (rule msg_rep_frame [OF that(1,2)])
    fix a assume "a \<in> msg_words q arr n \<union> {q + kMsgQueueArrayOffset, q + kMsgQueueCountOffset}"
    then have "a \<noteq> c + 0x1A0" using ne unfolding V_def by blast
    then show "mem u' a = mem u a" using that(3) by blast
  qed
  have r1: "msg_rep q arr n s1 xs" by (rule rep [OF assms(1) s1(2,4)])
  have restore: "\<exists>s'. run_state (OS__RestoreInterrupts lvl) u = (if interrupts_enabled u then 1 else 0, s') \<and> wii s' \<and>
      interrupts_enabled s' = interrupts_enabled s \<and> cpu s' = cpu u \<and> (\<forall>a. a \<noteq> c + 0x1A0 \<longrightarrow> mem s' a = mem u a)"
    if "wii u" "mem u kOSCurrentContextAddr = c" for u
    using run_exchange_interrupts [OF that o'(5), of "interrupts_enabled s"]
    unfolding OS__RestoreInterrupts_def lvl_def by (cases "interrupts_enabled s") auto
  show ?thesis
  proof (cases "length xs < n")
    case True
    obtain s2 where s2: "run_state (MsgQueueEnqueue q msg) s1 = ((), s2)" "msg_rep q arr n s2 (xs @ [msg])"
      "touches (msg_words q arr n) s1 s2"
      using run_enqueue [OF r1 True] by blast
    define s3 where "s3 = s2\<lparr>cpu := (cpu s2)\<lparr>gpr := (gpr (cpu s2))(3 := ?wake)\<rparr>\<rparr>"
    have w2: "wii s2" "wii s3" using s2(2) by (simp_all add: msg_rep_def s3_def)
    have m2: "mem s3 a = mem s1 a" if "a \<notin> V" for a
      using touches_mem [OF s2(3)] that by (simp add: s3_def V_def)
    have "mem s3 ?wake = 0" "mem s3 kOSCurrentContextAddr = c"
      using m2 o' s1(4) by (simp_all add: c_def)
    then obtain s4 where s4: "run_state (OSWakeupThread W fuel) s3 = ((), s4)" "wii s4"
      "interrupts_enabled s4 = interrupts_enabled s3" "\<forall>a. a \<noteq> c + 0x1A0 \<longrightarrow> mem s4 a = mem s3 a"
      using run_wakeup_empty [OF w2(2) _ o'(2,3) _ _ o'(5,7,9)] by (force simp: s3_def)
    define s5 where "s5 = s4\<lparr>cpu := (cpu s4)\<lparr>gpr := (gpr (cpu s4))(3 := 1)\<rparr>\<rparr>"
    have w5: "wii s5" "mem s5 kOSCurrentContextAddr = c"
      using s4(2,4) \<open>mem s3 kOSCurrentContextAddr = c\<close> o'(9) by (simp_all add: s5_def)
    obtain s6 where s6: "run_state (OS__RestoreInterrupts lvl) s5 = (if interrupts_enabled s5 then 1 else 0, s6)"
      "wii s6" "interrupts_enabled s6 = interrupts_enabled s" "cpu s6 = cpu s5"
      "\<forall>a. a \<noteq> c + 0x1A0 \<longrightarrow> mem s6 a = mem s5 a"
      using restore [OF w5] by blast
    have "run_state (OS__SendMessage W fuel) s = (1, s6)"
      unfolding OS__SendMessage_def MsgQueueOp_def
      using g o'(1) s1(1,2) r1 True run_full [OF r1] s2(1) s4(1) w2 wii_fault [OF w2(1)] wii_fault [OF w2(2)]
        wii_fault [OF s1(2)] wii_fault [OF s4(2)] wii_fault [OF s6(2)] s6(1) w5
      by (simp add: k run_simps try_catch_def flip: s3_def s5_def)
    moreover have "msg_rep q arr n s6 (xs @ [msg])"
      by (rule rep [OF s2(2) s6(2)]) (use s6(5) s4(4) in \<open>simp add: s5_def s3_def\<close>)
    ultimately show ?thesis
      using True s6 by (simp add: wii_fault s5_def)
  next
    case False
    then have full: "length xs = n" using w(2) by simp
    define s2 where "s2 = s1\<lparr>cpu := (cpu s1)\<lparr>gpr := (gpr (cpu s1))(3 := 0)\<rparr>\<rparr>"
    have w2: "wii s2" "mem s2 kOSCurrentContextAddr = c"
      using s1(2,4) o'(9) by (simp_all add: s2_def c_def)
    obtain s3 where s3: "run_state (OS__RestoreInterrupts lvl) s2 = (if interrupts_enabled s2 then 1 else 0, s3)"
      "wii s3" "interrupts_enabled s3 = interrupts_enabled s" "cpu s3 = cpu s2"
      "\<forall>a. a \<noteq> c + 0x1A0 \<longrightarrow> mem s3 a = mem s2 a"
      using restore [OF w2] by blast
    have "run_state (OS__SendMessage W fuel) s = (0, s3)"
      unfolding OS__SendMessage_def MsgQueueOp_def
      using g o'(1) s1(1,2) full run_full [OF r1] wii_fault [OF s1(2)] s3(1)
      by (simp add: k run_simps try_catch_def flip: s2_def)
    moreover have "msg_rep q arr n s3 xs"
      by (rule rep [OF r1 s3(2)]) (use s3(5) in \<open>simp add: s2_def\<close>)
    ultimately show ?thesis using False s3 by (simp add: wii_fault s2_def)
  qed
qed

text \<open>A queue of two words, at 0x80401000, on a machine that sends the message 7 without blocking.\<close>

definition demo_send :: os_machine where
  "demo_send = wr32 0x80401010 0x80402000 (wr32 0x80401014 2
     (boot_os\<lparr>cpu := zero_cpu\<lparr>gpr := (\<lambda>_. 0)(3 := 0x80401000, 4 := 7)\<rparr>\<rparr>))"

lemma demo_send_facts: "mem demo_send = (\<lambda>_. 0)(0x80401014 := 2, 0x80401010 := 0x80402000)" "wii demo_send"
  "gpr (cpu demo_send) 3 = 0x80401000" "gpr (cpu demo_send) 4 = 7" "gpr (cpu demo_send) 5 = 0"
proof -
  have b: "mem boot_os = (\<lambda>_. 0)" "wii boot_os"
    by (simp_all add: fun_eq_iff mem_def rd32_def boot_os_def be_word32_def wii_def)
  show "mem demo_send = (\<lambda>_. 0)(0x80401014 := 2, 0x80401010 := 0x80402000)" "wii demo_send"
    by (simp_all add: demo_send_def b word_ok_def cached_def)
  show "gpr (cpu demo_send) 3 = 0x80401000" "gpr (cpu demo_send) 4 = 7" "gpr (cpu demo_send) 5 = 0"
    by (simp_all add: demo_send_def)
qed

lemma demo_send_rep: "msg_rep 0x80401000 0x80402000 2 demo_send []"
proof -
  have "msg_layout 0x80401000 0x80402000 2"
    by (simp add: msg_layout_def msg_offsets slot_def word_ok_def cached_def less_2_cases_iff all_conj_distrib)
  then show ?thesis
    unfolding msg_rep_def using demo_send_facts by (auto simp: msg_offsets intro!: exI [of _ 0])
qed

lemma send_message_nonblocking_witness:
  "case run_state (OS__SendMessage quiet_world 1) demo_send of (r, s') \<Rightarrow>
     r = 1 \<and> msg_rep 0x80401000 0x80402000 2 s' [7]"
proof -
  have "op_ready 0x80401000 0x80402000 2 (0x80401000 + kMsgQueueRecvOffset) demo_send"
    by (auto simp: op_ready_def demo_send_facts msg_words_def msg_offsets kernel_words word_ok_def cached_def
        slot_def less_2_cases_iff)
  from send_message_nonblocking [OF demo_send_rep this demo_send_facts(3,4), of 1 quiet_world]
  show ?thesis by (simp add: demo_send_facts split: prod.splits)
qed

end
