(* ===== verification/OsMutex.thy ===== *)
theory OsMutex
  imports OsWakeup
begin

unbundle bit_operations_syntax

text \<open>
  The recursive mutexes of \<open>runtime/src/hle/os/os_scheduler.cpp\<close>: the list of mutexes a thread owns,
  \<open>OSLockMutex\<close> and \<open>OSUnlockMutex\<close>.  A call takes the mutex in r3; the calling thread is the running
  context.  Two results: sequences of calls that need not wait refine a table of owners and depths, and
  the release of the last level frees the mutex, gives back the inherited priority and makes every waiter
  ready.
\<close>

section \<open>Operations\<close>

definition LinkMutexToThread :: "u32 \<Rightarrow> u32 \<Rightarrow> ('z, unit) guest" where
  "LinkMutexToThread threadPtr mutexPtr = do {
     tail \<leftarrow> Read32 (threadPtr + kThreadMutexTailOffset);
     (if tail = 0 then Write32 (threadPtr + kThreadMutexQueueOffset) mutexPtr
      else Write32 (tail + kMutexThreadNextOffset) mutexPtr);
     Write32 (mutexPtr + kMutexThreadPrevOffset) tail;
     Write32 (mutexPtr + kMutexThreadNextOffset) 0;
     Write32 (threadPtr + kThreadMutexTailOffset) mutexPtr
   }"

definition UnlinkMutexFromThread :: "u32 \<Rightarrow> u32 \<Rightarrow> ('z, unit) guest" where
  "UnlinkMutexFromThread threadPtr mutexPtr =
     UnlinkGuestListNode mutexPtr kMutexThreadNextOffset kMutexThreadPrevOffset
       (threadPtr + kThreadMutexQueueOffset) (threadPtr + kThreadMutexTailOffset)"

text \<open>One round of the locking loop: \<open>Inr ()\<close> when the mutex has been taken.\<close>

definition lock_round :: "world \<Rightarrow> nat \<Rightarrow> u32 \<Rightarrow> u32 \<Rightarrow> (unit + unit) os" where
  "lock_round W fuel mutexPtr currentThread = do {
     ownerThread \<leftarrow> Read32 (mutexPtr + kMutexOwnerOffset);
     (if ownerThread = 0 then do {
        Write32 (mutexPtr + kMutexOwnerOffset) currentThread;
        count \<leftarrow> Read32 (mutexPtr + kMutexCountOffset);
        Write32 (mutexPtr + kMutexCountOffset) (count + 1);
        LinkMutexToThread currentThread mutexPtr;
        State_Monad.return (Inr ())
      } else if ownerThread = currentThread then do {
        count \<leftarrow> Read32 (mutexPtr + kMutexCountOffset);
        Write32 (mutexPtr + kMutexCountOffset) (count + 1);
        State_Monad.return (Inr ())
      } else do {
        Write32 (currentThread + kThreadMutexOffset) mutexPtr;
        priority \<leftarrow> Read32 (currentThread + kThreadPriorityOffset);
        PromoteThreadPriority fuel ownerThread (sint priority);
        gpr_put 3 mutexPtr;
        OSSleepThread W fuel;
        Write32 (currentThread + kThreadMutexOffset) 0;
        State_Monad.return (Inl ())
      })
   }"

definition OSLockMutex :: "world \<Rightarrow> nat \<Rightarrow> unit os" where
  "OSLockMutex W fuel = do {
     mutexPtr \<leftarrow> gpr_get 3;
     whenM (mutexPtr \<noteq> 0) (do {
       irqState \<leftarrow> OS__DisableInterrupts;
       try_catch (do {
         currentThread \<leftarrow> Read32 kOSRunningContextAddr;
         whenM (currentThread \<noteq> 0) (loop fuel () (\<lambda>_. lock_round W fuel mutexPtr currentThread) ())
       }) (State_Monad.return ());
       _ \<leftarrow> OS__RestoreInterrupts irqState;
       State_Monad.return ()
     })
   }"

text \<open>The release of the last level, before the waiters are woken.\<close>

definition release_mutex :: "nat \<Rightarrow> u32 \<Rightarrow> u32 \<Rightarrow> ('z, unit) guest" where
  "release_mutex fuel currentThread mutexPtr = do {
     UnlinkMutexFromThread currentThread mutexPtr;
     Write32 (mutexPtr + kMutexOwnerOffset) 0;
     effectivePriority \<leftarrow> Read32 (currentThread + kThreadPriorityOffset);
     basePriority \<leftarrow> Read32 (currentThread + kThreadBasePriorityOffset);
     whenM (sint effectivePriority < sint basePriority) (do {
       recomputedPriority \<leftarrow> ComputeThreadEffectivePriority fuel currentThread;
       Write32 (currentThread + kThreadPriorityOffset) (word_of_int recomputedPriority)
     })
   }"

definition OSUnlockMutex :: "world \<Rightarrow> nat \<Rightarrow> unit os" where
  "OSUnlockMutex W fuel = do {
     mutexPtr \<leftarrow> gpr_get 3;
     whenM (mutexPtr \<noteq> 0) (do {
       irqState \<leftarrow> OS__DisableInterrupts;
       try_catch (do {
         currentThread \<leftarrow> Read32 kOSRunningContextAddr;
         whenM (currentThread \<noteq> 0) (do {
           owner \<leftarrow> Read32 (mutexPtr + kMutexOwnerOffset);
           whenM (owner = currentThread) (do {
             before \<leftarrow> Read32 (mutexPtr + kMutexCountOffset);
             (let count = before - 1 in do {
               Write32 (mutexPtr + kMutexCountOffset) count;
               whenM (count = 0) (do {
                 release_mutex fuel currentThread mutexPtr;
                 gpr_put 3 mutexPtr;
                 OSWakeupThread W fuel
               })
             })
           })
         })
       }) (State_Monad.return ());
       _ \<leftarrow> OS__RestoreInterrupts irqState;
       State_Monad.return ()
     })
   }"

section \<open>The table of locks\<close>

text \<open>The specification state: who owns each mutex, how often, and each thread's mutexes in the order of
  their acquisition.\<close>

record lock_table =
  owner_of :: "u32 \<Rightarrow> u32"
  depth_of :: "u32 \<Rightarrow> nat"
  held :: "u32 \<Rightarrow> u32 list"

definition mutex_fields :: "u32 set" where
  "mutex_fields = {kMutexWaitQueueHeadOffset, 4, kMutexOwnerOffset, kMutexCountOffset, kMutexThreadNextOffset,
     kMutexThreadPrevOffset}"

definition lock_layout :: "u32 set \<Rightarrow> u32 set \<Rightarrow> bool" where
  "lock_layout T M \<longleftrightarrow> layout T queue_fields (sched_words \<union> rq_slots) \<and> layout M mutex_fields (sched_words \<union> rq_slots) \<and>
     (\<forall>t\<in>T. \<forall>i\<in>queue_fields. \<forall>mx\<in>M. \<forall>j\<in>mutex_fields. t + i \<noteq> mx + j) \<and> 0 \<notin> T \<and> 0 \<notin> M"

abbreviation mutex_list :: "(u32 \<Rightarrow> u32) \<Rightarrow> u32 \<Rightarrow> u32 list \<Rightarrow> bool" where
  "mutex_list m t ms \<equiv> dlist m kMutexThreadNextOffset kMutexThreadPrevOffset
     (t + kThreadMutexQueueOffset) (t + kThreadMutexTailOffset) ms"

definition lock_mem :: "(u32 \<Rightarrow> u32) \<Rightarrow> u32 set \<Rightarrow> u32 set \<Rightarrow> lock_table \<Rightarrow> bool" where
  "lock_mem m T M L \<longleftrightarrow>
     (\<forall>t\<in>T. mutex_list m t (held L t) \<and> set (held L t) = {mx\<in>M. owner_of L mx = t}) \<and>
     (\<forall>mx\<in>M. m (mx + kMutexOwnerOffset) = owner_of L mx \<and> m (mx + kMutexCountOffset) = of_nat (depth_of L mx) \<and>
        (owner_of L mx = 0 \<or> owner_of L mx \<in> T) \<and> depth_of L mx < 4294967296 \<and> (depth_of L mx = 0) = (owner_of L mx = 0))"

lemma mutex_offsets_ne [simp]:
  "kMutexOwnerOffset \<noteq> kMutexCountOffset" "kMutexCountOffset \<noteq> kMutexOwnerOffset"
  "kMutexThreadNextOffset \<noteq> kMutexThreadPrevOffset" "kMutexThreadPrevOffset \<noteq> kMutexThreadNextOffset"
  "kMutexThreadNextOffset \<noteq> kMutexOwnerOffset" "kMutexThreadNextOffset \<noteq> kMutexCountOffset"
  "kMutexThreadPrevOffset \<noteq> kMutexOwnerOffset" "kMutexThreadPrevOffset \<noteq> kMutexCountOffset"
  "kMutexOwnerOffset \<noteq> kMutexThreadNextOffset" "kMutexCountOffset \<noteq> kMutexThreadNextOffset"
  "kMutexOwnerOffset \<noteq> kMutexThreadPrevOffset" "kMutexCountOffset \<noteq> kMutexThreadPrevOffset"
  "kMutexWaitQueueHeadOffset \<noteq> kMutexOwnerOffset" "kMutexWaitQueueHeadOffset \<noteq> kMutexCountOffset"
  "kMutexWaitQueueHeadOffset \<noteq> kMutexThreadNextOffset" "kMutexWaitQueueHeadOffset \<noteq> kMutexThreadPrevOffset"
  "kThreadMutexQueueOffset \<noteq> kThreadMutexTailOffset" "kThreadMutexTailOffset \<noteq> kThreadMutexQueueOffset"
  "kThreadPriorityOffset \<noteq> kThreadMutexQueueOffset" "kThreadPriorityOffset \<noteq> kThreadMutexTailOffset"
  "kThreadBasePriorityOffset \<noteq> kThreadMutexQueueOffset" "kThreadBasePriorityOffset \<noteq> kThreadMutexTailOffset"
  "kThreadPriorityOffset \<noteq> 0x1A0" "kThreadBasePriorityOffset \<noteq> 0x1A0"
  by (simp_all add: mutex_offsets thread_offsets)

lemma mutex_fieldsI [simp]:
  "kMutexWaitQueueHeadOffset \<in> mutex_fields" "kMutexOwnerOffset \<in> mutex_fields" "kMutexCountOffset \<in> mutex_fields"
  "kMutexThreadNextOffset \<in> mutex_fields" "kMutexThreadPrevOffset \<in> mutex_fields"
  by (simp_all add: mutex_fields_def)

lemma lock_layoutD:
  assumes "lock_layout T M"
  shows "t \<in> T \<Longrightarrow> i \<in> queue_fields \<Longrightarrow> word_ok (t + i)" "mx \<in> M \<Longrightarrow> j \<in> mutex_fields \<Longrightarrow> word_ok (mx + j)"
    "t \<in> T \<Longrightarrow> i \<in> queue_fields \<Longrightarrow> t + i \<notin> sched_words \<union> rq_slots" "mx \<in> M \<Longrightarrow> j \<in> mutex_fields \<Longrightarrow> mx + j \<notin> sched_words \<union> rq_slots"
    "t \<in> T \<Longrightarrow> i \<in> queue_fields \<Longrightarrow> mx \<in> M \<Longrightarrow> j \<in> mutex_fields \<Longrightarrow> t + i \<noteq> mx + j"
    "t \<in> T \<Longrightarrow> i \<in> queue_fields \<Longrightarrow> mx \<in> M \<Longrightarrow> j \<in> mutex_fields \<Longrightarrow> mx + j \<noteq> t + i"
    "t \<in> T \<Longrightarrow> i \<in> queue_fields \<Longrightarrow> u \<in> T \<Longrightarrow> k \<in> queue_fields \<Longrightarrow> (t + i = u + k) = (t = u \<and> i = k)"
    "mx \<in> M \<Longrightarrow> j \<in> mutex_fields \<Longrightarrow> my \<in> M \<Longrightarrow> k \<in> mutex_fields \<Longrightarrow> (mx + j = my + k) = (mx = my \<and> j = k)"
    "0 \<notin> T" "0 \<notin> M"
proof -
  have t: "layout T queue_fields (sched_words \<union> rq_slots)" and m: "layout M mutex_fields (sched_words \<union> rq_slots)"
    and x: "\<forall>t\<in>T. \<forall>i\<in>queue_fields. \<forall>mx\<in>M. \<forall>j\<in>mutex_fields. t + i \<noteq> mx + j"
    using assms by (simp_all add: lock_layout_def)
  show "t \<in> T \<Longrightarrow> i \<in> queue_fields \<Longrightarrow> word_ok (t + i)" by (rule layoutD(1) [OF t])
  show "mx \<in> M \<Longrightarrow> j \<in> mutex_fields \<Longrightarrow> word_ok (mx + j)" by (rule layoutD(1) [OF m])
  show "t \<in> T \<Longrightarrow> i \<in> queue_fields \<Longrightarrow> t + i \<notin> sched_words \<union> rq_slots" using layoutD(3) [OF t] by blast
  show "mx \<in> M \<Longrightarrow> j \<in> mutex_fields \<Longrightarrow> mx + j \<notin> sched_words \<union> rq_slots" using layoutD(3) [OF m] by blast
  show "t + i \<noteq> mx + j" "mx + j \<noteq> t + i" if "t \<in> T" "i \<in> queue_fields" "mx \<in> M" "j \<in> mutex_fields" for t i mx j
    using x that by metis+
  show "t \<in> T \<Longrightarrow> i \<in> queue_fields \<Longrightarrow> u \<in> T \<Longrightarrow> k \<in> queue_fields \<Longrightarrow> (t + i = u + k) = (t = u \<and> i = k)"
    using layoutD(5) [OF t] by blast
  show "mx \<in> M \<Longrightarrow> j \<in> mutex_fields \<Longrightarrow> my \<in> M \<Longrightarrow> k \<in> mutex_fields \<Longrightarrow> (mx + j = my + k) = (mx = my \<and> j = k)"
    using layoutD(5) [OF m] by blast
  show "0 \<notin> T" "0 \<notin> M" using assms by (simp_all add: lock_layout_def)
qed

lemma mutex_list_layout:
  assumes "lock_layout T M" "t \<in> T" "set ms \<subseteq> M"
  shows "layout (set ms) {kMutexThreadNextOffset, kMutexThreadPrevOffset} {t + kThreadMutexQueueOffset, t + kThreadMutexTailOffset}"
proof -
  note L = lock_layoutD [OF assms(1)]
  have s: "kMutexThreadNextOffset \<in> mutex_fields" "kMutexThreadPrevOffset \<in> mutex_fields"
    "kThreadMutexQueueOffset \<in> queue_fields" "kThreadMutexTailOffset \<in> queue_fields" by simp_all
  show ?thesis unfolding layout_def
  proof (intro conjI ballI impI)
    fix x i assume x: "x \<in> set ms" "i \<in> {kMutexThreadNextOffset, kMutexThreadPrevOffset}"
    then have xi: "x \<in> M" "i \<in> mutex_fields" using assms(3) s by auto
    show "word_ok (x + i)" using L(2) xi by blast
    show "x + i \<notin> {t + kThreadMutexQueueOffset, t + kThreadMutexTailOffset}" using L(6) [OF assms(2) _ xi] s by blast
    fix y j assume y: "y \<in> set ms" "j \<in> {kMutexThreadNextOffset, kMutexThreadPrevOffset}" "x + i = y + j"
    then have yj: "y \<in> M" "j \<in> mutex_fields" using assms(3) s by auto
    show "x = y" "i = j" using L(8) [OF xi yj] y(3) by blast+
  next
    fix g assume "g \<in> {t + kThreadMutexQueueOffset, t + kThreadMutexTailOffset}"
    then show "word_ok g" using L(1) [OF assms(2)] s by blast
  qed
qed

lemma run_link_mutex:
  fixes s :: "'z machine_scheme"
  assumes "wii s" and d: "mutex_list (mem s) t ms" and lay: "lock_layout T M" "t \<in> T" "set ms \<subseteq> M" "mx \<in> M"
    and x: "mx \<notin> set ms"
  shows "\<exists>s'. run_state (LinkMutexToThread t mx) s = ((), s') \<and>
     touches (list_words (ms @ [mx]) kMutexThreadNextOffset kMutexThreadPrevOffset
       (t + kThreadMutexQueueOffset) (t + kThreadMutexTailOffset)) s s' \<and>
     mutex_list (mem s') t (ms @ [mx])"
proof -
  let ?no = kMutexThreadNextOffset and ?po = kMutexThreadPrevOffset
  let ?h = "t + kThreadMutexQueueOffset" and ?tl = "t + kThreadMutexTailOffset"
  let ?B = "next_slot ?no ?h ms"
  let ?m = "(mem s)(mx + ?no := head_or 0 [], prev_slot ?po ?tl [] := mx, mx + ?po := last_or 0 ms, ?B := mx)"
  have sub: "set (ms @ mx # []) \<subseteq> M" using lay(3,4) by simp
  note K = mutex_list_layout [OF lay(1,2) sub]
  note L = layoutD [OF K]
  have x0: "mx \<noteq> 0" using lock_layoutD(10) [OF lay(1)] lay(4) by auto
  have ok: "word_ok ?h" "word_ok ?tl" "word_ok (mx + ?no)" "word_ok (mx + ?po)" "word_ok ?B"
    using L(1,2) by (auto simp: next_slot_def)
  have tl: "mem s ?tl = last_or 0 ms" and z: "0 \<notin> set ms" using d by (simp_all add: dlist_def)
  have hB: "(if last_or 0 ms = 0 then Write32 ?h v else Write32 (last_or 0 ms + ?no) v) = (Write32 ?B v :: ('z, unit) guest)" for v
    using z last_in_set [of ms] by (auto simp: next_slot_def last_or_def simp del: last_in_set)
  have ht: "?h \<noteq> ?tl" by simp
  have Bx: "?B \<noteq> mx + ?no" "?B \<noteq> mx + ?po" "?B \<noteq> ?tl"
  proof -
    have "ms \<noteq> [] \<Longrightarrow> last ms \<noteq> mx" using x last_in_set [of ms] by auto
    then show "?B \<noteq> mx + ?no" "?B \<noteq> mx + ?po" "?B \<noteq> ?tl"
      using L(3) [of "last ms" ?no ?tl] L(4) [of mx _ ?h] L(5) [of "last ms" mx ?no] ht
      by (auto simp: next_slot_def)
  qed
  have xt: "mx + ?no \<noteq> ?tl" "mx + ?po \<noteq> ?tl" using L(3) by auto
  let ?s = "wr32 ?tl mx (wr32 (mx + ?no) 0 (wr32 (mx + ?po) (last_or 0 ms) (wr32 ?B mx s)))"
  have run: "run_state (LinkMutexToThread t mx) s = ((), ?s)"
    using assms(1) ok tl hB by (simp add: LinkMutexToThread_def run_simps)
  have m: "mem ?s = ?m" using ok Bx xt by (auto simp: prev_slot_def fun_eq_iff)
  have "mutex_list (mem ?s) t (ms @ mx # [])"
    unfolding m by (rule splice_insert) (use d x x0 K in simp_all)
  moreover have "touches (list_words (ms @ [mx]) ?no ?po ?h ?tl) s ?s"
  proof -
    have "?B \<in> list_words (ms @ [mx]) ?no ?po ?h ?tl" by (rule slots_in_words)
    then show ?thesis unfolding touches_def m by (auto simp: list_words_def prev_slot_def fields_of_def)
  qed
  ultimately show ?thesis using run by auto
qed

section \<open>What taking and releasing change\<close>

definition lock_words :: "u32 set \<Rightarrow> u32 set \<Rightarrow> u32 set" where
  "lock_words T M = fields_of T {kThreadMutexQueueOffset, kThreadMutexTailOffset} \<union>
     fields_of M {kMutexOwnerOffset, kMutexCountOffset, kMutexThreadNextOffset, kMutexThreadPrevOffset}"

abbreviation mutex_list_words :: "u32 \<Rightarrow> u32 list \<Rightarrow> u32 set" where
  "mutex_list_words t ms \<equiv> list_words ms kMutexThreadNextOffset kMutexThreadPrevOffset
     (t + kThreadMutexQueueOffset) (t + kThreadMutexTailOffset)"

lemma list_words_sub_lock_words: "t \<in> T \<Longrightarrow> set ms \<subseteq> M \<Longrightarrow> mutex_list_words t ms \<subseteq> lock_words T M"
  unfolding list_words_def lock_words_def fields_of_def by blast

lemma mutex_list_frame:
  assumes "\<And>a. a \<in> mutex_list_words t ms \<Longrightarrow> m' a = m a"
  shows "mutex_list m' t ms = mutex_list m t ms"
proof (rule dlist_frame)
  fix x assume "x \<in> set ms"
  then have "x + kMutexThreadNextOffset \<in> mutex_list_words t ms" "x + kMutexThreadPrevOffset \<in> mutex_list_words t ms"
    by (auto simp: list_words_def)
  then show "m' (x + kMutexThreadNextOffset) = m (x + kMutexThreadNextOffset) \<and>
      m' (x + kMutexThreadPrevOffset) = m (x + kMutexThreadPrevOffset)" using assms by blast
qed (use assms in \<open>auto simp: list_words_def\<close>)

lemma mutex_field_not_in_list:
  assumes "lock_layout T M" "t \<in> T" "set ms \<subseteq> M" "mx \<in> M" "j \<in> {kMutexOwnerOffset, kMutexCountOffset, kMutexWaitQueueHeadOffset}"
  shows "mx + j \<notin> mutex_list_words t ms"
proof -
  note L = lock_layoutD [OF assms(1)]
  have j: "j \<in> mutex_fields" "j \<noteq> kMutexThreadNextOffset" "j \<noteq> kMutexThreadPrevOffset"
    using assms(5) by (auto simp: mutex_fields_def mutex_offsets)
  have "mx + j \<noteq> t + kThreadMutexQueueOffset" "mx + j \<noteq> t + kThreadMutexTailOffset"
    by (rule L(6) [OF assms(2) _ assms(4) j(1)]; simp)+
  moreover have "mx + j \<noteq> x + i" if "x \<in> set ms" "i \<in> {kMutexThreadNextOffset, kMutexThreadPrevOffset}" for x i
    using L(8) [OF assms(4) j(1), of x i] that assms(3) j(2,3) by auto
  ultimately show ?thesis by (auto simp: list_words_def fields_of_def)
qed

lemma mutex_lists_disjoint:
  assumes "lock_layout T M" "t \<in> T" "u \<in> T" "t \<noteq> u" "set ms \<subseteq> M" "set ns \<subseteq> M" "set ms \<inter> set ns = {}"
  shows "mutex_list_words t ms \<inter> mutex_list_words u ns = {}"
proof -
  note L = lock_layoutD [OF assms(1)]
  have o: "kThreadMutexQueueOffset \<in> queue_fields" "kThreadMutexTailOffset \<in> queue_fields"
    "kMutexThreadNextOffset \<in> mutex_fields" "kMutexThreadPrevOffset \<in> mutex_fields" by simp_all
  have a: "x + i \<noteq> y + j" if "x \<in> set ms" "y \<in> set ns" "i \<in> mutex_fields" "j \<in> mutex_fields" for x y i j
    using L(8) [of x i y j] that assms(5-7) by auto
  have b: "t + i \<noteq> u + j" if "i \<in> queue_fields" "j \<in> queue_fields" for i j
    using L(7) [OF assms(2) that(1) assms(3) that(2)] assms(4) by simp
  have c: "t + i \<noteq> y + j" if "y \<in> set ns" "i \<in> queue_fields" "j \<in> mutex_fields" for y i j
    using L(5) [OF assms(2) that(2) _ that(3), of y] that(1) assms(6) by auto
  have d: "x + i \<noteq> u + j" if "x \<in> set ms" "i \<in> mutex_fields" "j \<in> queue_fields" for x i j
    using L(6) [OF assms(3) that(3) _ that(2), of x] that(1) assms(5) by auto
  have "w \<notin> mutex_list_words u ns" if w: "w \<in> mutex_list_words t ms" for w
  proof -
    consider i where "w = t + i" "i \<in> {kThreadMutexQueueOffset, kThreadMutexTailOffset}"
      | x i where "w = x + i" "x \<in> set ms" "i \<in> {kMutexThreadNextOffset, kMutexThreadPrevOffset}"
      using w by (auto simp: list_words_def fields_of_def)
    then show ?thesis
    proof cases
      case 1
      then have "i \<in> queue_fields" using o by auto
      then have "w \<noteq> u + kThreadMutexQueueOffset" "w \<noteq> u + kThreadMutexTailOffset"
        "\<And>y j. y \<in> set ns \<Longrightarrow> j \<in> mutex_fields \<Longrightarrow> w \<noteq> y + j" using b c o unfolding 1(1) by metis+
      then show ?thesis using o unfolding list_words_def fields_of_def by blast
    next
      case 2
      then have "i \<in> mutex_fields" using o by auto
      then have "w \<noteq> u + kThreadMutexQueueOffset" "w \<noteq> u + kThreadMutexTailOffset"
        "\<And>y j. y \<in> set ns \<Longrightarrow> j \<in> mutex_fields \<Longrightarrow> w \<noteq> y + j" using a d o 2(2) unfolding 2(1) by metis+
      then show ?thesis using o unfolding list_words_def fields_of_def by blast
    qed
  qed
  then show ?thesis by blast
qed

text \<open>The table after a change of one mutex, given that memory changed accordingly.\<close>

definition set_lock :: "u32 \<Rightarrow> u32 \<Rightarrow> nat \<Rightarrow> u32 \<Rightarrow> u32 list \<Rightarrow> lock_table \<Rightarrow> lock_table" where
  "set_lock mx owner depth t ms L =
     L\<lparr>owner_of := (owner_of L)(mx := owner), depth_of := (depth_of L)(mx := depth), held := (held L)(t := ms)\<rparr>"

lemma lock_mem_update:
  assumes inv: "lock_mem m T M L" and lay: "lock_layout T M" "t \<in> T" "mx \<in> M"
    and own: "owner_of L mx \<in> {0, t}" "ow \<in> {0, t}" "d < 4294967296" "(d = 0) = (ow = 0)"
    and ms: "mutex_list m' t ms" "set ms = {my\<in>M. ((owner_of L)(mx := ow)) my = t}"
    and m': "m' (mx + kMutexOwnerOffset) = ow" "m' (mx + kMutexCountOffset) = of_nat d"
      "\<And>a. a \<notin> mutex_list_words t (held L t @ [mx]) \<union> {mx + kMutexOwnerOffset, mx + kMutexCountOffset} \<Longrightarrow> a \<in> lock_words T M \<Longrightarrow> m' a = m a"
  shows "lock_mem m' T M (set_lock mx ow d t ms L)"
proof -
  note D = lock_layoutD [OF lay(1)]
  let ?L = "set_lock mx ow d t ms L"
  have t0: "t \<noteq> 0" using lay(2) D(9) by auto
  have h: "set (held L u) = {mx\<in>M. owner_of L mx = u}" "mutex_list m u (held L u)" if "u \<in> T" for u
    using inv that by (simp_all add: lock_mem_def)
  have sub: "set (held L t @ [mx]) \<subseteq> M" using h(1) [OF lay(2)] lay(3) by auto
  have "mutex_list m' u (held ?L u) \<and> set (held ?L u) = {mx\<in>M. owner_of ?L mx = u}" if u: "u \<in> T" for u
  proof (cases "u = t")
    case True
    then show ?thesis using ms by (simp add: set_lock_def)
  next
    case False
    have u0: "u \<noteq> 0" using u D(9) by auto
    have hs: "set (held L u) \<subseteq> M" "set (held L t @ [mx]) \<inter> set (held L u) = {}"
      using h(1) [OF u] h(1) [OF lay(2)] own(1) False u0 by auto
    have "m' a = m a" if a: "a \<in> mutex_list_words u (held L u)" for a
    proof (rule m'(3))
      show "a \<in> lock_words T M" using a list_words_sub_lock_words [OF u hs(1)] by blast
      have "a \<notin> mutex_list_words t (held L t @ [mx])"
        using mutex_lists_disjoint [OF lay(1,2) u _ sub hs] False a by blast
      moreover have "a \<noteq> mx + j" if "j \<in> {kMutexOwnerOffset, kMutexCountOffset, kMutexWaitQueueHeadOffset}" for j
        using mutex_field_not_in_list [OF lay(1) u hs(1) lay(3) that] a by auto
      ultimately show "a \<notin> mutex_list_words t (held L t @ [mx]) \<union> {mx + kMutexOwnerOffset, mx + kMutexCountOffset}" by simp
    qed
    then have "mutex_list m' u (held L u)" using mutex_list_frame [of "held L u" u m' m] h(2) [OF u] by simp
    moreover have "{my\<in>M. ((owner_of L)(mx := ow)) my = u} = {my\<in>M. owner_of L my = u}" using own(1,2) False u0 by auto
    ultimately show ?thesis using h(1) [OF u] False by (simp add: set_lock_def)
  qed
  moreover have "m' (my + kMutexOwnerOffset) = owner_of ?L my \<and> m' (my + kMutexCountOffset) = of_nat (depth_of ?L my) \<and>
      (owner_of ?L my = 0 \<or> owner_of ?L my \<in> T) \<and> depth_of ?L my < 4294967296 \<and> (depth_of ?L my = 0) = (owner_of ?L my = 0)"
    if my: "my \<in> M" for my
  proof (cases "my = mx")
    case True
    then show ?thesis using m'(1,2) own lay(2) by (auto simp: set_lock_def)
  next
    case False
    have "m' (my + j) = m (my + j)" if j: "j \<in> {kMutexOwnerOffset, kMutexCountOffset}" for j
    proof (rule m'(3))
      have jf: "j \<in> mutex_fields" using j by auto
      have "my + j \<noteq> mx + k" if "k \<in> mutex_fields" for k using D(8) [OF my jf lay(3) that] False by simp
      moreover have "my + j \<notin> mutex_list_words t (held L t @ [mx])"
        using mutex_field_not_in_list [OF lay(1,2) sub my] j by auto
      ultimately show "my + j \<notin> mutex_list_words t (held L t @ [mx]) \<union> {mx + kMutexOwnerOffset, mx + kMutexCountOffset}" by simp
      show "my + j \<in> lock_words T M" using my j by (auto simp: lock_words_def)
    qed
    then show ?thesis using inv my False by (simp add: lock_mem_def set_lock_def)
  qed
  ultimately show ?thesis by (simp add: lock_mem_def)
qed

definition lock_rep :: "u32 set \<Rightarrow> u32 set \<Rightarrow> 'z machine_scheme \<Rightarrow> lock_table \<Rightarrow> bool" where
  "lock_rep T M s L \<longleftrightarrow> wii s \<and> lock_layout T M \<and> lock_mem (mem s) T M L"

lemma lock_repD:
  assumes "lock_rep T M s L"
  shows "wii s" "lock_layout T M" "lock_mem (mem s) T M L"
    "mx \<in> M \<Longrightarrow> mem s (mx + kMutexOwnerOffset) = owner_of L mx"
    "mx \<in> M \<Longrightarrow> mem s (mx + kMutexCountOffset) = of_nat (depth_of L mx)"
    "mx \<in> M \<Longrightarrow> depth_of L mx < 4294967296"
    "mx \<in> M \<Longrightarrow> (depth_of L mx = 0) = (owner_of L mx = 0)"
    "t \<in> T \<Longrightarrow> mutex_list (mem s) t (held L t)" "t \<in> T \<Longrightarrow> set (held L t) = {mx\<in>M. owner_of L mx = t}"
    "t \<in> T \<Longrightarrow> t \<noteq> 0"
proof -
  show "wii s" "lock_layout T M" "lock_mem (mem s) T M L" using assms by (simp_all add: lock_rep_def)
  then show "mx \<in> M \<Longrightarrow> mem s (mx + kMutexOwnerOffset) = owner_of L mx"
    "mx \<in> M \<Longrightarrow> mem s (mx + kMutexCountOffset) = of_nat (depth_of L mx)"
    "mx \<in> M \<Longrightarrow> depth_of L mx < 4294967296" "mx \<in> M \<Longrightarrow> (depth_of L mx = 0) = (owner_of L mx = 0)"
    "t \<in> T \<Longrightarrow> mutex_list (mem s) t (held L t)" "t \<in> T \<Longrightarrow> set (held L t) = {mx\<in>M. owner_of L mx = t}"
    by (simp_all add: lock_mem_def)
  show "t \<in> T \<Longrightarrow> t \<noteq> 0" using lock_layoutD(9) [of T M] assms by (auto simp: lock_rep_def)
qed

lemma touches_wr32: "word_ok a \<Longrightarrow> touches {a} s (wr32 a v s)"
  by (simp add: touches_def)

lemma lock_field_words:
  "mx \<in> M \<Longrightarrow> mx + kMutexOwnerOffset \<in> lock_words T M" "mx \<in> M \<Longrightarrow> mx + kMutexCountOffset \<in> lock_words T M"
  by (auto simp: lock_words_def fields_of_def)

text \<open>Taking a free mutex, or one more level of an own one.\<close>

lemma run_take:
  fixes s :: os_machine
  assumes r: "lock_rep T M s L" and tm: "t \<in> T" "mx \<in> M" and o: "owner_of L mx \<in> {0, t}"
    and d: "depth_of L mx + 1 < 4294967296"
  shows "\<exists>s'. run_state (lock_round W fuel mx t) s = (Inr (), s') \<and> touches (lock_words T M) s s' \<and>
    lock_rep T M s' (set_lock mx t (depth_of L mx + 1) t (if owner_of L mx = 0 then held L t @ [mx] else held L t) L)"
proof -
  note R = lock_repD [OF r]
  note D = lock_layoutD [OF R(2)]
  let ?o = "mx + kMutexOwnerOffset" and ?c = "mx + kMutexCountOffset"
  have ok: "word_ok ?o" "word_ok ?c" using D(2) [OF tm(2)] by simp_all
  have oc: "?o \<noteq> ?c" by simp
  have t0: "t \<noteq> 0" using R(10) tm(1) by blast
  have sub: "set (held L t) \<subseteq> M" using R(9) [OF tm(1)] by auto
  have cnt: "mem s ?c + 1 = of_nat (depth_of L mx + 1)" using R(5) [OF tm(2)] by simp
  have keep: "\<And>a j. a \<in> mutex_list_words t ms \<Longrightarrow> set ms \<subseteq> M \<Longrightarrow> j \<in> {kMutexOwnerOffset, kMutexCountOffset} \<Longrightarrow> a \<noteq> mx + j" for ms
    using mutex_field_not_in_list [OF R(2) tm(1) _ tm(2)] by auto
  show ?thesis
  proof (cases "owner_of L mx = 0")
    case True
    have new: "mx \<notin> set (held L t)" using R(9) [OF tm(1)] True t0 by simp
    define s2 where "s2 = wr32 ?c (mem s ?c + 1) (wr32 ?o t s)"
    have m2: "mem s2 = (mem s)(?o := t, ?c := of_nat (depth_of L mx + 1))" and w2: "wii s2"
      unfolding s2_def cnt using ok R(1) by (simp_all del: of_nat_add of_nat_Suc)
    have "mutex_list (mem s2) t (held L t)"
      using mutex_list_frame [of "held L t" t "mem s2" "mem s"] keep [OF _ sub] R(8) [OF tm(1)] by (simp add: m2)
    then obtain s3 where s3: "run_state (LinkMutexToThread t mx) s2 = ((), s3)"
      "touches (mutex_list_words t (held L t @ [mx])) s2 s3" "mutex_list (mem s3) t (held L t @ [mx])"
      using run_link_mutex [OF w2 _ R(2) tm(1) sub tm(2) new] by blast
    have w3: "wii s3" using s3(2) w2 by (rule touches_wii)
    have subx: "set (held L t @ [mx]) \<subseteq> M" using sub tm(2) by simp
    have o3: "mem s3 ?o = t" "mem s3 ?c = of_nat (depth_of L mx + 1)"
      using mutex_field_not_in_list [OF R(2) tm(1) subx tm(2)] touches_mem [OF s3(2)] by (simp_all add: m2)
    have run: "run_state (lock_round W fuel mx t) s = (Inr (), s3)"
      unfolding lock_round_def using R(1,4) tm(2) ok True oc w2 s3(1)
      by (simp add: run_simps flip: s2_def)
    have keep3: "mem s3 a = mem s a" if "a \<notin> mutex_list_words t (held L t @ [mx]) \<union> {?o, ?c}" for a
      using that touches_mem [OF s3(2)] by (simp add: m2)
    have "lock_mem (mem s3) T M (set_lock mx t (depth_of L mx + 1) t (held L t @ [mx]) L)"
      by (rule lock_mem_update [OF R(3,2) tm o]) (use s3(3) o3 keep3 d R(9) [OF tm(1)] t0 tm(2) in auto)
    moreover have "touches (lock_words T M) s s3"
    proof -
      have "touches ({?o} \<union> {?c} \<union> mutex_list_words t (held L t @ [mx])) s s3"
        using touches_trans [OF touches_trans [OF touches_wr32 touches_wr32] s3(2) [unfolded s2_def]] ok by blast
      then show ?thesis by (rule touches_mono) (use list_words_sub_lock_words [OF tm(1) subx] lock_field_words [OF tm(2)] in blast)
    qed
    ultimately show ?thesis using run w3 R(2) True by (auto simp: lock_rep_def)
  next
    case False
    then have ot: "owner_of L mx = t" using o by simp
    define s2 where "s2 = wr32 ?c (mem s ?c + 1) s"
    have m2: "mem s2 = (mem s)(?c := of_nat (depth_of L mx + 1))" and w2: "wii s2"
      unfolding s2_def cnt using ok R(1) by (simp_all del: of_nat_add of_nat_Suc)
    have run: "run_state (lock_round W fuel mx t) s = (Inr (), s2)"
      unfolding lock_round_def using R(1,4) tm(2) ok False ot t0 by (simp add: run_simps flip: s2_def)
    have "mutex_list (mem s2) t (held L t)"
      using mutex_list_frame [of "held L t" t "mem s2" "mem s"] keep [OF _ sub] R(8) [OF tm(1)] by (simp add: m2)
    then have "lock_mem (mem s2) T M (set_lock mx t (depth_of L mx + 1) t (held L t) L)"
      using ot oc R(4) [OF tm(2)] d R(9) [OF tm(1)] t0
      by (intro lock_mem_update [OF R(3,2) tm o]) (auto simp: m2)
    moreover have "touches (lock_words T M) s s2"
      unfolding s2_def by (rule touches_mono [OF touches_wr32 [OF ok(2)]]) (use lock_field_words(2) [OF tm(2)] in blast)
    ultimately show ?thesis using run w2 R(2) False by (auto simp: lock_rep_def)
  qed
qed

text \<open>Threads' queue fields are apart from the words of the lock table.\<close>

lemma not_in_lock_words:
  assumes "lock_layout T M" "t \<in> T" "i \<in> queue_fields" "i \<notin> {kThreadMutexQueueOffset, kThreadMutexTailOffset}"
  shows "t + i \<notin> lock_words T M"
proof -
  note D = lock_layoutD [OF assms(1)]
  have "t + i \<noteq> u + j" if "u \<in> T" "j \<in> {kThreadMutexQueueOffset, kThreadMutexTailOffset}" for u j
    using D(7) [OF assms(2,3) that(1), of j] that(2) assms(4) by auto
  moreover have "t + i \<noteq> mx + j" if "mx \<in> M" "j \<in> mutex_fields" for mx j
    using D(5) [OF assms(2,3) that] .
  ultimately show ?thesis unfolding lock_words_def fields_of_def using mutex_fieldsI by blast
qed

lemma wait_head_not_in_lock_words:
  assumes "lock_layout T M" "mx \<in> M"
  shows "mx + kMutexWaitQueueHeadOffset \<notin> lock_words T M"
proof -
  note D = lock_layoutD [OF assms(1)]
  have "mx + kMutexWaitQueueHeadOffset \<noteq> u + j" if "u \<in> T" "j \<in> {kThreadMutexQueueOffset, kThreadMutexTailOffset}" for u j
    by (rule D(6) [OF that(1) _ assms(2)]) (use that(2) in auto)
  moreover have "mx + kMutexWaitQueueHeadOffset \<noteq> my + j"
    if "my \<in> M" "j \<in> {kMutexOwnerOffset, kMutexCountOffset, kMutexThreadNextOffset, kMutexThreadPrevOffset}" for my j
    using D(8) [OF assms(2) mutex_fieldsI(1) that(1), of j] that(2) by (auto simp: mutex_fields_def mutex_offsets)
  ultimately show ?thesis unfolding lock_words_def fields_of_def by blast
qed

lemma lock_words_ok:
  assumes "lock_layout T M" "a \<in> lock_words T M"
  shows "word_ok a" "a \<notin> sched_words"
proof -
  note D = lock_layoutD [OF assms(1)]
  consider t i where "a = t + i" "t \<in> T" "i \<in> queue_fields" | mx j where "a = mx + j" "mx \<in> M" "j \<in> mutex_fields"
    using assms(2) queue_fieldsI mutex_fieldsI unfolding lock_words_def fields_of_def by blast
  then show "word_ok a" "a \<notin> sched_words" using D(1-4) by (cases; blast)+
qed

text \<open>The interrupt flag word of the current context is apart from all of this.\<close>

lemma flag_word_apart:
  assumes "lock_layout T M" "c = 0 \<or> c \<in> T"
  shows "c = 0 \<or> word_ok (c + 0x1A0)" "c + 0x1A0 \<notin> lock_words T M" "c + 0x1A0 \<notin> sched_words" "a \<in> sched_words \<Longrightarrow> a \<noteq> c + 0x1A0"
    "mx \<in> M \<Longrightarrow> mx + kMutexWaitQueueHeadOffset \<noteq> c + 0x1A0" "t \<in> T \<Longrightarrow> i \<in> queue_fields \<Longrightarrow> i \<noteq> 0x1A0 \<Longrightarrow> t + i \<noteq> c + 0x1A0"
proof -
  note D = lock_layoutD [OF assms(1)]
  have n0: "\<not> word_ok 0x1A0" by (simp add: word_ok_def cached_def)
  show "c = 0 \<or> word_ok (c + 0x1A0)" using assms(2) D(1) [of c "0x1A0"] by auto
  have "(0x1A0 :: u32) \<notin> {kThreadMutexQueueOffset, kThreadMutexTailOffset}" by (simp add: thread_offsets)
  then show "c + 0x1A0 \<notin> lock_words T M"
    using assms(2) n0 lock_words_ok(1) [OF assms(1), of "0x1A0"] not_in_lock_words [OF assms(1), of c "0x1A0"] by auto
  show s: "c + 0x1A0 \<notin> sched_words" using assms(2) n0 sched_words_ok [of "0x1A0"] D(3) [of c "0x1A0"] by auto
  show "a \<in> sched_words \<Longrightarrow> a \<noteq> c + 0x1A0" using s by auto
  show "mx \<in> M \<Longrightarrow> mx + kMutexWaitQueueHeadOffset \<noteq> c + 0x1A0"
    using assms(2) n0 D(2) [of mx kMutexWaitQueueHeadOffset] D(6) [of c "0x1A0" mx kMutexWaitQueueHeadOffset] by auto
  show "t \<in> T \<Longrightarrow> i \<in> queue_fields \<Longrightarrow> i \<noteq> 0x1A0 \<Longrightarrow> t + i \<noteq> c + 0x1A0"
    using assms(2) n0 D(1) [of t i] D(7) [of t i c "0x1A0"] by auto
qed

definition waiters_in :: "u32 set \<Rightarrow> u32 set \<Rightarrow> (u32 \<Rightarrow> u32) \<Rightarrow> bool" where
  "waiters_in T M m \<longleftrightarrow> (\<forall>mx\<in>M. first_waiter m mx = 0 \<or> first_waiter m mx \<in> T)"

lemma lock_words_waiters:
  assumes "lock_layout T M" "waiters_in T M m" "c = 0 \<or> c \<in> T"
    and fr: "\<forall>a. a \<notin> insert (c + 0x1A0) (lock_words T M) \<longrightarrow> m' a = m a"
  shows "mx \<in> M \<Longrightarrow> first_waiter m' mx = first_waiter m mx" "t \<in> T \<Longrightarrow> prio_of m' t = prio_of m t"
    "waiters_in T M m'" "set ms \<subseteq> M \<Longrightarrow> inherited m' ms = inherited m ms"
    "t \<in> T \<Longrightarrow> m' (t + kThreadBasePriorityOffset) = m (t + kThreadBasePriorityOffset)"
proof -
  note F = flag_word_apart [OF assms(1,3)]
  show f: "first_waiter m' mx = first_waiter m mx" if "mx \<in> M" for mx
    using fr wait_head_not_in_lock_words [OF assms(1) that] F(5) [OF that] by (simp add: first_waiter_def)
  show p: "prio_of m' t = prio_of m t" if "t \<in> T" for t
    using fr not_in_lock_words [OF assms(1) that queue_fieldsI(1)] F(6) [OF that queue_fieldsI(1)] by (simp add: prio_of_def)
  show "m' (t + kThreadBasePriorityOffset) = m (t + kThreadBasePriorityOffset)" if "t \<in> T"
    using fr not_in_lock_words [OF assms(1) that, of kThreadBasePriorityOffset] F(6) [OF that, of kThreadBasePriorityOffset] by simp
  show "waiters_in T M m'" using assms(2) f by (simp add: waiters_in_def)
  show "inherited m' ms = inherited m ms" if "set ms \<subseteq> M"
  proof -
    have "first_waiter m' mx = first_waiter m mx \<and> (first_waiter m mx \<noteq> 0 \<longrightarrow> prio_of m' (first_waiter m mx) = prio_of m (first_waiter m mx))"
      if "mx \<in> set ms" for mx
      using f p assms(2) that \<open>set ms \<subseteq> M\<close> unfolding waiters_in_def by blast
    then show ?thesis unfolding inherited_def by (intro Collect_cong) metis
  qed
qed

text \<open>Giving up the last level: the mutex is free and off the thread's list, and a raised priority
  falls to what the remaining mutexes still demand.\<close>

definition released_priority :: "(u32 \<Rightarrow> u32) \<Rightarrow> u32 \<Rightarrow> u32 list \<Rightarrow> int" where
  "released_priority m t ms =
    (if prio_of m t < sint (m (t + kThreadBasePriorityOffset))
     then Min (insert (sint (m (t + kThreadBasePriorityOffset))) (inherited m ms)) else prio_of m t)"

lemma run_release:
  fixes s :: os_machine
  assumes r: "lock_rep T M s L" and tm: "t \<in> T" "mx \<in> M" and o: "owner_of L mx = t"
    and wt: "waiters_in T M (mem s)" and f: "length (held L t) < fuel"
  shows "\<exists>s'. run_state (do { Write32 (mx + kMutexCountOffset) 0; release_mutex fuel t mx }) s = ((), s') \<and>
    touches (lock_words T M \<union> {t + kThreadPriorityOffset}) s s' \<and>
    lock_rep T M s' (set_lock mx 0 0 t (remove1 mx (held L t)) L) \<and>
    prio_of (mem s') t = released_priority (mem s) t (remove1 mx (held L t))"
proof -
  note R = lock_repD [OF r]
  note D = lock_layoutD [OF R(2)]
  let ?o = "mx + kMutexOwnerOffset" and ?c = "mx + kMutexCountOffset" and ?p = "t + kThreadPriorityOffset"
  let ?b = "t + kThreadBasePriorityOffset" and ?ms = "remove1 mx (held L t)"
  have ok: "word_ok ?o" "word_ok ?c" "word_ok ?p" "word_ok ?b" "word_ok (t + kThreadMutexQueueOffset)"
    using D(2) [OF tm(2)] D(1) [OF tm(1)] by simp_all
  have oc: "?o \<noteq> ?c" by simp
  have sub: "set (held L t) \<subseteq> M" using R(9) [OF tm(1)] by auto
  have mine: "mx \<in> set (held L t)" using R(9) [OF tm(1)] o tm(2) by simp
  then obtain xs ys where xy: "held L t = xs @ mx # ys" by (meson split_list)
  have dist: "distinct (held L t)" using R(8) [OF tm(1)] by (simp add: dlist_def)
  then have rm: "?ms = xs @ ys" using xy by (simp add: remove1_append)
  have keep: "\<And>a j. a \<in> mutex_list_words t ms \<Longrightarrow> set ms \<subseteq> M \<Longrightarrow> j \<in> {kMutexOwnerOffset, kMutexCountOffset} \<Longrightarrow> a \<noteq> mx + j" for ms
    using mutex_field_not_in_list [OF R(2) tm(1) _ tm(2)] by auto
  define s1 where "s1 = wr32 ?c 0 s"
  have m1: "mem s1 = (mem s)(?c := 0)" and w1: "wii s1" using ok R(1) by (simp_all add: s1_def)
  have "mutex_list (mem s1) t (xs @ mx # ys)"
    using mutex_list_frame [of "held L t" t "mem s1" "mem s"] keep [OF _ sub] R(8) [OF tm(1)] by (simp add: m1 xy)
  then obtain s2 where s2: "run_state (UnlinkMutexFromThread t mx) s1 = ((), s2)"
    "touches (mutex_list_words t (held L t)) s1 s2" "mutex_list (mem s2) t (xs @ ys)"
    using unlink_correct [OF w1 _ mutex_list_layout [OF R(2) tm(1) sub, unfolded xy]]
    unfolding UnlinkMutexFromThread_def xy by auto
  have w2: "wii s2" using s2(2) w1 by (rule touches_wii)
  define s3 where "s3 = wr32 ?o 0 s2"
  have m3: "mem s3 = (mem s2)(?o := 0)" and w3: "wii s3" using ok w2 by (simp_all add: s3_def)
  have o3: "mem s3 ?c = 0" "mem s3 ?o = 0"
    using mutex_field_not_in_list [OF R(2) tm(1) sub tm(2), of kMutexCountOffset] touches_mem [OF s2(2)] oc by (simp_all add: m3 m1)
  have keep3: "mem s3 a = mem s a" if "a \<notin> mutex_list_words t (held L t) \<union> {?o, ?c}" for a
    using that touches_mem [OF s2(2)] by (simp add: m3 m1)
  have d3: "mutex_list (mem s3) t ?ms"
    using mutex_list_frame [of "xs @ ys" t "mem s3" "mem s2"] keep s2(3) sub unfolding rm by (simp add: m3 xy)
  have ow: "{my\<in>M. ((owner_of L)(mx := 0)) my = t} = set ?ms"
    using R(9,10) [OF tm(1)] by (auto simp: set_remove1_eq [OF dist])
  have l3: "lock_mem (mem s3) T M (set_lock mx 0 0 t ?ms L)"
  proof (rule lock_mem_update [OF R(3,2) tm])
    show "mem s3 a = mem s a" if "a \<notin> mutex_list_words t (held L t @ [mx]) \<union> {?o, ?c}" for a
    proof -
      have "set (held L t @ [mx]) = set (held L t)" using mine by auto
      from list_words_perm [OF this] show ?thesis using keep3 that by simp
    qed
  qed (use o d3 o3 ow in auto)
  have tch3: "touches (lock_words T M) s s3"
  proof -
    have "touches ({?c} \<union> mutex_list_words t (held L t) \<union> {?o}) s s3"
      using touches_trans [OF touches_trans [OF touches_wr32 s2(2) [unfolded s1_def]] touches_wr32] ok s3_def by blast
    then show ?thesis by (rule touches_mono) (use list_words_sub_lock_words [OF tm(1) sub] lock_field_words [OF tm(2)] in blast)
  qed
  have fr3: "\<forall>a. a \<notin> insert (0 + 0x1A0) (lock_words T M) \<longrightarrow> mem s3 a = mem s a" using touches_mem [OF tch3] by blast
  note K = lock_words_waiters [OF R(2) wt _ fr3, simplified]
  have base: "mem s3 ?b = mem s ?b" "mem s3 ?p = mem s ?p"
    using touches_mem [OF tch3] not_in_lock_words [OF R(2) tm(1)] by simp_all
  have subm: "set ?ms \<subseteq> M" using sub by (auto dest: notin_set_remove1)
  have wok: "\<forall>my\<in>set ?ms. word_ok (my + kMutexWaitQueueHeadOffset) \<and> word_ok (my + kMutexThreadNextOffset) \<and>
      (first_waiter (mem s3) my \<noteq> 0 \<longrightarrow> word_ok (first_waiter (mem s3) my + kThreadPriorityOffset))"
    using subm D(1,2) K(3) unfolding waiters_in_def by (metis mutex_fieldsI(1,4) queue_fieldsI(1) subsetD)
  have lf: "length ?ms < fuel" using f length_remove1 [of mx "held L t"] by (simp split: if_splits)
  let ?v = "Min (insert (sint (mem s ?b)) (inherited (mem s) ?ms))"
  have eff: "run_state (ComputeThreadEffectivePriority fuel t) s3 = (?v, s3)"
    using run_effective_priority [OF w3 ok(4,5) d3 wok lf] base K(4) [OF subm] by simp
  define s4 where "s4 = (if prio_of (mem s) t < sint (mem s ?b) then wr32 ?p (word_of_int ?v) s3 else s3)"
  have run: "run_state (do { Write32 ?c 0; release_mutex fuel t mx }) s = ((), s4)"
    unfolding release_mutex_def using R(1) w1 w2 w3 ok s2(1) base eff
    by (simp add: run_simps s4_def prio_of_def flip: s1_def s3_def)
  have rng: "- 2147483648 \<le> ?v \<and> ?v < 2147483648"
  proof -
    have "?v \<in> insert (sint (mem s ?b)) (inherited (mem s) ?ms)" by (rule Min_in) simp_all
    then show ?thesis by (auto simp: inherited_def prio_of_def sint_u32_bounds)
  qed
  have m4: "mem s4 a = mem s3 a" if "a \<noteq> ?p" for a using that ok by (simp add: s4_def)
  have "lock_mem (mem s4) T M (set_lock mx 0 0 t ?ms L)"
  proof -
    have np: "a \<noteq> ?p" if "a \<in> lock_words T M" for a
      using that not_in_lock_words [OF R(2) tm(1), of kThreadPriorityOffset] by auto
    have "mutex_list (mem s4) u (held (set_lock mx 0 0 t ?ms L) u)" if u: "u \<in> T" for u
    proof -
      have hu: "mutex_list (mem s3) u (held (set_lock mx 0 0 t ?ms L) u)" "set (held (set_lock mx 0 0 t ?ms L) u) \<subseteq> M"
        using l3 u by (auto simp: lock_mem_def)
      then show ?thesis
        using mutex_list_frame [of _ u "mem s4" "mem s3"] m4 np list_words_sub_lock_words [OF u hu(2)] by blast
    qed
    moreover have "mem s4 (my + kMutexOwnerOffset) = mem s3 (my + kMutexOwnerOffset)"
      "mem s4 (my + kMutexCountOffset) = mem s3 (my + kMutexCountOffset)" if "my \<in> M" for my
      using m4 np lock_field_words [OF that] by blast+
    ultimately show ?thesis using l3 by (simp add: lock_mem_def)
  qed
  moreover have "touches (lock_words T M \<union> {?p}) s s4"
  proof -
    have "touches {?p} s3 s4" using ok(3) by (simp add: s4_def touches_def)
    with tch3 show ?thesis by (rule touches_trans)
  qed
  moreover have "wii s4" using w3 by (simp add: s4_def)
  moreover have "prio_of (mem s4) t = released_priority (mem s) t ?ms"
    using rng ok base by (simp add: s4_def released_priority_def prio_of_def sint_word_of_int_eq_iff)
  ultimately show ?thesis using run R(2) by (auto simp: lock_rep_def)
qed

section \<open>Whole calls\<close>

lemma lock_rep_frame:
  assumes "lock_rep T M s L" "wii s'" "\<And>a. a \<in> lock_words T M \<Longrightarrow> mem s' a = mem s a"
  shows "lock_rep T M s' L"
proof -
  note R = lock_repD [OF assms(1)]
  have "mutex_list (mem s') t (held L t)" if t: "t \<in> T" for t
  proof -
    have "set (held L t) \<subseteq> M" using R(9) [OF t] by auto
    from list_words_sub_lock_words [OF t this] show ?thesis
      using mutex_list_frame [of "held L t" t "mem s'" "mem s"] assms(3) R(8) [OF t] by blast
  qed
  moreover have "mem s' (mx + kMutexOwnerOffset) = mem s (mx + kMutexOwnerOffset)"
    "mem s' (mx + kMutexCountOffset) = mem s (mx + kMutexCountOffset)" if "mx \<in> M" for mx
    using assms(3) lock_field_words [OF that] by blast+
  ultimately show ?thesis using assms(1,2) unfolding lock_rep_def lock_mem_def by simp
qed

text \<open>A call by \<open>t\<close> on \<open>mx\<close>: the running context and r3 on entry.\<close>

definition calling :: "u32 \<Rightarrow> u32 \<Rightarrow> u32 set \<Rightarrow> 'z machine_scheme \<Rightarrow> bool" where
  "calling t mx T s \<longleftrightarrow> mem s kOSRunningContextAddr = t \<and> gpr (cpu s) 3 = mx \<and>
     (mem s kOSCurrentContextAddr = 0 \<or> mem s kOSCurrentContextAddr \<in> T)"

definition flag_word :: "'z machine_scheme \<Rightarrow> u32" where
  "flag_word s = mem s kOSCurrentContextAddr + 0x1A0"

lemma ctx_words [simp]: "kOSCurrentContextAddr \<in> sched_words" "kOSRunningContextAddr \<in> sched_words"
  "word_ok kOSRunningContextAddr"
  by (simp_all add: sched_words_def sched_words_ok)

lemma run_lock_call:
  fixes s :: os_machine
  assumes r: "lock_rep T M s L" and tm: "t \<in> T" "mx \<in> M" and o: "owner_of L mx \<in> {0, t}"
    and d: "depth_of L mx + 1 < 4294967296" and c: "calling t mx T s" and f: "0 < fuel"
  shows "\<exists>s'. run_state (OSLockMutex W fuel) s = ((), s') \<and> interrupts_enabled s' = interrupts_enabled s \<and>
    lock_rep T M s' (set_lock mx t (depth_of L mx + 1) t (if owner_of L mx = 0 then held L t @ [mx] else held L t) L) \<and>
    (\<forall>a. a \<notin> insert (flag_word s) (lock_words T M) \<longrightarrow> mem s' a = mem s a)"
proof -
  note R = lock_repD [OF r]
  let ?c = "mem s kOSCurrentContextAddr"
  let ?L = "set_lock mx t (depth_of L mx + 1) t (if owner_of L mx = 0 then held L t @ [mx] else held L t) L"
  let ?P = "\<lambda>s'. lock_rep T M s' ?L \<and> (\<forall>a. a \<notin> insert (flag_word s) (lock_words T M) \<longrightarrow> mem s' a = mem s a)"
  have cc: "mem s kOSRunningContextAddr = t" "gpr (cpu s) 3 = mx" "?c = 0 \<or> ?c \<in> T" using c by (simp_all add: calling_def)
  note F = flag_word_apart [OF R(2) cc(3)]
  obtain k where k: "fuel = Suc k" using f by (cases fuel) auto
  have t0: "t \<noteq> 0" "mx \<noteq> 0" using R(10) [OF tm(1)] tm(2) lock_layoutD(10) [OF R(2)] by auto
  let ?b = "do { currentThread \<leftarrow> Read32 kOSRunningContextAddr;
         whenM (currentThread \<noteq> 0) (loop fuel () (\<lambda>_. lock_round W fuel mx currentThread) ()) }"
  have body: "\<exists>s2. run_state ?b s1 = ((), s2) \<and> wii s2 \<and> mem s2 kOSCurrentContextAddr = ?c \<and> ?P s2"
    if s1: "wii s1" "\<forall>a. a \<noteq> ?c + 0x1A0 \<longrightarrow> mem s1 a = mem s a" for s1
  proof -
    have r1: "lock_rep T M s1 L" by (rule lock_rep_frame [OF r s1(1)]) (use s1(2) F(2) in metis)
    have run1: "mem s1 kOSRunningContextAddr = t" "mem s1 kOSCurrentContextAddr = ?c" using s1(2) F(4) cc(1) by simp_all
    obtain s2 where s2: "run_state (lock_round W fuel mx t) s1 = (Inr (), s2)" "touches (lock_words T M) s1 s2" "lock_rep T M s2 ?L"
      using run_take [OF r1 tm o d] by blast
    have "run_state ?b s1 = ((), s2)" using s1(1) run1(1) t0(1) s2(1) by (simp add: run_simps k)
    moreover have "mem s2 kOSCurrentContextAddr = ?c"
      using touches_mem [OF s2(2)] lock_words_ok(2) [OF R(2)] run1(2) ctx_words(1) by metis
    moreover have "mem s2 a = mem s a" if "a \<notin> insert (flag_word s) (lock_words T M)" for a
      using touches_mem [OF s2(2)] s1(2) that by (simp add: flag_word_def)
    ultimately show ?thesis using lock_repD(1) [OF s2(3)] s2(3) by blast
  qed
  have stable: "?P s3" if "?P s2" "wii s3" "\<forall>a. a \<noteq> ?c + 0x1A0 \<longrightarrow> mem s3 a = mem s2 a" for s2 s3
  proof -
    have "lock_rep T M s3 ?L" by (rule lock_rep_frame [of T M s2 ?L]) (use that F(2) in metis)+
    then show ?thesis using that by (simp add: flag_word_def)
  qed
  let ?B = "do { irqState \<leftarrow> OS__DisableInterrupts; try_catch ?b (State_Monad.return ());
      _ \<leftarrow> OS__RestoreInterrupts irqState; State_Monad.return () }"
  have e: "run_state (OSLockMutex W fuel) s = run_state ?B s"
    unfolding OSLockMutex_def using cc(2) t0(2) by (simp add: run_simps)
  have "\<exists>s'. run_state ?B s = ((), s') \<and> wii s' \<and> interrupts_enabled s' = interrupts_enabled s \<and> ?P s'"
    by (rule run_bracketed [where b = ?b and P = ?P, OF R(1) refl F(1)]) (use body stable in blast)+
  then show ?thesis unfolding e by blast
qed

text \<open>Every case of an unlock.  The calls that do not give up the last level:\<close>

lemma run_unlock_kept:
  fixes s :: os_machine
  assumes r: "lock_rep T M s L" and tm: "t \<in> T" "mx \<in> M" and o: "owner_of L mx \<noteq> t \<or> 1 < depth_of L mx" and c: "calling t mx T s"
  shows "\<exists>s'. run_state (OSUnlockMutex W fuel) s = ((), s') \<and> interrupts_enabled s' = interrupts_enabled s \<and>
    lock_rep T M s' (if owner_of L mx = t then set_lock mx t (depth_of L mx - 1) t (held L t) L else L) \<and>
    (\<forall>a. a \<notin> insert (flag_word s) (lock_words T M) \<longrightarrow> mem s' a = mem s a)"
proof -
  note R = lock_repD [OF r]
  let ?c = "mem s kOSCurrentContextAddr" and ?cnt = "mx + kMutexCountOffset"
  let ?L = "if owner_of L mx = t then set_lock mx t (depth_of L mx - 1) t (held L t) L else L"
  let ?P = "\<lambda>s'. lock_rep T M s' ?L \<and> (\<forall>a. a \<notin> insert (flag_word s) (lock_words T M) \<longrightarrow> mem s' a = mem s a)"
  have cc: "mem s kOSRunningContextAddr = t" "gpr (cpu s) 3 = mx" "?c = 0 \<or> ?c \<in> T" using c by (simp_all add: calling_def)
  note F = flag_word_apart [OF R(2) cc(3)]
  have t0: "t \<noteq> 0" "mx \<noteq> 0" using R(10) [OF tm(1)] tm(2) lock_layoutD(10) [OF R(2)] by auto
  have ok: "word_ok (mx + kMutexOwnerOffset)" "word_ok ?cnt" using lock_layoutD(2) [OF R(2) tm(2)] by simp_all
  have oc: "mx + kMutexOwnerOffset \<noteq> ?cnt" by simp
  let ?b = "do { currentThread \<leftarrow> Read32 kOSRunningContextAddr;
         whenM (currentThread \<noteq> 0) (do {
           owner \<leftarrow> Read32 (mx + kMutexOwnerOffset);
           whenM (owner = currentThread) (do {
             before \<leftarrow> Read32 ?cnt;
             (let count = before - 1 in do {
               Write32 ?cnt count;
               whenM (count = 0) (do { release_mutex fuel currentThread mx; gpr_put 3 mx; OSWakeupThread W fuel })
             })
           })
         }) }"
  have body: "\<exists>s2. run_state ?b s1 = ((), s2) \<and> wii s2 \<and> mem s2 kOSCurrentContextAddr = ?c \<and> ?P s2"
    if s1: "wii s1" "\<forall>a. a \<noteq> ?c + 0x1A0 \<longrightarrow> mem s1 a = mem s a" for s1
  proof -
    have r1: "lock_rep T M s1 L" by (rule lock_rep_frame [OF r s1(1)]) (use s1(2) F(2) in metis)
    note R1 = lock_repD [OF r1]
    have run1: "mem s1 kOSRunningContextAddr = t" "mem s1 kOSCurrentContextAddr = ?c" using s1(2) F(4) cc(1) by simp_all
    have fr1: "\<forall>a. a \<notin> insert (flag_word s) (lock_words T M) \<longrightarrow> mem s1 a = mem s a" using s1(2) by (simp add: flag_word_def)
    show ?thesis
    proof (cases "owner_of L mx = t")
      case False
      then have "run_state ?b s1 = ((), s1)" using s1(1) run1(1) t0(1) ok R1(4) [OF tm(2)] by (simp add: run_simps)
      then show ?thesis using False r1 fr1 s1(1) run1(2) by auto
    next
      case True
      then have d: "1 < depth_of L mx" using o by simp
      have u: "unat (of_nat (depth_of L mx) :: u32) = depth_of L mx" using R(6) [OF tm(2)] by (simp add: unat_of_nat)
      have cnt: "mem s1 ?cnt - 1 = of_nat (depth_of L mx - 1)" "mem s1 ?cnt - 1 \<noteq> 0"
        using R1(5) [OF tm(2)] d u by (auto simp: of_nat_diff)
      have c1: "mem s1 ?cnt \<noteq> 1" using cnt(2) by auto
      define s2 where "s2 = wr32 ?cnt (of_nat (depth_of L mx - 1)) s1"
      have m2: "mem s2 = (mem s1)(?cnt := of_nat (depth_of L mx - 1))" and w2: "wii s2"
        using ok s1(1) by (simp_all add: s2_def)
      have run: "run_state ?b s1 = ((), s2)"
        using s1(1) run1(1) t0(1) ok R1(4) [OF tm(2)] True cnt(1) c1 by (simp add: run_simps Let_def s2_def)
      have "set (held L t) \<subseteq> M" using R(9) [OF tm(1)] by auto
      then have nl: "?cnt \<notin> mutex_list_words t (held L t)" using mutex_field_not_in_list [OF R(2) tm(1) _ tm(2)] by simp
      have "mutex_list (mem s2) t (held L t) = mutex_list (mem s1) t (held L t)"
        by (rule mutex_list_frame) (use nl in \<open>auto simp: m2\<close>)
      then have "mutex_list (mem s2) t (held L t)" using R1(8) [OF tm(1)] by simp
      then have "lock_mem (mem s2) T M (set_lock mx t (depth_of L mx - 1) t (held L t) L)"
        using True oc R1(4) [OF tm(2)] d R(6) [OF tm(2)] R(9) [OF tm(1)] t0(1)
        by (intro lock_mem_update [OF R1(3,2) tm]) (auto simp: m2)
      then have "lock_rep T M s2 ?L" using w2 R(2) True by (simp add: lock_rep_def)
      moreover have "mem s2 a = mem s a" if "a \<notin> insert (flag_word s) (lock_words T M)" for a
        using that fr1 lock_field_words(2) [OF tm(2)] by (auto simp: m2)
      moreover have "mem s2 kOSCurrentContextAddr = ?c"
        using lock_words_ok(2) [OF R(2) lock_field_words(2) [OF tm(2)]] run1(2) ctx_words(1) by (auto simp: m2)
      ultimately show ?thesis using run w2 by blast
    qed
  qed
  have stable: "?P s3" if "?P s2" "wii s3" "\<forall>a. a \<noteq> ?c + 0x1A0 \<longrightarrow> mem s3 a = mem s2 a" for s2 s3
  proof -
    have "lock_rep T M s3 ?L" by (rule lock_rep_frame [of T M s2 ?L]) (use that F(2) in metis)+
    then show ?thesis using that by (simp add: flag_word_def)
  qed
  let ?B = "do { irqState \<leftarrow> OS__DisableInterrupts; try_catch ?b (State_Monad.return ());
      _ \<leftarrow> OS__RestoreInterrupts irqState; State_Monad.return () }"
  have e: "run_state (OSUnlockMutex W fuel) s = run_state ?B s"
    unfolding OSUnlockMutex_def using cc(2) t0(2) by (simp add: run_simps)
  have "\<exists>s'. run_state ?B s = ((), s') \<and> wii s' \<and> interrupts_enabled s' = interrupts_enabled s \<and> ?P s'"
    by (rule run_bracketed [where b = ?b and P = ?P, OF R(1) refl F(1)]) (use body stable in blast)+
  then show ?thesis unfolding e by blast
qed

text \<open>The call that gives up the last level; \<open>wake\<close> is what waking the mutex's queue does.\<close>

lemma run_unlock_last:
  fixes s :: os_machine
  assumes r: "lock_rep T M s L" and tm: "t \<in> T" "mx \<in> M" and o: "owner_of L mx = t" "depth_of L mx = 1" and c: "calling t mx T s"
    and wt: "waiters_in T M (mem s)" and f: "length (held L t) < fuel"
    and wake: "\<And>s2. wii s2 \<Longrightarrow> gpr (cpu s2) 3 = mx \<Longrightarrow> \<not> interrupts_enabled s2 \<Longrightarrow> machine.more s2 = machine.more s \<Longrightarrow>
      lock_rep T M s2 (set_lock mx 0 0 t (remove1 mx (held L t)) L) \<Longrightarrow>
      prio_of (mem s2) t = released_priority (mem s) t (remove1 mx (held L t)) \<Longrightarrow>
      (\<forall>a. a \<notin> insert (flag_word s) (lock_words T M \<union> {t + kThreadPriorityOffset}) \<longrightarrow> mem s2 a = mem s a) \<Longrightarrow>
      \<exists>s3. run_state (OSWakeupThread W fuel) s2 = ((), s3) \<and> wii s3 \<and>
        mem s3 kOSCurrentContextAddr = mem s kOSCurrentContextAddr \<and> Q s3"
    and stable: "\<And>s3 s4. Q s3 \<Longrightarrow> wii s4 \<Longrightarrow> cpu s4 = cpu s3 \<Longrightarrow> machine.more s4 = machine.more s3 \<Longrightarrow>
      (\<forall>a. a \<noteq> flag_word s \<longrightarrow> mem s4 a = mem s3 a) \<Longrightarrow> Q s4"
  shows "\<exists>s'. run_state (OSUnlockMutex W fuel) s = ((), s') \<and> wii s' \<and> interrupts_enabled s' = interrupts_enabled s \<and> Q s'"
proof -
  note R = lock_repD [OF r]
  let ?c = "mem s kOSCurrentContextAddr" and ?cnt = "mx + kMutexCountOffset" and ?ms = "remove1 mx (held L t)"
  let ?L = "set_lock mx 0 0 t ?ms L"
  have cc: "mem s kOSRunningContextAddr = t" "gpr (cpu s) 3 = mx" "?c = 0 \<or> ?c \<in> T" using c by (simp_all add: calling_def)
  note F = flag_word_apart [OF R(2) cc(3)]
  have t0: "t \<noteq> 0" "mx \<noteq> 0" using R(10) [OF tm(1)] tm(2) lock_layoutD(10) [OF R(2)] by auto
  have ok: "word_ok (mx + kMutexOwnerOffset)" "word_ok ?cnt" using lock_layoutD(2) [OF R(2) tm(2)] by simp_all
  let ?b = "do { currentThread \<leftarrow> Read32 kOSRunningContextAddr;
         whenM (currentThread \<noteq> 0) (do {
           owner \<leftarrow> Read32 (mx + kMutexOwnerOffset);
           whenM (owner = currentThread) (do {
             before \<leftarrow> Read32 ?cnt;
             (let count = before - 1 in do {
               Write32 ?cnt count;
               whenM (count = 0) (do { release_mutex fuel currentThread mx; gpr_put 3 mx; OSWakeupThread W fuel })
             })
           })
         }) }"
  have body: "\<exists>s2. run_state ?b s1 = ((), s2) \<and> wii s2 \<and> mem s2 kOSCurrentContextAddr = ?c \<and> Q s2"
    if s1: "wii s1" "\<not> interrupts_enabled s1" "machine.more s1 = machine.more s" "\<forall>a. a \<noteq> ?c + 0x1A0 \<longrightarrow> mem s1 a = mem s a" for s1
  proof -
    have r1: "lock_rep T M s1 L" by (rule lock_rep_frame [OF r s1(1)]) (use s1(4) F(2) in metis)
    note R1 = lock_repD [OF r1]
    have run1: "mem s1 kOSRunningContextAddr = t" using s1(4) F(4) cc(1) by simp
    have fr1: "\<forall>a. a \<notin> insert (?c + 0x1A0) (lock_words T M) \<longrightarrow> mem s1 a = mem s a" using s1(4) by simp
    note K = lock_words_waiters [OF R(2) wt cc(3) fr1]
    have sub: "set ?ms \<subseteq> M" using R(9) [OF tm(1)] by (auto dest: notin_set_remove1)
    obtain s2 where s2: "run_state (do { Write32 ?cnt 0; release_mutex fuel t mx }) s1 = ((), s2)"
      "touches (lock_words T M \<union> {t + kThreadPriorityOffset}) s1 s2" "lock_rep T M s2 ?L"
      "prio_of (mem s2) t = released_priority (mem s1) t ?ms"
      using run_release [OF r1 tm o(1) K(3) f] by blast
    have rp: "released_priority (mem s1) t ?ms = released_priority (mem s) t ?ms"
      using K(2,5) [OF tm(1)] K(4) [OF sub] by (simp add: released_priority_def)
    have w2: "wii s2" using s2(2) s1(1) by (rule touches_wii)
    define s3 where "s3 = s2\<lparr>cpu := (cpu s2)\<lparr>gpr := (gpr (cpu s2))(3 := mx)\<rparr>\<rparr>"
    have h2: "machine.more s2 = machine.more s1" "\<not> interrupts_enabled s2"
      using s2(2) s1(2) by (auto simp: touches_def only_memory_host)
    have "\<exists>s4. run_state (OSWakeupThread W fuel) s3 = ((), s4) \<and> wii s4 \<and> mem s4 kOSCurrentContextAddr = ?c \<and> Q s4"
    proof (rule wake)
      show "wii s3" "gpr (cpu s3) 3 = mx" "\<not> interrupts_enabled s3" using w2 h2 by (simp_all add: s3_def)
      show "machine.more s3 = machine.more s" using h2(1) s1(3) by (simp add: s3_def)
      show "lock_rep T M s3 ?L" by (rule lock_rep_frame [OF s2(3)]) (simp_all add: s3_def w2)
      show "prio_of (mem s3) t = released_priority (mem s) t ?ms" using s2(4) rp by (simp add: s3_def)
      show "\<forall>a. a \<notin> insert (flag_word s) (lock_words T M \<union> {t + kThreadPriorityOffset}) \<longrightarrow> mem s3 a = mem s a"
        using touches_mem [OF s2(2)] s1(4) by (simp add: s3_def flag_word_def)
    qed
    then obtain s4 where s4: "run_state (OSWakeupThread W fuel) s3 = ((), s4)" "wii s4" "mem s4 kOSCurrentContextAddr = ?c" "Q s4" by blast
    have "run_state ?b s1 = ((), s4)"
    proof -
      have "mem s1 ?cnt = 1" using R1(5) [OF tm(2)] o(2) by simp
      then have "run_state ?b s1 = run_state (do { Write32 ?cnt 0; release_mutex fuel t mx; gpr_put 3 mx; OSWakeupThread W fuel }) s1"
        using s1(1) run1 t0(1) ok R1(4) [OF tm(2)] o(1) by (simp add: run_simps)
      also have "\<dots> = run_state (do { _ \<leftarrow> (do { Write32 ?cnt 0; release_mutex fuel t mx }); gpr_put 3 mx; OSWakeupThread W fuel }) s1"
        by (simp add: run_bind case_prod_unfold)
      also have "\<dots> = ((), s4)"
        unfolding run_bind [of "do { Write32 ?cnt 0; release_mutex fuel t mx }"] s2(1) prod.case
        using s4(1) w2 by (simp add: run_simps wii_fault flip: s3_def)
      finally show ?thesis .
    qed
    then show ?thesis using s4 by blast
  qed
  let ?B = "do { irqState \<leftarrow> OS__DisableInterrupts; try_catch ?b (State_Monad.return ());
      _ \<leftarrow> OS__RestoreInterrupts irqState; State_Monad.return () }"
  have e: "run_state (OSUnlockMutex W fuel) s = run_state ?B s"
    unfolding OSUnlockMutex_def using cc(2) t0(2) by (simp add: run_simps)
  have "\<exists>s'. run_state ?B s = ((), s') \<and> wii s' \<and> interrupts_enabled s' = interrupts_enabled s \<and> Q s'"
    by (rule run_bracketed [where b = ?b and P = Q, OF R(1) refl F(1)]) (use body stable in \<open>simp_all add: flag_word_def\<close>)
  then show ?thesis unfolding e by blast
qed

section \<open>Sequences of calls\<close>

datatype lock_op = Acquire u32 u32 | Release u32 u32

text \<open>The specification; \<open>None\<close> is a call that would have to wait for another thread (or count past 32 bits).\<close>

fun lock_spec :: "lock_op \<Rightarrow> lock_table \<Rightarrow> lock_table option" where
  "lock_spec (Acquire t mx) L =
     (if owner_of L mx \<notin> {0, t} \<or> 4294967296 \<le> depth_of L mx + 1 then None
      else Some (set_lock mx t (depth_of L mx + 1) t (if owner_of L mx = 0 then held L t @ [mx] else held L t) L))"
| "lock_spec (Release t mx) L =
     Some (if owner_of L mx \<noteq> t then L
       else if depth_of L mx = 1 then set_lock mx 0 0 t (remove1 mx (held L t)) L
       else set_lock mx t (depth_of L mx - 1) t (held L t) L)"

fun run_lock_spec :: "lock_op list \<Rightarrow> lock_table \<Rightarrow> lock_table option" where
  "run_lock_spec [] L = Some L"
| "run_lock_spec (c # cs) L = Option.bind (lock_spec c L) (run_lock_spec cs)"

fun op_thread :: "lock_op \<Rightarrow> u32" where
  "op_thread (Acquire t mx) = t" | "op_thread (Release t mx) = t"

fun op_mutex :: "lock_op \<Rightarrow> u32" where
  "op_mutex (Acquire t mx) = mx" | "op_mutex (Release t mx) = mx"

text \<open>The call, made while the thread is the running context.\<close>

definition as_thread :: "u32 \<Rightarrow> u32 \<Rightarrow> os_machine \<Rightarrow> os_machine" where
  "as_thread t mx s = (wr32 kOSRunningContextAddr t s)\<lparr>cpu := (cpu s)\<lparr>gpr := (gpr (cpu s))(3 := mx)\<rparr>\<rparr>"

fun lock_call :: "world \<Rightarrow> nat \<Rightarrow> lock_op \<Rightarrow> os_machine \<Rightarrow> os_machine" where
  "lock_call W fuel (Acquire t mx) s = snd (run_state (OSLockMutex W fuel) (as_thread t mx s))"
| "lock_call W fuel (Release t mx) s = snd (run_state (OSUnlockMutex W fuel) (as_thread t mx s))"

definition no_waiters :: "u32 set \<Rightarrow> (u32 \<Rightarrow> u32) \<Rightarrow> bool" where
  "no_waiters M m \<longleftrightarrow> (\<forall>mx\<in>M. first_waiter m mx = 0)"

definition lock_ready :: "u32 set \<Rightarrow> u32 set \<Rightarrow> 'z machine_scheme \<Rightarrow> lock_table \<Rightarrow> bool" where
  "lock_ready T M s L \<longleftrightarrow> lock_rep T M s L \<and> no_waiters M (mem s) \<and>
     (mem s kOSCurrentContextAddr = 0 \<or> mem s kOSCurrentContextAddr \<in> T)"

lemma wait_head_addr [simp]: "mx + kMutexWaitQueueHeadOffset = mx"
  by (simp add: kMutexWaitQueueHeadOffset_def)

lemma lock_ready_frame:
  assumes "lock_ready T M s L" "lock_rep T M s' L'" "t \<in> T"
    and "\<forall>a. a \<notin> insert (flag_word s) (lock_words T M \<union> {t + kThreadPriorityOffset}) \<longrightarrow> mem s' a = mem s a"
  shows "lock_ready T M s' L'"
proof -
  have r: "lock_rep T M s L" and nw: "no_waiters M (mem s)"
    and c: "mem s kOSCurrentContextAddr = 0 \<or> mem s kOSCurrentContextAddr \<in> T"
    using assms(1) by (simp_all add: lock_ready_def)
  note lay = lock_repD(2) [OF r]
  note F = flag_word_apart [OF lay c]
  have "mem s' mx = mem s mx" if "mx \<in> M" for mx
    using assms(4) wait_head_not_in_lock_words [OF lay that] F(5) [OF that]
      lock_layoutD(6) [OF lay assms(3) queue_fieldsI(1) that mutex_fieldsI(1)] by (simp add: flag_word_def)
  moreover have "mem s' kOSCurrentContextAddr = mem s kOSCurrentContextAddr"
  proof -
    have "kOSCurrentContextAddr \<notin> lock_words T M" using lock_words_ok(2) [OF lay] ctx_words(1) by blast
    moreover have "kOSCurrentContextAddr \<noteq> t + kThreadPriorityOffset"
      using lock_layoutD(3) [OF lay assms(3) queue_fieldsI(1)] ctx_words(1) by (metis UnI1)
    ultimately show ?thesis using assms(4) F(4) by (simp add: flag_word_def)
  qed
  ultimately show ?thesis using assms(2) nw c by (simp add: lock_ready_def no_waiters_def first_waiter_def)
qed

lemma lock_ready_as_thread:
  assumes "lock_ready T M s L"
  shows "lock_ready T M (as_thread t mx s) L" "calling t mx T (as_thread t mx s)"
    "interrupts_enabled (as_thread t mx s) = interrupts_enabled s"
proof -
  have r: "lock_rep T M s L" using assms by (simp add: lock_ready_def)
  note lay = lock_repD(2) [OF r]
  have m: "mem (as_thread t mx s) = (mem s)(kOSRunningContextAddr := t)" by (simp add: as_thread_def)
  have ne: "kOSCurrentContextAddr \<noteq> kOSRunningContextAddr" by (simp add: kernel_words)
  have "kOSRunningContextAddr \<notin> lock_words T M" using lock_words_ok(2) [OF lay] ctx_words(2) by blast
  then have "lock_rep T M (as_thread t mx s) L"
    using lock_repD(1) [OF r] by (intro lock_rep_frame [OF r]) (auto simp: m as_thread_def)
  moreover have "my \<noteq> kOSRunningContextAddr" if "my \<in> M" for my
    using lock_layoutD(4) [OF lay that mutex_fieldsI(1)] ctx_words(2) by auto
  ultimately show "lock_ready T M (as_thread t mx s) L"
    using assms ne by (simp add: lock_ready_def no_waiters_def first_waiter_def m)
  show "calling t mx T (as_thread t mx s)" using assms ne by (simp add: calling_def m lock_ready_def) (simp add: as_thread_def)
  show "interrupts_enabled (as_thread t mx s) = interrupts_enabled s" by (simp add: as_thread_def)
qed

lemma lock_call_step:
  assumes r: "lock_ready T M s L" and c: "op_thread c \<in> T" "op_mutex c \<in> M" "lock_spec c L = Some L'"
    and M: "finite M" "card M < fuel"
  shows "lock_ready T M (lock_call W fuel c s) L' \<and> interrupts_enabled (lock_call W fuel c s) = interrupts_enabled s"
proof -
  obtain t mx where tm: "op_thread c = t" "op_mutex c = mx" by blast
  have tM: "t \<in> T" "mx \<in> M" using c(1,2) tm by auto
  define u where "u = as_thread t mx s"
  have ru: "lock_ready T M u L" "calling t mx T u" "interrupts_enabled u = interrupts_enabled s"
    using lock_ready_as_thread [OF r] by (simp_all add: u_def)
  have rep: "lock_rep T M u L" and nw: "no_waiters M (mem u)"
    and cur: "mem u kOSCurrentContextAddr = 0 \<or> mem u kOSCurrentContextAddr \<in> T"
    using ru(1) by (simp_all add: lock_ready_def)
  note R = lock_repD [OF rep]
  note F = flag_word_apart [OF R(2) cur]
  have len: "length (held L t) < fuel"
  proof -
    have "distinct (held L t)" "set (held L t) \<subseteq> M" using R(8,9) [OF tM(1)] by (auto simp: dlist_def)
    then show ?thesis using card_mono [OF M(1), of "set (held L t)"] M(2) by (simp add: distinct_card)
  qed
  have finish: "?thesis" if s': "lock_call W fuel c s = s'" "lock_rep T M s' L'" "interrupts_enabled s' = interrupts_enabled u"
    "\<forall>a. a \<notin> insert (flag_word u) (lock_words T M \<union> {t + kThreadPriorityOffset}) \<longrightarrow> mem s' a = mem u a" for s'
    using lock_ready_frame [OF ru(1) s'(2) tM(1) s'(4)] s'(1,3) ru(3) by simp
  show ?thesis
  proof (cases c)
    case (Acquire t' mx')
    then have e: "t' = t" "mx' = mx" using tm by auto
    have o: "owner_of L mx \<in> {0, t}" "depth_of L mx + 1 < 4294967296"
      "L' = set_lock mx t (depth_of L mx + 1) t (if owner_of L mx = 0 then held L t @ [mx] else held L t) L"
      using c(3) by (auto simp: Acquire e split: if_splits)
    have "0 < fuel" using M(2) by simp
    from run_lock_call [OF rep tM o(1,2) ru(2) this, of W] show ?thesis
      using finish o(3) by (auto simp: Acquire e u_def)
  next
    case (Release t' mx')
    then have e: "t' = t" "mx' = mx" using tm by auto
    show ?thesis
    proof (cases "owner_of L mx \<noteq> t \<or> 1 < depth_of L mx")
      case True
      then have "L' = (if owner_of L mx = t then set_lock mx t (depth_of L mx - 1) t (held L t) L else L)"
        using c(3) by (auto simp: Release e)
      then show ?thesis using run_unlock_kept [OF rep tM True ru(2), of W fuel] finish by (auto simp: Release e u_def)
    next
      case False
      then have o: "owner_of L mx = t" "depth_of L mx = 1" using R(7) [OF tM(2)] R(10) [OF tM(1)] by auto
      let ?L = "set_lock mx 0 0 t (remove1 mx (held L t)) L"
      let ?Q = "\<lambda>s'. lock_rep T M s' ?L \<and>
        (\<forall>a. a \<notin> insert (flag_word u) (lock_words T M \<union> {t + kThreadPriorityOffset}) \<longrightarrow> mem s' a = mem u a)"
      have wt: "waiters_in T M (mem u)" using nw by (simp add: no_waiters_def waiters_in_def)
      have "\<exists>s'. run_state (OSUnlockMutex W fuel) u = ((), s') \<and> wii s' \<and> interrupts_enabled s' = interrupts_enabled u \<and> ?Q s'"
      proof (rule run_unlock_last [OF rep tM o ru(2) wt len])
        fix s2 :: os_machine
        assume s2: "wii s2" "gpr (cpu s2) 3 = mx" "lock_rep T M s2 ?L"
          "\<forall>a. a \<notin> insert (flag_word u) (lock_words T M \<union> {t + kThreadPriorityOffset}) \<longrightarrow> mem s2 a = mem u a"
        have q: "lock_ready T M s2 ?L" by (rule lock_ready_frame [OF ru(1) s2(3) tM(1) s2(4)])
        have cur2: "mem s2 kOSCurrentContextAddr = mem u kOSCurrentContextAddr"
        proof -
          have "kOSCurrentContextAddr \<notin> lock_words T M" using lock_words_ok(2) [OF R(2)] ctx_words(1) by blast
          moreover have "kOSCurrentContextAddr \<noteq> t + kThreadPriorityOffset"
            using lock_layoutD(3) [OF R(2) tM(1) queue_fieldsI(1)] ctx_words(1) by (metis UnI1)
          ultimately show ?thesis using s2(4) F(4) by (simp add: flag_word_def)
        qed
        have mx: "mx \<noteq> 0" "word_ok mx" "mem s2 mx = 0" "mx \<noteq> mem u kOSCurrentContextAddr + 0x1A0"
          using tM(2) lock_layoutD(10) [OF R(2)] lock_layoutD(2) [OF R(2) tM(2) mutex_fieldsI(1)] q F(5) [OF tM(2)]
          by (auto simp: lock_ready_def no_waiters_def first_waiter_def)
        obtain s3 where s3: "run_state (OSWakeupThread W fuel) s2 = ((), s3)" "wii s3"
          "\<forall>a. a \<noteq> mem u kOSCurrentContextAddr + 0x1A0 \<longrightarrow> mem s3 a = mem s2 a"
          using run_wakeup_empty [OF s2(1,2) mx(1-3) cur2 F(1) mx(4) F(4) [OF ctx_words(1)], of W fuel] by blast
        have "lock_rep T M s3 ?L" by (rule lock_rep_frame [OF s2(3) s3(2)]) (use s3(3) F(2) in metis)
        moreover have "mem s3 kOSCurrentContextAddr = mem u kOSCurrentContextAddr" using s3(3) F(4) cur2 by simp
        ultimately show "\<exists>s3. run_state (OSWakeupThread W fuel) s2 = ((), s3) \<and> wii s3 \<and>
            mem s3 kOSCurrentContextAddr = mem u kOSCurrentContextAddr \<and> ?Q s3"
          using s3 s2(4) by (auto simp: flag_word_def)
      next
        fix s3 s4 :: os_machine
        assume h: "?Q s3" "wii s4" "\<forall>a. a \<noteq> flag_word u \<longrightarrow> mem s4 a = mem s3 a"
        have fw: "flag_word u \<notin> lock_words T M" using F(2) by (simp add: flag_word_def)
        have "lock_rep T M s4 ?L"
          by (rule lock_rep_frame [OF conjunct1 [OF h(1)] h(2)]) (use h(3) fw in metis)
        then show "?Q s4" using h by auto
      qed
      then show ?thesis using finish [of "lock_call W fuel c s"] c(3) o by (auto simp: Release e u_def)
    qed
  qed
qed

lemma lock_calls:
  assumes "lock_ready T M s L" "\<forall>c\<in>set cs. op_thread c \<in> T \<and> op_mutex c \<in> M" "run_lock_spec cs L = Some L'"
    and "finite M" "card M < fuel"
  shows "lock_ready T M (fold (lock_call W fuel) cs s) L' \<and>
    interrupts_enabled (fold (lock_call W fuel) cs s) = interrupts_enabled s"
  using assms(1-3)
proof (induction cs arbitrary: s L)
  case (Cons c cs)
  then obtain L1 where L1: "lock_spec c L = Some L1" "run_lock_spec cs L1 = Some L'" by (auto simp: bind_eq_Some_conv)
  have "lock_ready T M (lock_call W fuel c s) L1 \<and> interrupts_enabled (lock_call W fuel c s) = interrupts_enabled s"
    using lock_call_step [OF Cons.prems(1) _ _ L1(1) assms(4,5)] Cons.prems(2) by simp
  then show ?case using Cons.IH [of "lock_call W fuel c s" L1] Cons.prems(2) L1(2) by simp
qed simp

text \<open>C23: the mutexes implement a table of recursive locks: after any sequence of lock and unlock calls by
  any threads, none of which has to wait, every mutex records exactly the owner and the depth of the
  table, each thread's list in guest memory is the list of the mutexes it holds in the order it took
  them, no mutex is held by two threads, and an unlock by another thread than the owner changed
  nothing.  No access faults and every call restores the interrupt state.  Fuel for one round more
  than there are mutexes is enough.\<close>

theorem mutexes_refine_lock_table:
  assumes "lock_ready T M s L" "\<forall>c\<in>set cs. op_thread c \<in> T \<and> op_mutex c \<in> M" "run_lock_spec cs L = Some L'"
    and "finite M" "card M < fuel"
  shows "let s' = fold (lock_call W fuel) cs s in
    fault s' = None \<and> interrupts_enabled s' = interrupts_enabled s \<and>
    (\<forall>mx\<in>M. mem s' (mx + kMutexOwnerOffset) = owner_of L' mx \<and> mem s' (mx + kMutexCountOffset) = of_nat (depth_of L' mx)) \<and>
    (\<forall>t\<in>T. mutex_list (mem s') t (held L' t) \<and> set (held L' t) = {mx\<in>M. owner_of L' mx = t}) \<and>
    (\<forall>t\<in>T. \<forall>u\<in>T. t \<noteq> u \<longrightarrow> set (held L' t) \<inter> set (held L' u) = {})"
proof -
  let ?s = "fold (lock_call W fuel) cs s"
  have r: "lock_rep T M ?s L'" and i: "interrupts_enabled ?s = interrupts_enabled s"
    using lock_calls [OF assms] by (simp_all add: lock_ready_def)
  note R = lock_repD [OF r]
  have "set (held L' t) \<inter> set (held L' u) = {}" if "t \<in> T" "u \<in> T" "t \<noteq> u" for t u
    using R(9) [OF that(1)] R(9) [OF that(2)] that(3) by auto
  then show ?thesis using R(1,4,5,8,9) i by (simp add: Let_def wii_fault)
qed

text \<open>Two threads and one mutex.\<close>

lemma demo_lock_layout: "lock_layout {0x80400000, 0x80401000} {0x80402000}"
proof -
  have l: "layout {0x80400000, 0x80401000} queue_fields (sched_words \<union> rq_slots)"
    using demo_layout by (auto simp: sched_layout_def elim: layout_mono)
  have b: "\<forall>i\<in>mutex_fields. unat i + 4 \<le> 24 \<and> unat i mod 4 = 0" by (simp add: mutex_fields_def mutex_offsets)
  have "layout {0x80402000} mutex_fields (sched_words \<union> rq_slots)"
  proof (rule layout_spaced [OF b])
    show "\<forall>g\<in>sched_words \<union> rq_slots. word_ok g \<and> (\<forall>x\<in>{0x80402000 :: u32}. unat g < unat x \<or> unat x + 24 \<le> unat g)"
    proof
      fix g :: u32
      assume "g \<in> sched_words \<union> rq_slots"
      then consider "g \<in> sched_words" | "g \<in> rq_slots" by auto
      then show "word_ok g \<and> (\<forall>x\<in>{0x80402000 :: u32}. unat g < unat x \<or> unat x + 24 \<le> unat g)"
      proof cases
        case 1
        then show ?thesis by (auto simp: sched_words_def layout_eval)
      next
        case 2
        then have "word_ok g" by (auto simp: rq_slots_def rq_addr_ok)
        then show ?thesis using rq_slot_range [OF 2] by simp
      qed
    qed
  qed simp_all
  moreover have "t + i \<noteq> 0x80402000 + j" if t: "t \<in> {0x80400000, 0x80401000}" and "i \<in> queue_fields" "j \<in> mutex_fields" for t i j :: u32
  proof -
    have "unat i + 4 \<le> 792" "unat j + 4 \<le> 24" using that(2,3) queue_fields_bounds b by blast+
    then have "unat (t + i) < 2151686144" "unat (0x80402000 + j) \<ge> 2151686144"
      using t by (auto simp: unat_word_ariths)
    then show ?thesis by (metis not_le)
  qed
  ultimately show ?thesis using l by (simp add: lock_layout_def)
qed

lemma mutexes_refine_lock_table_witness:
  "let s' = fold (lock_call quiet_world 2) [Acquire 0x80400000 0x80402000, Acquire 0x80400000 0x80402000,
       Release 0x80401000 0x80402000, Release 0x80400000 0x80402000] boot_os
   in mem s' 0x80402008 = 0x80400000 \<and> mem s' 0x8040200C = 1 \<and> mem s' 0x804002F4 = 0x80402000"
proof -
  let ?T = "{0x80400000, 0x80401000} :: u32 set" and ?M = "{0x80402000} :: u32 set"
  let ?L = "\<lparr>owner_of = (\<lambda>_. 0), depth_of = (\<lambda>_. 0), held = (\<lambda>_. [])\<rparr>"
  let ?cs = "[Acquire 0x80400000 0x80402000, Acquire 0x80400000 0x80402000, Release 0x80401000 0x80402000,
    Release 0x80400000 0x80402000]"
  let ?L' = "\<lparr>owner_of = (\<lambda>_. 0)(0x80402000 := 0x80400000), depth_of = (\<lambda>_. 0)(0x80402000 := 1),
    held = (\<lambda>_. [])(0x80400000 := [0x80402000])\<rparr>"
  have b: "mem boot_os = (\<lambda>_. 0)" "wii boot_os"
    by (simp_all add: fun_eq_iff mem_def rd32_def boot_os_def be_word32_def wii_def)
  have r: "lock_ready ?T ?M boot_os ?L"
    by (simp add: lock_ready_def lock_rep_def demo_lock_layout b lock_mem_def no_waiters_def first_waiter_def dlist_def)
  have c: "run_lock_spec ?cs ?L = Some ?L'"
    by (simp add: set_lock_def fun_eq_iff)
  have "let s' = fold (lock_call quiet_world 2) ?cs boot_os in
    fault s' = None \<and> interrupts_enabled s' = interrupts_enabled boot_os \<and>
    (\<forall>mx\<in>?M. mem s' (mx + kMutexOwnerOffset) = owner_of ?L' mx \<and> mem s' (mx + kMutexCountOffset) = of_nat (depth_of ?L' mx)) \<and>
    (\<forall>t\<in>?T. mutex_list (mem s') t (held ?L' t) \<and> set (held ?L' t) = {mx\<in>?M. owner_of ?L' mx = t}) \<and>
    (\<forall>t\<in>?T. \<forall>u\<in>?T. t \<noteq> u \<longrightarrow> set (held ?L' t) \<inter> set (held ?L' u) = {})"
    by (rule mutexes_refine_lock_table [OF r _ c]) simp_all
  then show ?thesis by (simp add: Let_def dlist_def mutex_offsets thread_offsets del: fold_simps)
qed

section \<open>Handing a mutex to its waiters\<close>

text \<open>C29: the unlock that gives up the last level, with at most 256 threads waiting, all of them alive and
  not suspended, and the switch deferred: the mutex
  is free and off its owner's list, a priority raised by inheritance falls to the minimum of the base
  priority and what the remaining mutexes' first waiters demand, the wait queue is empty, and every
  waiter is READY and stands in the run queue of its priority behind the threads that were already
  there, in waiting order.  No access faults and interrupts come back as they were.\<close>

theorem unlock_wakes_waiters:
  fixes s :: os_machine
  assumes "lock_rep T M s L" "t \<in> T" "mx \<in> M" "owner_of L mx = t" "depth_of L mx = 1" "calling t mx T s"
    and "waiters_in T M (mem s)" "length (held L t) < fuel"
    and "sched_layout T mx" "sched_inv (mem s) mx T xs rq" "\<forall>x\<in>set xs. wakeable s x" "t \<notin> set xs" "length xs \<le> kMaxWake"
    and "advancing_retrace W = (\<lambda>_. True)"
  shows "case run_state (OSUnlockMutex W fuel) s of (r, s') \<Rightarrow>
    fault s' = None \<and> interrupts_enabled s' = interrupts_enabled s \<and>
    mem s' (mx + kMutexOwnerOffset) = 0 \<and> mem s' (mx + kMutexCountOffset) = 0 \<and>
    mutex_list (mem s') t (remove1 mx (held L t)) \<and>
    prio_of (mem s') t = released_priority (mem s) t (remove1 mx (held L t)) \<and>
    thread_queue (mem s') mx [] \<and>
    (\<forall>x\<in>set xs. hi16 (mem s' (x + kThreadStateOffset)) = kThreadStateReady) \<and>
    (\<forall>i<32. thread_queue (mem s') (rq_addr i) (rq i @ filter (\<lambda>x. prio_of (mem s) x = int i) xs))"
proof -
  note R = lock_repD [OF assms(1)]
  note D = lock_layoutD [OF R(2)]
  let ?c = "mem s kOSCurrentContextAddr" and ?ms = "remove1 mx (held L t)" and ?A = "lock_words T M \<union> {t + kThreadPriorityOffset}"
  let ?L = "set_lock mx 0 0 t ?ms L"
  have c: "?c = 0 \<or> ?c \<in> T" using assms(6) by (simp add: calling_def)
  note F = flag_word_apart [OF R(2) c]
  let ?Q = "\<lambda>s'. lock_rep T M s' ?L \<and> prio_of (mem s') t = released_priority (mem s) t ?ms \<and>
    sched_inv (mem s') mx T [] (woken (mem s) xs rq) \<and>
    (\<forall>x\<in>set xs. hi16 (mem s' (x + kThreadStateOffset)) = kThreadStateReady)"
  have xsT: "set xs \<subseteq> T" using assms(10) by (simp add: sched_inv_def)
  have o: "i \<in> queue_fields" "i \<noteq> 0x1A0" "i \<notin> {kThreadMutexQueueOffset, kThreadMutexTailOffset}"
    if "i \<in> {kThreadStateOffset, kThreadSuspendOffset, kThreadPriorityOffset, kThreadNextOffset, kThreadPrevOffset}" for i
    using that by (auto simp: thread_offsets queue_fields_def)
  have apart: "x + i \<notin> insert (flag_word s) ?A" if "x \<in> T" "i \<in> {kThreadStateOffset, kThreadSuspendOffset, kThreadPriorityOffset, kThreadNextOffset, kThreadPrevOffset}"
      "i \<noteq> kThreadPriorityOffset \<or> x \<noteq> t" for x i
    using F(6) [OF that(1) o(1,2) [OF that(2)]] not_in_lock_words [OF R(2) that(1) o(1,3) [OF that(2)]]
      D(7) [OF that(1) o(1) [OF that(2)] assms(2) queue_fieldsI(1)] that(3) by (auto simp: flag_word_def)
  have mx4: "mx + 4 \<notin> lock_words T M"
  proof -
    have "(4 :: u32) \<in> mutex_fields" by (simp add: mutex_fields_def)
    note E = D(6) [OF _ _ assms(3) this] D(8) [OF assms(3) this]
    have "mx + 4 \<noteq> u + j" if "u \<in> T" "j \<in> {kThreadMutexQueueOffset, kThreadMutexTailOffset}" for u j
      by (rule E(1) [OF that(1)]) (use that(2) in auto)
    moreover have "mx + 4 \<noteq> my + j"
      if "my \<in> M" "j \<in> {kMutexOwnerOffset, kMutexCountOffset, kMutexThreadNextOffset, kMutexThreadPrevOffset}" for my j
      using E(2) [OF that(1), of j] that(2) by (auto simp: mutex_fields_def mutex_offsets)
    ultimately show ?thesis unfolding lock_words_def fields_of_def by blast
  qed
  have sapart: "a \<notin> insert (flag_word s) ?A" if a: "a \<in> sched_frame mx T" for a
  proof -
    have "a \<noteq> flag_word s" using sched_frame_apart [OF assms(9) c a] by (simp add: flag_word_def)
    moreover have "a \<notin> ?A"
    proof -
      have g: "b \<notin> ?A" if "b \<in> sched_words \<union> rq_slots" for b
      proof -
        have "b \<notin> lock_words T M"
          using D(3,4) that queue_fieldsI mutex_fieldsI unfolding lock_words_def fields_of_def by blast
        then show ?thesis using D(3) [OF assms(2) queue_fieldsI(1)] that by auto
      qed
      have "mx \<notin> ?A" "mx + 4 \<notin> ?A"
        using wait_head_not_in_lock_words [OF R(2) assms(3)] mx4 D(6) [OF assms(2) queue_fieldsI(1) assms(3), of 0]
          D(6) [OF assms(2) queue_fieldsI(1) assms(3), of 4] by (auto simp: mutex_fields_def mutex_offsets)
      moreover have "kSchedulerPendingFlagAddr \<notin> ?A" by (rule g) (simp add: sched_words_def)
      moreover have "b \<notin> ?A" if "b \<in> rq_slots" for b using g that by blast
      moreover have "b \<notin> ?A" if b: "b \<in> fields_of T {kThreadNextOffset, kThreadPrevOffset}" for b
      proof -
        from b obtain x i where xi: "b = x + i" "x \<in> T" "i \<in> {kThreadNextOffset, kThreadPrevOffset}" unfolding fields_of_def by blast
        have "x + i \<notin> insert (flag_word s) ?A" by (rule apart [OF xi(2)]) (use xi(3) in auto)
        then show ?thesis unfolding xi(1) by blast
      qed
      ultimately show ?thesis using a unfolding sched_frame_def by (elim UnE insertE emptyE) simp_all
    qed
    ultimately show ?thesis by simp
  qed
  have "\<exists>s'. run_state (OSUnlockMutex W fuel) s = ((), s') \<and> wii s' \<and> interrupts_enabled s' = interrupts_enabled s \<and> ?Q s'"
  proof (rule run_unlock_last [OF assms(1-8)])
    fix s2 :: os_machine
    assume s2: "wii s2" "gpr (cpu s2) 3 = mx" "machine.more s2 = machine.more s" "lock_rep T M s2 ?L"
      "prio_of (mem s2) t = released_priority (mem s) t ?ms" "\<forall>a. a \<notin> insert (flag_word s) ?A \<longrightarrow> mem s2 a = mem s a"
    have inv2: "sched_inv (mem s2) mx T xs rq"
      by (rule sched_inv_frame [OF assms(10)]) (use s2(6) sapart in blast)
    have same: "mem s2 (x + i) = mem s (x + i)" if "x \<in> set xs" "i \<in> {kThreadStateOffset, kThreadSuspendOffset, kThreadPriorityOffset}" for x i
    proof -
      have "x \<in> T" "x \<noteq> t" using that(1) xsT assms(12) by auto
      then have "x + i \<notin> insert (flag_word s) ?A" using apart [of x i] that(2) by auto
      then show ?thesis using s2(6) by blast
    qed
    have "fibers s2 = fibers s" using s2(3) by (cases s; cases s2) simp
    then have "fiber_dead s2 = fiber_dead s" by (simp add: fiber_dead_def fun_eq_iff)
    then have wk2: "\<forall>x\<in>set xs. wakeable s2 x" using assms(11) same by (simp add: wakeable_def prio_of_def)
    have w2: "woken (mem s2) xs rq = woken (mem s) xs rq"
      unfolding woken_def using same by (intro ext arg_cong2 [where f = append] refl filter_cong) (auto simp: prio_of_def)
    have cur2: "mem s2 kOSCurrentContextAddr = ?c"
    proof -
      have "kOSCurrentContextAddr \<notin> lock_words T M" using lock_words_ok(2) [OF R(2)] ctx_words(1) by blast
      moreover have "kOSCurrentContextAddr \<noteq> t + kThreadPriorityOffset"
        using D(3) [OF assms(2) queue_fieldsI(1)] ctx_words(1) by (metis UnI1)
      ultimately show ?thesis using s2(6) F(4) by (simp add: flag_word_def)
    qed
    have mx0: "mx \<noteq> 0" using assms(3) D(10) by auto
    obtain s3 where s3: "run_state (OSWakeupThread W fuel) s2 = ((), s3)" "wii s3"
      "sched_inv (mem s3) mx T [] (woken (mem s2) xs rq)"
      "\<forall>x\<in>set xs. hi16 (mem s3 (x + kThreadStateOffset)) = kThreadStateReady"
      "\<forall>y\<in>T. prio_of (mem s3) y = prio_of (mem s2) y"
      "\<forall>a. a \<notin> insert (?c + 0x1A0) (wake_words mx T) \<longrightarrow> mem s3 a = mem s2 a"
      using run_wakeup_deferred [OF s2(1,2) mx0 assms(9) inv2 wk2 assms(13,14) cur2 c, of fuel] by blast
    have away: "a \<notin> wake_words mx T" if a: "a \<in> lock_words T M \<or> a = kOSCurrentContextAddr" for a
    proof -
      have g: "a \<notin> sched_words \<union> rq_slots \<or> a = kOSCurrentContextAddr"
        using a D(3,4) queue_fieldsI mutex_fieldsI unfolding lock_words_def fields_of_def by blast
      have cn: "kOSCurrentContextAddr \<notin> {kSchedulerPendingFlagAddr, kSchedulerReschedCounterAddr} \<union> rq_slots"
        using rq_slots_not_sched ctx_words(1) by (auto simp: kernel_words)
      have ct: "kOSCurrentContextAddr \<noteq> x + i" "kOSCurrentContextAddr \<noteq> mx + j" if "x \<in> T" "i \<in> queue_fields" "j \<in> mutex_fields" for x i j
        using D(3) [OF that(1,2)] D(4) [OF assms(3) that(3)] ctx_words(1) by (metis UnI1)+
      have f4: "(0 :: u32) \<in> mutex_fields" "(4 :: u32) \<in> mutex_fields" by (simp_all add: mutex_fields_def mutex_offsets)
      have "a \<noteq> mx" "a \<noteq> mx + 4"
        using a wait_head_not_in_lock_words [OF R(2) assms(3)] mx4 ct(2) [OF assms(2) queue_fieldsI(1) f4(1)]
          ct(2) [OF assms(2) queue_fieldsI(1) f4(2)] by auto
      moreover have "a \<noteq> x + i" if "x \<in> T" "i \<in> {kThreadStateOffset, kThreadNextOffset, kThreadPrevOffset, kThreadQueueOffset}" for x i
      proof -
        have i: "i \<in> queue_fields" "i \<notin> {kThreadMutexQueueOffset, kThreadMutexTailOffset}"
          using that(2) by (auto simp: thread_offsets queue_fields_def)
        show ?thesis using a not_in_lock_words [OF R(2) that(1) i] ct(1) [OF that(1) i(1) f4(1)] by auto
      qed
      ultimately show ?thesis using a g cn by (auto simp: wake_words_def fields_of_def sched_words_def)
    qed
    have "mem s3 a = mem s2 a" if a: "a \<in> lock_words T M" for a
    proof -
      have "a \<noteq> ?c + 0x1A0" using F(2) a by auto
      then have "a \<notin> insert (?c + 0x1A0) (wake_words mx T)" using away [of a] a by simp
      then show ?thesis using s3(6) by blast
    qed
    then have "lock_rep T M s3 ?L" by (rule lock_rep_frame [OF s2(4) s3(2)])
    moreover have "mem s3 kOSCurrentContextAddr = ?c"
      using s3(6) away [of kOSCurrentContextAddr] F(4) [OF ctx_words(1)] cur2 by simp
    ultimately show "\<exists>s3. run_state (OSWakeupThread W fuel) s2 = ((), s3) \<and> wii s3 \<and>
        mem s3 kOSCurrentContextAddr = ?c \<and> ?Q s3"
      using s3(1-5) w2 s2(5) assms(2) by auto
  next
    fix s3 s4 :: os_machine
    assume h: "?Q s3" "wii s4" "\<forall>a. a \<noteq> flag_word s \<longrightarrow> mem s4 a = mem s3 a"
    have fw: "flag_word s \<notin> lock_words T M" using F(2) by (simp add: flag_word_def)
    have "lock_rep T M s4 ?L" by (rule lock_rep_frame [OF conjunct1 [OF h(1)] h(2)]) (use h(3) fw in metis)
    moreover have "sched_inv (mem s4) mx T [] (woken (mem s) xs rq)"
      by (rule sched_inv_frame [of "mem s3"]) (use h(1,3) sapart in blast)+
    moreover have "prio_of (mem s4) t = prio_of (mem s3) t"
      using h(3) F(6) [OF assms(2) queue_fieldsI(1)] by (simp add: prio_of_def flag_word_def)
    moreover have "mem s4 (x + kThreadStateOffset) = mem s3 (x + kThreadStateOffset)" if "x \<in> set xs" for x
      using h(3) apart [of x kThreadStateOffset] that xsT by auto
    ultimately show "?Q s4" using h(1) by simp
  qed
  then obtain s' where s': "run_state (OSUnlockMutex W fuel) s = ((), s')" "wii s'" "interrupts_enabled s' = interrupts_enabled s" "?Q s'"
    by blast
  have r: "lock_rep T M s' ?L" using s'(4) by blast
  note R' = lock_repD [OF r]
  have "mem s' (mx + kMutexOwnerOffset) = 0" "mem s' (mx + kMutexCountOffset) = 0" "mutex_list (mem s') t ?ms"
    using R'(4,5) [OF assms(3)] R'(8) [OF assms(2)] by (simp_all add: set_lock_def)
  then show ?thesis
    using s' wii_fault [OF s'(2)] by (auto simp: sched_inv_def woken_def)
qed


text \<open>A mutex held by a thread of base priority 16 that inherited 8 from the one waiter.\<close>

definition demo_contended :: os_machine where
  "demo_contended =
     wr32 0x80402000 0x80401000 (wr32 0x80402004 0x80401000 (wr32 0x80402008 0x80400000 (wr32 0x8040200C 1
     (wr32 0x804002F4 0x80402000 (wr32 0x804002F8 0x80402000 (wr32 0x804002D0 8 (wr32 0x804002D4 16
     (wr32 0x804012D0 8 (wr32 0x804012C8 0x00040000 (wr32 0x804012DC 0x80402000 (wr32 0x800000E4 0x80400000
     (boot_os\<lparr>cpu := zero_cpu\<lparr>gpr := (\<lambda>_. 0)(3 := 0x80402000)\<rparr>\<rparr>))))))))))))"

definition contended_mem :: "u32 \<Rightarrow> u32" where
  "contended_mem = (\<lambda>_. 0)(0x800000E4 := 0x80400000, 0x804012DC := 0x80402000, 0x804012C8 := 0x40000, 0x804012D0 := 8,
     0x804002D4 := 16, 0x804002D0 := 8, 0x804002F8 := 0x80402000, 0x804002F4 := 0x80402000, 0x8040200C := 1,
     0x80402008 := 0x80400000, 0x80402004 := 0x80401000, 0x80402000 := 0x80401000)"

lemma demo_contended_facts: "wii demo_contended" "mem demo_contended = contended_mem" "fiber_dead demo_contended x = False"
  "gpr (cpu demo_contended) 3 = 0x80402000"
proof -
  have b: "mem boot_os = (\<lambda>_. 0)" "wii boot_os"
    by (simp_all add: fun_eq_iff mem_def rd32_def boot_os_def be_word32_def wii_def)
  show "wii demo_contended" by (simp add: demo_contended_def b)
  show "mem demo_contended = contended_mem" by (simp add: demo_contended_def contended_mem_def b layout_eval)
  show "fiber_dead demo_contended x = False" by (simp add: demo_contended_def boot_os_def fiber_dead_def wr32_def)
  show "gpr (cpu demo_contended) 3 = 0x80402000" by (simp add: demo_contended_def)
qed

lemma contended_rq_zero: "i < 32 \<Longrightarrow> contended_mem (rq_addr i) = 0" "i < 32 \<Longrightarrow> contended_mem (rq_addr i + 4) = 0"
  by (simp_all add: contended_mem_def word_unat_eq_iff unat_rq_addr)

lemma unlock_wakes_waiters_witness:
  "case run_state (OSUnlockMutex (quiet_world\<lparr>advancing_retrace := (\<lambda>_. True)\<rparr>) 2) demo_contended of (r, s') \<Rightarrow>
    fault s' = None \<and> mem s' 0x80402008 = 0 \<and> prio_of (mem s') 0x80400000 = 16 \<and> thread_queue (mem s') (rq_addr 8) [0x80401000]"
proof -
  let ?T = "{0x80400000, 0x80401000} :: u32 set" and ?M = "{0x80402000} :: u32 set"
  let ?L = "\<lparr>owner_of = (\<lambda>_. 0)(0x80402000 := 0x80400000), depth_of = (\<lambda>_. 0)(0x80402000 := 1),
    held = (\<lambda>_. [])(0x80400000 := [0x80402000])\<rparr>"
  have r: "lock_rep ?T ?M demo_contended ?L"
    by (auto simp: lock_rep_def demo_lock_layout demo_contended_facts lock_mem_def dlist_def)
      (simp_all add: contended_mem_def mutex_offsets thread_offsets)
  have inv: "sched_inv contended_mem 0x80402000 ?T [0x80401000] (\<lambda>_. [])"
    unfolding sched_inv_def
    by (auto simp: dlist_def contended_rq_zero) (simp_all add: contended_mem_def thread_offsets kernel_words)
  have wk: "\<forall>x\<in>set [0x80401000]. wakeable demo_contended x"
    by (simp add: wakeable_def demo_contended_facts contended_mem_def prio_of_def thread_offsets hi16_def
        ThreadStateIsTerminated_def kThreadStateMoribund_def)
  have c: "calling 0x80400000 0x80402000 ?T demo_contended"
    by (simp add: calling_def demo_contended_facts) (simp add: contended_mem_def kernel_words)
  have wt: "waiters_in ?T ?M (mem demo_contended)"
    by (simp add: waiters_in_def first_waiter_def demo_contended_facts contended_mem_def)
  have rp: "released_priority contended_mem 0x80400000 [] = 16" "prio_of contended_mem 0x80401000 = 8"
    by (simp_all add: released_priority_def prio_of_def contended_mem_def thread_offsets)
  obtain r s' where rs: "run_state (OSUnlockMutex (quiet_world\<lparr>advancing_retrace := (\<lambda>_. True)\<rparr>) 2) demo_contended = (r, s')"
    by (rule prod.exhaust)
  have W: "fault s' = None \<and> interrupts_enabled s' = interrupts_enabled demo_contended \<and>
    mem s' (0x80402000 + kMutexOwnerOffset) = 0 \<and> mem s' (0x80402000 + kMutexCountOffset) = 0 \<and>
    mutex_list (mem s') 0x80400000 (remove1 0x80402000 (held ?L 0x80400000)) \<and>
    prio_of (mem s') 0x80400000 = released_priority (mem demo_contended) 0x80400000 (remove1 0x80402000 (held ?L 0x80400000)) \<and>
    thread_queue (mem s') 0x80402000 [] \<and>
    (\<forall>x\<in>set [0x80401000]. hi16 (mem s' (x + kThreadStateOffset)) = kThreadStateReady) \<and>
    (\<forall>i<32. thread_queue (mem s') (rq_addr i) ([] @ filter (\<lambda>x. prio_of (mem demo_contended) x = int i) [0x80401000]))"
    using unlock_wakes_waiters [OF r _ _ _ _ c wt _ demo_layout inv [folded demo_contended_facts(2)] wk,
        where W = "quiet_world\<lparr>advancing_retrace := (\<lambda>_. True)\<rparr>" and fuel = 2]
    unfolding rs prod.case by (simp add: kMaxWake_def)
  then have "thread_queue (mem s') (rq_addr 8) ([] @ filter (\<lambda>x. prio_of contended_mem x = int 8) [0x80401000])"
    unfolding demo_contended_facts(2) by (elim conjE) (drule spec [where x = 8], simp)
  then show ?thesis
    using W rp unfolding rs prod.case demo_contended_facts(2) by (simp add: mutex_offsets)
qed

end
