(* ===== verification/OsTime.thy ===== *)
theory OsTime
  imports OsWakeup
begin

unbundle bit_operations_syntax

text \<open>
  Time: the conversion between the host's nanoseconds and the ticks of the console's time base
  (\<open>runtime/include/timebase_contract.h\<close>), the time base registers (\<open>runtime/src/ppc_helpers.cpp\<close>), and
  the system time (\<open>hle/os/os_time.cpp\<close>).  The readings of the host's clock are the field \<open>host_clock\<close>
  of the machine; every call of the clock takes the first.  The results: the conversions round down and
  never overflow, and the two halves of the time base are never taken from different readings.
\<close>

section \<open>Conversions\<close>

definition kTickRatioNumerator :: u64 where "kTickRatioNumerator = 243"
definition kTickRatioDenominator :: u64 where "kTickRatioDenominator = 4000"

definition NanosecondsToTicks :: "u64 \<Rightarrow> u64" where
  "NanosecondsToTicks nanoseconds =
     (nanoseconds div kTickRatioDenominator) * kTickRatioNumerator +
     ((nanoseconds mod kTickRatioDenominator) * kTickRatioNumerator) div kTickRatioDenominator"

definition kMaxNanoseconds :: u64 where "kMaxNanoseconds = 0x7FFFFFFFFFFFFFFF"
definition kMaxTicks :: u64 where "kMaxTicks = NanosecondsToTicks kMaxNanoseconds"

definition TicksToDuration :: "u64 \<Rightarrow> int" where
  "TicksToDuration ticks =
     (if ticks = 0 \<or> ticks > kMaxTicks then 0
      else let nanoseconds =
        (ticks div kTickRatioNumerator) * kTickRatioDenominator +
        ((ticks mod kTickRatioNumerator) * kTickRatioDenominator) div kTickRatioNumerator
      in sint nanoseconds)"

section \<open>The time base\<close>

definition steady_now :: "nat os" where
  "steady_now = State (\<lambda>s. if fault s \<noteq> None then (0, s)
     else (host_clock s 0, s\<lparr>host_clock := (\<lambda>i. host_clock s (Suc i))\<rparr>))"

definition GetTimeBase :: "u64 os" where
  "GetTimeBase = do { nanoseconds \<leftarrow> steady_now; State_Monad.return (NanosecondsToTicks (of_nat nanoseconds)) }"

definition PPC_Mftb :: "u32 os" where
  "PPC_Mftb = do { t \<leftarrow> GetTimeBase; State_Monad.return (ucast t) }"

definition PPC_Mftbu :: "u32 os" where
  "PPC_Mftbu = do { t \<leftarrow> GetTimeBase; State_Monad.return (ucast (drop_bit 32 t)) }"

definition join64 :: "u32 \<Rightarrow> u32 \<Rightarrow> u64" where
  "join64 hi lo = push_bit 32 (ucast hi) OR ucast lo"

definition hi32 :: "u64 \<Rightarrow> u32" where "hi32 t = ucast (drop_bit 32 t)"
definition lo32 :: "u64 \<Rightarrow> u32" where "lo32 t = ucast (t AND 0xFFFFFFFF)"

definition ReadTimeBaseRegisters :: "nat \<Rightarrow> (u32 \<times> u32) os" where
  "ReadTimeBaseRegisters fuel = loop fuel (0, 0) (\<lambda>_. do {
     hi1 \<leftarrow> PPC_Mftbu;
     lo \<leftarrow> PPC_Mftb;
     hi2 \<leftarrow> PPC_Mftbu;
     State_Monad.return (if hi1 = hi2 then Inr (hi1, lo) else Inl ())
   }) ()"

definition ReadSystemTime :: "nat \<Rightarrow> u64 os" where
  "ReadSystemTime fuel = do {
     (hi1, lo) \<leftarrow> ReadTimeBaseRegisters fuel;
     (let timeBase = join64 hi1 lo in do {
        baseHi \<leftarrow> Read32 0x800030D8;
        baseLo \<leftarrow> Read32 0x800030DC;
        (let base = join64 baseHi baseLo in State_Monad.return (base + timeBase))
      })
   }"

definition OS__GetTime_HLE :: "nat \<Rightarrow> unit os" where
  "OS__GetTime_HLE fuel = do {
     (hi, lo) \<leftarrow> ReadTimeBaseRegisters fuel;
     gpr_put 3 hi;
     gpr_put 4 lo
   }"

text \<open>What the kernel falls back to when the words of the base are not readable.\<close>

definition raw_time :: "u64 os" where
  "raw_time = do { hi \<leftarrow> PPC_Mftbu; lo \<leftarrow> PPC_Mftb; State_Monad.return (join64 hi lo) }"

definition OS____GetSystemTime :: "nat \<Rightarrow> u32 os" where
  "OS____GetSystemTime fuel = do {
     saved_level \<leftarrow> OS__DisableInterrupts;
     now \<leftarrow> try_catch (ReadSystemTime fuel) raw_time;
     (let hi = hi32 now; lo = lo32 now in do {
        _ \<leftarrow> OS__RestoreInterrupts saved_level;
        gpr_put 3 hi;
        gpr_put 4 lo;
        State_Monad.return hi
      })
   }"

section \<open>Rounding\<close>

lemma scaled_div:
  assumes "0 < (d :: nat)"
  shows "(n div d) * k + (n mod d) * k div d = n * k div d"
proof -
  have "n * k = d * ((n div d) * k) + (n mod d) * k"
    by (metis add_mult_distrib mult.assoc mult_div_mod_eq)
  then show ?thesis using assms by simp
qed

lemma unat_ticks: "unat (NanosecondsToTicks n) = unat n * 243 div 4000"
proof -
  let ?q = "unat n div 4000" and ?r = "unat n mod 4000"
  have n: "unat n < 2 ^ 64" using unsigned_less [of n, where 'a = nat] by simp
  have r: "?r < 4000" by simp
  have e: "unat (n div 4000) = ?q" "unat (n mod 4000) = ?r" by (simp_all add: unat_div unat_mod)
  have m1: "unat (n div 4000 * 243) = ?q * 243"
    using n e by (subst unat_mult_lem [THEN iffD1]) auto
  have m2: "unat (n mod 4000 * 243) = ?r * 243"
    using r e by (subst unat_mult_lem [THEN iffD1]) auto
  have s: "unat (n div 4000 * 243) + unat (n mod 4000 * 243 div 4000) = unat n * 243 div 4000"
    using scaled_div [of 4000 "unat n" 243] m1 m2 by (simp add: unat_div)
  have "unat (n div 4000 * 243 + n mod 4000 * 243 div 4000) = unat n * 243 div 4000"
    using n s by (subst unat_add_lem [THEN iffD1]) auto
  then show ?thesis by (simp add: NanosecondsToTicks_def kTickRatioNumerator_def kTickRatioDenominator_def)
qed

lemma unat_max_ticks: "unat kMaxTicks = 560319851238927630"
  by (simp add: kMaxTicks_def unat_ticks kMaxNanoseconds_def)

lemma sint_u64_small:
  assumes "unat (w :: u64) < 2 ^ 63"
  shows "sint w = int (unat w)"
proof -
  have u: "uint w = int (unat w)" by simp
  have "int (unat w) < int (2 ^ 63)" using assms by (simp only: of_nat_less_iff)
  then have l: "int (unat w) < 2 ^ 63" by simp
  have "signed_take_bit 63 (int (unat w)) = int (unat w)"
    by (rule signed_take_bit_int_eq_self) (use l in linarith)+
  then show ?thesis unfolding sint_uint u by simp
qed

lemma round_trip_loss: "((t :: nat) * 4000 div 243) * 243 div 4000 = t \<or> (t * 4000 div 243) * 243 div 4000 + 1 = t"
proof -
  define x where "x = t * 4000 div 243"
  define k where "k = x * 243 div 4000"
  have "243 * x \<le> t * 4000" "t * 4000 < 243 * x + 243" "4000 * k \<le> x * 243" "x * 243 < 4000 * k + 4000"
    using mult_div_mod_eq [of 243 "t * 4000"] mult_div_mod_eq [of 4000 "x * 243"]
      mod_less_divisor [of 243 "t * 4000"] mod_less_divisor [of 4000 "x * 243"]
    unfolding x_def k_def by linarith+
  then have "k = t \<or> k + 1 = t" by linarith
  then show ?thesis by (simp add: k_def x_def)
qed

lemma duration_value:
  assumes "t \<noteq> 0" "t \<le> kMaxTicks"
  shows "TicksToDuration t = int (unat t * 4000 div 243)" "unat t * 4000 div 243 < 2 ^ 63"
proof -
  let ?q = "unat t div 243" and ?r = "unat t mod 243"
  have t: "unat t \<le> 560319851238927630" using assms(2) unat_max_ticks by (simp add: word_le_nat_alt)
  have r: "?r < 243" by simp
  have m1: "unat (t div 243 * 4000) = ?q * 4000"
    using t by (subst unat_mult_lem [THEN iffD1]) (auto simp: unat_div)
  have m2: "unat (t mod 243 * 4000) = ?r * 4000"
    using r by (subst unat_mult_lem [THEN iffD1]) (auto simp: unat_mod)
  have s: "unat (t div 243 * 4000) + unat (t mod 243 * 4000 div 243) = unat t * 4000 div 243"
    using scaled_div [of 243 "unat t" 4000] m1 m2 by (simp add: unat_div)
  show b: "unat t * 4000 div 243 < 2 ^ 63" using t by (simp add: div_less_iff_less_mult)
  have "unat (t div 243 * 4000 + t mod 243 * 4000 div 243) = unat t * 4000 div 243"
    using b s by (subst unat_add_lem [THEN iffD1]) auto
  moreover have "\<not> t > kMaxTicks" using assms(2) by simp
  ultimately show "TicksToDuration t = int (unat t * 4000 div 243)"
    using assms(1) b sint_u64_small [of "t div 243 * 4000 + t mod 243 * 4000 div 243"]
    by (simp add: TicksToDuration_def kTickRatioNumerator_def kTickRatioDenominator_def)
qed

text \<open>The conversions between nanoseconds and time-base ticks are exact: the ticks are the integer
  part of 243/4000 of the nanoseconds for every 64-bit number, with no overflow on the way; the duration
  of a number of ticks is the integer part of 4000/243 of it, zero for zero ticks and exactly for those
  numbers of ticks that no 63-bit number of nanoseconds reaches; and a duration converted back is the
  number of ticks or one less, so a timer armed for it is never late by its rounding.\<close>

theorem tick_conversion_exact:
  "unat (NanosecondsToTicks n) = unat n * 243 div 4000 \<and>
   (if unat t \<le> (2 ^ 63 - 1) * 243 div 4000
    then TicksToDuration t = int (unat t * 4000 div 243) \<and> unat t * 4000 div 243 < 2 ^ 63 \<and>
      NanosecondsToTicks (word_of_int (TicksToDuration t)) \<in> {t - 1, t}
    else TicksToDuration t = 0)"
proof (cases "unat t \<le> (2 ^ 63 - 1) * 243 div 4000")
  case True
  then have le: "t \<le> kMaxTicks" by (simp add: word_le_nat_alt unat_max_ticks)
  have z: "TicksToDuration 0 = 0" by (simp add: TicksToDuration_def)
  have d: "TicksToDuration t = int (unat t * 4000 div 243)" "unat t * 4000 div 243 < 2 ^ 63"
    using duration_value [of t] le z by (cases "t = 0"; simp)+
  let ?x = "unat t * 4000 div 243"
  have "unat (word_of_int (TicksToDuration t) :: u64) = ?x"
    using d by (simp add: unat_of_nat)
  then have b: "unat (NanosecondsToTicks (word_of_int (TicksToDuration t))) = ?x * 243 div 4000"
    by (simp add: unat_ticks)
  have e: "?x * 243 div 4000 = unat t \<or> ?x * 243 div 4000 + 1 = unat t" by (rule round_trip_loss)
  have "NanosecondsToTicks (word_of_int (TicksToDuration t)) \<in> {t - 1, t}"
  proof (cases "?x * 243 div 4000 = unat t")
    case False
    then have "unat (t - 1) = ?x * 243 div 4000" using e by (subst unat_minus_one) auto
    then show ?thesis using b by (simp add: word_unat_eq_iff)
  qed (use b in \<open>simp add: word_unat_eq_iff\<close>)
  then show ?thesis using True d unat_ticks by auto
next
  case False
  then have "t > kMaxTicks" by (simp add: word_less_nat_alt unat_max_ticks)
  then show ?thesis using False unat_ticks by (simp add: TicksToDuration_def)
qed

section \<open>Reading the time base\<close>

lemma run_steady_now [run_simps]:
  "fault s = None \<Longrightarrow> run_state steady_now s = (host_clock s 0, s\<lparr>host_clock := (\<lambda>i. host_clock s (Suc i))\<rparr>)"
  by (simp add: steady_now_def)

text \<open>The state after \<open>n\<close> readings.\<close>

definition later :: "nat \<Rightarrow> os_machine \<Rightarrow> os_machine" where
  "later n s = s\<lparr>host_clock := (\<lambda>i. host_clock s (n + i))\<rparr>"

definition ticks_at :: "os_machine \<Rightarrow> nat \<Rightarrow> u64" where
  "ticks_at s i = NanosecondsToTicks (of_nat (host_clock s i))"

lemma later_simps [simp]:
  "fault (later n s) = fault s" "host_clock (later n s) i = host_clock s (n + i)" "cpu (later n s) = cpu s"
  "later n (later m s) = later (m + n) s" "mem (later n s) = mem s" "wii (later n s) = wii s"
  "interrupts_enabled (later n s) = interrupts_enabled s" "ticks_at (later n s) i = ticks_at s (n + i)"
  by (auto simp: later_def wii_def ticks_at_def add.assoc intro: mem_cong)

lemma run_time_base:
  assumes "fault s = None"
  shows "run_state PPC_Mftb s = (ucast (ticks_at s 0), later 1 s)"
    "run_state PPC_Mftbu s = (hi32 (ticks_at s 0), later 1 s)"
  using assms by (simp_all add: PPC_Mftb_def PPC_Mftbu_def GetTimeBase_def run_simps ticks_at_def later_def hi32_def)

lemma run_time_base_round:
  assumes "fault s = None"
  shows "run_state (ReadTimeBaseRegisters (Suc n)) s =
    (if hi32 (ticks_at s 0) = hi32 (ticks_at s 2) then ((hi32 (ticks_at s 0), ucast (ticks_at s 1)), later 3 s)
     else run_state (ReadTimeBaseRegisters n) (later 3 s))"
  using assms by (simp add: ReadTimeBaseRegisters_def run_simps run_time_base numeral_eq_Suc)

lemma hi32_unat: "unat (hi32 t) = unat t div 4294967296"
proof -
  have "unat t div 4294967296 < 4294967296"
    using unsigned_less [of t, where 'a = nat] by (simp add: div_less_iff_less_mult)
  then show ?thesis
    by (simp add: hi32_def unsigned_ucast_eq unsigned_drop_bit_eq drop_bit_eq_div take_bit_eq_mod unat_div)
qed

lemma join_halves: "join64 (hi32 t) (ucast t) = t"
  by (rule bit_word_eqI)
    (auto simp: join64_def hi32_def bit_or_iff bit_push_bit_iff bit_ucast_iff bit_drop_bit_eq
      not_le dest: bit_imp_le_length)

text \<open>As long as the clock advances by less than about seventy seconds over six readings, the upper half
  changes at most once in them, so one of two rounds sees it still.\<close>

lemma run_time_base_registers:
  assumes "fault s = None" "\<forall>i<5. host_clock s i \<le> host_clock s (Suc i)"
    and "host_clock s 5 - host_clock s 0 \<le> 70000000000" "host_clock s 5 < 2 ^ 64" "1 < fuel"
  shows "\<exists>hi lo k. (k = 3 \<or> k = 6) \<and> run_state (ReadTimeBaseRegisters fuel) s = ((hi, lo), later k s) \<and>
    join64 hi lo = ticks_at s (k - 2)"
proof -
  obtain n where n: "fuel = Suc (Suc n)" using assms(5) by (metis less_nat_zero_code not_less_eq old.nat.exhaust One_nat_def)
  define h where "h = host_clock s"
  have mono: "h 0 \<le> h 1" "h 1 \<le> h 2" "h 2 \<le> h 3" "h 3 \<le> h 4" "h 4 \<le> h 5"
    using assms(2) by (auto simp: h_def numeral_eq_Suc)
  have t: "unat (ticks_at s i) = h i * 243 div 4000" if "i \<le> 5" for i
  proof -
    have "h i \<le> h 5" using mono that by (auto simp: numeral_eq_Suc le_Suc_eq)
    then have "h i < 2 ^ 64" using assms(4) by (simp add: h_def)
    then show ?thesis by (simp add: ticks_at_def unat_ticks unat_of_nat take_bit_nat_eq_self_iff take_bit_nat_eq_self h_def)
  qed
  have r1: "run_state (ReadTimeBaseRegisters fuel) s =
      (if hi32 (ticks_at s 0) = hi32 (ticks_at s 2) then ((hi32 (ticks_at s 0), ucast (ticks_at s 1)), later 3 s)
       else run_state (ReadTimeBaseRegisters (Suc n)) (later 3 s))"
    using run_time_base_round [OF assms(1)] n by simp
  have mid: "hi32 (ticks_at s b) = hi32 (ticks_at s a)"
    if "hi32 (ticks_at s a) = hi32 (ticks_at s c)" "h a \<le> h b" "h b \<le> h c" "a \<le> 5" "b \<le> 5" "c \<le> 5" for a b c
  proof -
    have "h a * 243 div 4000 \<le> h b * 243 div 4000" "h b * 243 div 4000 \<le> h c * 243 div 4000"
      using that by (auto intro!: div_le_mono)
    then have "h a * 243 div 4000 div 4294967296 \<le> h b * 243 div 4000 div 4294967296"
      "h b * 243 div 4000 div 4294967296 \<le> h c * 243 div 4000 div 4294967296" by (auto intro!: div_le_mono)
    then show ?thesis using that by (simp add: word_unat_eq_iff hi32_unat t)
  qed
  show ?thesis
  proof (cases "hi32 (ticks_at s 0) = hi32 (ticks_at s 2)")
    case True
    then have "hi32 (ticks_at s 1) = hi32 (ticks_at s 0)" using mid [of 0 2 1] mono by simp
    then have "join64 (hi32 (ticks_at s 0)) (ucast (ticks_at s 1)) = ticks_at s (3 - 2)"
      using join_halves [of "ticks_at s 1"] by simp
    then show ?thesis using r1 True by auto
  next
    case False
    have "h 5 \<le> h 0 + 70000000000" using assms(3) by (simp add: h_def)
    then have "h 5 * 243 \<le> h 0 * 243 + 4252500000 * 4000" by linarith
    then have "h 5 * 243 div 4000 \<le> (h 0 * 243 + 4252500000 * 4000) div 4000" by (rule div_le_mono)
    then have up: "h 5 * 243 div 4000 \<le> h 0 * 243 div 4000 + 4252500000" by simp
    then have top: "h 5 * 243 div 4000 div 4294967296 \<le> h 0 * 243 div 4000 div 4294967296 + 1"
    proof -
      have "h 5 * 243 div 4000 \<le> h 0 * 243 div 4000 + 4294967296" using up by linarith
      then have "h 5 * 243 div 4000 div 4294967296 \<le> (h 0 * 243 div 4000 + 4294967296) div 4294967296"
        by (rule div_le_mono)
      then show ?thesis by simp
    qed
    have m: "h 0 * 243 div 4000 div 4294967296 \<le> h 2 * 243 div 4000 div 4294967296"
      "h 2 * 243 div 4000 div 4294967296 \<le> h 3 * 243 div 4000 div 4294967296"
      "h 3 * 243 div 4000 div 4294967296 \<le> h 5 * 243 div 4000 div 4294967296"
      using mono by (auto intro!: div_le_mono)
    moreover have "h 0 * 243 div 4000 div 4294967296 \<noteq> h 2 * 243 div 4000 div 4294967296"
      using False by (simp add: word_unat_eq_iff hi32_unat t)
    ultimately have e: "hi32 (ticks_at s 3) = hi32 (ticks_at s 5)"
      using top by (simp add: word_unat_eq_iff hi32_unat t)
    then have "hi32 (ticks_at s 4) = hi32 (ticks_at s 3)" using mid [of 3 5 4] mono by simp
    then have "join64 (hi32 (ticks_at s 3)) (ucast (ticks_at s 4)) = ticks_at s (6 - 2)"
      using join_halves [of "ticks_at s 4"] by simp
    moreover have "run_state (ReadTimeBaseRegisters (Suc n)) (later 3 s) =
        ((hi32 (ticks_at s 3), ucast (ticks_at s 4)), later 6 s)"
      using run_time_base_round [of "later 3 s" n] assms(1) e by simp
    ultimately show ?thesis using r1 False by auto
  qed
qed

section \<open>The system time\<close>

definition time_ready :: "os_machine \<Rightarrow> bool" where
  "time_ready s \<longleftrightarrow> (\<forall>i<5. host_clock s i \<le> host_clock s (Suc i)) \<and>
     host_clock s 5 - host_clock s 0 \<le> 70000000000 \<and> host_clock s 5 < 2 ^ 64"

definition system_base :: "os_machine \<Rightarrow> u64" where
  "system_base s = join64 (mem s 0x800030D8) (mem s 0x800030DC)"

lemma run_read_system_time:
  assumes "wii s" "time_ready s" "1 < fuel"
  shows "\<exists>k. (k = 3 \<or> k = 6) \<and> run_state (ReadSystemTime fuel) s = (system_base s + ticks_at s (k - 2), later k s)"
proof -
  obtain hi lo k where r: "k = 3 \<or> k = 6" "run_state (ReadTimeBaseRegisters fuel) s = ((hi, lo), later k s)"
    "join64 hi lo = ticks_at s (k - 2)"
    using run_time_base_registers [of s fuel] assms by (auto simp: time_ready_def wii_fault)
  have "word_ok 0x800030D8" "word_ok 0x800030DC" by (simp_all add: word_ok_def cached_def)
  then have "run_state (ReadSystemTime fuel) s = (system_base s + ticks_at s (k - 2), later k s)"
    using r(2,3) assms(1) by (simp add: ReadSystemTime_def run_simps Let_def system_base_def)
  then show ?thesis using r(1) by blast
qed

lemma lo32_ucast: "lo32 t = ucast t"
proof -
  have m: "Bit_Operations.mask 32 = (0xFFFFFFFF :: u64)" by (simp add: mask_eq_exp_minus_1)
  have "t AND 0xFFFFFFFF = take_bit 32 t" by (simp only: take_bit_eq_mask m)
  then show ?thesis by (auto intro!: bit_word_eqI simp: lo32_def bit_ucast_iff bit_take_bit_iff)
qed

text \<open>C28: the system time is never torn: the call returns, in r3 and r4 and with the interrupts as they
  were, the base of the console plus the ticks of one single reading of the clock, although it takes the
  halves of the time base from different readings.  The clock must not go backwards and not advance by
  more than seventy seconds in six readings; then two rounds are enough.  Memory is left alone but for
  the interrupt flag of the current context.\<close>

theorem system_time_never_torn:
  assumes "wii s" "time_ready s" "1 < fuel"
    and "mem s kOSCurrentContextAddr = c" "c = 0 \<or> word_ok (c + 0x1A0)"
    and "c + 0x1A0 \<notin> {kOSCurrentContextAddr, 0x800030D8, 0x800030DC}"
  shows "\<exists>i s'. (i = 1 \<or> i = 4) \<and>
    (let now = system_base s + NanosecondsToTicks (of_nat (host_clock s i)) in
      run_state (OS____GetSystemTime fuel) s = (hi32 now, s') \<and>
      join64 (gpr (cpu s') 3) (gpr (cpu s') 4) = now) \<and>
    fault s' = None \<and> interrupts_enabled s' = interrupts_enabled s \<and>
    (\<forall>a. a \<noteq> c + 0x1A0 \<longrightarrow> mem s' a = mem s a)"
proof -
  define lvl where "lvl = (if interrupts_enabled s then 1 else 0 :: int)"
  obtain s1 where s1: "run_state OS__DisableInterrupts s = (lvl, s1)" "wii s1" "cpu s1 = cpu s"
    "machine.more s1 = machine.more s" "\<forall>a. a \<noteq> c + 0x1A0 \<longrightarrow> mem s1 a = mem s a"
    using run_exchange_interrupts [OF assms(1,4,5), of False] unfolding OS__DisableInterrupts_def lvl_def by blast
  have h: "host_clock s1 = host_clock s" using s1(4) by (cases s; cases s1) simp
  then have "time_ready s1" using assms(2) by (simp add: time_ready_def)
  then obtain k where k: "k = 3 \<or> k = 6"
    "run_state (ReadSystemTime fuel) s1 = (system_base s1 + ticks_at s1 (k - 2), later k s1)"
    using run_read_system_time [OF s1(2) _ assms(3)] by blast
  define now where "now = system_base s + NanosecondsToTicks (of_nat (host_clock s (k - 2)))"
  have now: "system_base s1 + ticks_at s1 (k - 2) = now"
    using s1(5) assms(6) h by (simp add: now_def system_base_def ticks_at_def)
  have t: "run_state (try_catch (ReadSystemTime fuel) raw_time) s1 = (now, later k s1)"
    using run_try_catch [of s1 "ReadSystemTime fuel"] k(2) s1(2) now by (simp add: wii_fault)
  have "wii (later k s1)" "mem (later k s1) kOSCurrentContextAddr = c" using s1(2,5) assms(4,6) by auto
  then obtain s2 where s2: "run_state (OS__RestoreInterrupts lvl) (later k s1) =
        (if interrupts_enabled s1 then 1 else 0, s2)" "wii s2" "interrupts_enabled s2 = interrupts_enabled s"
    "\<forall>a. a \<noteq> c + 0x1A0 \<longrightarrow> mem s2 a = mem s1 a"
    using run_exchange_interrupts [OF _ _ assms(5), of "later k s1" "interrupts_enabled s"]
    unfolding OS__RestoreInterrupts_def lvl_def by (cases "interrupts_enabled s") auto
  let ?s = "s2\<lparr>cpu := (cpu s2)\<lparr>gpr := (gpr (cpu s2))(3 := hi32 now, 4 := lo32 now)\<rparr>\<rparr>"
  have "run_state (OS____GetSystemTime fuel) s = (hi32 now, ?s)"
    using s1(1) t s2(1,2) by (simp add: OS____GetSystemTime_def run_simps Let_def wii_fault)
  moreover have "join64 (hi32 now) (lo32 now) = now" by (simp add: lo32_ucast join_halves)
  moreover have "k - 2 = 1 \<or> k - 2 = 4" using k(1) by auto
  moreover have "\<forall>a. a \<noteq> c + 0x1A0 \<longrightarrow> mem s2 a = mem s a" using s2(4) s1(5) by simp
  ultimately show ?thesis
    unfolding Let_def
    by (intro exI [of _ "k - 2"] exI [of _ ?s]) (simp add: wii_fault s2(2,3) flip: now_def)
qed

text \<open>A clock that ticks a microsecond per reading from just before the upper half changes.\<close>

definition demo_clock :: os_machine where
  "demo_clock = boot_os\<lparr>host_clock := (\<lambda>i. 70697895500 + i * 1000)\<rparr>"

lemma system_time_never_torn_witness:
  "\<exists>i s'. (i = 1 \<or> i = 4) \<and>
    (let now = system_base demo_clock + NanosecondsToTicks (of_nat (host_clock demo_clock i)) in
      run_state (OS____GetSystemTime 2) demo_clock = (hi32 now, s') \<and>
      join64 (gpr (cpu s') 3) (gpr (cpu s') 4) = now) \<and>
    fault s' = None \<and> interrupts_enabled s' = interrupts_enabled demo_clock \<and>
    (\<forall>a. a \<noteq> 0 + 0x1A0 \<longrightarrow> mem s' a = mem demo_clock a)"
proof (rule system_time_never_torn)
  show "wii demo_clock" by (simp add: demo_clock_def boot_os_def wii_def)
  show "mem demo_clock kOSCurrentContextAddr = 0"
    by (simp add: mem_def rd32_def demo_clock_def boot_os_def be_word32_def)
qed (simp_all add: demo_clock_def time_ready_def kernel_words)

end
