(* ===== verification/OsAlarm.thy ===== *)
theory OsAlarm
  imports OsTime
begin

unbundle bit_operations_syntax

text \<open>
  The alarm queue of \<open>runtime/src/hle/os/os_alarm.cpp\<close>: setting an alarm files it in the order of the fire
  times, read as signed numbers; processing fires the alarms at the head that are due, with the scheduler
  disabled.  The queue's head and tail lie at a fixed distance below r13.  Inserting periodic alarms
  again and converting their start time is translated code, a call of \<open>invoke\<close>, as are the handlers.
\<close>

section \<open>Operations\<close>

definition kAlarmQueueOffsetFromR13 :: u32 where "kAlarmQueueOffsetFromR13 = 0x6360"
definition kAlarmPrevOffset :: u32 where "kAlarmPrevOffset = 0x10"
definition kAlarmNextOffset :: u32 where "kAlarmNextOffset = 0x14"
definition kAlarmHandlerOffset :: u32 where "kAlarmHandlerOffset = 0x00"
definition kAlarmFireTimeHiOffset :: u32 where "kAlarmFireTimeHiOffset = 0x08"
definition kAlarmFireTimeLoOffset :: u32 where "kAlarmFireTimeLoOffset = 0x0C"
definition kAlarmPeriodHiOffset :: u32 where "kAlarmPeriodHiOffset = 0x18"
definition kAlarmPeriodLoOffset :: u32 where "kAlarmPeriodLoOffset = 0x1C"

lemmas alarm_offsets = kAlarmPrevOffset_def kAlarmNextOffset_def kAlarmHandlerOffset_def
  kAlarmFireTimeHiOffset_def kAlarmFireTimeLoOffset_def kAlarmPeriodHiOffset_def kAlarmPeriodLoOffset_def

definition EnsureSda1Base :: "world \<Rightarrow> unit os" where
  "EnsureSda1Base W = do {
     r13 \<leftarrow> gpr_get 13;
     whenM (r13 \<noteq> sda1_base W) (gpr_put 13 (sda1_base W))
   }"

definition IncrementSchedulerDisableCount :: "('z, unit) guest" where
  "IncrementSchedulerDisableCount = do {
     count \<leftarrow> Read32 kSchedulerIdleFlagAddr;
     Write32 kSchedulerIdleFlagAddr (count + 1)
   }"

definition DecrementSchedulerDisableCount :: "('z, unit) guest" where
  "DecrementSchedulerDisableCount = do {
     count \<leftarrow> Read32 kSchedulerIdleFlagAddr;
     whenM (count \<noteq> 0) (Write32 kSchedulerIdleFlagAddr (count - 1))
   }"

definition RunDeferredReschedule :: "world \<Rightarrow> nat \<Rightarrow> unit os" where
  "RunDeferredReschedule W fuel = do {
     retrace \<leftarrow> get_host (advancing_retrace W);
     whenM (\<not> retrace) (do {
       resched \<leftarrow> Read32 kSchedulerReschedCounterAddr;
       whenM (resched \<noteq> 0) (do {
         gpr_put 3 0;
         SelectThread W fuel
       })
     })
   }"

definition SanitizeAlarmQueue :: "('z, unit) guest" where
  "SanitizeAlarmQueue = do {
     r13 \<leftarrow> gpr_get 13;
     (let queueBase = r13 - kAlarmQueueOffsetFromR13 in try_catch (do {
        head \<leftarrow> Read32 queueBase;
        tail \<leftarrow> Read32 (queueBase + 4);
        whenM (head \<noteq> 0) (do {
          prev \<leftarrow> Read32 (head + kAlarmPrevOffset);
          next \<leftarrow> Read32 (head + kAlarmNextOffset);
          whenM (next = head \<and> prev = head \<and> head = tail) (do {
            Write32 queueBase 0;
            Write32 (queueBase + 4) 0;
            Write32 (head + kAlarmPrevOffset) 0;
            Write32 (head + kAlarmNextOffset) 0
          })
        })
      }) (State_Monad.return ()))
   }"

definition IsLikelyCodeAddress :: "world \<Rightarrow> u32 \<Rightarrow> bool os" where
  "IsLikelyCodeAddress W addr =
     get_host (\<lambda>s. addr \<noteq> 0 \<and> (registered W addr \<or> Contains (regions s) addr 4))"

text \<open>\<open>try { m } catch (...) { c; throw; } c\<close>: \<open>c\<close> runs whether \<open>m\<close> throws or not, and what \<open>m\<close> threw
  goes on unless \<open>c\<close> throws itself.\<close>

definition with_cleanup :: "('z, 'a) guest \<Rightarrow> ('z, unit) guest \<Rightarrow> ('z, 'a) guest" where
  "with_cleanup m c = State (\<lambda>s. if fault s \<noteq> None then run_state m s
     else case run_state m s of
       (r, s') \<Rightarrow> (case fault s' of
           None \<Rightarrow> (r, snd (run_state c s'))
         | Some (AccessViolation a) \<Rightarrow>
             (let s'' = snd (run_state c (s'\<lparr>fault := None\<rparr>))
              in (r, if fault s'' = None then s''\<lparr>fault := Some (AccessViolation a)\<rparr> else s''))
         | Some OutOfFuel \<Rightarrow> (r, s')))"

text \<open>The first alarm and its handler, if it is due: this comparison is unsigned.\<close>

definition alarm_due :: "nat \<Rightarrow> u32 \<Rightarrow> (u32 \<times> u32) option os" where
  "alarm_due fuel queueBase = do {
     alarm \<leftarrow> Read32 queueBase;
     (if alarm = 0 then State_Monad.return None
      else do {
        now \<leftarrow> ReadSystemTime fuel;
        fireHi \<leftarrow> Read32 (alarm + kAlarmFireTimeHiOffset);
        fireLo \<leftarrow> Read32 (alarm + kAlarmFireTimeLoOffset);
        handler \<leftarrow> Read32 (alarm + kAlarmHandlerOffset);
        State_Monad.return (if now < join64 fireHi fireLo then None else Some (alarm, handler))
      })
   }"

definition unlink_first_alarm :: "u32 \<Rightarrow> u32 \<Rightarrow> ('z, unit) guest" where
  "unlink_first_alarm queueBase alarm = do {
     next \<leftarrow> Read32 (alarm + kAlarmNextOffset);
     Write32 queueBase next;
     (if next = 0 then Write32 (queueBase + 4) 0 else Write32 (next + kAlarmPrevOffset) 0);
     Write32 (alarm + kAlarmNextOffset) 0;
     Write32 (alarm + kAlarmPrevOffset) 0;
     Write32 (alarm + kAlarmHandlerOffset) 0
   }"

definition call_alarm_handler :: "world \<Rightarrow> nat \<Rightarrow> u32 \<Rightarrow> u32 \<Rightarrow> unit os" where
  "call_alarm_handler W fuel alarm handler = do {
     IncrementSchedulerDisableCount;
     with_cleanup (do {
       gpr_put 3 alarm;
       context \<leftarrow> Read32 kOSCurrentContextAddr;
       gpr_put 4 context;
       InvokeIndirectCpu W handler
     }) DecrementSchedulerDisableCount;
     RunDeferredReschedule W fuel
   }"

definition fire_alarm :: "world \<Rightarrow> nat \<Rightarrow> u32 \<Rightarrow> u32 \<Rightarrow> u32 \<Rightarrow> unit os" where
  "fire_alarm W fuel queueBase alarm handler = do {
     unlink_first_alarm queueBase alarm;
     periodHi \<leftarrow> Read32 (alarm + kAlarmPeriodHiOffset);
     periodLo \<leftarrow> Read32 (alarm + kAlarmPeriodLoOffset);
     whenM (periodHi OR periodLo \<noteq> 0) (do {
       gpr_put 3 alarm;
       gpr_put 5 0;
       gpr_put 6 0;
       gpr_put 7 handler;
       InvokeIndirectCpu W 0x801A0620
     });
     whenM (handler \<noteq> 0) (call_alarm_handler W fuel alarm handler)
   }"

text \<open>The rounds of the loop.  The flag \<open>handledAny\<close> is set before the alarm is fired and survives an
  access violation; a round that faults while looking at the head has not set it.\<close>

primrec alarm_rounds :: "world \<Rightarrow> nat \<Rightarrow> u32 \<Rightarrow> nat \<Rightarrow> bool \<Rightarrow> bool os" where
  "alarm_rounds W fuel queueBase 0 handledAny = State_Monad.return handledAny"
| "alarm_rounds W fuel queueBase (Suc n) handledAny = do {
     due \<leftarrow> alarm_due fuel queueBase;
     faulted \<leftarrow> get_host (\<lambda>s. fault s \<noteq> None);
     (case (if faulted then None else due) of
        None \<Rightarrow> State_Monad.return handledAny
      | Some (alarm, handler) \<Rightarrow> do {
          fire_alarm W fuel queueBase alarm handler;
          alarm_rounds W fuel queueBase n True
        })
   }"

text \<open>\<open>try { m } catch (const AccessViolation&) { }\<close> where the result was recorded before the exception.\<close>

definition catch_keep :: "('z, 'a) guest \<Rightarrow> ('z, 'a) guest" where
  "catch_keep m = State (\<lambda>s. if fault s \<noteq> None then run_state m s
     else case run_state m s of
       (r, s') \<Rightarrow> (case fault s' of
           Some (AccessViolation a) \<Rightarrow> (r, s'\<lparr>fault := None\<rparr>)
         | _ \<Rightarrow> (r, s')))"

definition ProcessAlarmQueue :: "world \<Rightarrow> nat \<Rightarrow> int \<Rightarrow> bool os" where
  "ProcessAlarmQueue W fuel maxToProcess =
     (if maxToProcess \<le> 0 then State_Monad.return False
      else do {
        depth \<leftarrow> get_host alarm_depth;
        (if depth \<noteq> 0 then State_Monad.return False
         else do {
           EnsureSda1Base W;
           r13 \<leftarrow> gpr_get 13;
           (if r13 = 0 then State_Monad.return False
            else do {
              put_host (\<lambda>s. s\<lparr>alarm_depth := alarm_depth s + 1\<rparr>);
              SanitizeAlarmQueue;
              base \<leftarrow> gpr_get 13;
              handledAlarms \<leftarrow> catch_keep
                (alarm_rounds W fuel (base - kAlarmQueueOffsetFromR13) (nat maxToProcess) False);
              put_host (\<lambda>s. s\<lparr>alarm_depth := alarm_depth s - 1\<rparr>);
              network \<leftarrow> unless_fault False (network_completions W);
              nand \<leftarrow> unless_fault False (nand_callbacks W maxToProcess);
              whenM (network \<or> nand) (RunDeferredReschedule W fuel);
              State_Monad.return (handledAlarms \<or> network \<or> nand)
            })
         })
      })"

text \<open>Where a new alarm goes: after the last one that does not fire later, compared as signed numbers.\<close>

definition alarm_position :: "nat \<Rightarrow> u64 \<Rightarrow> u32 \<Rightarrow> ('z, u32 \<times> u32) guest" where
  "alarm_position fuel fireTime head = loop fuel (0, 0) (\<lambda>(prev, cur).
     if cur = 0 then State_Monad.return (Inr (prev, cur))
     else do {
       curHi \<leftarrow> Read32 (cur + kAlarmFireTimeHiOffset);
       curLo \<leftarrow> Read32 (cur + kAlarmFireTimeLoOffset);
       (if sint fireTime < sint (join64 curHi curLo) then State_Monad.return (Inr (prev, cur))
        else do {
          next \<leftarrow> Read32 (cur + kAlarmNextOffset);
          State_Monad.return (Inl (cur, next))
        })
     }) (0, head)"

definition insert_alarm :: "nat \<Rightarrow> u32 \<Rightarrow> u32 \<Rightarrow> u64 \<Rightarrow> ('z, unit) guest" where
  "insert_alarm fuel queueBase alarm fireTime = do {
     head \<leftarrow> Read32 queueBase;
     (if head = 0 then do {
        Write32 queueBase alarm;
        Write32 (queueBase + 4) alarm
      } else do {
        (prev, cur) \<leftarrow> alarm_position fuel fireTime head;
        (if prev = 0 then do {
           Write32 (alarm + kAlarmNextOffset) head;
           Write32 (head + kAlarmPrevOffset) alarm;
           Write32 queueBase alarm
         } else do {
           Write32 (alarm + kAlarmPrevOffset) prev;
           Write32 (alarm + kAlarmNextOffset) cur;
           Write32 (prev + kAlarmNextOffset) alarm;
           (if cur \<noteq> 0 then Write32 (cur + kAlarmPrevOffset) alarm else Write32 (queueBase + 4) alarm)
         })
      })
   }"

definition write_alarm :: "u32 \<Rightarrow> u32 \<Rightarrow> u64 \<Rightarrow> ('z, unit) guest" where
  "write_alarm alarm handler fireTime = do {
     Write32 (alarm + kAlarmPeriodLoOffset) 0;
     Write32 (alarm + kAlarmPeriodHiOffset) 0;
     Write32 (alarm + kAlarmHandlerOffset) handler;
     Write32 (alarm + kAlarmFireTimeHiOffset) (hi32 fireTime);
     Write32 (alarm + kAlarmFireTimeLoOffset) (lo32 fireTime);
     Write32 (alarm + kAlarmNextOffset) 0;
     Write32 (alarm + kAlarmPrevOffset) 0
   }"

text \<open>The arguments: a handler that cannot be code, where the register before it can, means that the
  caller passed everything one register earlier.\<close>

definition alarm_arguments :: "world \<Rightarrow> (u32 \<times> u32 \<times> u32) os" where
  "alarm_arguments W = do {
     r4 \<leftarrow> gpr_get 4;
     r5 \<leftarrow> gpr_get 5;
     r6 \<leftarrow> gpr_get 6;
     r7 \<leftarrow> gpr_get 7;
     code \<leftarrow> IsLikelyCodeAddress W r7;
     altCode \<leftarrow> IsLikelyCodeAddress W r6;
     State_Monad.return (if \<not> code \<and> altCode then (r4, r5, r6) else (r5, r6, r7))
   }"

definition OSSetAlarm :: "world \<Rightarrow> nat \<Rightarrow> unit os" where
  "OSSetAlarm W fuel = do {
     alarm \<leftarrow> gpr_get 3;
     (tickHi, tickLo, handler) \<leftarrow> alarm_arguments W;
     whenM (alarm \<noteq> 0) (do {
       level \<leftarrow> OS__DisableInterrupts;
       SanitizeAlarmQueue;
       now \<leftarrow> try_catch (ReadSystemTime fuel) raw_time;
       (let fireTime = now + join64 tickHi tickLo in do {
          written \<leftarrow> try_catch (do { write_alarm alarm handler fireTime; State_Monad.return True })
            (State_Monad.return False);
          r13 \<leftarrow> gpr_get 13;
          whenM written (try_catch (insert_alarm fuel (r13 - kAlarmQueueOffsetFromR13) alarm fireTime)
            (State_Monad.return ()));
          _ \<leftarrow> OS__RestoreInterrupts level;
          State_Monad.return ()
        })
     })
   }"

definition OS_HLE_ProcessAlarms :: "world \<Rightarrow> nat \<Rightarrow> int \<Rightarrow> unit os" where
  "OS_HLE_ProcessAlarms W fuel maxToProcess = do {
     EnsureSda1Base W;
     _ \<leftarrow> ProcessAlarmQueue W fuel maxToProcess;
     State_Monad.return ()
   }"

text \<open>The deferred variant works on a private copy of the register file.\<close>

definition OS_HLE_ProcessAlarmsDeferred :: "world \<Rightarrow> nat \<Rightarrow> int \<Rightarrow> unit os" where
  "OS_HLE_ProcessAlarmsDeferred W fuel maxToProcess = do {
     enabled \<leftarrow> get_host interrupts_enabled;
     whenM (maxToProcess > 0 \<and> enabled) (do {
       interrupted \<leftarrow> get_host cpu;
       with_cleanup (do {
         EnsureSda1Base W;
         IncrementSchedulerDisableCount;
         _ \<leftarrow> with_cleanup (ProcessAlarmQueue W fuel maxToProcess) DecrementSchedulerDisableCount;
         State_Monad.return ()
       }) (put_host (\<lambda>s. s\<lparr>cpu := interrupted\<rparr>))
     })
   }"

definition OS__SetPeriodicAlarm :: "world \<Rightarrow> unit os" where
  "OS__SetPeriodicAlarm W = do {
     SanitizeAlarmQueue;
     alarm \<leftarrow> gpr_get 3;
     startHi \<leftarrow> gpr_get 5;
     startLo \<leftarrow> gpr_get 6;
     periodHi \<leftarrow> gpr_get 7;
     periodLo \<leftarrow> gpr_get 8;
     handler \<leftarrow> gpr_get 9;
     level \<leftarrow> OS__DisableInterrupts;
     Write32 (alarm + kAlarmPeriodLoOffset) periodLo;
     Write32 (alarm + kAlarmPeriodHiOffset) periodHi;
     gpr_put 3 startHi;
     gpr_put 4 startLo;
     InvokeIndirectCpu W 0x801AADE0;
     hi \<leftarrow> gpr_get 3;
     Write32 (alarm + 0x20) hi;
     lo \<leftarrow> gpr_get 4;
     Write32 (alarm + 0x24) lo;
     gpr_put 3 alarm;
     gpr_put 5 0;
     gpr_put 6 0;
     gpr_put 7 handler;
     InvokeIndirectCpu W 0x801A0620;
     old \<leftarrow> OS__RestoreInterrupts level;
     gpr_put 3 (word_of_int old)
   }"

definition RFLiIsWorking :: "world \<Rightarrow> nat \<Rightarrow> u32 os" where
  "RFLiIsWorking W fuel = do {
     EnsureSda1Base W;
     _ \<leftarrow> ProcessAlarmQueue W fuel 32;
     try_catch (do {
       managerBase \<leftarrow> Read32 0x80386298;
       (if managerBase = 0 then State_Monad.return 0 else Read32 (managerBase + 0x1B34))
     }) (State_Monad.return 0)
   }"

section \<open>The queue in guest memory\<close>

abbreviation alarm_queue :: "(u32 \<Rightarrow> u32) \<Rightarrow> u32 \<Rightarrow> u32 list \<Rightarrow> bool" where
  "alarm_queue m q xs \<equiv> dlist m kAlarmNextOffset kAlarmPrevOffset q (q + 4) xs"

definition fire_word :: "(u32 \<Rightarrow> u32) \<Rightarrow> u32 \<Rightarrow> u64" where
  "fire_word m x = join64 (m (x + kAlarmFireTimeHiOffset)) (m (x + kAlarmFireTimeLoOffset))"

definition fire_of :: "(u32 \<Rightarrow> u32) \<Rightarrow> u32 \<Rightarrow> int" where
  "fire_of m x = sint (fire_word m x)"

definition alarm_fields :: "u32 set" where
  "alarm_fields = {kAlarmHandlerOffset, kAlarmFireTimeHiOffset, kAlarmFireTimeLoOffset, kAlarmPrevOffset,
     kAlarmNextOffset, kAlarmPeriodHiOffset, kAlarmPeriodLoOffset}"

text \<open>The words outside the alarms that the operations use; \<open>c\<close> is the current context, whose interrupt
  flag is written around every operation.\<close>

definition kernel_side :: "u32 \<Rightarrow> u32 set" where
  "kernel_side c = {kOSCurrentContextAddr, kSchedulerIdleFlagAddr, kSchedulerReschedCounterAddr,
     0x800030D8, 0x800030DC} \<union> (if c = 0 then {} else {c + 0x1A0})"

definition alarm_layout :: "u32 \<Rightarrow> u32 \<Rightarrow> u32 set \<Rightarrow> bool" where
  "alarm_layout q c T \<longleftrightarrow> layout T alarm_fields ({q, q + 4} \<union> kernel_side c) \<and> 0 \<notin> T \<and>
     q \<notin> kernel_side c \<and> q + 4 \<notin> kernel_side c \<and>
     c + 0x1A0 \<notin> {kOSCurrentContextAddr, kSchedulerIdleFlagAddr, kSchedulerReschedCounterAddr, 0x800030D8, 0x800030DC}"

lemma alarm_fieldsI [simp]:
  "kAlarmHandlerOffset \<in> alarm_fields" "kAlarmFireTimeHiOffset \<in> alarm_fields" "kAlarmFireTimeLoOffset \<in> alarm_fields"
  "kAlarmPrevOffset \<in> alarm_fields" "kAlarmNextOffset \<in> alarm_fields" "kAlarmPeriodHiOffset \<in> alarm_fields"
  "kAlarmPeriodLoOffset \<in> alarm_fields"
  by (simp_all add: alarm_fields_def)

lemma alarm_offsets_ne [simp]:
  "kAlarmNextOffset \<noteq> kAlarmPrevOffset" "kAlarmPrevOffset \<noteq> kAlarmNextOffset"
  "kAlarmFireTimeHiOffset \<noteq> kAlarmNextOffset" "kAlarmFireTimeLoOffset \<noteq> kAlarmNextOffset"
  "kAlarmFireTimeHiOffset \<noteq> kAlarmPrevOffset" "kAlarmFireTimeLoOffset \<noteq> kAlarmPrevOffset"
  "kAlarmHandlerOffset \<noteq> kAlarmNextOffset" "kAlarmHandlerOffset \<noteq> kAlarmPrevOffset"
  "kAlarmNextOffset \<noteq> kAlarmHandlerOffset" "kAlarmPrevOffset \<noteq> kAlarmHandlerOffset"
  "kAlarmFireTimeHiOffset \<noteq> kAlarmHandlerOffset" "kAlarmFireTimeLoOffset \<noteq> kAlarmHandlerOffset"
  "kAlarmHandlerOffset \<noteq> kAlarmFireTimeHiOffset" "kAlarmHandlerOffset \<noteq> kAlarmFireTimeLoOffset"
  "kAlarmFireTimeHiOffset \<noteq> kAlarmFireTimeLoOffset" "kAlarmFireTimeLoOffset \<noteq> kAlarmFireTimeHiOffset"
  by (simp_all add: alarm_offsets)

lemma alarm_layoutD:
  assumes "alarm_layout q c T"
  shows "layout T alarm_fields ({q, q + 4} \<union> kernel_side c)"
    "layout T {kAlarmNextOffset, kAlarmPrevOffset} {q, q + 4}" "word_ok q" "word_ok (q + 4)" "0 \<notin> T"
    "x \<in> T \<Longrightarrow> i \<in> alarm_fields \<Longrightarrow> word_ok (x + i)"
    "x \<in> T \<Longrightarrow> i \<in> alarm_fields \<Longrightarrow> x + i \<noteq> q \<and> x + i \<noteq> q + 4 \<and> q \<noteq> x + i \<and> q + 4 \<noteq> x + i"
    "x \<in> T \<Longrightarrow> y \<in> T \<Longrightarrow> i \<in> alarm_fields \<Longrightarrow> j \<in> alarm_fields \<Longrightarrow> (x + i = y + j) = (x = y \<and> i = j)"
    "x \<in> T \<Longrightarrow> i \<in> alarm_fields \<Longrightarrow> a \<in> kernel_side c \<Longrightarrow> x + i \<noteq> a \<and> a \<noteq> x + i"
proof -
  show l: "layout T alarm_fields ({q, q + 4} \<union> kernel_side c)" using assms by (simp add: alarm_layout_def)
  show "layout T {kAlarmNextOffset, kAlarmPrevOffset} {q, q + 4}" by (rule layout_mono [OF l]) auto
  show "word_ok q" "word_ok (q + 4)" using layoutD(2) [OF l] by simp_all
  show "0 \<notin> T" using assms by (simp add: alarm_layout_def)
  show "x \<in> T \<Longrightarrow> i \<in> alarm_fields \<Longrightarrow> word_ok (x + i)" by (rule layoutD(1) [OF l])
  show "x \<in> T \<Longrightarrow> i \<in> alarm_fields \<Longrightarrow> x + i \<noteq> q \<and> x + i \<noteq> q + 4 \<and> q \<noteq> x + i \<and> q + 4 \<noteq> x + i"
    using layoutD(3,4) [OF l, of x i] by auto
  show "x \<in> T \<Longrightarrow> y \<in> T \<Longrightarrow> i \<in> alarm_fields \<Longrightarrow> j \<in> alarm_fields \<Longrightarrow> (x + i = y + j) = (x = y \<and> i = j)"
    by (rule layoutD(5) [OF l])
  show "x \<in> T \<Longrightarrow> i \<in> alarm_fields \<Longrightarrow> a \<in> kernel_side c \<Longrightarrow> x + i \<noteq> a \<and> a \<noteq> x + i"
    using layoutD(3,4) [OF l, of x i a] by auto
qed

lemma alarm_layout_mono: "alarm_layout q c T \<Longrightarrow> T' \<subseteq> T \<Longrightarrow> alarm_layout q c T'"
  unfolding alarm_layout_def by (auto elim: layout_mono)

section \<open>Filing an alarm\<close>

lemma run_alarm_position_loop:
  assumes "wii s" "links (mem s) kAlarmNextOffset kAlarmPrevOffset p xs 0" "0 \<notin> set xs"
    "\<And>y. y \<in> set xs \<Longrightarrow> word_ok (y + kAlarmFireTimeHiOffset) \<and> word_ok (y + kAlarmFireTimeLoOffset) \<and>
      word_ok (y + kAlarmNextOffset)"
    "length xs < fuel"
  shows "run_state (loop fuel (0, 0) (\<lambda>(prev, cur).
     if cur = 0 then State_Monad.return (Inr (prev, cur))
     else do {
       curHi \<leftarrow> Read32 (cur + kAlarmFireTimeHiOffset);
       curLo \<leftarrow> Read32 (cur + kAlarmFireTimeLoOffset);
       (if sint t < sint (join64 curHi curLo) then State_Monad.return (Inr (prev, cur))
        else do {
          next \<leftarrow> Read32 (cur + kAlarmNextOffset);
          State_Monad.return (Inl (cur, next))
        })
     }) (p, head_or 0 xs)) s =
    ((last_or p (takeWhile (\<lambda>y. fire_of (mem s) y \<le> sint t) xs),
      head_or 0 (dropWhile (\<lambda>y. fire_of (mem s) y \<le> sint t) xs)), s)"
  using assms(2-5)
proof (induction xs arbitrary: p fuel)
  case Nil
  then obtain n where "fuel = Suc n" by (cases fuel) auto
  then show ?case by (simp add: run_simps last_or_def)
next
  case (Cons x xs)
  then obtain n where n: "fuel = Suc n" by (cases fuel) auto
  note ih = Cons.IH [of x n]
  have w: "word_ok (x + kAlarmFireTimeHiOffset)" "word_ok (x + kAlarmFireTimeLoOffset)" "word_ok (x + kAlarmNextOffset)"
    "x \<noteq> 0" "mem s (x + kAlarmNextOffset) = head_or 0 xs"
    using Cons.prems by auto
  show ?case
  proof (cases "fire_of (mem s) x \<le> sint t")
    case True
    then have "\<not> sint t < sint (join64 (mem s (x + kAlarmFireTimeHiOffset)) (mem s (x + kAlarmFireTimeLoOffset)))"
      by (simp add: fire_of_def fire_word_def)
    then show ?thesis using assms(1) w ih Cons.prems n True by (simp add: run_simps last_or_def)
  next
    case False
    then have "sint t < sint (join64 (mem s (x + kAlarmFireTimeHiOffset)) (mem s (x + kAlarmFireTimeLoOffset)))"
      by (simp add: fire_of_def fire_word_def)
    then show ?thesis using assms(1) w n False by (simp add: run_simps last_or_def)
  qed
qed

lemma run_alarm_position:
  assumes "wii s" "alarm_queue (mem s) q xs" "alarm_layout q c (set xs)" "length xs < fuel"
  shows "run_state (alarm_position fuel t (head_or 0 xs)) s =
    ((last_or 0 (takeWhile (\<lambda>y. fire_of (mem s) y \<le> sint t) xs),
      head_or 0 (dropWhile (\<lambda>y. fire_of (mem s) y \<le> sint t) xs)), s)"
  unfolding alarm_position_def
  by (rule run_alarm_position_loop [OF assms(1)])
    (use assms alarm_layoutD(6) [OF assms(3)] in \<open>auto simp: dlist_def\<close>)

text \<open>Linking an alarm whose link fields are zero.\<close>

lemma run_insert_alarm:
  fixes s :: "'z machine_scheme"
  assumes w: "wii s" and d: "alarm_queue (mem s) q xs" and lay: "alarm_layout q c (set (x # xs))"
    and x: "x \<notin> set xs" and z: "mem s (x + kAlarmNextOffset) = 0" "mem s (x + kAlarmPrevOffset) = 0"
    and f: "length xs < fuel"
  shows "\<exists>s'. run_state (insert_alarm fuel q x t) s = ((), s') \<and>
     touches (list_words (x # xs) kAlarmNextOffset kAlarmPrevOffset q (q + 4)) s s' \<and>
     alarm_queue (mem s') q (insert_by (fire_of (mem s)) (sint t) x xs)"
proof -
  let ?no = kAlarmNextOffset and ?po = kAlarmPrevOffset
  define P where "P = (\<lambda>y. fire_of (mem s) y \<le> sint t)"
  define as where "as = takeWhile P xs"
  define bs where "bs = dropWhile P xs"
  have ab: "xs = as @ bs" by (simp add: as_def bs_def)
  note A = alarm_layoutD [OF lay]
  let ?B = "next_slot ?no q as" and ?A = "prev_slot ?po (q + 4) bs"
  let ?m = "(mem s)(x + ?no := head_or 0 bs, ?A := x, x + ?po := last_or 0 as, ?B := x)"
  have x0: "x \<noteq> 0" using A(5) by auto
  have z0: "0 \<notin> set as" "0 \<notin> set bs" using d ab by (auto simp: dlist_def)
  have ok: "word_ok ?A" "word_ok ?B" "word_ok (x + ?no)" "word_ok (x + ?po)" "word_ok q" "word_ok (q + 4)"
    using A(3,4,6) ab by (auto simp: prev_slot_def next_slot_def)
  have xA: "x + ?no \<noteq> ?A" "x + ?po \<noteq> ?A" 
    using A(7) [of x] A(8) [of x "hd bs"] x ab by (auto simp: prev_slot_def)
  have xB: "x + ?no \<noteq> ?B" "x + ?po \<noteq> ?B"
  proof -
    have "as \<noteq> [] \<Longrightarrow> last as \<noteq> x" using x ab last_in_set [of as] by auto
    then show "x + ?no \<noteq> ?B" "x + ?po \<noteq> ?B"
      using A(7) [of x] A(8) [of x "last as"] ab by (auto simp: next_slot_def)
  qed
  have AB: "?A \<noteq> ?B"
    using A(7) [of "last as" ?no] A(7) [of "hd bs" ?po] A(8) [of "hd bs" "last as" ?po ?no] ab
    by (auto simp: prev_slot_def next_slot_def)
  have h: "mem s q = head_or 0 xs" using d by (simp add: dlist_def)
  have pos: "run_state (alarm_position fuel t (head_or 0 xs)) s = ((last_or 0 as, head_or 0 bs), s)"
    unfolding as_def bs_def P_def
    by (rule run_alarm_position [OF w d alarm_layout_mono [OF lay] f]) auto
  have "\<exists>s'. run_state (insert_alarm fuel q x t) s = ((), s') \<and> only_memory s s' \<and> mem s' = ?m"
  proof (cases "xs = []")
    case True
    then have "as = []" "bs = []" using ab by simp_all
    then have "run_state (insert_alarm fuel q x t) s = ((), wr32 (q + 4) x (wr32 q x s))"
      and "mem (wr32 (q + 4) x (wr32 q x s)) = ?m"
      using True w ok h z xA xB by (auto simp: insert_alarm_def run_simps prev_slot_def next_slot_def last_or_def fun_eq_iff)
    then show ?thesis by auto
  next
    case False
    show ?thesis
    proof (cases "as = []")
      case True
      then obtain b bs' where b: "bs = b # bs'" using False ab by (cases bs) auto
      then have "b \<noteq> 0" "xs = b # bs'" using z0 ab True by auto
      then have "run_state (insert_alarm fuel q x t) s = ((), wr32 q x (wr32 (b + ?po) x (wr32 (x + ?no) b s)))"
        and "mem (wr32 q x (wr32 (b + ?po) x (wr32 (x + ?no) b s))) = ?m"
        using True w ok h z xA xB b pos
        by (auto simp: insert_alarm_def run_simps prev_slot_def next_slot_def last_or_def fun_eq_iff)
      then show ?thesis by auto
    next
      case as: False
      then have l: "last_or 0 as \<noteq> 0" "last_or 0 as = last as" "head_or 0 xs \<noteq> 0" "last as + ?no = ?B"
        using z0 last_in_set [OF as] ab by (auto simp: last_or_def next_slot_def neq_Nil_conv simp del: last_in_set)
      have w4: "(if head_or 0 bs \<noteq> 0 then Write32 (head_or 0 bs + ?po) v else Write32 (q + 4) v) =
          (Write32 ?A v :: ('z, unit) guest)" for v
        using z0(2) by (cases bs) (auto simp: prev_slot_def)
      let ?s = "wr32 ?A x (wr32 ?B x (wr32 (x + ?no) (head_or 0 bs) (wr32 (x + ?po) (last as) s)))"
      have "run_state (insert_alarm fuel q x t) s = ((), ?s)"
        using w ok h pos l w4 by (simp add: insert_alarm_def run_simps)
      moreover have "mem ?s = ?m" using ok l xA xB AB by (auto simp: fun_eq_iff)
      ultimately show ?thesis by auto
    qed
  qed
  then obtain s' where s': "run_state (insert_alarm fuel q x t) s = ((), s')" "only_memory s s'" "mem s' = ?m" by blast
  have "alarm_queue (mem s') q (as @ x # bs)"
    unfolding s'(3) by (rule splice_insert) (use d x x0 A(2) ab in \<open>simp_all add: Un_commute insert_commute\<close>)
  moreover have "touches (list_words (x # xs) ?no ?po q (q + 4)) s s'"
  proof -
    have "list_words (x # xs) ?no ?po q (q + 4) = list_words (as @ x # bs) ?no ?po q (q + 4)"
      by (rule list_words_perm) (auto simp: ab)
    moreover have "?B \<in> list_words (as @ x # bs) ?no ?po q (q + 4)" "?A \<in> list_words (as @ x # bs) ?no ?po q (q + 4)"
      "x + ?no \<in> list_words (as @ x # bs) ?no ?po q (q + 4)" "x + ?po \<in> list_words (as @ x # bs) ?no ?po q (q + 4)"
      using slots_in_words(1) [of ?no q as "x # bs" ?po "q + 4"] slots_in_words(2) [of ?po "q + 4" bs "as @ [x]" ?no q]
      by (auto simp: list_words_def)
    ultimately show ?thesis using s'(2,3) by (auto simp: touches_def)
  qed
  ultimately show ?thesis using s'(1) by (auto simp: insert_by_def as_def bs_def P_def)
qed

section \<open>The alarm queue implements the ordered-queue contract\<close>

definition alarm_rep :: "nat \<Rightarrow> u32 \<Rightarrow> u32 \<Rightarrow> u32 set \<Rightarrow> 'z machine_scheme \<Rightarrow> u32 list \<Rightarrow> bool" where
  "alarm_rep fuel q c T s xs \<longleftrightarrow> wii s \<and> alarm_layout q c T \<and> finite T \<and> card T \<le> fuel \<and>
     set xs \<subseteq> T \<and> alarm_queue (mem s) q xs"

text \<open>The end of \<open>OSSetAlarm\<close>: clear the links of an alarm whose fire time is written, and insert it.\<close>

definition file_alarm :: "nat \<Rightarrow> u32 \<Rightarrow> u32 \<Rightarrow> 'z machine_scheme \<Rightarrow> 'z machine_scheme" where
  "file_alarm fuel q x s = snd (run_state (do {
     Write32 (x + kAlarmNextOffset) 0;
     Write32 (x + kAlarmPrevOffset) 0;
     insert_alarm fuel q x (fire_word (mem s) x)
   }) s)"

lemma fire_frame:
  assumes "alarm_layout q c T" "y \<in> T" "set xs \<subseteq> T"
    "touches (list_words xs kAlarmNextOffset kAlarmPrevOffset q (q + 4)) s s'"
    "i \<in> alarm_fields" "i \<noteq> kAlarmNextOffset" "i \<noteq> kAlarmPrevOffset"
  shows "mem s' (y + i) = mem s (y + i)"
proof (rule touches_mem [OF assms(4)])
  note A = alarm_layoutD [OF assms(1)]
  have "y + i \<noteq> z + j" if "z \<in> set xs" "j \<in> {kAlarmNextOffset, kAlarmPrevOffset}" for z j
    using A(8) [OF assms(2) _ assms(5), of z j] that assms(3,6,7) by auto
  then show "y + i \<notin> list_words xs kAlarmNextOffset kAlarmPrevOffset q (q + 4)"
    using A(7) [OF assms(2,5)] by (auto simp: list_words_def fields_of_def)
qed

lemma file_alarm_step:
  assumes r: "alarm_rep fuel q c T s xs" and x: "x \<in> T" "x \<notin> set xs"
  shows "\<exists>s'. run_state (do { Write32 (x + kAlarmNextOffset) 0; Write32 (x + kAlarmPrevOffset) 0;
        insert_alarm fuel q x (fire_word (mem s) x) }) s = ((), s') \<and> file_alarm fuel q x s = s' \<and>
    alarm_rep fuel q c T s' (insert_by (fire_of (mem s)) (fire_of (mem s) x) x xs) \<and>
    touches (list_words (x # xs) kAlarmNextOffset kAlarmPrevOffset q (q + 4)) s s' \<and>
    (\<forall>y\<in>T. fire_word (mem s') y = fire_word (mem s) y)"
proof -
  let ?no = kAlarmNextOffset and ?po = kAlarmPrevOffset
  note r = r [unfolded alarm_rep_def]
  have A: "alarm_layout q c T" using r by simp
  note L = alarm_layoutD [OF A]
  have sub: "set (x # xs) \<subseteq> T" using r x by auto
  note lay = alarm_layout_mono [OF A sub]
  have d: "distinct (x # xs)" using r x(2) by (auto simp: dlist_def)
  then have f: "length xs < fuel" using card_mono [of T "set (x # xs)"] r sub distinct_card [OF d] by simp
  let ?s1 = "wr32 (x + ?po) 0 (wr32 (x + ?no) 0 s)"
  have ok: "word_ok (x + ?no)" "word_ok (x + ?po)" using L(6) x(1) by simp_all
  have m1: "mem ?s1 = (mem s)(x + ?no := 0, x + ?po := 0)" using ok by simp
  have w1: "wii ?s1" using r by simp
  have d1: "alarm_queue (mem ?s1) q xs"
    unfolding m1 using r x sub L(7,8) by (subst dlist_frame [where m = "mem s"]) auto
  have t1: "touches (list_words (x # xs) ?no ?po q (q + 4)) s ?s1"
    unfolding touches_def m1 by (auto simp: list_words_def fields_of_def)
  have fw: "fire_word (mem ?s1) y = fire_word (mem s) y" if "y \<in> T" for y
    using fire_frame [OF A that _ t1] sub by (simp add: fire_word_def)
  obtain s' where s': "run_state (insert_alarm fuel q x (fire_word (mem s) x)) ?s1 = ((), s')"
    "touches (list_words (x # xs) ?no ?po q (q + 4)) ?s1 s'"
    "alarm_queue (mem s') q (insert_by (fire_of (mem ?s1)) (sint (fire_word (mem s) x)) x xs)"
    using run_insert_alarm [OF w1 d1 lay x(2) _ _ f, of "fire_word (mem s) x"] m1 by auto
  have key: "insert_by (fire_of (mem ?s1)) (sint (fire_word (mem s) x)) x xs =
      insert_by (fire_of (mem s)) (fire_of (mem s) x) x xs"
    unfolding fire_of_def using fw sub by (intro insert_by_cong) auto
  have run: "run_state (do { Write32 (x + ?no) 0; Write32 (x + ?po) 0;
        insert_alarm fuel q x (fire_word (mem s) x) }) s = ((), s')"
    using s'(1) ok r by (simp add: run_simps)
  have t: "touches (list_words (x # xs) ?no ?po q (q + 4)) s s'"
    using touches_trans [OF t1 s'(2)] by simp
  have "\<forall>y\<in>T. fire_word (mem s') y = fire_word (mem s) y"
    using fire_frame [OF A _ _ t] sub by (simp add: fire_word_def)
  moreover have "wii s'" by (rule touches_wii [OF s'(2) w1])
  ultimately show ?thesis
    using run t r s'(3) sub by (intro exI [of _ s']) (auto simp: alarm_rep_def file_alarm_def key)
qed

interpretation alq: ordered_queue "alarm_rep fuel q c T" "\<lambda>s. fire_of (mem s)" "\<lambda>s x. x \<in> T" "file_alarm fuel q"
  for fuel q c T
proof
  fix s :: "'z machine_scheme" and xs x y
  assume r: "alarm_rep fuel q c T s xs"
  { assume x: "x \<in> T" "x \<notin> set xs"
    obtain s' where e: "file_alarm fuel q x s = s'"
      "alarm_rep fuel q c T s' (insert_by (fire_of (mem s)) (fire_of (mem s) x) x xs)"
      "\<forall>y\<in>T. fire_word (mem s') y = fire_word (mem s) y" using file_alarm_step [OF r x] by blast
    show "alarm_rep fuel q c T (file_alarm fuel q x s) (insert_by (fire_of (mem s)) (fire_of (mem s) x) x xs)"
      using e by simp
    assume "y \<in> T"
    then show "fire_of (mem (file_alarm fuel q x s)) y = fire_of (mem s) y" "y \<in> T"
      using e by (simp_all add: fire_of_def) }
  assume "x \<in> set xs"
  then show "x \<in> T" using r by (auto simp: alarm_rep_def)
qed

section \<open>Setting an alarm\<close>

lemma run_sanitize:
  assumes "wii s" "alarm_queue (mem s) q xs" "alarm_layout q c T" "set xs \<subseteq> T"
    and "gpr (cpu s) 13 - kAlarmQueueOffsetFromR13 = q"
  shows "run_state SanitizeAlarmQueue s = ((), s)"
proof (cases xs)
  case Nil
  then show ?thesis
    using assms alarm_layoutD(3,4) [OF assms(3)]
    by (simp add: SanitizeAlarmQueue_def try_catch_def run_simps dlist_def wii_fault)
next
  case (Cons x ys)
  have "x \<noteq> 0" "x \<in> T" using Cons assms(2,4) by (auto simp: dlist_def)
  moreover have "head_or 0 ys \<noteq> x" using Cons assms(2) by (cases ys) (auto simp: dlist_def)
  ultimately show ?thesis
    using assms Cons alarm_layoutD(3,4,6) [OF assms(3)]
    by (simp add: SanitizeAlarmQueue_def try_catch_def run_simps dlist_def wii_fault)
qed

lemma join_hi_lo [simp]: "join64 (hi32 t) (lo32 t) = t"
  by (simp add: lo32_ucast join_halves)

text \<open>The words an alarm operation may write.\<close>

definition alarm_words :: "u32 \<Rightarrow> u32 \<Rightarrow> u32 set \<Rightarrow> u32 set" where
  "alarm_words q c T = insert (c + 0x1A0) (insert q (insert (q + 4) (fields_of T alarm_fields)))"

definition alarm_call :: "world \<Rightarrow> u32 \<Rightarrow> u32 \<Rightarrow> u64 \<Rightarrow> u32 \<Rightarrow> os_machine \<Rightarrow> bool" where
  "alarm_call W q x off h s \<longleftrightarrow> gpr (cpu s) 3 = x \<and> gpr (cpu s) 5 = hi32 off \<and> gpr (cpu s) 6 = lo32 off \<and>
     gpr (cpu s) 7 = h \<and> gpr (cpu s) 13 - kAlarmQueueOffsetFromR13 = q \<and> h \<noteq> 0 \<and> registered W h"

lemma kernel_side_ok:
  assumes "alarm_layout q c T" "c = 0 \<or> word_ok (c + 0x1A0)"
  shows "a \<in> {kOSCurrentContextAddr, kSchedulerIdleFlagAddr, kSchedulerReschedCounterAddr, 0x800030D8, 0x800030DC} \<Longrightarrow> a \<noteq> c + 0x1A0"
    "x \<in> T \<Longrightarrow> i \<in> alarm_fields \<Longrightarrow> x + i \<noteq> c + 0x1A0" "q \<noteq> c + 0x1A0" "q + 4 \<noteq> c + 0x1A0"
proof -
  note A = alarm_layoutD [OF assms(1)]
  have n0: "\<not> word_ok 0x1A0" by (simp add: word_ok_def cached_def)
  show "a \<noteq> c + 0x1A0" if "a \<in> {kOSCurrentContextAddr, kSchedulerIdleFlagAddr, kSchedulerReschedCounterAddr, 0x800030D8, 0x800030DC}"
    using assms(1) that unfolding alarm_layout_def by blast
  show "x \<in> T \<Longrightarrow> i \<in> alarm_fields \<Longrightarrow> x + i \<noteq> c + 0x1A0"
    using A(6) [of x i] A(9) [of x i "c + 0x1A0"] n0 by (cases "c = 0") (auto simp: kernel_side_def)
  show "q \<noteq> c + 0x1A0" "q + 4 \<noteq> c + 0x1A0"
    using assms(1) A(3,4) n0 by (cases "c = 0"; auto simp: alarm_layout_def kernel_side_def)+
qed

text \<open>Writing the fields of an alarm outside the queue.\<close>

lemma write_alarm_step:
  assumes r: "alarm_rep fuel q c T s xs" and x: "x \<in> T" "x \<notin> set xs"
  shows "\<exists>sw. run_state (write_alarm x h t) s =
      run_state (do { Write32 (x + kAlarmNextOffset) 0; Write32 (x + kAlarmPrevOffset) 0 }) sw \<and>
    alarm_rep fuel q c T sw xs \<and> fire_word (mem sw) x = t \<and> mem sw (x + kAlarmHandlerOffset) = h \<and>
    touches (fields_of {x} alarm_fields) s sw"
proof -
  note r' = r [unfolded alarm_rep_def]
  have A: "alarm_layout q c T" using r' by simp
  note L = alarm_layoutD [OF A]
  define sw where "sw = wr32 (x + kAlarmFireTimeLoOffset) (lo32 t) (wr32 (x + kAlarmFireTimeHiOffset) (hi32 t)
    (wr32 (x + kAlarmHandlerOffset) h (wr32 (x + kAlarmPeriodHiOffset) 0 (wr32 (x + kAlarmPeriodLoOffset) 0 s))))"
  have ok: "word_ok (x + i)" if "i \<in> alarm_fields" for i using L(6) x(1) that by simp
  have m: "mem sw = (mem s)(x + kAlarmPeriodLoOffset := 0, x + kAlarmPeriodHiOffset := 0, x + kAlarmHandlerOffset := h,
      x + kAlarmFireTimeHiOffset := hi32 t, x + kAlarmFireTimeLoOffset := lo32 t)" using ok by (simp add: sw_def)
  have run: "run_state (write_alarm x h t) s =
      run_state (do { Write32 (x + kAlarmNextOffset) 0; Write32 (x + kAlarmPrevOffset) 0 }) sw"
    using ok r' by (simp add: write_alarm_def run_simps sw_def)
  have q: "mem sw q = mem s q" "mem sw (q + 4) = mem s (q + 4)"
    unfolding m using L(7) [OF x(1)] by simp_all
  have n: "mem sw (y + i) = mem s (y + i)" if "y \<in> T" "y \<noteq> x" "i \<in> alarm_fields" for y i
    unfolding m using L(8) [OF that(1) x(1) that(3)] that(2) by simp
  have lk: "mem sw (y + kAlarmNextOffset) = mem s (y + kAlarmNextOffset) \<and> mem sw (y + kAlarmPrevOffset) = mem s (y + kAlarmPrevOffset)"
    if "y \<in> set xs" for y
  proof -
    have "y \<in> T" "y \<noteq> x" using that r' x(2) by auto
    then show ?thesis using n by simp
  qed
  have "alarm_queue (mem sw) q xs = alarm_queue (mem s) q xs" by (rule dlist_frame [OF lk q])
  moreover have "wii sw" using r' by (simp add: sw_def)
  ultimately have "alarm_rep fuel q c T sw xs" using r' by (simp add: alarm_rep_def)
  moreover have "fire_word (mem sw) x = t" by (simp add: fire_word_def m)
  moreover have "mem sw (x + kAlarmHandlerOffset) = h" by (simp add: m)
  moreover have "touches (fields_of {x} alarm_fields) s sw"
  proof -
    have "only_memory s sw" by (simp add: sw_def)
    moreover have "mem sw a = mem s a" if "a \<notin> fields_of {x} alarm_fields" for a
    proof -
      have "a \<noteq> x + i" if "i \<in> alarm_fields" for i using \<open>a \<notin> _\<close> that by (auto simp: fields_of_def)
      then show ?thesis by (simp add: m)
    qed
    ultimately show ?thesis by (simp add: touches_def)
  qed
  ultimately show ?thesis using run by blast
qed

lemma run_alarm_arguments:
  assumes "alarm_call W q x off h s"
  shows "run_state (alarm_arguments W) s = ((hi32 off, lo32 off, h), s)"
  using assms by (simp add: alarm_arguments_def IsLikelyCodeAddress_def alarm_call_def run_simps)

lemma alarm_rep_frame:
  assumes "alarm_rep fuel q c T s xs" "c = 0 \<or> word_ok (c + 0x1A0)" "wii s'" "\<forall>a. a \<noteq> c + 0x1A0 \<longrightarrow> mem s' a = mem s a"
  shows "alarm_rep fuel q c T s' xs"
proof -
  have A: "alarm_layout q c T" using assms(1) by (simp add: alarm_rep_def)
  note K = kernel_side_ok [OF A assms(2)]
  have "alarm_queue (mem s') q xs = alarm_queue (mem s) q xs"
    by (rule dlist_frame) (use assms(1,4) K in \<open>auto simp: alarm_rep_def subset_iff\<close>)
  then show ?thesis using assms(1,3) by (simp add: alarm_rep_def)
qed

lemma run_set_alarm:
  assumes r: "alarm_rep fuel q c T s xs" and x: "x \<in> T" "x \<notin> set xs" and call: "alarm_call W q x off h s"
    and t: "time_ready s" "1 < fuel" and c: "mem s kOSCurrentContextAddr = c" "c = 0 \<or> word_ok (c + 0x1A0)"
  shows "\<exists>s' k key. (k = 3 \<or> k = 6) \<and> run_state (OSSetAlarm W fuel) s = ((), s') \<and>
    alarm_rep fuel q c T s' (insert_by key (key x) x xs) \<and>
    (\<forall>y\<in>T. key y = fire_of (mem s') y) \<and>
    fire_word (mem s') x = system_base s + ticks_at s (k - 2) + off \<and> mem s' (x + kAlarmHandlerOffset) = h \<and>
    (\<forall>y\<in>T. y \<noteq> x \<longrightarrow> fire_word (mem s') y = fire_word (mem s) y \<and>
       mem s' (y + kAlarmHandlerOffset) = mem s (y + kAlarmHandlerOffset)) \<and>
    cpu s' = cpu s \<and> interrupts_enabled s' = interrupts_enabled s \<and> alarm_depth s' = alarm_depth s \<and>
    host_clock s' = (\<lambda>i. host_clock s (k + i)) \<and> (\<forall>a. a \<notin> alarm_words q c T \<longrightarrow> mem s' a = mem s a)"
proof -
  note r' = r [unfolded alarm_rep_def]
  have A: "alarm_layout q c T" and w: "wii s" using r' by simp_all
  note L = alarm_layoutD [OF A] and K = kernel_side_ok [OF A c(2)]
  note call' = call [unfolded alarm_call_def]
  define lvl where "lvl = (if interrupts_enabled s then 1 else 0 :: int)"
  obtain s1 where s1: "run_state OS__DisableInterrupts s = (lvl, s1)" "wii s1" "cpu s1 = cpu s"
    "machine.more s1 = machine.more s" "\<forall>a. a \<noteq> c + 0x1A0 \<longrightarrow> mem s1 a = mem s a"
    using run_exchange_interrupts [OF w c, of False] unfolding OS__DisableInterrupts_def lvl_def by blast
  have h1: "host_clock s1 = host_clock s" using s1(4) by (cases s; cases s1) simp
  have r1: "alarm_rep fuel q c T s1 xs" by (rule alarm_rep_frame [OF r c(2) s1(2,5)])
  have san: "run_state SanitizeAlarmQueue s1 = ((), s1)"
    by (rule run_sanitize) (use r1 call' s1(3) in \<open>auto simp: alarm_rep_def\<close>)
  have tr1: "time_ready s1" using t(1) h1 by (simp add: time_ready_def)
  obtain k where k: "k = 3 \<or> k = 6"
    "run_state (ReadSystemTime fuel) s1 = (system_base s1 + ticks_at s1 (k - 2), later k s1)"
    using run_read_system_time [OF s1(2) tr1 t(2)] by blast
  define now where "now = system_base s + ticks_at s (k - 2)"
  have now: "system_base s1 + ticks_at s1 (k - 2) = now"
    using s1(5) K(1) h1 by (simp add: now_def system_base_def ticks_at_def)
  have tc: "run_state (try_catch (ReadSystemTime fuel) raw_time) s1 = (now, later k s1)"
    using run_try_catch [of s1 "ReadSystemTime fuel"] k(2) s1(2) now by (simp add: wii_fault)
  have r2: "alarm_rep fuel q c T (later k s1) xs" using r1 by (simp add: alarm_rep_def)
  obtain sw where sw: "run_state (write_alarm x h (now + off)) (later k s1) =
      run_state (do { Write32 (x + kAlarmNextOffset) 0; Write32 (x + kAlarmPrevOffset) 0 }) sw"
    "alarm_rep fuel q c T sw xs" "fire_word (mem sw) x = now + off" "mem sw (x + kAlarmHandlerOffset) = h"
    "touches (fields_of {x} alarm_fields) (later k s1) sw"
    using write_alarm_step [OF r2 x] by blast
  obtain s3 where s3: "run_state (do { Write32 (x + kAlarmNextOffset) 0; Write32 (x + kAlarmPrevOffset) 0;
        insert_alarm fuel q x (now + off) }) sw = ((), s3)" "file_alarm fuel q x sw = s3"
    "touches (list_words (x # xs) kAlarmNextOffset kAlarmPrevOffset q (q + 4)) sw s3"
    using file_alarm_step [OF sw(2) x] sw(3) by auto
  have r3: "alarm_rep fuel q c T s3 (insert_by (fire_of (mem sw)) (fire_of (mem sw) x) x xs)"
    using alq.ins_rep [OF sw(2) x] s3(2) by simp
  have w3: "wii s3" using r3 by (simp add: alarm_rep_def)
  have ok: "word_ok (x + kAlarmNextOffset)" "word_ok (x + kAlarmPrevOffset)" using L(6) x(1) by simp_all
  have wsw: "wii sw" using sw(2) by (simp add: alarm_rep_def)
  let ?sl = "wr32 (x + kAlarmPrevOffset) 0 (wr32 (x + kAlarmNextOffset) 0 sw)"
  have wr: "run_state (write_alarm x h (now + off)) (later k s1) = ((), ?sl)"
    and ins: "run_state (insert_alarm fuel q x (now + off)) ?sl = ((), s3)"
    using sw(1) s3(1) ok wsw by (simp_all add: run_simps)
  have wsl: "wii ?sl" using wsw by simp
  have sub: "set (x # xs) \<subseteq> T" using r' x(1) by auto
  have cpu3: "cpu s3 = cpu s" "machine.more s3 = machine.more (later k s1)"
    using touches_host [OF s3(3)] touches_host [OF sw(5)] s1(3) by simp_all
  let ?F = "fields_of T alarm_fields \<union> {q, q + 4}"
  have sw_sub: "fields_of {x} alarm_fields \<subseteq> ?F" using x(1) by (auto simp: fields_of_def)
  have li_sub: "list_words (x # xs) kAlarmNextOffset kAlarmPrevOffset q (q + 4) \<subseteq> ?F"
  proof -
    have "fields_of (set (x # xs)) {kAlarmNextOffset, kAlarmPrevOffset} \<subseteq> fields_of T alarm_fields"
      by (rule fields_of_mono) (use sub in auto)
    then show ?thesis by (auto simp: list_words_def)
  qed
  have fr: "mem s3 a = mem s a" if "a \<notin> ?F" "a \<noteq> c + 0x1A0" for a
  proof -
    have "a \<notin> list_words (x # xs) kAlarmNextOffset kAlarmPrevOffset q (q + 4)" "a \<notin> fields_of {x} alarm_fields"
      using li_sub sw_sub that(1) by blast+
    then show ?thesis using touches_mem [OF s3(3), of a] touches_mem [OF sw(5), of a] s1(5) that(2) by simp
  qed
  have cur: "mem s3 kOSCurrentContextAddr = c"
  proof -
    have "kOSCurrentContextAddr \<notin> ?F" "kOSCurrentContextAddr \<noteq> c + 0x1A0"
      using L(9) [of _ _ kOSCurrentContextAddr] K(1) A by (auto simp: fields_of_def kernel_side_def alarm_layout_def)
    then show ?thesis using fr c(1) by simp
  qed
  obtain s4 where s4: "run_state (OS__RestoreInterrupts lvl) s3 = (if interrupts_enabled s3 then 1 else 0, s4)"
    "wii s4" "interrupts_enabled s4 = interrupts_enabled s" "cpu s4 = cpu s3" "machine.more s4 = machine.more s3"
    "\<forall>a. a \<noteq> c + 0x1A0 \<longrightarrow> mem s4 a = mem s3 a"
    using run_exchange_interrupts [OF w3 cur c(2), of "interrupts_enabled s"]
    unfolding OS__RestoreInterrupts_def lvl_def by (cases "interrupts_enabled s") auto
  have x0: "x \<noteq> 0" using L(5) x(1) by auto
  have run: "run_state (OSSetAlarm W fuel) s = ((), s4)"
  proof -
    have "run_state (try_catch (do { write_alarm x h (now + off); State_Monad.return True }) (State_Monad.return False)) (later k s1) = (True, ?sl)"
      by (rule run_try_catch) (use s1(2) wsl wr in \<open>simp_all add: wii_fault run_simps\<close>)
    moreover have "run_state (try_catch (insert_alarm fuel q x (now + off)) (State_Monad.return ())) ?sl = ((), s3)"
      by (rule run_try_catch) (use wsl w3 ins in \<open>simp_all add: wii_fault\<close>)
    moreover have "gpr (cpu ?sl) 13 - kAlarmQueueOffsetFromR13 = q"
      using touches_host(1) [OF sw(5)] s1(3) call' by simp
    ultimately show ?thesis
      unfolding OSSetAlarm_def
      using call' x0 run_alarm_arguments [OF call] s1(1) san tc s4(1)
      by (simp add: run_simps Let_def)
  qed
  have h4: "host_clock s4 = (\<lambda>i. host_clock s (k + i))"
  proof -
    have "host_clock s4 = host_clock (later k s1)" using s4(5) cpu3(2) by (cases s4; cases s3; cases "later k s1") simp
    then show ?thesis using h1 by (simp add: fun_eq_iff)
  qed
  have d4: "alarm_depth s4 = alarm_depth s"
  proof -
    have "alarm_depth s4 = alarm_depth (later k s1)" using s4(5) cpu3(2) by (cases s4; cases s3; cases "later k s1") simp
    also have "\<dots> = alarm_depth s" using s1(4) by (cases s; cases s1) (simp add: later_def)
    finally show ?thesis .
  qed
  have r4: "alarm_rep fuel q c T s4 (insert_by (fire_of (mem sw)) (fire_of (mem sw) x) x xs)"
    by (rule alarm_rep_frame [OF r3 c(2) s4(2,6)])
  have fld: "mem s4 (y + i) = mem sw (y + i)"
    if "y \<in> T" "i \<in> {kAlarmHandlerOffset, kAlarmFireTimeHiOffset, kAlarmFireTimeLoOffset}" for y i
    using fire_frame [OF A that(1) sub s3(3), of i] that(2) s4(6) K(2) [OF that(1), of i] by auto
  have fw: "fire_word (mem s4) y = fire_word (mem sw) y" if "y \<in> T" for y
    using fld [OF that] by (simp add: fire_word_def)
  have oth: "mem sw (y + i) = mem s (y + i)" if "y \<in> T" "y \<noteq> x" "i \<in> alarm_fields" for y i
  proof -
    have "y + i \<notin> fields_of {x} alarm_fields" using L(8) [OF that(1) x(1) that(3)] that(2) by (auto simp: fields_of_def)
    then show ?thesis using touches_mem [OF sw(5)] s1(5) K(2) [OF that(1,3)] by simp
  qed
  have "\<forall>y\<in>T. fire_of (mem sw) y = fire_of (mem s4) y" using fw by (simp add: fire_of_def)
  moreover have "fire_word (mem s4) x = system_base s + ticks_at s (k - 2) + off"
    using fw [OF x(1)] sw(3) by (simp add: now_def)
  moreover have "mem s4 (x + kAlarmHandlerOffset) = h" using fld [OF x(1), of kAlarmHandlerOffset] sw(4) by simp
  moreover have "\<forall>y\<in>T. y \<noteq> x \<longrightarrow> fire_word (mem s4) y = fire_word (mem s) y \<and>
       mem s4 (y + kAlarmHandlerOffset) = mem s (y + kAlarmHandlerOffset)"
    using fw fld oth by (simp add: fire_word_def)
  moreover have "\<forall>a. a \<notin> alarm_words q c T \<longrightarrow> mem s4 a = mem s a"
    using fr s4(6) by (auto simp: alarm_words_def)
  ultimately show ?thesis
    using k(1) run r4 h4 d4 s4(3,4) cpu3(1) by (intro exI [of _ s4] exI [of _ k] exI [of _ "fire_of (mem sw)"]) simp
qed

section \<open>A sequence of alarms\<close>

text \<open>A call with the alarm, its delay and its handler in the registers.\<close>

fun set_alarm_call :: "world \<Rightarrow> nat \<Rightarrow> u32 \<times> u64 \<times> u32 \<Rightarrow> os_machine \<Rightarrow> os_machine" where
  "set_alarm_call W fuel (x, off, h) s = snd (run_state (OSSetAlarm W fuel)
     (s\<lparr>cpu := (cpu s)\<lparr>gpr := (gpr (cpu s))(3 := x, 5 := hi32 off, 6 := lo32 off, 7 := h)\<rparr>\<rparr>))"

text \<open>A clock that never goes back and whose readings are never far apart.\<close>

definition steady :: "os_machine \<Rightarrow> bool" where
  "steady s \<longleftrightarrow> (\<forall>n. time_ready (later n s))"

definition alarm_ready :: "nat \<Rightarrow> u32 \<Rightarrow> u32 \<Rightarrow> u32 set \<Rightarrow> os_machine \<Rightarrow> u32 list \<Rightarrow> bool" where
  "alarm_ready fuel q c T s xs \<longleftrightarrow> alarm_rep fuel q c T s xs \<and> steady s \<and> 1 < fuel \<and>
     mem s kOSCurrentContextAddr = c \<and> (c = 0 \<or> word_ok (c + 0x1A0)) \<and>
     gpr (cpu s) 13 - kAlarmQueueOffsetFromR13 = q"

lemma alarm_words_kernel:
  assumes "alarm_layout q c T" "c = 0 \<or> word_ok (c + 0x1A0)"
    and "a \<in> {kOSCurrentContextAddr, kSchedulerIdleFlagAddr, kSchedulerReschedCounterAddr, 0x800030D8, 0x800030DC}"
  shows "a \<notin> alarm_words q c T"
proof -
  have k: "a \<in> kernel_side c" using assms(3) by (auto simp: kernel_side_def)
  then have "a \<noteq> q" "a \<noteq> q + 4" using assms(1) by (auto simp: alarm_layout_def)
  moreover have "a \<notin> fields_of T alarm_fields"
    using alarm_layoutD(9) [OF assms(1) _ _ k] by (auto simp: fields_of_def)
  ultimately show ?thesis using kernel_side_ok(1) [OF assms] by (simp add: alarm_words_def)
qed

lemma set_alarm_call_step:
  assumes R: "alarm_ready fuel q c T s (sort_key (fire_of (mem s)) ys)" and x: "x \<in> T" "x \<notin> set ys" "set ys \<subseteq> T"
    and h: "h \<noteq> 0" "registered W h"
  shows "alarm_ready fuel q c T (set_alarm_call W fuel (x, off, h) s)
      (sort_key (fire_of (mem (set_alarm_call W fuel (x, off, h) s))) (ys @ [x])) \<and>
    system_base (set_alarm_call W fuel (x, off, h) s) = system_base s \<and>
    alarm_depth (set_alarm_call W fuel (x, off, h) s) = alarm_depth s \<and>
    mem (set_alarm_call W fuel (x, off, h) s) kSchedulerIdleFlagAddr = mem s kSchedulerIdleFlagAddr \<and>
    (\<exists>k. host_clock (set_alarm_call W fuel (x, off, h) s) = (\<lambda>i. host_clock s (k + i))) \<and>
    (\<exists>i. fire_word (mem (set_alarm_call W fuel (x, off, h) s)) x = system_base s + ticks_at s i + off) \<and>
    mem (set_alarm_call W fuel (x, off, h) s) (x + kAlarmHandlerOffset) = h \<and>
    (\<forall>y\<in>T. y \<noteq> x \<longrightarrow> fire_word (mem (set_alarm_call W fuel (x, off, h) s)) y = fire_word (mem s) y \<and>
       mem (set_alarm_call W fuel (x, off, h) s) (y + kAlarmHandlerOffset) = mem s (y + kAlarmHandlerOffset))"
proof -
  let ?c = "(cpu s)\<lparr>gpr := (gpr (cpu s))(3 := x, 5 := hi32 off, 6 := lo32 off, 7 := h)\<rparr>"
  let ?s = "s\<lparr>cpu := ?c\<rparr>"
  note R' = R [unfolded alarm_ready_def]
  have A: "alarm_layout q c T" using R' by (simp add: alarm_rep_def)
  have r: "alarm_rep fuel q c T ?s (sort_key (fire_of (mem s)) ys)" using R' by (simp add: alarm_rep_def)
  have call: "alarm_call W q x off h ?s" using R' h by (simp add: alarm_call_def)
  have "time_ready (later 0 s)" using R' unfolding steady_def by blast
  then have t: "time_ready ?s" by (simp add: time_ready_def)
  obtain s' k key where s': "run_state (OSSetAlarm W fuel) ?s = ((), s')"
    "alarm_rep fuel q c T s' (insert_by key (key x) x (sort_key (fire_of (mem s)) ys))"
    "\<forall>y\<in>T. key y = fire_of (mem s') y" "fire_word (mem s') x = system_base ?s + ticks_at ?s (k - 2) + off"
    "mem s' (x + kAlarmHandlerOffset) = h"
    "\<forall>y\<in>T. y \<noteq> x \<longrightarrow> fire_word (mem s') y = fire_word (mem ?s) y \<and>
       mem s' (y + kAlarmHandlerOffset) = mem ?s (y + kAlarmHandlerOffset)"
    "cpu s' = cpu ?s" "host_clock s' = (\<lambda>i. host_clock ?s (k + i))"
    "alarm_depth s' = alarm_depth ?s"
    "\<forall>a. a \<notin> alarm_words q c T \<longrightarrow> mem s' a = mem ?s a"
    using run_set_alarm [OF r x(1) _ call t] R' x(2) by auto
  have e: "set_alarm_call W fuel (x, off, h) s = s'" using s'(1) by simp
  have key: "key y = fire_of (mem s') y" if "y \<in> T" for y using s'(3) that by blast
  have old: "fire_of (mem s) y = fire_of (mem s') y" if "y \<in> set ys" for y
  proof -
    have "y \<in> T" "y \<noteq> x" using that x by auto
    then show ?thesis using s'(6) by (simp add: fire_of_def)
  qed
  have "sort_key (fire_of (mem s)) ys = sort_key (fire_of (mem s')) ys" by (rule sort_key_cong) (use old in auto)
  moreover have "insert_by key (key x) x zs = insert_by (fire_of (mem s')) (fire_of (mem s') x) x zs"
    if "set zs \<subseteq> T" for zs
    unfolding key [OF x(1)] by (rule insert_by_cong) (use key that in auto)
  ultimately have q: "alarm_rep fuel q c T s' (sort_key (fire_of (mem s')) (ys @ [x]))"
    using s'(2) x(3) by (simp add: sort_key_snoc)
  have st: "steady s'"
    unfolding steady_def
  proof
    fix n
    have "time_ready (later (k + n) s)" using R' by (simp add: steady_def)
    then show "time_ready (later n s')" using s'(8) by (simp add: time_ready_def add.assoc)
  qed
  have fr: "mem s' a = mem s a" if "a \<in> {kOSCurrentContextAddr, kSchedulerIdleFlagAddr, kSchedulerReschedCounterAddr, 0x800030D8, 0x800030DC}" for a
    using s'(10) alarm_words_kernel [OF A _ that] R' by simp
  have sb: "system_base s' = system_base s" "mem s' kSchedulerIdleFlagAddr = mem s kSchedulerIdleFlagAddr"
    using fr by (simp_all add: system_base_def)
  have tk: "ticks_at ?s i = ticks_at s i" "system_base ?s = system_base s" for i
    by (simp_all add: ticks_at_def system_base_def)
  have "alarm_ready fuel q c T s' (sort_key (fire_of (mem s')) (ys @ [x]))"
    unfolding alarm_ready_def using q st R' fr s'(7) by simp
  then show ?thesis unfolding e using sb s'(4,5,6,8,9) tk by auto
qed

lemma set_alarm_calls:
  assumes "alarm_ready fuel q c T s []" "distinct (map fst cs)" "set (map fst cs) \<subseteq> T"
    and "\<forall>(x, off, h)\<in>set cs. h \<noteq> 0 \<and> registered W h"
  shows "alarm_ready fuel q c T (fold (set_alarm_call W fuel) cs s)
      (sort_key (fire_of (mem (fold (set_alarm_call W fuel) cs s))) (map fst cs)) \<and>
    system_base (fold (set_alarm_call W fuel) cs s) = system_base s \<and>
    (\<exists>k. host_clock (fold (set_alarm_call W fuel) cs s) = (\<lambda>i. host_clock s (k + i))) \<and>
    (\<forall>(x, off, h)\<in>set cs. mem (fold (set_alarm_call W fuel) cs s) (x + kAlarmHandlerOffset) = h \<and>
      (\<exists>i. fire_word (mem (fold (set_alarm_call W fuel) cs s)) x = system_base s + ticks_at s i + off))"
  using assms(2-4)
proof (induction cs rule: rev_induct)
  case Nil
  have "\<exists>k. host_clock s = (\<lambda>i. host_clock s (k + i))" by (rule exI [of _ 0]) simp
  with assms(1) show ?case by simp
next
  case (snoc a cs)
  obtain x off h where a: "a = (x, off, h)" by (cases a)
  let ?s = "fold (set_alarm_call W fuel) cs s"
  let ?t = "set_alarm_call W fuel (x, off, h) ?s"
  have pre: "x \<in> T" "x \<notin> set (map fst cs)" "set (map fst cs) \<subseteq> T" "h \<noteq> 0" "registered W h"
    using snoc.prems a by auto
  obtain ih: "alarm_ready fuel q c T ?s (sort_key (fire_of (mem ?s)) (map fst cs))" "system_base ?s = system_base s"
    "\<forall>(x, off, h)\<in>set cs. mem ?s (x + kAlarmHandlerOffset) = h \<and>
      (\<exists>i. fire_word (mem ?s) x = system_base s + ticks_at s i + off)"
    and "\<exists>k. host_clock ?s = (\<lambda>i. host_clock s (k + i))"
    using snoc by auto
  then obtain k where k: "host_clock ?s = (\<lambda>i. host_clock s (k + i))" by blast
  note st = set_alarm_call_step [OF ih(1) pre, of off]
  have tk: "ticks_at ?s i = ticks_at s (k + i)" for i using k by (simp add: ticks_at_def)
  have new: "\<exists>i. fire_word (mem ?t) x = system_base s + ticks_at s i + off"
    using st ih(2) tk by auto
  obtain k2 where k2: "host_clock ?t = (\<lambda>i. host_clock ?s (k2 + i))" using st by blast
  then have hc: "host_clock ?t = (\<lambda>i. host_clock s ((k + k2) + i))" using k by (simp add: add.assoc)
  have old: "mem ?t (y + kAlarmHandlerOffset) = g \<and> (\<exists>i. fire_word (mem ?t) y = system_base s + ticks_at s i + o')"
    if "(y, o', g) \<in> set cs" for y o' g
  proof -
    have y: "y \<in> T" "y \<noteq> x" using that pre(2,3) by force+
    then have "mem ?t (y + kAlarmHandlerOffset) = mem ?s (y + kAlarmHandlerOffset)" "fire_word (mem ?t) y = fire_word (mem ?s) y"
      using st by blast+
    then show ?thesis using ih(3) that by auto
  qed
  have "fold (set_alarm_call W fuel) (cs @ [a]) s = ?t" using a by simp
  then show ?case using st ih(2) new old hc a by auto
qed

text \<open>C24: setting alarms one after another files them in the order of their fire times: after any calls
  for distinct alarms on an empty queue, each with a handler, the queue in guest memory is linked in both
  directions and is the stable sort of the alarms by their fire times as signed numbers, alarms of the
  same time in the order of the calls.  Each alarm holds its handler and, as its fire time, the base of
  the console plus the ticks of one reading of the clock plus the delay asked for.  No access faults,
  and fuel for as many steps as there are alarms (two at least) is enough.\<close>

theorem alarms_filed_in_fire_order:
  assumes "alarm_ready fuel q c T s []" "distinct (map fst cs)" "set (map fst cs) \<subseteq> T"
    and "\<forall>(x, off, h)\<in>set cs. h \<noteq> 0 \<and> registered W h"
  shows "let s' = fold (set_alarm_call W fuel) cs s in
    fault s' = None \<and> alarm_queue (mem s') q (sort_key (fire_of (mem s')) (map fst cs)) \<and>
    (\<forall>(x, off, h)\<in>set cs. mem s' (x + kAlarmHandlerOffset) = h \<and>
      (\<exists>i. fire_word (mem s') x = system_base s + NanosecondsToTicks (of_nat (host_clock s i)) + off))"
  using set_alarm_calls [OF assms] unfolding Let_def alarm_ready_def alarm_rep_def
  by (auto simp: wii_fault ticks_at_def)

text \<open>Two alarms, the later one set first.\<close>

definition demo_alarm_os :: os_machine where
  "demo_alarm_os = boot_os\<lparr>cpu := zero_cpu\<lparr>gpr := (\<lambda>_. 0)(13 := 0x80386000)\<rparr>\<rparr>"

definition demo_alarm_world :: world where
  "demo_alarm_world = quiet_world\<lparr>registered := (\<lambda>_. True)\<rparr>"

lemma demo_alarm_layout: "alarm_layout 0x8037FCA0 0 {0x80400000, 0x80401000}"
proof -
  have "layout {0x80400000, 0x80401000} alarm_fields ({0x8037FCA0, 0x8037FCA0 + 4} \<union> kernel_side 0)"
  proof (rule layout_spaced [where sz = 32])
    show "\<forall>i\<in>alarm_fields. unat i + 4 \<le> 32 \<and> unat i mod 4 = 0" by (simp add: alarm_fields_def alarm_offsets)
  qed (simp_all add: kernel_side_def kernel_words word_ok_def cached_def)
  then show ?thesis by (simp add: alarm_layout_def kernel_side_def kernel_words)
qed

lemma demo_alarm_facts: "mem demo_alarm_os = (\<lambda>_. 0)" "wii demo_alarm_os" "steady demo_alarm_os"
  by (simp_all add: fun_eq_iff mem_def rd32_def demo_alarm_os_def boot_os_def be_word32_def wii_def steady_def time_ready_def)

lemma demo_alarm_ready: "alarm_ready 2 0x8037FCA0 0 {0x80400000, 0x80401000} demo_alarm_os []"
proof -
  have "alarm_rep 2 0x8037FCA0 0 {0x80400000, 0x80401000} demo_alarm_os []"
    using demo_alarm_layout by (simp add: alarm_rep_def demo_alarm_facts dlist_def card_insert_if)
  moreover have "gpr (cpu demo_alarm_os) 13 = 0x80386000" by (simp add: demo_alarm_os_def)
  ultimately show ?thesis
    by (simp add: alarm_ready_def demo_alarm_facts kAlarmQueueOffsetFromR13_def)
qed

lemma alarms_filed_in_fire_order_witness:
  "alarm_queue (mem (fold (set_alarm_call demo_alarm_world 2)
     [(0x80401000, 500, 0x80500000), (0x80400000, 100, 0x80500000)] demo_alarm_os)) 0x8037FCA0 [0x80400000, 0x80401000]"
proof -
  define cs :: "(u32 \<times> u64 \<times> u32) list" where
    "cs = [(0x80401000, 500, 0x80500000), (0x80400000, 100, 0x80500000)]"
  define m where "m = mem (fold (set_alarm_call demo_alarm_world 2) cs demo_alarm_os)"
  have z: "system_base demo_alarm_os + NanosecondsToTicks (of_nat (host_clock demo_alarm_os i)) = 0" for i
  proof -
    have "host_clock demo_alarm_os i = 0" by (simp add: demo_alarm_os_def boot_os_def)
    then show ?thesis by (simp add: system_base_def demo_alarm_facts join64_def NanosecondsToTicks_def)
  qed
  have c: "distinct (map fst cs)" "set (map fst cs) \<subseteq> {0x80400000, 0x80401000}"
    "\<forall>(x, off, h)\<in>set cs. h \<noteq> 0 \<and> registered demo_alarm_world h"
    by (simp_all add: cs_def demo_alarm_world_def)
  have "alarm_queue m 0x8037FCA0 (sort_key (fire_of m) (map fst cs)) \<and>
    (\<forall>(x, off, h)\<in>set cs. m (x + kAlarmHandlerOffset) = h \<and>
      (\<exists>i. fire_word m x = system_base demo_alarm_os + NanosecondsToTicks (of_nat (host_clock demo_alarm_os i)) + off))"
    by (rule alarms_filed_in_fire_order [OF demo_alarm_ready c, unfolded Let_def, folded m_def, THEN conjunct2])
  note r = this [unfolded z]
  have "map fst cs = [0x80401000, 0x80400000]" by (simp add: cs_def)
  then have q: "alarm_queue m 0x8037FCA0 (sort_key (fire_of m) [0x80401000, 0x80400000])" using r by metis
  have f: "fire_of m 0x80401000 = 500" "fire_of m 0x80400000 = 100"
    using r [THEN conjunct2] by (simp_all add: fire_of_def cs_def)
  have e: "sort_key (fire_of m) [0x80401000, 0x80400000] = [0x80400000, 0x80401000]" using f by simp
  show ?thesis using q unfolding e unfolding m_def cs_def .
qed

end
