(* ===== verification/OsAlarmFire.thy ===== *)
theory OsAlarmFire
  imports OsAlarm
begin

unbundle bit_operations_syntax

text \<open>
  Processing the alarm queue (\<open>ProcessAlarmQueue\<close> of \<open>runtime/src/hle/os/os_alarm.cpp\<close>, modelled in
  \<open>OsAlarm\<close>): what a call does round by round over the list of queued alarms, for handlers that may set,
  cancel and set again alarms, and a call of \<open>OSSetAlarm\<close> after which no call fires anything.
\<close>

lemma sort_key_snoc_least:
  assumes "\<forall>y\<in>set ys. f x < (f y :: int)"
  shows "sort_key f (ys @ [x]) = x # sort_key f ys"
proof -
  have "takeWhile (\<lambda>y. f y \<le> f x) (sort_key f ys) = []"
    using assms by (cases "sort_key f ys") (auto simp flip: set_sort [of f ys])
  moreover have "dropWhile (\<lambda>y. f y \<le> f x) (sort_key f ys) = sort_key f ys"
    using calculation takeWhile_dropWhile_id [of "\<lambda>y. f y \<le> f x" "sort_key f ys"] by simp
  ultimately show ?thesis by (simp add: sort_key_snoc insert_by_def)
qed

section \<open>Firing\<close>

abbreviation kernel5 :: "u32 set" where
  "kernel5 \<equiv> {kOSCurrentContextAddr, kSchedulerIdleFlagAddr, kSchedulerReschedCounterAddr, 0x800030D8, 0x800030DC}"

lemma run_alarm_due:
  assumes R: "alarm_ready fuel q c T s xs"
  shows "\<exists>k. run_state (alarm_due fuel q) s = (case xs of [] \<Rightarrow> (None, s) | x # _ \<Rightarrow>
     (if system_base s + ticks_at s (k - 2) < fire_word (mem s) x then None
      else Some (x, mem s (x + kAlarmHandlerOffset)), later k s))"
proof (cases xs)
  case Nil
  then show ?thesis
    using R alarm_layoutD(3) [of q c T] by (simp add: alarm_due_def alarm_ready_def alarm_rep_def run_simps dlist_def)
next
  case (Cons x ys)
  have r: "wii s" "alarm_layout q c T" "x \<in> T" "mem s q = x" "x \<noteq> 0" "1 < fuel"
    using R Cons by (auto simp: alarm_ready_def alarm_rep_def dlist_def)
  note L = alarm_layoutD [OF r(2)]
  have "time_ready (later 0 s)" using R unfolding alarm_ready_def steady_def by blast
  then have "time_ready s" by (simp add: time_ready_def)
  then obtain k where "run_state (ReadSystemTime fuel) s = (system_base s + ticks_at s (k - 2), later k s)"
    using run_read_system_time [OF r(1) _ r(6)] by blast
  then show ?thesis
    using r L(3) L(6) [OF r(3)] Cons
    by (intro exI [of _ k]) (simp add: alarm_due_def run_simps fire_word_def)
qed


text \<open>The frame of \<open>ProcessAlarmQueue\<close>: outside another processing, with nothing completed on the network
  and in the storage, it is the rounds on the queue below r13.\<close>

definition nothing_completes :: "world \<Rightarrow> bool" where
  "nothing_completes W \<longleftrightarrow> network_completions W = State_Monad.return False \<and>
     nand_callbacks W = (\<lambda>_. State_Monad.return False)"

definition processing :: "os_machine \<Rightarrow> os_machine" where
  "processing s = s\<lparr>alarm_depth := 1\<rparr>"

lemma alarm_depth_mem [simp]: "mem (s\<lparr>alarm_depth := k\<rparr>) = mem s"
  by (rule mem_cong) simp

lemma processing_mem [simp]: "mem (processing s) = mem s"
  by (rule mem_cong) (simp add: processing_def)

lemma processing_simps [simp]:
  "wii (processing s) = wii s" "cpu (processing s) = cpu s"
  "host_clock (processing s) = host_clock s" "fault (processing s) = fault s" "steady (processing s) = steady s"
  "system_base (processing s) = system_base s" "ticks_at (processing s) i = ticks_at s i"
  "alarm_depth (processing s) = 1"
  unfolding system_base_def processing_mem
  by (simp_all add: processing_def wii_def steady_def time_ready_def ticks_at_def)

lemma run_process_alarms:
  assumes R: "alarm_ready fuel q c T s xs" and "0 < n" "alarm_depth s = 0" "gpr (cpu s) 13 = sda1_base W" "sda1_base W \<noteq> 0"
    and W: "nothing_completes W"
    and rounds: "run_state (alarm_rounds W fuel q (nat n) False) (processing s) = (r, s')" "wii s'"
  shows "run_state (ProcessAlarmQueue W fuel n) s = (r, s'\<lparr>alarm_depth := alarm_depth s' - 1\<rparr>)"
proof -
  have r: "wii s" "alarm_layout q c T" "set xs \<subseteq> T" "alarm_queue (mem s) q xs" "gpr (cpu s) 13 - kAlarmQueueOffsetFromR13 = q"
    using R by (auto simp: alarm_ready_def alarm_rep_def)
  have san: "run_state SanitizeAlarmQueue (processing s) = ((), processing s)"
    by (rule run_sanitize [OF _ _ r(2,3)]) (use r in simp_all)
  have ck: "run_state (catch_keep (alarm_rounds W fuel q (nat n) False)) (processing s) = (r, s')"
    using rounds r(1) by (simp add: catch_keep_def wii_fault)
  have p: "s\<lparr>alarm_depth := alarm_depth s + 1\<rparr> = processing s" using assms(3) by (simp add: processing_def)
  show ?thesis
    unfolding ProcessAlarmQueue_def
    using assms(2-5) W san ck r(1,5) rounds(2) p
    by (simp add: EnsureSda1Base_def run_simps wii_fault nothing_completes_def unless_fault_def)
qed

text \<open>A head whose fire time is negative is not due before the clock has run half its range.\<close>

lemma negative_head_fires_nothing:
  assumes R: "alarm_ready fuel q c T s (x # xs)" and neg: "fire_of (mem s) x < 0" and clock: "\<forall>i. system_base s + ticks_at s i < 2 ^ 63"
    and n: "0 < n" "alarm_depth s = 0" "gpr (cpu s) 13 = sda1_base W" "sda1_base W \<noteq> 0" "nothing_completes W"
  shows "\<exists>s'. run_state (ProcessAlarmQueue W fuel n) s = (False, s') \<and> fault s' = None \<and> mem s' = mem s"
proof -
  have late: "t < fire_word (mem s) x" if "t < 2 ^ 63" for t :: u64
  proof -
    have "2 ^ 63 \<le> unat (fire_word (mem s) x)"
    proof (rule ccontr)
      assume "\<not> 2 ^ 63 \<le> unat (fire_word (mem s) x)"
      then have "sint (fire_word (mem s) x) = int (unat (fire_word (mem s) x))" by (intro sint_u64_small) simp
      with neg show False by (simp add: fire_of_def)
    qed
    then show ?thesis using that by (simp add: word_less_nat_alt)
  qed
  have Rp: "alarm_ready fuel q c T (processing s) (x # xs)"
    using R by (simp add: alarm_ready_def alarm_rep_def)
  obtain k where k: "run_state (alarm_due fuel q) (processing s) = (None, later k (processing s))"
    using run_alarm_due [OF Rp] late clock by auto
  obtain m where m: "nat n = Suc m" using n(1) by (cases "nat n") auto
  have w: "wii s" using R by (simp add: alarm_ready_def alarm_rep_def)
  have "run_state (alarm_rounds W fuel q (nat n) False) (processing s) = (False, later k (processing s))"
    using k w by (simp add: m run_simps wii_fault)
  then have "run_state (ProcessAlarmQueue W fuel n) s =
      (False, (later k (processing s))\<lparr>alarm_depth := alarm_depth (later k (processing s)) - 1\<rparr>)"
    by (rule run_process_alarms [OF R n]) (use w in simp)
  moreover have "mem ((later k (processing s))\<lparr>alarm_depth := j\<rparr>) = mem s" for j by simp
  ultimately show ?thesis using w by (simp add: wii_fault)
qed

text \<open>C39: an alarm whose fire time falls before the origin of time stops the queue.  \<open>OSSetAlarm\<close> compares fire
  times as signed numbers and files it at the head, before every alarm set for a time after the origin;
  processing compares the clock with it as unsigned numbers, and as long as the clock has not run half its
  range it is not due.  So after such a call no processing fires anything, neither this alarm nor any of
  the others, however late they are, and guest memory is unchanged.\<close>

theorem negative_fire_time_blocks_queue:
  assumes "alarm_ready fuel q c T s (sort_key (fire_of (mem s)) ys)" "x \<in> T" "x \<notin> set ys" "set ys \<subseteq> T"
    and "h \<noteq> 0" "registered W h" "\<forall>y\<in>set ys. 0 \<le> fire_of (mem s) y"
    and "\<forall>i. sint (system_base s + ticks_at s i + off) < 0" "\<forall>i. system_base s + ticks_at s i < 2 ^ 63"
    and "0 < n" "alarm_depth s = 0" "gpr (cpu s) 13 = sda1_base W" "sda1_base W \<noteq> 0" "nothing_completes W"
  shows "let s1 = set_alarm_call W fuel (x, off, h) s in
    alarm_queue (mem s1) q (x # sort_key (fire_of (mem s)) ys) \<and>
    (\<exists>s'. run_state (ProcessAlarmQueue W fuel n) s1 = (False, s') \<and> fault s' = None \<and> mem s' = mem s1)"
proof -
  define s1 where "s1 = set_alarm_call W fuel (x, off, h) s"
  note S = set_alarm_call_step [OF assms(1-6), of off, folded s1_def]
  then obtain k where k: "host_clock s1 = (\<lambda>i. host_clock s (k + i))" by blast
  have neg: "fire_of (mem s1) x < 0" using S assms(8) by (auto simp: fire_of_def)
  have same: "fire_of (mem s1) y = fire_of (mem s) y" if "y \<in> set ys" for y
  proof -
    have "y \<in> T" "y \<noteq> x" using that assms(3,4) by auto
    then show ?thesis using S by (simp add: fire_of_def)
  qed
  have "sort_key (fire_of (mem s1)) (ys @ [x]) = x # sort_key (fire_of (mem s1)) ys"
    by (rule sort_key_snoc_least) (use neg same assms(7) in force)
  also have "sort_key (fire_of (mem s1)) ys = sort_key (fire_of (mem s)) ys"
    by (rule sort_key_cong) (use same in auto)
  finally have R: "alarm_ready fuel q c T s1 (x # sort_key (fire_of (mem s)) ys)" using S by simp
  have q: "gpr (cpu s1) 13 - kAlarmQueueOffsetFromR13 = q" "gpr (cpu s) 13 - kAlarmQueueOffsetFromR13 = q"
    using R assms(1) by (simp_all add: alarm_ready_def)
  have "gpr (cpu s1) 13 = sda1_base W" using trans [OF q(1) q(2) [symmetric]] assms(12) by simp
  moreover have "\<forall>i. system_base s1 + ticks_at s1 i < 2 ^ 63" using S k assms(9) by (simp add: ticks_at_def)
  moreover have "alarm_depth s1 = 0" using S assms(11) by simp
  ultimately have "\<exists>s'. run_state (ProcessAlarmQueue W fuel n) s1 = (False, s') \<and> fault s' = None \<and> mem s' = mem s1"
    using negative_head_fires_nothing [OF R neg] assms(10,13,14) by blast
  then show ?thesis using R by (simp add: s1_def Let_def alarm_ready_def alarm_rep_def)
qed




text \<open>
  Firing, over the list of queued alarms.  The alarm is unlinked and its handler cleared; a periodic one
  is filed again; the handler, if there is one, is called once with the alarm in r3 and the current
  context in r4 while the disable count is one higher.
\<close>

definition with_gprs :: "(nat \<Rightarrow> u32) \<Rightarrow> os_machine \<Rightarrow> os_machine" where
  "with_gprs g s = s\<lparr>cpu := (cpu s)\<lparr>gpr := g\<rparr>\<rparr>"







lemma kernel5_ok: "a \<in> kernel5 \<Longrightarrow> word_ok a"
  by (auto simp: kernel_words word_ok_def cached_def)


lemma with_gprs_mem [simp]: "mem (with_gprs g s) = mem s"
  by (rule mem_cong) (simp add: with_gprs_def)

lemma with_gprs_simps [simp]:
  "wii (with_gprs g s) = wii s" "host_clock (with_gprs g s) = host_clock s"
  "alarm_depth (with_gprs g s) = alarm_depth s" "gpr (cpu (with_gprs g s)) = g" "fault (with_gprs g s) = fault s"
  by (simp_all add: with_gprs_def wii_def)
















lemma negative_fire_time_blocks_queue_witness:
  "\<exists>s zs. alarm_queue (mem s) 0x8037FCA0 [0x80401000] \<and> fire_of (mem s) 0x80401000 = 0 \<and>
    (let s1 = set_alarm_call demo_alarm_world 2 (0x80400000, -1, 0x80500000) s in
      alarm_queue (mem s1) 0x8037FCA0 [0x80400000, 0x80401000] \<and>
      (\<exists>s'. run_state (ProcessAlarmQueue demo_alarm_world 2 8) s1 = (False, s') \<and> fault s' = None \<and> mem s' = mem s1))"
proof -
  define s where "s = set_alarm_call demo_alarm_world 2 (0x80401000, 0, 0x80500000) demo_alarm_os"
  have hk: "registered demo_alarm_world h" for h by (simp add: demo_alarm_world_def)
  have R0: "alarm_ready 2 0x8037FCA0 0 {0x80400000, 0x80401000} demo_alarm_os (sort_key (fire_of (mem demo_alarm_os)) [])"
    using demo_alarm_ready by simp
  note S = set_alarm_call_step [OF R0, where x = "0x80401000" and h = "0x80500000" and W = demo_alarm_world and off = 0, folded s_def]
  have c0: "host_clock demo_alarm_os = (\<lambda>_. 0)" "alarm_depth demo_alarm_os = 0" by (simp_all add: demo_alarm_os_def boot_os_def fun_eq_iff)
  have b0: "system_base demo_alarm_os = 0" by (simp add: system_base_def demo_alarm_facts join64_def)
  have hc: "host_clock s = (\<lambda>_. 0)" "system_base s = 0" "alarm_depth s = 0" using S hk c0 b0 by auto
  have t: "system_base s + ticks_at s i = 0" for i using hc by (simp add: ticks_at_def NanosecondsToTicks_def)
  have f: "fire_of (mem s) 0x80401000 = 0"
    using S hk c0 b0 by (auto simp: fire_of_def ticks_at_def NanosecondsToTicks_def)
  have R: "alarm_ready 2 0x8037FCA0 0 {0x80400000, 0x80401000} s (sort_key (fire_of (mem s)) [0x80401000])"
    using S hk by simp
  then have "gpr (cpu s) 13 - 0x6360 = 0x8037FCA0" by (simp add: alarm_ready_def kAlarmQueueOffsetFromR13_def)
  then have g: "gpr (cpu s) 13 = 0x80386000" by (simp add: diff_eq_eq)
  have "let s1 = set_alarm_call demo_alarm_world 2 (0x80400000, -1, 0x80500000) s in
    alarm_queue (mem s1) 0x8037FCA0 (0x80400000 # sort_key (fire_of (mem s)) [0x80401000]) \<and>
    (\<exists>s'. run_state (ProcessAlarmQueue demo_alarm_world 2 8) s1 = (False, s') \<and> fault s' = None \<and> mem s' = mem s1)"
    by (rule negative_fire_time_blocks_queue [OF R])
      (use hk t f g hc in \<open>simp_all add: demo_alarm_world_def quiet_world_def nothing_completes_def\<close>)
  then show ?thesis using R f by (intro exI [of _ s]) (simp add: alarm_ready_def alarm_rep_def)
qed





lemma wr_alarm_depth [simp]: "alarm_depth (wr32 a v s) = alarm_depth s"
  by (simp add: wr32_def)


end
