(* ===== verification/OsLifecycle.thy ===== *)
theory OsLifecycle
  imports OsWakeup
begin

unbundle bit_operations_syntax

text \<open>
  The life of a thread, \<open>runtime/src/hle/os/os_thread.cpp\<close>: creation, exit, cancellation, joining,
  detaching, suspending and resuming.  The two pieces of translated code that the kernel calls,
  \<open>OSInitContext\<close> and \<open>__OSUnlockAllMutex\<close>, are calls of \<open>invoke\<close>.  The sleep timers and outstanding
  parks that resuming cancels are \<open>os_sleep.cpp\<close>.
\<close>

section \<open>Operations\<close>

definition kSuspendedWaitPriority :: int where "kSuspendedWaitPriority = 32"

definition CancelSleepTimer :: "u32 \<Rightarrow> unit os" where
  "CancelSleepTimer t = put_host (\<lambda>s. s\<lparr>sleep_timers := filter (\<lambda>(x, deadline). x \<noteq> t) (sleep_timers s)\<rparr>)"

definition MarkParkOutstanding :: "u32 \<Rightarrow> unit os" where
  "MarkParkOutstanding t = put_host (\<lambda>s. s\<lparr>outstanding_parks := List.insert t (outstanding_parks s)\<rparr>)"

definition ClearOutstandingPark :: "u32 \<Rightarrow> unit os" where
  "ClearOutstandingPark t = put_host (\<lambda>s. s\<lparr>outstanding_parks := removeAll t (outstanding_parks s)\<rparr>)"

definition MarkFiberThreadTerminated :: "u32 \<Rightarrow> u16 \<Rightarrow> unit os" where
  "MarkFiberThreadTerminated t finalState = do {
     ini \<leftarrow> IsInitialized;
     whenM ini (ExitGuestThread t (if finalState = 0 then WAITING else MORIBUND))
   }"

definition WakeThreadJoiners :: "world \<Rightarrow> nat \<Rightarrow> u32 \<Rightarrow> unit os" where
  "WakeThreadJoiners W fuel t = do {
     gpr_put 3 (t + kThreadJoinQueueOffset);
     OSWakeupThread W fuel
   }"

definition UnlockAllThreadMutexes :: "world \<Rightarrow> u32 \<Rightarrow> unit os" where
  "UnlockAllThreadMutexes W t = do {
     gpr_put 3 t;
     InvokeIndirectCpu W 0x801A8088
   }"

definition TerminateThreadCommon :: "world \<Rightarrow> nat \<Rightarrow> u32 \<Rightarrow> bool \<Rightarrow> u32 \<Rightarrow> unit os" where
  "TerminateThreadCommon W fuel t publishExitValue exitValue = do {
     OS__ClearContext t;
     attributes \<leftarrow> Read16 (t + kThreadAttrOffset);
     (let detached = (attributes AND 1 \<noteq> 0);
          finalState = (if detached then 0 else kThreadStateMoribund) in do {
        (if detached then RemoveThreadFromList t
         else whenM publishExitValue (Write32 (t + kThreadExitValueOffset) exitValue));
        Write16 (t + kThreadStateOffset) finalState;
        MarkFiberThreadTerminated t finalState;
        UnlockAllThreadMutexes W t;
        WakeThreadJoiners W fuel t
      })
   }"

text \<open>Creation, in the order of the source: the fiber, the thread's own fields, its context, and the
  end of the list of all threads.\<close>

definition create_fiber :: "bool \<Rightarrow> u32 \<Rightarrow> u32 \<Rightarrow> u32 \<Rightarrow> u32 \<Rightarrow> unit os" where
  "create_fiber created t entry arg stackTop = do {
     ini \<leftarrow> IsInitialized;
     whenM ini (do {
       _ \<leftarrow> CreateGuestFiber created t entry arg stackTop;
       put_host (\<lambda>s. case fibers s t of
           None \<Rightarrow> s
         | Some f \<Rightarrow> s\<lparr>fibers := (fibers s)(t \<mapsto> f\<lparr>cpuContext := (cpuContext f)\<lparr>hid2 :=
             (if hid2 (cpu s) \<noteq> 0 then hid2 (cpu s) else 0x10000000)\<rparr>\<rparr>)\<rparr>)
     })
   }"

definition init_thread_fields :: "u32 \<Rightarrow> u32 \<Rightarrow> u16 \<Rightarrow> ('z, unit) guest" where
  "init_thread_fields t priority attributes = do {
     Write16 (t + 0x2C8) 1;
     Write16 (t + 0x2CA) (attributes AND 1);
     Write32 (t + 0x2D4) priority;
     Write32 (t + 0x2D0) priority;
     Write32 (t + 0x2CC) 1;
     Write32 (t + 0x2D8) 0xFFFFFFFF;
     Write32 (t + 0x2F0) 0;
     Write32 (t + 0x2EC) 0;
     Write32 (t + 0x2E8) 0;
     Write32 (t + 0x2F8) 0;
     Write32 (t + 0x2F4) 0
   }"

text \<open>The fields of the context that \<open>OSInitContext\<close> does not set the way a new thread needs them.\<close>

definition adjust_thread_context :: "u32 \<Rightarrow> u32 \<Rightarrow> u32 \<Rightarrow> u32 \<Rightarrow> u32 \<Rightarrow> ('z, unit) guest" where
  "adjust_thread_context t entry arg stackTop stackSize = do {
     whenM (IsThpVideoDecoderEntry entry) (do {
       Write32 (t + 0x1AC) 0x00040004;
       Write32 (t + 0x1B0) 0x00050005;
       Write32 (t + 0x1B4) 0x00060006;
       Write32 (t + 0x1B8) 0x00070007
     });
     Write32 (t + 0x84) 0x801AA0F0;
     Write32 (t + 0x0C) arg;
     Write32 (t + 0x304) stackTop;
     Write32 (t + 0x308) (stackTop - stackSize);
     Write32 (stackTop - stackSize) 0xDEADBABE;
     Write32 (t + 0x30C) 0;
     Write32 (t + 0x310) 0;
     Write32 (t + 0x314) 0
   }"

primrec clear_float_words :: "nat \<Rightarrow> u32 \<Rightarrow> u32 \<Rightarrow> ('z, unit) guest" where
  "clear_float_words 0 t off = State_Monad.return ()"
| "clear_float_words (Suc n) t off = do {
     Write32 (t + 0x90 + off) 0;
     Write32 (t + 0x1C8 + off) 0;
     clear_float_words n t (off + 4)
   }"

definition init_float_context :: "u32 \<Rightarrow> ('z, unit) guest" where
  "init_float_context t = do {
     ready \<leftarrow> get_host (\<lambda>s. Contains (regions s) 0x80347130 4);
     flag \<leftarrow> (if ready then Read32 0x80347130 else State_Monad.return 0);
     whenM (ready \<and> flag \<noteq> 0) (do {
       srr \<leftarrow> Read32 (t + 0x19C);
       Write32 (t + 0x19C) (srr OR 0x900);
       modeFlags \<leftarrow> Read16 (t + 0x1A2);
       Write16 (t + 0x1A2) (modeFlags OR 1);
       source \<leftarrow> get_host (\<lambda>s. Contains (regions s) 0x80385AA8 4);
       whenM source (do {
         v \<leftarrow> Read32 0x80385AA8;
         Write32 (t + 0x194) ((v AND 0xF8) OR 4)
       });
       clear_float_words 32 t 0
     })
   }"

definition append_to_thread_list :: "u32 \<Rightarrow> ('z, unit) guest" where
  "append_to_thread_list t = do {
     tailThread \<leftarrow> Read32 kThreadListTailAddr;
     newHead \<leftarrow>
       (if tailThread \<noteq> 0 then do {
          Write32 (tailThread + 0x2FC) t;
          Read32 kThreadListHeadAddr
        } else State_Monad.return t);
     Write32 kThreadListHeadAddr newHead;
     Write32 (t + 0x300) tailThread;
     Write32 (t + 0x2FC) 0;
     Write32 kThreadListTailAddr t
   }"

definition create_thread_body :: "world \<Rightarrow> u32 \<Rightarrow> u32 \<Rightarrow> u32 \<Rightarrow> u32 \<Rightarrow> u32 \<Rightarrow> u32 \<Rightarrow> u16 \<Rightarrow> unit os" where
  "create_thread_body W t entry arg stackTop stackSize priority attributes =
     (let alignedStack = stackTop AND 0xFFFFFFF8 in do {
        init_thread_fields t priority attributes;
        Write32 (alignedStack - 8) 0;
        Write32 (alignedStack - 4) 0;
        gpr_put 3 t;
        gpr_put 4 entry;
        gpr_put 5 (alignedStack - 8);
        InvokeIndirectCpu W 0x801A20BC;
        adjust_thread_context t entry arg stackTop stackSize;
        init_float_context t;
        irqState \<leftarrow> OS__DisableInterrupts;
        append_to_thread_list t;
        _ \<leftarrow> OS__RestoreInterrupts irqState;
        gpr_put 3 1
      })"

definition OSCreateThread :: "world \<Rightarrow> bool \<Rightarrow> unit os" where
  "OSCreateThread W created = do {
     threadPtr \<leftarrow> gpr_get 3;
     entryFunc \<leftarrow> gpr_get 4;
     entryArg \<leftarrow> gpr_get 5;
     stackTop \<leftarrow> gpr_get 6;
     stackSize \<leftarrow> gpr_get 7;
     priority \<leftarrow> gpr_get 8;
     attributes \<leftarrow> gpr_get 9;
     (if sint priority < 0 \<or> sint priority > 31 then gpr_put 3 0
      else do {
        create_fiber created threadPtr entryFunc entryArg stackTop;
        try_catch (create_thread_body W threadPtr entryFunc entryArg stackTop stackSize priority (ucast attributes))
          (gpr_put 3 0)
      })
   }"

definition OSExitThread :: "world \<Rightarrow> nat \<Rightarrow> unit os" where
  "OSExitThread W fuel = do {
     exitValue \<leftarrow> gpr_get 3;
     irqState \<leftarrow> OS__DisableInterrupts;
     try_catch (do {
       threadPtr \<leftarrow> Read32 kOSRunningContextAddr;
       whenM (threadPtr \<noteq> 0) (do {
         TerminateThreadCommon W fuel threadPtr True exitValue;
         Write32 kSchedulerReschedCounterAddr 1;
         gpr_put 3 0;
         SelectThread W fuel
       })
     }) (State_Monad.return ());
     _ \<leftarrow> OS__RestoreInterrupts irqState;
     State_Monad.return ()
   }"

definition cancel_body :: "world \<Rightarrow> nat \<Rightarrow> u32 \<Rightarrow> unit os" where
  "cancel_body W fuel threadPtr = do {
     state \<leftarrow> Read16 (threadPtr + kThreadStateOffset);
     whenM (\<not> (state = 3 \<or> state = 0 \<or> state > 4)) (do {
       (if state = kThreadStateReady then do {
          suspend \<leftarrow> Read32 (threadPtr + kThreadSuspendOffset);
          whenM (sint suspend < 1) (RemoveThreadFromQueue threadPtr)
        }
        else if state = kThreadStateRunning then Write32 kSchedulerReschedCounterAddr 1
        else whenM (state = kThreadStateWaiting) (RemoveThreadFromQueue threadPtr));
       TerminateThreadCommon W fuel threadPtr False 0;
       resched \<leftarrow> Read32 kSchedulerReschedCounterAddr;
       whenM (resched \<noteq> 0) (do { gpr_put 3 0; SelectThread W fuel })
     })
   }"

definition OSCancelThread :: "world \<Rightarrow> nat \<Rightarrow> unit os" where
  "OSCancelThread W fuel = do {
     threadPtr \<leftarrow> gpr_get 3;
     whenM (threadPtr \<noteq> 0) (do {
       irqState \<leftarrow> OS__DisableInterrupts;
       try_catch (cancel_body W fuel threadPtr) (State_Monad.return ());
       _ \<leftarrow> OS__RestoreInterrupts irqState;
       State_Monad.return ()
     })
   }"

text \<open>Joining sleeps on the join queue unless the thread is dead, detached or already being joined.\<close>

definition thread_in_list :: "nat \<Rightarrow> u32 \<Rightarrow> ('z, bool) guest" where
  "thread_in_list fuel threadPtr = do {
     head \<leftarrow> Read32 kThreadListHeadAddr;
     loop fuel False (\<lambda>it.
       if it = 0 then State_Monad.return (Inr False)
       else if it = threadPtr then State_Monad.return (Inr True)
       else do { next \<leftarrow> Read32 (it + kThreadListNextOffset); State_Monad.return (Inl next) }) head
   }"

definition join_body :: "world \<Rightarrow> nat \<Rightarrow> u32 \<Rightarrow> u32 \<Rightarrow> u32 os" where
  "join_body W fuel threadPtr outExitValue = do {
     attributes \<leftarrow> Read16 (threadPtr + kThreadAttrOffset);
     state0 \<leftarrow> Read16 (threadPtr + kThreadStateOffset);
     joinHead \<leftarrow> Read32 (threadPtr + kThreadJoinQueueOffset);
     (gone, state) \<leftarrow>
       (if attributes AND 1 = 0 \<and> state0 \<noteq> kThreadStateMoribund \<and> joinHead = 0 then do {
          gpr_put 3 (threadPtr + kThreadJoinQueueOffset);
          OSSleepThread W fuel;
          state \<leftarrow> Read16 (threadPtr + kThreadStateOffset);
          foundInList \<leftarrow> (if state \<noteq> 0 then thread_in_list fuel threadPtr else State_Monad.return False);
          State_Monad.return (\<not> foundInList \<and> state \<noteq> kThreadStateMoribund, state)
        } else State_Monad.return (False, state0));
     (if \<not> gone \<and> state = kThreadStateMoribund then do {
        whenM (outExitValue \<noteq> 0) (do {
          v \<leftarrow> Read32 (threadPtr + kThreadExitValueOffset);
          Write32 outExitValue v
        });
        RemoveThreadFromList threadPtr;
        Write16 (threadPtr + kThreadStateOffset) 0;
        State_Monad.return 1
      } else State_Monad.return 0)
   }"

definition OSJoinThread :: "world \<Rightarrow> nat \<Rightarrow> unit os" where
  "OSJoinThread W fuel = do {
     threadPtr \<leftarrow> gpr_get 3;
     outExitValue \<leftarrow> gpr_get 4;
     (if threadPtr = 0 then gpr_put 3 0
      else do {
        irqState \<leftarrow> OS__DisableInterrupts;
        result \<leftarrow> try_catch (join_body W fuel threadPtr outExitValue) (State_Monad.return 0);
        _ \<leftarrow> OS__RestoreInterrupts irqState;
        gpr_put 3 result
      })
   }"

definition OSDetachThread :: "world \<Rightarrow> nat \<Rightarrow> unit os" where
  "OSDetachThread W fuel = do {
     threadPtr \<leftarrow> gpr_get 3;
     whenM (threadPtr \<noteq> 0) (do {
       irqState \<leftarrow> OS__DisableInterrupts;
       try_catch (do {
         attributes \<leftarrow> Read16 (threadPtr + kThreadAttrOffset);
         Write16 (threadPtr + kThreadAttrOffset) (attributes OR 1);
         state \<leftarrow> Read16 (threadPtr + kThreadStateOffset);
         whenM (state = kThreadStateMoribund) (do {
           RemoveThreadFromList threadPtr;
           Write16 (threadPtr + kThreadStateOffset) 0;
           MarkFiberThreadTerminated threadPtr 0
         });
         WakeThreadJoiners W fuel threadPtr
       }) (State_Monad.return ());
       _ \<leftarrow> OS__RestoreInterrupts irqState;
       State_Monad.return ()
     })
   }"

section \<open>Suspending and resuming\<close>

text \<open>The first suspension takes the thread off the queue it is in; a waiting thread is filed again behind
  everybody else.\<close>

definition suspend_first :: "world \<Rightarrow> nat \<Rightarrow> u32 \<Rightarrow> unit os" where
  "suspend_first W fuel threadPtr = do {
     state \<leftarrow> Read16 (threadPtr + kThreadStateOffset);
     (if state < 3 then
        (if state = kThreadStateReady then RemoveThreadFromQueue threadPtr
         else whenM (state \<noteq> 0) (do {
           Write32 kSchedulerReschedCounterAddr 1;
           Write16 (threadPtr + kThreadStateOffset) kThreadStateReady
         }))
      else whenM (state < 5) (do {
        queuePtr \<leftarrow> Read32 (threadPtr + kThreadQueueOffset);
        RemoveThreadFromQueue threadPtr;
        Write32 (threadPtr + kThreadPriorityOffset) (word_of_int kSuspendedWaitPriority);
        whenM (queuePtr \<noteq> 0) (InsertThreadIntoQueueByPriority fuel queuePtr threadPtr kSuspendedWaitPriority);
        mutex \<leftarrow> Read32 (threadPtr + kThreadMutexOffset);
        PropagateMutexOwnerPriority fuel mutex
      }));
     ini \<leftarrow> IsInitialized;
     whenM ini (SuspendGuestThread threadPtr);
     resched \<leftarrow> Read32 kSchedulerReschedCounterAddr;
     whenM (resched \<noteq> 0) (do { gpr_put 3 0; SelectThread W fuel })
   }"

definition suspend_body :: "world \<Rightarrow> nat \<Rightarrow> u32 \<Rightarrow> unit os" where
  "suspend_body W fuel threadPtr = do {
     suspendCount \<leftarrow> Read32 (threadPtr + kThreadSuspendOffset);
     Write32 (threadPtr + kThreadSuspendOffset) (suspendCount + 1);
     whenM (suspendCount = 0) (suspend_first W fuel threadPtr);
     gpr_put 3 suspendCount
   }"

definition OSSuspendThread :: "world \<Rightarrow> nat \<Rightarrow> unit os" where
  "OSSuspendThread W fuel = do {
     threadPtr \<leftarrow> gpr_get 3;
     (if threadPtr = 0 then gpr_put 3 0
      else do {
        irqState \<leftarrow> OS__DisableInterrupts;
        try_catch (suspend_body W fuel threadPtr) (gpr_put 3 0);
        _ \<leftarrow> OS__RestoreInterrupts irqState;
        State_Monad.return ()
      })
   }"

text \<open>Recomputing the priority and filing the thread on its run queue.\<close>

definition make_ready :: "nat \<Rightarrow> u32 \<Rightarrow> ('z, unit) guest" where
  "make_ready fuel threadPtr = do {
     priority \<leftarrow> ComputeThreadEffectivePriority fuel threadPtr;
     Write32 (threadPtr + kThreadPriorityOffset) (word_of_int priority);
     InsertThreadIntoQueueByPriority fuel (kThreadQueueArrayAddr + word_of_int priority * 8) threadPtr priority;
     Write32 kSchedulerReschedCounterAddr 1
   }"

definition resume_last :: "world \<Rightarrow> nat \<Rightarrow> u32 \<Rightarrow> unit os" where
  "resume_last W fuel threadPtr = do {
     CancelSleepTimer threadPtr;
     ClearOutstandingPark threadPtr;
     state \<leftarrow> Read16 (threadPtr + kThreadStateOffset);
     (if state = kThreadStateWaiting then do {
        queuePtr \<leftarrow> Read32 (threadPtr + kThreadQueueOffset);
        RemoveThreadFromQueue threadPtr;
        priority \<leftarrow> ComputeThreadEffectivePriority fuel threadPtr;
        Write32 (threadPtr + kThreadPriorityOffset) (word_of_int priority);
        whenM (queuePtr \<noteq> 0) (InsertThreadIntoQueueByPriority fuel queuePtr threadPtr priority);
        ini \<leftarrow> IsInitialized;
        whenM ini (SuspendGuestThread threadPtr);
        mutex \<leftarrow> Read32 (threadPtr + kThreadMutexOffset);
        PropagateMutexOwnerPriority fuel mutex
      }
      else if state = kThreadStateReady then do {
        make_ready fuel threadPtr;
        wake_fiber threadPtr
      }
      else do {
        dead \<leftarrow> IsTerminated threadPtr;
        whenM (state = kThreadStateRunning \<and> \<not> dead) (do {
          Write16 (threadPtr + kThreadStateOffset) kThreadStateReady;
          make_ready fuel threadPtr;
          ini \<leftarrow> IsInitialized;
          whenM ini (ResumeGuestThread threadPtr)
        })
      });
     resched \<leftarrow> Read32 kSchedulerReschedCounterAddr;
     whenM (resched \<noteq> 0) (do { gpr_put 3 0; SelectThread W fuel })
   }"

definition resume_body :: "world \<Rightarrow> nat \<Rightarrow> u32 \<Rightarrow> unit os" where
  "resume_body W fuel threadPtr = do {
     suspendCount \<leftarrow> Read32 (threadPtr + kThreadSuspendOffset);
     (let newSuspend = sint suspendCount - 1 in
        if newSuspend < 0 then Write32 (threadPtr + kThreadSuspendOffset) 0
        else do {
          Write32 (threadPtr + kThreadSuspendOffset) (word_of_int newSuspend);
          whenM (newSuspend = 0) (resume_last W fuel threadPtr)
        });
     gpr_put 3 suspendCount
   }"

definition OSResumeThread :: "world \<Rightarrow> nat \<Rightarrow> unit os" where
  "OSResumeThread W fuel = do {
     threadPtr \<leftarrow> gpr_get 3;
     (if threadPtr = 0 then gpr_put 3 0
      else do {
        irqState \<leftarrow> OS__DisableInterrupts;
        try_catch (resume_body W fuel threadPtr) (gpr_put 3 0);
        _ \<leftarrow> OS__RestoreInterrupts irqState;
        State_Monad.return ()
      })
   }"

end
