(* ===== verification/OsSuspend.thy ===== *)
theory OsSuspend
  imports OsLifecycle
begin

unbundle bit_operations_syntax

text \<open>
  Suspension is counted: sequences of \<open>OSSuspendThread\<close> and \<open>OSResumeThread\<close> calls on ready threads
  refine a table of suspension counts and run queues, in which a thread stands in the run queue of its
  priority exactly while its count is zero.  The calls are made with the scheduler disabled, so that
  no switch comes between them.
\<close>

section \<open>Changing one run queue\<close>

lemma field_not_in_frame:
  assumes "sched_layout T q" "x \<in> T" "f \<in> queue_fields - {kThreadNextOffset, kThreadPrevOffset}"
  shows "x + f \<notin> sched_frame q T"
proof -
  have l: "layout T queue_fields (sched_words \<union> rq_slots \<union> {q, q + 4})" using assms(1) by (simp add: sched_layout_def)
  have f: "f \<in> queue_fields" "f \<noteq> kThreadNextOffset" "f \<noteq> kThreadPrevOffset" using assms(3) by auto
  have "x + f \<notin> {q, q + 4, kSchedulerPendingFlagAddr} \<union> rq_slots"
    using layoutD(3) [OF l assms(2) f(1)] by (auto simp: sched_words_def)
  moreover have "x + f \<noteq> y + g" if "y \<in> T" "g \<in> {kThreadNextOffset, kThreadPrevOffset}" for y g
    using layoutD(5) [OF l assms(2) that(1) f(1), of g] f that(2) by auto
  ultimately show ?thesis by (auto simp: sched_frame_def fields_of_def)
qed

lemma idle_queue_not_rq: "sched_layout T q \<Longrightarrow> i < 32 \<Longrightarrow> rq_addr i \<noteq> q"
  using rq_slotsI(1) [of i] by (auto simp: sched_layout_def)

lemma sched_inv_update_queue:
  assumes L: "sched_layout T q" and inv: "sched_inv m q T [] rq" and p: "p < 32"
    and zs: "set zs \<subseteq> T" "\<forall>i<32. i \<noteq> p \<longrightarrow> set zs \<inter> set (rq i) = {}" and ys: "set ys \<subseteq> set zs"
    and q: "thread_queue m' (rq_addr p) ys" and fr: "\<forall>a. a \<notin> queue_words zs (rq_addr p) \<longrightarrow> m' a = m a"
    and bits: "\<forall>i<32. bit (m' kSchedulerPendingFlagAddr) (31 - i) =
      (if i = p then ys \<noteq> [] else bit (m kSchedulerPendingFlagAddr) (31 - i))"
  shows "sched_inv m' q T [] (rq(p := ys))"
proof -
  have I: "thread_queue m q []" "\<And>i. i < 32 \<Longrightarrow> thread_queue m (rq_addr i) (rq i)" "\<And>i. i < 32 \<Longrightarrow> set (rq i) \<subseteq> T"
    "\<And>i. i < 32 \<Longrightarrow> bit (m kSchedulerPendingFlagAddr) (31 - i) = (rq i \<noteq> [])"
    "\<And>i j. i < 32 \<Longrightarrow> j < 32 \<Longrightarrow> i \<noteq> j \<Longrightarrow> set (rq i) \<inter> set (rq j) = {}"
    using inv by (auto simp: sched_inv_def)
  have other: "thread_queue m' qa us = thread_queue m qa us"
    if "sched_queue q qa" "qa \<noteq> rq_addr p" "set us \<subseteq> T" "set zs \<inter> set us = {}" for qa us
  proof (rule thread_queue_frame)
    fix a assume "a \<in> list_words us kThreadNextOffset kThreadPrevOffset qa (qa + 4)"
    then have "a \<notin> queue_words zs (rq_addr p)"
      by (rule sched_queue_safe(3) [OF L that(1,3)]) (use that zs(1) p in auto)
    then show "m' a = m a" using fr by blast
  qed
  show ?thesis
    unfolding sched_inv_def
  proof (intro conjI allI impI)
    show "thread_queue m' q []" using other [of q "[]"] I(1) idle_queue_not_rq [OF L p] by simp
    fix i :: nat assume i: "i < 32"
    show "thread_queue m' (rq_addr i) ((rq(p := ys)) i)"
      using q other [of "rq_addr i" "rq i"] I(2,3) [OF i] i p zs(2) rq_addr_eq(1) [OF i p] by auto
    show "set ((rq(p := ys)) i) \<subseteq> T" using I(3) [OF i] zs(1) ys by auto
    show "bit (m' kSchedulerPendingFlagAddr) (31 - i) = ((rq(p := ys)) i \<noteq> [])" using bits I(4) [OF i] i by simp
    fix j :: nat assume j: "j < 32" "i \<noteq> j"
    show "set ((rq(p := ys)) i) \<inter> set ((rq(p := ys)) j) = {}"
      using I(5) [OF i j] zs(2) ys i j by auto
  qed (simp_all)
qed

section \<open>The table\<close>

text \<open>The threads \<open>T\<close>, of them the ready threads \<open>R\<close>, the states \<open>st\<close> of the others, the priorities \<open>pr\<close>, their suspension counts \<open>cnt\<close> and the run queues \<open>rq\<close>.\<close>

definition susp_rep :: "u32 \<Rightarrow> u32 \<Rightarrow> u32 set \<Rightarrow> u32 set \<Rightarrow> (u32 \<Rightarrow> u16) \<Rightarrow> (u32 \<Rightarrow> nat) \<Rightarrow> os_machine \<Rightarrow> (u32 \<Rightarrow> nat) \<Rightarrow> (nat \<Rightarrow> u32 list) \<Rightarrow> bool" where
  "susp_rep c q T R st pr s cnt rq \<longleftrightarrow> wii s \<and> sched_layout T q \<and> sched_inv (mem s) q T [] rq \<and> R \<subseteq> T \<and> finite R \<and>
     mem s kSchedulerIdleFlagAddr \<noteq> 0 \<and>
     mem s kOSCurrentContextAddr = c \<and> (c = 0 \<or> c \<in> T) \<and>
     (\<forall>t\<in>R. hi16 (mem s (t + kThreadStateOffset)) = kThreadStateReady \<and>
        mem s (t + kThreadSuspendOffset) = of_nat (cnt t) \<and> mem s (t + kThreadPriorityOffset) = of_nat (pr t) \<and>
        mem s (t + kThreadBasePriorityOffset) = of_nat (pr t) \<and> pr t < 32 \<and>
        mem s (t + kThreadMutexQueueOffset) = 0 \<and> (cnt t = 0) = (t \<in> set (rq (pr t)))) \<and>
     (\<forall>i<32. set (rq i) \<subseteq> R \<and> (\<forall>x\<in>set (rq i). pr x = i \<and> mem s (x + kThreadQueueOffset) = rq_addr i)) \<and>
     (\<forall>t\<in>T - R. hi16 (mem s (t + kThreadStateOffset)) = st t)"

datatype susp_op = Suspend u32 | Resume u32

fun susp_spec :: "(u32 \<Rightarrow> nat) \<Rightarrow> susp_op \<Rightarrow> (u32 \<Rightarrow> nat) \<times> (nat \<Rightarrow> u32 list) \<Rightarrow> (u32 \<Rightarrow> nat) \<times> (nat \<Rightarrow> u32 list)" where
  "susp_spec pr (Suspend t) (cnt, rq) = (cnt(t := cnt t + 1),
     if cnt t = 0 then rq(pr t := remove1 t (rq (pr t))) else rq)"
| "susp_spec pr (Resume t) (cnt, rq) = (cnt(t := cnt t - 1),
     if cnt t = 1 then rq(pr t := rq (pr t) @ [t]) else rq)"

fun susp_thread :: "susp_op \<Rightarrow> u32" where
  "susp_thread (Suspend t) = t" | "susp_thread (Resume t) = t"

fun susp_call :: "world \<Rightarrow> nat \<Rightarrow> susp_op \<Rightarrow> os_machine \<Rightarrow> os_machine" where
  "susp_call W fuel (Suspend t) s = snd (run_state (OSSuspendThread W fuel) (s\<lparr>cpu := (cpu s)\<lparr>gpr := (gpr (cpu s))(3 := t)\<rparr>\<rparr>))"
| "susp_call W fuel (Resume t) s = snd (run_state (OSResumeThread W fuel) (s\<lparr>cpu := (cpu s)\<lparr>gpr := (gpr (cpu s))(3 := t)\<rparr>\<rparr>))"

section \<open>Steps\<close>

text \<open>What a call about \<open>t\<close> may do to the sleep timers and the host clock: take out the timers of \<open>t\<close>, and
  read the clock.\<close>

definition timers_kept :: "u32 \<Rightarrow> os_machine \<Rightarrow> os_machine \<Rightarrow> bool" where
  "timers_kept t s s' \<longleftrightarrow> strand_scan_due s' = strand_scan_due s \<and>
     (\<exists>k. host_clock s' = (\<lambda>i. host_clock s (k + i))) \<and>
     (sleep_timers s' = sleep_timers s \<or> sleep_timers s' = filter (\<lambda>(x, deadline). x \<noteq> t) (sleep_timers s))"

lemma timers_keptI:
  assumes "strand_scan_due s' = strand_scan_due s" "host_clock s' = host_clock s"
    "sleep_timers s' = sleep_timers s \<or> sleep_timers s' = filter (\<lambda>(x, deadline). x \<noteq> t) (sleep_timers s)"
  shows "timers_kept t s s'"
  unfolding timers_kept_def by (intro conjI exI [of _ 0]) (use assms in simp_all)

lemma timers_kept_refl [simp]: "timers_kept t s s"
  by (simp add: timers_keptI)

lemma timers_kept_trans:
  assumes "timers_kept t s s'" "timers_kept t s' s''"
  shows "timers_kept t s s''"
proof -
  obtain k l where "host_clock s' = (\<lambda>i. host_clock s (k + i))" "host_clock s'' = (\<lambda>i. host_clock s' (l + i))"
    using assms by (auto simp: timers_kept_def)
  then have "host_clock s'' = (\<lambda>i. host_clock s ((k + l) + i))" by (simp add: add.assoc)
  then show ?thesis using assms unfolding timers_kept_def by auto
qed

lemma timers_kept_host:
  fixes s s' :: os_machine
  assumes "machine.more s' = machine.more s"
  shows "timers_kept t s s'"
  by (rule timers_keptI) (use assms in \<open>cases s; cases s'; simp\<close>)+

lemma timers_kept_updates [simp]:
  "timers_kept t (s\<lparr>cpu := c\<rparr>) s' = timers_kept t s s'" "timers_kept t s (s'\<lparr>cpu := c\<rparr>) = timers_kept t s s'"
  "timers_kept t (wr32 a v s) s' = timers_kept t s s'" "timers_kept t s (wr32 a v s') = timers_kept t s s'"
  by (simp_all add: timers_kept_def wr32_def)

text \<open>No timer comes due, and the reconciler has no scan to make, at any time the clock will be read.\<close>

definition calm :: "os_machine \<Rightarrow> bool" where
  "calm s \<longleftrightarrow> (\<forall>i. host_clock s i < strand_scan_due s \<and> (\<forall>x\<in>set (sleep_timers s). host_clock s i < snd x))"

lemma calm_kept:
  assumes "calm s" "timers_kept t s s'"
  shows "calm s'"
  unfolding calm_def
proof (intro allI conjI ballI)
  fix i
  obtain k where k: "host_clock s' = (\<lambda>i. host_clock s (k + i))" using assms(2) by (auto simp: timers_kept_def)
  show "host_clock s' i < strand_scan_due s'" using assms by (simp add: k calm_def timers_kept_def)
  fix x assume "x \<in> set (sleep_timers s')"
  then have "x \<in> set (sleep_timers s)" using assms(2) by (auto simp: timers_kept_def)
  then show "host_clock s' i < snd x" using assms(1) by (simp add: k calm_def)
qed

text \<open>What the pump of the sleep timers does then: it reads the clock.\<close>

definition calm_pump :: "world \<Rightarrow> bool" where
  "calm_pump W \<longleftrightarrow> (\<forall>s. wii s \<and> calm s \<longrightarrow>
     (\<exists>k. run_state (process_sleep_timers W) s = ((), s\<lparr>host_clock := (\<lambda>i. host_clock s (k + i))\<rparr>)))"

lemma calm_pumpD:
  assumes "calm_pump W" "wii s" "calm s"
  shows "\<exists>s'. run_state (process_sleep_timers W) s = ((), s') \<and> wii s' \<and> mem s' = mem s \<and> timers_kept t s s'"
proof -
  obtain k where k: "run_state (process_sleep_timers W) s = ((), s\<lparr>host_clock := (\<lambda>i. host_clock s (k + i))\<rparr>)"
    using assms unfolding calm_pump_def by blast
  let ?s = "s\<lparr>host_clock := (\<lambda>i. host_clock s (k + i))\<rparr>"
  have "wii ?s" using assms(2) by (simp add: wii_def)
  moreover have "mem ?s = mem s" by (rule mem_cong) simp
  moreover have "timers_kept t s ?s" by (auto simp: timers_kept_def)
  ultimately show ?thesis using k by blast
qed

lemma calm_pump_quiet: "calm_pump quiet_world"
proof -
  have "\<exists>k. s = s\<lparr>host_clock := (\<lambda>i. host_clock s (k + i))\<rparr>" for s :: os_machine
    by (rule exI [of _ 0]) simp
  then show ?thesis by (simp add: calm_pump_def quiet_world_def run_return)
qed

text \<open>With the scheduler disabled, and nothing to do for the sleep timers, \<open>SelectThread\<close> declines.\<close>

lemma run_select_disabled:
  assumes "wii s" "mem s kSchedulerIdleFlagAddr \<noteq> 0" "calm_pump W" "calm s"
  shows "\<exists>s'. run_state (SelectThread W fuel) s = ((), s') \<and> wii s' \<and> mem s' = mem s \<and> timers_kept t s s'"
proof -
  have ok: "word_ok kSchedulerIdleFlagAddr" by (simp add: sched_words_ok sched_words_def)
  obtain s1 where s1: "run_state (process_sleep_timers W) s = ((), s1)" "wii s1" "mem s1 = mem s" "timers_kept t s s1"
    using calm_pumpD [OF assms(3,1,4)] by blast
  have i: "1 \<le> mem s1 kSchedulerIdleFlagAddr"
    using assms(2) s1(3) by (simp add: word_le_nat_alt unat_gt_0 Suc_le_eq word_neq_0_conv)
  let ?s = "s1\<lparr>cpu := (cpu s1)\<lparr>gpr := (gpr (cpu s1))(3 := 0)\<rparr>\<rparr>"
  have "run_state (SelectThread W fuel) s = ((), ?s)"
    using s1(1,2) i ok by (simp add: SelectThread_def run_simps wii_fault)
  then show ?thesis using s1(2-4) by (intro exI [of _ ?s]) simp
qed

text \<open>The fiber bookkeeping of a suspension.\<close>

lemma run_suspend_fiber:
  assumes "wii s"
  shows "\<exists>s'. run_state (SuspendGuestThread t) s = ((), s') \<and> wii s' \<and> mem s' = mem s \<and> timers_kept t' s s'"
proof -
  define s' where "s' = (case fibers s t of
       None \<Rightarrow> s
     | Some f \<Rightarrow> s\<lparr>fibers := (fibers s)(t \<mapsto> f\<lparr>fiber_state := WAITING\<rparr>)\<rparr>)"
  have "run_state (SuspendGuestThread t) s = ((), s')"
    using assms by (simp add: SuspendGuestThread_def run_simps wii_fault s'_def)
  moreover have "wii s'" "bytes s' = bytes s" "timers_kept t' s s'"
    using assms by (auto simp: s'_def wii_def intro!: timers_keptI split: option.splits)
  ultimately show ?thesis using mem_cong [of s' s] by blast
qed

text \<open>The scheduler's own end of a call: switch if asked to, and it is declined.\<close>

lemma run_maybe_select:
  assumes "wii s" "mem s kSchedulerIdleFlagAddr \<noteq> 0" "calm_pump W" "calm s"
  shows "\<exists>s'. run_state (do { resched \<leftarrow> Read32 kSchedulerReschedCounterAddr;
      whenM (resched \<noteq> 0) (do { gpr_put 3 0; SelectThread W fuel }) }) s = ((), s') \<and> wii s' \<and> mem s' = mem s \<and> timers_kept t s s'"
proof -
  have ok: "word_ok kSchedulerReschedCounterAddr" by (simp add: sched_words_ok sched_words_def)
  let ?s = "s\<lparr>cpu := (cpu s)\<lparr>gpr := (gpr (cpu s))(3 := 0)\<rparr>\<rparr>"
  have "calm ?s" using assms(4) by (simp add: calm_def)
  then obtain s' where s': "run_state (SelectThread W fuel) ?s = ((), s')" "wii s'" "mem s' = mem s" "timers_kept t s s'"
    using run_select_disabled [of ?s W fuel t] assms(1-3) by auto
  show ?thesis
  proof (cases "mem s kSchedulerReschedCounterAddr = 0")
    case True
    then show ?thesis using assms(1) ok by (intro exI [of _ s]) (simp add: run_simps)
  next
    case False
    then show ?thesis using assms(1) ok s' by (intro exI [of _ s']) (simp add: run_simps wii_fault)
  qed
qed

lemma susp_repD:
  assumes "susp_rep c q T R st pr s cnt rq"
  shows "wii s" "sched_layout T q" "sched_inv (mem s) q T [] rq" "R \<subseteq> T" "mem s kSchedulerIdleFlagAddr \<noteq> 0"
    "mem s kOSCurrentContextAddr = c"
    "t \<in> R \<Longrightarrow> hi16 (mem s (t + kThreadStateOffset)) = kThreadStateReady"
    "t \<in> R \<Longrightarrow> mem s (t + kThreadSuspendOffset) = of_nat (cnt t)"
    "t \<in> R \<Longrightarrow> mem s (t + kThreadPriorityOffset) = of_nat (pr t)"
    "t \<in> R \<Longrightarrow> mem s (t + kThreadBasePriorityOffset) = of_nat (pr t)" "t \<in> R \<Longrightarrow> pr t < 32"
    "t \<in> R \<Longrightarrow> mem s (t + kThreadMutexQueueOffset) = 0" "t \<in> R \<Longrightarrow> (cnt t = 0) = (t \<in> set (rq (pr t)))"
    "i < 32 \<Longrightarrow> set (rq i) \<subseteq> R" "i < 32 \<Longrightarrow> x \<in> set (rq i) \<Longrightarrow> pr x = i"
    "i < 32 \<Longrightarrow> x \<in> set (rq i) \<Longrightarrow> mem s (x + kThreadQueueOffset) = rq_addr i"
    "c = 0 \<or> c \<in> T" "t \<in> T - R \<Longrightarrow> hi16 (mem s (t + kThreadStateOffset)) = st t"
  using assms unfolding susp_rep_def by blast+

text \<open>The words the table is about: a state that agrees on them represents the same table.\<close>

definition susp_words :: "u32 \<Rightarrow> u32 set \<Rightarrow> u32 set" where
  "susp_words q T = sched_frame q T \<union> {kSchedulerIdleFlagAddr, kOSCurrentContextAddr} \<union>
     fields_of T {kThreadStateOffset, kThreadSuspendOffset, kThreadPriorityOffset, kThreadBasePriorityOffset,
       kThreadMutexQueueOffset, kThreadQueueOffset}"

lemma susp_rep_frame:
  assumes r: "susp_rep c q T R st pr s cnt rq" and "wii s'" and fr: "\<And>a. a \<in> susp_words q T \<Longrightarrow> mem s' a = mem s a"
  shows "susp_rep c q T R st pr s' cnt rq"
proof -
  note D = susp_repD [OF r]
  have "sched_inv (mem s') q T [] rq"
    by (rule sched_inv_frame [OF D(3)]) (use fr in \<open>auto simp: susp_words_def\<close>)
  moreover have "mem s' (t + f) = mem s (t + f)"
    if "t \<in> R" "f \<in> {kThreadStateOffset, kThreadSuspendOffset, kThreadPriorityOffset, kThreadBasePriorityOffset,
       kThreadMutexQueueOffset, kThreadQueueOffset}" for t f
  proof (rule fr)
    have "t \<in> T" using D(4) that(1) by blast
    then show "t + f \<in> susp_words q T" using that(2) unfolding susp_words_def by (intro UnI2 fields_ofI)
  qed
  moreover have "mem s' kSchedulerIdleFlagAddr = mem s kSchedulerIdleFlagAddr"
    "mem s' kOSCurrentContextAddr = mem s kOSCurrentContextAddr"
    by (rule fr; simp add: susp_words_def)+
  moreover have "x \<in> R" if "i < 32" "x \<in> set (rq i)" for i x using D(14) that by blast
  moreover have "mem s' (t + kThreadStateOffset) = mem s (t + kThreadStateOffset)" if "t \<in> T - R" for t
    by (rule fr) (use that in \<open>simp add: susp_words_def fields_ofI\<close>)
  ultimately show ?thesis using r assms(2) unfolding susp_rep_def by simp
qed

text \<open>What a change of the run queue of one thread leaves alone.\<close>

lemma splice_frame:
  assumes L: "sched_layout T q" and p: "p < 32" and zs: "set zs \<subseteq> T" and t: "t \<in> T"
    and tch: "touches (splice_words zs t (rq_addr p)) s s'"
  shows "y \<in> T \<Longrightarrow> f \<in> queue_fields - {kThreadNextOffset, kThreadPrevOffset} \<Longrightarrow> f \<noteq> kThreadQueueOffset \<or> y \<noteq> t \<Longrightarrow>
      mem s' (y + f) = mem s (y + f)"
    "a \<in> sched_words \<Longrightarrow> a \<noteq> kSchedulerPendingFlagAddr \<Longrightarrow> mem s' a = mem s a"
proof -
  show "mem s' (y + f) = mem s (y + f)" if "y \<in> T" "f \<in> queue_fields - {kThreadNextOffset, kThreadPrevOffset}"
    "f \<noteq> kThreadQueueOffset \<or> y \<noteq> t"
    by (rule touches_mem [OF tch not_in_splice_words [OF sched_layoutD(2) [OF L p]]]) (use that zs t in auto)
  show "mem s' a = mem s a" if a: "a \<in> sched_words" "a \<noteq> kSchedulerPendingFlagAddr"
  proof (rule touches_mem [OF tch])
    have "a \<notin> list_words zs kThreadNextOffset kThreadPrevOffset (rq_addr p) (rq_addr p + 4)"
      using sched_queue_safe(1) [OF L _ zs, of "rq_addr p" a] p a(1) by auto
    moreover have "a \<noteq> t + kThreadQueueOffset" using sched_layoutD(4) [OF L t, of kThreadQueueOffset] a(1) by auto
    ultimately show "a \<notin> splice_words zs t (rq_addr p)" using a(2) by (simp add: splice_words_def)
  qed
qed

lemma offsets_ne_suspend:
  "kThreadStateOffset \<noteq> kThreadSuspendOffset" "kThreadPriorityOffset \<noteq> kThreadSuspendOffset"
  "kThreadBasePriorityOffset \<noteq> kThreadSuspendOffset" "kThreadMutexQueueOffset \<noteq> kThreadSuspendOffset"
  "kThreadQueueOffset \<noteq> kThreadSuspendOffset" "kThreadBasePriorityOffset \<noteq> kThreadNextOffset"
  "kThreadBasePriorityOffset \<noteq> kThreadPrevOffset" "kThreadMutexQueueOffset \<noteq> kThreadNextOffset"
  "kThreadMutexQueueOffset \<noteq> kThreadPrevOffset" "kThreadBasePriorityOffset \<noteq> kThreadQueueOffset"
  "kThreadMutexQueueOffset \<noteq> kThreadQueueOffset" "kThreadPriorityOffset \<noteq> kThreadMutexQueueOffset"
  "kThreadPriorityOffset \<noteq> kThreadBasePriorityOffset" "kThreadStateOffset \<noteq> kThreadQueueOffset"
  by (simp_all add: thread_offsets)

text \<open>The table after a call: the count of one thread changed, and its run queue.\<close>

lemma susp_rep_step:
  assumes r: "susp_rep c q T R st pr s cnt rq" and t: "t \<in> R" and w: "wii s'"
    and inv: "sched_inv (mem s') q T [] (rq(pr t := ys))"
    and cnt: "mem s' (t + kThreadSuspendOffset) = of_nat n" "(n = 0) = (t \<in> set ys)"
    and ys: "set ys - {t} = set (rq (pr t)) - {t}" "t \<in> set ys \<Longrightarrow> mem s' (t + kThreadQueueOffset) = rq_addr (pr t)"
    and fr: "\<And>y f. y \<in> T \<Longrightarrow> f \<in> {kThreadStateOffset, kThreadPriorityOffset, kThreadBasePriorityOffset, kThreadMutexQueueOffset} \<Longrightarrow>
      mem s' (y + f) = mem s (y + f)"
    and fr2: "\<And>y f. y \<in> T \<Longrightarrow> y \<noteq> t \<Longrightarrow> f \<in> {kThreadSuspendOffset, kThreadQueueOffset} \<Longrightarrow> mem s' (y + f) = mem s (y + f)"
    and k: "mem s' kSchedulerIdleFlagAddr = mem s kSchedulerIdleFlagAddr" "mem s' kOSCurrentContextAddr = mem s kOSCurrentContextAddr"
  shows "susp_rep c q T R st pr s' (cnt(t := n)) (rq(pr t := ys))"
proof -
  note D = susp_repD [OF r]
  have ys': "x \<in> R \<and> pr x = pr t \<and> (x = t \<or> x \<in> set (rq (pr t)))" if "x \<in> set ys" for x
  proof (cases "x = t")
    case False
    then have "x \<in> set (rq (pr t))" using that ys(1) by blast
    then show ?thesis using D(14,15) [OF D(11) [OF t]] by blast
  qed (use t in simp)
  have mem_ys: "(y \<in> set ys) = (y \<in> set (rq (pr t)))" if "y \<noteq> t" for y using ys(1) that by blast
  have A: "\<forall>y\<in>R. hi16 (mem s' (y + kThreadStateOffset)) = kThreadStateReady \<and>
        mem s' (y + kThreadSuspendOffset) = of_nat ((cnt(t := n)) y) \<and> mem s' (y + kThreadPriorityOffset) = of_nat (pr y) \<and>
        mem s' (y + kThreadBasePriorityOffset) = of_nat (pr y) \<and> pr y < 32 \<and>
        mem s' (y + kThreadMutexQueueOffset) = 0 \<and> ((cnt(t := n)) y = 0) = (y \<in> set ((rq(pr t := ys)) (pr y)))"
  proof
    fix y assume y: "y \<in> R"
    then have yT: "y \<in> T" using D(4) by blast
    have "mem s' (y + kThreadSuspendOffset) = of_nat ((cnt(t := n)) y)"
      using fr2 [OF yT, of kThreadSuspendOffset] D(8) [OF y] cnt(1) by (cases "y = t") auto
    moreover have "((cnt(t := n)) y = 0) = (y \<in> set ((rq(pr t := ys)) (pr y)))"
      using D(13) [OF y] cnt(2) mem_ys [of y] by (cases "y = t") auto
    ultimately show "hi16 (mem s' (y + kThreadStateOffset)) = kThreadStateReady \<and>
        mem s' (y + kThreadSuspendOffset) = of_nat ((cnt(t := n)) y) \<and> mem s' (y + kThreadPriorityOffset) = of_nat (pr y) \<and>
        mem s' (y + kThreadBasePriorityOffset) = of_nat (pr y) \<and> pr y < 32 \<and>
        mem s' (y + kThreadMutexQueueOffset) = 0 \<and> ((cnt(t := n)) y = 0) = (y \<in> set ((rq(pr t := ys)) (pr y)))"
      using fr [OF yT] D(7,9-12) [OF y] by simp
  qed
  have B: "\<forall>i<32. set ((rq(pr t := ys)) i) \<subseteq> R \<and> (\<forall>x\<in>set ((rq(pr t := ys)) i). pr x = i \<and> mem s' (x + kThreadQueueOffset) = rq_addr i)"
  proof (intro allI impI)
    fix i :: nat assume i: "i < 32"
    have bk: "mem s' (x + kThreadQueueOffset) = rq_addr i" if "x \<in> set (rq i)" "x \<noteq> t" for x
    proof -
      have "x \<in> T" using D(14) [OF i] D(4) that(1) by blast
      then show ?thesis using fr2 [of x kThreadQueueOffset] that(2) D(16) [OF i that(1)] by simp
    qed
    show "set ((rq(pr t := ys)) i) \<subseteq> R \<and> (\<forall>x\<in>set ((rq(pr t := ys)) i). pr x = i \<and> mem s' (x + kThreadQueueOffset) = rq_addr i)"
    proof (cases "i = pr t")
      case True
      have "\<forall>x\<in>set ys. x \<in> R \<and> pr x = i \<and> mem s' (x + kThreadQueueOffset) = rq_addr i"
        using ys' bk ys(2) True by metis
      then show ?thesis using True by auto
    next
      case False
      have "x \<noteq> t" if "x \<in> set (rq i)" for x using D(15) [OF i that] False by auto
      then show ?thesis using False D(14,15) [OF i] bk by auto
    qed
  qed
  have fin: "finite R" using r by (simp add: susp_rep_def)
  have idle: "mem s' kSchedulerIdleFlagAddr \<noteq> 0" and cur: "mem s' kOSCurrentContextAddr = c"
    using k D(5,6) by simp_all
  have others: "\<forall>y\<in>T - R. hi16 (mem s' (y + kThreadStateOffset)) = st y" using fr D(18) by simp
  show ?thesis unfolding susp_rep_def by (intro conjI w D(2) inv D(4) fin idle cur D(17) A B others)
qed

lemma suspend_count_word:
  assumes "susp_rep c q T R st pr s cnt rq" "t \<in> R"
  shows "wii (wr32 (t + kThreadSuspendOffset) v s)"
    "mem (wr32 (t + kThreadSuspendOffset) v s) = (mem s)(t + kThreadSuspendOffset := v)"
    "sched_inv (mem (wr32 (t + kThreadSuspendOffset) v s)) q T [] rq"
    "y \<in> T \<Longrightarrow> f \<in> queue_fields \<Longrightarrow> f \<noteq> kThreadSuspendOffset \<or> y \<noteq> t \<Longrightarrow> mem (wr32 (t + kThreadSuspendOffset) v s) (y + f) = mem s (y + f)"
    "a \<in> sched_words \<Longrightarrow> mem (wr32 (t + kThreadSuspendOffset) v s) a = mem s a"
proof -
  note D = susp_repD [OF assms(1)]
  have t: "t \<in> T" using D(4) assms(2) by blast
  have l: "layout T queue_fields (sched_words \<union> rq_slots \<union> {q, q + 4})" using D(2) by (simp add: sched_layout_def)
  have ok: "word_ok (t + kThreadSuspendOffset)" by (rule sched_layoutD(5) [OF D(2) t]) simp
  show m: "mem (wr32 (t + kThreadSuspendOffset) v s) = (mem s)(t + kThreadSuspendOffset := v)" using ok by simp
  show "wii (wr32 (t + kThreadSuspendOffset) v s)" using D(1) by simp
  have o: "kThreadSuspendOffset \<in> queue_fields - {kThreadNextOffset, kThreadPrevOffset}" by simp
  show "sched_inv (mem (wr32 (t + kThreadSuspendOffset) v s)) q T [] rq"
    by (rule sched_inv_frame [OF D(3)]) (use field_not_in_frame [OF D(2) t o] m in auto)
  show "y \<in> T \<Longrightarrow> f \<in> queue_fields \<Longrightarrow> f \<noteq> kThreadSuspendOffset \<or> y \<noteq> t \<Longrightarrow> mem (wr32 (t + kThreadSuspendOffset) v s) (y + f) = mem s (y + f)"
    using layoutD(5) [OF l, of y t f kThreadSuspendOffset] t by (auto simp: m)
  show "a \<in> sched_words \<Longrightarrow> mem (wr32 (t + kThreadSuspendOffset) v s) a = mem s a"
    using layoutD(4) [OF l t, of kThreadSuspendOffset a] by (auto simp: m)
qed

lemma of_nat_zero_iff: "n < 2147483648 \<Longrightarrow> ((of_nat n :: u32) = 0) = (n = 0)"
proof -
  assume "n < 2147483648"
  then have u: "unat (of_nat n :: u32) = n" by (simp add: unat_of_nat take_bit_nat_eq_self_iff take_bit_nat_eq_self)
  show ?thesis
  proof
    assume "(of_nat n :: u32) = 0"
    then have "unat (of_nat n :: u32) = 0" by (simp only: unat_0)
    then show "n = 0" using u by (simp only:)
  qed simp
qed

lemma sint_count: "n < 2147483648 \<Longrightarrow> sint (of_nat n :: u32) = int n"
  using sint_word_of_int_eq_iff [of "int n"] by simp

text \<open>A call that leaves the thread suspended, or finds it running.\<close>

lemma susp_rep_count:
  assumes r: "susp_rep c q T R st pr s cnt rq" and t: "t \<in> R" and n: "(n = 0) = (cnt t = 0)"
  shows "susp_rep c q T R st pr (wr32 (t + kThreadSuspendOffset) (of_nat n) s) (cnt(t := n)) rq"
proof -
  note D = susp_repD [OF r]
  note S1 = suspend_count_word [OF r t, where v = "of_nat n"]
  let ?s = "wr32 (t + kThreadSuspendOffset) (of_nat n) s" and ?p = "pr t"
  have tT: "t \<in> T" using D(4) t by blast
  have p: "?p < 32" by (rule D(11) [OF t])
  have "susp_rep c q T R st pr ?s (cnt(t := n)) (rq(?p := rq ?p))"
  proof (rule susp_rep_step [OF r t S1(1)])
    show "sched_inv (mem ?s) q T [] (rq(?p := rq ?p))" using S1(3) by simp
    show "(n = 0) = (t \<in> set (rq ?p))" using D(13) [OF t] n by simp
    show "mem ?s (t + kThreadSuspendOffset) = of_nat n" using S1(2) by simp
    show "t \<in> set (rq ?p) \<Longrightarrow> mem ?s (t + kThreadQueueOffset) = rq_addr ?p"
      using S1(4) [OF tT, of kThreadQueueOffset] D(16) [OF p] by (simp add: offsets_ne_suspend)
    show "mem ?s (y + f) = mem s (y + f)"
      if "y \<in> T" "f \<in> {kThreadStateOffset, kThreadPriorityOffset, kThreadBasePriorityOffset, kThreadMutexQueueOffset}" for y f
      using S1(4) [OF that(1), of f] that(2) by (auto simp: offsets_ne_suspend)
    show "mem ?s (y + f) = mem s (y + f)" if "y \<in> T" "y \<noteq> t" "f \<in> {kThreadSuspendOffset, kThreadQueueOffset}" for y f
      using S1(4) [OF that(1), of f] that(2,3) by auto
  qed (use S1(5) in \<open>simp_all add: sched_words_def\<close>)
  then show ?thesis by simp
qed

text \<open>A call ends by returning the old count.\<close>

lemma susp_return:
  assumes "run_state X s1 = ((), s2)" "susp_rep c q T R st pr s2 cnt rq" "timers_kept t s s2"
  shows "\<exists>s'. run_state (do { X; gpr_put 3 n }) s1 = ((), s') \<and> wii s' \<and> gpr (cpu s') 3 = n \<and>
    susp_rep c q T R st pr s' cnt rq \<and> timers_kept t s s'"
proof -
  let ?s = "s2\<lparr>cpu := (cpu s2)\<lparr>gpr := (gpr (cpu s2))(3 := n)\<rparr>\<rparr>"
  have w: "wii s2" using assms(2) by (simp add: susp_rep_def)
  have "susp_rep c q T R st pr ?s cnt rq" by (rule susp_rep_frame [OF assms(2)]) (use w in simp_all)
  then show ?thesis using assms(1,3) w by (intro exI [of _ ?s]) (simp add: run_simps wii_fault)
qed

lemma run_suspend_body:
  assumes r: "susp_rep c q T R st pr s cnt rq" and t: "t \<in> R" and n: "cnt t < 2147483648"
    and W: "calm_pump W" and calm: "calm s"
  shows "\<exists>s'. run_state (suspend_body W fuel t) s = ((), s') \<and> wii s' \<and> gpr (cpu s') 3 = of_nat (cnt t) \<and>
    susp_rep c q T R st pr s' (cnt(t := cnt t + 1)) (if cnt t = 0 then rq(pr t := remove1 t (rq (pr t))) else rq) \<and>
    timers_kept t s s'"
proof -
  note D = susp_repD [OF r]
  have tT: "t \<in> T" using D(4) t by blast
  let ?p = "pr t"
  have p: "?p < 32" by (rule D(11) [OF t])
  define s1 where "s1 = wr32 (t + kThreadSuspendOffset) (of_nat (cnt t) + 1) s"
  note S1 = suspend_count_word [OF r t, where v = "of_nat (cnt t) + 1", folded s1_def]
  have sok: "word_ok (t + kThreadSuspendOffset)" by (rule sched_layoutD(5) [OF D(2) tT]) simp
  have m1: "mem s1 (t + kThreadSuspendOffset) = of_nat (cnt t + 1)" using S1(2) by (simp add: add.commute)
  have start: "run_state (suspend_body W fuel t) s = run_state (do { whenM (cnt t = 0) (suspend_first W fuel t); gpr_put 3 (of_nat (cnt t)) }) s1"
    unfolding suspend_body_def using D(1) sok D(8) [OF t] of_nat_zero_iff [OF n] by (simp add: run_simps s1_def)
  show ?thesis
  proof (cases "cnt t = 0")
    case False
    have "susp_rep c q T R st pr s1 (cnt(t := cnt t + 1)) rq"
      using susp_rep_count [OF r t, of "cnt t + 1"] False by (simp add: s1_def add.commute)
    from susp_return [OF _ this, of "State_Monad.return ()" s1 t s] show ?thesis
      unfolding start using False by (simp add: run_simps s1_def)
  next
    case True
    then have "t \<in> set (rq ?p)" using D(13) [OF t] by simp
    then obtain as bs where ab: "rq ?p = as @ t # bs" by (meson split_list)
    have sub: "set (rq ?p) \<subseteq> T" using D(14) [OF p] D(4) by blast
    have I1: "thread_queue (mem s1) (rq_addr ?p) (rq ?p)" using S1(3) p by (simp add: sched_inv_def)
    have dst: "distinct (rq ?p)" using I1 by (simp add: dlist_def)
    then have rem: "remove1 t (rq ?p) = as @ bs" and nt: "t \<notin> set (as @ bs)" by (auto simp: ab remove1_append)
    have lay: "queue_layout (rq_addr ?p) (set (rq ?p))" by (rule queue_layout_mono [OF sched_layoutD(2) [OF D(2) p] sub])
    have q1: "mem s1 (t + kThreadQueueOffset) = rq_addr ?p"
      using S1(4) [OF tT, of kThreadQueueOffset] D(16) [OF p] ab by (simp add: offsets_ne_suspend)
    have nz: "rq_addr ?p \<noteq> 0" using rq_addr_ok(1) [OF p] by (auto simp: word_ok_def cached_def)
    obtain s2 where s2: "run_state (RemoveThreadFromQueue t) s1 = ((), s2)"
      "touches (queue_words (rq ?p) (rq_addr ?p)) s1 s2" "touches (splice_words (rq ?p) t (rq_addr ?p)) s1 s2"
      "thread_queue (mem s2) (rq_addr ?p) (as @ bs)"
      "mem s2 kSchedulerPendingFlagAddr = (if is_run_queue (rq_addr ?p) \<and> as @ bs = []
         then mem s1 kSchedulerPendingFlagAddr AND NOT (push_bit (31 - run_queue_index (rq_addr ?p)) 1)
         else mem s1 kSchedulerPendingFlagAddr)"
      using remove_from_queue_correct [OF S1(1) I1 [unfolded ab] lay [unfolded ab] q1 nz] unfolding ab by blast
    have w2: "wii s2" by (rule touches_wii [OF s2(2) S1(1)])
    note F = splice_frame [OF D(2) p sub tT s2(3)]
    have bits1: "bit (mem s1 kSchedulerPendingFlagAddr) (31 - i) = (rq i \<noteq> [])" if "i < 32" for i
      using S1(3) that by (simp add: sched_inv_def)
    have inv2: "sched_inv (mem s2) q T [] (rq(?p := as @ bs))"
    proof (rule sched_inv_update_queue [OF D(2) S1(3) p sub _ _ s2(4)])
      show "\<forall>i<32. i \<noteq> ?p \<longrightarrow> set (rq ?p) \<inter> set (rq i) = {}" using S1(3) p by (simp add: sched_inv_def)
      show "set (as @ bs) \<subseteq> set (rq ?p)" by (auto simp: ab)
      show "\<forall>a. a \<notin> queue_words (rq ?p) (rq_addr ?p) \<longrightarrow> mem s2 a = mem s1 a" using touches_mem [OF s2(2)] by blast
      show "\<forall>i<32. bit (mem s2 kSchedulerPendingFlagAddr) (31 - i) =
          (if i = ?p then as @ bs \<noteq> [] else bit (mem s1 kSchedulerPendingFlagAddr) (31 - i))"
      proof (intro allI impI)
        fix i :: nat assume i: "i < 32"
        have "rq ?p \<noteq> []" by (simp add: ab)
        then show "bit (mem s2 kSchedulerPendingFlagAddr) (31 - i) =
            (if i = ?p then as @ bs \<noteq> [] else bit (mem s1 kSchedulerPendingFlagAddr) (31 - i))"
          using s2(5) rq_addr_index [OF p] bits1 [OF p] i p by (auto simp: bit_simps)
      qed
    qed
    have rep2: "susp_rep c q T R st pr s2 (cnt(t := cnt t + 1)) (rq(?p := as @ bs))"
    proof (rule susp_rep_step [OF r t w2 inv2])
      show "mem s2 (t + kThreadSuspendOffset) = of_nat (cnt t + 1)" using F(1) [OF tT, of kThreadSuspendOffset] m1 by simp
      show "(cnt t + 1 = 0) = (t \<in> set (as @ bs))" using nt by simp
      show "set (as @ bs) - {t} = set (rq ?p) - {t}" using nt by (auto simp: ab)
      show "t \<in> set (as @ bs) \<Longrightarrow> mem s2 (t + kThreadQueueOffset) = rq_addr ?p" using nt by simp
      show "mem s2 (y + f) = mem s (y + f)"
        if "y \<in> T" "f \<in> {kThreadStateOffset, kThreadPriorityOffset, kThreadBasePriorityOffset, kThreadMutexQueueOffset}" for y f
        using F(1) [OF that(1), of f] S1(4) [OF that(1), of f] that(2) by (auto simp: offsets_ne_suspend)
      show "mem s2 (y + f) = mem s (y + f)" if "y \<in> T" "y \<noteq> t" "f \<in> {kThreadSuspendOffset, kThreadQueueOffset}" for y f
        using F(1) [OF that(1), of f] S1(4) [OF that(1), of f] that(2,3) by auto
      show "mem s2 kSchedulerIdleFlagAddr = mem s kSchedulerIdleFlagAddr" "mem s2 kOSCurrentContextAddr = mem s kOSCurrentContextAddr"
        using F(2) S1(5) by (auto simp: sched_words_def kernel_words)
    qed
    obtain s3 where s3: "run_state (do { ini \<leftarrow> IsInitialized; whenM ini (SuspendGuestThread t) }) s2 = ((), s3)" "wii s3" "mem s3 = mem s2"
      "timers_kept t s2 s3"
      using run_suspend_fiber [OF w2, of t t] w2 by (cases "fibers_initialized s2") (auto simp: IsInitialized_def run_simps)
    have k3: "timers_kept t s s3"
      using timers_kept_host [OF touches_host(3) [OF s2(2)], of t] s3(4) timers_kept_trans
      by (metis s1_def timers_kept_updates(3))
    have idle3: "mem s3 kSchedulerIdleFlagAddr \<noteq> 0" using susp_repD(5) [OF rep2] s3(3) by simp
    obtain s4 where s4: "run_state (do { resched \<leftarrow> Read32 kSchedulerReschedCounterAddr;
      whenM (resched \<noteq> 0) (do { gpr_put 3 0; SelectThread W fuel }) }) s3 = ((), s4)" "wii s4" "mem s4 = mem s3" "timers_kept t s3 s4"
      using run_maybe_select [OF s3(2) idle3 W calm_kept [OF calm k3]] by blast
    have "run_state (suspend_first W fuel t) s1 = ((), s4)"
    proof -
      have rs: "word_ok kSchedulerReschedCounterAddr" by (simp add: sched_words_ok sched_words_def)
      have st: "hi16 (mem s1 (t + kThreadStateOffset)) = kThreadStateReady"
        using S1(4) [OF tT, of kThreadStateOffset] D(7) [OF t] by (simp add: offsets_ne_suspend)
      have ok: "word_ok (t + kThreadStateOffset)" by (rule sched_layoutD(5) [OF D(2) tT]) simp
      have rd: "run_state (Read16 (t + kThreadStateOffset)) s1 = (kThreadStateReady, s1)"
        using run_read16 [OF S1(1) ok] st by simp
      show ?thesis
        unfolding suspend_first_def
        using rd s2(1) s3(1,2) s4(1) w2 rs by (simp add: run_simps wii_fault kThreadStateReady_def IsInitialized_def)
    qed
    moreover have "susp_rep c q T R st pr s4 (cnt(t := cnt t + 1)) (rq(?p := as @ bs))"
      by (rule susp_rep_frame [OF rep2 s4(2)]) (simp add: s4(3) s3(3))
    moreover have "timers_kept t s s4" by (rule timers_kept_trans [OF k3 s4(4)])
    ultimately show ?thesis
      unfolding start rem using True susp_return [of "suspend_first W fuel t"] by (simp add: run_whenM whenM_def)
  qed
qed

text \<open>Resuming the last level: recomputing the priority changes nothing for a thread that owns no mutex,
  and filing it by priority among its equals is appending.\<close>

lemma insert_among_equals:
  assumes "\<forall>y\<in>set xs. key y = k"
  shows "insert_by key k x xs = xs @ [x]"
proof -
  have "takeWhile (\<lambda>y. key y \<le> k) xs = xs" "dropWhile (\<lambda>y. key y \<le> k) xs = []"
    using assms by simp_all
  then show ?thesis by (simp add: insert_by_def)
qed

lemma run_make_ready:
  assumes w: "wii s" and L: "sched_layout T q" and inv: "sched_inv (mem s) q T [] rq" and t: "t \<in> T" and p: "p < 32"
    and pr: "mem s (t + kThreadPriorityOffset) = of_nat p" "mem s (t + kThreadBasePriorityOffset) = of_nat p"
      "mem s (t + kThreadMutexQueueOffset) = 0"
    and out: "\<forall>i<32. t \<notin> set (rq i)" and eq: "\<forall>x\<in>set (rq p). prio_of (mem s) x = int p" and f: "length (rq p) < fuel"
  shows "\<exists>s' s2. run_state (make_ready fuel t) s = ((), s') \<and> wii s' \<and> sched_inv (mem s') q T [] (rq(p := rq p @ [t])) \<and>
    mem s' (t + kThreadQueueOffset) = rq_addr p \<and> touches (splice_words (t # rq p) t (rq_addr p)) s s2 \<and>
    mem s' = (mem s2)(kSchedulerReschedCounterAddr := 1) \<and> machine.more s' = machine.more s"
proof -
  have ok: "word_ok (t + f)" if "f \<in> queue_fields" for f by (rule sched_layoutD(5) [OF L t that])
  have rs: "word_ok kSchedulerReschedCounterAddr" by (simp add: sched_words_ok sched_words_def)
  have sp: "sint (of_nat p :: u32) = int p" using sint_count [of p] p by simp
  have eff: "run_state (ComputeThreadEffectivePriority fuel t) s = (int p, s)"
  proof -
    obtain n where "fuel = Suc n" using f by (cases fuel) auto
    then show ?thesis using w ok pr sp by (simp add: ComputeThreadEffectivePriority_def priority_round_def run_simps)
  qed
  define s1 where "s1 = wr32 (t + kThreadPriorityOffset) (of_nat p) s"
  have m1: "mem s1 = mem s" using ok [of kThreadPriorityOffset] pr(1) by (simp add: s1_def fun_upd_idem)
  have w1: "wii s1" using w by (simp add: s1_def)
  have I: "thread_queue (mem s1) (rq_addr p) (rq p)" "set (rq p) \<subseteq> T" using inv p by (simp_all add: m1 sched_inv_def)
  have sub: "set (t # rq p) \<subseteq> T" using I(2) t by simp
  have lay: "queue_layout (rq_addr p) (set (t # rq p))" by (rule queue_layout_mono [OF sched_layoutD(2) [OF L p] sub])
  have t0: "t \<noteq> 0" using t sched_layoutD(3) [OF L] by auto
  have nt: "t \<notin> set (rq p)" using out p by blast
  obtain s2 where s2: "run_state (InsertThreadIntoQueueByPriority fuel (rq_addr p) t (int p)) s1 = ((), s2)"
    "touches (queue_words (t # rq p) (rq_addr p)) s1 s2" "touches (splice_words (t # rq p) t (rq_addr p)) s1 s2"
    "thread_queue (mem s2) (rq_addr p) (insert_by (prio_of (mem s1)) (int p) t (rq p))"
    "mem s2 (t + kThreadQueueOffset) = rq_addr p"
    "mem s2 kSchedulerPendingFlagAddr = (if is_run_queue (rq_addr p)
       then mem s1 kSchedulerPendingFlagAddr OR push_bit (31 - run_queue_index (rq_addr p)) 1
       else mem s1 kSchedulerPendingFlagAddr)"
    using insert_by_priority_correct [OF w1 I(1) lay nt t0 f, of "int p"] by blast
  have w2: "wii s2" by (rule touches_wii [OF s2(2) w1])
  have app: "insert_by (prio_of (mem s1)) (int p) t (rq p) = rq p @ [t]"
    by (rule insert_among_equals) (use eq m1 in simp)
  have pf: "mem s2 kSchedulerPendingFlagAddr = mem s kSchedulerPendingFlagAddr OR push_bit (31 - p) 1"
    using s2(6) rq_addr_index [OF p] m1 by simp
  have inv2: "sched_inv (mem s2) q T [] (rq(p := rq p @ [t]))"
  proof (rule sched_inv_update_queue [OF L inv p sub])
    show "\<forall>i<32. i \<noteq> p \<longrightarrow> set (t # rq p) \<inter> set (rq i) = {}" using inv out p by (auto simp: sched_inv_def)
    show "set (rq p @ [t]) \<subseteq> set (t # rq p)" by auto
    show "thread_queue (mem s2) (rq_addr p) (rq p @ [t])" using s2(4) app by simp
    show "\<forall>a. a \<notin> queue_words (t # rq p) (rq_addr p) \<longrightarrow> mem s2 a = mem s a" using touches_mem [OF s2(2)] m1 by simp
    show "\<forall>i<32. bit (mem s2 kSchedulerPendingFlagAddr) (31 - i) =
        (if i = p then rq p @ [t] \<noteq> [] else bit (mem s kSchedulerPendingFlagAddr) (31 - i))"
      using p by (auto simp: pf bit_simps)
  qed
  let ?s = "wr32 kSchedulerReschedCounterAddr 1 s2"
  have addr: "kThreadQueueArrayAddr + of_nat p * 8 = rq_addr p" by (simp add: rq_addr_def)
  have run: "run_state (make_ready fuel t) s = ((), ?s)"
  proof -
    have "run_state (Write32 (t + kThreadPriorityOffset) (word_of_int (int p))) s = ((), s1)"
      using w ok [of kThreadPriorityOffset] by (simp add: run_simps s1_def)
    then show ?thesis
      unfolding make_ready_def using eff s2(1) w2 rs by (simp add: run_simps addr)
  qed
  have m: "mem ?s = (mem s2)(kSchedulerReschedCounterAddr := 1)" using rs by simp
  have r: "kSchedulerReschedCounterAddr \<in> sched_words" by (simp add: sched_words_def)
  have inv3: "sched_inv (mem ?s) q T [] (rq(p := rq p @ [t]))"
  proof (rule sched_inv_frame [OF inv2])
    fix a assume "a \<in> sched_frame q T"
    moreover have "kSchedulerReschedCounterAddr \<notin> {q, q + 4, kSchedulerPendingFlagAddr} \<union> rq_slots"
      using L r rq_slots_not_sched by (auto simp: sched_layout_def kernel_words)
    moreover have "kSchedulerReschedCounterAddr \<noteq> x + f" if "x \<in> T" "f \<in> {kThreadNextOffset, kThreadPrevOffset}" for x f
      using sched_layoutD(4) [OF L that(1), of f] that(2) r by auto
    then have "kSchedulerReschedCounterAddr \<notin> fields_of T {kThreadNextOffset, kThreadPrevOffset}"
      by (auto simp only: fields_of_def)
    ultimately show "mem ?s a = mem s2 a" unfolding m sched_frame_def by auto
  qed
  have "mem ?s (t + kThreadQueueOffset) = rq_addr p"
    using s2(5) sched_layoutD(4) [OF L t, of kThreadQueueOffset] r by (auto simp: m)
  moreover have "touches (splice_words (t # rq p) t (rq_addr p)) s s2"
  proof -
    have "touches {} s s1" using m1 by (simp add: touches_def s1_def)
    then show ?thesis using touches_trans [of "{}" s s1] s2(3) by simp
  qed
  moreover have "machine.more ?s = machine.more s" using touches_host(3) [OF s2(2)] by (simp add: s1_def wr32_def)
  ultimately show ?thesis using run inv3 w2 m by (intro exI [of _ ?s] exI [of _ s2]) simp
qed

text \<open>The timer and park bookkeeping of a resume is the host's alone.\<close>

lemma run_cancel_bookkeeping:
  fixes s :: os_machine
  assumes "wii s"
  shows "\<exists>s'. run_state (do { CancelSleepTimer t; ClearOutstandingPark t }) s = ((), s') \<and> wii s' \<and> mem s' = mem s \<and> timers_kept t s s'"
proof -
  let ?s = "s\<lparr>sleep_timers := filter (\<lambda>(x, deadline). x \<noteq> t) (sleep_timers s), outstanding_parks := removeAll t (outstanding_parks s)\<rparr>"
  have "wii ?s" using assms by (simp add: wii_def)
  moreover have "mem ?s = mem s" by (rule mem_cong) simp
  moreover have "timers_kept t s ?s" by (rule timers_keptI) simp_all
  ultimately show ?thesis
    using assms by (intro exI [of _ ?s]) (simp add: CancelSleepTimer_def ClearOutstandingPark_def run_simps wii_fault)
qed

lemma wake_fiber_timers:
  assumes "wii s" "run_state (wake_fiber x) s = ((), s')"
  shows "timers_kept t s s'"
  using assms
  by (auto simp: wake_fiber_def run_simps wii_fault IsInitialized_def HasFiber_def RegisterMainThreadAsFiber_def
      ResumeGuestThread_def whenM_def intro!: timers_keptI split: if_splits option.splits)

lemma susp_rep_out:
  assumes "susp_rep c q T R st pr s cnt rq" "t \<in> R" "cnt t \<noteq> 0" "i < 32"
  shows "t \<notin> set (rq i)"
  using susp_repD(13) [OF assms(1,2)] susp_repD(15) [OF assms(1,4), of t] assms(3) by auto

lemma susp_rep_prio:
  assumes "susp_rep c q T R st pr s cnt rq" "t \<in> R"
  shows "prio_of (mem s) t = int (pr t)"
  using susp_repD(9,11) [OF assms] sint_count [of "pr t"] by (simp add: prio_of_def)

lemma susp_rep_length:
  assumes "susp_rep c q T R st pr s cnt rq" "i < 32"
  shows "length (rq i) \<le> card R"
proof -
  have "distinct (rq i)" using susp_repD(3) [OF assms(1)] assms(2) by (simp add: sched_inv_def dlist_def)
  moreover have "set (rq i) \<subseteq> R" "finite R" using assms by (auto simp: susp_rep_def)
  ultimately show ?thesis by (metis card_mono distinct_card)
qed

lemma count_pred:
  assumes "n < 2147483648" "n \<noteq> 0"
  shows "word_of_int (int n - 1) = (of_nat (n - 1) :: u32)"
proof -
  have "int n - 1 = int (n - 1)" using assms(2) by simp
  then show ?thesis by (simp only: of_int_of_nat_eq)
qed

lemma run_seq: "run_state m s = (a, s') \<Longrightarrow> run_state (m \<bind> f) s = run_state (f a) s'"
  by (simp add: run_bind)

lemma run_resume_last:
  assumes r: "susp_rep c q T R st pr s cnt rq" and t: "t \<in> R" and n: "cnt t \<noteq> 0" and fuel: "card R < fuel"
    and W: "calm_pump W" and calm: "calm s"
  shows "\<exists>s'. run_state (resume_last W fuel t) (wr32 (t + kThreadSuspendOffset) 0 s) = ((), s') \<and>
    susp_rep c q T R st pr s' (cnt(t := 0)) (rq(pr t := rq (pr t) @ [t])) \<and> timers_kept t s s'"
proof -
  note D = susp_repD [OF r]
  have tT: "t \<in> T" using D(4) t by blast
  let ?p = "pr t"
  have p: "?p < 32" by (rule D(11) [OF t])
  define s1 where "s1 = wr32 (t + kThreadSuspendOffset) 0 s"
  note S1 = suspend_count_word [OF r t, where v = 0, folded s1_def]
  obtain s2 where s2: "run_state (do { CancelSleepTimer t; ClearOutstandingPark t }) s1 = ((), s2)" "wii s2" "mem s2 = mem s1"
    "timers_kept t s1 s2"
    using run_cancel_bookkeeping [OF S1(1)] by blast
  have sm: "mem s2 (y + f) = mem s (y + f)" if "y \<in> T" "f \<in> queue_fields" "f \<noteq> kThreadSuspendOffset" for y f
    using S1(4) that by (simp add: s2(3))
  obtain s3 s3' where s3: "run_state (make_ready fuel t) s2 = ((), s3)" "wii s3" "sched_inv (mem s3) q T [] (rq(?p := rq ?p @ [t]))"
    "mem s3 (t + kThreadQueueOffset) = rq_addr ?p" "touches (splice_words (t # rq ?p) t (rq_addr ?p)) s2 s3'"
    "mem s3 = (mem s3')(kSchedulerReschedCounterAddr := 1)" "machine.more s3 = machine.more s2"
  proof -
    have "\<forall>x\<in>set (rq ?p). prio_of (mem s2) x = int ?p"
    proof
      fix x assume x: "x \<in> set (rq ?p)"
      then have "x \<in> R" "pr x = ?p" using D(14,15) [OF p] by auto
      moreover from this have "x \<in> T" using D(4) by blast
      ultimately show "prio_of (mem s2) x = int ?p"
        using susp_rep_prio [OF r, of x] sm [of x kThreadPriorityOffset] by (simp add: prio_of_def offsets_ne_suspend)
    qed
    moreover have "length (rq ?p) < fuel" using susp_rep_length [OF r p] fuel by simp
    moreover have "\<forall>i<32. t \<notin> set (rq i)" using susp_rep_out [OF r t n] by blast
    moreover have "sched_inv (mem s2) q T [] rq" using S1(3) s2(3) by simp
    moreover have "mem s2 (t + kThreadPriorityOffset) = of_nat ?p" "mem s2 (t + kThreadBasePriorityOffset) = of_nat ?p"
      "mem s2 (t + kThreadMutexQueueOffset) = 0"
      using sm [OF tT] D(9,10,12) [OF t] by (simp_all add: offsets_ne_suspend)
    ultimately show ?thesis using run_make_ready [OF s2(2) D(2) _ tT p] that by blast
  qed
  have sub: "set (t # rq ?p) \<subseteq> T" using D(14) [OF p] D(4) tT by auto
  note F = splice_frame [OF D(2) p sub tT s3(5)]
  have rsw: "kSchedulerReschedCounterAddr \<in> sched_words" by (simp add: sched_words_def)
  have F3: "mem s3 (y + f) = mem s2 (y + f)"
    if "y \<in> T" "f \<in> queue_fields - {kThreadNextOffset, kThreadPrevOffset}" "f \<noteq> kThreadQueueOffset \<or> y \<noteq> t" for y f
    using F(1) [OF that] sched_layoutD(4) [OF D(2) that(1), of f] that(2) rsw by (auto simp: s3(6))
  have K3: "mem s3 kSchedulerIdleFlagAddr = mem s kSchedulerIdleFlagAddr" "mem s3 kOSCurrentContextAddr = mem s kOSCurrentContextAddr"
    using F(2) S1(5) by (auto simp: s3(6) s2(3) sched_words_def kernel_words)
  have rep3: "susp_rep c q T R st pr s3 (cnt(t := 0)) (rq(?p := rq ?p @ [t]))"
  proof (rule susp_rep_step [OF r t s3(2,3) _ _ _ s3(4) _ _ K3])
    show "mem s3 (t + kThreadSuspendOffset) = of_nat 0" using F3 [OF tT, of kThreadSuspendOffset] S1(2) s2(3) by (simp add: offsets_ne_suspend)
    show "mem s3 (y + f) = mem s (y + f)"
      if "y \<in> T" "f \<in> {kThreadStateOffset, kThreadPriorityOffset, kThreadBasePriorityOffset, kThreadMutexQueueOffset}" for y f
      using F3 [OF that(1), of f] sm [OF that(1), of f] that(2) by (auto simp: offsets_ne_suspend)
    show "mem s3 (y + f) = mem s (y + f)" if "y \<in> T" "y \<noteq> t" "f \<in> {kThreadSuspendOffset, kThreadQueueOffset}" for y f
      using F3 [OF that(1), of f] S1(4) [OF that(1), of f] that(2,3) s2(3) by auto
  qed auto
  obtain s4 where s4: "run_state (wake_fiber t) s3 = ((), s4)" "wii s4" "mem s4 = mem s3"
    using run_wake_fiber [OF s3(2)] by blast
  have "mem s4 kSchedulerIdleFlagAddr \<noteq> 0" using susp_repD(5) [OF rep3] s4(3) by simp
  moreover have k4: "timers_kept t s s4"
  proof -
    have "timers_kept t s s2" using s2(4) by (simp add: s1_def)
    moreover have "timers_kept t s2 s3" by (rule timers_kept_host [OF s3(7)])
    moreover have "timers_kept t s3 s4" by (rule wake_fiber_timers [OF s3(2) s4(1)])
    ultimately show ?thesis using timers_kept_trans by blast
  qed
  ultimately obtain s5 where s5: "run_state (do { resched \<leftarrow> Read32 kSchedulerReschedCounterAddr;
      whenM (resched \<noteq> 0) (do { gpr_put 3 0; SelectThread W fuel }) }) s4 = ((), s5)" "wii s5" "mem s5 = mem s4" "timers_kept t s4 s5"
    using run_maybe_select [OF s4(2) _ W calm_kept [OF calm k4]] by blast
  have st: "run_state (Read16 (t + kThreadStateOffset)) s2 = (kThreadStateReady, s2)"
  proof -
    have ok: "word_ok (t + kThreadStateOffset)" by (rule sched_layoutD(5) [OF D(2) tT]) simp
    show ?thesis using run_read16 [OF s2(2) ok] sm [OF tT, of kThreadStateOffset] D(7) [OF t] by (simp add: offsets_ne_suspend)
  qed
  have split: "resume_last W fuel t = do {
     do { CancelSleepTimer t; ClearOutstandingPark t };
     state \<leftarrow> Read16 (t + kThreadStateOffset);
     (if state = kThreadStateWaiting then do {
        queuePtr \<leftarrow> Read32 (t + kThreadQueueOffset);
        RemoveThreadFromQueue t;
        priority \<leftarrow> ComputeThreadEffectivePriority fuel t;
        Write32 (t + kThreadPriorityOffset) (word_of_int priority);
        whenM (queuePtr \<noteq> 0) (InsertThreadIntoQueueByPriority fuel queuePtr t priority);
        ini \<leftarrow> IsInitialized;
        whenM ini (SuspendGuestThread t);
        mutex \<leftarrow> Read32 (t + kThreadMutexOffset);
        PropagateMutexOwnerPriority fuel mutex
      }
      else if state = kThreadStateReady then do { make_ready fuel t; wake_fiber t }
      else do {
        dead \<leftarrow> IsTerminated t;
        whenM (state = kThreadStateRunning \<and> \<not> dead) (do {
          Write16 (t + kThreadStateOffset) kThreadStateReady;
          make_ready fuel t;
          ini \<leftarrow> IsInitialized;
          whenM ini (ResumeGuestThread t)
        })
      });
     do { resched \<leftarrow> Read32 kSchedulerReschedCounterAddr;
          whenM (resched \<noteq> 0) (do { gpr_put 3 0; SelectThread W fuel }) } }"
    by (simp add: resume_last_def)
  have "run_state (resume_last W fuel t) s1 = ((), s5)"
    unfolding split run_seq [OF s2(1)] run_seq [OF st] using s3(1) s4(1) s5(1)
    by (simp add: run_bind kThreadStateReady_def kThreadStateWaiting_def)
  moreover have "susp_rep c q T R st pr s5 (cnt(t := 0)) (rq(?p := rq ?p @ [t]))"
    by (rule susp_rep_frame [OF rep3 s5(2)]) (simp add: s5(3) s4(3))
  moreover have "timers_kept t s s5" by (rule timers_kept_trans [OF k4 s5(4)])
  ultimately show ?thesis unfolding s1_def by blast
qed

lemma run_resume_body:
  assumes r: "susp_rep c q T R st pr s cnt rq" and t: "t \<in> R" and n: "cnt t < 2147483648" and fuel: "card R < fuel"
    and W: "calm_pump W" and calm: "calm s"
  shows "\<exists>s'. run_state (resume_body W fuel t) s = ((), s') \<and> wii s' \<and> gpr (cpu s') 3 = of_nat (cnt t) \<and>
    susp_rep c q T R st pr s' (cnt(t := cnt t - 1)) (if cnt t = 1 then rq(pr t := rq (pr t) @ [t]) else rq) \<and>
    timers_kept t s s'"
proof -
  note D = susp_repD [OF r]
  have tT: "t \<in> T" using D(4) t by blast
  have sok: "word_ok (t + kThreadSuspendOffset)" by (rule sched_layoutD(5) [OF D(2) tT]) simp
  let ?s1 = "wr32 (t + kThreadSuspendOffset) (of_nat (cnt t - 1)) s"
  have "run_state (resume_body W fuel t) s =
      run_state (do { whenM (cnt t = 1) (resume_last W fuel t); gpr_put 3 (of_nat (cnt t)) }) ?s1"
    using D(1) sok D(8) [OF t] sint_count [OF n] count_pred [OF n]
    by (auto simp: resume_body_def run_simps Let_def)
  moreover obtain s2 where "run_state (whenM (cnt t = 1) (resume_last W fuel t)) ?s1 = ((), s2)"
    "susp_rep c q T R st pr s2 (cnt(t := cnt t - 1)) (if cnt t = 1 then rq(pr t := rq (pr t) @ [t]) else rq)" "timers_kept t s s2"
  proof (cases "cnt t = 1")
    case True
    then show ?thesis using run_resume_last [OF r t _ fuel W calm] that by (auto simp: whenM_def)
  next
    case False
    then have "susp_rep c q T R st pr ?s1 (cnt(t := cnt t - 1)) rq" by (intro susp_rep_count [OF r t]) auto
    then show ?thesis using that [of ?s1] False by (simp add: whenM_def run_simps)
  qed
  ultimately show ?thesis using susp_return by metis
qed

section \<open>Calls\<close>

lemma suspend_offset_ne:
  assumes "i \<in> {kThreadStateOffset, kThreadSuspendOffset, kThreadPriorityOffset, kThreadBasePriorityOffset,
    kThreadMutexQueueOffset, kThreadQueueOffset}"
  shows "i \<in> queue_fields" "i \<noteq> 0x1A0"
proof -
  show "i \<in> queue_fields" using assms by auto
  show "i \<noteq> 0x1A0" using assms by (auto simp: thread_offsets)
qed

lemma susp_words_apart:
  assumes "sched_layout T q" "c = 0 \<or> c \<in> T" "a \<in> susp_words q T"
  shows "a \<noteq> c + 0x1A0"
proof -
  consider "a \<in> sched_frame q T" | "a \<in> {kSchedulerIdleFlagAddr, kOSCurrentContextAddr}"
    | x i where "a = x + i" "x \<in> T" "i \<in> {kThreadStateOffset, kThreadSuspendOffset, kThreadPriorityOffset,
        kThreadBasePriorityOffset, kThreadMutexQueueOffset, kThreadQueueOffset}"
    using assms(3) unfolding susp_words_def fields_of_def by blast
  then show ?thesis
  proof cases
    case 1 then show ?thesis by (rule sched_frame_apart [OF assms(1,2)])
  next
    case 2
    then show ?thesis using flag_apart_threads(2) [OF assms(1,2), of a] by (auto simp: sched_words_def)
  next
    case 3
    then show ?thesis using flag_apart_threads(3) [OF assms(1,2) 3(2) suspend_offset_ne [OF 3(3)]] by simp
  qed
qed

lemma susp_bracketed:
  assumes r: "susp_rep c q T R st pr s cnt rq"
    and calm: "calm s"
    and body: "\<And>s1. susp_rep c q T R st pr s1 cnt rq \<Longrightarrow> calm s1 \<Longrightarrow> \<exists>s2. run_state b s1 = ((), s2) \<and> wii s2 \<and>
      gpr (cpu s2) 3 = n \<and> susp_rep c q T R st pr s2 cnt' rq' \<and> timers_kept t s1 s2"
  shows "\<exists>s'. run_state (do { irqState \<leftarrow> OS__DisableInterrupts; try_catch b h;
      _ \<leftarrow> OS__RestoreInterrupts irqState; State_Monad.return () }) s = ((), s') \<and> wii s' \<and>
    interrupts_enabled s' = interrupts_enabled s \<and> gpr (cpu s') 3 = n \<and> susp_rep c q T R st pr s' cnt' rq' \<and> timers_kept t s s'"
proof -
  note D = susp_repD [OF r]
  note c = D(17)
  have ok: "c = 0 \<or> word_ok (c + 0x1A0)" by (rule flag_apart_threads(1) [OF D(2) c])
  note apart = susp_words_apart [OF D(2) c]
  have frame: "susp_rep c q T R st pr s3 cn rr" if "susp_rep c q T R st pr s2 cn rr" "wii s3" "\<forall>a. a \<noteq> c + 0x1A0 \<longrightarrow> mem s3 a = mem s2 a" for s2 s3 cn rr
    by (rule susp_rep_frame [OF that(1,2)]) (use that(3) apart in blast)
  have "\<exists>s'. run_state (do { irqState \<leftarrow> OS__DisableInterrupts; try_catch b h;
      _ \<leftarrow> OS__RestoreInterrupts irqState; State_Monad.return () }) s = ((), s') \<and> wii s' \<and>
    interrupts_enabled s' = interrupts_enabled s \<and>
    (gpr (cpu s') 3 = n \<and> susp_rep c q T R st pr s' cnt' rq' \<and> timers_kept t s s')"
  proof (rule run_bracketed [OF D(1,6) ok])
    fix s1 :: os_machine
    assume s1: "wii s1" "\<forall>a. a \<noteq> c + 0x1A0 \<longrightarrow> mem s1 a = mem s a" and more: "machine.more s1 = machine.more s"
    show "\<exists>s2. run_state b s1 = ((), s2) \<and> wii s2 \<and> mem s2 kOSCurrentContextAddr = c \<and>
        (gpr (cpu s2) 3 = n \<and> susp_rep c q T R st pr s2 cnt' rq' \<and> timers_kept t s s2)"
      using body [OF frame [OF r s1] calm_kept [OF calm timers_kept_host [OF more]]] susp_repD(6) timers_kept_trans [OF timers_kept_host [OF more]] by blast
  next
    fix s2 s3 :: os_machine
    assume "gpr (cpu s2) 3 = n \<and> susp_rep c q T R st pr s2 cnt' rq' \<and> timers_kept t s s2" "wii s3" "cpu s3 = cpu s2"
      "\<forall>a. a \<noteq> c + 0x1A0 \<longrightarrow> mem s3 a = mem s2 a" "machine.more s3 = machine.more s2"
    then show "gpr (cpu s3) 3 = n \<and> susp_rep c q T R st pr s3 cnt' rq' \<and> timers_kept t s s3"
      using frame [of s2 cnt' rq' s3] timers_kept_trans [OF _ timers_kept_host, of t s s2 s3] by simp
  qed
  then show ?thesis by blast
qed

lemma run_susp_call:
  assumes r: "susp_rep c q T R st pr s cnt rq" and t: "susp_thread op \<in> R" and n: "cnt (susp_thread op) < 2147483648"
    and fuel: "card R < fuel" and W: "calm_pump W" and calm: "calm s"
  shows "gpr (cpu (susp_call W fuel op s)) 3 = of_nat (cnt (susp_thread op))"
    "interrupts_enabled (susp_call W fuel op s) = interrupts_enabled s"
    "susp_rep c q T R st pr (susp_call W fuel op s) (fst (susp_spec pr op (cnt, rq))) (snd (susp_spec pr op (cnt, rq)))"
    "timers_kept (susp_thread op) s (susp_call W fuel op s)"
proof -
  define t where "t = susp_thread op"
  define s0 where "s0 = s\<lparr>cpu := (cpu s)\<lparr>gpr := (gpr (cpu s))(3 := t)\<rparr>\<rparr>"
  have tR: "t \<in> R" and nt: "cnt t < 2147483648" using t n by (simp_all add: t_def)
  have w: "wii s" by (rule susp_repD(1) [OF r])
  have r0: "susp_rep c q T R st pr s0 cnt rq" by (rule susp_rep_frame [OF r]) (use w in \<open>simp_all add: s0_def\<close>)
  have c0: "calm s0" using calm by (simp add: s0_def calm_def)
  have t0: "t \<noteq> 0" using sched_layoutD(3) [OF susp_repD(2) [OF r]] susp_repD(4) [OF r] tR by auto
  have g': "run_state (gpr_get 3) s0 = (t, s0)" using w by (simp add: s0_def wii_fault run_simps)
  have i0: "interrupts_enabled s0 = interrupts_enabled s" by (simp add: s0_def)
  have "gpr (cpu (susp_call W fuel op s)) 3 = of_nat (cnt t) \<and>
    interrupts_enabled (susp_call W fuel op s) = interrupts_enabled s \<and>
    susp_rep c q T R st pr (susp_call W fuel op s) (fst (susp_spec pr op (cnt, rq))) (snd (susp_spec pr op (cnt, rq))) \<and>
    timers_kept t s (susp_call W fuel op s)"
  proof (cases op)
    case (Suspend x)
    then have x: "x = t" by (simp add: t_def)
    obtain s' where s': "run_state (do { irqState \<leftarrow> OS__DisableInterrupts; try_catch (suspend_body W fuel t) (gpr_put 3 0);
        _ \<leftarrow> OS__RestoreInterrupts irqState; State_Monad.return () }) s0 = ((), s')"
      "interrupts_enabled s' = interrupts_enabled s0" "gpr (cpu s') 3 = of_nat (cnt t)"
      "susp_rep c q T R st pr s' (cnt(t := cnt t + 1)) (if cnt t = 0 then rq(pr t := remove1 t (rq (pr t))) else rq)"
      "timers_kept t s0 s'"
      using susp_bracketed [where h = "gpr_put 3 0", OF r0 c0 run_suspend_body [where t = t and cnt = cnt and fuel = fuel, OF _ tR nt W]] by blast
    have "run_state (OSSuspendThread W fuel) s0 = ((), s')"
      unfolding OSSuspendThread_def run_seq [OF g'] if_not_P [OF t0] by (rule s'(1))
    then show ?thesis using s'(2-5) i0 by (simp add: Suspend x s0_def [symmetric]) (simp add: s0_def)
  next
    case (Resume x)
    then have x: "x = t" by (simp add: t_def)
    obtain s' where s': "run_state (do { irqState \<leftarrow> OS__DisableInterrupts; try_catch (resume_body W fuel t) (gpr_put 3 0);
        _ \<leftarrow> OS__RestoreInterrupts irqState; State_Monad.return () }) s0 = ((), s')"
      "interrupts_enabled s' = interrupts_enabled s0" "gpr (cpu s') 3 = of_nat (cnt t)"
      "susp_rep c q T R st pr s' (cnt(t := cnt t - 1)) (if cnt t = 1 then rq(pr t := rq (pr t) @ [t]) else rq)"
      "timers_kept t s0 s'"
      using susp_bracketed [where h = "gpr_put 3 0", OF r0 c0 run_resume_body [where t = t and cnt = cnt, OF _ tR nt fuel W]] by blast
    have "run_state (OSResumeThread W fuel) s0 = ((), s')"
      unfolding OSResumeThread_def run_seq [OF g'] if_not_P [OF t0] by (rule s'(1))
    then show ?thesis using s'(2-5) i0 by (simp add: Resume x s0_def [symmetric]) (simp add: s0_def)
  qed
  then show "gpr (cpu (susp_call W fuel op s)) 3 = of_nat (cnt (susp_thread op))"
    "interrupts_enabled (susp_call W fuel op s) = interrupts_enabled s"
    "susp_rep c q T R st pr (susp_call W fuel op s) (fst (susp_spec pr op (cnt, rq))) (snd (susp_spec pr op (cnt, rq)))"
    "timers_kept (susp_thread op) s (susp_call W fuel op s)"
    by (simp_all add: t_def)
qed

text \<open>The number of calls bounds how far a count can grow.\<close>

lemma susp_spec_bound:
  "fst (fold (susp_spec pr) ops (cnt, rq)) t \<le> cnt t + length ops"
proof (induction ops rule: rev_induct)
  case (snoc op ops)
  obtain cnt' rq' where "fold (susp_spec pr) ops (cnt, rq) = (cnt', rq')" by fastforce
  then show ?case using snoc by (cases op) auto
qed simp

text \<open>C26: Suspension is counted.  With the scheduler disabled and no sleep timer due, any sequence of
  \<open>OSSuspendThread\<close> and \<open>OSResumeThread\<close> calls on ready threads that hold no mutex refines the table \<open>susp_spec\<close>: a thread leaves its run queue on the first suspension, returns to
  the end of it on the matching resume and on no earlier one, a resume of a running thread changes
  nothing, and the 32 run queues and the pending bits stay consistent throughout.  Each call returns the
  count there was before it and leaves the interrupts as it found them, and nothing faults.\<close>

theorem suspensions_are_counted:
  assumes "susp_rep c q T R st pr s cnt rq" "\<forall>op\<in>set ops. susp_thread op \<in> R"
    and "\<forall>t\<in>R. cnt t + length ops < 2147483648" "card R < fuel" "calm_pump W" "calm s"
  shows "let s' = fold (susp_call W fuel) ops s in
    calm s' \<and> susp_rep c q T R st pr s' (fst (fold (susp_spec pr) ops (cnt, rq))) (snd (fold (susp_spec pr) ops (cnt, rq))) \<and>
    interrupts_enabled s' = interrupts_enabled s \<and>
    (ops \<noteq> [] \<longrightarrow> gpr (cpu s') 3 = of_nat (fst (fold (susp_spec pr) (butlast ops) (cnt, rq)) (susp_thread (last ops))))"
  using assms(2,3)
proof (induction ops rule: rev_induct)
  case Nil
  then show ?case using assms(1,6) by simp
next
  case (snoc op ops)
  define s' where "s' = fold (susp_call W fuel) ops s"
  obtain cnt' rq' where f: "fold (susp_spec pr) ops (cnt, rq) = (cnt', rq')" by fastforce
  have b: "\<forall>t\<in>R. cnt t + length ops < 2147483648"
    using snoc.prems(2) by (auto intro: le_less_trans [rotated])
  have IH: "susp_rep c q T R st pr s' cnt' rq'" "calm s'" "interrupts_enabled s' = interrupts_enabled s"
    using snoc.IH b snoc.prems(1) f by (simp_all add: s'_def Let_def)
  have t: "susp_thread op \<in> R" using snoc.prems(1) by simp
  have "cnt' (susp_thread op) \<le> cnt (susp_thread op) + length ops"
    using susp_spec_bound [of pr ops cnt rq] by (simp add: f)
  moreover have "cnt (susp_thread op) + length (ops @ [op]) < 2147483648" using snoc.prems(2) t by blast
  ultimately have n: "cnt' (susp_thread op) < 2147483648" by simp
  show ?case
    using run_susp_call [OF IH(1) t n assms(4,5) IH(2)] IH(3) calm_kept [OF IH(2)] by (simp add: f s'_def Let_def)
qed

definition demo_suspended :: os_machine where
  "demo_suspended =
     wr32 0x804002C8 0x00010000 (wr32 0x804002CC 1 (wr32 0x804002D0 16 (wr32 0x804002D4 16
     (wr32 0x804012C8 0x00010000 (wr32 0x804012CC 1 (wr32 0x804012D0 8 (wr32 0x804012D4 8
     (wr32 kSchedulerIdleFlagAddr 1 (boot_os\<lparr>strand_scan_due := 100\<rparr>)))))))))"

definition suspended_mem :: "u32 \<Rightarrow> u32" where
  "suspended_mem = (\<lambda>_. 0)(kSchedulerIdleFlagAddr := 1, 0x804012D4 := 8, 0x804012D0 := 8, 0x804012CC := 1,
     0x804012C8 := 0x00010000, 0x804002D4 := 16, 0x804002D0 := 16, 0x804002CC := 1, 0x804002C8 := 0x00010000)"

lemma demo_suspended_facts: "wii demo_suspended" "mem demo_suspended = suspended_mem"
proof -
  have b: "mem (boot_os\<lparr>strand_scan_due := 100\<rparr>) = (\<lambda>_. 0)" "wii (boot_os\<lparr>strand_scan_due := 100\<rparr>)"
    by (simp_all add: fun_eq_iff mem_def rd32_def boot_os_def be_word32_def wii_def)
  show "wii demo_suspended" by (simp add: demo_suspended_def b)
  show "mem demo_suspended = suspended_mem" by (simp add: demo_suspended_def suspended_mem_def b layout_eval)
qed

lemma suspended_inv: "sched_inv suspended_mem 0x80402000 {0x80400000, 0x80401000} [] (\<lambda>_. [])"
proof -
  have z: "suspended_mem (rq_addr i) = 0" "suspended_mem (rq_addr i + 4) = 0" if "i < 32" for i
    using that by (auto simp: suspended_mem_def word_unat_eq_iff unat_rq_addr kernel_words)
  show ?thesis unfolding sched_inv_def
    by (auto simp: dlist_def z) (simp_all add: suspended_mem_def thread_offsets kernel_words)
qed

lemma demo_suspended_rep:
  "susp_rep 0 0x80402000 {0x80400000, 0x80401000} {0x80400000, 0x80401000} st
     (\<lambda>t. if t = 0x80400000 then 16 else 8) demo_suspended (\<lambda>_. 1) (\<lambda>_. [])"
  unfolding susp_rep_def
  by (simp add: demo_suspended_facts demo_layout suspended_inv)
    (simp add: suspended_mem_def thread_offsets kernel_words hi16_def kThreadStateReady_def)

lemma suspensions_are_counted_witness:
  "let s' = fold (susp_call quiet_world 3) [Resume 0x80400000, Resume 0x80401000, Suspend 0x80400000,
       Suspend 0x80400000, Resume 0x80400000] demo_suspended
   in thread_queue (mem s') (rq_addr 8) [0x80401000] \<and> thread_queue (mem s') (rq_addr 16) [] \<and>
      mem s' (0x80400000 + kThreadSuspendOffset) = 1 \<and> gpr (cpu s') 3 = 2"
proof -
  let ?pr = "\<lambda>t. if t = 0x80400000 then 16 else 8 :: nat" and ?R = "{0x80400000, 0x80401000} :: u32 set"
  let ?ops = "[Resume 0x80400000, Resume 0x80401000, Suspend 0x80400000, Suspend 0x80400000, Resume 0x80400000]"
  define s' where "s' = fold (susp_call quiet_world 3) ?ops demo_suspended"
  have calm: "calm demo_suspended" by (simp add: calm_def demo_suspended_def boot_os_def wr32_def)
  have H: "\<forall>op\<in>set ?ops. susp_thread op \<in> ?R" "\<forall>t\<in>?R. 1 + length ?ops < 2147483648" "card ?R < 3" by simp_all
  have P: "susp_rep 0 0x80402000 ?R ?R st ?pr s' (fst (fold (susp_spec ?pr) ?ops (\<lambda>_. 1, \<lambda>_. [])))
      (snd (fold (susp_spec ?pr) ?ops (\<lambda>_. 1, \<lambda>_. [])))"
    "gpr (cpu s') 3 = of_nat (fst (fold (susp_spec ?pr) (butlast ?ops) (\<lambda>_. 1, \<lambda>_. [])) 0x80400000)"
    using suspensions_are_counted [OF demo_suspended_rep H calm_pump_quiet calm] by (simp_all add: s'_def Let_def)
  have spec: "fold (susp_spec ?pr) ?ops (\<lambda>_. 1, \<lambda>_. []) =
      ((\<lambda>_. 1)(0x80400000 := 0, 0x80401000 := 0, 0x80400000 := 1, 0x80400000 := 2, 0x80400000 := 1),
       (\<lambda>_. [])(16 := [0x80400000], 8 := [0x80401000], 16 := []))"
    by simp
  have "sched_inv (mem s') 0x80402000 ?R [] ((\<lambda>_. [])(16 := [0x80400000], 8 := [0x80401000], 16 := []))"
    using susp_repD(3) [OF P(1)] by (simp only: spec snd_conv)
  then have I: "thread_queue (mem s') (rq_addr i) (((\<lambda>_. [])(16 := [0x80400000], 8 := [0x80401000], 16 := [])) i)" if "i < 32" for i
    using that unfolding sched_inv_def by blast
  have "thread_queue (mem s') (rq_addr 8) [0x80401000]" "thread_queue (mem s') (rq_addr 16) []"
    using I [of 8] I [of 16] by simp_all
  moreover have "mem s' (0x80400000 + kThreadSuspendOffset) = 1"
    using susp_repD(8) [OF P(1), where t = "0x80400000"] by simp
  ultimately show ?thesis using P(2) by (simp add: s'_def Let_def)
qed

end
