(* ===== verification/OsSleep.thy ===== *)
theory OsSleep
  imports OsSuspend OsTime
begin

unbundle bit_operations_syntax

text \<open>
  Sleeping for a number of ticks, \<open>runtime/src/hle/os/os_sleep.cpp\<close>: the host's table of sleep timers,
  the pump that resumes the threads whose time has come, the reconciler that resumes sleepers whose timer
  was lost, and \<open>OSSleepTicks\<close>, which suspends the running thread under a timer.  Times are nanoseconds
  of the host clock.  The set of outstanding parks is a list, whose order stands for the order in which
  the hash set enumerates its elements.
\<close>

section \<open>Operations\<close>

definition SleepTimerIsPending :: "u32 \<Rightarrow> bool os" where
  "SleepTimerIsPending t = get_host (\<lambda>s. \<exists>(x, deadline)\<in>set (sleep_timers s). x = t)"

definition ScheduleSleepTimer :: "u32 \<Rightarrow> u64 \<Rightarrow> unit os" where
  "ScheduleSleepTimer t ticks = do {
     now \<leftarrow> steady_now;
     (let deadline = now + nat (TicksToDuration ticks) in do {
        CancelSleepTimer t;
        put_host (\<lambda>s. s\<lparr>sleep_timers := sleep_timers s @ [(t, deadline)]\<rparr>)
      })
   }"

text \<open>The timers that are due leave the table, in its order.\<close>

definition take_due_timers :: "nat \<Rightarrow> (u32 \<times> nat) list os" where
  "take_due_timers now = do {
     due \<leftarrow> get_host (\<lambda>s. filter (\<lambda>(t, deadline). \<not> deadline > now) (sleep_timers s));
     put_host (\<lambda>s. s\<lparr>sleep_timers := filter (\<lambda>(t, deadline). deadline > now) (sleep_timers s)\<rparr>);
     State_Monad.return due
   }"

text \<open>A timer that is due: only a ready thread with a suspension is resumed, a running one is on its way
  to park and gets two more milliseconds.\<close>

definition fire_sleep_timer :: "world \<Rightarrow> nat \<Rightarrow> nat \<Rightarrow> u32 \<Rightarrow> unit os" where
  "fire_sleep_timer W fuel now t = do {
     ok \<leftarrow> get_host (\<lambda>s. \<not> (t = 0 \<or> \<not> Contains (regions s) (t + kThreadSuspendOffset) 4));
     whenM ok (do {
       stateAtFire \<leftarrow> Read16 (t + kThreadStateOffset);
       countAtFire \<leftarrow> Read32 (t + kThreadSuspendOffset);
       (if stateAtFire = kThreadStateRunning then do {
          present \<leftarrow> SleepTimerIsPending t;
          whenM (\<not> present) (put_host (\<lambda>s. s\<lparr>sleep_timers := sleep_timers s @ [(t, now + 2000000)]\<rparr>))
        }
        else if stateAtFire \<noteq> kThreadStateReady \<or> sint countAtFire < 1 then ClearOutstandingPark t
        else do {
          ClearOutstandingPark t;
          gpr_put 3 t;
          OSResumeThread W fuel
        })
     })
   }"

primrec fire_sleep_timers :: "world \<Rightarrow> nat \<Rightarrow> nat \<Rightarrow> (u32 \<times> nat) list \<Rightarrow> unit os" where
  "fire_sleep_timers W fuel now [] = State_Monad.return ()"
| "fire_sleep_timers W fuel now (timer # timers) = do {
     fire_sleep_timer W fuel now (fst timer);
     fire_sleep_timers W fuel now timers
   }"

text \<open>The reconciler scans at most every 50 milliseconds and resumes a thread that it has seen parked
  without a timer for 100 milliseconds.\<close>

definition claim_strand_scan :: "nat \<Rightarrow> bool os" where
  "claim_strand_scan now = do {
     claimed \<leftarrow> get_host (\<lambda>s. strand_scan_due s \<le> now);
     whenM claimed (put_host (\<lambda>s. s\<lparr>strand_scan_due := now + 50000000\<rparr>));
     State_Monad.return claimed
   }"

definition forget_strand :: "u32 \<Rightarrow> unit os" where
  "forget_strand t = put_host (\<lambda>s. s\<lparr>strand_first_seen := filter (\<lambda>(x, seen). x \<noteq> t) (strand_first_seen s)\<rparr>)"

definition judge_sleeper :: "nat \<Rightarrow> u32 \<Rightarrow> bool os" where
  "judge_sleeper reconcileNow t = do {
     pending \<leftarrow> SleepTimerIsPending t;
     (if pending then do { forget_strand t; State_Monad.return False }
      else do {
        ok \<leftarrow> get_host (\<lambda>s. Contains (regions s) (t + kThreadSuspendOffset) 4);
        dead \<leftarrow> IsTerminated t;
        (if \<not> ok \<or> dead then do { ClearOutstandingPark t; forget_strand t; State_Monad.return False }
         else do {
           state \<leftarrow> Read16 (t + kThreadStateOffset);
           count \<leftarrow> Read32 (t + kThreadSuspendOffset);
           (if state \<noteq> kThreadStateReady \<or> sint count < 1 then do {
              ClearOutstandingPark t; forget_strand t; State_Monad.return False
            } else do {
              seen \<leftarrow> get_host (\<lambda>s. map_of (strand_first_seen s) t);
              (case seen of
                 None \<Rightarrow> do {
                   put_host (\<lambda>s. s\<lparr>strand_first_seen := (t, reconcileNow) # strand_first_seen s\<rparr>);
                   State_Monad.return False
                 }
               | Some first \<Rightarrow>
                   if reconcileNow < first + 100000000 then State_Monad.return False
                   else do { forget_strand t; ClearOutstandingPark t; State_Monad.return True })
            })
         })
      })
   }"

primrec judge_sleepers :: "nat \<Rightarrow> u32 list \<Rightarrow> u32 list os" where
  "judge_sleepers reconcileNow [] = State_Monad.return []"
| "judge_sleepers reconcileNow (t # ts) = do {
     heal \<leftarrow> judge_sleeper reconcileNow t;
     rest \<leftarrow> judge_sleepers reconcileNow ts;
     State_Monad.return (if heal then t # rest else rest)
   }"

primrec heal_sleepers :: "world \<Rightarrow> nat \<Rightarrow> u32 list \<Rightarrow> unit os" where
  "heal_sleepers W fuel [] = State_Monad.return ()"
| "heal_sleepers W fuel (t # ts) = do {
     gpr_put 3 t;
     OSResumeThread W fuel;
     heal_sleepers W fuel ts
   }"

definition reconcile_strands :: "world \<Rightarrow> nat \<Rightarrow> unit os" where
  "reconcile_strands W fuel = do {
     outstanding \<leftarrow> get_host outstanding_parks;
     put_host (\<lambda>s. s\<lparr>strand_first_seen := filter (\<lambda>(x, seen). x \<in> set outstanding) (strand_first_seen s)\<rparr>);
     reconcileNow \<leftarrow> steady_now;
     toHeal \<leftarrow> judge_sleepers reconcileNow outstanding;
     heal_sleepers W fuel toHeal
   }"

definition ProcessSleepTimers :: "world \<Rightarrow> nat \<Rightarrow> bool os" where
  "ProcessSleepTimers W fuel = do {
     now \<leftarrow> steady_now;
     dueTimers \<leftarrow> take_due_timers now;
     fire_sleep_timers W fuel now dueTimers;
     scan \<leftarrow> claim_strand_scan now;
     whenM scan (reconcile_strands W fuel);
     State_Monad.return (dueTimers \<noteq> [])
   }"

text \<open>\<open>SelectThread\<close> pumps the timers, and resuming a thread may call \<open>SelectThread\<close>: the world in which \<open>n\<close>
  levels of this recursion are tied.\<close>

primrec with_sleep_timers :: "nat \<Rightarrow> nat \<Rightarrow> world \<Rightarrow> world" where
  "with_sleep_timers 0 fuel W = W\<lparr>process_sleep_timers := put_host (\<lambda>s. s\<lparr>fault := Some OutOfFuel\<rparr>)\<rparr>"
| "with_sleep_timers (Suc n) fuel W = W\<lparr>process_sleep_timers := do {
     _ \<leftarrow> ProcessSleepTimers (with_sleep_timers n fuel W) fuel;
     State_Monad.return ()
   }\<rparr>"

text \<open>A park that did not switch away, or whose timer fired too early, is taken back.\<close>

definition revert_park :: "u32 \<Rightarrow> unit os" where
  "revert_park currentThread = do {
     suspendCount \<leftarrow> Read32 (currentThread + kThreadSuspendOffset);
     whenM (sint suspendCount > 0) (do {
       CancelSleepTimer currentThread;
       ClearOutstandingPark currentThread;
       Write32 (currentThread + kThreadSuspendOffset) (suspendCount - 1);
       whenM (suspendCount = 1) (do {
         state \<leftarrow> Read16 (currentThread + kThreadStateOffset);
         queue \<leftarrow> (if state = kThreadStateReady then Read32 (currentThread + kThreadQueueOffset) else State_Monad.return 0);
         whenM (state = kThreadStateReady \<and> queue = 0) (Write16 (currentThread + kThreadStateOffset) kThreadStateRunning);
         ini \<leftarrow> IsInitialized;
         has \<leftarrow> HasFiber currentThread;
         whenM (ini \<and> has) (ResumeGuestThread currentThread)
       })
     })
   }"

definition sleep_ticks_body :: "world \<Rightarrow> nat \<Rightarrow> u64 \<Rightarrow> unit os" where
  "sleep_ticks_body W fuel ticks = do {
     running \<leftarrow> Read32 kOSRunningContextAddr;
     ini \<leftarrow> IsInitialized;
     fiberThread \<leftarrow> GetCurrentGuestThread;
     (let currentThread = (if ini \<and> fiberThread \<noteq> 0 then fiberThread else running) in
        whenM (currentThread \<noteq> 0) (do {
          sleepIdleFlag \<leftarrow> Read32 kSchedulerIdleFlagAddr;
          sleepCurrentContext \<leftarrow> Read32 kOSCurrentContextAddr;
          whenM (\<not> (sleepIdleFlag \<noteq> 0 \<or> (sleepCurrentContext \<noteq> 0 \<and> sleepCurrentContext \<noteq> currentThread))) (do {
            ScheduleSleepTimer currentThread ticks;
            MarkParkOutstanding currentThread;
            gpr_put 3 currentThread;
            OSSuspendThread W fuel;
            revert_park currentThread
          })
        }))
   }"

definition OSSleepTicks :: "world \<Rightarrow> nat \<Rightarrow> unit os" where
  "OSSleepTicks W fuel = do {
     hi \<leftarrow> gpr_get 3;
     lo \<leftarrow> gpr_get 4;
     irqState \<leftarrow> OS__DisableInterrupts;
     try_catch (sleep_ticks_body W fuel (join64 hi lo)) (State_Monad.return ());
     _ \<leftarrow> OS__RestoreInterrupts irqState;
     State_Monad.return ()
   }"

section \<open>The pump\<close>

lemma wii_contains: "wii s \<Longrightarrow> word_ok a \<Longrightarrow> Contains (regions s) a 4"
  by (simp add: Contains_def wii_def word_ok_def resolve_cached)

text \<open>One timer: the thread is resumed one level, which for a thread that is not suspended is nothing.\<close>

lemma run_fire_sleep_timer:
  assumes r: "susp_rep c q T R st pr s cnt rq" and t: "t \<in> R" and n: "cnt t < 2147483648" and fuel: "card R < fuel"
    and W: "calm_pump W" and calm: "calm s"
  shows "\<exists>s'. run_state (fire_sleep_timer W fuel now t) s = ((), s') \<and> timers_kept t s s' \<and>
    susp_rep c q T R st pr s' (fst (susp_spec pr (Resume t) (cnt, rq))) (snd (susp_spec pr (Resume t) (cnt, rq)))"
proof -
  note D = susp_repD [OF r]
  have tT: "t \<in> T" using D(4) t by blast
  have t0: "t \<noteq> 0" using sched_layoutD(3) [OF D(2)] tT by auto
  have ok: "word_ok (t + kThreadStateOffset)" "word_ok (t + kThreadSuspendOffset)"
    by (rule sched_layoutD(5) [OF D(2) tT]; simp)+
  note f = wii_fault [OF D(1)]
  define s1 where "s1 = s\<lparr>outstanding_parks := removeAll t (outstanding_parks s)\<rparr>"
  have s1: "wii s1" "mem s1 = mem s" "timers_kept t s s1"
    using D(1) mem_cong [of s1 s] by (simp_all add: s1_def wii_def timers_keptI)
  have c1: "calm s1" using calm by (simp add: s1_def calm_def)
  have r1: "susp_rep c q T R st pr s1 cnt rq" by (rule susp_rep_frame [OF r s1(1)]) (simp add: s1(2))
  have cond: "run_state (get_host (\<lambda>s. \<not> (t = 0 \<or> \<not> Contains (regions s) (t + kThreadSuspendOffset) 4))) s = (True, s)"
    using wii_contains [OF D(1) ok(2)] t0 f by (simp add: run_simps)
  have st: "run_state (Read16 (t + kThreadStateOffset)) s = (kThreadStateReady, s)"
    using run_read16 [OF D(1) ok(1)] D(7) [OF t] by simp
  have ct: "run_state (Read32 (t + kThreadSuspendOffset)) s = (of_nat (cnt t), s)"
    using run_read32 [OF D(1) ok(2)] D(8) [OF t] by simp
  have clr: "run_state (ClearOutstandingPark t) s = ((), s1)" using f by (simp add: ClearOutstandingPark_def run_simps s1_def)
  have nr: "kThreadStateReady \<noteq> kThreadStateRunning" by (simp add: kThreadStateReady_def kThreadStateRunning_def)
  have run: "run_state (fire_sleep_timer W fuel now t) s =
      (if cnt t = 0 then ((), s1) else run_state (do { gpr_put 3 t; OSResumeThread W fuel }) s1)"
    unfolding fire_sleep_timer_def run_seq [OF cond] whenM_def if_True run_seq [OF st] run_seq [OF ct] sint_count [OF n]
    using nr clr run_seq [OF clr] by simp
  show ?thesis
  proof (cases "cnt t = 0")
    case True
    moreover from True have "susp_spec pr (Resume t) (cnt, rq) = (cnt, rq)" by (simp add: fun_upd_idem)
    ultimately show ?thesis using run r1 s1(3) by simp
  next
    case False
    let ?s' = "susp_call W fuel (Resume t) s1"
    have "run_state (do { gpr_put 3 t; OSResumeThread W fuel }) s1 = ((), ?s')"
      using wii_fault [OF s1(1)] by (simp add: run_simps prod_eq_iff)
    moreover note C = run_susp_call [OF r1, of "Resume t", simplified, OF t n fuel W c1]
    ultimately show ?thesis
      using run False C(3,4) timers_kept_trans [OF s1(3)] by (intro exI [of _ ?s']) simp
  qed
qed

lemma calm_scan: "calm s \<Longrightarrow> host_clock s i < strand_scan_due s"
  by (simp add: calm_def)

text \<open>The pump with nothing to do only reads the clock: so the pump that \<open>SelectThread\<close> calls may be
  \<open>ProcessSleepTimers\<close> itself.\<close>

lemma run_calm_pump:
  assumes "wii s" "calm s"
  shows "run_state (ProcessSleepTimers W fuel) s = (False, s\<lparr>host_clock := (\<lambda>i. host_clock s (1 + i))\<rparr>)"
proof -
  define s1 where "s1 = s\<lparr>host_clock := (\<lambda>i. host_clock s (1 + i))\<rparr>"
  have f: "fault s = None" by (rule wii_fault [OF assms(1)])
  have none: "filter (\<lambda>(t, deadline). deadline \<le> host_clock s 0) (sleep_timers s) = []"
    "filter (\<lambda>(t, deadline). host_clock s 0 < deadline) (sleep_timers s) = sleep_timers s"
  proof -
    have "host_clock s 0 < snd x" if "x \<in> set (sleep_timers s)" for x using assms(2) that by (simp add: calm_def)
    then show "filter (\<lambda>(t, deadline). deadline \<le> host_clock s 0) (sleep_timers s) = []"
      "filter (\<lambda>(t, deadline). host_clock s 0 < deadline) (sleep_timers s) = sleep_timers s"
      by (fastforce simp: filter_empty_conv filter_id_conv)+
  qed
  have clock: "run_state steady_now s = (host_clock s 0, s1)" using f by (simp add: run_simps s1_def)
  have due: "run_state (take_due_timers (host_clock s 0)) s1 = ([], s1)"
    using f none by (simp add: take_due_timers_def run_simps s1_def not_less)
  have fire: "run_state (fire_sleep_timers W fuel (host_clock s 0) []) s1 = ((), s1)" by (simp add: run_return)
  have scan: "run_state (claim_strand_scan (host_clock s 0)) s1 = (False, s1)"
    using calm_scan [OF assms(2), of 0] by (simp add: claim_strand_scan_def run_simps s1_def)
  show ?thesis
    unfolding ProcessSleepTimers_def run_seq [OF clock] run_seq [OF due] run_seq [OF fire] run_seq [OF scan]
    by (simp add: whenM_def run_return s1_def run_bind)
qed

lemma calm_pump_tied: "calm_pump (with_sleep_timers (Suc n) fuel W)"
  by (auto simp: calm_pump_def run_bind run_return run_calm_pump intro: exI [of _ 1])

text \<open>A timer of a thread that is not ready: one of a running thread gets two more milliseconds, any other
  is dropped, and so is one of something that is no thread.\<close>

lemma run_other_timer:
  assumes r: "susp_rep c q T R st pr s cnt rq" and t: "t \<in> T - R" "st t \<noteq> kThreadStateReady"
    and fresh: "t \<notin> fst ` set (sleep_timers s)"
  shows "\<exists>s'. run_state (fire_sleep_timer W fuel now t) s = ((), s') \<and> susp_rep c q T R st pr s' cnt rq \<and>
    strand_scan_due s' = strand_scan_due s \<and> host_clock s' = host_clock s \<and>
    sleep_timers s' = sleep_timers s @ (if st t = kThreadStateRunning then [(t, now + 2000000)] else [])"
proof -
  note D = susp_repD [OF r]
  have tT: "t \<in> T" using t(1) by blast
  have t0: "t \<noteq> 0" using sched_layoutD(3) [OF D(2)] tT by auto
  have ok: "word_ok (t + kThreadStateOffset)" "word_ok (t + kThreadSuspendOffset)"
    by (rule sched_layoutD(5) [OF D(2) tT]; simp)+
  note f = wii_fault [OF D(1)]
  have cond: "run_state (get_host (\<lambda>s. \<not> (t = 0 \<or> \<not> Contains (regions s) (t + kThreadSuspendOffset) 4))) s = (True, s)"
    using wii_contains [OF D(1) ok(2)] t0 f by (simp add: run_simps)
  have state: "run_state (Read16 (t + kThreadStateOffset)) s = (st t, s)"
    using run_read16 [OF D(1) ok(1)] D(18) [OF t(1)] by simp
  have ct: "run_state (Read32 (t + kThreadSuspendOffset)) s = (mem s (t + kThreadSuspendOffset), s)"
    using run_read32 [OF D(1) ok(2)] by simp
  define s' where "s' = (if st t = kThreadStateRunning then s\<lparr>sleep_timers := sleep_timers s @ [(t, now + 2000000)]\<rparr>
    else s\<lparr>outstanding_parks := removeAll t (outstanding_parks s)\<rparr>)"
  have s': "wii s'" "mem s' = mem s" using D(1) mem_cong [of s' s] by (simp_all add: s'_def wii_def)
  have "\<not> (\<exists>(x, deadline)\<in>set (sleep_timers s). x = t)" using fresh by force
  then have "run_state (fire_sleep_timer W fuel now t) s = ((), s')"
    unfolding fire_sleep_timer_def run_seq [OF cond] whenM_def if_True run_seq [OF state] run_seq [OF ct]
    using t(2) f by (simp add: SleepTimerIsPending_def ClearOutstandingPark_def run_simps s'_def)
  moreover have "susp_rep c q T R st pr s' cnt rq" by (rule susp_rep_frame [OF r s'(1)]) (simp add: s'(2))
  ultimately show ?thesis by (intro exI [of _ s']) (simp add: s'_def)
qed

lemma run_no_thread_timer:
  assumes "wii s" "t = 0 \<or> \<not> Contains WiiDefaults (t + kThreadSuspendOffset) 4"
  shows "run_state (fire_sleep_timer W fuel now t) s = ((), s)"
  using assms by (auto simp: fire_sleep_timer_def run_simps wii_def)

text \<open>All timers that are due, in the order of the table.  What a due timer of \<open>t\<close> may be: of a ready thread,
  of a thread in another state, or of no thread.\<close>

definition timer_kind :: "u32 set \<Rightarrow> u32 set \<Rightarrow> (u32 \<Rightarrow> u16) \<Rightarrow> u32 \<Rightarrow> bool" where
  "timer_kind T R st t \<longleftrightarrow> t \<in> R \<or> (t \<in> T - R \<and> st t \<noteq> kThreadStateReady) \<or>
     (t \<notin> T \<and> (t = 0 \<or> \<not> Contains WiiDefaults (t + kThreadSuspendOffset) 4))"

definition deferred :: "u32 set \<Rightarrow> u32 set \<Rightarrow> (u32 \<Rightarrow> u16) \<Rightarrow> nat \<Rightarrow> u32 list \<Rightarrow> (u32 \<times> nat) list" where
  "deferred T R st now due = map (\<lambda>t. (t, now + 2000000)) (filter (\<lambda>t. t \<in> T - R \<and> st t = kThreadStateRunning) due)"

definition resumed :: "u32 set \<Rightarrow> (u32 \<Rightarrow> nat) \<Rightarrow> u32 list \<Rightarrow> (u32 \<Rightarrow> nat) \<times> (nat \<Rightarrow> u32 list) \<Rightarrow> (u32 \<Rightarrow> nat) \<times> (nat \<Rightarrow> u32 list)" where
  "resumed R pr due = fold (susp_spec pr) (map Resume (filter (\<lambda>t. t \<in> R) due))"

lemma calm_subset:
  assumes "calm s" "strand_scan_due s' = strand_scan_due s" "host_clock s' = (\<lambda>i. host_clock s (k + i))"
    and "set (sleep_timers s') \<subseteq> set (sleep_timers s)"
  shows "calm s'"
  using assms by (auto simp: calm_def)

lemma run_fire_sleep_timers:
  assumes "susp_rep c q T R st pr s cnt rq" "\<forall>t\<in>set due. timer_kind T R st t" "\<forall>t\<in>R. cnt t < 2147483648" "card R < fuel"
    and W: "calm_pump W" and "R \<subseteq> T" "distinct due" "set due \<inter> fst ` set (sleep_timers s) = {}"
    and "calm (s\<lparr>sleep_timers := sleep_timers s @ deferred T R st now due\<rparr>)" "map fst timers = due"
  shows "\<exists>s'. run_state (fire_sleep_timers W fuel now timers) s = ((), s') \<and>
    strand_scan_due s' = strand_scan_due s \<and> sleep_timers s' = sleep_timers s @ deferred T R st now due \<and> calm s' \<and>
    susp_rep c q T R st pr s' (fst (resumed R pr due (cnt, rq))) (snd (resumed R pr due (cnt, rq)))"
  using assms(1-4,6-10)
proof (induction timers arbitrary: s cnt rq due)
  case Nil
  then show ?case by (auto simp: run_simps deferred_def resumed_def)
next
  case (Cons x timers)
  define t where "t = fst x"
  define ts where "ts = map fst timers"
  have due: "due = t # ts" using Cons.prems(9) by (simp add: t_def ts_def)
  have calm: "calm s"
    by (rule calm_subset [OF Cons.prems(8), where k = 0]) auto
  define d where "d = (if t \<in> T - R \<and> st t = kThreadStateRunning then [(t, now + 2000000)] else [])"
  define r1 where "r1 = (if t \<in> R then susp_spec pr (Resume t) (cnt, rq) else (cnt, rq))"
  obtain s1 k where s1: "run_state (fire_sleep_timer W fuel now t) s = ((), s1)" "strand_scan_due s1 = strand_scan_due s"
    "host_clock s1 = (\<lambda>i. host_clock s (k + i))" "sleep_timers s1 = sleep_timers s @ d"
    "susp_rep c q T R st pr s1 (fst r1) (snd r1)"
  proof -
    have fresh: "t \<notin> fst ` set (sleep_timers s)" using Cons.prems(7) due by simp
    have same: "filter (\<lambda>(x, deadline). x \<noteq> t) (sleep_timers s) = sleep_timers s"
      using fresh by (force simp: filter_id_conv)
    have "timer_kind T R st t" using Cons.prems(2) due by simp
    then consider "t \<in> R" | "t \<in> T - R" "st t \<noteq> kThreadStateReady" | "t \<notin> T" "t = 0 \<or> \<not> Contains WiiDefaults (t + kThreadSuspendOffset) 4"
      by (auto simp: timer_kind_def)
    then show thesis
    proof cases
      case 1
      then have n: "cnt t < 2147483648" using Cons.prems(3) by blast
      obtain s' where s': "run_state (fire_sleep_timer W fuel now t) s = ((), s')" "timers_kept t s s'"
        "susp_rep c q T R st pr s' (fst r1) (snd r1)"
        using run_fire_sleep_timer [OF Cons.prems(1) 1 n Cons.prems(4) W calm] 1 by (auto simp: r1_def)
      from s'(2) obtain k where "host_clock s' = (\<lambda>i. host_clock s (k + i))" by (auto simp: timers_kept_def)
      then show ?thesis using that s' same 1 by (auto simp: timers_kept_def d_def)
    next
      case 2
      show ?thesis using run_other_timer [OF Cons.prems(1) 2 fresh] that [of _ 0] 2 by (auto simp: d_def r1_def)
    next
      case 3
      then have "t \<notin> R" using Cons.prems(5) by blast
      then show ?thesis
        using run_no_thread_timer [OF susp_repD(1) [OF Cons.prems(1)] 3(2)] that [of s 0] 3 Cons.prems(1) by (simp add: d_def r1_def)
    qed
  qed
  have dd: "deferred T R st now due = d @ deferred T R st now ts" by (simp add: deferred_def due d_def)
  have cl: "calm (s1\<lparr>sleep_timers := sleep_timers s1 @ deferred T R st now ts\<rparr>)"
    by (rule calm_subset [OF Cons.prems(8), where k = k]) (use s1 dd in auto)
  have disj: "set ts \<inter> fst ` set (sleep_timers s1) = {}"
    using Cons.prems(6,7) due s1(4) by (auto simp: d_def)
  have bound: "\<forall>t\<in>R. fst r1 t < 2147483648"
    using Cons.prems(3) less_imp_diff_less by (auto simp: r1_def)
  have kinds: "\<forall>t\<in>set ts. timer_kind T R st t" "distinct ts" using Cons.prems(2,6) due by simp_all
  obtain s2 where s2: "run_state (fire_sleep_timers W fuel now timers) s1 = ((), s2)" "strand_scan_due s2 = strand_scan_due s1"
    "sleep_timers s2 = sleep_timers s1 @ deferred T R st now ts" "calm s2"
    "susp_rep c q T R st pr s2 (fst (resumed R pr ts r1)) (snd (resumed R pr ts r1))"
    using Cons.IH [OF s1(5) kinds(1) bound Cons.prems(4,5) kinds(2) disj cl ts_def [symmetric]] by auto
  have "run_state (fire_sleep_timers W fuel now (x # timers)) s = ((), s2)"
    using s1(1) s2(1) by (simp add: run_bind t_def)
  moreover have "resumed R pr due (cnt, rq) = resumed R pr ts r1" by (simp add: resumed_def due r1_def)
  ultimately show ?case using s2(2-5) s1(2,4) dd by (intro exI [of _ s2]) simp
qed

text \<open>C27: The sleep timer pump, with the scheduler disabled and between two scans of the reconciler.  When
  \<open>ProcessSleepTimers\<close> runs, exactly the timers whose deadline has passed are taken out, in the order of the
  table.  The ready threads among theirs are resumed one level each: the run queues and suspension counts
  become those of the corresponding \<open>OSResumeThread\<close> calls.  A running thread, which is on its way to
  park, keeps its timer for two more milliseconds.  The timers of threads in any other state and of what is
  no thread are dropped, and no thread's state is changed.  Nothing else enters or leaves the table, and
  the result says whether any timer was due.\<close>

theorem due_sleepers_are_resumed:
  assumes "susp_rep c q T R st pr s cnt rq" "distinct (map fst (sleep_timers s))" "\<forall>t\<in>fst ` set (sleep_timers s). timer_kind T R st t"
    and "\<forall>t\<in>R. cnt t < 2147483648" "card R < fuel" "calm_pump W"
    and "due = map fst (filter (\<lambda>(t, deadline). deadline \<le> host_clock s 0) (sleep_timers s))"
    and "table = filter (\<lambda>(t, deadline). host_clock s 0 < deadline) (sleep_timers s) @
      map (\<lambda>t. (t, host_clock s 0 + 2000000)) (filter (\<lambda>t. t \<in> T - R \<and> st t = kThreadStateRunning) due)"
    and "calm (s\<lparr>sleep_timers := table\<rparr>)"
  shows "case run_state (ProcessSleepTimers W fuel) s of (woke, s') \<Rightarrow>
    (let ops = map Resume (filter (\<lambda>t. t \<in> R) due) in
      woke = (due \<noteq> []) \<and> sleep_timers s' = table \<and>
      susp_rep c q T R st pr s' (fst (fold (susp_spec pr) ops (cnt, rq))) (snd (fold (susp_spec pr) ops (cnt, rq))))"
proof -
  define now where "now = host_clock s 0"
  define timers where "timers = filter (\<lambda>(t, deadline). deadline \<le> now) (sleep_timers s)"
  define rest where "rest = filter (\<lambda>(t, deadline). now < deadline) (sleep_timers s)"
  define s1 where "s1 = s\<lparr>host_clock := (\<lambda>i. host_clock s (Suc i)), sleep_timers := rest\<rparr>"
  note D = susp_repD [OF assms(1)]
  note f = wii_fault [OF D(1)]
  have due: "map fst timers = due" using assms(7) by (simp add: timers_def now_def)
  have table: "table = rest @ deferred T R st now due" using assms(8) by (simp add: rest_def now_def deferred_def)
  have s1: "wii s1" "mem s1 = mem s" using D(1) mem_cong [of s1 s] by (simp_all add: s1_def wii_def)
  have r1: "susp_rep c q T R st pr s1 cnt rq" by (rule susp_rep_frame [OF assms(1) s1(1)]) (simp add: s1(2))
  have kinds: "\<forall>t\<in>set due. timer_kind T R st t" using assms(3) unfolding due [symmetric] timers_def by auto
  have dist: "distinct due" using assms(2) unfolding due [symmetric] timers_def by (simp add: distinct_map_filter)
  have disj: "set due \<inter> fst ` set (sleep_timers s1) = {}"
  proof -
    have "y = z" if "y \<in> set (sleep_timers s)" "z \<in> set (sleep_timers s)" "fst y = fst z" for y z
      using assms(2) that by (auto simp: distinct_map inj_on_def)
    then show ?thesis unfolding due [symmetric] by (fastforce simp: timers_def rest_def s1_def)
  qed
  have calm: "calm (s1\<lparr>sleep_timers := sleep_timers s1 @ deferred T R st now due\<rparr>)"
    by (rule calm_subset [OF assms(9), where k = 1]) (simp_all add: s1_def table)
  obtain s2 where s2: "run_state (fire_sleep_timers W fuel now timers) s1 = ((), s2)" "strand_scan_due s2 = strand_scan_due s1"
    "sleep_timers s2 = table" "susp_rep c q T R st pr s2 (fst (resumed R pr due (cnt, rq))) (snd (resumed R pr due (cnt, rq)))"
    using run_fire_sleep_timers [OF r1 kinds assms(4-6) D(4) dist disj calm due] by (auto simp: s1_def table)
  have clock: "run_state steady_now s = (now, s\<lparr>host_clock := (\<lambda>i. host_clock s (Suc i))\<rparr>)"
    using f by (simp add: run_simps now_def)
  have due1: "run_state (take_due_timers now) (s\<lparr>host_clock := (\<lambda>i. host_clock s (Suc i))\<rparr>) = (timers, s1)"
    using f unfolding take_due_timers_def
    by (simp only: run_bind run_get_host run_put_host prod.case) (simp add: timers_def rest_def s1_def not_less run_simps)
  have "\<not> strand_scan_due s2 \<le> now" using s2(2) calm_scan [OF assms(9), of 0] by (simp add: s1_def now_def)
  then have scan: "run_state (claim_strand_scan now) s2 = (False, s2)"
    using wii_fault [OF susp_repD(1) [OF s2(4)]] by (simp add: claim_strand_scan_def run_simps)
  have "run_state (ProcessSleepTimers W fuel) s = (timers \<noteq> [], s2)"
    unfolding ProcessSleepTimers_def run_seq [OF clock] run_seq [OF due1] run_seq [OF s2(1)] run_seq [OF scan]
    by (simp add: whenM_def run_simps)
  moreover have "(timers \<noteq> []) = (due \<noteq> [])" unfolding due [symmetric] by simp
  ultimately show ?thesis using s2(3,4) by (simp add: Let_def resumed_def)
qed

text \<open>One parked thread and one on its way to park, both timers due, and one that is not.\<close>

definition demo_sleepers :: os_machine where
  "demo_sleepers = (wr32 0x804012C8 0x00020000 demo_suspended)\<lparr>host_clock := (\<lambda>_. 10), strand_scan_due := 1000,
     sleep_timers := [(0x80400000, 5), (0x80401000, 7), (0, 50)]\<rparr>"

lemma demo_sleepers_rep:
  "susp_rep 0 0x80402000 {0x80400000, 0x80401000} {0x80400000} (\<lambda>_. kThreadStateRunning) (\<lambda>_. 16) demo_sleepers (\<lambda>_. 1) (\<lambda>_. [])"
proof -
  let ?m = "suspended_mem(0x804012C8 := 0x00020000)"
  have ok: "word_ok 0x804012C8" by (simp add: layout_eval)
  have m: "mem demo_sleepers = ?m"
    using mem_cong [of demo_sleepers "wr32 0x804012C8 0x00020000 demo_suspended"] ok demo_suspended_facts(2) by (simp add: demo_sleepers_def)
  have w: "wii demo_sleepers" using demo_suspended_facts(1) by (simp add: demo_sleepers_def wii_def wr32_def)
  have z: "suspended_mem (rq_addr i) = 0" "suspended_mem (rq_addr i + 4) = 0" "rq_addr i \<noteq> 0x804012C8" "rq_addr i + 4 \<noteq> 0x804012C8" if "i < 32" for i
    using that by (auto simp: suspended_mem_def word_unat_eq_iff unat_rq_addr kernel_words)
  have "sched_inv ?m 0x80402000 {0x80400000, 0x80401000} [] (\<lambda>_. [])"
    unfolding sched_inv_def by (auto simp: dlist_def z) (simp_all add: suspended_mem_def thread_offsets kernel_words)
  then show ?thesis
    unfolding susp_rep_def m using w
    by (simp add: demo_layout) (simp add: suspended_mem_def thread_offsets kernel_words hi16_def kThreadStateReady_def kThreadStateRunning_def)
qed

lemma due_sleepers_are_resumed_witness:
  "case run_state (ProcessSleepTimers (with_sleep_timers 1 3 quiet_world) 3) demo_sleepers of (woke, s') \<Rightarrow>
     woke \<and> sleep_timers s' = [(0, 50), (0x80401000, 2000010)] \<and> thread_queue (mem s') (rq_addr 16) [0x80400000]"
proof -
  let ?T = "{0x80400000, 0x80401000} :: u32 set" and ?pr = "\<lambda>_. 16 :: nat" and ?st = "\<lambda>_. kThreadStateRunning"
  have W: "calm_pump (with_sleep_timers 1 3 quiet_world)" using calm_pump_tied [of 0 3 quiet_world] by simp
  have tm: "sleep_timers demo_sleepers = [(0x80400000, 5), (0x80401000, 7), (0, 50)]" "host_clock demo_sleepers = (\<lambda>_. 10)"
    "strand_scan_due demo_sleepers = 1000" by (simp_all add: demo_sleepers_def)
  have rr: "kThreadStateRunning \<noteq> kThreadStateReady" by (simp add: kThreadStateReady_def kThreadStateRunning_def)
  have H: "distinct (map fst (sleep_timers demo_sleepers))"
    "\<forall>t\<in>fst ` set (sleep_timers demo_sleepers). timer_kind ?T {0x80400000} ?st t"
    "\<forall>t\<in>{0x80400000 :: u32}. (1 :: nat) < 2147483648" "card {0x80400000 :: u32} < 3"
    "[0x80400000, 0x80401000] = map fst (filter (\<lambda>(t, deadline). deadline \<le> host_clock demo_sleepers 0) (sleep_timers demo_sleepers))"
    "[(0, 50), (0x80401000, 2000010)] = filter (\<lambda>(t, deadline). host_clock demo_sleepers 0 < deadline) (sleep_timers demo_sleepers) @
      map (\<lambda>t. (t, host_clock demo_sleepers 0 + 2000000)) (filter (\<lambda>t. t \<in> ?T - {0x80400000} \<and> ?st t = kThreadStateRunning) [0x80400000, 0x80401000])"
    "calm (demo_sleepers\<lparr>sleep_timers := [(0, 50), (0x80401000, 2000010)]\<rparr>)"
    using rr by (simp_all add: tm timer_kind_def calm_def)
  obtain woke s' where rs: "run_state (ProcessSleepTimers (with_sleep_timers 1 3 quiet_world) 3) demo_sleepers = (woke, s')" by fastforce
  have P: "woke" "sleep_timers s' = [(0, 50), (0x80401000, 2000010)]"
    "susp_rep 0 0x80402000 ?T {0x80400000} ?st ?pr s' (fst (susp_spec ?pr (Resume 0x80400000) (\<lambda>_. 1, \<lambda>_. [])))
      (snd (susp_spec ?pr (Resume 0x80400000) (\<lambda>_. 1, \<lambda>_. [])))"
    using due_sleepers_are_resumed [OF demo_sleepers_rep H(1-4) W H(5-7)] unfolding rs prod.case Let_def by simp_all
  have "sched_inv (mem s') 0x80402000 ?T [] ((\<lambda>_. [])(16 := [0x80400000]))"
    using susp_repD(3) [OF P(3)] by simp
  then have I: "thread_queue (mem s') (rq_addr i) (((\<lambda>_. [])(16 := [0x80400000])) i)" if "i < 32" for i
    using that unfolding sched_inv_def by blast
  have "thread_queue (mem s') (rq_addr 16) [0x80400000]" using I [of 16] by simp
  then show ?thesis using P(1,2) rs by simp
qed

end
