(* ===== verification/OsHeap.thy ===== *)
theory OsHeap
  imports Prelude
begin

text \<open>
  The arena heaps of \<open>aurora-main/lib/dolphin/os/OSAlloc.cpp\<close>: 32-byte cell headers in the
  arena, linked into an address-ordered free list and an unordered list of allocated cells.

  Host addresses are integers with 0 for \<open>nullptr\<close>; the header at address \<open>a\<close> is
  \<open>cell_at s a\<close>.  A \<open>HeapDesc*\<close> is its index in \<open>sHeapArray\<close>.  Sizes are \<open>s32\<close>: every conversion
  and sum is wrapped by \<open>s32\<close> (C++ leaves the overflow of a sum undefined; the theorems are about
  heaps smaller than 2 GiB, where none happens).  A walk along a corrupt list need not end: the
  walks are partial functions and not returning is \<open>None\<close>.
\<close>

section \<open>Data\<close>

record cell =
  cell_prev :: int
  cell_next :: int
  cell_size :: int
  cell_owner :: "nat option"

record heap_desc =
  desc_size :: int
  freeList :: int
  allocated :: int

record os_heaps =
  cell_at :: "int \<Rightarrow> cell"
  sHeapArray :: "heap_desc list option"
  sArenaStart :: int
  sArenaEnd :: int
  currHeap :: int

type_synonym cells = "int \<Rightarrow> cell"

definition kAlignment :: int where "kAlignment = 32"
definition kHeaderSize :: int where "kHeaderSize = 32"
definition kMinObjectSize :: int where "kMinObjectSize = 64"
definition kHeapDescBytes :: int where "kHeapDescBytes = 24"

definition s32 :: "int \<Rightarrow> int" where
  "s32 k = (k + 2147483648) mod 4294967296 - 2147483648"

definition uptr :: "int \<Rightarrow> int" where
  "uptr k = k mod 18446744073709551616"

definition roundUp32 :: "int \<Rightarrow> int" where
  "roundUp32 v = uptr (v + (kAlignment - 1)) div kAlignment * kAlignment"

definition roundDown32 :: "int \<Rightarrow> int" where
  "roundDown32 v = v div kAlignment * kAlignment"

definition inArena :: "int \<Rightarrow> os_heaps \<Rightarrow> bool" where
  "inArena p s \<longleftrightarrow> \<not> (sArenaStart s = 0 \<or> sArenaEnd s = 0) \<and> sArenaStart s \<le> p \<and> p < sArenaEnd s"

definition validHeapHandle :: "int \<Rightarrow> os_heaps \<Rightarrow> bool" where
  "validHeapHandle heap s = (case sHeapArray s of None \<Rightarrow> False
     | Some hds \<Rightarrow> 0 \<le> heap \<and> heap < int (length hds) \<and> 0 \<le> desc_size (hds ! nat heap))"

definition heap_at :: "os_heaps \<Rightarrow> nat \<Rightarrow> heap_desc" where
  "heap_at s h = the (sHeapArray s) ! h"

definition put_heap :: "nat \<Rightarrow> heap_desc \<Rightarrow> os_heaps \<Rightarrow> os_heaps" where
  "put_heap h d s = s\<lparr>sHeapArray := map_option (\<lambda>hds. hds[h := d]) (sHeapArray s)\<rparr>"

section \<open>Cell lists\<close>

definition set_prev :: "int \<Rightarrow> int \<Rightarrow> cells \<Rightarrow> cells" where
  "set_prev a v cs = cs(a := (cs a)\<lparr>cell_prev := v\<rparr>)"

definition set_next :: "int \<Rightarrow> int \<Rightarrow> cells \<Rightarrow> cells" where
  "set_next a v cs = cs(a := (cs a)\<lparr>cell_next := v\<rparr>)"

definition set_size :: "int \<Rightarrow> int \<Rightarrow> cells \<Rightarrow> cells" where
  "set_size a v cs = cs(a := (cs a)\<lparr>cell_size := v\<rparr>)"

definition set_owner :: "int \<Rightarrow> nat option \<Rightarrow> cells \<Rightarrow> cells" where
  "set_owner a v cs = cs(a := (cs a)\<lparr>cell_owner := v\<rparr>)"

definition addFront :: "int \<Rightarrow> int \<Rightarrow> cells \<Rightarrow> cells" where
  "addFront lst c cs =
    (let cs = set_next c lst (set_prev c 0 cs)
     in if lst \<noteq> 0 then set_prev lst c cs else cs)"

text \<open>\<open>extract\<close> returns the new head of the list.\<close>

definition extract_cell :: "int \<Rightarrow> int \<Rightarrow> cells \<Rightarrow> int \<times> cells" where
  "extract_cell lst c cs =
    (let cs = (if cell_next (cs c) \<noteq> 0 then set_prev (cell_next (cs c)) (cell_prev (cs c)) cs else cs)
     in if cell_prev (cs c) \<noteq> 0
        then (lst, set_next (cell_prev (cs c)) (cell_next (cs c)) cs)
        else (cell_next (cs c), cs))"

partial_function (option) containsCell :: "cells \<Rightarrow> int \<Rightarrow> int \<Rightarrow> bool option" where
  "containsCell cs it c =
    (if it = 0 then Some False else if it = c then Some True
     else containsCell cs (cell_next (cs it)) c)"

partial_function (option) insert_walk :: "cells \<Rightarrow> int \<Rightarrow> int \<Rightarrow> int \<Rightarrow> (int \<times> int) option" where
  "insert_walk cs c prev nxt =
    (if nxt \<noteq> 0 \<and> nxt < c then insert_walk cs c nxt (cell_next (cs nxt)) else Some (prev, nxt))"

definition link_between :: "int \<Rightarrow> int \<Rightarrow> int \<Rightarrow> int \<Rightarrow> cells \<Rightarrow> int \<times> cells" where
  "link_between lst prev c nxt cs =
    (let cs = set_next c nxt (set_prev c prev cs);
         (lst, cs) = (if prev \<noteq> 0 then (lst, set_next prev c cs) else (c, cs))
     in (lst, if nxt \<noteq> 0 then set_prev nxt c cs else cs))"

text \<open>Merging a cell with its right neighbour when they touch; the same update serves both sides.\<close>

definition absorb :: "int \<Rightarrow> int \<Rightarrow> cells \<Rightarrow> cells" where
  "absorb c right cs =
    (let cs = set_size c (s32 (cell_size (cs c) + cell_size (cs right))) cs;
         cs = set_next c (cell_next (cs right)) cs
     in if cell_next (cs right) \<noteq> 0 then set_prev (cell_next (cs right)) c cs else cs)"

definition coalesce_right :: "int \<Rightarrow> cells \<Rightarrow> cells" where
  "coalesce_right c cs =
    (let right = cell_next (cs c)
     in if right \<noteq> 0 \<and> c + cell_size (cs c) = right then absorb c right cs else cs)"

definition coalesce_left :: "int \<Rightarrow> cells \<Rightarrow> cells" where
  "coalesce_left c cs =
    (let left = cell_prev (cs c)
     in if left \<noteq> 0 \<and> left + cell_size (cs left) = c then absorb left c cs else cs)"

definition insertAndCoalesce :: "int \<Rightarrow> int \<Rightarrow> cells \<Rightarrow> (int \<times> cells) option" where
  "insertAndCoalesce lst c cs =
    (case insert_walk cs c 0 lst of None \<Rightarrow> None
     | Some (prev, nxt) \<Rightarrow>
         (let (lst, cs) = link_between lst prev c nxt cs
          in Some (lst, coalesce_left c (coalesce_right c cs))))"

definition validateBlockRange :: "int \<Rightarrow> int \<Rightarrow> os_heaps \<Rightarrow> bool" where
  "validateBlockRange start stop s \<longleftrightarrow>
     start < stop \<and> \<not> (sArenaStart s = 0 \<or> sArenaEnd s = 0) \<and>
     sArenaStart s \<le> start \<and> stop \<le> sArenaEnd s \<and> kMinObjectSize \<le> stop - start"

definition dropTinyCell :: "heap_desc \<Rightarrow> int \<Rightarrow> cells \<Rightarrow> heap_desc \<times> cells" where
  "dropTinyCell d c cs =
    (let (lst, cs) = extract_cell (freeList d) c cs
     in (d\<lparr>freeList := lst, desc_size := s32 (desc_size d - cell_size (cs c))\<rparr>, cs))"

text \<open>Replacing the free cell \<open>c\<close> by a new cell header at \<open>at\<close>, of size \<open>sz\<close>, at its place in the list.\<close>

definition replace_cell :: "heap_desc \<Rightarrow> int \<Rightarrow> int \<Rightarrow> int \<Rightarrow> cells \<Rightarrow> heap_desc \<times> cells" where
  "replace_cell d c at sz cs =
    (let cs = set_owner at None (set_size at sz cs);
         cs = set_prev at (cell_prev (cs c)) cs;
         cs = set_next at (cell_next (cs c)) cs;
         (d, cs) = (if cell_prev (cs at) \<noteq> 0 then (d, set_next (cell_prev (cs at)) at cs)
                     else (d\<lparr>freeList := at\<rparr>, cs))
     in (d, if cell_next (cs at) \<noteq> 0 then set_prev (cell_next (cs at)) at cs else cs))"

definition carve_cell :: "int \<Rightarrow> int \<Rightarrow> int \<Rightarrow> heap_desc \<Rightarrow> cells \<Rightarrow> heap_desc \<times> cells" where
  "carve_cell carveStart carveEnd c d cs =
    (let cellStart = c; cellEnd = uptr (cellStart + cell_size (cs c));
         overlapStart = (if carveStart > cellStart then carveStart else cellStart);
         overlapEnd = (if carveEnd < cellEnd then carveEnd else cellEnd)
     in if overlapStart \<ge> overlapEnd then (d, cs)
        else
          let removed = s32 (overlapEnd - overlapStart);
              d = d\<lparr>desc_size := s32 (desc_size d - removed)\<rparr>;
              cutHead = (overlapStart = cellStart); cutTail = (overlapEnd = cellEnd);
              leftSize = s32 (overlapStart - cellStart); rightSize = s32 (cellEnd - overlapEnd)
          in if cutHead \<and> cutTail then
               (let (lst, cs) = extract_cell (freeList d) c cs in (d\<lparr>freeList := lst\<rparr>, cs))
             else if cutHead then
               (let (d, cs) = replace_cell d c overlapEnd rightSize cs
                in if rightSize < kMinObjectSize then dropTinyCell d overlapEnd cs else (d, cs))
             else if cutTail then
               (let cs = set_size c leftSize cs
                in if leftSize < kMinObjectSize then dropTinyCell d c cs else (d, cs))
             else if kMinObjectSize \<le> leftSize \<and> kMinObjectSize \<le> rightSize then
               (let right = overlapEnd;
                    cs = set_owner right None (set_size right rightSize cs);
                    cs = set_next right (cell_next (cs c)) (set_prev right c cs);
                    cs = (if cell_next (cs right) \<noteq> 0 then set_prev (cell_next (cs right)) right cs else cs)
                in (d, set_size c leftSize (set_next c right cs)))
             else if kMinObjectSize \<le> leftSize then (d, set_size c leftSize cs)
             else if kMinObjectSize \<le> rightSize then replace_cell d c overlapEnd rightSize cs
             else (let (lst, cs) = extract_cell (freeList d) c cs in (d\<lparr>freeList := lst\<rparr>, cs)))"

partial_function (option) carve_loop ::
    "int \<Rightarrow> int \<Rightarrow> int \<Rightarrow> heap_desc \<Rightarrow> cells \<Rightarrow> (heap_desc \<times> cells) option" where
  "carve_loop carveStart carveEnd c d cs =
    (if c = 0 then Some (d, cs)
     else let nextCell = cell_next (cs c)
          in (case carve_cell carveStart carveEnd c d cs of
               (d, cs) \<Rightarrow> carve_loop carveStart carveEnd nextCell d cs))"

definition carveRangeFromHeap :: "int \<Rightarrow> int \<Rightarrow> heap_desc \<Rightarrow> cells \<Rightarrow> (heap_desc \<times> cells) option" where
  "carveRangeFromHeap carveStart carveEnd d cs = carve_loop carveStart carveEnd (freeList d) d cs"

section \<open>Operations\<close>

definition OSInitAlloc :: "int \<Rightarrow> int \<Rightarrow> int \<Rightarrow> os_heaps \<Rightarrow> int \<times> os_heaps" where
  "OSInitAlloc arenaStart arenaEnd maxHeaps s =
    (if arenaStart = 0 \<or> arenaEnd = 0 \<or> maxHeaps \<le> 0 then (0, s)
     else if arenaStart \<ge> arenaEnd then (0, s)
     else let arrayBytes = maxHeaps * kHeapDescBytes
       in if arenaEnd - arenaStart < arrayBytes + kMinObjectSize then (0, s)
          else let s = s\<lparr>sHeapArray := Some (replicate (nat maxHeaps) \<lparr>desc_size = -1, freeList = 0, allocated = 0\<rparr>),
                     currHeap := -1, sArenaStart := roundUp32 (arenaStart + arrayBytes),
                     sArenaEnd := roundDown32 arenaEnd\<rparr>
               in if sArenaEnd s \<le> sArenaStart s \<or> sArenaEnd s - sArenaStart s < kMinObjectSize
                  then (0, s\<lparr>sHeapArray := None, sArenaStart := 0, sArenaEnd := 0\<rparr>)
                  else (sArenaStart s, s))"

definition OSCreateHeap :: "int \<Rightarrow> int \<Rightarrow> os_heaps \<Rightarrow> int \<times> os_heaps" where
  "OSCreateHeap start stop s =
    (case sHeapArray s of None \<Rightarrow> (-1, s)
     | Some hds \<Rightarrow>
         let blockStart = roundUp32 start; blockEnd = roundDown32 stop
         in if \<not> validateBlockRange blockStart blockEnd s then (-1, s)
            else (case List.find (\<lambda>h. \<not> 0 \<le> desc_size (hds ! h)) [0..<length hds] of
                    None \<Rightarrow> (-1, s)
                  | Some h \<Rightarrow>
                      let sz = s32 (blockEnd - blockStart);
                          c = \<lparr>cell_prev = 0, cell_next = 0, cell_size = sz, cell_owner = None\<rparr>
                      in (int h, put_heap h \<lparr>desc_size = sz, freeList = blockStart, allocated = 0\<rparr>
                            (s\<lparr>cell_at := (cell_at s)(blockStart := c)\<rparr>))))"

definition OSDestroyHeap :: "int \<Rightarrow> os_heaps \<Rightarrow> os_heaps" where
  "OSDestroyHeap heap s =
    (if \<not> validHeapHandle heap s then s
     else let s = put_heap (nat heap) \<lparr>desc_size = -1, freeList = 0, allocated = 0\<rparr> s
          in if currHeap s = heap then s\<lparr>currHeap := -1\<rparr> else s)"

definition OSAddToHeap :: "int \<Rightarrow> int \<Rightarrow> int \<Rightarrow> os_heaps \<Rightarrow> os_heaps option" where
  "OSAddToHeap heap start stop s =
    (if \<not> validHeapHandle heap s then Some s
     else let blockStart = roundUp32 start; blockEnd = roundDown32 stop
       in if \<not> validateBlockRange blockStart blockEnd s then Some s
          else let h = nat heap; d = heap_at s h;
                 c = \<lparr>cell_prev = 0, cell_next = 0, cell_size = s32 (blockEnd - blockStart), cell_owner = None\<rparr>
               in (case insertAndCoalesce (freeList d) blockStart ((cell_at s)(blockStart := c)) of
                     None \<Rightarrow> None
                   | Some (lst, cs) \<Rightarrow>
                       Some (put_heap h (d\<lparr>freeList := lst,
                               desc_size := s32 (desc_size d + cell_size (cs blockStart))\<rparr>)
                             (s\<lparr>cell_at := cs\<rparr>))))"

text \<open>The first-fit search of \<open>OSAllocFromHeap\<close>.\<close>

partial_function (option) first_fit :: "cells \<Rightarrow> int \<Rightarrow> int \<Rightarrow> int option" where
  "first_fit cs requested c =
    (if c \<noteq> 0 \<and> cell_size (cs c) < requested then first_fit cs requested (cell_next (cs c)) else Some c)"

text \<open>Cutting \<open>requested\<close> bytes off the front of the free cell \<open>c\<close>, or taking all of it.\<close>

definition take_cell :: "int \<Rightarrow> int \<Rightarrow> heap_desc \<Rightarrow> cells \<Rightarrow> heap_desc \<times> cells" where
  "take_cell requested c d cs =
    (let leftover = s32 (cell_size (cs c) - requested)
     in if leftover < kMinObjectSize then
          (let (lst, cs) = extract_cell (freeList d) c cs in (d\<lparr>freeList := lst\<rparr>, cs))
        else let (d, cs) = replace_cell d c (c + requested) leftover cs
             in (d, set_size c requested cs))"

definition OSAllocFromHeap :: "int \<Rightarrow> int \<Rightarrow> os_heaps \<Rightarrow> (int \<times> os_heaps) option" where
  "OSAllocFromHeap heap sz s =
    (if \<not> validHeapHandle heap s \<or> sz = 0 then Some (0, s)
     else let h = nat heap; d = heap_at s h;
              requested = s32 (roundUp32 (sz + kHeaderSize))
          in (case first_fit (cell_at s) requested (freeList d) of
                None \<Rightarrow> None
              | Some c \<Rightarrow>
                  if c = 0 then Some (0, s)
                  else let (d, cs) = take_cell requested c d (cell_at s);
                           cs = addFront (allocated d) c (set_owner c (Some h) cs)
                       in Some (c + kHeaderSize, put_heap h (d\<lparr>allocated := c\<rparr>) (s\<lparr>cell_at := cs\<rparr>))))"

definition OSFreeToHeap :: "int \<Rightarrow> int \<Rightarrow> os_heaps \<Rightarrow> os_heaps option" where
  "OSFreeToHeap heap ptr s =
    (if \<not> validHeapHandle heap s \<or> ptr = 0 then Some s
     else if \<not> inArena ptr s \<or> ptr mod kAlignment \<noteq> 0 then Some s
     else let h = nat heap; d = heap_at s h; c = ptr - kHeaderSize
       in if cell_owner (cell_at s c) \<noteq> Some h then Some s
          else (case containsCell (cell_at s) (allocated d) c of
                  None \<Rightarrow> None
                | Some False \<Rightarrow> Some s
                | Some True \<Rightarrow>
                    let (alst, cs) = extract_cell (allocated d) c (cell_at s)
                    in (case insertAndCoalesce (freeList d) c (set_owner c None cs) of
                          None \<Rightarrow> None
                        | Some (flst, cs) \<Rightarrow>
                            Some (put_heap h (d\<lparr>allocated := alst, freeList := flst\<rparr>) (s\<lparr>cell_at := cs\<rparr>)))))"

definition OSSetCurrentHeap :: "int \<Rightarrow> os_heaps \<Rightarrow> int \<times> os_heaps" where
  "OSSetCurrentHeap heap s =
    (currHeap s, if heap = -1 \<or> validHeapHandle heap s then s\<lparr>currHeap := heap\<rparr> else s)"

fun carve_heaps :: "int \<Rightarrow> int \<Rightarrow> nat list \<Rightarrow> os_heaps \<Rightarrow> os_heaps option" where
  "carve_heaps fixedStart fixedEnd [] s = Some s"
| "carve_heaps fixedStart fixedEnd (h # hs) s =
    (if 0 \<le> desc_size (heap_at s h)
     then (case carveRangeFromHeap fixedStart fixedEnd (heap_at s h) (cell_at s) of
             None \<Rightarrow> None
           | Some (d, cs) \<Rightarrow> carve_heaps fixedStart fixedEnd hs (put_heap h d (s\<lparr>cell_at := cs\<rparr>)))
     else carve_heaps fixedStart fixedEnd hs s)"

definition OSAllocFixed :: "int \<Rightarrow> int \<Rightarrow> os_heaps \<Rightarrow> (int \<times> os_heaps) option" where
  "OSAllocFixed rstart rend s =
    (case sHeapArray s of None \<Rightarrow> Some (0, s)
     | Some hds \<Rightarrow>
         if rstart = 0 \<or> rend = 0 then Some (0, s)
         else if list_ex (\<lambda>d. 0 \<le> desc_size d \<and> allocated d \<noteq> 0) hds then Some (0, s)
         else let fixedStart = roundDown32 rstart; fixedEnd = roundUp32 rend
           in if fixedStart \<ge> fixedEnd then Some (0, s)
              else if fixedStart < sArenaStart s \<or> fixedEnd > sArenaEnd s then Some (0, s)
              else map_option (\<lambda>s. (fixedStart, s)) (carve_heaps fixedStart fixedEnd [0..<length hds] s))"

text \<open>The two walks of \<open>OSCheckHeap\<close>: \<open>Inl\<close> is its \<open>return -1\<close>.\<close>

definition bad_cell :: "os_heaps \<Rightarrow> nat option \<Rightarrow> int \<Rightarrow> bool" where
  "bad_cell s own c \<longleftrightarrow>
    (let cl = cell_at s c
     in \<not> inArena c s \<or> c mod kAlignment \<noteq> 0 \<or> cell_size cl < kMinObjectSize \<or>
        cell_size cl mod kAlignment \<noteq> 0 \<or> cell_owner cl \<noteq> own \<or>
        (cell_next cl \<noteq> 0 \<and> cell_prev (cell_at s (cell_next cl)) \<noteq> c))"

partial_function (option) check_allocated ::
    "os_heaps \<Rightarrow> nat \<Rightarrow> int \<Rightarrow> int \<Rightarrow> (unit + int) option" where
  "check_allocated s h c sum_bytes =
    (if c = 0 then Some (Inr sum_bytes)
     else if bad_cell s (Some h) c then Some (Inl ())
     else let sum_bytes = s32 (sum_bytes + cell_size (cell_at s c))
          in if sum_bytes \<le> 0 \<or> sum_bytes > desc_size (heap_at s h) then Some (Inl ())
             else check_allocated s h (cell_next (cell_at s c)) sum_bytes)"

partial_function (option) check_free ::
    "os_heaps \<Rightarrow> nat \<Rightarrow> int \<Rightarrow> int \<Rightarrow> int \<Rightarrow> (unit + int \<times> int) option" where
  "check_free s h c sum_bytes freeBytes =
    (if c = 0 then Some (Inr (sum_bytes, freeBytes))
     else let cl = cell_at s c in
       if bad_cell s None c then Some (Inl ())
       else if cell_next cl \<noteq> 0 \<and> uptr (c + cell_size cl) > cell_next cl then Some (Inl ())
       else let sum_bytes = s32 (sum_bytes + cell_size cl);
                freeBytes = s32 (freeBytes + s32 (cell_size cl - kHeaderSize))
            in if sum_bytes \<le> 0 \<or> sum_bytes > desc_size (heap_at s h) then Some (Inl ())
               else check_free s h (cell_next cl) sum_bytes freeBytes)"

definition OSCheckHeap :: "int \<Rightarrow> os_heaps \<Rightarrow> int option" where
  "OSCheckHeap heap s =
    (if \<not> validHeapHandle heap s then Some (-1)
     else let h = nat heap; d = heap_at s h
       in if allocated d \<noteq> 0 \<and> cell_prev (cell_at s (allocated d)) \<noteq> 0 then Some (-1)
          else (case check_allocated s h (allocated d) 0 of
                  None \<Rightarrow> None
                | Some (Inl _) \<Rightarrow> Some (-1)
                | Some (Inr sum_bytes) \<Rightarrow>
                    if freeList d \<noteq> 0 \<and> cell_prev (cell_at s (freeList d)) \<noteq> 0 then Some (-1)
                    else (case check_free s h (freeList d) sum_bytes 0 of
                            None \<Rightarrow> None
                          | Some (Inl _) \<Rightarrow> Some (-1)
                          | Some (Inr (sum_bytes, freeBytes)) \<Rightarrow>
                              Some (if sum_bytes \<noteq> desc_size d then -1 else freeBytes))))"

definition OSReferentSize :: "int \<Rightarrow> os_heaps \<Rightarrow> int" where
  "OSReferentSize ptr s =
    (if ptr = 0 \<or> \<not> inArena ptr s \<or> ptr mod kAlignment \<noteq> 0 then 0
     else let cl = cell_at s (ptr - kHeaderSize)
       in if cell_owner cl = None then 0 else (cell_size cl - kHeaderSize) mod 4294967296)"

text \<open>\<open>OSVisitAllocated\<close>: the calls it makes, in order.\<close>

partial_function (option) visit_cells :: "cells \<Rightarrow> int \<Rightarrow> (int \<times> int) list option" where
  "visit_cells cs c =
    (if c = 0 then Some []
     else Option.bind (visit_cells cs (cell_next (cs c)))
       (\<lambda>vs. Some ((c + kHeaderSize, (cell_size (cs c) - kHeaderSize) mod 4294967296) # vs)))"

fun visit_heaps :: "cells \<Rightarrow> heap_desc list \<Rightarrow> (int \<times> int) list option" where
  "visit_heaps cs [] = Some []"
| "visit_heaps cs (d # hds) =
    (case (if 0 \<le> desc_size d then visit_cells cs (allocated d) else Some []) of None \<Rightarrow> None
     | Some vs \<Rightarrow> map_option ((@) vs) (visit_heaps cs hds))"

definition OSVisitAllocated :: "os_heaps \<Rightarrow> (int \<times> int) list option" where
  "OSVisitAllocated s = (case sHeapArray s of None \<Rightarrow> Some [] | Some hds \<Rightarrow> visit_heaps (cell_at s) hds)"

end
