(* ===== verification/AllocSpec.thy ===== *)
theory AllocSpec
  imports Prelude
begin

text \<open>
  What a client of a memory allocator relies on, as an interface: the live blocks of a heap are
  disjoint, an allocation that succeeds returns a new block of at least the requested size, a free
  drops exactly the block it names (and nothing when the pointer is not live).  The client fact,
  proved once: any sequence of calls completes, and what is live at the end is what was allocated
  and not freed, in disjoint blocks.
\<close>

datatype heap_call = Alloc int | Free int

text \<open>A sequence of calls with the pointers they return (0 for a free).\<close>

fun run_calls :: "(int \<Rightarrow> 's \<Rightarrow> (int \<times> 's) option) \<Rightarrow> (int \<Rightarrow> 's \<Rightarrow> 's option) \<Rightarrow>
    heap_call list \<Rightarrow> 's \<Rightarrow> (int list \<times> 's) option" where
  "run_calls alloc free [] s = Some ([], s)"
| "run_calls alloc free (Alloc n # cs) s =
    (case alloc n s of None \<Rightarrow> None
     | Some (p, s) \<Rightarrow> map_option (\<lambda>(rs, s). (p # rs, s)) (run_calls alloc free cs s))"
| "run_calls alloc free (Free p # cs) s =
    (case free p s of None \<Rightarrow> None
     | Some s \<Rightarrow> map_option (\<lambda>(rs, s). (0 # rs, s)) (run_calls alloc free cs s))"

text \<open>The pointers that are live after the calls, from the calls and their results alone.\<close>

fun live_after :: "heap_call list \<Rightarrow> int list \<Rightarrow> int list \<Rightarrow> int list" where
  "live_after (Alloc n # cs) (p # rs) ps = live_after cs rs (if p = 0 then ps else p # ps)"
| "live_after (Free p # cs) (r # rs) ps = live_after cs rs (filter (\<lambda>q. q \<noteq> p) ps)"
| "live_after cs rs ps = ps"

definition disjoint_blocks :: "(int \<times> int) list \<Rightarrow> bool" where
  "disjoint_blocks bs \<longleftrightarrow> distinct (map fst bs) \<and>
     (\<forall>(p, m)\<in>set bs. \<forall>(q, n)\<in>set bs. p \<noteq> q \<longrightarrow> p + m \<le> q \<or> q + n \<le> p)"

fun in_limit :: "int \<Rightarrow> heap_call \<Rightarrow> bool" where
  "in_limit limit (Alloc n) = (0 < n \<and> n \<le> limit)"
| "in_limit limit (Free p) = True"

locale allocator =
  fixes rep :: "'s \<Rightarrow> (int \<times> int) list \<Rightarrow> bool"
    and limit :: int
    and alloc :: "int \<Rightarrow> 's \<Rightarrow> (int \<times> 's) option"
    and free :: "int \<Rightarrow> 's \<Rightarrow> 's option"
  assumes rep_disjoint: "rep s bs \<Longrightarrow> disjoint_blocks bs"
    and alloc_law: "rep s bs \<Longrightarrow> 0 < n \<Longrightarrow> n \<le> limit \<Longrightarrow>
      \<exists>p s'. alloc n s = Some (p, s') \<and> (p = 0 \<and> s' = s \<or> p \<noteq> 0 \<and> (\<exists>m\<ge>n. rep s' ((p, m) # bs)))"
    and free_law: "rep s bs \<Longrightarrow> \<exists>s'. free p s = Some s' \<and> rep s' (filter (\<lambda>b. fst b \<noteq> p) bs)"
begin

theorem calls_complete:
  assumes "rep s bs" "\<forall>c\<in>set cs. in_limit limit c"
  shows "\<exists>rs s' bs'. run_calls alloc free cs s = Some (rs, s') \<and> rep s' bs' \<and>
    map fst bs' = live_after cs rs (map fst bs) \<and> disjoint_blocks bs'"
  using assms
proof (induction cs arbitrary: s bs)
  case Nil
  then show ?case using rep_disjoint by auto
next
  case (Cons c cs)
  then have lim: "\<forall>c\<in>set cs. in_limit limit c" by simp
  show ?case
  proof (cases c)
    case (Alloc n)
    with Cons.prems obtain p s1 where a: "alloc n s = Some (p, s1)"
      "p = 0 \<and> s1 = s \<or> p \<noteq> 0 \<and> (\<exists>m\<ge>n. rep s1 ((p, m) # bs))"
      using alloc_law [of s bs n] by auto
    then obtain bs1 where "rep s1 bs1" "map fst bs1 = (if p = 0 then map fst bs else p # map fst bs)"
      using Cons.prems(1) by fastforce
    with Cons.IH [OF this(1) lim] a(1) Alloc show ?thesis by fastforce
  next
    case (Free p)
    obtain s1 where f: "free p s = Some s1" "rep s1 (filter (\<lambda>b. fst b \<noteq> p) bs)"
      using free_law [OF Cons.prems(1)] by blast
    have "map fst (filter (\<lambda>b. fst b \<noteq> p) bs) = filter (\<lambda>q. q \<noteq> p) (map fst bs)"
      by (simp add: filter_map comp_def)
    with Cons.IH [OF f(2) lim] f(1) Free show ?thesis by fastforce
  qed
qed

end

end
