(* ===== verification/OsHeapCorrect.thy ===== *)
theory OsHeapCorrect
  imports OsHeap AllocSpec
begin

text \<open>
  The arena allocator keeps its heaps well formed: the invariant of a heap (both lists linked,
  cells aligned, disjoint and inside the arena, the free list in address order, sizes adding up
  to the heap's size), the steps the operations are composed of (extracting, linking, merging
  and splitting cells), and the operations.
\<close>

section \<open>Walks\<close>

abbreviation links_of :: "cells \<Rightarrow> int \<Rightarrow> int list \<Rightarrow> int \<Rightarrow> bool" where
  "links_of cs p xs n \<equiv> linked (\<lambda>x. cell_prev (cs x)) (\<lambda>x. cell_next (cs x)) p xs n"

lemma containsCell_list:
  assumes "links_of cs p xs 0" "0 \<notin> set xs"
  shows "containsCell cs (head_or 0 xs) c = Some (c \<in> set xs)"
  using assms
proof (induction xs arbitrary: p)
  case Nil
  show ?case by (subst containsCell.simps) simp
next
  case (Cons x xs)
  then show ?case by (subst containsCell.simps) auto
qed

lemma insert_walk_list:
  assumes "links_of cs p xs 0" "0 \<notin> set xs" "sorted xs"
  shows "insert_walk cs c p (head_or 0 xs) =
    Some (last_or p (takeWhile (\<lambda>x. x < c) xs), head_or 0 (dropWhile (\<lambda>x. x < c) xs))"
  using assms
proof (induction xs arbitrary: p)
  case Nil
  show ?case by (subst insert_walk.simps) simp
next
  case (Cons x xs)
  then show ?case by (subst insert_walk.simps) auto
qed

lemma first_fit_list:
  assumes "links_of cs p xs 0" "0 \<notin> set xs"
  shows "first_fit cs r (head_or 0 xs) = Some (head_or 0 (dropWhile (\<lambda>x. cell_size (cs x) < r) xs))"
  using assms
proof (induction xs arbitrary: p)
  case Nil
  show ?case by (subst first_fit.simps) simp
next
  case (Cons x xs)
  then show ?case by (subst first_fit.simps) auto
qed

lemma visit_cells_list:
  assumes "links_of cs p xs 0" "0 \<notin> set xs"
  shows "visit_cells cs (head_or 0 xs) =
    Some (map (\<lambda>x. (x + kHeaderSize, (cell_size (cs x) - kHeaderSize) mod 4294967296)) xs)"
  using assms
proof (induction xs arbitrary: p)
  case Nil
  show ?case by (subst visit_cells.simps) simp
next
  case (Cons x xs)
  then show ?case by (subst visit_cells.simps) auto
qed

section \<open>The invariant\<close>

text \<open>\<open>tiles lo hi T U f X\<close>: the cells \<open>X\<close>, of sizes \<open>f\<close>, are aligned, big enough, inside the arena
  and disjoint; their sizes add up to \<open>T\<close> and they cover exactly the bytes \<open>U\<close>.\<close>

definition tiles :: "int \<Rightarrow> int \<Rightarrow> int \<Rightarrow> int set \<Rightarrow> (int \<Rightarrow> int) \<Rightarrow> int set \<Rightarrow> bool" where
  "tiles lo hi T U f X \<longleftrightarrow> finite X \<and>
     (\<forall>x\<in>X. lo \<le> x \<and> x + f x \<le> hi \<and> x mod 32 = 0 \<and> 64 \<le> f x \<and> f x mod 32 = 0) \<and>
     (\<forall>x\<in>X. \<forall>y\<in>X. x \<noteq> y \<longrightarrow> x + f x \<le> y \<or> y + f y \<le> x) \<and>
     sum f X = T \<and> (\<Union>x\<in>X. {x..<x + f x}) = U"

lemma tilesD:
  assumes "tiles lo hi T U f X"
  shows "finite X" "x \<in> X \<Longrightarrow> lo \<le> x" "x \<in> X \<Longrightarrow> x + f x \<le> hi" "x \<in> X \<Longrightarrow> x mod 32 = 0"
    "x \<in> X \<Longrightarrow> 64 \<le> f x" "x \<in> X \<Longrightarrow> f x mod 32 = 0"
    "x \<in> X \<Longrightarrow> y \<in> X \<Longrightarrow> x \<noteq> y \<Longrightarrow> x + f x \<le> y \<or> y + f y \<le> x" "sum f X = T"
    "x \<in> X \<Longrightarrow> z \<in> {x..<x + f x} \<Longrightarrow> z \<in> U" "x \<in> X \<Longrightarrow> x \<in> U"
proof -
  note T = assms [unfolded tiles_def]
  show "finite X" "x \<in> X \<Longrightarrow> lo \<le> x" "x \<in> X \<Longrightarrow> x + f x \<le> hi" "x \<in> X \<Longrightarrow> x mod 32 = 0"
    "x \<in> X \<Longrightarrow> 64 \<le> f x" "x \<in> X \<Longrightarrow> f x mod 32 = 0"
    "x \<in> X \<Longrightarrow> y \<in> X \<Longrightarrow> x \<noteq> y \<Longrightarrow> x + f x \<le> y \<or> y + f y \<le> x" "sum f X = T"
    "x \<in> X \<Longrightarrow> z \<in> {x..<x + f x} \<Longrightarrow> z \<in> U"
    using T by blast+
  assume x: "x \<in> X"
  then have "64 \<le> f x" using T by blast
  then have "x \<in> {x..<x + f x}" by simp
  with x show "x \<in> U" using T by blast
qed

lemma tiles_cong: "(\<And>x. x \<in> X \<Longrightarrow> g x = f x) \<Longrightarrow> tiles lo hi T U g X = tiles lo hi T U f X"
  unfolding tiles_def by simp

text \<open>One tile cut in two, or two touching tiles merged into one.\<close>

lemma tiles_cut:
  assumes "a \<notin> Y" "b \<notin> Y" "a \<noteq> b" "64 \<le> r" "r mod 32 = 0" "64 \<le> q" "q mod 32 = 0" "b = a + r"
  shows "tiles lo hi T U (f(a := r, b := q)) (insert a (insert b Y)) = tiles lo hi T U (f(a := r + q)) (insert a Y)"
proof -
  let ?g = "f(a := r, b := q)" and ?h = "f(a := r + q)"
  have s: "sum ?g (insert a (insert b Y)) = sum ?h (insert a Y)" if "finite Y"
  proof -
    have "sum ?g Y = sum ?h Y" using assms by (intro sum.cong) auto
    then show ?thesis using that assms by simp
  qed
  have "{a..<a + r} \<union> {b..<b + q} = {a..<a + (r + q)}" using assms by auto
  moreover have "(\<Union>x\<in>Y. {x..<x + ?g x}) = (\<Union>x\<in>Y. {x..<x + ?h x})" using assms by (intro SUP_cong) auto
  ultimately have u: "(\<Union>x\<in>insert a (insert b Y). {x..<x + ?g x}) = (\<Union>x\<in>insert a Y. {x..<x + ?h x})"
    using assms by (simp add: Un_assoc [symmetric])
  have Y: "?g x = f x" "?h x = f x" if "x \<in> Y" for x using that assms(1,2) by auto
  define ok where "ok g x \<longleftrightarrow> lo \<le> x \<and> x + g x \<le> hi \<and> x mod 32 = 0 \<and> 64 \<le> g x \<and> g x mod 32 = 0" for g :: "int \<Rightarrow> int" and x
  define dis where "dis g x y \<longleftrightarrow> (x \<noteq> y \<longrightarrow> x + g x \<le> y \<or> y + g y \<le> x)" for g :: "int \<Rightarrow> int" and x y
  have md: "(a + r) mod 32 = a mod 32" "(r + q) mod 32 = 0" 
    using mod_add_right_eq [of a r 32] mod_add_eq [of r 32 q] assms(5,7) by simp_all
  have okY: "ok ?g x = ok ?h x" if "x \<in> Y" for x using Y [OF that] by (simp only: ok_def)
  have "(ok ?g a \<and> ok ?g b) = ok ?h a"
    using assms(3-8) md by (auto simp: ok_def)
  then have ok: "(\<forall>x\<in>insert a (insert b Y). ok ?g x) = (\<forall>x\<in>insert a Y. ok ?h x)" using okY by auto
  have disY: "dis ?g x y = dis ?h x y" if "x \<in> Y" "y \<in> Y" for x y
    using Y [OF that(1)] Y [OF that(2)] by (simp only: dis_def)
  have disa: "(dis ?g a y \<and> dis ?g b y) = dis ?h a y" if "y \<in> Y" "ok ?h y" for y
  proof -
    have "64 \<le> f y" "y \<noteq> a" "y \<noteq> b" using that Y [OF that(1)] assms(1,2) by (auto simp: ok_def)
    then show ?thesis using Y [OF that(1)] assms(3-8) by (simp add: dis_def) linarith
  qed
  have sym: "dis g x y = dis g y x" for g x y by (auto simp: dis_def)
  have self: "dis ?g x x" "dis ?h x x" "dis ?g a b" for x using assms(3,8) by (simp_all add: dis_def)
  have "(\<forall>x\<in>insert a (insert b Y). \<forall>y\<in>insert a (insert b Y). dis ?g x y) =
      (\<forall>x\<in>insert a Y. \<forall>y\<in>insert a Y. dis ?h x y)" if "\<forall>x\<in>Y. ok ?h x"
  proof -
    have "(\<forall>x\<in>insert a (insert b Y). \<forall>y\<in>insert a (insert b Y). dis ?g x y) =
        ((\<forall>y\<in>Y. dis ?g a y \<and> dis ?g b y) \<and> (\<forall>x\<in>Y. \<forall>y\<in>Y. dis ?g x y))"
      using self sym by blast
    also have "\<dots> = ((\<forall>y\<in>Y. dis ?h a y) \<and> (\<forall>x\<in>Y. \<forall>y\<in>Y. dis ?h x y))"
      using disa that disY by blast
    also have "\<dots> = (\<forall>x\<in>insert a Y. \<forall>y\<in>insert a Y. dis ?h x y)" using self sym by blast
    finally show ?thesis .
  qed
  then have e: "((\<forall>x\<in>insert a (insert b Y). ok ?g x) \<and> (\<forall>x\<in>insert a (insert b Y). \<forall>y\<in>insert a (insert b Y). dis ?g x y)) =
      ((\<forall>x\<in>insert a Y. ok ?h x) \<and> (\<forall>x\<in>insert a Y. \<forall>y\<in>insert a Y. dis ?h x y))"
    using ok by blast
  have "tiles lo hi T U g X \<longleftrightarrow> finite X \<and> ((\<forall>x\<in>X. ok g x) \<and> (\<forall>x\<in>X. \<forall>y\<in>X. dis g x y)) \<and>
      sum g X = T \<and> (\<Union>x\<in>X. {x..<x + g x}) = U" for g X
    by (simp only: tiles_def ok_def dis_def conj_assoc)
  then show ?thesis using s by (simp only: e u finite_insert) (cases "finite Y"; simp only: s simp_thms)
qed

abbreviation sz_of :: "cells \<Rightarrow> int \<Rightarrow> int" where "sz_of cs \<equiv> \<lambda>x. cell_size (cs x)"

text \<open>The invariant of a heap's cells: the allocated ones \<open>as\<close>, the free ones \<open>fs\<close>, and the cells
  \<open>ls\<close> that an operation has taken out of one list and not filed in the other yet.\<close>

definition cells_data :: "int \<Rightarrow> int \<Rightarrow> nat \<Rightarrow> int \<Rightarrow> int set \<Rightarrow> cells \<Rightarrow> int list \<Rightarrow> int list \<Rightarrow> int list \<Rightarrow> bool" where
  "cells_data lo hi h T U cs as ls fs \<longleftrightarrow>
     0 < lo \<and> hi < 18446744073709551616 \<and> T < 2147483648 \<and>
     distinct (as @ ls @ fs) \<and> sorted fs \<and> tiles lo hi T U (sz_of cs) (set (as @ ls @ fs)) \<and>
     (\<forall>x\<in>set as. cell_owner (cs x) = Some h) \<and> (\<forall>x\<in>set fs. cell_owner (cs x) = None)"

definition cells_inv :: "int \<Rightarrow> int \<Rightarrow> nat \<Rightarrow> int \<Rightarrow> int set \<Rightarrow> cells \<Rightarrow> int list \<Rightarrow> int list \<Rightarrow> int list \<Rightarrow> bool" where
  "cells_inv lo hi h T U cs as ls fs \<longleftrightarrow>
     cells_data lo hi h T U cs as ls fs \<and> links_of cs 0 as 0 \<and> links_of cs 0 fs 0"

definition agree :: "int set \<Rightarrow> cells \<Rightarrow> cells \<Rightarrow> bool" where
  "agree U cs cs' \<longleftrightarrow> (\<forall>x. x \<notin> U \<longrightarrow> cs' x = cs x)"

lemma agree_refl [simp]: "agree U cs cs"
  by (simp add: agree_def)

lemma agree_trans [trans]: "agree U cs cs' \<Longrightarrow> agree U cs' cs'' \<Longrightarrow> agree U cs cs''"
  by (simp add: agree_def)

lemma agree_upd [simp]:
  "a \<in> U \<Longrightarrow> agree U cs (set_prev a v cs)" "a \<in> U \<Longrightarrow> agree U cs (set_next a v cs)"
  "a \<in> U \<Longrightarrow> agree U cs (set_size a v cs)" "a \<in> U \<Longrightarrow> agree U cs (set_owner a ow cs)"
  by (auto simp: agree_def set_prev_def set_next_def set_size_def set_owner_def)

text \<open>What a field update changes.\<close>

lemma field_sel [simp]:
  "cell_prev (set_prev a v cs x) = (if x = a then v else cell_prev (cs x))"
  "cell_next (set_prev a v cs x) = cell_next (cs x)"
  "cell_size (set_prev a v cs x) = cell_size (cs x)"
  "cell_owner (set_prev a v cs x) = cell_owner (cs x)"
  "cell_prev (set_next a v cs x) = cell_prev (cs x)"
  "cell_next (set_next a v cs x) = (if x = a then v else cell_next (cs x))"
  "cell_size (set_next a v cs x) = cell_size (cs x)"
  "cell_owner (set_next a v cs x) = cell_owner (cs x)"
  "cell_prev (set_size a v cs x) = cell_prev (cs x)"
  "cell_next (set_size a v cs x) = cell_next (cs x)"
  "cell_size (set_size a v cs x) = (if x = a then v else cell_size (cs x))"
  "cell_owner (set_size a v cs x) = cell_owner (cs x)"
  "cell_prev (set_owner a ow cs x) = cell_prev (cs x)"
  "cell_next (set_owner a ow cs x) = cell_next (cs x)"
  "cell_size (set_owner a ow cs x) = cell_size (cs x)"
  "cell_owner (set_owner a ow cs x) = (if x = a then ow else cell_owner (cs x))"
  by (simp_all add: set_prev_def set_next_def set_size_def set_owner_def)

lemma cells_dataD:
  assumes "cells_data lo hi h T U cs as ls fs"
  shows "0 < lo" "hi < 18446744073709551616" "T < 2147483648" "distinct (as @ ls @ fs)" "sorted fs"
    "tiles lo hi T U (sz_of cs) (set (as @ ls @ fs))"
    "x \<in> set as \<Longrightarrow> cell_owner (cs x) = Some h" "x \<in> set fs \<Longrightarrow> cell_owner (cs x) = None"
  using assms by (simp_all add: cells_data_def)

lemma cells_data_mem:
  assumes "cells_data lo hi h T U cs as ls fs"
  shows "x \<in> set (as @ ls @ fs) \<Longrightarrow> x \<in> U" "0 \<notin> set (as @ ls @ fs)"
  using cells_dataD(1) [OF assms] tilesD(2,10) [OF cells_dataD(6) [OF assms]] by force+

text \<open>Sizes and owners unchanged, cells refiled.\<close>

lemma cells_data_cong:
  assumes "cells_data lo hi h T U cs as ls fs"
    and "\<And>x. x \<in> set (as @ ls @ fs) \<Longrightarrow> cell_size (cs' x) = cell_size (cs x)"
    and "distinct (as' @ ls' @ fs')" "set (as' @ ls' @ fs') = set (as @ ls @ fs)" "sorted fs'"
    and "\<And>x. x \<in> set as' \<Longrightarrow> cell_owner (cs' x) = Some h" "\<And>x. x \<in> set fs' \<Longrightarrow> cell_owner (cs' x) = None"
  shows "cells_data lo hi h T U cs' as' ls' fs'"
  using assms(1) tiles_cong [of "set (as @ ls @ fs)" "sz_of cs'" "sz_of cs", OF assms(2)] assms(3-7)
  unfolding cells_data_def assms(4) by (simp only:) blast

section \<open>Steps on linked lists\<close>

text \<open>Two segments joined by the two pointer writes at the seam.\<close>

lemma linked_splice:
  assumes "linked pv nx p A n1" "linked pv nx q B n2" "distinct (A @ B)"
  shows "linked (if B = [] then pv else pv(hd B := last_or p A))
    (if A = [] then nx else nx(last A := head_or n2 B)) p (A @ B) n2"
proof -
  let ?pv = "if B = [] then pv else pv(hd B := last_or p A)"
  let ?nx = "if A = [] then nx else nx(last A := head_or n2 B)"
  have "hd B \<notin> set A" if "B \<noteq> []" using assms(3) that by (cases B) auto
  then have "linked ?pv ?nx p A (head_or n2 B) = linked pv ?nx p A (head_or n2 B)"
    by (intro linked_cong) auto
  moreover have "last A \<notin> set B" if "A \<noteq> []" using assms(3) last_in_set [OF that] by auto
  then have "linked ?pv ?nx (last_or p A) B n2 = linked ?pv nx (last_or p A) B n2"
    by (intro linked_cong) auto
  ultimately show ?thesis
    using linked_relink_next [OF assms(1), of "head_or n2 B"] linked_relink_prev [OF assms(2), of "last_or p A"] assms(3)
    by simp
qed

lemma last_or_nonempty: "A \<noteq> [] \<Longrightarrow> last_or p A = last A"
  and head_or_nonempty: "A \<noteq> [] \<Longrightarrow> head_or p A = hd A"
  by (simp_all add: last_or_def head_or_def split: list.splits)

text \<open>Pointer-only changes, confined to the cells \<open>X\<close>.\<close>

definition pointers_only :: "int set \<Rightarrow> cells \<Rightarrow> cells \<Rightarrow> bool" where
  "pointers_only X cs cs' \<longleftrightarrow> (\<forall>x. cell_size (cs' x) = cell_size (cs x) \<and> cell_owner (cs' x) = cell_owner (cs x)) \<and>
     (\<forall>x. x \<notin> X \<longrightarrow> cs' x = cs x)"

lemma set_ptr_eq: "x \<noteq> a \<Longrightarrow> set_prev a v cs x = cs x" "x \<noteq> a \<Longrightarrow> set_next a v cs x = cs x"
    "x \<noteq> a \<Longrightarrow> set_size a v cs x = cs x" "x \<noteq> a \<Longrightarrow> set_owner a ow cs x = cs x"
  by (simp_all add: set_prev_def set_next_def set_size_def set_owner_def)

lemma ends_ne: "x \<notin> set A \<Longrightarrow> A \<noteq> [] \<Longrightarrow> x \<noteq> last A" "x \<notin> set A \<Longrightarrow> A \<noteq> [] \<Longrightarrow> x \<noteq> hd A"
  by (metis last_in_set) (metis hd_in_set)

lemma extract_links:
  assumes "links_of cs 0 (A @ c # B) 0" "distinct (A @ c # B)" "0 \<notin> set (A @ c # B)"
  shows "\<exists>cs'. extract_cell (head_or 0 (A @ c # B)) c cs = (head_or 0 (A @ B), cs') \<and>
    links_of cs' 0 (A @ B) 0 \<and> pointers_only (set (A @ B)) cs cs'"
proof -
  have pn: "cell_prev (cs c) = last_or 0 A" "cell_next (cs c) = head_or 0 B"
    and AB: "links_of cs 0 A c" "links_of cs c B 0" using assms(1) by simp_all
  define cs1 where "cs1 = (if B = [] then cs else set_prev (hd B) (last_or 0 A) cs)"
  define cs' where "cs' = (if A = [] then cs1 else set_next (last A) (head_or 0 B) cs1)"
  have z: "0 \<notin> set A" "0 \<notin> set B" "c \<notin> set A" "c \<notin> set B" using assms(2,3) by auto
  have hB: "hd B \<in> set B" if "B \<noteq> []" using that by simp
  have "c \<noteq> hd B" if "B \<noteq> []" using hB [OF that] z(4) by metis
  then have pn1: "cell_prev (cs1 c) = last_or 0 A" "cell_next (cs1 c) = head_or 0 B"
    by (simp_all add: cs1_def pn)
  have c1: "(if cell_next (cs c) \<noteq> 0 then set_prev (cell_next (cs c)) (cell_prev (cs c)) cs else cs) = cs1"
    using pn z(2) by (cases B) (auto simp: cs1_def)
  have c2: "(if cell_prev (cs1 c) \<noteq> 0 then (head_or 0 (A @ c # B), set_next (cell_prev (cs1 c)) (cell_next (cs1 c)) cs1)
      else (cell_next (cs1 c), cs1)) = (head_or 0 (A @ B), cs')"
    using pn1 z(1) by (cases A rule: rev_cases) (auto simp: cs'_def head_or_nonempty)
  have "extract_cell (head_or 0 (A @ c # B)) c cs = (head_or 0 (A @ B), cs')"
    unfolding extract_cell_def Let_def c1 c2 ..
  moreover have "(\<lambda>x. cell_prev (cs' x)) = (if B = [] then \<lambda>x. cell_prev (cs x) else (\<lambda>x. cell_prev (cs x))(hd B := last_or 0 A))"
    "(\<lambda>x. cell_next (cs' x)) = (if A = [] then \<lambda>x. cell_next (cs x) else (\<lambda>x. cell_next (cs x))(last A := head_or 0 B))"
    by (auto simp: cs'_def cs1_def)
  then have "links_of cs' 0 (A @ B) 0"
    using linked_splice [OF AB] assms(2) by simp
  moreover have "pointers_only (set (A @ B)) cs cs'"
    by (simp add: pointers_only_def cs'_def cs1_def set_ptr_eq ends_ne)
  ultimately show ?thesis by blast
qed

text \<open>A new node between two segments, and the cell updates that make it so.\<close>

lemma linked_insert:
  assumes "linked pv nx p A n1" "linked pv nx q B n2" "distinct (A @ c # B)"
  shows "linked (if B = [] then pv(c := last_or p A) else (pv(c := last_or p A))(hd B := c))
    (if A = [] then nx(c := head_or n2 B) else (nx(c := head_or n2 B))(last A := c)) p (A @ c # B) n2"
proof -
  let ?pv = "pv(c := last_or p A)" and ?nx = "nx(c := head_or n2 B)"
  have "linked ?pv ?nx p A n1" using assms by (subst linked_cong [where pv' = pv and nx' = nx]) auto
  moreover have "linked ?pv ?nx (last_or p A) [c] (head_or n2 B)" by simp
  ultimately have 1: "linked ?pv (if A = [] then ?nx else ?nx(last A := c)) p (A @ [c]) (head_or n2 B)"
    using linked_splice [of ?pv ?nx p A n1 "last_or p A" "[c]"] assms(3)
    by (simp only: list.simps if_False list.sel fun_upd_upd head_or_simps) simp
  let ?nx' = "if A = [] then ?nx else ?nx(last A := c)"
  have "last A \<notin> set B" if "A \<noteq> []" using assms(3) last_in_set [OF that] by auto
  then have 2: "linked ?pv ?nx' q B n2"
    using assms by (subst linked_cong [where pv' = pv and nx' = nx]) auto
  have "?nx' c = head_or n2 B" using assms(3) by auto
  then have e: "(if A @ [c] = [] then ?nx' else ?nx'(last (A @ [c]) := head_or n2 B)) = ?nx'"
    by (simp add: fun_upd_idem)
  have "linked (if B = [] then ?pv else ?pv(hd B := last_or p (A @ [c]))) ?nx' p ((A @ [c]) @ B) n2"
    using linked_splice [OF 1 2] assms(3) unfolding e by simp
  then show ?thesis by (simp only: last_or_simps append_assoc append.simps)
qed

lemma link_between_links:
  assumes "links_of cs 0 (A @ B) 0" "distinct (A @ c # B)" "0 \<notin> set (A @ c # B)"
  shows "\<exists>cs'. link_between (head_or 0 (A @ B)) (last_or 0 A) c (head_or 0 B) cs = (head_or 0 (A @ c # B), cs') \<and>
    links_of cs' 0 (A @ c # B) 0 \<and> pointers_only (set (A @ c # B)) cs cs'"
proof -
  have AB: "links_of cs 0 A (head_or 0 B)" "links_of cs (last_or 0 A) B 0" using assms(1) by simp_all
  have z: "0 \<notin> set A" "0 \<notin> set B" "c \<notin> set A" "c \<notin> set B" using assms(2,3) by auto
  define cs1 where "cs1 = set_next c (head_or 0 B) (set_prev c (last_or 0 A) cs)"
  define cs2 where "cs2 = (if A = [] then cs1 else set_next (last A) c cs1)"
  define cs' where "cs' = (if B = [] then cs2 else set_prev (hd B) c cs2)"
  have c2: "(if last_or 0 A \<noteq> 0 then (head_or 0 (A @ B), set_next (last_or 0 A) c cs1) else (c, cs1)) =
      (head_or 0 (A @ c # B), cs2)"
    using z(1) by (cases A rule: rev_cases) (auto simp: cs2_def head_or_nonempty)
  have c3: "(if head_or 0 B \<noteq> 0 then set_prev (head_or 0 B) c cs2 else cs2) = cs'"
    using z(2) by (cases B) (auto simp: cs'_def)
  have "link_between (head_or 0 (A @ B)) (last_or 0 A) c (head_or 0 B) cs = (head_or 0 (A @ c # B), cs')"
    unfolding link_between_def Let_def cs1_def [symmetric] c2 prod.case c3 ..
  moreover have "(\<lambda>x. cell_prev (cs' x)) = (if B = [] then (\<lambda>x. cell_prev (cs x))(c := last_or 0 A)
      else ((\<lambda>x. cell_prev (cs x))(c := last_or 0 A))(hd B := c))"
    "(\<lambda>x. cell_next (cs' x)) = (if A = [] then (\<lambda>x. cell_next (cs x))(c := head_or 0 B)
      else ((\<lambda>x. cell_next (cs x))(c := head_or 0 B))(last A := c))"
    by (auto simp: cs'_def cs2_def cs1_def)
  then have "links_of cs' 0 (A @ c # B) 0" using linked_insert [OF AB assms(2)] by simp
  moreover have "pointers_only (set (A @ c # B)) cs cs'"
    by (simp add: pointers_only_def cs'_def cs2_def cs1_def set_ptr_eq ends_ne)
  ultimately show ?thesis by blast
qed

lemma addFront_links:
  assumes "links_of cs 0 xs 0" "distinct (c # xs)" "0 \<notin> set (c # xs)"
  shows "links_of (addFront (head_or 0 xs) c cs) 0 (c # xs) 0 \<and>
    pointers_only (set (c # xs)) cs (addFront (head_or 0 xs) c cs)"
proof -
  have "addFront (head_or 0 xs) c cs = snd (link_between (head_or 0 xs) 0 c (head_or 0 xs) cs)"
    by (simp add: addFront_def link_between_def Let_def)
  then show ?thesis
    using link_between_links [of cs "[]" xs c] assms by auto
qed

text \<open>The changes of \<open>replace_cell\<close> and \<open>absorb\<close>: links as stated, one size and owner set.\<close>

definition one_size :: "int set \<Rightarrow> int \<Rightarrow> int \<Rightarrow> cells \<Rightarrow> cells \<Rightarrow> bool" where
  "one_size X a v cs cs' \<longleftrightarrow> cell_size (cs' a) = v \<and>
     (\<forall>x. x \<noteq> a \<longrightarrow> cell_size (cs' x) = cell_size (cs x) \<and> cell_owner (cs' x) = cell_owner (cs x)) \<and>
     (\<forall>x. x \<notin> X \<longrightarrow> cs' x = cs x)"

lemma replace_cell_links:
  assumes "links_of cs 0 (A @ c # B) 0" "distinct (A @ at # B)" "0 \<notin> set (A @ at # B)" "c \<noteq> at" "c \<notin> set (A @ B)"
    "freeList d = head_or 0 (A @ c # B)" "c \<noteq> 0"
  shows "\<exists>cs'. replace_cell d c at sz cs = (d\<lparr>freeList := head_or 0 (A @ at # B)\<rparr>, cs') \<and>
    links_of cs' 0 (A @ at # B) 0 \<and> one_size (set (A @ at # B)) at sz cs cs' \<and> cell_owner (cs' at) = None"
proof -
  define cs0 where "cs0 = set_owner at None (set_size at sz cs)"
  have pn: "cell_prev (cs0 c) = last_or 0 A" "cell_next (cs0 c) = head_or 0 B"
    and AB: "links_of cs 0 A c" "links_of cs c B 0" using assms(1) by (simp_all add: cs0_def)
  have z: "0 \<notin> set A" "0 \<notin> set B" using assms(3) by auto
  have at: "at \<notin> set A" "at \<notin> set B" using assms(2) by auto
  define cs1 where "cs1 = set_next at (head_or 0 B) (set_prev at (last_or 0 A) cs0)"
  define cs2 where "cs2 = (if A = [] then cs1 else set_next (last A) at cs1)"
  define cs' where "cs' = (if B = [] then cs2 else set_prev (hd B) at cs2)"
  have c1: "set_next at (cell_next (set_prev at (cell_prev (cs0 c)) cs0 c)) (set_prev at (cell_prev (cs0 c)) cs0) = cs1"
    by (simp add: cs1_def pn)
  have p1: "cell_prev (cs1 at) = last_or 0 A" "cell_next (cs2 at) = head_or 0 B"
    using at last_in_set [of A] by (auto simp: cs1_def cs2_def)
  have c2: "(if cell_prev (cs1 at) \<noteq> 0 then (d, set_next (cell_prev (cs1 at)) at cs1) else (d\<lparr>freeList := at\<rparr>, cs1)) =
      (d\<lparr>freeList := head_or 0 (A @ at # B)\<rparr>, cs2)"
    using z(1) assms(6) p1(1) by (cases A rule: rev_cases) (auto simp: cs2_def head_or_nonempty)
  have c3: "(if cell_next (cs2 at) \<noteq> 0 then set_prev (cell_next (cs2 at)) at cs2 else cs2) = cs'"
    using z(2) p1(2) by (cases B) (auto simp: cs'_def)
  have "replace_cell d c at sz cs = (d\<lparr>freeList := head_or 0 (A @ at # B)\<rparr>, cs')"
    unfolding replace_cell_def Let_def cs0_def [symmetric] c1 c2 prod.case c3 ..
  moreover have "(\<lambda>x. cell_prev (cs' x)) = (if B = [] then (\<lambda>x. cell_prev (cs x))(at := last_or 0 A)
      else ((\<lambda>x. cell_prev (cs x))(at := last_or 0 A))(hd B := at))"
    "(\<lambda>x. cell_next (cs' x)) = (if A = [] then (\<lambda>x. cell_next (cs x))(at := head_or 0 B)
      else ((\<lambda>x. cell_next (cs x))(at := head_or 0 B))(last A := at))"
    by (auto simp: cs'_def cs2_def cs1_def cs0_def)
  then have "links_of cs' 0 (A @ at # B) 0" using linked_insert [OF AB assms(2)] by simp
  moreover have "one_size (set (A @ at # B)) at sz cs cs'" "cell_owner (cs' at) = None"
    by (simp_all add: one_size_def cs'_def cs2_def cs1_def cs0_def set_ptr_eq ends_ne)
  ultimately show ?thesis by blast
qed

lemma absorb_links:
  assumes "links_of cs 0 (A @ a # b # B) 0" "distinct (A @ a # b # B)" "0 \<notin> set (A @ a # b # B)"
  shows "links_of (absorb a b cs) 0 (A @ a # B) 0 \<and>
    one_size (set (A @ a # B)) a (s32 (cell_size (cs a) + cell_size (cs b))) cs (absorb a b cs) \<and>
    cell_owner (absorb a b cs a) = cell_owner (cs a)"
proof -
  have AB: "links_of cs 0 (A @ [a]) b" "links_of cs b B 0" and n: "cell_next (cs b) = head_or 0 B"
    using assms(1) by simp_all
  have ab: "a \<noteq> b" "b \<notin> set B" using assms(2) by auto
  have z: "0 \<notin> set B" using assms(3) by simp
  define cs1 where "cs1 = set_next a (head_or 0 B) (set_size a (s32 (cell_size (cs a) + cell_size (cs b))) cs)"
  have e: "absorb a b cs = (if B = [] then cs1 else set_prev (hd B) a cs1)"
    using ab(1) n z by (cases B) (auto simp: absorb_def Let_def cs1_def)
  have "(\<lambda>x. cell_prev (absorb a b cs x)) = (if B = [] then \<lambda>x. cell_prev (cs x) else (\<lambda>x. cell_prev (cs x))(hd B := a))"
    "(\<lambda>x. cell_next (absorb a b cs x)) = (\<lambda>x. cell_next (cs x))(a := head_or 0 B)"
    by (auto simp: e cs1_def)
  moreover have "linked (if B = [] then \<lambda>x. cell_prev (cs x) else (\<lambda>x. cell_prev (cs x))(hd B := last_or 0 (A @ [a])))
      (if A @ [a] = [] then \<lambda>x. cell_next (cs x) else (\<lambda>x. cell_next (cs x))(last (A @ [a]) := head_or 0 B)) 0 ((A @ [a]) @ B) 0"
    by (rule linked_splice [OF AB]) (use assms(2) in simp)
  ultimately have "links_of (absorb a b cs) 0 (A @ a # B) 0"
    by (simp only: last_or_simps last_snoc append_assoc append.simps) simp
  moreover have "one_size (set (A @ a # B)) a (s32 (cell_size (cs a) + cell_size (cs b))) cs (absorb a b cs)"
    "cell_owner (absorb a b cs a) = cell_owner (cs a)"
    by (simp_all add: one_size_def e cs1_def set_ptr_eq ends_ne)
  ultimately show ?thesis by blast
qed

section \<open>Steps on the invariant\<close>

lemma s32_id: "- 2147483648 \<le> k \<Longrightarrow> k < 2147483648 \<Longrightarrow> s32 k = k"
  by (simp add: s32_def)

lemma tiles_sums:
  assumes "tiles lo hi T U f X"
  shows "x \<in> X \<Longrightarrow> f x \<le> T" "x \<in> X \<Longrightarrow> y \<in> X \<Longrightarrow> x \<noteq> y \<Longrightarrow> f x + f y \<le> T"
proof -
  note D = tilesD [OF assms]
  have nn: "0 \<le> f z" if "z \<in> X" for z using D(5) [OF that] by simp
  show "f x \<le> T" if "x \<in> X"
    using sum_mono2 [of X "{x}" f] D(1) that nn D(8) by simp
  show "f x + f y \<le> T" if "x \<in> X" "y \<in> X" "x \<noteq> y"
    using sum_mono2 [of X "{x, y}" f] D(1) that nn D(8) by simp
qed

lemma pointers_onlyD:
  assumes "pointers_only X cs cs'"
  shows "cell_size (cs' x) = cell_size (cs x)" "cell_owner (cs' x) = cell_owner (cs x)"
    "x \<notin> X \<Longrightarrow> cs' x = cs x" "set xs \<inter> X = {} \<Longrightarrow> links_of cs' p xs n = links_of cs p xs n"
    "X \<subseteq> U \<Longrightarrow> agree U cs cs'"
proof -
  show "set xs \<inter> X = {} \<Longrightarrow> links_of cs' p xs n = links_of cs p xs n"
    using assms by (intro linked_cong) (auto simp: pointers_only_def)
qed (use assms in \<open>auto simp: pointers_only_def agree_def\<close>)

lemma one_sizeD:
  assumes "one_size X a v cs cs'"
  shows "cell_size (cs' x) = (if x = a then v else cell_size (cs x))"
    "x \<noteq> a \<Longrightarrow> cell_owner (cs' x) = cell_owner (cs x)" "x \<notin> X \<Longrightarrow> cs' x = cs x"
    "set xs \<inter> X = {} \<Longrightarrow> links_of cs' p xs n = links_of cs p xs n" "X \<subseteq> U \<Longrightarrow> agree U cs cs'"
proof -
  show "set xs \<inter> X = {} \<Longrightarrow> links_of cs' p xs n = links_of cs p xs n"
    using assms by (intro linked_cong) (auto simp: one_size_def)
qed (use assms in \<open>auto simp: one_size_def agree_def\<close>)

lemma cells_invD:
  assumes "cells_inv lo hi h T U cs as ls fs"
  shows "cells_data lo hi h T U cs as ls fs" "links_of cs 0 as 0" "links_of cs 0 fs 0"
    "0 \<notin> set as" "0 \<notin> set fs" "0 \<notin> set ls" "distinct as" "distinct fs" "sorted fs"
    "set as \<inter> set fs = {}" "set as \<subseteq> U" "set fs \<subseteq> U" "set ls \<subseteq> U"
proof -
  show d: "cells_data lo hi h T U cs as ls fs" "links_of cs 0 as 0" "links_of cs 0 fs 0"
    using assms by (simp_all add: cells_inv_def)
  show "0 \<notin> set as" "0 \<notin> set fs" "0 \<notin> set ls" "set as \<subseteq> U" "set fs \<subseteq> U" "set ls \<subseteq> U"
    using cells_data_mem [OF d(1)] by auto
  show "distinct as" "distinct fs" "set as \<inter> set fs = {}" "sorted fs"
    using cells_dataD(4,5) [OF d(1)] by auto
qed

lemma extract_allocated:
  assumes "cells_inv lo hi h T U cs (A @ c # B) [] fs"
  shows "\<exists>cs'. extract_cell (head_or 0 (A @ c # B)) c cs = (head_or 0 (A @ B), cs') \<and>
    cells_inv lo hi h T U cs' (A @ B) [c] fs \<and> agree U cs cs' \<and> (\<forall>x. cell_size (cs' x) = cell_size (cs x))"
proof -
  note I = cells_invD [OF assms]
  obtain cs' where cs': "extract_cell (head_or 0 (A @ c # B)) c cs = (head_or 0 (A @ B), cs')"
    "links_of cs' 0 (A @ B) 0" "pointers_only (set (A @ B)) cs cs'"
    using extract_links [OF I(2,7,4)] by blast
  have "cells_data lo hi h T U cs' (A @ B) [c] fs"
    by (rule cells_data_cong [OF I(1)])
      (use cells_dataD(4,5,7,8) [OF I(1)] pointers_onlyD [OF cs'(3)] in auto)
  moreover have "links_of cs' 0 fs 0"
    using pointers_onlyD(4) [OF cs'(3), of fs] I(3,10) by auto
  moreover have "agree U cs cs'"
    by (rule pointers_onlyD(5) [OF cs'(3)]) (use I(11) in auto)
  ultimately show ?thesis
    using cs'(1,2) pointers_onlyD(1) [OF cs'(3)] by (auto simp: cells_inv_def)
qed

lemma extract_free:
  assumes "cells_inv lo hi h T U cs as [] (A @ c # B)"
  shows "\<exists>cs'. extract_cell (head_or 0 (A @ c # B)) c cs = (head_or 0 (A @ B), cs') \<and>
    cells_inv lo hi h T U cs' as [c] (A @ B) \<and> agree U cs cs' \<and> (\<forall>x. cell_size (cs' x) = cell_size (cs x))"
proof -
  note I = cells_invD [OF assms]
  obtain cs' where cs': "extract_cell (head_or 0 (A @ c # B)) c cs = (head_or 0 (A @ B), cs')"
    "links_of cs' 0 (A @ B) 0" "pointers_only (set (A @ B)) cs cs'"
    using extract_links [OF I(3,8,5)] by blast
  have "cells_data lo hi h T U cs' as [c] (A @ B)"
    by (rule cells_data_cong [OF I(1)])
      (use cells_dataD(4,5,7,8) [OF I(1)] pointers_onlyD [OF cs'(3)] in \<open>auto simp: sorted_append\<close>)
  moreover have "links_of cs' 0 as 0"
    using pointers_onlyD(4) [OF cs'(3), of as] I(2,10) by auto
  moreover have "agree U cs cs'"
    by (rule pointers_onlyD(5) [OF cs'(3)]) (use I(12) in auto)
  ultimately show ?thesis
    using cs'(1,2) pointers_onlyD(1) [OF cs'(3)] by (auto simp: cells_inv_def)
qed

lemma own_loose:
  assumes "cells_inv lo hi h T U cs as [c] fs"
  shows "cells_inv lo hi h T U (set_owner c ow cs) as [c] fs" "agree U cs (set_owner c ow cs)"
proof -
  note I = cells_invD [OF assms]
  have "cells_data lo hi h T U (set_owner c ow cs) as [c] fs"
    by (rule cells_data_cong [OF I(1)]) (use cells_dataD(4,5,7,8) [OF I(1)] in auto)
  then show "cells_inv lo hi h T U (set_owner c ow cs) as [c] fs"
    using I(2,3) by (simp add: cells_inv_def)
  show "agree U cs (set_owner c ow cs)" using I(13) by simp
qed

lemma file_allocated:
  assumes "cells_inv lo hi h T U cs as [c] fs" "cell_owner (cs c) = Some h"
  shows "cells_inv lo hi h T U (addFront (head_or 0 as) c cs) (c # as) [] fs \<and>
    agree U cs (addFront (head_or 0 as) c cs) \<and> (\<forall>x. cell_size (addFront (head_or 0 as) c cs x) = cell_size (cs x))"
proof -
  note I = cells_invD [OF assms(1)]
  have d: "distinct (c # as)" "0 \<notin> set (c # as)" "set fs \<inter> set (c # as) = {}"
    using cells_dataD(4) [OF I(1)] I(4,6) by auto
  note F = addFront_links [OF I(2) d(1,2)]
  note P = pointers_onlyD [OF conjunct2 [OF F]]
  have "cells_data lo hi h T U (addFront (head_or 0 as) c cs) (c # as) [] fs"
    by (rule cells_data_cong [OF I(1)]) (use cells_dataD(4,5,7,8) [OF I(1)] P(1,2) assms(2) in auto)
  then show ?thesis
    using F P(1) P(4) [OF d(3)] P(5) [of U] I(3,11,13) by (auto simp: cells_inv_def)
qed

lemma file_free:
  assumes "cells_inv lo hi h T U cs as [c] (L @ R)" "cell_owner (cs c) = None" "\<forall>x\<in>set L. x < c" "\<forall>x\<in>set R. c < x"
  shows "\<exists>cs'. link_between (head_or 0 (L @ R)) (last_or 0 L) c (head_or 0 R) cs = (head_or 0 (L @ c # R), cs') \<and>
    cells_inv lo hi h T U cs' as [] (L @ c # R) \<and> agree U cs cs' \<and> (\<forall>x. cell_size (cs' x) = cell_size (cs x))"
proof -
  note I = cells_invD [OF assms(1)]
  have d: "distinct (L @ c # R)" "0 \<notin> set (L @ c # R)" "set as \<inter> set (L @ c # R) = {}"
    using cells_dataD(4) [OF I(1)] I(5,6) by auto
  obtain cs' where cs': "link_between (head_or 0 (L @ R)) (last_or 0 L) c (head_or 0 R) cs = (head_or 0 (L @ c # R), cs')"
    "links_of cs' 0 (L @ c # R) 0" "pointers_only (set (L @ c # R)) cs cs'"
    using link_between_links [OF I(3) d(1,2)] by blast
  note P = pointers_onlyD [OF cs'(3)]
  have "sorted (L @ c # R)" using I(9) assms(3,4) by (auto simp: sorted_append less_imp_le)
  then have "cells_data lo hi h T U cs' as [] (L @ c # R)"
    by (intro cells_data_cong [OF I(1)]) (use cells_dataD(4,5,7,8) [OF I(1)] P(1,2) assms(2) in auto)
  then show ?thesis
    using cs' P(1) P(4) [OF d(3)] P(5) [of U] I(2,12,13) by (auto simp: cells_inv_def)
qed

lemma absorb_free:
  assumes "cells_inv lo hi h T U cs as [] (A @ a # b # B)" "a + cell_size (cs a) = b"
  shows "cells_inv lo hi h T U (absorb a b cs) as [] (A @ a # B) \<and> agree U cs (absorb a b cs) \<and>
    (\<forall>x. cell_size (absorb a b cs x) = (if x = a then cell_size (cs a) + cell_size (cs b) else cell_size (cs x)))"
proof -
  note I = cells_invD [OF assms(1)]
  let ?f = "sz_of cs" and ?Y = "set as \<union> set A \<union> set B"
  note D = cells_dataD [OF I(1)]
  have X: "set (as @ [] @ A @ a # b # B) = insert a (insert b ?Y)" "set (as @ [] @ A @ a # B) = insert a ?Y" by auto
  have n: "a \<notin> ?Y" "b \<notin> ?Y" "a \<noteq> b" using D(4) by auto
  note T = D(6) [unfolded X]
  have sz: "64 \<le> ?f a" "?f a mod 32 = 0" "64 \<le> ?f b" "?f b mod 32 = 0" "?f a + ?f b \<le> T"
    using tilesD(5,6) [OF T] tiles_sums(2) [OF T _ _ n(3)] by simp_all
  then have s32: "s32 (?f a + ?f b) = ?f a + ?f b" using D(3) by (intro s32_id) simp_all
  have L: "links_of (absorb a b cs) 0 (A @ a # B) 0"
    "one_size (set (A @ a # B)) a (?f a + ?f b) cs (absorb a b cs)" "cell_owner (absorb a b cs a) = cell_owner (cs a)"
    using absorb_links [OF I(3,8,5)] by (simp_all add: s32)
  note P = one_sizeD [OF L(2)]
  have "?f(a := ?f a, b := ?f b) = ?f" by auto
  then have "tiles lo hi T U (?f(a := ?f a + ?f b)) (insert a ?Y)"
    using tiles_cut [OF n sz(1-4) assms(2) [symmetric], of lo hi T U ?f] T by simp
  moreover have "?f(a := ?f a + ?f b) = sz_of (absorb a b cs)" by (simp add: P(1) fun_eq_iff)
  ultimately have "tiles lo hi T U (sz_of (absorb a b cs)) (insert a ?Y)" by simp
  moreover have "distinct (as @ [] @ A @ a # B)" "sorted (A @ a # B)" using D(4,5) by (auto simp: sorted_append)
  moreover have "\<forall>x\<in>set as. cell_owner (absorb a b cs x) = Some h"
  proof
    fix x assume x: "x \<in> set as"
    then have "x \<noteq> a" using n(1) by auto
    then show "cell_owner (absorb a b cs x) = Some h" using D(7) [OF x] P(2) by simp
  qed
  moreover have "\<forall>x\<in>set (A @ a # B). cell_owner (absorb a b cs x) = None"
  proof
    fix x assume "x \<in> set (A @ a # B)"
    then show "cell_owner (absorb a b cs x) = None" using D(8) [of x] P(2) [of x] L(3) by (cases "x = a") auto
  qed
  ultimately have "cells_data lo hi h T U (absorb a b cs) as [] (A @ a # B)"
    unfolding cells_data_def X using D(1-3) by blast
  moreover have "set as \<inter> set (A @ a # B) = {}" using D(4) by auto
  then have "links_of (absorb a b cs) 0 as 0" using P(4) [of as] I(2) by simp
  ultimately show ?thesis
    using L(1) P(1) P(5) [of U] I(12) by (auto simp: cells_inv_def)
qed

lemma split_free:
  assumes "cells_inv lo hi h T U cs as [] (A @ c # B)" "freeList d = head_or 0 (A @ c # B)"
    and r: "64 \<le> r" "r mod 32 = 0" "64 \<le> cell_size (cs c) - r"
  shows "\<exists>cs'. replace_cell d c (c + r) (cell_size (cs c) - r) cs = (d\<lparr>freeList := head_or 0 (A @ (c + r) # B)\<rparr>, cs') \<and>
    cells_inv lo hi h T U (set_size c r cs') as [c] (A @ (c + r) # B) \<and> agree U cs (set_size c r cs') \<and>
    (\<forall>x. cell_size (set_size c r cs' x) = (if x = c then r else if x = c + r then cell_size (cs c) - r else cell_size (cs x)))"
proof -
  note I = cells_invD [OF assms(1)]
  note D = cells_dataD [OF I(1)]
  let ?f = "sz_of cs" and ?Y = "set as \<union> set A \<union> set B" and ?at = "c + r" and ?q = "cell_size (cs c) - r"
  have X: "set (as @ [] @ A @ c # B) = insert c ?Y" "set (as @ [c] @ A @ ?at # B) = insert c (insert ?at ?Y)" by auto
  note T = D(6) [unfolded X]
  have cY: "c \<notin> ?Y" using D(4) by auto
  have inside: "y + ?f y \<le> c \<or> c + ?f c \<le> y" "0 < ?f y" if "y \<in> ?Y" for y
    using tilesD(7) [OF T, of c y] tilesD(5) [OF T, of y] that cY by auto
  have n: "c \<notin> ?Y" "?at \<notin> ?Y" "c \<noteq> ?at" using inside [of ?at] cY r by auto
  have q: "?q mod 32 = 0" using tilesD(6) [OF T, of c] r(2) mod_diff_eq [of "cell_size (cs c)" 32 r] by simp
  have atU: "?at \<in> U" by (rule tilesD(9) [OF T, of c]) (use r in auto)
  have cU: "c \<in> U" "c \<noteq> 0" using I(5,12) by auto
  have at0: "?at \<noteq> 0" using tilesD(2) [OF T, of c] D(1) r(1) by auto
  have d: "distinct (A @ ?at # B)" "0 \<notin> set (A @ ?at # B)" "set as \<inter> set (A @ ?at # B) = {}" "c \<notin> set (A @ B)"
    using n D(4) I(5) at0 by auto
  obtain cs' where L: "replace_cell d c ?at ?q cs = (d\<lparr>freeList := head_or 0 (A @ ?at # B)\<rparr>, cs')"
    "links_of cs' 0 (A @ ?at # B) 0" "one_size (set (A @ ?at # B)) ?at ?q cs cs'" "cell_owner (cs' ?at) = None"
    using replace_cell_links [OF I(3) d(1,2) n(3) d(4) assms(2) cU(2)] by blast
  note P = one_sizeD [OF L(3)]
  let ?cs = "set_size c r cs'"
  have sz: "cell_size (?cs x) = (if x = c then r else if x = ?at then ?q else cell_size (cs x))" for x
    by (simp add: P(1))
  have "?f(c := ?f c) = ?f" by auto
  then have "tiles lo hi T U (?f(c := r, ?at := ?q)) (insert c (insert ?at ?Y))"
    using tiles_cut [OF n r(1,2,3) q, of lo hi T U ?f] T by simp
  moreover have "?f(c := r, ?at := ?q) = sz_of ?cs" using n(3) by (simp add: P(1) fun_eq_iff)
  ultimately have "tiles lo hi T U (sz_of ?cs) (insert c (insert ?at ?Y))" by (simp only:)
  moreover have "distinct (as @ [c] @ A @ ?at # B)" using D(4) n by auto
  moreover have "sorted (A @ ?at # B)"
  proof -
    have "x \<le> ?at" if "x \<in> set A" for x using I(9) that r(1) by (auto simp: sorted_append)
    moreover have "?at \<le> x" if "x \<in> set B" for x
      using inside [of x] that I(9) r by (auto simp: sorted_append)
    ultimately show ?thesis using I(9) by (auto simp: sorted_append)
  qed
  moreover have "\<forall>x\<in>set as. cell_owner (?cs x) = Some h"
  proof
    fix x assume x: "x \<in> set as"
    then have "x \<noteq> ?at" using n(2) by auto
    then show "cell_owner (?cs x) = Some h" using D(7) [OF x] P(2) by simp
  qed
  moreover have "\<forall>x\<in>set (A @ ?at # B). cell_owner (?cs x) = None"
  proof
    fix x assume "x \<in> set (A @ ?at # B)"
    then show "cell_owner (?cs x) = None" using D(8) [of x] P(2) [of x] L(4) by (cases "x = ?at") auto
  qed
  ultimately have "cells_data lo hi h T U ?cs as [c] (A @ ?at # B)"
    unfolding cells_data_def X using D(1-3) by blast
  moreover have "links_of ?cs 0 as 0" "links_of ?cs 0 (A @ ?at # B) 0"
    using P(4) [OF d(3)] I(2) L(2) by simp_all
  moreover have "agree U cs ?cs"
    using agree_trans [OF P(5) agree_upd(3)] I(12) atU cU by auto
  ultimately show ?thesis using L(1) sz unfolding cells_inv_def by blast
qed

text \<open>Filing a cell merges it with the free neighbours it touches; a list without touching
  neighbours stays so.\<close>

definition no_touch :: "cells \<Rightarrow> int list \<Rightarrow> bool" where
  "no_touch cs fs \<longleftrightarrow> sorted_wrt (\<lambda>a b. a + cell_size (cs a) < b) fs"

lemma sorted_gap:
  assumes "cells_data lo hi h T U cs as ls fs"
  shows "sorted_wrt (\<lambda>a b. a + cell_size (cs a) \<le> b) fs"
proof -
  have "sorted_wrt (\<lambda>a b. a + cell_size (cs a) \<le> b) gs" if "sorted gs" "distinct gs" "set gs \<subseteq> set fs" for gs
    using that
  proof (induction gs)
    case (Cons g gs)
    have "g + cell_size (cs g) \<le> y" if "y \<in> set gs" for y
      using Cons.prems that tilesD(7) [OF cells_dataD(6) [OF assms], of g y]
        tilesD(5) [OF cells_dataD(6) [OF assms], of y] by force
    then show ?case using Cons by auto
  qed simp
  then show ?thesis using cells_dataD(4,5) [OF assms] by simp
qed

lemma coalesce_right_correct:
  assumes inv: "cells_inv lo hi h T U cs as [] (L @ c # R)" and nt: "no_touch cs R"
  shows "\<exists>R'. cells_inv lo hi h T U (coalesce_right c cs) as [] (L @ c # R') \<and> agree U cs (coalesce_right c cs) \<and>
    (\<forall>x. x \<noteq> c \<longrightarrow> cell_size (coalesce_right c cs x) = cell_size (cs x)) \<and>
    no_touch (coalesce_right c cs) (c # R') \<and> set R' \<subseteq> set R"
proof -
  have gap: "\<And>x. x \<in> set R \<Longrightarrow> c + cell_size (cs c) \<le> x"
    using sorted_gap [OF cells_invD(1) [OF inv]] by (auto simp: sorted_wrt_append)
  define cs1 where "cs1 = coalesce_right c cs"
  show ?thesis
  proof (cases "R \<noteq> [] \<and> c + cell_size (cs c) = hd R")
    case True
    then obtain b R' where R: "R = b # R'" "c + cell_size (cs c) = b" by (cases R) auto
    have "cell_next (cs c) = b" "b \<noteq> 0" using cells_invD(3,5) [OF inv] R(1) by auto
    then have e: "cs1 = absorb c b cs" using R(2) by (simp add: cs1_def coalesce_right_def)
    have A: "cells_inv lo hi h T U cs1 as [] (L @ c # R')" "agree U cs cs1"
      "\<forall>x. cell_size (cs1 x) = (if x = c then cell_size (cs c) + cell_size (cs b) else cell_size (cs x))"
      using absorb_free [OF inv [unfolded R(1)] R(2)] by (simp_all add: e)
    have "c \<notin> set R'" "b + cell_size (cs b) < y" if "y \<in> set R'" for y
      using nt that R(1) cells_invD(8) [OF inv] by (auto simp: no_touch_def)
    then have "no_touch cs1 (c # R')"
      using nt R A(3) unfolding no_touch_def
      by (auto intro!: sorted_wrt_mono_rel [where P = "\<lambda>a b. a + cell_size (cs a) < b"] simp: algebra_simps)
    then show ?thesis using A R(1) by (intro exI [of _ R']) (auto simp: cs1_def [symmetric])
  next
    case False
    have "cell_next (cs c) = head_or 0 R" using cells_invD(3) [OF inv] by simp
    then have e: "cs1 = cs" using False cells_invD(5) [OF inv]
      by (cases R) (auto simp: cs1_def coalesce_right_def)
    have "c + cell_size (cs c) < x" if "x \<in> set R" for x
    proof (cases R)
      case (Cons b R')
      have "c + cell_size (cs c) < b" using gap [of b] False Cons by force
      moreover have "b \<le> x" using that Cons cells_invD(9) [OF inv] by (auto simp: sorted_append)
      ultimately show ?thesis by simp
    qed (use that in simp)
    then have "no_touch cs1 (c # R)" using nt by (simp add: e no_touch_def)
    then show ?thesis using inv e by (intro exI [of _ R]) (simp add: cs1_def)
  qed
qed

lemma coalesce_left_correct:
  assumes inv: "cells_inv lo hi h T U cs as [] (L @ c # R)" and nt: "no_touch cs L" "no_touch cs (c # R)"
  shows "\<exists>fs. cells_inv lo hi h T U (coalesce_left c cs) as [] fs \<and> no_touch (coalesce_left c cs) fs \<and>
    head_or 0 fs = head_or 0 (L @ [c]) \<and> agree U cs (coalesce_left c cs) \<and>
    (\<forall>x\<in>set as. cell_size (coalesce_left c cs x) = cell_size (cs x))"
proof -
  have gap: "\<And>x. x \<in> set L \<Longrightarrow> x + cell_size (cs x) \<le> c"
    using sorted_gap [OF cells_invD(1) [OF inv]] by (auto simp: sorted_wrt_append)
  have prev: "cell_prev (cs c) = last_or 0 L" using cells_invD(3) [OF inv] by simp
  show ?thesis
  proof (cases "L \<noteq> [] \<and> last L + cell_size (cs (last L)) = c")
    case True
    then obtain L' l where L: "L = L' @ [l]" "l + cell_size (cs l) = c" by (cases L rule: rev_cases) auto
    have "cell_prev (cs c) = l" "l \<noteq> 0" using prev cells_invD(5) [OF inv] L(1) by auto
    then have e: "coalesce_left c cs = absorb l c cs" using L(2) by (simp add: coalesce_left_def)
    have inv1: "cells_inv lo hi h T U cs as [] (L' @ l # c # R)" using inv L(1) by simp
    have A: "cells_inv lo hi h T U (absorb l c cs) as [] (L' @ l # R)" "agree U cs (absorb l c cs)"
      "\<forall>x. cell_size (absorb l c cs x) = (if x = l then cell_size (cs l) + cell_size (cs c) else cell_size (cs x))"
      using absorb_free [OF inv1 L(2)] by simp_all
    have lc: "c + cell_size (cs c) < y" if "y \<in> set R" for y using nt(2) that by (auto simp: no_touch_def)
    have ll: "x + cell_size (cs x) < l" if "x \<in> set L'" for x using nt(1) L(1) that by (auto simp: no_touch_def sorted_wrt_append)
    have lr: "l < y" if "y \<in> set R" for y
      using lc [OF that] L(2) tilesD(5) [OF cells_dataD(6) [OF cells_invD(1) [OF inv1]], of l]
        tilesD(5) [OF cells_dataD(6) [OF cells_invD(1) [OF inv1]], of c] by simp
    have ne: "l \<notin> set L'" "l \<notin> set R" using cells_invD(8) [OF inv1] by auto
    have "no_touch (absorb l c cs) (L' @ l # R)"
    proof -
      have 1: "sorted_wrt (\<lambda>a b. a + cell_size (absorb l c cs a) < b) L'"
        by (rule sorted_wrt_mono_rel [of _ "\<lambda>a b. a + cell_size (cs a) < b"])
          (use nt(1) L(1) A(3) ne in \<open>auto simp: no_touch_def sorted_wrt_append\<close>)
      have 2: "sorted_wrt (\<lambda>a b. a + cell_size (absorb l c cs a) < b) R"
        by (rule sorted_wrt_mono_rel [of _ "\<lambda>a b. a + cell_size (cs a) < b"])
          (use nt(2) A(3) ne in \<open>auto simp: no_touch_def\<close>)
      have 3: "l + cell_size (absorb l c cs l) < y" if "y \<in> set R" for y using A(3) lc [OF that] L(2) by simp
      have 4: "x + cell_size (absorb l c cs x) < y" if "x \<in> set L'" "y \<in> set (l # R)" for x y
        using A(3) ll [OF that(1)] that ne(1) lr by (cases "y = l") force+
      show ?thesis unfolding no_touch_def sorted_wrt_append using 1 2 3 4 by simp
    qed
    moreover have "l \<notin> set as" using cells_invD(10) [OF inv1] by auto
    then have "\<forall>x\<in>set as. cell_size (absorb l c cs x) = cell_size (cs x)" using A(3) by auto
    ultimately show ?thesis
      unfolding e using A(1,2) L(1)
      by (intro exI [of _ "L' @ l # R"]) simp
  next
    case False
    then have e: "coalesce_left c cs = cs" using prev cells_invD(5) [OF inv]
      by (cases L rule: rev_cases) (auto simp: coalesce_left_def)
    have "x + cell_size (cs x) < y" if x: "x \<in> set L" and y: "y \<in> set (c # R)" for x y
    proof -
      obtain L' l where L: "L = L' @ [l]" using x by (cases L rule: rev_cases) auto
      have "x + cell_size (cs x) < c"
      proof (cases "x = l")
        case True
        have "last L = l" using L by simp
        then have "l + cell_size (cs l) \<noteq> c" using False L by auto
        with True show ?thesis using gap [OF x] by simp
      next
        case f: False
        then have "x + cell_size (cs x) < l" using nt(1) x L by (auto simp: no_touch_def sorted_wrt_append)
        moreover have "l < c" using cells_invD(8,9) [OF inv] L by (auto simp: sorted_append less_le)
        ultimately show ?thesis by simp
      qed
      moreover have "c \<le> y" using y cells_invD(9) [OF inv] by (auto simp: sorted_append)
      ultimately show ?thesis by simp
    qed
    then have "no_touch cs (L @ c # R)"
      unfolding no_touch_def sorted_wrt_append using nt(1) nt(2) by (simp add: no_touch_def)
    then show ?thesis
      unfolding e using inv
      by (intro exI [of _ "L @ c # R"]) auto
  qed
qed

lemma coalesce_correct:
  assumes inv: "cells_inv lo hi h T U cs as [] (L @ c # R)" and nt: "no_touch cs L" "no_touch cs R"
  shows "\<exists>fs. cells_inv lo hi h T U (coalesce_left c (coalesce_right c cs)) as [] fs \<and>
    no_touch (coalesce_left c (coalesce_right c cs)) fs \<and> head_or 0 fs = head_or 0 (L @ [c]) \<and>
    agree U cs (coalesce_left c (coalesce_right c cs)) \<and>
    (\<forall>x\<in>set as. cell_size (coalesce_left c (coalesce_right c cs) x) = cell_size (cs x))"
proof -
  let ?cs = "coalesce_right c cs"
  obtain R' where R': "cells_inv lo hi h T U ?cs as [] (L @ c # R')" "agree U cs ?cs"
    "\<forall>x. x \<noteq> c \<longrightarrow> cell_size (?cs x) = cell_size (cs x)" "no_touch ?cs (c # R')"
    using coalesce_right_correct [OF inv nt(2)] by blast
  have c: "c \<notin> set L" "c \<notin> set as" using cells_invD(8,10) [OF inv] by auto
  then have "no_touch ?cs L"
    using nt(1) R'(3) unfolding no_touch_def
    by (auto intro!: sorted_wrt_mono_rel [of L "\<lambda>a b. a + cell_size (cs a) < b"])
  from coalesce_left_correct [OF R'(1) this R'(4)] show ?thesis
    using agree_trans [OF R'(2)] R'(3) c(2) by force
qed

lemma insertAndCoalesce_correct:
  assumes inv: "cells_inv lo hi h T U cs as [c] fs" and o: "cell_owner (cs c) = None" and nt: "no_touch cs fs"
  shows "\<exists>cs' fs'. insertAndCoalesce (head_or 0 fs) c cs = Some (head_or 0 fs', cs') \<and>
    cells_inv lo hi h T U cs' as [] fs' \<and> no_touch cs' fs' \<and> agree U cs cs' \<and>
    (\<forall>x\<in>set as. cell_size (cs' x) = cell_size (cs x))"
proof -
  note I = cells_invD [OF inv]
  define L where "L = takeWhile (\<lambda>x. x < c) fs"
  define R where "R = dropWhile (\<lambda>x. x < c) fs"
  have fs: "fs = L @ R" by (simp add: L_def R_def)
  have "c \<notin> set fs" using cells_dataD(4) [OF I(1)] by auto
  then have LR: "\<forall>x\<in>set L. x < c" "\<forall>x\<in>set R. c < x"
    using set_takeWhileD sorted_dropWhile I(9) unfolding L_def R_def
  proof -
    show "\<forall>x\<in>set (takeWhile (\<lambda>x. x < c) fs). x < c" using set_takeWhileD by fast
    show "\<forall>x\<in>set (dropWhile (\<lambda>x. x < c) fs). c < x"
      using \<open>c \<notin> set fs\<close> I(9) by (induction fs) (auto simp: less_le)
  qed
  have w: "insert_walk cs c 0 (head_or 0 fs) = Some (last_or 0 L, head_or 0 R)"
    using insert_walk_list [OF I(3,5,9)] by (simp add: L_def R_def)
  obtain cs1 where l: "link_between (head_or 0 fs) (last_or 0 L) c (head_or 0 R) cs = (head_or 0 (L @ c # R), cs1)"
    "cells_inv lo hi h T U cs1 as [] (L @ c # R)" "agree U cs cs1" "\<forall>x. cell_size (cs1 x) = cell_size (cs x)"
    using file_free [OF inv [unfolded fs] o LR] fs by auto
  have "no_touch cs1 L" "no_touch cs1 R"
    using nt l(4) by (simp_all add: no_touch_def fs sorted_wrt_append)
  from coalesce_correct [OF l(2) this] obtain fs' where
    "cells_inv lo hi h T U (coalesce_left c (coalesce_right c cs1)) as [] fs'"
    "no_touch (coalesce_left c (coalesce_right c cs1)) fs'" "head_or 0 fs' = head_or 0 (L @ [c])"
    "agree U cs1 (coalesce_left c (coalesce_right c cs1))"
    "\<forall>x\<in>set as. cell_size (coalesce_left c (coalesce_right c cs1) x) = cell_size (cs1 x)" by blast
  then show ?thesis
    using agree_trans [OF l(3)] l(4) unfolding insertAndCoalesce_def w
    by (intro exI [of _ "coalesce_left c (coalesce_right c cs1)"] exI [of _ fs']) (simp add: l(1))
qed

end
