(* ===== verification/OsHeapOps.thy ===== *)
theory OsHeapOps
  imports OsHeapCorrect AllocSpec
begin

text \<open>
  The heap operations of \<open>OSAlloc.cpp\<close> on well-formed heaps: allocation, free, the consistency
  check, heap creation, and the interface of \<open>AllocSpec\<close> as the theorem about all call sequences.
\<close>

section \<open>Well-formed heaps\<close>

definition heap_rep :: "nat \<Rightarrow> int \<Rightarrow> int set \<Rightarrow> os_heaps \<Rightarrow> int list \<Rightarrow> int list \<Rightarrow> bool" where
  "heap_rep h T U s as fs \<longleftrightarrow>
     (case sHeapArray s of None \<Rightarrow> False | Some ds \<Rightarrow> h < length ds) \<and> 0 < sArenaEnd s \<and>
     desc_size (heap_at s h) = T \<and> allocated (heap_at s h) = head_or 0 as \<and> freeList (heap_at s h) = head_or 0 fs \<and>
     cells_inv (sArenaStart s) (sArenaEnd s) h T U (cell_at s) as [] fs \<and> no_touch (cell_at s) fs"

lemma heap_repD:
  assumes "heap_rep h T U s as fs"
  shows "desc_size (heap_at s h) = T" "allocated (heap_at s h) = head_or 0 as" "freeList (heap_at s h) = head_or 0 fs"
    "cells_inv (sArenaStart s) (sArenaEnd s) h T U (cell_at s) as [] fs" "no_touch (cell_at s) fs"
    "0 < sArenaStart s" "0 < sArenaEnd s" "validHeapHandle (int h) s" "T < 2147483648" "0 \<le> T"
proof -
  note H = assms [unfolded heap_rep_def]
  show a: "desc_size (heap_at s h) = T" "allocated (heap_at s h) = head_or 0 as" "freeList (heap_at s h) = head_or 0 fs"
    "cells_inv (sArenaStart s) (sArenaEnd s) h T U (cell_at s) as [] fs" "no_touch (cell_at s) fs" "0 < sArenaEnd s"
    using H by blast+
  note D = cells_dataD [OF cells_invD(1) [OF a(4)]]
  show "0 < sArenaStart s" "T < 2147483648" using D(1,3) by simp_all
  show "0 \<le> T" using tilesD(5,8) [OF D(6)] by (metis (no_types, lifting) sum_nonneg zero_le_numeral order_trans)
  with a(1) H show "validHeapHandle (int h) s"
    by (auto simp: validHeapHandle_def heap_at_def split: option.splits)
qed

lemma heap_repI:
  assumes "heap_rep h T0 U0 s as0 fs0"
    and "cells_inv (sArenaStart s) (sArenaEnd s) h T U cs as [] fs" "no_touch cs fs"
    and "desc_size d = T" "allocated d = head_or 0 as" "freeList d = head_or 0 fs"
  shows "heap_rep h T U (put_heap h d (s\<lparr>cell_at := cs\<rparr>)) as fs"
  using assms unfolding heap_rep_def by (auto simp: put_heap_def heap_at_def split: option.splits)

lemma put_heap_sel [simp]:
  "cell_at (put_heap h d s) = cell_at s" "sArenaStart (put_heap h d s) = sArenaStart s"
  "sArenaEnd (put_heap h d s) = sArenaEnd s" "currHeap (put_heap h d s) = currHeap s"
  by (simp_all add: put_heap_def)

lemma heap_cell:
  assumes "heap_rep h T U s as fs" "x \<in> set (as @ fs)"
  shows "x mod 32 = 0" "64 \<le> cell_size (cell_at s x)" "cell_size (cell_at s x) mod 32 = 0" "sArenaStart s \<le> x"
    "x + cell_size (cell_at s x) \<le> sArenaEnd s" "cell_size (cell_at s x) \<le> T" "inArena (x + 32) s" "inArena x s"
proof -
  note R = heap_repD [OF assms(1)]
  note t = cells_dataD(6) [OF cells_invD(1) [OF R(4)]]
  have x: "x \<in> set (as @ [] @ fs)" using assms(2) by simp
  show "x mod 32 = 0" "64 \<le> cell_size (cell_at s x)" "cell_size (cell_at s x) mod 32 = 0" "sArenaStart s \<le> x"
    "x + cell_size (cell_at s x) \<le> sArenaEnd s" "cell_size (cell_at s x) \<le> T"
    using tilesD(2-6) [OF t x] tiles_sums(1) [OF t x] by simp_all
  then show "inArena (x + 32) s" "inArena x s" using R(6,7) by (simp_all add: inArena_def)
qed

section \<open>Allocation\<close>

definition block_request :: "int \<Rightarrow> int" where
  "block_request n = (n + 63) div 32 * 32"

lemma requested_eq:
  assumes "0 < n" "n \<le> 2147483584"
  shows "s32 (roundUp32 (n + kHeaderSize)) = block_request n" "64 \<le> block_request n" "block_request n mod 32 = 0"
    "n + 32 \<le> block_request n"
proof -
  have u: "uptr (n + 32 + 31) = n + 63" using assms by (simp add: uptr_def)
  show b: "64 \<le> block_request n" "n + 32 \<le> block_request n" "block_request n mod 32 = 0"
    using assms by (simp_all add: block_request_def)
  have "block_request n \<le> n + 63" by (simp add: block_request_def)
  then show "s32 (roundUp32 (n + kHeaderSize)) = block_request n"
    using b assms u by (simp add: roundUp32_def kHeaderSize_def kAlignment_def s32_id flip: block_request_def)
qed

text \<open>Cutting a block off the first free cell that fits.\<close>

lemma take_cell_correct:
  assumes inv: "cells_inv lo hi h T U cs as [] (A @ c # B)" and nt: "no_touch cs (A @ c # B)"
    and d: "freeList d = head_or 0 (A @ c # B)" and r: "64 \<le> r" "r mod 32 = 0" "r \<le> cell_size (cs c)"
  shows "\<exists>fs' cs'. take_cell r c d cs = (d\<lparr>freeList := head_or 0 fs'\<rparr>, cs') \<and> cells_inv lo hi h T U cs' as [c] fs' \<and>
    no_touch cs' fs' \<and> agree U cs cs' \<and> r \<le> cell_size (cs' c) \<and> cell_size (cs' c) \<le> cell_size (cs c) \<and>
    (\<forall>x\<in>set as. cell_size (cs' x) = cell_size (cs x))"
proof -
  note I = cells_invD [OF inv]
  have sz: "cell_size (cs c) \<le> T" "T < 2147483648"
    using tiles_sums(1) [OF cells_dataD(6) [OF I(1)], of c] cells_dataD(3) [OF I(1)] by auto
  then have lo: "s32 (cell_size (cs c) - r) = cell_size (cs c) - r" using r by (intro s32_id) simp_all
  have cas: "c \<notin> set as" "c \<notin> set A" "c \<notin> set B" using I(8,10) by auto
  show ?thesis
  proof (cases "cell_size (cs c) - r < kMinObjectSize")
    case True
    obtain cs' where e: "extract_cell (head_or 0 (A @ c # B)) c cs = (head_or 0 (A @ B), cs')"
      "cells_inv lo hi h T U cs' as [c] (A @ B)" "agree U cs cs'" "\<forall>x. cell_size (cs' x) = cell_size (cs x)"
      using extract_free [OF inv] by blast
    have "no_touch cs' (A @ B)" using nt e(4) by (auto simp: no_touch_def sorted_wrt_append)
    then show ?thesis using e r True
      by (intro exI [of _ "A @ B"] exI [of _ cs']) (simp add: take_cell_def Let_def lo d)
  next
    case False
    then have q: "64 \<le> cell_size (cs c) - r" by (simp add: kMinObjectSize_def)
    obtain cs' where e0: "replace_cell d c (c + r) (cell_size (cs c) - r) cs = (d\<lparr>freeList := head_or 0 (A @ (c + r) # B)\<rparr>, cs')"
      "cells_inv lo hi h T U (set_size c r cs') as [c] (A @ (c + r) # B)" "agree U cs (set_size c r cs')"
      "\<forall>x. cell_size (set_size c r cs' x) = (if x = c then r else if x = c + r then cell_size (cs c) - r else cell_size (cs x))"
      using split_free [OF inv d r(1,2) q] by blast
    define cs2 where "cs2 = set_size c r cs'"
    note e = e0 [folded cs2_def]
    note I' = cells_invD [OF e(2)]
    have n: "c + r \<notin> set as" "c + r \<notin> set A" "c + r \<notin> set B" using I'(8,10) by auto
    have old: "cell_size (cs2 x) = cell_size (cs x)" if "x \<in> set A \<union> set B" for x using e(4) that n cas by auto
    have "no_touch cs2 (A @ (c + r) # B)"
    proof -
      have "sorted_wrt (\<lambda>a b. a + cell_size (cs2 a) < b) A"
        by (rule sorted_wrt_mono_rel [of _ "\<lambda>a b. a + cell_size (cs a) < b"])
          (use nt old in \<open>auto simp: no_touch_def sorted_wrt_append\<close>)
      moreover have "sorted_wrt (\<lambda>a b. a + cell_size (cs2 a) < b) B"
        by (rule sorted_wrt_mono_rel [of _ "\<lambda>a b. a + cell_size (cs a) < b"])
          (use nt old in \<open>auto simp: no_touch_def sorted_wrt_append\<close>)
      moreover have "x + cell_size (cs2 x) < y" if "x \<in> set A" "y \<in> set ((c + r) # B)" for x y
        using nt old that r(1) by (force simp: no_touch_def sorted_wrt_append)
      moreover have "cell_size (cs2 (c + r)) = cell_size (cs c) - r" using e(4) r(1) by simp
      then have "c + r + cell_size (cs2 (c + r)) < y" if "y \<in> set B" for y
        using nt that by (simp add: no_touch_def sorted_wrt_append)
      ultimately show ?thesis unfolding no_touch_def sorted_wrt_append by simp
    qed
    moreover have "\<forall>x\<in>set as. cell_size (cs2 x) = cell_size (cs x)"
      using e(4) n(1) cas(1) by auto
    ultimately show ?thesis using e q r
      by (intro exI [of _ "A @ (c + r) # B"] exI [of _ cs2])
        (simp add: take_cell_def Let_def lo kMinObjectSize_def flip: cs2_def)
  qed
qed

lemma alloc_run:
  assumes H: "heap_rep h T U s as fs" and n: "0 < n" "n \<le> 2147483584"
  shows "case OSAllocFromHeap (int h) n s of None \<Rightarrow> False
    | Some (p, s') \<Rightarrow>
        if list_ex (\<lambda>x. block_request n \<le> cell_size (cell_at s x)) fs
        then \<exists>fs'. heap_rep h T U s' ((p - 32) # as) fs' \<and> agree U (cell_at s) (cell_at s') \<and>
          (\<forall>x\<in>set as. cell_size (cell_at s' x) = cell_size (cell_at s x)) \<and>
          block_request n \<le> cell_size (cell_at s' (p - 32)) \<and> p - 32 \<in> set fs
        else p = 0 \<and> s' = s"
proof -
  note R = heap_repD [OF H]
  note I = cells_invD [OF R(4)]
  let ?r = "block_request n" and ?cs = "cell_at s" and ?d = "heap_at s h"
  note rq = requested_eq [OF n]
  let ?fit = "dropWhile (\<lambda>x. cell_size (?cs x) < ?r) fs"
  have ff: "first_fit ?cs ?r (freeList ?d) = Some (head_or 0 ?fit)"
    using first_fit_list [OF I(3,5)] R(3) by simp
  have run: "OSAllocFromHeap (int h) n s = (if head_or 0 ?fit = 0 then Some (0, s)
      else let (d, cs) = take_cell ?r (head_or 0 ?fit) ?d ?cs;
               cs = addFront (allocated d) (head_or 0 ?fit) (set_owner (head_or 0 ?fit) (Some h) cs)
           in Some (head_or 0 ?fit + kHeaderSize, put_heap h (d\<lparr>allocated := head_or 0 ?fit\<rparr>) (s\<lparr>cell_at := cs\<rparr>)))"
    using R(8) n(1) by (simp add: OSAllocFromHeap_def rq(1) ff Let_def)
  show ?thesis
  proof (cases ?fit)
    case Nil
    then have "\<not> list_ex (\<lambda>x. ?r \<le> cell_size (?cs x)) fs"
      by (auto simp: dropWhile_eq_Nil_conv list_ex_iff)
    then show ?thesis using run Nil by simp
  next
    case (Cons c B)
    obtain A where fs: "fs = A @ c # B" using Cons by (metis takeWhile_dropWhile_id)
    have c: "?r \<le> cell_size (?cs c)" using Cons by (metis dropWhile_eq_Cons_conv linorder_not_less)
    then have ex: "list_ex (\<lambda>x. ?r \<le> cell_size (?cs x)) fs" by (simp add: fs)
    have c0: "c \<noteq> 0" using I(5) fs by auto
    obtain fs' cs1 where t: "take_cell ?r c ?d ?cs = (?d\<lparr>freeList := head_or 0 fs'\<rparr>, cs1)"
      "cells_inv (sArenaStart s) (sArenaEnd s) h T U cs1 as [c] fs'" "no_touch cs1 fs'" "agree U ?cs cs1"
      "?r \<le> cell_size (cs1 c)" "\<forall>x\<in>set as. cell_size (cs1 x) = cell_size (?cs x)"
      using take_cell_correct [OF R(4) [unfolded fs] R(5) [unfolded fs] R(3) [unfolded fs] rq(2,3) c] by blast
    define cs2 where "cs2 = addFront (head_or 0 as) c (set_owner c (Some h) cs1)"
    note O = own_loose [OF t(2), of "Some h"]
    have F: "cells_inv (sArenaStart s) (sArenaEnd s) h T U cs2 (c # as) [] fs'"
      "agree U (set_owner c (Some h) cs1) cs2" "\<forall>x. cell_size (cs2 x) = cell_size (cs1 x)"
      using file_allocated [OF O(1)] by (simp_all add: cs2_def)
    let ?s' = "put_heap h (?d\<lparr>freeList := head_or 0 fs', allocated := c\<rparr>) (s\<lparr>cell_at := cs2\<rparr>)"
    have e: "OSAllocFromHeap (int h) n s = Some (c + 32, ?s')"
      unfolding run Cons using c0 R(2) by (simp add: t(1) kHeaderSize_def flip: cs2_def)
    have "no_touch cs2 fs'" using t(3) F(3) by (simp add: no_touch_def)
    then have "heap_rep h T U ?s' (c # as) fs'"
      by (intro heap_repI [OF H F(1)]) (use R(1) in simp_all)
    moreover have "agree U ?cs cs2" using agree_trans [OF t(4) agree_trans [OF O(2) F(2)]] .
    moreover have "c \<in> set fs" by (simp add: fs)
    ultimately show ?thesis using ex t(5,6) F(3) by (auto simp: e)
  qed
qed

lemma referent_size:
  assumes "heap_rep h T U s as fs" "x \<in> set as"
  shows "OSReferentSize (x + 32) s = cell_size (cell_at s x) - 32"
proof -
  have x: "x \<in> set (as @ fs)" using assms(2) by simp
  note R = heap_repD [OF assms(1)]
  note C = heap_cell [OF assms(1) x]
  have "cell_owner (cell_at s x) = Some h"
    using cells_dataD(7) [OF cells_invD(1) [OF R(4)]] assms(2) by simp
  moreover have "x + 32 \<noteq> 0" "(x + 32) mod 32 = 0" using C(1,4) R(6) by simp_all
  ultimately show ?thesis
    using C(2,6,7) R(9) by (simp add: OSReferentSize_def kAlignment_def kHeaderSize_def mod_pos_pos_trivial)
qed

lemma alloc_block:
  assumes "heap_rep h T U s as fs" "0 < n" "n \<le> 2147483584"
  shows "case OSAllocFromHeap (int h) n s of None \<Rightarrow> False
    | Some (p, s') \<Rightarrow>
        if list_ex (\<lambda>x. block_request n \<le> cell_size (cell_at s x)) fs
        then p mod 32 = 0 \<and> n \<le> OSReferentSize p s' \<and> p - 32 \<in> set fs \<and>
          (\<exists>fs'. heap_rep h T U s' ((p - 32) # as) fs') \<and>
          map (\<lambda>x. OSReferentSize (x + 32) s') as = map (\<lambda>x. OSReferentSize (x + 32) s) as \<and>
          agree U (cell_at s) (cell_at s')
        else p = 0 \<and> s' = s"
proof -
  obtain p s' where e: "OSAllocFromHeap (int h) n s = Some (p, s')"
    using alloc_run [OF assms] by (auto split: option.splits)
  show ?thesis
  proof (cases "list_ex (\<lambda>x. block_request n \<le> cell_size (cell_at s x)) fs")
    case True
    then obtain fs' where H': "heap_rep h T U s' ((p - 32) # as) fs'" "agree U (cell_at s) (cell_at s')"
      "\<forall>x\<in>set as. cell_size (cell_at s' x) = cell_size (cell_at s x)"
      "block_request n \<le> cell_size (cell_at s' (p - 32))" "p - 32 \<in> set fs"
      using alloc_run [OF assms] by (auto simp: e)
    have "n \<le> OSReferentSize p s'"
      using referent_size [OF H'(1), of "p - 32"] H'(4) requested_eq(4) [OF assms(2,3)] by simp
    moreover have "p mod 32 = 0"
      using heap_cell(1) [OF H'(1), of "p - 32"] by (simp add: mod_diff_eq [symmetric, of p 32 32]) 
    moreover have "map (\<lambda>x. OSReferentSize (x + 32) s') as = map (\<lambda>x. OSReferentSize (x + 32) s) as"
      using referent_size [OF H'(1)] referent_size [OF assms(1)] H'(3) by simp
    ultimately show ?thesis using True H' by (auto simp: e)
  next
    case False
    then show ?thesis using alloc_run [OF assms] by (simp add: e)
  qed
qed

text \<open>C30: an allocation from a well-formed heap either finds no free cell large enough and then
  returns null and changes nothing, or returns a 32-byte-aligned block of at least the requested
  size cut from a free cell; the heap stays well formed over the same bytes and total size, with
  exactly that block added to the allocated ones, every other allocated block keeps its size, and
  nothing outside the heap is written.\<close>

theorem os_alloc_correct:
  assumes "heap_rep h T U s as fs" "0 < n" "n \<le> 2147483584"
  shows "case OSAllocFromHeap (int h) n s of None \<Rightarrow> False
    | Some (p, s') \<Rightarrow>
        if list_ex (\<lambda>x. block_request n \<le> cell_size (cell_at s x)) fs
        then p mod 32 = 0 \<and> n \<le> OSReferentSize p s' \<and> p - 32 \<in> set fs \<and>
          (\<exists>fs'. heap_rep h T U s' ((p - 32) # as) fs') \<and>
          map (\<lambda>x. OSReferentSize (x + 32) s') as = map (\<lambda>x. OSReferentSize (x + 32) s) as \<and>
          agree U (cell_at s) (cell_at s')
        else p = 0 \<and> s' = s"
  using assms by (rule alloc_block)

section \<open>Free\<close>

lemma free_run:
  assumes H: "heap_rep h T U s as fs"
  shows "if p - 32 \<in> set as
    then \<exists>s' fs'. OSFreeToHeap (int h) p s = Some s' \<and> heap_rep h T U s' (remove1 (p - 32) as) fs' \<and>
      agree U (cell_at s) (cell_at s') \<and>
      (\<forall>x\<in>set (remove1 (p - 32) as). cell_size (cell_at s' x) = cell_size (cell_at s x))
    else OSFreeToHeap (int h) p s = Some s"
proof -
  note R = heap_repD [OF H]
  note I = cells_invD [OF R(4)]
  let ?cs = "cell_at s" and ?d = "heap_at s h" and ?c = "p - 32"
  have cc: "containsCell ?cs (allocated ?d) ?c = Some (?c \<in> set as)"
    using containsCell_list [OF I(2,4)] R(2) by simp
  show ?thesis
  proof (cases "?c \<in> set as")
    case False
    then show ?thesis using R(8) cc by (auto simp: OSFreeToHeap_def kHeaderSize_def Let_def)
  next
    case True
    then obtain A B where as: "as = A @ ?c # B" "?c \<notin> set A" by (meson split_list_first)
    have r1: "remove1 ?c as = A @ B" by (subst as(1)) (simp add: remove1_append as(2))
    have cell: "?c mod 32 = 0" "inArena p s" "?c \<noteq> 0"
      using heap_cell(1,7) [OF H, of ?c] I(4) True by auto
    have own: "cell_owner (?cs ?c) = Some h" using cells_dataD(7) [OF I(1) True] .
    have p: "p \<noteq> 0" "p mod 32 = 0" using cell R(6) by (auto simp: inArena_def mod_diff_eq [symmetric, of p 32 32])
    have ha: "allocated ?d = head_or 0 (A @ ?c # B)" using R(2) as(1) by simp
    obtain cs1 where x: "extract_cell (head_or 0 (A @ ?c # B)) ?c ?cs = (head_or 0 (A @ B), cs1)"
      "cells_inv (sArenaStart s) (sArenaEnd s) h T U cs1 (A @ B) [?c] fs" "agree U ?cs cs1"
      "\<forall>x. cell_size (cs1 x) = cell_size (?cs x)"
      using extract_allocated [OF R(4) [unfolded as(1)]] by blast
    note O = own_loose [OF x(2), of None]
    have nt: "no_touch (set_owner ?c None cs1) fs" using R(5) x(4) by (simp add: no_touch_def)
    obtain cs2 fs' where i: "insertAndCoalesce (head_or 0 fs) ?c (set_owner ?c None cs1) = Some (head_or 0 fs', cs2)"
      "cells_inv (sArenaStart s) (sArenaEnd s) h T U cs2 (A @ B) [] fs'" "no_touch cs2 fs'"
      "agree U (set_owner ?c None cs1) cs2" "\<forall>x\<in>set (A @ B). cell_size (cs2 x) = cell_size (set_owner ?c None cs1 x)"
      using insertAndCoalesce_correct [OF O(1) _ nt] by auto
    let ?s' = "put_heap h (?d\<lparr>allocated := head_or 0 (A @ B), freeList := head_or 0 fs'\<rparr>) (s\<lparr>cell_at := cs2\<rparr>)"
    have e: "OSFreeToHeap (int h) p s = Some ?s'"
      using R(8) p cell own cc True x(1) i(1) ha R(3)
      by (simp add: OSFreeToHeap_def kHeaderSize_def kAlignment_def Let_def)
    have "heap_rep h T U ?s' (A @ B) fs'"
      by (intro heap_repI [OF H i(2,3)]) (use R(1) in simp_all)
    moreover have "agree U ?cs cs2" using agree_trans [OF x(3) agree_trans [OF O(2) i(4)]] .
    moreover have "\<forall>y\<in>set (A @ B). cell_size (cs2 y) = cell_size (?cs y)" using i(5) x(4) by simp
    ultimately show ?thesis using True r1 e by auto
  qed
qed

text \<open>C31: freeing a live block of a well-formed heap removes exactly that block from the allocated
  ones and returns its bytes to the free list, which stays in address order with no two free cells
  touching (every possible merge has been made); the other blocks keep their sizes and nothing
  outside the heap is written.  Freeing anything else, such as a block already freed, a foreign or
  an interior pointer, changes nothing.\<close>

theorem os_free_correct:
  assumes "heap_rep h T U s as fs"
  shows "case OSFreeToHeap (int h) p s of None \<Rightarrow> False
    | Some s' \<Rightarrow>
        if p - 32 \<in> set as
        then (\<exists>fs'. heap_rep h T U s' (remove1 (p - 32) as) fs' \<and>
            sorted_wrt (\<lambda>a b. a + cell_size (cell_at s' a) < b) fs') \<and>
          map (\<lambda>x. OSReferentSize (x + 32) s') (remove1 (p - 32) as) =
            map (\<lambda>x. OSReferentSize (x + 32) s) (remove1 (p - 32) as) \<and>
          agree U (cell_at s) (cell_at s')
        else s' = s"
proof (cases "p - 32 \<in> set as")
  case True
  then obtain s' fs' where F: "OSFreeToHeap (int h) p s = Some s'" "heap_rep h T U s' (remove1 (p - 32) as) fs'"
    "agree U (cell_at s) (cell_at s')" "\<forall>x\<in>set (remove1 (p - 32) as). cell_size (cell_at s' x) = cell_size (cell_at s x)"
    using free_run [OF assms, of p] by auto
  have "map (\<lambda>x. OSReferentSize (x + 32) s') (remove1 (p - 32) as) =
      map (\<lambda>x. OSReferentSize (x + 32) s) (remove1 (p - 32) as)"
    using referent_size [OF F(2)] referent_size [OF assms] F(4) set_remove1_subset [of "p - 32" as] by auto
  then show ?thesis
    using True F heap_repD(5) [OF F(2)] by (auto simp: no_touch_def)
qed (use free_run [OF assms, of p] in simp)

section \<open>The interface\<close>

definition live_blocks :: "os_heaps \<Rightarrow> int list \<Rightarrow> (int \<times> int) list" where
  "live_blocks s as = map (\<lambda>x. (x + 32, OSReferentSize (x + 32) s)) as"

interpretation heap: allocator
  "\<lambda>s bs. \<exists>as fs. heap_rep h T U s as fs \<and> bs = live_blocks s as" 2147483584
  "OSAllocFromHeap (int h)" "OSFreeToHeap (int h)" for h T U
proof
  fix s :: os_heaps and bs n p
  assume "\<exists>as fs. heap_rep h T U s as fs \<and> bs = live_blocks s as"
  then obtain as fs where H: "heap_rep h T U s as fs" and bs: "bs = live_blocks s as" by blast
  note R = heap_repD [OF H]
  note I = cells_invD [OF R(4)]
  show "disjoint_blocks bs"
  proof -
    have "map fst bs = map (\<lambda>x. x + 32) as" by (simp add: bs live_blocks_def)
    then have "distinct (map fst bs)" using I(7) by (simp add: distinct_map)
    moreover have "x + 32 + OSReferentSize (x + 32) s \<le> y + 32 \<or> y + 32 + OSReferentSize (y + 32) s \<le> x + 32"
      if "x \<in> set as" "y \<in> set as" "x \<noteq> y" for x y
      using tilesD(7) [OF cells_dataD(6) [OF I(1)], of x y] that referent_size [OF H] by auto
    ultimately show ?thesis by (auto simp: disjoint_blocks_def bs live_blocks_def)
  qed
  show "\<exists>p s'. OSAllocFromHeap (int h) n s = Some (p, s') \<and> (p = 0 \<and> s' = s \<or> p \<noteq> 0 \<and>
      (\<exists>m\<ge>n. \<exists>as fs. heap_rep h T U s' as fs \<and> (p, m) # bs = live_blocks s' as))"
    if n: "0 < n" "n \<le> 2147483584"
  proof -
    obtain p s' where e: "OSAllocFromHeap (int h) n s = Some (p, s')"
      using alloc_run [OF H n] by (auto split: option.splits)
    show ?thesis
    proof (cases "list_ex (\<lambda>x. block_request n \<le> cell_size (cell_at s x)) fs")
      case True
      then obtain fs' where A: "n \<le> OSReferentSize p s'" "heap_rep h T U s' ((p - 32) # as) fs'"
        "map (\<lambda>x. OSReferentSize (x + 32) s') as = map (\<lambda>x. OSReferentSize (x + 32) s) as"
        using alloc_block [OF H n] by (auto simp: e)
      have "(p, OSReferentSize p s') # bs = live_blocks s' ((p - 32) # as)"
        using A(3) by (auto simp: bs live_blocks_def)
      moreover have "p \<noteq> 0" using n(1) A(1) by (auto simp: OSReferentSize_def)
      ultimately show ?thesis using A(1,2) e by blast
    next
      case False
      then show ?thesis using alloc_run [OF H n] e by auto
    qed
  qed
  show "\<exists>s'. OSFreeToHeap (int h) p s = Some s' \<and>
      (\<exists>as fs. heap_rep h T U s' as fs \<and> filter (\<lambda>b. fst b \<noteq> p) bs = live_blocks s' as)"
  proof (cases "p - 32 \<in> set as")
    case True
    then obtain s' fs' where F: "OSFreeToHeap (int h) p s = Some s'" "heap_rep h T U s' (remove1 (p - 32) as) fs'"
      "\<forall>x\<in>set (remove1 (p - 32) as). cell_size (cell_at s' x) = cell_size (cell_at s x)"
      using free_run [OF H, of p] by auto
    have r: "remove1 (p - 32) as = filter (\<lambda>x. x \<noteq> p - 32) as" 
      using I(7) by (simp add: distinct_remove1_removeAll removeAll_filter_not_eq) (rule filter_cong, auto)
    have "filter (\<lambda>b. fst b \<noteq> p) bs = map (\<lambda>x. (x + 32, OSReferentSize (x + 32) s)) (filter (\<lambda>x. x \<noteq> p - 32) as)"
      by (auto simp: bs live_blocks_def filter_map comp_def intro!: arg_cong [of _ _ "map _"] filter_cong)
    also have "\<dots> = live_blocks s' (remove1 (p - 32) as)"
      using referent_size [OF F(2)] referent_size [OF H] F(3) unfolding r by (simp add: live_blocks_def)
    finally show ?thesis using F(1,2) by blast
  next
    case False
    then have "filter (\<lambda>b. fst b \<noteq> p) bs = bs" by (auto simp: bs live_blocks_def filter_id_conv)
    then show ?thesis using free_run [OF H, of p] False H bs by auto
  qed
qed

text \<open>C4: every sequence of allocations (of sizes the allocator supports) and frees (of any pointers
  whatever) on a well-formed heap runs to completion; at the end the live pointers are exactly those
  returned and not freed since, their blocks are pairwise disjoint, and the heap is well formed over
  the same bytes: no call corrupts it, leaks a byte or hands out overlapping memory.\<close>

theorem heap_calls_keep_blocks_disjoint:
  assumes "heap_rep h T U s as fs" "\<forall>c\<in>set cs. in_limit 2147483584 c"
  shows "case run_calls (OSAllocFromHeap (int h)) (OSFreeToHeap (int h)) cs s of None \<Rightarrow> False
    | Some (rs, s') \<Rightarrow> (\<exists>as' fs'. heap_rep h T U s' as' fs' \<and>
        map fst (live_blocks s' as') = live_after cs rs (map fst (live_blocks s as)) \<and>
        disjoint_blocks (live_blocks s' as'))"
proof -
  have "\<exists>as' fs'. heap_rep h T U s as' fs' \<and> live_blocks s as = live_blocks s as'" using assms(1) by blast
  from heap.calls_complete [OF this assms(2)] show ?thesis by fastforce
qed

section \<open>Creating a heap\<close>

lemma find_first: "List.find P [0..<n] = Some h \<Longrightarrow> h < n \<and> P h"
  by (metis find_Some_iff add_0 length_upt minus_nat.diff_0 nth_upt)

lemma create_run:
  assumes "sHeapArray s = Some ds" "List.find (\<lambda>h. \<not> 0 \<le> desc_size (ds ! h)) [0..<length ds] = Some h"
    and "validateBlockRange (roundUp32 start) (roundDown32 stop) s" "0 < sArenaStart s"
    and "sArenaEnd s < 18446744073709551616" "roundDown32 stop - roundUp32 start < 2147483648"
  shows "case OSCreateHeap start stop s of (r, s') \<Rightarrow> r = int h \<and>
    heap_rep h (roundDown32 stop - roundUp32 start) {roundUp32 start..<roundDown32 stop} s' [] [roundUp32 start] \<and>
    agree {roundUp32 start..<roundDown32 stop} (cell_at s) (cell_at s')"
proof -
  let ?a = "roundUp32 start" and ?b = "roundDown32 stop"
  note V = assms(3) [unfolded validateBlockRange_def kMinObjectSize_def]
  have al: "?a mod 32 = 0" "(?b - ?a) mod 32 = 0"
    by (simp_all add: roundUp32_def roundDown32_def kAlignment_def mod_diff_eq [symmetric, of _ 32])
  have sz: "s32 (?b - ?a) = ?b - ?a" using V assms(6) by (intro s32_id) simp_all
  let ?c = "\<lparr>cell_prev = 0, cell_next = 0, cell_size = ?b - ?a, cell_owner = None\<rparr>"
  let ?d = "\<lparr>desc_size = ?b - ?a, freeList = ?a, allocated = 0\<rparr>"
  let ?s' = "put_heap h ?d (s\<lparr>cell_at := (cell_at s)(?a := ?c)\<rparr>)"
  have e: "OSCreateHeap start stop s = (int h, ?s')"
    using assms(1-3) by (simp add: OSCreateHeap_def sz Let_def)
  have h: "h < length ds" using find_first [OF assms(2)] by simp
  have "tiles (sArenaStart s) (sArenaEnd s) (?b - ?a) {?a..<?b} (\<lambda>x. ?b - ?a) {?a}"
    using V al by (simp add: tiles_def)
  then have "tiles (sArenaStart s) (sArenaEnd s) (?b - ?a) {?a..<?b} (sz_of ((cell_at s)(?a := ?c))) {?a}"
    by (subst tiles_cong [where f = "\<lambda>x. ?b - ?a"]) simp_all
  then have "cells_inv (sArenaStart s) (sArenaEnd s) h (?b - ?a) {?a..<?b} ((cell_at s)(?a := ?c)) [] [] [?a]"
    using assms(4-6) by (simp add: cells_inv_def cells_data_def)
  then have "heap_rep h (?b - ?a) {?a..<?b} ?s' [] [?a]"
    using assms(1,4) h V by (auto simp: heap_rep_def put_heap_def heap_at_def no_touch_def)
  moreover have "agree {?a..<?b} (cell_at s) (cell_at ?s')" using V by (auto simp: agree_def)
  ultimately show ?thesis by (simp add: e)
qed

text \<open>C36: creating a heap over a range the allocator accepts claims the first unused descriptor and
  makes it a well-formed heap with one free cell covering exactly the range rounded inwards to the
  alignment, and nothing outside the range is written.\<close>

theorem os_create_heap_correct:
  assumes "sHeapArray s = Some ds" "List.find (\<lambda>h. \<not> 0 \<le> desc_size (ds ! h)) [0..<length ds] = Some h"
    and "validateBlockRange (roundUp32 start) (roundDown32 stop) s" "0 < sArenaStart s"
    and "sArenaEnd s < 18446744073709551616" "roundDown32 stop - roundUp32 start < 2147483648"
  shows "case OSCreateHeap start stop s of (r, s') \<Rightarrow> r = int h \<and>
    heap_rep h (roundDown32 stop - roundUp32 start) {roundUp32 start..<roundDown32 stop} s' [] [roundUp32 start] \<and>
    agree {roundUp32 start..<roundDown32 stop} (cell_at s) (cell_at s')"
  using assms by (rule create_run)

section \<open>The consistency check\<close>

lemma cell_passes:
  assumes H: "heap_rep h T U s as fs" and l: "links_of (cell_at s) q (x # xs) 0"
    and x: "x \<in> set (as @ fs)" "0 \<notin> set xs" and own: "cell_owner (cell_at s x) = ow"
  shows "\<not> bad_cell s ow x"
proof -
  have "cell_prev (cell_at s (cell_next (cell_at s x))) = x" if "cell_next (cell_at s x) \<noteq> 0"
    using l that by (cases xs) auto
  then show ?thesis
    using heap_cell [OF H x(1)] own by (auto simp: bad_cell_def Let_def kAlignment_def kMinObjectSize_def)
qed

lemma sizes_nonneg:
  assumes H: "heap_rep h T U s as fs" and "set xs \<subseteq> set (as @ fs)"
  shows "0 \<le> sum_list (map (sz_of (cell_at s)) xs)"
proof (rule sum_list_nonneg)
  fix v assume "v \<in> set (map (sz_of (cell_at s)) xs)"
  then obtain y where y: "y \<in> set xs" "v = sz_of (cell_at s) y" by auto
  then have "y \<in> set (as @ fs)" using assms(2) by auto
  then show "0 \<le> v" using heap_cell(2) [OF H, of y] y(2) by simp
qed

lemma check_allocated_list:
  assumes H: "heap_rep h T U s as fs"
    and "links_of (cell_at s) q xs 0" "set xs \<subseteq> set as" "0 \<le> t" "t + sum_list (map (sz_of (cell_at s)) xs) \<le> T"
  shows "check_allocated s h (head_or 0 xs) t = Some (Inr (t + sum_list (map (sz_of (cell_at s)) xs)))"
  using assms(2-)
proof (induction xs arbitrary: q t)
  case Nil
  show ?case by (subst check_allocated.simps) simp
next
  case (Cons x xs)
  note R = heap_repD [OF H]
  note I = cells_invD [OF R(4)]
  have x: "x \<in> set (as @ fs)" "0 \<notin> set xs" "x \<noteq> 0" "x \<in> set as" using Cons.prems(2) I(4) by auto
  have own: "cell_owner (cell_at s x) = Some h" using cells_dataD(7) [OF I(1) x(4)] .
  note sz = heap_cell(2) [OF H x(1)]
  have nn: "0 \<le> sum_list (map (sz_of (cell_at s)) xs)" by (rule sizes_nonneg [OF H]) (use Cons.prems(2) in auto)
  let ?t = "t + sz_of (cell_at s) x"
  have t: "s32 ?t = ?t" "0 < ?t" "?t \<le> T"
    using Cons.prems(3,4) sz nn R(9) by (auto intro!: s32_id)
  have "cell_next (cell_at s x) = head_or 0 xs" "links_of (cell_at s) x xs 0" using Cons.prems(1) by simp_all
  with Cons.IH [of x ?t] Cons.prems t show ?case
    using cell_passes [OF H Cons.prems(1) x(1,2) own] x(3) R(1)
    by (subst check_allocated.simps) (simp add: Let_def add.assoc)
qed

lemma check_free_list:
  assumes H: "heap_rep h T U s as fs"
    and "links_of (cell_at s) q xs 0" "set xs \<subseteq> set fs" "sorted_wrt (\<lambda>a b. a + sz_of (cell_at s) a < b) xs"
    and "0 \<le> t" "t + sum_list (map (sz_of (cell_at s)) xs) \<le> T" "0 \<le> f" "f \<le> t"
  shows "check_free s h (head_or 0 xs) t f = Some (Inr (t + sum_list (map (sz_of (cell_at s)) xs),
    f + sum_list (map (\<lambda>x. sz_of (cell_at s) x - 32) xs)))"
  using assms(2-)
proof (induction xs arbitrary: q t f)
  case Nil
  show ?case by (subst check_free.simps) simp
next
  case (Cons x xs)
  note R = heap_repD [OF H]
  note I = cells_invD [OF R(4)]
  have x: "x \<in> set (as @ fs)" "0 \<notin> set xs" "x \<noteq> 0" "x \<in> set fs" using Cons.prems(2) I(5) by auto
  have own: "cell_owner (cell_at s x) = None" using cells_dataD(8) [OF I(1) x(4)] .
  note sz = heap_cell [OF H x(1)]
  have nn: "0 \<le> sum_list (map (sz_of (cell_at s)) xs)" by (rule sizes_nonneg [OF H]) (use Cons.prems(2) in auto)
  let ?t = "t + sz_of (cell_at s) x" and ?f = "f + (sz_of (cell_at s) x - 32)"
  have t: "s32 ?t = ?t" "0 < ?t" "?t \<le> T" "s32 (sz_of (cell_at s) x - 32) = sz_of (cell_at s) x - 32" "s32 ?f = ?f"
    using Cons.prems(4-7) sz(2,6) nn R(9) by (auto intro!: s32_id)
  then have tt: "(?t \<le> 0 \<or> T < ?t) = False" by auto
  have nx: "cell_next (cell_at s x) = head_or 0 xs" "links_of (cell_at s) x xs 0" using Cons.prems(1) by simp_all
  have "uptr (x + sz_of (cell_at s) x) = x + sz_of (cell_at s) x"
    using sz(2,4,5) R(6) cells_dataD(2) [OF I(1)] by (simp add: uptr_def)
  then have ov: "\<not> (cell_next (cell_at s x) \<noteq> 0 \<and> uptr (x + sz_of (cell_at s) x) > cell_next (cell_at s x))"
    using Cons.prems(3) nx(1) by (cases xs) auto
  have ih: "check_free s h (head_or 0 xs) ?t ?f = Some (Inr (?t + sum_list (map (sz_of (cell_at s)) xs),
      ?f + sum_list (map (\<lambda>x. sz_of (cell_at s) x - 32) xs)))"
    by (rule Cons.IH [OF nx(2)]) (use Cons.prems t sz(2) in auto)
  have "check_free s h x t f = check_free s h (head_or 0 xs) ?t ?f"
    using cell_passes [OF H Cons.prems(1) x(1,2) own] x(3) R(1) ov t
    by (subst check_free.simps) (simp only: if_False nx(1) Let_def kHeaderSize_def simp_thms tt)
  with ih show ?case by (simp add: add.assoc)
qed

text \<open>On a well-formed heap the consistency check passes and returns the bytes available to
  clients: the sizes of the free cells less their headers.\<close>

theorem os_check_heap_correct:
  assumes "heap_rep h T U s as fs"
  shows "OSCheckHeap (int h) s = Some (sum_list (map (\<lambda>x. cell_size (cell_at s x) - 32) fs))"
proof -
  note R = heap_repD [OF assms]
  note I = cells_invD [OF R(4)]
  note D = cells_dataD [OF I(1)]
  let ?sa = "sum_list (map (sz_of (cell_at s)) as)" and ?sf = "sum_list (map (sz_of (cell_at s)) fs)"
  have T: "?sa + ?sf = T"
    using sum_list_distinct_conv_sum_set [OF D(4), of "sz_of (cell_at s)"] tilesD(8) [OF D(6)] by simp
  have nn: "0 \<le> ?sa" "0 \<le> ?sf" using sizes_nonneg [OF assms] by simp_all
  have ca: "check_allocated s h (allocated (heap_at s h)) 0 = Some (Inr ?sa)"
    using check_allocated_list [OF assms I(2), of 0] R(2) T nn by simp
  have cf: "check_free s h (freeList (heap_at s h)) ?sa 0 =
      Some (Inr (T, sum_list (map (\<lambda>x. cell_size (cell_at s x) - 32) fs)))"
    using check_free_list [OF assms I(3) _ _ nn(1), of 0] R(3,5) T nn by (simp add: no_touch_def)
  have "cell_prev (cell_at s (head_or 0 xs)) = 0" if "links_of (cell_at s) 0 xs 0" "xs \<noteq> []" for xs
    using that by (cases xs) auto
  then have "\<not> (allocated (heap_at s h) \<noteq> 0 \<and> cell_prev (cell_at s (allocated (heap_at s h))) \<noteq> 0)"
    "\<not> (freeList (heap_at s h) \<noteq> 0 \<and> cell_prev (cell_at s (freeList (heap_at s h))) \<noteq> 0)"
    using I(2-5) R(2,3) by (metis head_or_eq_0)+
  then show ?thesis using R(1,8) by (auto simp: OSCheckHeap_def Let_def ca cf)
qed

section \<open>A concrete arena\<close>

text \<open>An arena of 64 KiB with one heap of 4 KiB.\<close>

definition raw_heaps :: os_heaps where
  "raw_heaps = \<lparr>cell_at = (\<lambda>_. \<lparr>cell_prev = 0, cell_next = 0, cell_size = 0, cell_owner = None\<rparr>),
     sHeapArray = None, sArenaStart = 0, sArenaEnd = 0, currHeap = -1\<rparr>"

definition demo_arena :: os_heaps where
  "demo_arena = snd (OSInitAlloc 0x10000 0x20000 2 raw_heaps)"

definition demo_heap :: os_heaps where
  "demo_heap = snd (OSCreateHeap 0x11008 0x12010 demo_arena)"

lemma demo_arena_eq: "demo_arena = raw_heaps\<lparr>sHeapArray := Some [\<lparr>desc_size = -1, freeList = 0, allocated = 0\<rparr>,
    \<lparr>desc_size = -1, freeList = 0, allocated = 0\<rparr>], sArenaStart := 0x10040, sArenaEnd := 0x20000\<rparr>"
  by (simp add: demo_arena_def OSInitAlloc_def raw_heaps_def kHeapDescBytes_def kMinObjectSize_def Let_def
      roundUp32_def roundDown32_def kAlignment_def uptr_def numeral_2_eq_2)

lemma demo_create:
  "sHeapArray demo_arena = Some (replicate 2 \<lparr>desc_size = -1, freeList = 0, allocated = 0\<rparr>)"
  "List.find (\<lambda>h. \<not> 0 \<le> desc_size (replicate 2 \<lparr>desc_size = -1, freeList = 0, allocated = 0\<rparr> ! h))
     [0..<length (replicate 2 \<lparr>desc_size = -1, freeList = 0, allocated = 0\<rparr>)] = Some 0"
  "roundUp32 0x11008 = 0x11020" "roundDown32 0x12010 = 0x12000"
  "validateBlockRange 0x11020 0x12000 demo_arena" "sArenaStart demo_arena = 0x10040" "sArenaEnd demo_arena = 0x20000"
proof -
  show "List.find (\<lambda>h. \<not> 0 \<le> desc_size (replicate 2 \<lparr>desc_size = -1, freeList = 0, allocated = 0\<rparr> ! h))
     [0..<length (replicate 2 \<lparr>desc_size = -1, freeList = 0, allocated = 0\<rparr>)] = Some 0"
    by (simp add: upt_rec numeral_2_eq_2)
qed (simp_all add: demo_arena_eq numeral_2_eq_2 roundUp32_def roundDown32_def kAlignment_def uptr_def
      validateBlockRange_def kMinObjectSize_def)

lemma demo_heap_rep: "heap_rep 0 0xFE0 {0x11020..<0x12000} demo_heap [] [0x11020]"
  using create_run [of demo_arena _ 0 "0x11008" "0x12010", OF demo_create(1,2)] demo_create
  by (simp add: demo_heap_def split: prod.splits)

lemma os_create_heap_correct_witness:
  "fst (OSCreateHeap 0x11008 0x12010 demo_arena) = 0 \<and>
   heap_rep 0 0xFE0 {0x11020..<0x12000} (snd (OSCreateHeap 0x11008 0x12010 demo_arena)) [] [0x11020]"
  using os_create_heap_correct [of demo_arena _ 0 "0x11008" "0x12010", OF demo_create(1,2)] demo_create
  by (simp split: prod.splits)

lemma demo_size: "cell_size (cell_at demo_heap 0x11020) = 0xFE0"
proof -
  have "tiles (sArenaStart demo_heap) (sArenaEnd demo_heap) 0xFE0 {0x11020..<0x12000} (sz_of (cell_at demo_heap)) {0x11020}"
    using cells_dataD(6) [OF cells_invD(1) [OF heap_repD(4) [OF demo_heap_rep]]] by simp
  from tilesD(8) [OF this] show ?thesis by simp
qed

lemma os_alloc_correct_witness:
  "case OSAllocFromHeap 0 100 demo_heap of None \<Rightarrow> False
   | Some (p, s') \<Rightarrow> p = 0x11040 \<and> 100 \<le> OSReferentSize p s' \<and>
       (\<exists>fs'. heap_rep 0 0xFE0 {0x11020..<0x12000} s' [0x11020] fs')"
  using os_alloc_correct [OF demo_heap_rep, of 100] demo_size
  by (auto simp: block_request_def split: option.splits prod.splits)

text \<open>The same heap after one allocation of 100 bytes.\<close>

definition demo_used :: os_heaps where
  "demo_used = snd (the (OSAllocFromHeap 0 100 demo_heap))"

lemma demo_used_rep: "\<exists>fs. heap_rep 0 0xFE0 {0x11020..<0x12000} demo_used [0x11020] fs"
  using alloc_block [OF demo_heap_rep, of 100] demo_size
  by (auto simp: demo_used_def block_request_def split: option.splits prod.splits)

lemma os_free_correct_witness:
  "case OSFreeToHeap 0 0x11040 demo_used of None \<Rightarrow> False
   | Some s' \<Rightarrow> \<exists>fs'. heap_rep 0 0xFE0 {0x11020..<0x12000} s' [] fs'"
proof -
  obtain fs where "heap_rep 0 0xFE0 {0x11020..<0x12000} demo_used [0x11020] fs" using demo_used_rep by blast
  from os_free_correct [OF this, of "0x11040"] show ?thesis by (auto split: option.splits)
qed

lemma heap_calls_keep_blocks_disjoint_witness:
  "case run_calls (OSAllocFromHeap 0) (OSFreeToHeap 0) [Alloc 100, Alloc 5000, Free 0x11040, Free 0x11040, Alloc 64] demo_heap of
     None \<Rightarrow> False
   | Some (rs, s') \<Rightarrow> \<exists>as' fs'. heap_rep 0 0xFE0 {0x11020..<0x12000} s' as' fs' \<and> disjoint_blocks (live_blocks s' as')"
  using heap_calls_keep_blocks_disjoint [OF demo_heap_rep, of "[Alloc 100, Alloc 5000, Free 0x11040, Free 0x11040, Alloc 64]"]
  by (simp del: run_calls.simps split: option.splits) blast

lemma os_check_heap_correct_witness: "OSCheckHeap 0 demo_heap = Some 0xFC0"
  using os_check_heap_correct [OF demo_heap_rep] by (simp add: demo_size)

section \<open>Where the allocator goes wrong\<close>

lemmas heap_eval = validHeapHandle_def validateBlockRange_def roundUp32_def roundDown32_def uptr_def
  insertAndCoalesce_def insert_walk.simps link_between_def coalesce_right_def coalesce_left_def absorb_def
  set_prev_def set_next_def set_size_def set_owner_def s32_def put_heap_def heap_at_def bad_cell_def inArena_def
  Let_def kAlignment_def kHeaderSize_def kMinObjectSize_def first_fit.simps take_cell_def extract_cell_def addFront_def

lemma demo_heap_eq: "demo_heap = raw_heaps\<lparr>sHeapArray := Some [\<lparr>desc_size = 0xFE0, freeList = 0x11020, allocated = 0\<rparr>,
      \<lparr>desc_size = -1, freeList = 0, allocated = 0\<rparr>], sArenaStart := 0x10040, sArenaEnd := 0x20000,
      cell_at := (cell_at raw_heaps)(0x11020 := \<lparr>cell_prev = 0, cell_next = 0, cell_size = 0xFE0, cell_owner = None\<rparr>)\<rparr>"
  using demo_create by (simp add: demo_heap_def OSCreateHeap_def s32_def put_heap_def numeral_2_eq_2 demo_arena_eq)

text \<open>Adding a region that touches a free cell on its right counts that cell twice: the sizes
  are merged into the new cell before its size is added to the heap's, so the heap's recorded size
  no longer matches its cells and the consistency check fails from then on.\<close>

theorem add_to_heap_overcounts:
  "case OSAddToHeap 0 0x10800 0x11020 demo_heap of None \<Rightarrow> False
   | Some s' \<Rightarrow> desc_size (heap_at s' 0) = 0xFE0 + 0x820 + 0xFE0 \<and> OSCheckHeap 0 s' = Some (-1)"
  by (simp add: demo_heap_eq OSAddToHeap_def heap_eval raw_heaps_def OSCheckHeap_def check_allocated.simps check_free.simps)


text \<open>A request whose rounded size leaves the 32-bit range is truncated: asking for
  \<open>2 ^ 32 - 1\<close> bytes returns a pointer, to a block of no bytes at all.\<close>

theorem oversized_request_returns_empty_block:
  "case OSAllocFromHeap 0 0xFFFFFFFF demo_heap of None \<Rightarrow> False
   | Some (p, s') \<Rightarrow> p = 0x11040 \<and> OSReferentSize p s' = 0"
  by (simp add: demo_heap_eq OSAllocFromHeap_def heap_eval raw_heaps_def replace_cell_def OSReferentSize_def)

end
