(* ===== verification/CardBat.thy ===== *)
theory CardBat
  imports Prelude
begin

text \<open>
  The block allocation table of a memory card image (\<open>aurora-main/lib/card/BlockAllocationTable.cpp\<close>)
  and the checksum it shares with the directory and the header (\<open>Util.cpp\<close>).

  16-bit fields are naturals below 65536, with every wrap written out.  \<open>bat_map b i\<close> is
  \<open>m_map[i]\<close>; the index is an integer because the code computes it as \<open>block - 5\<close> from block
  numbers it has not checked.
\<close>

section \<open>Checksum\<close>

definition bswap16 :: "nat \<Rightarrow> nat" where
  "bswap16 x = x mod 256 * 256 + x div 256 mod 256"

definition xor16 :: "nat \<Rightarrow> nat" where
  "xor16 x = 65535 - x"

text \<open>The loop of \<open>calculateChecksumBE\<close>: the data are half-words as loaded from memory.\<close>

fun checksum_loop :: "nat list \<Rightarrow> nat \<Rightarrow> nat \<Rightarrow> nat \<times> nat" where
  "checksum_loop [] ck ckInv = (ck, ckInv)"
| "checksum_loop (d # ds) ck ckInv =
     checksum_loop ds ((ck + bswap16 d) mod 65536) ((ckInv + bswap16 (xor16 d)) mod 65536)"

definition calculateChecksumBE :: "nat list \<Rightarrow> nat \<times> nat" where
  "calculateChecksumBE ds =
    (let (ck, ckInv) = checksum_loop ds 0 0;
         ck = bswap16 ck; ckInv = bswap16 ckInv
     in (if ck = 65535 then 0 else ck, if ckInv = 65535 then 0 else ckInv))"

section \<open>The table\<close>

definition FSTBlocks :: nat where "FSTBlocks = 5"
definition BATSize :: nat where "BATSize = 0xFFB"
definition BlockSize :: nat where "BlockSize = 0x2000"
definition MbitToBlocks :: nat where "MbitToBlocks = 0x10"

record bat =
  bat_checksum :: nat
  bat_checksumInv :: nat
  bat_updateCounter :: nat
  bat_freeBlocks :: nat
  bat_lastAllocated :: nat
  bat_map :: "int \<Rightarrow> nat"

definition at_block :: "bat \<Rightarrow> nat \<Rightarrow> nat" where
  "at_block b k = bat_map b (int k - int FSTBlocks)"

definition set_block :: "nat \<Rightarrow> nat \<Rightarrow> bat \<Rightarrow> bat" where
  "set_block k v b = b\<lparr>bat_map := (bat_map b)(int k - int FSTBlocks := v)\<rparr>"

text \<open>The half-words the checksum covers, from the update counter to the end of the block.\<close>

definition bat_words :: "bat \<Rightarrow> nat list" where
  "bat_words b = [bat_updateCounter b, bat_freeBlocks b, bat_lastAllocated b] @ map (\<lambda>i. bat_map b (int i)) [0..<BATSize]"

definition bat_updateChecksum :: "bat \<Rightarrow> bat" where
  "bat_updateChecksum b =
    (let (ck, ckInv) = calculateChecksumBE (map bswap16 (bat_words b))
     in b\<lparr>bat_checksum := bswap16 ck, bat_checksumInv := bswap16 ckInv\<rparr>)"

definition bat_valid :: "bat \<Rightarrow> bool" where
  "bat_valid b \<longleftrightarrow> calculateChecksumBE (map bswap16 (bat_words b)) = (bswap16 (bat_checksum b), bswap16 (bat_checksumInv b))"

definition BlockAllocationTable :: "nat \<Rightarrow> bat" where
  "BlockAllocationTable blockCount =
    bat_updateChecksum \<lparr>bat_checksum = 0, bat_checksumInv = 0, bat_updateCounter = 0,
      bat_freeBlocks = nat ((int blockCount - int FSTBlocks) mod 65536), bat_lastAllocated = 4, bat_map = (\<lambda>_. 0)\<rparr>"

definition getNextBlock :: "bat \<Rightarrow> nat \<Rightarrow> nat" where
  "getNextBlock b block = (if block < FSTBlocks \<or> block > BATSize - FSTBlocks then 0xFFFF else at_block b block)"

definition nextFreeBlock :: "bat \<Rightarrow> nat \<Rightarrow> nat \<Rightarrow> nat" where
  "nextFreeBlock b maxBlock startingBlock =
    (if bat_freeBlocks b > 0 then
       (let maxBlock = min maxBlock BATSize in
        case List.find (\<lambda>i. at_block b i = 0) [startingBlock..<maxBlock] of Some i \<Rightarrow> i
        | None \<Rightarrow> (case List.find (\<lambda>i. at_block b i = 0) [FSTBlocks..<startingBlock] of Some i \<Rightarrow> i | None \<Rightarrow> 0xFFFF))
     else 0xFFFF)"

text \<open>The walk of \<open>clear\<close>: the blocks visited and the value that ended it.\<close>

partial_function (option) clear_walk :: "bat \<Rightarrow> nat \<Rightarrow> (nat list \<times> nat) option" where
  "clear_walk b first =
    (if first \<noteq> 0xFFFF \<and> first \<noteq> 0
     then Option.bind (clear_walk b (getNextBlock b first)) (\<lambda>(blocks, fin). Some (first # blocks, fin))
     else Some ([], first))"

definition bat_clear :: "bat \<Rightarrow> nat \<Rightarrow> nat \<Rightarrow> (bool \<times> bat) option" where
  "bat_clear b first count =
    (case clear_walk b first of None \<Rightarrow> None
     | Some (blocks, fin) \<Rightarrow>
         Some (if fin > 0 then
                 if length blocks \<noteq> count then (False, b)
                 else (True, (fold (\<lambda>k. set_block k 0) blocks b)\<lparr>bat_freeBlocks := (bat_freeBlocks b + count) mod 65536\<rparr>)
               else (False, b)))"

definition u16_minus :: "nat \<Rightarrow> nat \<Rightarrow> nat" where
  "u16_minus a c = nat ((int a - int c) mod 65536)"

fun alloc_loop :: "nat \<Rightarrow> nat \<Rightarrow> bat \<Rightarrow> nat \<Rightarrow> bat \<times> nat" where
  "alloc_loop maxBlocks 0 b freeBlock = (b, freeBlock)"
| "alloc_loop maxBlocks (Suc count) b freeBlock =
    (if freeBlock = 0xFFFF then (b, freeBlock)
     else let b = set_block freeBlock 0xFFFF b
          in if count \<noteq> 0 then
               let nxt = nextFreeBlock b (u16_minus maxBlocks FSTBlocks) ((freeBlock + 1) mod 65536);
                   b = set_block freeBlock nxt b
               in alloc_loop maxBlocks count b nxt
             else alloc_loop maxBlocks count b freeBlock)"

definition allocateBlocks :: "nat \<Rightarrow> nat \<Rightarrow> bat \<Rightarrow> nat \<times> bat" where
  "allocateBlocks count maxBlocks b =
    (let firstBlock = nextFreeBlock b (u16_minus maxBlocks FSTBlocks) ((bat_lastAllocated b + 1) mod 65536)
     in if firstBlock \<noteq> 0xFFFF then
          let (b, freeBlock) = alloc_loop maxBlocks count b firstBlock
          in if freeBlock = 0xFFFF then (0xFFFF, b)
             else (firstBlock, b\<lparr>bat_lastAllocated := freeBlock, bat_freeBlocks := u16_minus (bat_freeBlocks b) count\<rparr>)
        else (firstBlock, b))"

section \<open>Checksum facts\<close>

lemma bswap16_less: "bswap16 x < 65536"
proof -
  have "x mod 256 < 256" "x div 256 mod 256 < 256" by simp_all
  then show ?thesis unfolding bswap16_def by linarith
qed

lemma bswap16_swap: "x < 65536 \<Longrightarrow> bswap16 (bswap16 x) = x"
  by (simp add: bswap16_def)

lemma bswap16_pair: "l < 256 \<Longrightarrow> h < 256 \<Longrightarrow> bswap16 (l * 256 + h) = h * 256 + l"
  by (simp add: bswap16_def)

lemma bswap16_xor: "x < 65536 \<Longrightarrow> bswap16 (xor16 (bswap16 x)) = 65535 - x"
proof -
  assume x: "x < 65536"
  define h where "h = x div 256"
  define l where "l = x mod 256"
  have hl: "x = h * 256 + l" "l < 256" "h < 256" using x by (simp_all add: h_def l_def)
  have "xor16 (bswap16 x) = (255 - l) * 256 + (255 - h)"
    unfolding hl(1) bswap16_pair [OF hl(3,2)] using hl(2,3) by (simp add: xor16_def)
  then have "bswap16 (xor16 (bswap16 x)) = (255 - h) * 256 + (255 - l)" by (simp only: bswap16_pair)
  then show ?thesis using hl by simp
qed

lemma bswap16_top: "x < 65536 \<Longrightarrow> (bswap16 x = 65535) = (x = 65535)"
proof -
  assume x: "x < 65536"
  have t: "bswap16 65535 = 65535" by (simp add: bswap16_def)
  show ?thesis using bswap16_swap [OF x] t by metis
qed

definition norm16 :: "nat \<Rightarrow> nat" where
  "norm16 x = (if x mod 65536 = 65535 then 0 else x mod 65536)"

lemma checksum_loop_sums:
  assumes "\<forall>d\<in>set ds. d < 65536" "ck < 65536" "ckInv < 65536"
  shows "checksum_loop (map bswap16 ds) ck ckInv =
    ((ck + sum_list ds) mod 65536, (ckInv + sum_list (map (\<lambda>d. 65535 - d) ds)) mod 65536)"
  using assms
proof (induction ds arbitrary: ck ckInv)
  case (Cons d ds)
  then show ?case by (simp add: bswap16_swap bswap16_xor mod_add_left_eq add.assoc)
qed simp

lemma checksum_be:
  assumes "\<forall>d\<in>set ds. d < 65536"
  shows "calculateChecksumBE (map bswap16 ds) =
    (bswap16 (norm16 (sum_list ds)), bswap16 (norm16 (sum_list (map (\<lambda>d. 65535 - d) ds))))"
  using checksum_loop_sums [OF assms, of 0 0]
  by (simp add: calculateChecksumBE_def norm16_def bswap16_top Let_def) (simp add: bswap16_def)

definition bat_ok :: "bat \<Rightarrow> bool" where
  "bat_ok b \<longleftrightarrow> bat_updateCounter b < 65536 \<and> bat_freeBlocks b < 65536 \<and> bat_lastAllocated b < 65536 \<and>
     (\<forall>i. bat_map b i < 65536)"

lemma bat_words_less: "bat_ok b \<Longrightarrow> \<forall>d\<in>set (bat_words b). d < 65536"
  by (auto simp: bat_words_def bat_ok_def)

lemma bat_words_set_block:
  assumes "FSTBlocks \<le> k" "k < BATSize + FSTBlocks"
  shows "bat_words (set_block k v b) = (bat_words b)[k - FSTBlocks + 3 := v]"
    "bat_words b ! (k - FSTBlocks + 3) = at_block b k" "k - FSTBlocks + 3 < length (bat_words b)"
proof -
  have j: "int k - int FSTBlocks = int (k - FSTBlocks)" "k - FSTBlocks < BATSize" using assms by simp_all
  have "(map (\<lambda>i. bat_map b (int i)) [0..<BATSize])[k - FSTBlocks := v] =
      map (\<lambda>i. bat_map (set_block k v b) (int i)) [0..<BATSize]"
    using j(2) by (intro nth_equalityI) (auto simp: nth_list_update set_block_def j(1))
  then show "bat_words (set_block k v b) = (bat_words b)[k - FSTBlocks + 3 := v]"
    by (simp add: bat_words_def set_block_def numeral_3_eq_3)
  have "bat_words b ! (i + 3) = bat_map b (int i)" if "i < BATSize" for i
    using that by (simp add: bat_words_def nth_append)
  from this [OF j(2)] show "bat_words b ! (k - FSTBlocks + 3) = at_block b k"
    by (simp only: at_block_def j(1))
  show "k - FSTBlocks + 3 < length (bat_words b)" using j(2) by (simp add: bat_words_def)
qed

lemma complement_sum:
  "\<forall>d\<in>set ds. d < 65536 \<Longrightarrow> sum_list ds + sum_list (map (\<lambda>d. 65535 - d) ds) = length ds * (65535 :: nat)"
proof (induction ds)
  case (Cons d ds)
  then have ih: "sum_list ds + sum_list (map (\<lambda>d. 65535 - d) ds) = length ds * 65535" and "d < 65536" by simp_all
  let ?i = "sum_list (map (\<lambda>d. 65535 - d) ds)"
  have "sum_list (d # ds) + sum_list (map (\<lambda>d. 65535 - d) (d # ds)) = (d + (65535 - d)) + (sum_list ds + ?i)"
    by (simp only: list.map sum_list.Cons ac_simps)
  also have "d + (65535 - d) = 65535" using \<open>d < 65536\<close> by linarith
  finally show ?case using ih by simp
qed simp

lemma norm16_collision: "norm16 x = norm16 y \<Longrightarrow> x mod 65536 \<noteq> y mod 65536 \<Longrightarrow> x mod 65536 \<in> {0, 65535}"
  by (auto simp: norm16_def split: if_splits)

lemma mod_add_rcancel: "(a + c) mod m = (b + c) mod m \<Longrightarrow> a mod m = b mod (m :: nat)"
  by (simp add: nat_mod_eq_iff)

text \<open>Changing one half-word changes the sum or the complement sum after normalisation.\<close>

lemma checksum_changes:
  assumes "s + i = 4094 * (65535 :: nat)" "s' + i' = 4094 * 65535" "s mod 65536 \<noteq> s' mod 65536"
  shows "\<not> (norm16 s = norm16 s' \<and> norm16 i = norm16 i')"
proof
  assume n: "norm16 s = norm16 s' \<and> norm16 i = norm16 i'"
  have e: "(s mod 65536 + i mod 65536) mod 65536 = 61442" "(s' mod 65536 + i' mod 65536) mod 65536 = 61442"
    using assms(1,2) by (simp_all add: mod_add_eq)
  have s: "s mod 65536 \<in> {0, 65535}" using norm16_collision [of s s'] n assms(3) by blast
  have "i mod 65536 \<noteq> i' mod 65536"
  proof
    assume i: "i mod 65536 = i' mod 65536"
    have "s mod 65536 mod 65536 = s' mod 65536 mod 65536"
      by (rule mod_add_rcancel [of _ "i' mod 65536"]) (use e i in simp)
    with assms(3) show False by simp
  qed
  then have "i mod 65536 \<in> {0, 65535}" using norm16_collision [of i i'] n by blast
  with s e(1) show False by auto
qed

text \<open>The checksum written by an update is accepted, and any change of a single table entry
  afterwards is detected: the plain and the complemented sum cannot both survive it, even though
  each treats 0xFFFF and 0 alike.\<close>

theorem bat_checksum_detects_change:
  assumes "bat_ok b" "FSTBlocks \<le> k" "k < BATSize + FSTBlocks" "v < 65536" "v \<noteq> at_block b k"
  shows "bat_valid (bat_updateChecksum b) \<and> \<not> bat_valid (set_block k v (bat_updateChecksum b))"
proof -
  let ?w = "bat_words b" and ?j = "k - FSTBlocks + 3" and ?c = "map (\<lambda>d. 65535 - d)"
  have w: "\<forall>d\<in>set ?w. d < 65536" by (rule bat_words_less [OF assms(1)])
  note J = bat_words_set_block [OF assms(2,3)]
  have w': "\<forall>d\<in>set (?w[?j := v]). d < 65536" using w assms(4) set_update_subset_insert [of ?w ?j v] by blast
  have same: "bat_words (bat_updateChecksum b) = ?w"
    by (simp add: bat_updateChecksum_def bat_words_def split: prod.splits)
  have wu: "bat_words (bat_updateChecksum b) = ?w" "bat_words (set_block k v (bat_updateChecksum b)) = ?w[?j := v]"
    using J(1) [of v "bat_updateChecksum b"] by (simp_all only: same)
  have len: "length ?w = 4094" "length (?w[?j := v]) = 4094"
    unfolding length_list_update by (simp_all add: bat_words_def BATSize_def)
  have n: "norm16 x < 65536" for x by (simp add: norm16_def)
  have ck: "bat_checksum (bat_updateChecksum b) = norm16 (sum_list ?w)"
    "bat_checksumInv (bat_updateChecksum b) = norm16 (sum_list (?c ?w))"
    by (simp_all add: bat_updateChecksum_def checksum_be [OF w] bswap16_swap n)
  have ck': "bat_checksum (set_block k v (bat_updateChecksum b)) = norm16 (sum_list ?w)"
    "bat_checksumInv (set_block k v (bat_updateChecksum b)) = norm16 (sum_list (?c ?w))"
    using ck by (simp_all add: set_block_def)
  have sw: "(bswap16 (norm16 x) = bswap16 (norm16 y)) = (norm16 x = norm16 y)" for x y
    using bswap16_swap n by metis
  have "bat_valid (bat_updateChecksum b)" by (simp add: bat_valid_def wu ck checksum_be [OF w])
  moreover have "sum_list ?w mod 65536 \<noteq> sum_list (?w[?j := v]) mod 65536"
  proof -
    have le: "?w ! ?j \<le> sum_list ?w" using J(3) by (intro member_le_sum_list) simp_all
    have s': "sum_list (?w[?j := v]) + at_block b k = sum_list ?w + v"
      using sum_list_update [OF J(3) [of b], of v] le J(2) by simp
    have a: "at_block b k < 65536" using assms(1) by (simp add: bat_ok_def at_block_def)
    show ?thesis
    proof
      assume "sum_list ?w mod 65536 = sum_list (?w[?j := v]) mod 65536"
      then have "(sum_list ?w + at_block b k) mod 65536 = (sum_list ?w + v) mod 65536"
        by (subst s' [symmetric]) (rule mod_add_cong [OF _ refl])
      then have "at_block b k mod 65536 = v mod 65536"
        using mod_add_rcancel [of "at_block b k" "sum_list ?w" 65536 v] by (simp add: add.commute)
      then show False using assms(4,5) a by simp
    qed
  qed
  then have "\<not> (norm16 (sum_list ?w) = norm16 (sum_list (?w[?j := v])) \<and>
      norm16 (sum_list (?c ?w)) = norm16 (sum_list (?c (?w[?j := v]))))"
    by (intro checksum_changes) (use complement_sum [OF w] complement_sum [OF w'] len in simp_all)
  then have "\<not> bat_valid (set_block k v (bat_updateChecksum b))"
    by (auto simp: bat_valid_def wu(2) ck' checksum_be [OF w'] sw)
  ultimately show ?thesis by blast
qed

section \<open>Allocation\<close>

definition free_in :: "nat \<Rightarrow> bat \<Rightarrow> nat set" where
  "free_in m b = {k. FSTBlocks \<le> k \<and> k < m \<and> at_block b k = 0}"

fun block_chain :: "(nat \<Rightarrow> nat) \<Rightarrow> nat list \<Rightarrow> bool" where
  "block_chain f [] = True"
| "block_chain f [x] = (f x = 0xFFFF)"
| "block_chain f (x # y # zs) = (f x = y \<and> block_chain f (y # zs))"

lemma block_chain_cong: "(\<And>x. x \<in> set xs \<Longrightarrow> f x = g x) \<Longrightarrow> block_chain f xs = block_chain g xs"
  by (induction f xs rule: block_chain.induct) auto

lemma block_chain_Cons: "xs \<noteq> [] \<Longrightarrow> block_chain f (x # xs) = (f x = hd xs \<and> block_chain f xs)"
  by (cases xs) auto

lemma at_set_block [simp]: "at_block (set_block k v b) j = (if j = k then v else at_block b j)"
  by (simp add: at_block_def set_block_def)

lemma set_block_sel [simp]:
  "bat_freeBlocks (set_block k v b) = bat_freeBlocks b" "bat_lastAllocated (set_block k v b) = bat_lastAllocated b"
  "bat_updateCounter (set_block k v b) = bat_updateCounter b"
  "bat_checksum (set_block k v b) = bat_checksum b" "bat_checksumInv (set_block k v b) = bat_checksumInv b"
  by (simp_all add: set_block_def)

lemma finite_free_in [simp]: "finite (free_in m b)"
  by (rule finite_subset [of _ "{..<m}"]) (auto simp: free_in_def)

lemma free_in_set_block: "v \<noteq> 0 \<Longrightarrow> free_in m (set_block k v b) = free_in m b - {k}"
  by (auto simp: free_in_def)

lemma nextFreeBlock_spec:
  assumes "0 < bat_freeBlocks b" "m = min maxBlock BATSize" "FSTBlocks \<le> start" "start \<le> m"
  shows "if free_in m b = {} then nextFreeBlock b maxBlock start = 0xFFFF else nextFreeBlock b maxBlock start \<in> free_in m b"
proof -
  let ?P = "\<lambda>i. at_block b i = 0"
  have split: "i \<in> free_in m b \<longleftrightarrow> ?P i \<and> (i \<in> set [start..<m] \<or> i \<in> set [FSTBlocks..<start])" for i
    using assms(3,4) by (auto simp: free_in_def)
  have some: "i \<in> set xs \<and> P i" if "List.find P xs = Some i" for P :: "nat \<Rightarrow> bool" and xs i
    using that by (auto simp: find_Some_iff)
  show ?thesis
  proof (cases "List.find ?P [start..<m]")
    case (Some i)
    then show ?thesis using some [OF Some] split [of i] assms(1,2) by (auto simp: nextFreeBlock_def Let_def)
  next
    case n: None
    show ?thesis
    proof (cases "List.find ?P [FSTBlocks..<start]")
      case (Some i)
      then show ?thesis using some [OF Some] n split [of i] assms(1,2) by (auto simp: nextFreeBlock_def Let_def)
    next
      case None
      then have "free_in m b = {}" using n split unfolding find_None_iff by blast
      then show ?thesis using n None assms(1,2) by (simp add: nextFreeBlock_def Let_def)
    qed
  qed
qed

lemma alloc_loop_correct:
  assumes "f \<in> free_in m b" "0 < bat_freeBlocks b" "m = min (u16_minus maxBlocks FSTBlocks) BATSize"
  shows "if Suc k \<le> card (free_in m b)
    then \<exists>bs b'. alloc_loop maxBlocks (Suc k) b f = (b', last bs) \<and> bs \<noteq> [] \<and> hd bs = f \<and> length bs = Suc k \<and>
      distinct bs \<and> set bs \<subseteq> free_in m b \<and> block_chain (at_block b') bs \<and>
      (\<forall>j. j \<notin> set bs \<longrightarrow> at_block b' j = at_block b j) \<and> bat_freeBlocks b' = bat_freeBlocks b
    else snd (alloc_loop maxBlocks (Suc k) b f) = 0xFFFF"
  using assms
proof (induction k arbitrary: b f)
  case 0
  have "f < 4091" using 0 by (auto simp: free_in_def BATSize_def)
  moreover have "0 < card (free_in m b)" using 0(1) by (auto simp: card_gt_0_iff)
  ultimately show ?case using 0 by (auto intro!: exI [of _ "[f]"])
next
  case (Suc k)
  define b1 where "b1 = set_block f 0xFFFF b"
  define n where "n = nextFreeBlock b1 (u16_minus maxBlocks FSTBlocks) (f + 1)"
  define b2 where "b2 = set_block f n b1"
  have f: "FSTBlocks \<le> f" "f < m" "m \<le> 4091" "f \<noteq> 0xFFFF" "(f + 1) mod 65536 = f + 1"
    using Suc.prems by (auto simp: free_in_def BATSize_def)
  have F1: "free_in m b1 = free_in m b - {f}" by (simp add: b1_def free_in_set_block)
  have card1: "card (free_in m b1) = card (free_in m b) - 1" using Suc.prems(1) by (simp add: F1)
  have run: "alloc_loop maxBlocks (Suc (Suc k)) b f = alloc_loop maxBlocks (Suc k) b2 n"
    using f(4,5) by (simp add: Let_def b1_def n_def b2_def del: alloc_loop.simps(2)) (subst alloc_loop.simps(2), simp add: Let_def)
  have spec: "if free_in m b1 = {} then n = 0xFFFF else n \<in> free_in m b1"
    unfolding n_def by (rule nextFreeBlock_spec) (use Suc.prems f in \<open>auto simp: b1_def\<close>)
  show ?case
  proof (cases "free_in m b1 = {}")
    case True
    then have "n = 0xFFFF" using spec by simp
    moreover have "card (free_in m b) \<le> 1" using True card1 by simp
    ultimately show ?thesis unfolding run by simp
  next
    case False
    then have n: "n \<in> free_in m b1" using spec by simp
    then have "n \<noteq> 0" by (auto simp: free_in_def FSTBlocks_def)
    then have F2: "free_in m b2 = free_in m b1" using F1 by (simp add: b2_def free_in_set_block)
    note IH = Suc.IH [of n b2]
    have ih: "if Suc k \<le> card (free_in m b1)
      then \<exists>bs b'. alloc_loop maxBlocks (Suc k) b2 n = (b', last bs) \<and> bs \<noteq> [] \<and> hd bs = n \<and> length bs = Suc k \<and>
        distinct bs \<and> set bs \<subseteq> free_in m b1 \<and> block_chain (at_block b') bs \<and>
        (\<forall>j. j \<notin> set bs \<longrightarrow> at_block b' j = at_block b2 j) \<and> bat_freeBlocks b' = bat_freeBlocks b2
      else snd (alloc_loop maxBlocks (Suc k) b2 n) = 0xFFFF"
      unfolding F2 [symmetric] by (rule IH) (use n F2 Suc.prems in \<open>auto simp: b1_def b2_def\<close>)
    show ?thesis
    proof (cases "Suc k \<le> card (free_in m b1)")
      case True
      with ih obtain bs b' where B: "alloc_loop maxBlocks (Suc k) b2 n = (b', last bs)" "bs \<noteq> []" "hd bs = n"
        "length bs = Suc k" "distinct bs" "set bs \<subseteq> free_in m b1" "block_chain (at_block b') bs"
        "\<forall>j. j \<notin> set bs \<longrightarrow> at_block b' j = at_block b2 j" "bat_freeBlocks b' = bat_freeBlocks b2" by auto
      have fb: "f \<notin> set bs" using B(6) F1 by auto
      then have "at_block b' f = n" using B(8) by (simp add: b2_def)
      then have ch: "block_chain (at_block b') (f # bs)" using B(2,3,7) by (simp add: block_chain_Cons)
      have "\<forall>j. j \<notin> set (f # bs) \<longrightarrow> at_block b' j = at_block b j" using B(8) by (simp add: b2_def b1_def)
      then show ?thesis unfolding run
        using B(1,2,4,5,6,9) ch fb Suc.prems(1) F1 True card1
        by (auto simp: b1_def b2_def intro!: exI [of _ "f # bs"])
    next
      case no: False
      then show ?thesis using ih card1 unfolding run by auto
    qed
  qed
qed

lemma allocate_run:
  assumes "0 < bat_freeBlocks b" "0 < count" "m = min (u16_minus maxBlocks FSTBlocks) BATSize"
    and "FSTBlocks \<le> bat_lastAllocated b + 1" "bat_lastAllocated b + 1 \<le> m"
  shows "case allocateBlocks count maxBlocks b of (firstBlock, b') \<Rightarrow>
    if count \<le> card (free_in m b)
    then \<exists>bs. bs \<noteq> [] \<and> firstBlock = hd bs \<and> length bs = count \<and> distinct bs \<and> set bs \<subseteq> free_in m b \<and>
      block_chain (at_block b') bs \<and> (\<forall>j. j \<notin> set bs \<longrightarrow> at_block b' j = at_block b j) \<and>
      bat_freeBlocks b' = u16_minus (bat_freeBlocks b) count \<and> bat_lastAllocated b' = last bs
    else firstBlock = 0xFFFF"
proof -
  have m: "m \<le> 4091" "(bat_lastAllocated b + 1) mod 65536 = bat_lastAllocated b + 1"
    using assms(3,5) by (simp_all add: BATSize_def)
  define f where "f = nextFreeBlock b (u16_minus maxBlocks FSTBlocks) (Suc (bat_lastAllocated b))"
  have spec: "if free_in m b = {} then f = 0xFFFF else f \<in> free_in m b"
    unfolding f_def by (rule nextFreeBlock_spec) (use assms in auto)
  obtain k where k: "count = Suc k" using assms(2) by (cases count) auto
  show ?thesis
  proof (cases "free_in m b = {}")
    case True
    then show ?thesis using spec m(2) by (simp add: allocateBlocks_def Let_def f_def [symmetric] k)
  next
    case False
    then have f: "f \<in> free_in m b" using spec by simp
    then have f16: "f \<noteq> 0xFFFF" using m(1) by (auto simp: free_in_def)
    note L = alloc_loop_correct [OF f assms(1,3), of k]
    show ?thesis
    proof (cases "count \<le> card (free_in m b)")
      case True
      with L obtain bs b' where B: "alloc_loop maxBlocks count b f = (b', last bs)" "bs \<noteq> []" "hd bs = f" "length bs = count"
        "distinct bs" "set bs \<subseteq> free_in m b" "block_chain (at_block b') bs" "\<forall>j. j \<notin> set bs \<longrightarrow> at_block b' j = at_block b j"
        "bat_freeBlocks b' = bat_freeBlocks b" unfolding k by auto
      have "last bs \<in> free_in m b" using B(2,6) by auto
      then have l: "last bs \<noteq> 0xFFFF" using m(1) by (auto simp: free_in_def)
      let ?b' = "b'\<lparr>bat_lastAllocated := last bs, bat_freeBlocks := u16_minus (bat_freeBlocks b') count\<rparr>"
      have at: "at_block ?b' = at_block b'" by (simp add: at_block_def fun_eq_iff)
      have "allocateBlocks count maxBlocks b = (f, ?b')"
        using f16 l B(1) m(2) by (simp add: allocateBlocks_def Let_def f_def [symmetric])
      then show ?thesis using True B at by auto
    next
      case no: False
      then show ?thesis using L f16 m(2) unfolding k
        by (auto simp: allocateBlocks_def Let_def f_def [symmetric] split: prod.splits simp del: alloc_loop.simps)
    qed
  qed
qed

text \<open>Allocating \<open>count\<close> blocks succeeds exactly when that many blocks are free below the limit;
  it then chains \<open>count\<close> distinct, previously free blocks, ends the chain with 0xFFFF, leaves every
  other entry of the table alone and lowers the free count.\<close>

theorem allocate_blocks_correct:
  assumes "0 < bat_freeBlocks b" "0 < count" "m = min (u16_minus maxBlocks FSTBlocks) BATSize"
    and "FSTBlocks \<le> bat_lastAllocated b + 1" "bat_lastAllocated b + 1 \<le> m"
  shows "case allocateBlocks count maxBlocks b of (firstBlock, b') \<Rightarrow>
    if count \<le> card (free_in m b)
    then \<exists>bs. bs \<noteq> [] \<and> firstBlock = hd bs \<and> length bs = count \<and> distinct bs \<and> set bs \<subseteq> free_in m b \<and>
      block_chain (at_block b') bs \<and> (\<forall>j. j \<notin> set bs \<longrightarrow> at_block b' j = at_block b j) \<and>
      bat_freeBlocks b' = u16_minus (bat_freeBlocks b) count \<and> bat_lastAllocated b' = last bs
    else firstBlock = 0xFFFF"
  using assms by (rule allocate_run)

section \<open>Clearing\<close>

definition in_table :: "nat list \<Rightarrow> bool" where
  "in_table bs \<longleftrightarrow> (\<forall>k\<in>set bs. FSTBlocks \<le> k \<and> k \<le> BATSize - FSTBlocks)"

lemma next_in_chain:
  assumes "block_chain (at_block b) (x # xs)" "in_table (x # xs)"
  shows "getNextBlock b x = (if xs = [] then 0xFFFF else hd xs)"
proof -
  have "getNextBlock b x = at_block b x" using assms(2) by (auto simp: getNextBlock_def in_table_def)
  then show ?thesis using assms(1) by (cases xs) auto
qed

lemma clear_walk_chain:
  assumes "block_chain (at_block b) bs" "in_table bs"
  shows "clear_walk b (if bs = [] then 0xFFFF else hd bs) = Some (bs, 0xFFFF)"
  using assms
proof (induction bs)
  case Nil
  show ?case by (subst clear_walk.simps) simp
next
  case (Cons x xs)
  have x: "x \<noteq> 0xFFFF" "x \<noteq> 0" using Cons.prems(2) by (auto simp: in_table_def FSTBlocks_def BATSize_def)
  have "block_chain (at_block b) xs" "in_table xs" using Cons.prems by (cases xs; simp add: in_table_def)+
  from Cons.IH [OF this] show ?case
    using x next_in_chain [OF Cons.prems] by (subst clear_walk.simps) simp
qed

lemma fold_set_block: "at_block (fold (\<lambda>k. set_block k 0) bs b) j = (if j \<in> set bs then 0 else at_block b j)"
  "bat_freeBlocks (fold (\<lambda>k. set_block k 0) bs b) = bat_freeBlocks b"
  by (induction bs arbitrary: b) auto

lemma clear_run:
  assumes "bs \<noteq> []" "block_chain (at_block b) bs" "in_table bs"
  shows "bat_clear b (hd bs) count =
    Some (if count = length bs
      then (True, (fold (\<lambda>k. set_block k 0) bs b)\<lparr>bat_freeBlocks := (bat_freeBlocks b + count) mod 65536\<rparr>)
      else (False, b))"
  using clear_walk_chain [OF assms(2,3)] assms(1) by (simp add: bat_clear_def)

text \<open>Clearing a chain frees exactly its blocks and raises the free count by their number when
  the caller names the chain's length, and otherwise fails and changes nothing.\<close>

theorem clear_frees_chain:
  assumes "bs \<noteq> []" "block_chain (at_block b) bs" "in_table bs"
  shows "case bat_clear b (hd bs) count of None \<Rightarrow> False
    | Some (ok, b') \<Rightarrow>
        if count = length bs
        then ok \<and> (\<forall>j. at_block b' j = (if j \<in> set bs then 0 else at_block b j)) \<and>
          bat_freeBlocks b' = (bat_freeBlocks b + count) mod 65536
        else \<not> ok \<and> b' = b"
proof -
  have "at_block (b'\<lparr>bat_freeBlocks := n\<rparr>) j = at_block b' j" for b' n j by (simp add: at_block_def)
  then show ?thesis using clear_run [OF assms, of count] by (simp add: fold_set_block)
qed

section \<open>A concrete table\<close>

definition demo_bat :: bat where
  "demo_bat = \<lparr>bat_checksum = 0, bat_checksumInv = 0, bat_updateCounter = 0, bat_freeBlocks = 59, bat_lastAllocated = 4,
     bat_map = (\<lambda>_. 0)(2 := 1)\<rparr>"

lemma demo_free: "card (free_in 49 demo_bat) = 43"
proof -
  have "free_in 49 demo_bat = {5..<49} - {7}"
    by (auto simp: free_in_def at_block_def demo_bat_def FSTBlocks_def)
  then show ?thesis by simp
qed

lemma bat_checksum_detects_change_witness:
  "bat_valid (bat_updateChecksum demo_bat) \<and> \<not> bat_valid (set_block 9 3 (bat_updateChecksum demo_bat))"
  by (rule bat_checksum_detects_change)
    (simp_all add: bat_ok_def demo_bat_def at_block_def FSTBlocks_def BATSize_def)

lemma allocate_blocks_correct_witness:
  "case allocateBlocks 3 54 demo_bat of (firstBlock, b') \<Rightarrow>
     \<exists>bs. firstBlock = hd bs \<and> length bs = 3 \<and> set bs \<subseteq> free_in 49 demo_bat \<and> block_chain (at_block b') bs"
  using allocate_blocks_correct [of demo_bat 3 49 54] demo_free
  by (auto simp: u16_minus_def FSTBlocks_def BATSize_def demo_bat_def)

lemma clear_frees_chain_witness:
  "case bat_clear (set_block 5 6 (set_block 6 0xFFFF demo_bat)) 5 2 of None \<Rightarrow> False
   | Some (ok, b') \<Rightarrow> ok \<and> bat_freeBlocks b' = 61"
  using clear_frees_chain [of "[5, 6]" "set_block 5 6 (set_block 6 0xFFFF demo_bat)" 2]
  by (auto simp: in_table_def FSTBlocks_def BATSize_def demo_bat_def split: option.splits)

end
