(* ===== verification/CardDir.thy ===== *)
theory CardDir
  imports CardBat
begin

unbundle bit_operations_syntax

text \<open>
  Directory entries and the directory block of a memory card image (\<open>File.cpp\<close>, \<open>Directory.cpp\<close>
  of \<open>aurora-main/lib/card\<close>).  Bytes and unsigned fields are naturals below their width, a C
  string is the list of its bytes before the terminator, a \<open>File*\<close> into the directory is an index.
\<close>

section \<open>Entries\<close>

type_synonym bytes = "nat list"

record card_file =
  m_game :: bytes
  m_maker :: bytes
  m_reserved :: nat
  m_bannerFlags :: nat
  m_filename :: bytes
  m_modifiedTime :: nat
  m_iconAddress :: nat
  m_iconFmt :: nat
  m_animSpeed :: nat
  m_permissions :: nat
  m_copyCounter :: nat
  m_firstBlock :: nat
  m_blockCount :: nat
  m_reserved2 :: nat
  m_commentAddr :: nat

definition bswap32 :: "nat \<Rightarrow> nat" where
  "bswap32 x = bswap16 (x mod 65536) * 65536 + bswap16 (x div 65536)"

definition cstr :: "nat \<Rightarrow> bytes \<Rightarrow> bytes" where
  "cstr n a = takeWhile (\<lambda>c. c \<noteq> 0) (take n a)"

definition strncpy :: "nat \<Rightarrow> bytes \<Rightarrow> bytes" where
  "strncpy n src = take n (src @ replicate n 0)"

text \<open>\<open>File()\<close> and \<open>File(filename)\<close>.\<close>

definition File_empty :: card_file where
  "File_empty = \<lparr>m_game = replicate 4 0xFF, m_maker = replicate 2 0xFF, m_reserved = 0xFF, m_bannerFlags = 0xFF,
     m_filename = replicate 32 0xFF, m_modifiedTime = 0xFFFFFFFF, m_iconAddress = 0xFFFFFFFF, m_iconFmt = 0xFFFF,
     m_animSpeed = 0xFFFF, m_permissions = 0xFF, m_copyCounter = 0xFF, m_firstBlock = 0xFFFF, m_blockCount = 0xFFFF,
     m_reserved2 = 0xFFFF, m_commentAddr = 0xFFFFFFFF\<rparr>"

definition File_named :: "bytes \<Rightarrow> card_file" where
  "File_named filename = \<lparr>m_game = replicate 4 0, m_maker = replicate 2 0, m_reserved = 0, m_bannerFlags = 0,
     m_filename = strncpy 31 filename @ [0], m_modifiedTime = 0, m_iconAddress = 0, m_iconFmt = 0,
     m_animSpeed = 0, m_permissions = 0, m_copyCounter = 0, m_firstBlock = 0, m_blockCount = 0,
     m_reserved2 = 0, m_commentAddr = 0\<rparr>"

definition file_swapEndian :: "card_file \<Rightarrow> card_file" where
  "file_swapEndian f = f\<lparr>m_modifiedTime := bswap32 (m_modifiedTime f), m_iconAddress := bswap32 (m_iconAddress f),
     m_iconFmt := bswap16 (m_iconFmt f), m_animSpeed := bswap16 (m_animSpeed f), m_firstBlock := bswap16 (m_firstBlock f),
     m_blockCount := bswap16 (m_blockCount f), m_reserved2 := bswap16 (m_reserved2 f),
     m_commentAddr := bswap32 (m_commentAddr f)\<rparr>"

text \<open>The entry as the half-words a little-endian host loads from it.\<close>

fun pairs :: "bytes \<Rightarrow> nat list" where
  "pairs (a # b # bs) = (a + 256 * b) # pairs bs"
| "pairs bs = bs"

definition halves :: "nat \<Rightarrow> nat list" where
  "halves x = [x mod 65536, x div 65536]"

definition file_halfwords :: "card_file \<Rightarrow> nat list" where
  "file_halfwords f = pairs (m_game f) @ pairs (m_maker f) @ [m_reserved f + 256 * m_bannerFlags f] @
     pairs (m_filename f) @ halves (m_modifiedTime f) @ halves (m_iconAddress f) @
     [m_iconFmt f, m_animSpeed f, m_permissions f + 256 * m_copyCounter f, m_firstBlock f, m_blockCount f, m_reserved2 f] @
     halves (m_commentAddr f)"

definition file_free :: "card_file \<Rightarrow> bool" where
  "file_free f \<longleftrightarrow> m_game f ! 0 = 0xFF"

section \<open>The directory\<close>

record directory =
  m_files :: "card_file list"
  dir_padding :: bytes
  dir_updateCounter :: nat
  dir_checksum :: nat
  dir_checksumInv :: nat

definition MaxFiles :: nat where "MaxFiles = 127"

definition dir_swapEndian :: "directory \<Rightarrow> directory" where
  "dir_swapEndian d = d\<lparr>m_files := map file_swapEndian (m_files d), dir_updateCounter := bswap16 (dir_updateCounter d),
     dir_checksum := bswap16 (dir_checksum d), dir_checksumInv := bswap16 (dir_checksumInv d)\<rparr>"

definition dir_halfwords :: "directory \<Rightarrow> nat list" where
  "dir_halfwords d = concat (map file_halfwords (m_files d)) @ pairs (dir_padding d) @ [dir_updateCounter d]"

definition dir_updateChecksum :: "directory \<Rightarrow> directory" where
  "dir_updateChecksum d =
    (let d = dir_swapEndian d; (ck, ckInv) = calculateChecksumBE (dir_halfwords d)
     in dir_swapEndian (d\<lparr>dir_checksum := ck, dir_checksumInv := ckInv\<rparr>))"

definition dir_valid :: "directory \<Rightarrow> bool" where
  "dir_valid d \<longleftrightarrow> (let d = dir_swapEndian d
     in calculateChecksumBE (dir_halfwords d) = (dir_checksum d, dir_checksumInv d))"

definition Directory :: directory where
  "Directory = dir_updateChecksum \<lparr>m_files = replicate MaxFiles File_empty, dir_padding = replicate 0x3A 0xFF,
     dir_updateCounter = 0, dir_checksum = 0xFFFF, dir_checksumInv = 0xFFFF\<rparr>"

definition hasFreeFile :: "directory \<Rightarrow> bool" where
  "hasFreeFile d \<longleftrightarrow> list_ex file_free (m_files d)"

definition numFreeFiles :: "directory \<Rightarrow> nat" where
  "numFreeFiles d = length (filter file_free (m_files d))"

definition find_index :: "('a \<Rightarrow> bool) \<Rightarrow> nat \<Rightarrow> 'a list \<Rightarrow> nat option" where
  "find_index P start xs = List.find (\<lambda>i. P (xs ! i)) [start..<length xs]"

definition put_file :: "nat \<Rightarrow> card_file \<Rightarrow> directory \<Rightarrow> directory" where
  "put_file i f d = d\<lparr>m_files := (m_files d)[i := f]\<rparr>"

definition getFirstFreeFile :: "bytes \<Rightarrow> bytes \<Rightarrow> bytes \<Rightarrow> directory \<Rightarrow> nat option \<times> directory" where
  "getFirstFreeFile game maker filename d =
    (case find_index file_free 0 (m_files d) of None \<Rightarrow> (None, d)
     | Some i \<Rightarrow>
         let f = File_named filename;
             f = (if length game = 4 then f\<lparr>m_game := game\<rparr> else f);
             f = (if length maker = 2 then f\<lparr>m_maker := maker\<rparr> else f)
         in (Some i, put_file i f d))"

text \<open>The game and maker filters: \<open>strncmp\<close> against the entry for the listing, \<open>memcmp\<close> for a lookup.\<close>

definition getFirstNonFreeFile :: "nat \<Rightarrow> bytes \<Rightarrow> bytes \<Rightarrow> directory \<Rightarrow> nat option" where
  "getFirstNonFreeFile start game maker d =
    find_index (\<lambda>f. \<not> file_free f \<and>
      \<not> (length game = 4 \<and> cstr 4 (m_game f) \<noteq> take 4 game) \<and>
      \<not> (length maker = 2 \<and> cstr 2 (m_maker f) \<noteq> take 2 maker)) start (m_files d)"

definition name_matches :: "bytes \<Rightarrow> bytes \<Rightarrow> bytes \<Rightarrow> card_file \<Rightarrow> bool" where
  "name_matches game maker filename f \<longleftrightarrow>
     \<not> (length game = 4 \<and> m_game f \<noteq> game) \<and> \<not> (length maker = 2 \<and> m_maker f \<noteq> maker) \<and>
     cstr 32 (m_filename f) = take 32 filename"

definition getFile_name :: "bytes \<Rightarrow> bytes \<Rightarrow> bytes \<Rightarrow> directory \<Rightarrow> nat option" where
  "getFile_name game maker filename d = find_index (name_matches game maker filename) 0 (m_files d)"

definition getFile_no :: "nat \<Rightarrow> directory \<Rightarrow> nat option" where
  "getFile_no idx d = (if idx \<ge> MaxFiles then None else Some idx)"

section \<open>Facts\<close>

lemma find_index_SomeD:
  assumes "find_index P k xs = Some i"
  shows "k \<le> i" "i < length xs" "P (xs ! i)" "\<forall>j. k \<le> j \<and> j < i \<longrightarrow> \<not> P (xs ! j)"
proof -
  obtain n where n: "n < length [k..<length xs]" "P (xs ! ([k..<length xs] ! n))" "i = [k..<length xs] ! n"
    "\<forall>j<n. \<not> P (xs ! ([k..<length xs] ! j))"
    using assms by (auto simp: find_index_def find_Some_iff)
  then show "k \<le> i" "i < length xs" "P (xs ! i)" by auto
  show "\<forall>j. k \<le> j \<and> j < i \<longrightarrow> \<not> P (xs ! j)"
  proof (intro allI impI)
    fix j assume j: "k \<le> j \<and> j < i"
    then have "j - k < n" using n(1,3) by auto
    with n(4) have "\<not> P (xs ! ([k..<length xs] ! (j - k)))" by blast
    with j n(1,3) show "\<not> P (xs ! j)" by auto
  qed
qed

lemma find_index_None: "find_index P k xs = None \<longleftrightarrow> (\<forall>i. k \<le> i \<and> i < length xs \<longrightarrow> \<not> P (xs ! i))"
  by (auto simp: find_index_def find_None_iff)

lemma hasFreeFile_index: "hasFreeFile d = (find_index file_free 0 (m_files d) \<noteq> None)"
  by (auto simp: hasFreeFile_def list_ex_iff find_index_None in_set_conv_nth) (metis nth_mem)

lemma put_file_sel [simp]:
  "m_files (put_file i f d) = (m_files d)[i := f]" "dir_updateCounter (put_file i f d) = dir_updateCounter d"
  by (simp_all add: put_file_def)

end
