(* ===== verification/CardFile.thy ===== *)
theory CardFile
  imports CardDir
begin

unbundle bit_operations_syntax

text \<open>
  A memory card image (\<open>aurora-main/lib/card/CardRawFile.cpp\<close>): two generations of the directory and
  of the block table, and the operations on files.

  The host file behind \<open>FileIO\<close> is a value of a type \<open>'d\<close> with the positioned read and write of
  \<open>host_io\<close>; what they guarantee is \<open>io_laws\<close>, over the bytes \<open>view\<close> shows.  An operation is \<open>None\<close>
  when the C++ call does not return: an endless walk of a cyclic chain, or the null dereference of
  \<open>deleteFile\<close> on a handle out of range.
\<close>

datatype card_result = CRC_MISMATCH | FATAL_ERROR | ENCODING | NAMETOOLONG | INSSPACE | NOENT | EXIST | BROKEN
  | IOERROR | NOFILE | NOCARD | WRONGDEVICE | BUSY | CARD_READY

datatype seek_origin = SeekBegin | SeekCurrent | SeekEnd

record file_handle =
  fh_idx :: nat
  fh_offset :: int

definition null_handle :: file_handle where "null_handle = \<lparr>fh_idx = 0xFFFFFFFF, fh_offset = 0\<rparr>"

definition FileHandle :: "nat \<Rightarrow> file_handle" where "FileHandle idx = \<lparr>fh_idx = idx, fh_offset = 0\<rparr>"

definition handle_ok :: "file_handle \<Rightarrow> bool" where "handle_ok fh \<longleftrightarrow> fh_idx fh \<noteq> 0xFFFFFFFF"

record 'd host_io =
  io_read :: "nat \<Rightarrow> nat \<Rightarrow> 'd \<Rightarrow> bytes option"
  io_write :: "bytes \<Rightarrow> nat \<Rightarrow> 'd \<Rightarrow> 'd option"

record 'd card =
  m_fileHandle :: "'d option"
  m_sizeMb :: nat
  m_dirs :: "nat \<Rightarrow> directory"
  m_bats :: "nat \<Rightarrow> bat"
  m_currentDir :: nat
  m_currentBat :: nat
  m_maxBlock :: nat
  card_game :: bytes
  card_maker :: bytes
  m_dirty :: bool
  m_opened :: bool

abbreviation cur_dir :: "'d card \<Rightarrow> directory" where "cur_dir c \<equiv> m_dirs c (m_currentDir c)"
abbreviation cur_bat :: "'d card \<Rightarrow> bat" where "cur_bat c \<equiv> m_bats c (m_currentBat c)"

section \<open>Opening\<close>

definition bat_swapEndian :: "bat \<Rightarrow> bat" where
  "bat_swapEndian b = \<lparr>bat_checksum = bswap16 (bat_checksum b), bat_checksumInv = bswap16 (bat_checksumInv b),
     bat_updateCounter = bswap16 (bat_updateCounter b), bat_freeBlocks = bswap16 (bat_freeBlocks b),
     bat_lastAllocated = bswap16 (bat_lastAllocated b),
     bat_map = (\<lambda>i. if 0 \<le> i \<and> i < int BATSize then bswap16 (bat_map b i) else bat_map b i)\<rparr>"

text \<open>Restoring the damaged generation from the valid one.\<close>

definition repair :: "('a \<Rightarrow> bool) \<Rightarrow> (nat \<Rightarrow> 'a) \<Rightarrow> nat \<Rightarrow> 'a" where
  "repair valid g =
    (if \<not> valid (g 0) \<and> valid (g 1) then g(0 := g 1)
     else if \<not> valid (g 1) \<and> valid (g 0) then g(1 := g 0) else g)"

definition pumpOpen :: "'d card \<Rightarrow> card_result \<times> 'd card" where
  "pumpOpen c =
    (if m_opened c then (CARD_READY, c)
     else if m_fileHandle c = None then (NOCARD, c)
     else let sz = bswap16 (m_sizeMb c);
              dirs = repair dir_valid ((m_dirs c)(0 := dir_swapEndian (m_dirs c 0), 1 := dir_swapEndian (m_dirs c 1)));
              bats = repair bat_valid ((m_bats c)(0 := bat_swapEndian (m_bats c 0), 1 := bat_swapEndian (m_bats c 1)))
          in (CARD_READY, c\<lparr>m_sizeMb := sz, m_maxBlock := sz * MbitToBlocks mod 65536, m_dirs := dirs, m_bats := bats,
                m_currentDir := (if dir_updateCounter (dirs 0) > dir_updateCounter (dirs 1) then 0 else 1),
                m_currentBat := (if bat_updateCounter (bats 0) > bat_updateCounter (bats 1) then 0 else 1),
                m_opened := True\<rparr>))"

text \<open>Every operation that can fail starts by opening the card.\<close>

definition with_open :: "('d card \<Rightarrow> (card_result \<times> 'd card) option) \<Rightarrow> 'd card \<Rightarrow> (card_result \<times> 'd card) option" where
  "with_open f c = (case pumpOpen c of (r, c) \<Rightarrow> if r \<noteq> CARD_READY then Some (r, c) else f c)"

definition openFile_name :: "bytes \<Rightarrow> 'd card \<Rightarrow> (card_result \<times> file_handle option) \<times> 'd card" where
  "openFile_name filename c =
    (case pumpOpen c of (r, c) \<Rightarrow>
       if r \<noteq> CARD_READY then ((r, None), c)
       else (case getFile_name (card_game c) (card_maker c) filename (cur_dir c) of
               None \<Rightarrow> ((NOFILE, Some null_handle), c)
             | Some i \<Rightarrow> if file_free (m_files (cur_dir c) ! i) then ((NOFILE, Some null_handle), c)
                        else ((CARD_READY, Some (FileHandle i)), c)))"

definition openFile_no :: "nat \<Rightarrow> 'd card \<Rightarrow> (card_result \<times> file_handle option) \<times> 'd card" where
  "openFile_no fileno c =
    (case pumpOpen c of (r, c) \<Rightarrow>
       if r \<noteq> CARD_READY then ((r, None), c)
       else (case getFile_no fileno (cur_dir c) of
               None \<Rightarrow> ((NOFILE, Some null_handle), c)
             | Some i \<Rightarrow> if file_free (m_files (cur_dir c) ! i) then ((NOFILE, Some null_handle), c)
                        else ((CARD_READY, Some (FileHandle fileno)), c)))"

section \<open>The two generations\<close>

definition updateDirAndBat :: "directory \<Rightarrow> bat \<Rightarrow> 'd card \<Rightarrow> 'd card" where
  "updateDirAndBat dir bat c =
    (let di = 1 - m_currentDir c; bi = 1 - m_currentBat c;
         d = dir_updateChecksum (dir\<lparr>dir_updateCounter := (dir_updateCounter dir + 1) mod 65536\<rparr>);
         b = bat_updateChecksum (bat\<lparr>bat_updateCounter := (bat_updateCounter bat + 1) mod 65536\<rparr>)
     in c\<lparr>m_currentDir := di, m_dirs := (m_dirs c)(di := d), m_currentBat := bi, m_bats := (m_bats c)(bi := b),
          m_dirty := True\<rparr>)"

text \<open>
  What \<open>open\<close> reads after \<open>commit\<close> has written a changed card: the header and both generations, their
  checksums refreshed, in the byte order of the image.  A block of the host file and the structure laid
  over it are the same thing here.
\<close>

definition written_back :: "'d card \<Rightarrow> 'd card" where
  "written_back c = c\<lparr>m_opened := False, m_dirty := False, m_sizeMb := bswap16 (m_sizeMb c),
     m_dirs := (\<lambda>i. dir_swapEndian (dir_updateChecksum (m_dirs c i))),
     m_bats := (\<lambda>i. bat_swapEndian (bat_updateChecksum (m_bats c i)))\<rparr>"

definition fileFromHandle :: "file_handle \<Rightarrow> 'd card \<Rightarrow> nat option" where
  "fileFromHandle fh c = (if \<not> handle_ok fh then None else getFile_no (fh_idx fh) (cur_dir c))"

section \<open>Creating, listing, deleting, renaming\<close>

definition createFile :: "nat \<Rightarrow> bytes \<Rightarrow> nat \<Rightarrow> 'd card \<Rightarrow> (card_result \<times> file_handle option) \<times> 'd card" where
  "createFile now filename sz c =
    (case pumpOpen c of (r, c) \<Rightarrow>
       if r \<noteq> CARD_READY then ((r, None), c)
       else if sz \<le> 0 then ((FATAL_ERROR, Some null_handle), c)
       else if length filename > 32 then ((NAMETOOLONG, Some null_handle), c)
       else if getFile_name (card_game c) (card_maker c) filename (cur_dir c) \<noteq> None then ((EXIST, Some null_handle), c)
       else let neededBlocks = (sz + 8191) div BlockSize mod 65536
         in if neededBlocks > bat_freeBlocks (cur_bat c) then ((INSSPACE, Some null_handle), c)
            else if \<not> hasFreeFile (cur_dir c) then ((NOENT, Some null_handle), c)
            else let (f, dir) = getFirstFreeFile (card_game c) (card_maker c) filename (cur_dir c);
                     (block, b) = allocateBlocks neededBlocks (u16_minus (m_maxBlock c) FSTBlocks) (cur_bat c)
                 in (case f of
                       Some i \<Rightarrow>
                         if block \<noteq> 0xFFFF then
                           let dir = put_file i ((m_files dir ! i)\<lparr>m_modifiedTime := now mod 4294967296,
                                       m_firstBlock := block, m_blockCount := neededBlocks\<rparr>) dir
                           in ((CARD_READY, Some (FileHandle i)), updateDirAndBat dir b c)
                         else ((FATAL_ERROR, Some null_handle), c)
                     | None \<Rightarrow> ((FATAL_ERROR, Some null_handle), c)))"

definition closeFile :: "file_handle \<Rightarrow> card_result \<times> file_handle" where
  "closeFile fh = (CARD_READY, fh\<lparr>fh_offset := 0\<rparr>)"

definition handle_of :: "nat option \<Rightarrow> file_handle" where
  "handle_of r = (case r of None \<Rightarrow> null_handle | Some i \<Rightarrow> FileHandle i)"

definition firstFile :: "'d card \<Rightarrow> file_handle" where
  "firstFile c = handle_of (getFirstNonFreeFile 0 (card_game c) (card_maker c) (cur_dir c))"

definition nextFile :: "file_handle \<Rightarrow> 'd card \<Rightarrow> file_handle" where
  "nextFile cur c =
    (if \<not> handle_ok cur then null_handle
     else handle_of (getFirstNonFreeFile (fh_idx cur + 1) (card_game c) (card_maker c) (cur_dir c)))"

definition getFilename :: "file_handle \<Rightarrow> 'd card \<Rightarrow> bytes option" where
  "getFilename fh c = map_option (\<lambda>i. m_filename (m_files (cur_dir c) ! i)) (fileFromHandle fh c)"

text \<open>\<open>_deleteFile\<close>: the loop over the file's blocks, then the entry is emptied.\<close>

partial_function (option) delete_loop :: "nat \<Rightarrow> bat \<Rightarrow> bat option" where
  "delete_loop block b =
    (if block \<noteq> 0xFFFF then
       Option.bind (bat_clear b block 1) (\<lambda>(ok, b'). delete_loop (getNextBlock b block) b')
     else Some b)"

definition deleteFile_at :: "nat \<Rightarrow> directory \<Rightarrow> bat \<Rightarrow> (directory \<times> bat) option" where
  "deleteFile_at i dir b =
    map_option (\<lambda>b. (put_file i File_empty dir, b)) (delete_loop (m_firstBlock (m_files dir ! i)) b)"

definition delete_and_update :: "nat \<Rightarrow> 'd card \<Rightarrow> 'd card option" where
  "delete_and_update i c =
    map_option (\<lambda>(dir, b). updateDirAndBat dir b c) (deleteFile_at i (cur_dir c) (cur_bat c))"

definition deleteFile_handle :: "file_handle \<Rightarrow> 'd card \<Rightarrow> 'd card option" where
  "deleteFile_handle fh c =
    (if \<not> handle_ok fh then Some c
     else (case getFile_no (fh_idx fh) (cur_dir c) of None \<Rightarrow> None | Some i \<Rightarrow> delete_and_update i c))"

definition deleteFile_name :: "bytes \<Rightarrow> 'd card \<Rightarrow> (card_result \<times> 'd card) option" where
  "deleteFile_name filename = with_open (\<lambda>c.
     case getFile_name (card_game c) (card_maker c) filename (cur_dir c) of
       None \<Rightarrow> Some (NOFILE, c)
     | Some i \<Rightarrow> map_option (Pair CARD_READY) (delete_and_update i c))"

definition deleteFile_no :: "nat \<Rightarrow> 'd card \<Rightarrow> (card_result \<times> 'd card) option" where
  "deleteFile_no fileno = with_open (\<lambda>c.
     case getFile_no fileno (cur_dir c) of
       None \<Rightarrow> Some (NOFILE, c)
     | Some i \<Rightarrow> map_option (Pair CARD_READY) (delete_and_update i c))"

definition set_name :: "nat \<Rightarrow> bytes \<Rightarrow> directory \<Rightarrow> directory" where
  "set_name i newName dir = put_file i ((m_files dir ! i)\<lparr>m_filename := strncpy 32 newName\<rparr>) dir"

definition renameFile :: "bytes \<Rightarrow> bytes \<Rightarrow> 'd card \<Rightarrow> (card_result \<times> 'd card) option" where
  "renameFile oldName newName = with_open (\<lambda>c.
     if length newName > 32 then Some (NAMETOOLONG, c)
     else (case getFile_name (card_game c) (card_maker c) oldName (cur_dir c) of
             None \<Rightarrow> Some (NOFILE, c)
           | Some i \<Rightarrow>
               (case getFile_name (card_game c) (card_maker c) newName (cur_dir c) of
                  Some j \<Rightarrow>
                    map_option (\<lambda>(dir, b). (CARD_READY, updateDirAndBat (set_name i newName dir) b c))
                      (deleteFile_at j (cur_dir c) (cur_bat c))
                | None \<Rightarrow> Some (CARD_READY, updateDirAndBat (set_name i newName (cur_dir c)) (cur_bat c) c))))"

section \<open>Reading and writing\<close>

fun skip_blocks :: "bat \<Rightarrow> nat \<Rightarrow> nat \<Rightarrow> nat" where
  "skip_blocks b 0 block = block"
| "skip_blocks b (Suc n) block = skip_blocks b n (getNextBlock b block)"

partial_function (option) write_loop ::
    "'d host_io \<Rightarrow> bat \<Rightarrow> bytes \<Rightarrow> nat \<Rightarrow> nat \<Rightarrow> 'd \<Rightarrow> (card_result \<times> 'd) option" where
  "write_loop io b buf curBlock blockOffset d =
    (if buf = [] then Some (CARD_READY, d)
     else if curBlock = 0xFFFF then Some (NOFILE, d)
     else let cacheSize = (if length buf + blockOffset > BlockSize then BlockSize - blockOffset else length buf)
       in case io_write io (take cacheSize buf) (curBlock * BlockSize + blockOffset) d of
            None \<Rightarrow> Some (FATAL_ERROR, d)
          | Some d \<Rightarrow>
              if blockOffset + cacheSize \<ge> BlockSize
              then write_loop io b (drop cacheSize buf) (getNextBlock b curBlock) 0 d
              else write_loop io b (drop cacheSize buf) curBlock (blockOffset + cacheSize) d)"

partial_function (option) read_loop ::
    "'d host_io \<Rightarrow> bat \<Rightarrow> nat \<Rightarrow> bytes \<Rightarrow> nat \<Rightarrow> nat \<Rightarrow> 'd \<Rightarrow> (card_result \<times> bytes) option" where
  "read_loop io b len acc curBlock blockOffset d =
    (if len = 0 then Some (CARD_READY, acc)
     else if curBlock = 0xFFFF then Some (NOFILE, acc)
     else let cacheSize = (if len + blockOffset > BlockSize then BlockSize - blockOffset else len)
       in case io_read io cacheSize (curBlock * BlockSize + blockOffset) d of
            None \<Rightarrow> Some (FATAL_ERROR, acc)
          | Some bs \<Rightarrow>
              if blockOffset + cacheSize \<ge> BlockSize
              then read_loop io b (len - cacheSize) (acc @ bs) (getNextBlock b curBlock) 0 d
              else read_loop io b (len - cacheSize) (acc @ bs) curBlock (blockOffset + cacheSize) d)"

definition wrap32 :: "int \<Rightarrow> int" where
  "wrap32 k = (k + 2147483648) mod 4294967296 - 2147483648"

text \<open>The block and the offset inside it at which a transfer starts; \<open>fh.offset\<close> is converted to
  unsigned for the division.\<close>

definition start_block :: "file_handle \<Rightarrow> nat \<Rightarrow> 'd card \<Rightarrow> nat \<times> nat" where
  "start_block fh i c =
    (let off = nat (fh_offset fh mod 4294967296)
     in (skip_blocks (cur_bat c) (off div BlockSize mod 65536) (m_firstBlock (m_files (cur_dir c) ! i)), off mod BlockSize))"

definition fileWrite :: "'d host_io \<Rightarrow> file_handle \<Rightarrow> bytes \<Rightarrow> 'd card \<Rightarrow> ((card_result \<times> file_handle) \<times> 'd card) option" where
  "fileWrite io fh buf c =
    (case pumpOpen c of (r, c) \<Rightarrow>
       if r \<noteq> CARD_READY then Some ((r, fh), c)
       else (case fileFromHandle fh c of
               None \<Rightarrow> Some ((NOFILE, fh), c)
             | Some i \<Rightarrow>
                 (case start_block fh i c of (block, off) \<Rightarrow>
                   case m_fileHandle c of
                     None \<Rightarrow> Some ((if buf = [] then CARD_READY else if block = 0xFFFF then NOFILE else FATAL_ERROR, fh), c)
                   | Some d \<Rightarrow>
                       map_option (\<lambda>(r, d). ((r, if r = CARD_READY then fh\<lparr>fh_offset := wrap32 (fh_offset fh + int (length buf))\<rparr> else fh),
                           c\<lparr>m_fileHandle := Some d\<rparr>))
                         (write_loop io (cur_bat c) buf block off d))))"

definition fileRead :: "'d host_io \<Rightarrow> file_handle \<Rightarrow> nat \<Rightarrow> 'd card \<Rightarrow> ((card_result \<times> bytes \<times> file_handle) \<times> 'd card) option" where
  "fileRead io fh len c =
    (case pumpOpen c of (r, c) \<Rightarrow>
       if r \<noteq> CARD_READY then Some ((r, [], fh), c)
       else (case fileFromHandle fh c of
               None \<Rightarrow> Some ((NOFILE, [], fh), c)
             | Some i \<Rightarrow>
                 (case start_block fh i c of (block, off) \<Rightarrow>
                   case m_fileHandle c of
                     None \<Rightarrow> Some ((if len = 0 then CARD_READY else if block = 0xFFFF then NOFILE else FATAL_ERROR, [], fh), c)
                   | Some d \<Rightarrow>
                       map_option (\<lambda>(r, bs). ((r, bs, if r = CARD_READY then fh\<lparr>fh_offset := wrap32 (fh_offset fh + int len)\<rparr> else fh), c))
                         (read_loop io (cur_bat c) len [] block off d))))"

definition seek :: "file_handle \<Rightarrow> int \<Rightarrow> seek_origin \<Rightarrow> 'd card \<Rightarrow> file_handle" where
  "seek fh pos whence c =
    (case fileFromHandle fh c of None \<Rightarrow> fh
     | Some i \<Rightarrow>
         (case whence of
            SeekBegin \<Rightarrow> fh\<lparr>fh_offset := pos\<rparr>
          | SeekCurrent \<Rightarrow> fh\<lparr>fh_offset := wrap32 (fh_offset fh + pos)\<rparr>
          | SeekEnd \<Rightarrow> fh\<lparr>fh_offset := wrap32 (wrap32 (int (m_blockCount (m_files (cur_dir c) ! i) * BlockSize)) - pos)\<rparr>))"

definition tell :: "file_handle \<Rightarrow> int" where "tell fh = fh_offset fh"

section \<open>Attributes and status\<close>

definition modify_file :: "file_handle \<Rightarrow> (card_file \<Rightarrow> card_file) \<Rightarrow> 'd card \<Rightarrow> 'd card" where
  "modify_file fh g c =
    (case fileFromHandle fh c of None \<Rightarrow> c
     | Some i \<Rightarrow> c\<lparr>m_dirs := (m_dirs c)(m_currentDir c := put_file i (g (m_files (cur_dir c) ! i)) (cur_dir c))\<rparr>)"

definition test_file :: "file_handle \<Rightarrow> (card_file \<Rightarrow> bool) \<Rightarrow> 'd card \<Rightarrow> bool" where
  "test_file fh P c = (case fileFromHandle fh c of None \<Rightarrow> False | Some i \<Rightarrow> P (m_files (cur_dir c) ! i))"

definition set_permission :: "nat \<Rightarrow> bool \<Rightarrow> card_file \<Rightarrow> card_file" where
  "set_permission n v f = f\<lparr>m_permissions := (if v then set_bit n (m_permissions f) else unset_bit n (m_permissions f))\<rparr>"

definition kPublic :: nat where "kPublic = 2"
definition kNoCopy :: nat where "kNoCopy = 3"
definition kNoMove :: nat where "kNoMove = 4"

definition setPublic :: "file_handle \<Rightarrow> bool \<Rightarrow> 'd card \<Rightarrow> 'd card" where
  "setPublic fh pub = modify_file fh (set_permission kPublic pub)"
definition isPublic :: "file_handle \<Rightarrow> 'd card \<Rightarrow> bool" where
  "isPublic fh = test_file fh (\<lambda>f. bit (m_permissions f) kPublic)"
definition setCanCopy :: "file_handle \<Rightarrow> bool \<Rightarrow> 'd card \<Rightarrow> 'd card" where
  "setCanCopy fh cp = modify_file fh (set_permission kNoCopy (\<not> cp))"
definition canCopy :: "file_handle \<Rightarrow> 'd card \<Rightarrow> bool" where
  "canCopy fh = test_file fh (\<lambda>f. \<not> bit (m_permissions f) kNoCopy)"
definition setCanMove :: "file_handle \<Rightarrow> bool \<Rightarrow> 'd card \<Rightarrow> 'd card" where
  "setCanMove fh mv = modify_file fh (set_permission kNoMove (\<not> mv))"
definition canMove :: "file_handle \<Rightarrow> 'd card \<Rightarrow> bool" where
  "canMove fh = test_file fh (\<lambda>f. \<not> bit (m_permissions f) kNoMove)"

record card_stat =
  x0_fileName :: bytes
  x20_length :: nat
  x24_time :: nat
  x28_gameName :: bytes
  x2c_company :: bytes
  x2e_bannerFormat :: nat
  x30_iconAddr :: nat
  x34_iconFormat :: nat
  x36_iconSpeed :: nat
  x38_commentAddr :: nat
  x3c_offsetBanner :: nat
  x40_offsetBannerTlut :: nat
  x44_offsetIcon :: "nat list"
  x64_offsetIconTlut :: nat
  x68_offsetData :: nat

text \<open>Image formats: 0 none, 1 C8, 2 RGB5A3; 3 is treated as none.\<close>

definition BannerSize :: "nat \<Rightarrow> nat" where "BannerSize fmt = (if fmt = 1 then 3584 else if fmt = 2 then 6144 else 0)"
definition IconSize :: "nat \<Rightarrow> nat" where "IconSize fmt = (if fmt = 1 then 1024 else if fmt = 2 then 2048 else 0)"
definition TlutSize :: "nat \<Rightarrow> nat" where "TlutSize fmt = (if fmt = 1 then 512 else 0)"

definition icon_format :: "nat \<Rightarrow> nat \<Rightarrow> nat" where
  "icon_format w i = w div 4 ^ i mod 4"

fun icon_offsets :: "nat \<Rightarrow> nat \<Rightarrow> nat list \<Rightarrow> nat list \<times> nat" where
  "icon_offsets w cur [] = ([], cur)"
| "icon_offsets w cur (i # is) =
     (case icon_offsets w ((cur + IconSize (icon_format w i)) mod 4294967296) is of (os, cur') \<Rightarrow> (cur # os, cur'))"

definition file_status :: "card_file \<Rightarrow> card_stat" where
  "file_status f =
    (let banner = m_bannerFlags f mod 4; w = m_iconFmt f;
         base = \<lparr>x0_fileName = strncpy 32 (cstr 32 (m_filename f)), x20_length = m_blockCount f * BlockSize,
           x24_time = m_modifiedTime f, x28_gameName = m_game f, x2c_company = m_maker f,
           x2e_bannerFormat = m_bannerFlags f, x30_iconAddr = m_iconAddress f, x34_iconFormat = w,
           x36_iconSpeed = m_animSpeed f, x38_commentAddr = m_commentAddr f,
           x3c_offsetBanner = 0xFFFFFFFF, x40_offsetBannerTlut = 0xFFFFFFFF, x44_offsetIcon = replicate 8 0xFFFFFFFF,
           x64_offsetIconTlut = 0xFFFFFFFF, x68_offsetData = (m_commentAddr f + 64) mod 4294967296\<rparr>
     in if m_iconAddress f = 0xFFFFFFFF then base
        else let c1 = (m_iconAddress f + BannerSize banner) mod 4294967296;
                 c2 = (c1 + TlutSize banner) mod 4294967296;
                 (icons, c3) = icon_offsets w c2 [0..<8];
                 palette = list_ex (\<lambda>i. icon_format w i = 1) [0..<8]
             in base\<lparr>x3c_offsetBanner := m_iconAddress f, x40_offsetBannerTlut := c1, x44_offsetIcon := icons,
                  x64_offsetIconTlut := (if palette then c3 else 0xFFFFFFFF),
                  x68_offsetData := (if palette then (c3 + TlutSize 1) mod 4294967296 else c3)\<rparr>)"

definition getStatus_no :: "nat \<Rightarrow> 'd card \<Rightarrow> (card_result \<times> card_stat option) \<times> 'd card" where
  "getStatus_no fileNo c =
    (case pumpOpen c of (r, c) \<Rightarrow>
       if r \<noteq> CARD_READY then ((r, None), c)
       else (case getFile_no fileNo (cur_dir c) of None \<Rightarrow> ((NOFILE, None), c)
             | Some i \<Rightarrow> if file_free (m_files (cur_dir c) ! i) then ((NOFILE, None), c)
                        else ((CARD_READY, Some (file_status (m_files (cur_dir c) ! i))), c)))"

definition getStatus :: "file_handle \<Rightarrow> 'd card \<Rightarrow> (card_result \<times> card_stat option) \<times> 'd card" where
  "getStatus fh c = (if \<not> handle_ok fh then ((NOFILE, None), c) else getStatus_no (fh_idx fh) c)"

definition setStatus_no :: "nat \<Rightarrow> card_stat \<Rightarrow> 'd card \<Rightarrow> card_result \<times> 'd card" where
  "setStatus_no fileNo stat c =
    (case pumpOpen c of (r, c) \<Rightarrow>
       if r \<noteq> CARD_READY then (r, c)
       else (case getFile_no fileNo (cur_dir c) of None \<Rightarrow> (NOFILE, c)
             | Some i \<Rightarrow>
                 let f = m_files (cur_dir c) ! i
                 in if file_free f then (NOFILE, c)
                    else (CARD_READY, updateDirAndBat
                      (put_file i (f\<lparr>m_bannerFlags := x2e_bannerFormat stat, m_iconAddress := x30_iconAddr stat,
                         m_iconFmt := x34_iconFormat stat, m_animSpeed := x36_iconSpeed stat,
                         m_commentAddr := x38_commentAddr stat\<rparr>) (cur_dir c)) (cur_bat c) c)))"

definition setStatus :: "file_handle \<Rightarrow> card_stat \<Rightarrow> 'd card \<Rightarrow> card_result \<times> 'd card" where
  "setStatus fh stat c = (if \<not> handle_ok fh then (NOFILE, c) else setStatus_no (fh_idx fh) stat c)"

text \<open>\<open>None\<close> is a null argument.\<close>

definition setCurrentGame :: "bytes option \<Rightarrow> 'd card \<Rightarrow> 'd card" where
  "setCurrentGame game c =
    (case game of None \<Rightarrow> c\<lparr>card_game := []\<rparr> | Some g \<Rightarrow> if length g \<noteq> 4 then c else c\<lparr>card_game := g\<rparr>)"

definition getCurrentGame :: "'d card \<Rightarrow> bytes option" where
  "getCurrentGame c = (if length (card_game c) = 4 then Some (card_game c) else None)"

definition setCurrentMaker :: "bytes option \<Rightarrow> 'd card \<Rightarrow> 'd card" where
  "setCurrentMaker maker c =
    (case maker of None \<Rightarrow> c\<lparr>card_maker := []\<rparr> | Some g \<Rightarrow> if length g \<noteq> 2 then c else c\<lparr>card_maker := g\<rparr>)"

definition getCurrentMaker :: "'d card \<Rightarrow> bytes option" where
  "getCurrentMaker c = (if length (card_maker c) = 2 then Some (card_maker c) else None)"

definition getFreeBlocks :: "'d card \<Rightarrow> int \<times> int" where
  "getFreeBlocks c = (int (bat_freeBlocks (cur_bat c)) * 0x2000, int (numFreeFiles (cur_dir c)))"

end
