(* ===== verification/CardCorrect.thy ===== *)
theory CardCorrect
  imports CardFile
begin

text \<open>
  What the memory card operations guarantee: transfers read and write exactly the bytes of the
  file at the handle's position, wherever its blocks lie; an update replaces the older of the two
  generations and keeps the other; creating a file; and the operations that do not do what their
  names say.
\<close>

section \<open>The host file\<close>

text \<open>Documented behaviour of a positioned write and read: a write that succeeds changes exactly the
  bytes it covers, a read that succeeds returns the bytes, and both succeed inside \<open>size\<close> bytes.\<close>

definition io_laws :: "'d host_io \<Rightarrow> ('d \<Rightarrow> nat \<Rightarrow> nat) \<Rightarrow> nat \<Rightarrow> bool" where
  "io_laws io view sz \<longleftrightarrow>
     (\<forall>bs off d. off + length bs \<le> sz \<longrightarrow> (\<exists>d'. io_write io bs off d = Some d' \<and>
        (\<forall>a. view d' a = (if off \<le> a \<and> a < off + length bs then bs ! (a - off) else view d a)))) \<and>
     (\<forall>n off d. off + n \<le> sz \<longrightarrow> io_read io n off d = Some (map (view d) [off..<off + n]))"

lemma io_writeD:
  assumes "io_laws io view sz" "off + length bs \<le> sz"
  obtains d' where "io_write io bs off d = Some d'"
    "\<And>a. view d' a = (if off \<le> a \<and> a < off + length bs then bs ! (a - off) else view d a)"
  using assms unfolding io_laws_def by blast

section \<open>The bytes of a file\<close>

text \<open>The host position of byte \<open>p\<close> of a file with the blocks \<open>bs\<close>.\<close>

fun file_pos :: "nat list \<Rightarrow> nat \<Rightarrow> nat" where
  "file_pos [] p = 0"
| "file_pos (k # bs) p = (if p < BlockSize then k * BlockSize + p else file_pos bs (p - BlockSize))"

definition block_bytes :: "nat list \<Rightarrow> nat set" where
  "block_bytes bs = (\<Union>k\<in>set bs. {k * BlockSize..<(k + 1) * BlockSize})"

lemma file_pos_in: "p < length bs * BlockSize \<Longrightarrow> file_pos bs p \<in> block_bytes bs"
  by (induction bs p rule: file_pos.induct) (auto simp: block_bytes_def BlockSize_def split: if_splits)

lemma block_disjoint: "k \<noteq> j \<Longrightarrow> {k * BlockSize..<(k + 1) * BlockSize} \<inter> {j * BlockSize..<(j + 1) * BlockSize} = {}"
  by (cases k j rule: linorder_cases) (auto simp: BlockSize_def)

lemma block_apart:
  assumes "k \<notin> set bs" "a \<in> {k * BlockSize..<(k + 1) * BlockSize}"
  shows "a \<notin> block_bytes bs"
proof
  assume "a \<in> block_bytes bs"
  then obtain j where "j \<in> set bs" "a \<in> {j * BlockSize..<(j + 1) * BlockSize}" by (auto simp: block_bytes_def)
  then show False using block_disjoint [of k j] assms by auto
qed

section \<open>Transfers\<close>

definition patched :: "(nat \<Rightarrow> nat) \<Rightarrow> nat list \<Rightarrow> nat \<Rightarrow> bytes \<Rightarrow> (nat \<Rightarrow> nat) \<Rightarrow> bool" where
  "patched v bs off buf v' \<longleftrightarrow>
     (\<forall>p<length bs * BlockSize. v' (file_pos bs p) =
        (if off \<le> p \<and> p < off + length buf then buf ! (p - off) else v (file_pos bs p))) \<and>
     (\<forall>a. a \<notin> block_bytes bs \<longrightarrow> v' a = v a)"

lemma patched_Nil: "patched v bs off [] v" by (simp add: patched_def)

text \<open>A chunk inside the first block, then the rest from the second block on.\<close>

lemma patched_Cons:
  assumes k: "k \<notin> set bs" and off: "off < BlockSize" and n: "n \<le> length buf" "off + n \<le> BlockSize"
    and v1: "\<And>a. v1 a = (if k * BlockSize + off \<le> a \<and> a < k * BlockSize + off + n then buf ! (a - (k * BlockSize + off)) else v a)"
    and rest: "patched v1 bs 0 (drop n buf) v'" and full: "n = length buf \<or> off + n = BlockSize"
  shows "patched v (k # bs) off buf v'"
  unfolding patched_def
proof (intro conjI allI impI)
  have here: "k * BlockSize + p \<in> {k * BlockSize..<(k + 1) * BlockSize}" if "p < BlockSize" for p using that by simp
  have out: "v' a = v1 a" if "a \<notin> block_bytes bs" for a using rest that by (simp add: patched_def)
  fix p assume p: "p < length (k # bs) * BlockSize"
  show "v' (file_pos (k # bs) p) = (if off \<le> p \<and> p < off + length buf then buf ! (p - off) else v (file_pos (k # bs) p))"
  proof (cases "p < BlockSize")
    case True
    have "v' (k * BlockSize + p) = v1 (k * BlockSize + p)" by (rule out [OF block_apart [OF k here [OF True]]])
    then show ?thesis using True full n by (auto simp: v1)
  next
    case False
    define q where "q = p - BlockSize"
    have q: "p = BlockSize + q" "q < length bs * BlockSize" using False p by (simp_all add: q_def)
    have "file_pos bs q \<in> block_bytes bs" by (rule file_pos_in [OF q(2)])
    then have "file_pos bs q \<notin> {k * BlockSize..<(k + 1) * BlockSize}" using block_apart [OF k] by blast
    then have v: "v1 (file_pos bs q) = v (file_pos bs q)" using n(2) by (auto simp: v1)
    have "v' (file_pos bs q) = (if q < length (drop n buf) then drop n buf ! q else v1 (file_pos bs q))"
      using rest q(2) by (simp add: patched_def)
    then show ?thesis using full n v off q(1) by (auto simp: q_def [symmetric] intro: arg_cong [of _ _ "(!) buf"])
  qed
next
  fix a assume "a \<notin> block_bytes (k # bs)"
  then have "a \<notin> block_bytes bs" "a \<notin> {k * BlockSize..<(k + 1) * BlockSize}" by (auto simp: block_bytes_def)
  moreover from this(1) have "v' a = v1 a" using rest by (simp add: patched_def)
  ultimately show "v' a = v a" using n(2) by (auto simp: v1)
qed

lemma write_loop_correct:
  assumes "io_laws io view sz" "block_chain (at_block b) bs" "in_table bs" "distinct bs" "off < BlockSize"
    and "off + length buf \<le> length bs * BlockSize \<or> buf = []" "block_bytes bs \<subseteq> {..<sz}"
  shows "\<exists>d'. write_loop io b buf (if bs = [] then 0xFFFF else hd bs) off d = Some (CARD_READY, d') \<and>
    patched (view d) bs off buf (view d')"
  using assms(2-)
proof (induction bs arbitrary: buf off d)
  case Nil
  then have "buf = []" by auto
  then show ?case by (subst write_loop.simps) (simp add: patched_Nil)
next
  case (Cons k bs)
  show ?case
  proof (cases "buf = []")
    case True
    then show ?thesis by (subst write_loop.simps) (simp add: patched_Nil)
  next
    case False
    define n where "n = (if length buf + off > BlockSize then BlockSize - off else length buf)"
    have n: "n \<le> length buf" "off + n \<le> BlockSize" "0 < n" "n = length buf \<or> off + n = BlockSize"
      using Cons.prems(4) False by (auto simp: n_def)
    have k: "k \<noteq> 0xFFFF" "k \<notin> set bs" using Cons.prems(2,3) by (auto simp: in_table_def BATSize_def FSTBlocks_def)
    have "k * BlockSize + BlockSize - 1 \<in> block_bytes (k # bs)" by (simp add: block_bytes_def BlockSize_def)
    then have "k * BlockSize + off + length (take n buf) \<le> sz" using Cons.prems(6) n(1,2) by (auto simp: BlockSize_def)
    then obtain d1 where d1: "io_write io (take n buf) (k * BlockSize + off) d = Some d1"
      "\<And>a. view d1 a = (if k * BlockSize + off \<le> a \<and> a < k * BlockSize + off + length (take n buf)
        then take n buf ! (a - (k * BlockSize + off)) else view d a)"
      using io_writeD [OF assms(1)] by metis
    have v1: "view d1 a = (if k * BlockSize + off \<le> a \<and> a < k * BlockSize + off + n
        then buf ! (a - (k * BlockSize + off)) else view d a)" for a
      using d1(2) [of a] n(1) by auto
    have step: "write_loop io b buf k off d =
        (if off + n \<ge> BlockSize then write_loop io b (drop n buf) (getNextBlock b k) 0 d1
         else write_loop io b (drop n buf) k (off + n) d1)"
      using False k(1) d1(1) by (subst write_loop.simps) (simp add: n_def [symmetric])
    have ch: "block_chain (at_block b) bs" "in_table bs" "distinct bs"
      using Cons.prems(1-3) by (cases bs; simp add: in_table_def)+
    show ?thesis
    proof (cases "off + n \<ge> BlockSize")
      case True
      then have e: "off + n = BlockSize" using n(2) by simp
      have "0 + length (drop n buf) \<le> length bs * BlockSize \<or> drop n buf = []" using Cons.prems(5) e False by auto
      moreover have "block_bytes bs \<subseteq> {..<sz}" using Cons.prems(6) by (auto simp: block_bytes_def)
      ultimately obtain d' where d': "write_loop io b (drop n buf) (if bs = [] then 0xFFFF else hd bs) 0 d1 = Some (CARD_READY, d')"
        "patched (view d1) bs 0 (drop n buf) (view d')"
        using Cons.IH [OF ch, of 0 "drop n buf" d1] by (auto simp: BlockSize_def)
      show ?thesis
        using step True d'(1) next_in_chain [OF Cons.prems(1,2)] patched_Cons [OF k(2) Cons.prems(4) n(1,2) v1 d'(2) n(4)] by auto
    next
      case no: False
      then have "drop n buf = []" using n(4) by auto
      then have "write_loop io b (drop n buf) k (off + n) d1 = Some (CARD_READY, d1)"
        by (subst write_loop.simps) simp
      moreover have "patched (view d1) bs 0 (drop n buf) (view d1)" using \<open>drop n buf = []\<close> by (simp add: patched_Nil)
      ultimately show ?thesis
        using step no patched_Cons [OF k(2) Cons.prems(4) n(1,2) v1 _ n(4)] by auto
    qed
  qed
qed

lemma read_loop_correct:
  assumes "io_laws io view sz" "block_chain (at_block b) bs" "in_table bs" "off < BlockSize"
    and "off + len \<le> length bs * BlockSize \<or> len = 0" "block_bytes bs \<subseteq> {..<sz}"
  shows "read_loop io b len acc (if bs = [] then 0xFFFF else hd bs) off d =
    Some (CARD_READY, acc @ map (\<lambda>p. view d (file_pos bs p)) [off..<off + len])"
  using assms(2-)
proof (induction bs arbitrary: len off acc)
  case Nil
  then have "len = 0" by auto
  then show ?case by (subst read_loop.simps) simp
next
  case (Cons k bs)
  show ?case
  proof (cases "len = 0")
    case True
    then show ?thesis by (subst read_loop.simps) simp
  next
    case False
    define n where "n = (if len + off > BlockSize then BlockSize - off else len)"
    have n: "n \<le> len" "off + n \<le> BlockSize" "0 < n" "n = len \<or> off + n = BlockSize"
      using Cons.prems(3) False by (auto simp: n_def)
    have k: "k \<noteq> 0xFFFF" using Cons.prems(2) by (auto simp: in_table_def BATSize_def FSTBlocks_def)
    have "k * BlockSize + BlockSize - 1 \<in> block_bytes (k # bs)" by (simp add: block_bytes_def BlockSize_def)
    then have "k * BlockSize + off + n \<le> sz" using Cons.prems(5) n(2) by (auto simp: BlockSize_def)
    then have rd: "io_read io n (k * BlockSize + off) d = Some (map (view d) [k * BlockSize + off..<k * BlockSize + off + n])"
      using assms(1) by (simp add: io_laws_def)
    have chunk: "map (view d) [k * BlockSize + off..<k * BlockSize + off + n] =
        map (\<lambda>p. view d (file_pos (k # bs) p)) [off..<off + n]"
      using n(2) by (intro nth_equalityI) (auto simp: ac_simps)
    have ch: "block_chain (at_block b) bs" "in_table bs"
      using Cons.prems(1,2) by (cases bs; simp add: in_table_def)+
    have step: "read_loop io b len acc k off d =
        (if off + n \<ge> BlockSize then read_loop io b (len - n) (acc @ map (\<lambda>p. view d (file_pos (k # bs) p)) [off..<off + n]) (getNextBlock b k) 0 d
         else read_loop io b (len - n) (acc @ map (\<lambda>p. view d (file_pos (k # bs) p)) [off..<off + n]) k (off + n) d)"
      using False k rd chunk by (subst read_loop.simps) (simp add: n_def [symmetric])
    have cat: "[off..<off + len] = [off..<off + n] @ [off + n..<off + len]"
      using upt_add_eq_append [of off "off + n" "len - n"] n(1) by simp
    show ?thesis
    proof (cases "off + n \<ge> BlockSize")
      case True
      then have e: "off + n = BlockSize" using n(2) by simp
      have "0 + (len - n) \<le> length bs * BlockSize \<or> len - n = 0" using Cons.prems(4) e False by auto
      moreover have "block_bytes bs \<subseteq> {..<sz}" using Cons.prems(5) by (auto simp: block_bytes_def)
      moreover have "map (\<lambda>p. view d (file_pos bs p)) [0..<0 + (len - n)] = map (\<lambda>p. view d (file_pos (k # bs) p)) [off + n..<off + len]"
        using e n(1) by (intro nth_equalityI) auto
      ultimately show ?thesis
        using step True next_in_chain [OF Cons.prems(1,2)] Cons.IH [OF ch, of 0 "len - n"] cat by (simp add: BlockSize_def)
    next
      case no: False
      then have "len - n = 0" using n(4) by auto
      then have "read_loop io b (len - n) a k (off + n) d = Some (CARD_READY, a)" for a
        by (subst read_loop.simps) simp
      then show ?thesis using step no \<open>len - n = 0\<close> n(1) by simp
    qed
  qed
qed

lemma chain_drop: "block_chain f bs \<Longrightarrow> block_chain f (drop n bs)"
proof (induction n arbitrary: bs)
  case (Suc n)
  show ?case
  proof (cases bs)
    case (Cons x xs)
    then have "block_chain f xs" using Suc.prems by (cases xs) auto
    then show ?thesis using Suc.IH Cons by simp
  qed simp
qed simp

lemma skip_blocks_chain:
  assumes "block_chain (at_block b) bs" "in_table bs" "n \<le> length bs" "bs \<noteq> []"
  shows "skip_blocks b n (hd bs) = (if n < length bs then bs ! n else 0xFFFF)"
  using assms
proof (induction n arbitrary: bs)
  case 0
  then show ?case by (simp add: hd_conv_nth)
next
  case (Suc n)
  then obtain x xs where bs: "bs = x # xs" by (cases bs) auto
  have c: "block_chain (at_block b) xs" "in_table xs" using Suc.prems bs by (cases xs; simp add: in_table_def)+
  show ?case
  proof (cases "xs = []")
    case True
    then show ?thesis using next_in_chain [of b x xs] Suc.prems bs by auto
  next
    case False
    then show ?thesis using next_in_chain [of b x xs] Suc.IH [OF c _ False] Suc.prems bs by simp
  qed
qed

lemma file_pos_drop: "n \<le> length bs \<Longrightarrow> file_pos (drop n bs) p = file_pos bs (n * BlockSize + p)"
proof (induction n arbitrary: bs)
  case (Suc n)
  then obtain x xs where "bs = x # xs" by (cases bs) auto
  with Suc show ?case by (simp add: add.assoc)
qed simp

lemma file_pos_take: "p < n * BlockSize \<Longrightarrow> n \<le> length bs \<Longrightarrow> file_pos (take n bs) p = file_pos bs p"
proof (induction n arbitrary: bs p)
  case (Suc n)
  then obtain x xs where bs: "bs = x # xs" by (cases bs) auto
  show ?case
  proof (cases "p < BlockSize")
    case False
    then show ?thesis using Suc.IH [of "p - BlockSize" xs] Suc.prems bs by simp
  qed (simp add: bs)
qed simp

lemma rest_fits:
  assumes "off + n \<le> L * BlockSize" "off div BlockSize \<le> L"
  shows "off mod BlockSize + n \<le> (L - off div BlockSize) * BlockSize"
  using assms div_mult_mod_eq [of off 8192] unfolding BlockSize_def by linarith

lemma patched_drop:
  assumes "patched v (drop n bs) r buf v'" "distinct bs" "n \<le> length bs"
  shows "patched v bs (n * BlockSize + r) buf v'"
  unfolding patched_def
proof (intro conjI allI impI)
  fix p assume p: "p < length bs * BlockSize"
  show "v' (file_pos bs p) = (if n * BlockSize + r \<le> p \<and> p < n * BlockSize + r + length buf
      then buf ! (p - (n * BlockSize + r)) else v (file_pos bs p))"
  proof (cases "p < n * BlockSize")
    case True
    then have "file_pos (take n bs) p = file_pos bs p" "p < length (take n bs) * BlockSize"
      using assms(3) file_pos_take by simp_all
    then have "file_pos bs p \<in> block_bytes (take n bs)" using file_pos_in by metis
    then obtain k where k: "k \<in> set (take n bs)" "file_pos bs p \<in> {k * BlockSize..<(k + 1) * BlockSize}"
      by (auto simp: block_bytes_def)
    have "set (take n bs) \<inter> set (drop n bs) = {}" using assms(2) by (metis append_take_drop_id distinct_append)
    then have "file_pos bs p \<notin> block_bytes (drop n bs)" using k block_apart by blast
    then show ?thesis using assms(1) True by (simp add: patched_def)
  next
    case False
    define q where "q = p - n * BlockSize"
    have q: "p = n * BlockSize + q" "q < length (drop n bs) * BlockSize"
      using False p assms(3) by (auto simp: q_def diff_mult_distrib)
    have "v' (file_pos (drop n bs) q) = (if r \<le> q \<and> q < r + length buf then buf ! (q - r) else v (file_pos (drop n bs) q))"
      using assms(1) q(2) unfolding patched_def by blast
    then show ?thesis unfolding file_pos_drop [OF assms(3)] q(1) by simp
  qed
next
  fix a assume a: "a \<notin> block_bytes bs"
  have "set (drop n bs) \<subseteq> set bs" by (rule set_drop_subset)
  then have "a \<notin> block_bytes (drop n bs)" using a by (auto simp: block_bytes_def)
  then show "v' a = v a" using assms(1) by (simp add: patched_def)
qed

text \<open>An open card with a file handle on a file whose blocks are \<open>bs\<close>, positioned at \<open>off\<close>.\<close>

definition file_ready :: "nat \<Rightarrow> 'd card \<Rightarrow> 'd \<Rightarrow> file_handle \<Rightarrow> nat list \<Rightarrow> nat \<Rightarrow> bool" where
  "file_ready sz c d fh bs off \<longleftrightarrow>
     m_opened c \<and> m_fileHandle c = Some d \<and> fh_idx fh < MaxFiles \<and> fh_offset fh = int off \<and>
     bs \<noteq> [] \<and> m_firstBlock (m_files (cur_dir c) ! fh_idx fh) = hd bs \<and>
     block_chain (at_block (cur_bat c)) bs \<and> in_table bs \<and> distinct bs \<and> block_bytes bs \<subseteq> {..<sz}"

lemma in_table_length: "distinct bs \<Longrightarrow> in_table bs \<Longrightarrow> length bs \<le> 4082"
proof -
  assume "distinct bs" "in_table bs"
  then have "length bs = card (set bs)" "set bs \<subseteq> {5..4086}"
    by (auto simp: distinct_card in_table_def FSTBlocks_def BATSize_def)
  then show ?thesis using card_mono [of "{5..4086}" "set bs"] by simp
qed

lemma start_block_ready:
  assumes r: "file_ready sz c d fh bs off" and n: "off \<le> length bs * BlockSize"
  shows "pumpOpen c = (CARD_READY, c)" "fileFromHandle fh c = Some (fh_idx fh)"
    "start_block fh (fh_idx fh) c =
      (if drop (off div BlockSize) bs = [] then 0xFFFF else hd (drop (off div BlockSize) bs), off mod BlockSize)"
    "off div BlockSize \<le> length bs"
proof -
  note R = r [unfolded file_ready_def]
  show "pumpOpen c = (CARD_READY, c)" using R by (simp add: pumpOpen_def)
  show "fileFromHandle fh c = Some (fh_idx fh)"
    using R by (auto simp: fileFromHandle_def handle_ok_def getFile_no_def MaxFiles_def)
  show q: "off div BlockSize \<le> length bs" using n div_le_mono [OF n, of BlockSize] by (simp add: BlockSize_def)
  have l: "length bs \<le> 4082" using R in_table_length by blast
  then have "off < 4294967296" "off div BlockSize < 65536" using n q by (auto simp: BlockSize_def)
  then have e: "nat (int off mod 4294967296) = off" "off div BlockSize mod 65536 = off div BlockSize" by simp_all
  show "start_block fh (fh_idx fh) c =
      (if drop (off div BlockSize) bs = [] then 0xFFFF else hd (drop (off div BlockSize) bs), off mod BlockSize)"
    using R skip_blocks_chain [of "cur_bat c" bs "off div BlockSize"] q
    by (auto simp: start_block_def Let_def e hd_drop_conv_nth)
qed

lemma file_write_run:
  assumes "io_laws io view sz" and r: "file_ready sz c d fh bs off" and n: "off + length buf \<le> length bs * BlockSize"
  shows "\<exists>d'. fileWrite io fh buf c = Some ((CARD_READY, fh\<lparr>fh_offset := int (off + length buf)\<rparr>), c\<lparr>m_fileHandle := Some d'\<rparr>) \<and>
    patched (view d) bs off buf (view d')"
proof -
  have n': "off \<le> length bs * BlockSize" using n by simp
  note R = r [unfolded file_ready_def]
  note S = start_block_ready [OF r n']
  let ?q = "off div BlockSize"
  have l: "length bs \<le> 4082" using R in_table_length by blast
  have B: "0 < BlockSize" by (simp add: BlockSize_def)
  have rest: "off mod BlockSize + length buf \<le> length (drop ?q bs) * BlockSize"
    using rest_fits [OF n S(4)] by simp
  have t: "in_table (drop ?q bs)" using R by (auto simp: in_table_def dest: in_set_dropD)
  have sub: "block_bytes (drop ?q bs) \<subseteq> {..<sz}" using R set_drop_subset [of ?q bs] by (fastforce simp: block_bytes_def)
  obtain d' where d': "write_loop io (cur_bat c) buf (if drop ?q bs = [] then 0xFFFF else hd (drop ?q bs)) (off mod BlockSize) d = Some (CARD_READY, d')"
    "patched (view d) (drop ?q bs) (off mod BlockSize) buf (view d')"
    using write_loop_correct [OF assms(1) chain_drop t _ _ _ sub, of "cur_bat c" "off mod BlockSize" buf d] R rest B by auto
  have "patched (view d) bs off buf (view d')"
    using patched_drop [OF d'(2) _ S(4)] R by simp
  moreover have "wrap32 (fh_offset fh + int (length buf)) = int (off + length buf)"
    using R n l by (simp add: wrap32_def BlockSize_def)
  ultimately show ?thesis using S(1,2,3) R d'(1) by (auto simp: fileWrite_def)
qed

lemma file_read_run:
  assumes "io_laws io view sz" and r: "file_ready sz c d fh bs off" and n: "off + len \<le> length bs * BlockSize"
  shows "fileRead io fh len c =
    Some ((CARD_READY, map (\<lambda>p. view d (file_pos bs p)) [off..<off + len], fh\<lparr>fh_offset := int (off + len)\<rparr>), c)"
proof -
  have n': "off \<le> length bs * BlockSize" using n by simp
  note R = r [unfolded file_ready_def]
  note S = start_block_ready [OF r n']
  let ?q = "off div BlockSize"
  have l: "length bs \<le> 4082" using R in_table_length by blast
  have B: "0 < BlockSize" by (simp add: BlockSize_def)
  have rest: "off mod BlockSize + len \<le> length (drop ?q bs) * BlockSize"
    using rest_fits [OF n S(4)] by simp
  have t: "in_table (drop ?q bs)" using R by (auto simp: in_table_def dest: in_set_dropD)
  have sub: "block_bytes (drop ?q bs) \<subseteq> {..<sz}" using R set_drop_subset [of ?q bs] by (fastforce simp: block_bytes_def)
  have "map (\<lambda>p. view d (file_pos (drop ?q bs) p)) [off mod BlockSize..<off mod BlockSize + len] =
      map (\<lambda>p. view d (file_pos bs p)) [off..<off + len]"
    using file_pos_drop [OF S(4)] div_mult_mod_eq [of off BlockSize]
    by (intro nth_equalityI) (simp_all add: add.assoc [symmetric])
  then have rd: "read_loop io (cur_bat c) len [] (if drop ?q bs = [] then 0xFFFF else hd (drop ?q bs)) (off mod BlockSize) d =
      Some (CARD_READY, map (\<lambda>p. view d (file_pos bs p)) [off..<off + len])"
    using read_loop_correct [OF assms(1) chain_drop t _ _ sub, of "cur_bat c" "off mod BlockSize" len "[]" d] R rest B by simp
  have "wrap32 (fh_offset fh + int len) = int (off + len)" using R n l by (simp add: wrap32_def BlockSize_def)
  then show ?thesis using S(1,2,3) R rd by (auto simp: fileRead_def)
qed

text \<open>A write inside a file succeeds, advances the handle, and changes exactly the bytes
  \<open>[off, off + length buf)\<close> of that file on the host, whichever blocks hold them and however often
  the transfer crosses a block boundary; all other bytes of the image and the card's own
  structures are untouched.\<close>

theorem file_write_patches_file:
  assumes "io_laws io view sz" "file_ready sz c d fh bs off" "off + length buf \<le> length bs * BlockSize"
  shows "case fileWrite io fh buf c of None \<Rightarrow> False
    | Some ((r, fh'), c') \<Rightarrow> r = CARD_READY \<and> fh_idx fh' = fh_idx fh \<and> fh_offset fh' = int (off + length buf) \<and>
        m_dirs c' = m_dirs c \<and> m_bats c' = m_bats c \<and>
        (\<exists>d'. m_fileHandle c' = Some d' \<and> patched (view d) bs off buf (view d'))"
  using file_write_run [OF assms] by auto

text \<open>C10: reading back what was just written, from the position it was written at, returns it.\<close>

theorem file_write_read_roundtrip:
  assumes "io_laws io view sz" "file_ready sz c d fh bs off" "off + length buf \<le> length bs * BlockSize"
  shows "case fileWrite io fh buf c of None \<Rightarrow> False
    | Some ((r, fh'), c') \<Rightarrow> fileRead io (seek fh' (int off) SeekBegin c') (length buf) c' = Some ((CARD_READY, buf, fh'), c')"
proof -
  obtain d' where w: "fileWrite io fh buf c = Some ((CARD_READY, fh\<lparr>fh_offset := int (off + length buf)\<rparr>), c\<lparr>m_fileHandle := Some d'\<rparr>)"
    "patched (view d) bs off buf (view d')" using file_write_run [OF assms] by blast
  let ?c = "c\<lparr>m_fileHandle := Some d'\<rparr>" and ?fh = "fh\<lparr>fh_offset := int (off + length buf)\<rparr>"
  have f: "fileFromHandle ?fh ?c = Some (fh_idx fh)"
    using assms(2) by (auto simp: file_ready_def fileFromHandle_def handle_ok_def getFile_no_def MaxFiles_def)
  then have s: "seek ?fh (int off) SeekBegin ?c = fh\<lparr>fh_offset := int off\<rparr>" by (simp add: seek_def)
  have "file_ready sz ?c d' (fh\<lparr>fh_offset := int off\<rparr>) bs off" using assms(2) by (simp add: file_ready_def)
  moreover have "map (\<lambda>p. view d' (file_pos bs p)) [off..<off + length buf] = buf"
    using w(2) assms(3) by (intro nth_equalityI) (auto simp: patched_def)
  ultimately show ?thesis
    using file_read_run [OF assms(1), of ?c d' "fh\<lparr>fh_offset := int off\<rparr>" bs off "length buf"] assms(3) w(1) s by simp
qed

section \<open>The two generations\<close>

lemma bswap32_swap: "x < 4294967296 \<Longrightarrow> bswap32 (bswap32 x) = x"
proof -
  assume x: "x < 4294967296"
  have "bswap32 x mod 65536 = bswap16 (x div 65536)" "bswap32 x div 65536 = bswap16 (x mod 65536)"
    using bswap16_less [of "x div 65536"] by (simp_all add: bswap32_def)
  then show ?thesis using x by (simp add: bswap32_def bswap16_swap)
qed

definition file_ok :: "card_file \<Rightarrow> bool" where
  "file_ok f \<longleftrightarrow> m_modifiedTime f < 4294967296 \<and> m_iconAddress f < 4294967296 \<and> m_iconFmt f < 65536 \<and>
     m_animSpeed f < 65536 \<and> m_firstBlock f < 65536 \<and> m_blockCount f < 65536 \<and> m_reserved2 f < 65536 \<and>
     m_commentAddr f < 4294967296"

definition dir_ok :: "directory \<Rightarrow> bool" where
  "dir_ok d \<longleftrightarrow> (\<forall>f\<in>set (m_files d). file_ok f) \<and> dir_updateCounter d < 65536"

lemma file_swap_twice: "file_ok f \<Longrightarrow> file_swapEndian (file_swapEndian f) = f"
  by (simp add: file_swapEndian_def file_ok_def bswap16_swap bswap32_swap)

lemma dir_checksum_update:
  assumes "dir_ok d"
  shows "m_files (dir_updateChecksum d) = m_files d" "dir_updateCounter (dir_updateChecksum d) = dir_updateCounter d"
    "dir_valid (dir_updateChecksum d)"
proof -
  define s where "s = dir_swapEndian d"
  obtain ck ckInv where c: "calculateChecksumBE (dir_halfwords s) = (ck, ckInv)" by fastforce
  have lt: "ck < 65536" "ckInv < 65536"
    using c bswap16_less by (auto simp: calculateChecksumBE_def Let_def split: prod.splits if_splits)
  let ?s = "s\<lparr>dir_checksum := ck, dir_checksumInv := ckInv\<rparr>"
  have u: "dir_updateChecksum d = dir_swapEndian ?s" by (simp add: dir_updateChecksum_def s_def [symmetric] c)
  have files: "map file_swapEndian (map file_swapEndian (m_files d)) = m_files d"
    using assms by (simp add: dir_ok_def file_swap_twice map_idI)
  show "m_files (dir_updateChecksum d) = m_files d" "dir_updateCounter (dir_updateChecksum d) = dir_updateCounter d"
    unfolding u using files assms by (simp_all add: dir_swapEndian_def s_def bswap16_swap dir_ok_def)
  have "file_swapEndian (file_swapEndian (file_swapEndian f)) = file_swapEndian f" if "f \<in> set (m_files d)" for f
    using assms that by (simp add: dir_ok_def file_swap_twice)
  then have "dir_swapEndian (dir_swapEndian ?s) = ?s"
    using lt assms by (simp add: dir_swapEndian_def s_def bswap16_swap bswap16_less dir_ok_def)
  moreover have "dir_halfwords ?s = dir_halfwords s" by (simp add: dir_halfwords_def)
  ultimately show "dir_valid (dir_updateChecksum d)" unfolding dir_valid_def u using c by (simp add: Let_def)
qed

lemma bat_checksum_update:
  assumes "bat_ok b"
  shows "at_block (bat_updateChecksum b) = at_block b" "bat_updateCounter (bat_updateChecksum b) = bat_updateCounter b"
    "bat_freeBlocks (bat_updateChecksum b) = bat_freeBlocks b" "bat_valid (bat_updateChecksum b)"
proof -
  have w: "\<forall>d\<in>set (bat_words b). d < 65536" by (rule bat_words_less [OF assms])
  show "at_block (bat_updateChecksum b) = at_block b" "bat_updateCounter (bat_updateChecksum b) = bat_updateCounter b"
    "bat_freeBlocks (bat_updateChecksum b) = bat_freeBlocks b"
    by (simp_all add: bat_updateChecksum_def at_block_def fun_eq_iff split: prod.splits)
  have same: "bat_words (bat_updateChecksum b) = bat_words b"
    by (simp add: bat_updateChecksum_def bat_words_def split: prod.splits)
  have n: "norm16 x < 65536" for x by (simp add: norm16_def)
  show "bat_valid (bat_updateChecksum b)"
    unfolding bat_valid_def same by (simp add: bat_updateChecksum_def checksum_be [OF w] bswap16_swap n)
qed

lemma dir_ok_put:
  "dir_ok d \<Longrightarrow> file_ok f \<Longrightarrow> dir_ok (put_file i f d)"
  "dir_ok d \<Longrightarrow> file_ok f \<Longrightarrow> dir_ok ((put_file i f d)\<lparr>dir_updateCounter := k mod 65536\<rparr>)"
proof -
  assume "dir_ok d" "file_ok f"
  moreover have "set ((m_files d)[i := f]) \<subseteq> insert f (set (m_files d))" by (rule set_update_subset_insert)
  ultimately show "dir_ok (put_file i f d)" "dir_ok ((put_file i f d)\<lparr>dir_updateCounter := k mod 65536\<rparr>)"
    by (auto simp: dir_ok_def)
qed

text \<open>The byte order of the image and back.\<close>

lemma dir_checksum_swap:
  assumes "dir_ok d"
  shows "dir_swapEndian (dir_swapEndian (dir_updateChecksum d)) = dir_updateChecksum d" "dir_ok (dir_updateChecksum d)"
proof -
  define s where "s = dir_swapEndian d"
  obtain ck ckInv where c: "calculateChecksumBE (dir_halfwords s) = (ck, ckInv)" by fastforce
  have lt: "ck < 65536" "ckInv < 65536"
    using c bswap16_less by (auto simp: calculateChecksumBE_def Let_def split: prod.splits if_splits)
  let ?s = "s\<lparr>dir_checksum := ck, dir_checksumInv := ckInv\<rparr>"
  have u: "dir_updateChecksum d = dir_swapEndian ?s" by (simp add: dir_updateChecksum_def s_def [symmetric] c)
  have "file_swapEndian (file_swapEndian (file_swapEndian f)) = file_swapEndian f" if "f \<in> set (m_files d)" for f
    using assms that by (simp add: dir_ok_def file_swap_twice)
  then have "dir_swapEndian (dir_swapEndian ?s) = ?s"
    using lt assms by (simp add: dir_swapEndian_def s_def bswap16_swap bswap16_less dir_ok_def)
  then show "dir_swapEndian (dir_swapEndian (dir_updateChecksum d)) = dir_updateChecksum d" unfolding u by simp
  show "dir_ok (dir_updateChecksum d)" using dir_checksum_update(1,2) [OF assms] assms by (simp add: dir_ok_def)
qed

lemma bat_checksum_swap:
  assumes "bat_ok b"
  shows "bat_swapEndian (bat_swapEndian (bat_updateChecksum b)) = bat_updateChecksum b" "bat_ok (bat_updateChecksum b)"
proof -
  obtain ck ckInv where c: "calculateChecksumBE (map bswap16 (bat_words b)) = (ck, ckInv)" by fastforce
  have m: "(if 0 \<le> i \<and> i < int BATSize then bswap16 (if 0 \<le> i \<and> i < int BATSize then bswap16 (bat_map b i) else bat_map b i)
      else if 0 \<le> i \<and> i < int BATSize then bswap16 (bat_map b i) else bat_map b i) = bat_map b i" for i
    using assms by (simp add: bat_ok_def bswap16_swap)
  have f: "bswap16 (bswap16 (bswap16 x)) = bswap16 x" for x by (simp add: bswap16_swap bswap16_less)
  show "bat_swapEndian (bat_swapEndian (bat_updateChecksum b)) = bat_updateChecksum b"
    using assms m f by (simp add: bat_updateChecksum_def c bat_swapEndian_def bat_ok_def bswap16_swap fun_eq_iff cong: if_cong)
  show "bat_ok (bat_updateChecksum b)" using assms by (simp add: bat_updateChecksum_def c bat_ok_def)
qed

text \<open>
  The opening of a written card, of which a generation may have been replaced by something else on the
  medium: a damaged new generation gives way to the old one.
\<close>

lemma reopen_dir:
  assumes "x \<in> {0, 1 :: nat}" "y = 1 - x" "dir_valid (dirs x)" "dir_valid (dirs y) \<Longrightarrow> dir_updateCounter (dirs x) < dir_updateCounter (dirs y)"
    "r = repair dir_valid dirs"
  shows "r (if dir_updateCounter (r 0) > dir_updateCounter (r 1) then 0 else 1) = (if dir_valid (dirs y) then dirs y else dirs x)"
  using assms by (auto simp: repair_def)

lemma reopen_bat:
  assumes "x \<in> {0, 1 :: nat}" "y = 1 - x" "bat_valid (bats x)" "bat_valid (bats y) \<Longrightarrow> bat_updateCounter (bats x) < bat_updateCounter (bats y)"
    "r = repair bat_valid bats"
  shows "r (if bat_updateCounter (r 0) > bat_updateCounter (r 1) then 0 else 1) = (if bat_valid (bats y) then bats y else bats x)"
  using assms by (auto simp: repair_def)

text \<open>C11: an update of the directory and the block table writes the older generation of each and
  leaves the current one untouched, so an interrupted update loses nothing.  When the card is written to
  its image and opened again, the opening selects the new generation, with the new files and the new
  table, as long as the 16-bit update counters have not wrapped; and whatever garbage stands on the medium
  in the place of the new directory or of the new table, as long as its checksum is wrong the opening
  selects the previous one, unchanged.\<close>

theorem update_keeps_previous_generation:
  assumes "m_currentDir c \<in> {0, 1}" "m_currentBat c \<in> {0, 1}" "dir_ok dir" "bat_ok b" "dir_ok (cur_dir c)" "bat_ok (cur_bat c)"
    and "dir_updateCounter dir = dir_updateCounter (cur_dir c)" "bat_updateCounter b = bat_updateCounter (cur_bat c)"
    and "dir_updateCounter dir < 65535" "bat_updateCounter b < 65535" "m_fileHandle c \<noteq> None"
  shows "let c' = updateDirAndBat dir b c; w = written_back c' in
    m_dirs c' (m_currentDir c) = cur_dir c \<and> m_bats c' (m_currentBat c) = cur_bat c \<and> m_dirty c' \<and>
    (case pumpOpen w of (r, p) \<Rightarrow> r = CARD_READY \<and> m_files (cur_dir p) = m_files dir \<and>
       at_block (cur_bat p) = at_block b \<and> bat_freeBlocks (cur_bat p) = bat_freeBlocks b) \<and>
    (\<forall>g t. \<not> dir_valid (dir_swapEndian g) \<longrightarrow>
       (case pumpOpen (w\<lparr>m_dirs := (m_dirs w)(m_currentDir c' := g), m_bats := (m_bats w)(m_currentBat c' := t)\<rparr>) of
          (r, p) \<Rightarrow> r = CARD_READY \<and> m_files (cur_dir p) = m_files (cur_dir c))) \<and>
    (\<forall>g t. \<not> bat_valid (bat_swapEndian t) \<longrightarrow>
       (case pumpOpen (w\<lparr>m_dirs := (m_dirs w)(m_currentDir c' := g), m_bats := (m_bats w)(m_currentBat c' := t)\<rparr>) of
          (r, p) \<Rightarrow> r = CARD_READY \<and> at_block (cur_bat p) = at_block (cur_bat c) \<and> bat_freeBlocks (cur_bat p) = bat_freeBlocks (cur_bat c)))"
proof -
  define d where "d = dir_updateChecksum (dir\<lparr>dir_updateCounter := dir_updateCounter dir + 1\<rparr>)"
  define t' where "t' = bat_updateChecksum (b\<lparr>bat_updateCounter := bat_updateCounter b + 1\<rparr>)"
  have ok1: "dir_ok (dir\<lparr>dir_updateCounter := dir_updateCounter dir + 1\<rparr>)" "bat_ok (b\<lparr>bat_updateCounter := bat_updateCounter b + 1\<rparr>)"
    using assms(3,4,9,10) by (simp_all add: dir_ok_def bat_ok_def)
  have ok: "dir_ok d" "bat_ok t'" unfolding d_def t'_def by (rule dir_checksum_swap(2) [OF ok1(1)] bat_checksum_swap(2) [OF ok1(2)])+
  have d: "m_files d = m_files dir" "dir_updateCounter d = dir_updateCounter dir + 1"
    unfolding d_def using dir_checksum_update(1,2) [OF ok1(1)] by simp_all
  have t: "at_block t' = at_block b" "bat_freeBlocks t' = bat_freeBlocks b" "bat_updateCounter t' = bat_updateCounter b + 1"
    unfolding t'_def using bat_checksum_update(1-3) [OF ok1(2)] by (simp_all add: at_block_def fun_eq_iff)
  have m: "(dir_updateCounter dir + 1) mod 65536 = dir_updateCounter dir + 1"
    "(bat_updateCounter b + 1) mod 65536 = bat_updateCounter b + 1" using assms(9,10) by simp_all
  let ?c = "updateDirAndBat dir b c" and ?x = "m_currentDir c" and ?u = "m_currentBat c"
  let ?w = "written_back ?c"
  have sel: "m_currentDir ?c = 1 - ?x" "m_currentBat ?c = 1 - ?u" "m_dirty ?c" "m_fileHandle ?c = m_fileHandle c"
    "m_dirs ?c = (m_dirs c)(1 - ?x := d)" "m_bats ?c = (m_bats c)(1 - ?u := t')"
    unfolding updateDirAndBat_def Let_def m d_def [symmetric] t'_def [symmetric] by simp_all
  have ne: "1 - ?x \<noteq> ?x" "1 - ?u \<noteq> ?u" using assms(1,2) by auto
  define D where "D g = (\<lambda>i. dir_swapEndian (((m_dirs ?w)(1 - ?x := g)) i))" for g
  define T where "T g = (\<lambda>i. bat_swapEndian (((m_bats ?w)(1 - ?u := g)) i))" for g
  note cd = dir_checksum_update [OF assms(5)] and cb = bat_checksum_update [OF assms(6)]
  note nd = dir_checksum_update [OF ok(1)] and nb = bat_checksum_update [OF ok(2)]
  have Dx: "D g ?x = dir_updateChecksum (cur_dir c)" "D g (1 - ?x) = dir_swapEndian g" for g
    using ne dir_checksum_swap(1) [OF assms(5)] by (simp_all add: D_def written_back_def sel)
  have Tx: "T g ?u = bat_updateChecksum (cur_bat c)" "T g (1 - ?u) = bat_swapEndian g" for g
    using ne bat_checksum_swap(1) [OF assms(6)] by (simp_all add: T_def written_back_def sel)
  define R where "R g = repair dir_valid ((m_dirs ?w)(1 - ?x := g, 0 := D g 0, 1 := D g 1))" for g
  define S where "S g = repair bat_valid ((m_bats ?w)(1 - ?u := g, 0 := T g 0, 1 := T g 1))" for g
  define di where "di g = (if dir_updateCounter (R g 0) > dir_updateCounter (R g 1) then 0 else 1 :: nat)" for g
  define bi where "bi g = (if bat_updateCounter (S g 0) > bat_updateCounter (S g 1) then 0 else 1 :: nat)" for g
  have open_w: "\<exists>p. pumpOpen (?w\<lparr>m_dirs := (m_dirs ?w)(1 - ?x := g), m_bats := (m_bats ?w)(1 - ?u := t)\<rparr>) = (CARD_READY, p) \<and>
      cur_dir p = R g (di g) \<and> cur_bat p = S t (bi t)" for g t
    using assms(11) by (simp add: pumpOpen_def Let_def R_def S_def D_def T_def di_def bi_def written_back_def sel)
  have rd: "R g (di g) = (if dir_valid (dir_swapEndian g) then dir_swapEndian g else dir_updateChecksum (cur_dir c))"
    if "dir_valid (dir_swapEndian g) \<Longrightarrow> dir_updateCounter (cur_dir c) < dir_updateCounter (dir_swapEndian g)" for g
  proof -
    let ?dirs = "(m_dirs ?w)(1 - ?x := g, 0 := D g 0, 1 := D g 1)"
    have v: "?dirs ?x = dir_updateChecksum (cur_dir c)" "?dirs (1 - ?x) = dir_swapEndian g"
      using assms(1) Dx [of g] by auto
    show ?thesis using reopen_dir [OF assms(1) refl, of ?dirs, OF _ _ R_def] that cd v unfolding di_def by simp
  qed
  have rt: "S g (bi g) = (if bat_valid (bat_swapEndian g) then bat_swapEndian g else bat_updateChecksum (cur_bat c))"
    if "bat_valid (bat_swapEndian g) \<Longrightarrow> bat_updateCounter (cur_bat c) < bat_updateCounter (bat_swapEndian g)" for g
  proof -
    let ?bats = "(m_bats ?w)(1 - ?u := g, 0 := T g 0, 1 := T g 1)"
    have v: "?bats ?u = bat_updateChecksum (cur_bat c)" "?bats (1 - ?u) = bat_swapEndian g"
      using assms(2) Tx [of g] by auto
    show ?thesis using reopen_bat [OF assms(2) refl, of ?bats, OF _ _ S_def] that cb v unfolding bi_def by simp
  qed
  have whole: "?w\<lparr>m_dirs := (m_dirs ?w)(1 - ?x := m_dirs ?w (1 - ?x)), m_bats := (m_bats ?w)(1 - ?u := m_bats ?w (1 - ?u))\<rparr> = ?w" by simp
  have wd: "dir_swapEndian (m_dirs ?w (1 - ?x)) = dir_updateChecksum d" "bat_swapEndian (m_bats ?w (1 - ?u)) = bat_updateChecksum t'"
    using dir_checksum_swap(1) [OF ok(1)] bat_checksum_swap(1) [OF ok(2)] by (simp_all add: written_back_def sel)
  have new: "R (m_dirs ?w (1 - ?x)) (di (m_dirs ?w (1 - ?x))) = dir_updateChecksum d"
    "S (m_bats ?w (1 - ?u)) (bi (m_bats ?w (1 - ?u))) = bat_updateChecksum t'"
    using rd [where g = "m_dirs ?w (1 - ?x)"] rt [where g = "m_bats ?w (1 - ?u)"] nd nb d t assms(7,8) unfolding wd by simp_all
  obtain p where p: "pumpOpen ?w = (CARD_READY, p)" "cur_dir p = dir_updateChecksum d" "cur_bat p = bat_updateChecksum t'"
    using open_w [of "m_bats ?w (1 - ?u)" "m_dirs ?w (1 - ?x)"] unfolding whole new by blast
  have "m_dirs ?c ?x = cur_dir c" "m_bats ?c ?u = cur_bat c" using ne unfolding sel by auto
  moreover have "m_files (cur_dir p) = m_files dir" "at_block (cur_bat p) = at_block b" "bat_freeBlocks (cur_bat p) = bat_freeBlocks b"
    unfolding p using nd nb d t by simp_all
  moreover have "case pumpOpen (?w\<lparr>m_dirs := (m_dirs ?w)(1 - ?x := g), m_bats := (m_bats ?w)(1 - ?u := t)\<rparr>) of
      (r, p) \<Rightarrow> r = CARD_READY \<and> m_files (cur_dir p) = m_files (cur_dir c)" if "\<not> dir_valid (dir_swapEndian g)" for g t
    using open_w [of t g] rd [of g] that cd(1) by auto
  moreover have "case pumpOpen (?w\<lparr>m_dirs := (m_dirs ?w)(1 - ?x := g), m_bats := (m_bats ?w)(1 - ?u := t)\<rparr>) of
      (r, p) \<Rightarrow> r = CARD_READY \<and> at_block (cur_bat p) = at_block (cur_bat c) \<and> bat_freeBlocks (cur_bat p) = bat_freeBlocks (cur_bat c)"
    if "\<not> bat_valid (bat_swapEndian t)" for g t
    using open_w [of t g] rt [of t] that cb(1,3) by auto
  ultimately show ?thesis unfolding Let_def p(1) using sel(1,2,3) by simp
qed

section \<open>Deleting and renaming\<close>

lemma delete_loop_run:
  assumes "bs \<noteq> []" "block_chain (at_block b) bs" "in_table bs"
  shows "delete_loop (hd bs) b = Some ((set_block (last bs) 0 b)\<lparr>bat_freeBlocks := (bat_freeBlocks b + 1) mod 65536\<rparr>)"
  using assms
proof (induction bs)
  case (Cons x xs)
  have x: "x \<noteq> 0xFFFF" using Cons.prems(3) by (auto simp: in_table_def FSTBlocks_def BATSize_def)
  note clear = clear_run [of "x # xs", OF _ Cons.prems(2,3), of 1]
  show ?case
  proof (cases "xs = []")
    case True
    then show ?thesis
      using x clear next_in_chain [OF Cons.prems(2,3)]
      by (subst delete_loop.simps) (simp, subst delete_loop.simps, simp)
  next
    case False
    have "block_chain (at_block b) xs" "in_table xs" using Cons.prems False by (cases xs; simp add: in_table_def)+
    then show ?thesis
      using x clear next_in_chain [OF Cons.prems(2,3)] False Cons.IH
      by (subst delete_loop.simps) simp
  qed
qed simp

text \<open>C37: deleting a file gives back one block only: the loop asks to clear one block at a time, which
  the table refuses for every block but the last of the chain.  The other blocks stay allocated and
  belong to no file.\<close>

theorem delete_leaks_all_but_last_block:
  assumes "bs \<noteq> []" "block_chain (at_block (cur_bat c)) bs" "in_table bs"
    and "m_firstBlock (m_files (cur_dir c) ! i) = hd bs" "bat_ok (cur_bat c)"
  shows "case delete_and_update i c of None \<Rightarrow> False
    | Some c' \<Rightarrow> (\<forall>j. at_block (cur_bat c') j = (if j = last bs then 0 else at_block (cur_bat c) j)) \<and>
        bat_freeBlocks (cur_bat c') = (bat_freeBlocks (cur_bat c) + 1) mod 65536"
proof -
  let ?b = "(set_block (last bs) 0 (cur_bat c))\<lparr>bat_freeBlocks := (bat_freeBlocks (cur_bat c) + 1) mod 65536\<rparr>"
  let ?u = "?b\<lparr>bat_updateCounter := (bat_updateCounter ?b + 1) mod 65536\<rparr>"
  have ok: "bat_ok ?u" using assms(5) by (simp add: bat_ok_def set_block_def)
  have at: "at_block ?u j = (if j = last bs then 0 else at_block (cur_bat c) j)" for j
    using at_set_block [of "last bs" 0 "cur_bat c" j] by (simp add: at_block_def)
  have "delete_and_update i c = Some (updateDirAndBat (put_file i File_empty (cur_dir c)) ?b c)"
    using delete_loop_run [OF assms(1-3)] assms(4) by (simp add: delete_and_update_def deleteFile_at_def)
  then show ?thesis
    using bat_checksum_update(1,3) [OF ok] at by (simp add: updateDirAndBat_def Let_def)
qed

text \<open>Renaming a file to its own name succeeds and deletes it: the entry found under the new name
  is the file itself, it is emptied, and only its name is written back.\<close>

theorem rename_to_itself_deletes:
  assumes "m_opened c" "getFile_name (card_game c) (card_maker c) name (cur_dir c) = Some i" "length name \<le> 32"
    and "bs \<noteq> []" "block_chain (at_block (cur_bat c)) bs" "in_table bs" "m_firstBlock (m_files (cur_dir c) ! i) = hd bs"
    and "dir_ok (cur_dir c)"
  shows "case renameFile name name c of None \<Rightarrow> False
    | Some (r, c') \<Rightarrow> r = CARD_READY \<and> file_free (m_files (cur_dir c') ! i)"
proof -
  have i: "i < length (m_files (cur_dir c))" using find_index_SomeD(2) [OF assms(2) [unfolded getFile_name_def]] .
  let ?dir = "set_name i name (put_file i File_empty (cur_dir c))"
  let ?u = "?dir\<lparr>dir_updateCounter := (dir_updateCounter ?dir + 1) mod 65536\<rparr>"
  have "file_ok (File_empty\<lparr>m_filename := strncpy 32 name\<rparr>)" by (simp add: file_ok_def File_empty_def)
  then have "dir_ok (put_file i (File_empty\<lparr>m_filename := strncpy 32 name\<rparr>) (put_file i File_empty (cur_dir c)))"
    using assms(8) by (intro dir_ok_put) (simp_all add: file_ok_def File_empty_def)
  then have ok: "dir_ok ?u" using i by (simp add: set_name_def dir_ok_def)
  obtain b' where b': "deleteFile_at i (cur_dir c) (cur_bat c) = Some (put_file i File_empty (cur_dir c), b')"
    using delete_loop_run [OF assms(4-6)] assms(7) by (simp add: deleteFile_at_def)
  have "renameFile name name c = Some (CARD_READY, updateDirAndBat ?dir b' c)"
    using assms(1-3) b' by (simp add: renameFile_def with_open_def pumpOpen_def)
  moreover have "m_files (cur_dir (updateDirAndBat ?dir b' c)) = m_files ?dir"
    using dir_checksum_update(1) [OF ok] by (simp add: updateDirAndBat_def Let_def)
  ultimately show ?thesis using i by (simp add: set_name_def file_free_def File_empty_def)
qed

section \<open>Creating\<close>

lemma at_block_checksum: "at_block (bat_updateChecksum b) = at_block b"
  by (simp add: bat_updateChecksum_def at_block_def fun_eq_iff split: prod.splits)

lemma cstr_named:
  assumes "0 \<notin> set name"
  shows "cstr 32 (m_filename (File_named name)) = take 31 name"
proof -
  have "\<forall>c\<in>set (take 31 name). c \<noteq> 0" using assms by (metis in_set_takeD)
  then have "takeWhile (\<lambda>c. c \<noteq> 0) (take 31 name @ replicate (31 - length name) 0 @ [0]) = take 31 name"
    by (subst takeWhile_append2) (auto simp: takeWhile_eq_Nil_iff neq_Nil_conv hd_append)
  moreover have "m_filename (File_named name) = take 31 name @ replicate (31 - length name) 0 @ [0]"
    by (simp add: File_named_def strncpy_def)
  moreover have "length (take 31 name @ replicate (31 - length name) 0 @ [0]) = 32" by simp
  ultimately show ?thesis by (simp add: cstr_def)
qed

text \<open>The card accepts a new file of \<open>sz\<close> bytes.\<close>

definition can_create :: "bytes \<Rightarrow> nat \<Rightarrow> 'd card \<Rightarrow> bool" where
  "can_create name sz c \<longleftrightarrow>
     m_opened c \<and> 0 < sz \<and> length name \<le> 32 \<and> 0 \<notin> set name \<and>
     getFile_name (card_game c) (card_maker c) name (cur_dir c) = None \<and> hasFreeFile (cur_dir c) \<and> dir_ok (cur_dir c) \<and>
     \<not> (length (card_game c) = 4 \<and> card_game c ! 0 = 0xFF) \<and>
     (sz + 8191) div BlockSize < 65536 \<and> (sz + 8191) div BlockSize \<le> bat_freeBlocks (cur_bat c)"

definition block_limit :: "'d card \<Rightarrow> nat" where
  "block_limit c = min (u16_minus (u16_minus (m_maxBlock c) FSTBlocks) FSTBlocks) BATSize"

definition new_entry :: "nat \<Rightarrow> bytes \<Rightarrow> nat \<Rightarrow> nat \<Rightarrow> 'd card \<Rightarrow> card_file" where
  "new_entry now name block n c =
    (let f = File_named name;
         f = (if length (card_game c) = 4 then f\<lparr>m_game := card_game c\<rparr> else f);
         f = (if length (card_maker c) = 2 then f\<lparr>m_maker := card_maker c\<rparr> else f)
     in f\<lparr>m_modifiedTime := now mod 4294967296, m_firstBlock := block, m_blockCount := n\<rparr>)"

lemma new_entry_facts:
  "m_filename (new_entry now name block n c) = m_filename (File_named name)"
  "m_firstBlock (new_entry now name block n c) = block" "m_blockCount (new_entry now name block n c) = n"
  "length (card_game c) = 4 \<Longrightarrow> m_game (new_entry now name block n c) = card_game c"
  "length (card_maker c) = 2 \<Longrightarrow> m_maker (new_entry now name block n c) = card_maker c"
  "length (card_game c) \<noteq> 4 \<Longrightarrow> m_game (new_entry now name block n c) = replicate 4 0"
  "block < 65536 \<Longrightarrow> n < 65536 \<Longrightarrow> file_ok (new_entry now name block n c)"
  by (simp_all add: new_entry_def Let_def file_ok_def File_named_def)

lemma create_file_run:
  assumes "can_create name sz c" "(sz + 8191) div BlockSize \<le> card (free_in (block_limit c) (cur_bat c))"
    and "FSTBlocks \<le> bat_lastAllocated (cur_bat c) + 1" "bat_lastAllocated (cur_bat c) + 1 \<le> block_limit c"
  shows "\<exists>i bs c'. createFile now name sz c = ((CARD_READY, Some (FileHandle i)), c') \<and> m_opened c' \<and>
    card_game c' = card_game c \<and> card_maker c' = card_maker c \<and>
    i < length (m_files (cur_dir c)) \<and> file_free (m_files (cur_dir c) ! i) \<and>
    m_files (cur_dir c') = (m_files (cur_dir c))[i := new_entry now name (hd bs) ((sz + 8191) div BlockSize) c] \<and>
    bs \<noteq> [] \<and> length bs = (sz + 8191) div BlockSize \<and> distinct bs \<and> set bs \<subseteq> free_in (block_limit c) (cur_bat c) \<and>
    block_chain (at_block (cur_bat c')) bs \<and> (\<forall>j. j \<notin> set bs \<longrightarrow> at_block (cur_bat c') j = at_block (cur_bat c) j)"
proof -
  define n where "n = (sz + 8191) div BlockSize"
  note C = assms(1) [unfolded can_create_def n_def [symmetric]]
  have n: "0 < n" "n mod 65536 = n" "0 < bat_freeBlocks (cur_bat c)"
    using C by (auto simp: n_def BlockSize_def div_greater_zero_iff)
  obtain i where i: "find_index file_free 0 (m_files (cur_dir c)) = Some i"
    using C by (auto simp: hasFreeFile_index)
  note I = find_index_SomeD [OF i]
  obtain block b where ab: "allocateBlocks n (u16_minus (m_maxBlock c) FSTBlocks) (cur_bat c) = (block, b)" by fastforce
  obtain bs where B: "bs \<noteq> []" "block = hd bs" "length bs = n" "distinct bs" "set bs \<subseteq> free_in (block_limit c) (cur_bat c)"
    "block_chain (at_block b) bs" "\<forall>j. j \<notin> set bs \<longrightarrow> at_block b j = at_block (cur_bat c) j"
    using allocate_run [OF n(3,1) block_limit_def assms(3,4)] assms(2) ab by (auto simp: n_def [symmetric])
  have "hd bs \<in> free_in (block_limit c) (cur_bat c)" using B(1,5) by auto
  then have hd16: "hd bs < 65535" by (auto simp: free_in_def block_limit_def BATSize_def)
  define dir where "dir = put_file i (new_entry now name (hd bs) n c) (cur_dir c)"
  have ok: "dir_ok (dir\<lparr>dir_updateCounter := (dir_updateCounter dir + 1) mod 65536\<rparr>)"
    using C hd16 unfolding dir_def by (intro dir_ok_put new_entry_facts(7)) auto
  have "createFile now name sz c = ((CARD_READY, Some (FileHandle i)), updateDirAndBat dir b c)"
    using C n(1,2) ab B(2) hd16 I(2) i
    by (auto simp: createFile_def pumpOpen_def n_def [symmetric] Let_def getFirstFreeFile_def dir_def new_entry_def put_file_def)
  moreover have "m_files (cur_dir (updateDirAndBat dir b c)) = m_files dir"
    "at_block (cur_bat (updateDirAndBat dir b c)) = at_block b"
    using dir_checksum_update(1) [OF ok] by (simp_all add: updateDirAndBat_def Let_def at_block_checksum)
      (simp add: at_block_def fun_eq_iff)
  ultimately show ?thesis
    using B I C unfolding n_def [symmetric]
    by (intro exI [of _ i] exI [of _ bs] exI [of _ "updateDirAndBat dir b c"])
      (simp add: dir_def updateDirAndBat_def Let_def)
qed

lemma find_index_update:
  assumes "find_index P 0 xs = None" "i < length xs"
  shows "find_index P 0 (xs[i := x]) = (if P x then Some i else None)"
proof (cases "P x")
  case True
  have none: "\<forall>j < length xs. \<not> P (xs ! j)" using assms(1) by (simp add: find_index_None)
  show ?thesis
  proof (cases "find_index P 0 (xs[i := x])")
    case None
    then show ?thesis using True assms(2) by (auto simp: find_index_None)
  next
    case (Some j)
    have "j = i" using find_index_SomeD(2,3) [OF Some] none by (cases "j = i") simp_all
    then show ?thesis using Some True by simp
  qed
next
  case False
  then show ?thesis using assms by (auto simp: find_index_None nth_list_update)
qed

lemma open_after_create:
  assumes "can_create name sz c" "m_opened c'" "card_game c' = card_game c" "card_maker c' = card_maker c"
    and "i < length (m_files (cur_dir c))" "m_files (cur_dir c') = (m_files (cur_dir c))[i := new_entry now name block n c]"
  shows "openFile_name name c' =
    (if length name \<le> 31 then (CARD_READY, Some (FileHandle i)) else (NOFILE, Some null_handle), c')"
proof -
  let ?f = "new_entry now name block n c"
  note C = assms(1) [unfolded can_create_def]
  have zero: "0 \<notin> set name" and len: "length name \<le> 32" using C by simp_all
  have cs: "cstr 32 (m_filename ?f) = take 31 name" using cstr_named [OF zero] by (simp add: new_entry_facts(1))
  have "name_matches (card_game c) (card_maker c) name ?f \<longleftrightarrow> take 31 name = take 32 name"
    using new_entry_facts(4,5) [of c] by (auto simp: name_matches_def cs)
  also have "take 31 name = take 32 name \<longleftrightarrow> length name \<le> 31"
  proof
    assume "take 31 name = take 32 name"
    then have "min (length name) 31 = min (length name) 32" by (metis length_take)
    then show "length name \<le> 31" using len by simp
  qed simp
  finally have m: "name_matches (card_game c) (card_maker c) name ?f \<longleftrightarrow> length name \<le> 31" .
  have "find_index (name_matches (card_game c) (card_maker c) name) 0 (m_files (cur_dir c)) = None"
    using C by (simp add: getFile_name_def)
  from find_index_update [OF this assms(5), of ?f]
  have g: "getFile_name (card_game c') (card_maker c') name (cur_dir c') = (if length name \<le> 31 then Some i else None)"
    by (simp add: getFile_name_def assms(3,4,6) m)
  have nf: "\<not> file_free (m_files (cur_dir c') ! i)"
    using C assms(5,6) new_entry_facts(4,6) [of c] by (cases "length (card_game c) = 4") (simp_all add: file_free_def)
  show ?thesis
    unfolding openFile_name_def pumpOpen_def using assms(2) by (simp add: g nf)
qed

text \<open>C32: creating a file whose name has at most 31 bytes on a card with room succeeds; the entry it
  fills was free and every other entry is kept; the file owns a chain of exactly the blocks its size
  needs, all of them free before; no other table entry changes; and opening the card by that name
  returns the same handle.\<close>

theorem create_file_correct:
  assumes "can_create name sz c" "(sz + 8191) div BlockSize \<le> card (free_in (block_limit c) (cur_bat c))"
    and "FSTBlocks \<le> bat_lastAllocated (cur_bat c) + 1" "bat_lastAllocated (cur_bat c) + 1 \<le> block_limit c"
    and "length name \<le> 31"
  shows "\<exists>i bs c'. createFile now name sz c = ((CARD_READY, Some (FileHandle i)), c') \<and>
    openFile_name name c' = ((CARD_READY, Some (FileHandle i)), c') \<and>
    file_free (m_files (cur_dir c) ! i) \<and>
    (\<exists>f. m_files (cur_dir c') = (m_files (cur_dir c))[i := f] \<and> m_firstBlock f = hd bs \<and> m_blockCount f = length bs) \<and>
    bs \<noteq> [] \<and> length bs = (sz + 8191) div BlockSize \<and> distinct bs \<and> set bs \<subseteq> free_in (block_limit c) (cur_bat c) \<and>
    block_chain (at_block (cur_bat c')) bs \<and> (\<forall>j. \<not> (j \<notin> set bs \<and> at_block (cur_bat c') j \<noteq> at_block (cur_bat c) j))"
proof -
  obtain i bs c' where R: "createFile now name sz c = ((CARD_READY, Some (FileHandle i)), c')" "m_opened c'"
    "card_game c' = card_game c" "card_maker c' = card_maker c" "i < length (m_files (cur_dir c))"
    "file_free (m_files (cur_dir c) ! i)"
    "m_files (cur_dir c') = (m_files (cur_dir c))[i := new_entry now name (hd bs) ((sz + 8191) div BlockSize) c]"
    "bs \<noteq> []" "length bs = (sz + 8191) div BlockSize" "distinct bs" "set bs \<subseteq> free_in (block_limit c) (cur_bat c)"
    "block_chain (at_block (cur_bat c')) bs" "\<forall>j. j \<notin> set bs \<longrightarrow> at_block (cur_bat c') j = at_block (cur_bat c) j"
    using create_file_run [OF assms(1-4)] by blast
  moreover have "openFile_name name c' = ((CARD_READY, Some (FileHandle i)), c')"
    using open_after_create [OF assms(1) R(2-5,7)] assms(5) by simp
  ultimately show ?thesis
    using new_entry_facts(2,3) [of now name "hd bs" "(sz + 8191) div BlockSize" c] by metis
qed

text \<open>A name of exactly 32 bytes passes the length check and the file is created, but its entry
  keeps only 31 bytes of the name, so opening the card by the same name does not find it.\<close>

theorem longest_name_is_lost:
  assumes "can_create name sz c" "(sz + 8191) div BlockSize \<le> card (free_in (block_limit c) (cur_bat c))"
    and "FSTBlocks \<le> bat_lastAllocated (cur_bat c) + 1" "bat_lastAllocated (cur_bat c) + 1 \<le> block_limit c"
    and "length name = 32"
  shows "\<exists>i c'. createFile now name sz c = ((CARD_READY, Some (FileHandle i)), c') \<and>
    openFile_name name c' = ((NOFILE, Some null_handle), c')"
proof -
  obtain i bs c' where R: "createFile now name sz c = ((CARD_READY, Some (FileHandle i)), c')" "m_opened c'"
    "card_game c' = card_game c" "card_maker c' = card_maker c" "i < length (m_files (cur_dir c))"
    "m_files (cur_dir c') = (m_files (cur_dir c))[i := new_entry now name (hd bs) ((sz + 8191) div BlockSize) c]"
    using create_file_run [OF assms(1-4)] by blast
  then show ?thesis using open_after_create [OF assms(1) R(2-6)] assms(5) by auto
qed

text \<open>A freshly formatted card of 4 Mbit (64 blocks) reports 59 free blocks, but only 49 can ever
  be allocated: the five system blocks are subtracted once by the caller and once more by the
  allocator, from a limit that is already an absolute block number.\<close>

theorem fresh_card_reports_more_than_it_has:
  "bat_freeBlocks (BlockAllocationTable 64) = 59 \<and>
   card (free_in (u16_minus (u16_minus 64 FSTBlocks) FSTBlocks) (BlockAllocationTable 64)) = 49 \<and>
   fst (allocateBlocks 49 (u16_minus 64 FSTBlocks) (BlockAllocationTable 64)) \<noteq> 0xFFFF \<and>
   fst (allocateBlocks 50 (u16_minus 64 FSTBlocks) (BlockAllocationTable 64)) = 0xFFFF"
proof -
  let ?b = "BlockAllocationTable 64"
  have at: "at_block ?b k = 0" for k
    by (simp add: BlockAllocationTable_def at_block_checksum) (simp add: at_block_def)
  have f: "bat_freeBlocks ?b = 59" "bat_lastAllocated ?b = 4"
    by (simp_all add: BlockAllocationTable_def bat_updateChecksum_def FSTBlocks_def split: prod.splits)
  have l: "u16_minus (u16_minus 64 FSTBlocks) FSTBlocks = 54" by (simp add: u16_minus_def FSTBlocks_def)
  have "free_in 54 ?b = {5..<54}" using at by (auto simp: free_in_def FSTBlocks_def)
  then have c: "card (free_in 54 ?b) = 49" by simp
  have m: "(54 :: nat) = min (u16_minus (u16_minus 64 FSTBlocks) FSTBlocks) BATSize" by (simp add: l BATSize_def)
  have less: "bs \<noteq> [] \<Longrightarrow> set bs \<subseteq> free_in 54 ?b \<Longrightarrow> hd bs \<noteq> 65535" for bs by (cases bs) (auto simp: free_in_def)
  have s: "0 < bat_freeBlocks ?b" "(0 :: nat) < 49" "(0 :: nat) < 50" "FSTBlocks \<le> bat_lastAllocated ?b + 1"
    "bat_lastAllocated ?b + 1 \<le> 54" by (simp_all add: f FSTBlocks_def)
  have "fst (allocateBlocks 49 (u16_minus 64 FSTBlocks) ?b) \<noteq> 0xFFFF"
    using allocate_run [OF s(1,2) m s(4,5)] less by (auto simp: c)
  moreover have "fst (allocateBlocks 50 (u16_minus 64 FSTBlocks) ?b) = 0xFFFF"
    using allocate_run [OF s(1,3) m s(4,5)] by (auto simp: c)
  ultimately show ?thesis by (simp add: f l c)
qed

section \<open>A concrete card\<close>

text \<open>A host file of bytes, and a card of 64 blocks with one file of two blocks.\<close>

definition demo_io :: "(nat \<Rightarrow> nat) host_io" where
  "demo_io = \<lparr>io_read = (\<lambda>n off d. Some (map d [off..<off + n])),
     io_write = (\<lambda>bs off d. Some (\<lambda>a. if off \<le> a \<and> a < off + length bs then bs ! (a - off) else d a))\<rparr>"

definition demo_dir :: directory where
  "demo_dir = \<lparr>m_files = (File_named [65, 66])\<lparr>m_firstBlock := 5, m_blockCount := 2\<rparr> # replicate 126 File_empty,
     dir_padding = [], dir_updateCounter = 3, dir_checksum = 0, dir_checksumInv = 0\<rparr>"

definition demo_table :: bat where
  "demo_table = set_block 5 6 (set_block 6 0xFFFF demo_bat)"

definition demo_card :: "(nat \<Rightarrow> nat) card" where
  "demo_card = \<lparr>m_fileHandle = Some (\<lambda>_. 0), m_sizeMb = 4, m_dirs = (\<lambda>_. demo_dir), m_bats = (\<lambda>_. demo_table),
     m_currentDir = 0, m_currentBat = 1, m_maxBlock = 64, card_game = [], card_maker = [], m_dirty = False, m_opened = True\<rparr>"

lemma demo_io_laws: "io_laws demo_io id sz"
  by (auto simp: io_laws_def demo_io_def)

lemma demo_table_facts:
  "block_chain (at_block demo_table) [5, 6]" "in_table [5, 6]" "bat_ok demo_table" "bat_freeBlocks demo_table = 59"
  "bat_lastAllocated demo_table = 4" "bat_updateCounter demo_table = 0" "{8..<20} \<subseteq> free_in 54 demo_table"
  by (auto simp: demo_table_def in_table_def FSTBlocks_def BATSize_def bat_ok_def demo_bat_def set_block_def free_in_def at_block_def)

lemma demo_dir_facts:
  "dir_ok demo_dir" "dir_updateCounter demo_dir = 3" "m_firstBlock (m_files demo_dir ! 0) = 5" "hasFreeFile demo_dir"
  "getFile_name [] [] [65, 66] demo_dir = Some 0"
proof -
  show "dir_ok demo_dir" by (simp add: dir_ok_def demo_dir_def file_ok_def File_named_def File_empty_def)
  show "dir_updateCounter demo_dir = 3" "m_firstBlock (m_files demo_dir ! 0) = 5" "hasFreeFile demo_dir"
    by (simp_all add: demo_dir_def hasFreeFile_def list_ex_iff file_free_def File_empty_def)
  have "name_matches [] [] [65, 66] (m_files demo_dir ! 0)"
    using cstr_named [of "[65, 66]"] by (simp add: name_matches_def demo_dir_def)
  moreover have "[0..<length (m_files demo_dir)] = 0 # [1..<127]" by (simp add: demo_dir_def upt_conv_Cons)
  ultimately show "getFile_name [] [] [65, 66] demo_dir = Some 0" by (simp add: getFile_name_def find_index_def)
qed

lemma demo_no_name:
  assumes "name \<noteq> []" "take 32 name \<noteq> [65, 66]" "take 32 name \<noteq> replicate 32 255"
  shows "getFile_name [] [] name demo_dir = None"
proof -
  have "cstr 32 (m_filename (m_files demo_dir ! i)) = (if i = 0 then [65, 66] else replicate 32 255)" if "i < 127" for i
    using that cstr_named [of "[65, 66]"] by (cases i) (simp_all add: demo_dir_def File_empty_def cstr_def takeWhile_eq_all_conv)
  then show ?thesis
    using assms by (auto simp: getFile_name_def find_index_None name_matches_def) (simp add: demo_dir_def split: if_splits)
qed

lemma demo_ready: "file_ready 100000 demo_card (\<lambda>_. 0) \<lparr>fh_idx = 0, fh_offset = 8190\<rparr> [5, 6] 8190"
  using demo_table_facts(1,2) demo_dir_facts(3)
  by (auto simp: file_ready_def demo_card_def MaxFiles_def block_bytes_def BlockSize_def)

lemma demo_room: "2 \<le> card (free_in 54 demo_table)"
  using card_mono [OF finite_free_in demo_table_facts(7)] by simp

lemma demo_card_create:
  assumes "name \<noteq> []" "take 32 name \<noteq> [65, 66]" "length name \<le> 32" "0 \<notin> set name" "name ! 0 \<noteq> 255"
  shows "can_create name 9000 demo_card" "block_limit demo_card = 54"
proof -
  have "take 32 name \<noteq> replicate 32 255" using assms(1,5) by (cases name) (auto simp: numeral_eq_Suc)
  then have "getFile_name [] [] name demo_dir = None" using assms(1,2) demo_no_name by blast
  then show "can_create name 9000 demo_card"
    using assms(3,4) demo_dir_facts demo_table_facts by (simp add: can_create_def demo_card_def BlockSize_def)
  show "block_limit demo_card = 54" by (simp add: block_limit_def demo_card_def u16_minus_def FSTBlocks_def BATSize_def)
qed

lemma file_write_patches_file_witness:
  "case fileWrite demo_io \<lparr>fh_idx = 0, fh_offset = 8190\<rparr> [1, 2, 3, 4] demo_card of None \<Rightarrow> False
   | Some ((r, fh'), c') \<Rightarrow> r = CARD_READY \<and> fh_offset fh' = 8194"
  using file_write_patches_file [OF demo_io_laws demo_ready, of "[1, 2, 3, 4]"]
  by (auto simp: BlockSize_def split: option.splits)

lemma file_write_read_roundtrip_witness:
  "case fileWrite demo_io \<lparr>fh_idx = 0, fh_offset = 8190\<rparr> [1, 2, 3, 4] demo_card of None \<Rightarrow> False
   | Some ((r, fh'), c') \<Rightarrow> fileRead demo_io (seek fh' 8190 SeekBegin c') (length [1, 2, 3, 4 :: nat]) c' = Some ((CARD_READY, [1, 2, 3, 4], fh'), c')"
  using file_write_read_roundtrip [OF demo_io_laws demo_ready, of "[1, 2, 3, 4]"]
  by (auto simp: BlockSize_def split: option.splits)

lemma update_keeps_previous_generation_witness:
  "case pumpOpen (written_back (updateDirAndBat demo_dir (set_block 7 0xFFFF demo_table) demo_card)) of
     (r, p) \<Rightarrow> r = CARD_READY \<and> at_block (cur_bat p) 7 = 0xFFFF \<and> m_files (cur_dir p) = m_files demo_dir"
proof -
  have ok: "bat_ok (set_block 7 0xFFFF demo_table)" "bat_updateCounter (set_block 7 0xFFFF demo_table) = 0"
    using demo_table_facts(3,6) by (simp_all add: bat_ok_def set_block_def)
  have a: "at_block (set_block 7 0xFFFF demo_table) 7 = 0xFFFF" by (simp add: at_block_def set_block_def)
  show ?thesis
    using update_keeps_previous_generation [of demo_card demo_dir "set_block 7 0xFFFF demo_table"] demo_dir_facts demo_table_facts ok a
    by (simp add: demo_card_def Let_def split: prod.splits)
qed

lemma delete_leaks_all_but_last_block_witness:
  "case delete_and_update 0 demo_card of None \<Rightarrow> False
   | Some c' \<Rightarrow> at_block (cur_bat c') 5 = 6 \<and> at_block (cur_bat c') 6 = 0 \<and> bat_freeBlocks (cur_bat c') = 60"
  using delete_leaks_all_but_last_block [of "[5, 6]" demo_card 0] demo_dir_facts demo_table_facts
  by (simp add: demo_card_def split: option.splits)

lemma rename_to_itself_deletes_witness:
  "case renameFile [65, 66] [65, 66] demo_card of None \<Rightarrow> False
   | Some (r, c') \<Rightarrow> r = CARD_READY \<and> file_free (m_files (cur_dir c') ! 0)"
  by (rule rename_to_itself_deletes [of _ _ _ "[5, 6]"])
    (use demo_dir_facts demo_table_facts in \<open>simp_all add: demo_card_def\<close>)

lemma create_file_correct_witness:
  "\<exists>i bs c'. createFile 7 [67] 9000 demo_card = ((CARD_READY, Some (FileHandle i)), c') \<and> length bs = 2 \<and>
     openFile_name [67] c' = ((CARD_READY, Some (FileHandle i)), c') \<and> block_chain (at_block (cur_bat c')) bs"
  using create_file_correct [OF demo_card_create(1), of "[67]" 7] demo_card_create(2) [of "[67]"] demo_room demo_table_facts(5)
  by (simp add: demo_card_def BlockSize_def FSTBlocks_def) blast

lemma longest_name_is_lost_witness:
  "\<exists>i c'. createFile 7 (replicate 32 70) 9000 demo_card = ((CARD_READY, Some (FileHandle i)), c') \<and>
     openFile_name (replicate 32 70) c' = ((NOFILE, Some null_handle), c')"
proof -
  let ?n = "replicate 32 (70 :: nat)"
  have n: "?n \<noteq> []" "length ?n = 32" "length ?n \<le> 32" "?n ! 0 \<noteq> 255" "0 \<notin> set ?n" by simp_all
  have "length (take 32 ?n) \<noteq> length [65, 66 :: nat]" by simp
  then have t: "take 32 ?n \<noteq> [65, 66]" by metis
  have c: "(9000 + 8191) div BlockSize = (2 :: nat)" "cur_bat demo_card = demo_table" by (simp_all add: BlockSize_def demo_card_def)
  note D = demo_card_create [OF n(1) t n(3,5,4)]
  show ?thesis
    by (rule longest_name_is_lost [OF D(1)])
      (simp_all only: D(2) c demo_room demo_table_facts(5) n(2), simp_all add: FSTBlocks_def)
qed

end
