(* ===== verification/CardStep.thy ===== *)
theory CardStep
  imports CardCorrect
begin

text \<open>
  The memory card as a state machine: one step is one call of an operation that changes the open card.
  The invariant is that the files own pairwise disjoint, well-formed chains of blocks and that every
  field is within its width; every operation keeps it, and under it every deletion and rename returns.
\<close>

section \<open>Chains and their owners\<close>

definition file_blocks :: "bat \<Rightarrow> card_file \<Rightarrow> nat list \<Rightarrow> bool" where
  "file_blocks b f bs \<longleftrightarrow>
     (if m_firstBlock f = 0xFFFF then bs = []
      else bs \<noteq> [] \<and> hd bs = m_firstBlock f \<and> block_chain (at_block b) bs \<and> in_table bs)"

definition owns :: "bat \<Rightarrow> card_file list \<Rightarrow> nat list list \<Rightarrow> bool" where
  "owns b fs cs \<longleftrightarrow> list_all2 (file_blocks b) fs cs \<and> distinct (concat cs)"

definition card_inv :: "'d card \<Rightarrow> bool" where
  "card_inv c \<longleftrightarrow>
     m_opened c \<and> dir_ok (cur_dir c) \<and> 10 \<le> m_maxBlock c \<and> m_maxBlock c \<le> 4096 \<and>
     4 \<le> bat_lastAllocated (cur_bat c) \<and> bat_lastAllocated (cur_bat c) < block_limit c \<and>
     (\<exists>cs. owns (cur_bat c) (m_files (cur_dir c)) cs)"

lemma chain_nonzero:
  assumes "block_chain g bs" "in_table bs" "k \<in> set bs"
  shows "g k \<noteq> 0"
  using assms
proof (induction g bs rule: block_chain.induct)
  case (3 g x y zs)
  have "y \<noteq> 0" using 3(3) by (auto simp: in_table_def FSTBlocks_def)
  then show ?case using 3 by (auto simp: in_table_def)
qed auto

lemma file_blocks_cong:
  "(\<And>k. k \<in> set bs \<Longrightarrow> at_block b' k = at_block b k) \<Longrightarrow> m_firstBlock f' = m_firstBlock f \<Longrightarrow>
    file_blocks b' f' bs = file_blocks b f bs"
  using block_chain_cong [of bs "at_block b'" "at_block b"] by (simp add: file_blocks_def)

lemma distinct_concat_update:
  assumes "distinct (concat cs)" "distinct bs" "set bs \<inter> set (concat cs) = {}"
  shows "distinct (concat (cs[i := bs]))"
  using assms
proof (induction cs arbitrary: i)
  case (Cons c cs)
  show ?case
  proof (cases i)
    case (Suc j)
    have "set (cs[j := bs]) \<subseteq> insert bs (set cs)" by (rule set_update_subset_insert)
    then have "set (concat (cs[j := bs])) \<subseteq> set bs \<union> set (concat cs)" by auto
    then have s: "set (concat (cs[j := bs])) \<subseteq> set bs \<union> set (concat cs)" .
    have p: "distinct (concat cs)" "set c \<inter> set (concat cs) = {}" "distinct c" "set bs \<inter> set (concat cs) = {}"
      "set c \<inter> set bs = {}" using Cons.prems by (auto simp del: set_concat)
    have "distinct (concat (cs[j := bs]))" using Cons.IH [OF p(1) Cons.prems(2) p(4)] .
    moreover have "set c \<inter> set (concat (cs[j := bs])) = {}" using s p(2,5) by blast
    ultimately show ?thesis using Suc p(3) by (simp only: list_update.simps nat.case concat.simps distinct_append)
  qed (use Cons in auto)
qed simp

lemma distinct_concat_apart:
  assumes "distinct (concat cs)" "i < length cs" "j < length cs" "i \<noteq> j"
  shows "set (cs ! i) \<inter> set (cs ! j) = {}"
  using assms
proof (induction cs arbitrary: i j)
  case (Cons c cs)
  have "set (cs ! k) \<subseteq> set (concat cs)" if "k < length cs" for k using nth_mem [OF that] by auto
  then have s: "set c \<inter> set (cs ! k) = {}" if "k < length cs" for k using Cons.prems(1) that by fastforce
  then show ?case using Cons s by (cases i; cases j) (simp_all add: Int_commute)
qed simp

text \<open>Replacing one entry together with its chain, when the other chains keep their table entries.\<close>

lemma owns_replace:
  assumes "owns b fs cs" "i < length fs" "file_blocks b' f bs" "distinct bs"
    and keep: "\<And>j k. j < length fs \<Longrightarrow> j \<noteq> i \<Longrightarrow> k \<in> set (cs ! j) \<Longrightarrow> at_block b' k = at_block b k"
    and "set bs \<inter> set (concat cs) = {}"
  shows "owns b' (fs[i := f]) (cs[i := bs])"
  unfolding owns_def
proof
  have o: "list_all2 (file_blocks b) fs cs" "distinct (concat cs)" using assms(1) by (simp_all add: owns_def)
  show "distinct (concat (cs[i := bs]))" using distinct_concat_update [OF o(2) assms(4,6)] .
  show "list_all2 (file_blocks b') (fs[i := f]) (cs[i := bs])"
    unfolding list_all2_conv_all_nth
  proof (intro conjI allI impI)
    show "length (fs[i := f]) = length (cs[i := bs])" using list_all2_lengthD [OF o(1)] by simp
    fix j assume j: "j < length (fs[i := f])"
    show "file_blocks b' (fs[i := f] ! j) (cs[i := bs] ! j)"
    proof (cases "j = i")
      case True
      then show ?thesis using assms(2,3) list_all2_lengthD [OF o(1)] by simp
    next
      case False
      have "file_blocks b (fs ! j) (cs ! j)" using list_all2_nthD [OF o(1)] j by simp
      then show ?thesis using False file_blocks_cong [of "cs ! j" b' b "fs ! j" "fs ! j"] keep [of j] j by simp
    qed
  qed
qed

lemma owns_same_first:
  assumes "owns b fs cs" "m_firstBlock f = m_firstBlock (fs ! i)"
  shows "owns b (fs[i := f]) cs"
proof (cases "i < length fs")
  case True
  have "file_blocks b (fs[i := f] ! j) (cs ! j)" if "j < length fs" for j
    using assms that list_all2_nthD [of "file_blocks b" fs cs j] file_blocks_cong [of "cs ! j" b b f "fs ! i"]
    by (cases "j = i") (auto simp: owns_def)
  then show ?thesis using assms(1) by (auto simp: owns_def list_all2_conv_all_nth)
qed (use assms list_update_beyond [of fs i f] in simp)

lemma owns_table_cong: "(\<And>k. at_block b' k = at_block b k) \<Longrightarrow> owns b' fs cs = owns b fs cs"
  using file_blocks_cong [of _ b' b] unfolding owns_def by (simp add: list_all2_conv_all_nth)

section \<open>Every operation keeps the invariant\<close>

lemma lastAllocated_checksum [simp]: "bat_lastAllocated (bat_updateChecksum b) = bat_lastAllocated b"
  by (simp add: bat_updateChecksum_def split: prod.splits)

lemma update_inv:
  assumes "card_inv c" "dir_ok dir" "owns b (m_files dir) cs"
    and "4 \<le> bat_lastAllocated b" "bat_lastAllocated b < block_limit c"
  shows "card_inv (updateDirAndBat dir b c)"
proof -
  let ?d = "dir\<lparr>dir_updateCounter := (dir_updateCounter dir + 1) mod 65536\<rparr>"
    and ?b = "b\<lparr>bat_updateCounter := (bat_updateCounter b + 1) mod 65536\<rparr>"
  have ok: "dir_ok ?d" using assms(2) by (simp add: dir_ok_def)
  note up = dir_checksum_update(1,2) [OF ok]
  have "dir_ok (dir_updateChecksum ?d)" using up ok by (simp add: dir_ok_def)
  moreover have "at_block (bat_updateChecksum ?b) k = at_block b k" for k
    by (simp add: at_block_checksum) (simp add: at_block_def)
  then have "owns (bat_updateChecksum ?b) (m_files dir) cs" using owns_table_cong assms(3) by blast
  moreover have "block_limit (updateDirAndBat dir b c) = block_limit c"
    by (simp add: block_limit_def updateDirAndBat_def Let_def)
  ultimately show ?thesis
    using assms(1,4,5) up by (auto simp: card_inv_def updateDirAndBat_def Let_def)
qed

lemma modify_entry_inv:
  assumes "card_inv c" "m_firstBlock f = m_firstBlock (m_files (cur_dir c) ! i)" "file_ok f"
  shows "card_inv (updateDirAndBat (put_file i f (cur_dir c)) (cur_bat c) c)"
proof -
  obtain cs where "owns (cur_bat c) (m_files (cur_dir c)) cs" using assms(1) by (auto simp: card_inv_def)
  then have "owns (cur_bat c) (m_files (put_file i f (cur_dir c))) cs" using owns_same_first assms(2) by simp
  then show ?thesis using assms by (intro update_inv dir_ok_put) (auto simp: card_inv_def)
qed

lemma file_ok_entry: "dir_ok d \<Longrightarrow> i < length (m_files d) \<Longrightarrow> file_ok (m_files d ! i)"
  by (simp add: dir_ok_def)

lemma empty_file_ok: "file_ok File_empty" by (simp add: file_ok_def File_empty_def)

text \<open>A deletion returns, and the entry owns nothing afterwards.\<close>

lemma delete_inv:
  assumes "owns b (m_files dir) cs" "dir_ok dir" "i < length (m_files dir)"
  shows "\<exists>b'. deleteFile_at i dir b = Some (put_file i File_empty dir, b') \<and>
    owns b' ((m_files dir)[i := File_empty]) (cs[i := []]) \<and> bat_lastAllocated b' = bat_lastAllocated b"
proof -
  note o = assms(1) [unfolded owns_def]
  have fb: "file_blocks b (m_files dir ! i) (cs ! i)" using list_all2_nthD [of "file_blocks b" "m_files dir" cs i] o assms(3) by simp
  have len: "length cs = length (m_files dir)" using list_all2_lengthD o by metis
  have e: "file_blocks b' File_empty []" for b' by (simp add: file_blocks_def File_empty_def)
  show ?thesis
  proof (cases "m_firstBlock (m_files dir ! i) = 0xFFFF")
    case True
    have "delete_loop 0xFFFF b = Some b" by (subst delete_loop.simps) simp
    then have "deleteFile_at i dir b = Some (put_file i File_empty dir, b)" using True by (simp add: deleteFile_at_def)
    then show ?thesis using owns_replace [OF assms(1,3) e] by auto
  next
    case False
    let ?bs = "cs ! i" and ?b' = "(set_block (last (cs ! i)) 0 b)\<lparr>bat_freeBlocks := (bat_freeBlocks b + 1) mod 65536\<rparr>"
    have f: "?bs \<noteq> []" "hd ?bs = m_firstBlock (m_files dir ! i)" "block_chain (at_block b) ?bs" "in_table ?bs"
      using fb False by (auto simp: file_blocks_def)
    have "deleteFile_at i dir b = Some (put_file i File_empty dir, ?b')"
      using delete_loop_run [OF f(1,3,4)] f(2) by (simp add: deleteFile_at_def)
    moreover have "at_block ?b' k = at_block b k" if "j < length (m_files dir)" "j \<noteq> i" "k \<in> set (cs ! j)" for j k
    proof -
      have "k \<noteq> last ?bs" using distinct_concat_apart [of cs j i] o that len assms(3) f(1) last_in_set [of ?bs] by auto
      then show ?thesis using at_set_block [of "last ?bs" 0 b k] by (simp add: at_block_def)
    qed
    ultimately show ?thesis
      using owns_replace [OF assms(1,3) e, of ?b'] by auto
  qed
qed

lemma delete_update_inv:
  assumes "card_inv c" "i < length (m_files (cur_dir c))"
  shows "\<exists>c'. delete_and_update i c = Some c' \<and> card_inv c'"
proof -
  obtain cs where o: "owns (cur_bat c) (m_files (cur_dir c)) cs" and d: "dir_ok (cur_dir c)"
    using assms(1) by (auto simp: card_inv_def)
  obtain b' where b': "deleteFile_at i (cur_dir c) (cur_bat c) = Some (put_file i File_empty (cur_dir c), b')"
    "owns b' ((m_files (cur_dir c))[i := File_empty]) (cs[i := []])" "bat_lastAllocated b' = bat_lastAllocated (cur_bat c)"
    using delete_inv [OF o d assms(2)] by blast
  have "card_inv (updateDirAndBat (put_file i File_empty (cur_dir c)) b' c)"
    using assms(1) b'(2,3) by (intro update_inv dir_ok_put d empty_file_ok) (auto simp: card_inv_def)
  then show ?thesis using b'(1) by (simp add: delete_and_update_def)
qed

lemma rename_inv:
  assumes "card_inv c"
  shows "\<exists>r c'. renameFile old new c = Some (r, c') \<and> card_inv c'"
proof (cases "length new > 32")
  case True
  then show ?thesis using assms by (auto simp: renameFile_def with_open_def pumpOpen_def card_inv_def)
next
  case short: False
  obtain cs where o: "owns (cur_bat c) (m_files (cur_dir c)) cs" and d: "dir_ok (cur_dir c)" and op: "m_opened c"
    using assms by (auto simp: card_inv_def)
  show ?thesis
  proof (cases "getFile_name (card_game c) (card_maker c) old (cur_dir c)")
    case None
    then show ?thesis using short op assms by (auto simp: renameFile_def with_open_def pumpOpen_def)
  next
    case (Some i)
    have i: "i < length (m_files (cur_dir c))" using Some find_index_SomeD(2) unfolding getFile_name_def by metis
    have nm: "file_ok (f\<lparr>m_filename := n\<rparr>) = file_ok f" for f n by (simp add: file_ok_def)
    show ?thesis
    proof (cases "getFile_name (card_game c) (card_maker c) new (cur_dir c)")
      case None
      have "card_inv (updateDirAndBat (set_name i new (cur_dir c)) (cur_bat c) c)"
        unfolding set_name_def by (rule modify_entry_inv [OF assms]) (simp_all add: nm file_ok_entry [OF d i])
      then show ?thesis using Some None short op by (simp add: renameFile_def with_open_def pumpOpen_def)
    next
      case j: (Some j)
      have jl: "j < length (m_files (cur_dir c))" using j find_index_SomeD(2) unfolding getFile_name_def by metis
      obtain b' where b': "deleteFile_at j (cur_dir c) (cur_bat c) = Some (put_file j File_empty (cur_dir c), b')"
        "owns b' ((m_files (cur_dir c))[j := File_empty]) (cs[j := []])" "bat_lastAllocated b' = bat_lastAllocated (cur_bat c)"
        using delete_inv [OF o d jl] by blast
      let ?e = "put_file j File_empty (cur_dir c)"
      have e: "dir_ok ?e" by (rule dir_ok_put(1) [OF d empty_file_ok])
      have "dir_ok (set_name i new ?e)"
        unfolding set_name_def by (rule dir_ok_put(1) [OF e]) (use file_ok_entry [OF e, of i] i in \<open>simp add: nm\<close>)
      moreover have "owns b' (m_files (set_name i new ?e)) (cs[j := []])"
        using owns_same_first [OF b'(2)] by (simp add: set_name_def)
      ultimately have "card_inv (updateDirAndBat (set_name i new ?e) b' c)"
        using assms b'(3) by (intro update_inv) (auto simp: card_inv_def)
      then show ?thesis using Some j b'(1) short op by (simp add: renameFile_def with_open_def pumpOpen_def)
    qed
  qed
qed

lemma block_limit_small: "10 \<le> m_maxBlock c \<Longrightarrow> m_maxBlock c \<le> 4096 \<Longrightarrow> block_limit c \<le> 4086"
proof -
  assume m: "10 \<le> m_maxBlock c" "m_maxBlock c \<le> 4096"
  have "u16_minus (m_maxBlock c) FSTBlocks = m_maxBlock c - 5" using m by (simp add: u16_minus_def FSTBlocks_def nat_diff_distrib)
  moreover have "u16_minus (m_maxBlock c - 5) FSTBlocks = m_maxBlock c - 10"
    using m by (simp add: u16_minus_def FSTBlocks_def nat_diff_distrib)
  ultimately show "block_limit c \<le> 4086" using m by (simp add: block_limit_def)
qed

text \<open>The allocation that creating a file makes, whenever it succeeds.\<close>

lemma create_allocation:
  assumes "card_inv c" "0 < n" "n \<le> bat_freeBlocks (cur_bat c)"
    and "allocateBlocks n (u16_minus (m_maxBlock c) FSTBlocks) (cur_bat c) = (block, b)" "block \<noteq> 0xFFFF"
  obtains bs where "bs \<noteq> []" "block = hd bs" "distinct bs" "in_table bs" "block_chain (at_block b) bs"
    "\<And>k. k \<in> set bs \<Longrightarrow> at_block (cur_bat c) k = 0" "\<And>k. k \<notin> set bs \<Longrightarrow> at_block b k = at_block (cur_bat c) k"
    "4 \<le> bat_lastAllocated b" "bat_lastAllocated b < block_limit c"
proof -
  note I = assms(1) [unfolded card_inv_def]
  have l: "FSTBlocks \<le> bat_lastAllocated (cur_bat c) + 1" "bat_lastAllocated (cur_bat c) + 1 \<le> block_limit c"
    using I by (auto simp: FSTBlocks_def)
  have "0 < bat_freeBlocks (cur_bat c)" using assms(2,3) by simp
  from allocate_run [OF this assms(2) block_limit_def l] assms(4,5)
  obtain bs where B: "bs \<noteq> []" "block = hd bs" "distinct bs" "set bs \<subseteq> free_in (block_limit c) (cur_bat c)"
    "block_chain (at_block b) bs" "\<forall>j. j \<notin> set bs \<longrightarrow> at_block b j = at_block (cur_bat c) j" "bat_lastAllocated b = last bs"
    by (auto split: if_splits)
  have f: "FSTBlocks \<le> k \<and> k < block_limit c \<and> at_block (cur_bat c) k = 0" if "k \<in> set bs" for k
    using B(4) that by (auto simp: free_in_def)
  have lim: "block_limit c \<le> 4086" using I block_limit_small by blast
  have "in_table bs" unfolding in_table_def
  proof
    fix k assume "k \<in> set bs"
    from f [OF this] show "FSTBlocks \<le> k \<and> k \<le> BATSize - FSTBlocks" using lim by (simp add: FSTBlocks_def BATSize_def)
  qed
  moreover have "4 \<le> bat_lastAllocated b" "bat_lastAllocated b < block_limit c"
    using f [OF last_in_set [OF B(1)]] B(7) by (auto simp: FSTBlocks_def)
  ultimately show ?thesis using that B f by blast
qed

text \<open>The number of blocks of a size is kept in 16 bits; it must not wrap to nothing.\<close>

definition blocks_counted :: "nat \<Rightarrow> bool" where
  "blocks_counted sz \<longleftrightarrow> sz = 0 \<or> (sz + 8191) div BlockSize mod 65536 \<noteq> 0"

lemma create_inv:
  assumes "card_inv c" "blocks_counted sz"
  shows "card_inv (snd (createFile now name sz c))"
proof -
  have op: "pumpOpen c = (CARD_READY, c)" using assms(1) by (simp add: pumpOpen_def card_inv_def)
  obtain cs where o: "owns (cur_bat c) (m_files (cur_dir c)) cs" and d: "dir_ok (cur_dir c)"
    using assms(1) by (auto simp: card_inv_def)
  define n where "n = (sz + 8191) div BlockSize mod 65536"
  have n: "n mod 65536 = n" "n < 65536" by (simp_all add: n_def)
  obtain block b where ab: "allocateBlocks n (u16_minus (m_maxBlock c) FSTBlocks) (cur_bat c) = (block, b)" by fastforce
  show ?thesis
  proof (cases "0 < sz \<and> length name \<le> 32 \<and> getFile_name (card_game c) (card_maker c) name (cur_dir c) = None \<and>
      n \<le> bat_freeBlocks (cur_bat c) \<and> hasFreeFile (cur_dir c) \<and> block \<noteq> 0xFFFF")
    case False
    then have "snd (createFile now name sz c) = c"
      using op ab by (auto simp: createFile_def n_def [symmetric] n Let_def split: prod.splits option.splits)
    then show ?thesis using assms(1) by simp
  next
    case True
    obtain i where i: "find_index file_free 0 (m_files (cur_dir c)) = Some i" using True by (auto simp: hasFreeFile_index)
    note I = find_index_SomeD [OF i]
    have n0: "0 < n" using True assms(2) by (simp add: n_def blocks_counted_def)
    obtain bs where B: "bs \<noteq> []" "block = hd bs" "distinct bs" "in_table bs" "block_chain (at_block b) bs"
      "\<And>k. k \<in> set bs \<Longrightarrow> at_block (cur_bat c) k = 0" "\<And>k. k \<notin> set bs \<Longrightarrow> at_block b k = at_block (cur_bat c) k"
      "4 \<le> bat_lastAllocated b" "bat_lastAllocated b < block_limit c"
      using create_allocation [OF assms(1) n0 _ ab] True by auto
    let ?f = "new_entry now name block n c"
    have "snd (createFile now name sz c) = updateDirAndBat (put_file i ?f (cur_dir c)) b c"
      using True op ab i I(2) n0
      by (auto simp: createFile_def n_def [symmetric] n Let_def getFirstFreeFile_def new_entry_def put_file_def)
    moreover have "card_inv (updateDirAndBat (put_file i ?f (cur_dir c)) b c)"
    proof (rule update_inv [OF assms(1)])
      have hd: "block \<le> 4086" using B(1,2,4) by (cases bs) (auto simp: in_table_def BATSize_def FSTBlocks_def)
      then show "dir_ok (put_file i ?f (cur_dir c))" using n by (intro dir_ok_put(1) [OF d] new_entry_facts(7)) auto
      have o': "list_all2 (file_blocks (cur_bat c)) (m_files (cur_dir c)) cs" using o by (simp add: owns_def)
      have nz: "at_block (cur_bat c) k \<noteq> 0" if "j < length (m_files (cur_dir c))" "k \<in> set (cs ! j)" for j k
        using list_all2_nthD [OF o' that(1)] that(2) chain_nonzero by (auto simp: file_blocks_def split: if_splits)
      have "file_blocks b ?f bs" using B(1,2,4,5) hd by (simp add: file_blocks_def new_entry_facts(2))
      moreover have "set bs \<inter> set (concat cs) = {}"
      proof -
        have "k \<notin> set bs" if k: "k \<in> set (concat cs)" for k
        proof -
          obtain ch where "ch \<in> set cs" "k \<in> set ch" using k by auto
          then obtain j where "j < length cs" "k \<in> set (cs ! j)" by (metis in_set_conv_nth)
          then have "at_block (cur_bat c) k \<noteq> 0" using nz list_all2_lengthD [OF o'] by simp
          then show ?thesis using B(6) [of k] by auto
        qed
        then show ?thesis by blast
      qed
      ultimately show "owns b (m_files (put_file i ?f (cur_dir c))) (cs[i := bs])"
        using owns_replace [OF o I(2) _ B(3)] B(6,7) nz unfolding put_file_sel by metis
    qed (use B(8,9) in auto)
    ultimately show ?thesis by simp
  qed
qed

lemma modify_inv:
  assumes "card_inv c" "\<And>f. m_firstBlock (g f) = m_firstBlock f" "\<And>f. file_ok (g f) = file_ok f"
  shows "card_inv (modify_file fh g c)"
proof (cases "fileFromHandle fh c")
  case None
  then show ?thesis using assms(1) by (simp add: modify_file_def)
next
  case (Some i)
  let ?d = "put_file i (g (m_files (cur_dir c) ! i)) (cur_dir c)"
  obtain cs where o: "owns (cur_bat c) (m_files (cur_dir c)) cs" and d: "dir_ok (cur_dir c)"
    using assms(1) by (auto simp: card_inv_def)
  have "owns (cur_bat c) (m_files ?d) cs" using owns_same_first [OF o assms(2)] by simp
  moreover have "dir_ok ?d"
    using d dir_ok_put(1) [OF d] file_ok_entry [OF d] assms(3) list_update_beyond [of "m_files (cur_dir c)" i]
    by (cases "i < length (m_files (cur_dir c))") (simp_all add: put_file_def)
  ultimately show ?thesis using assms(1) Some by (auto simp: modify_file_def card_inv_def block_limit_def)
qed

lemma set_permission_inv: "card_inv c \<Longrightarrow> card_inv (modify_file fh (set_permission n v) c)"
  by (erule modify_inv) (simp_all add: set_permission_def file_ok_def)

lemma write_inv: "card_inv c \<Longrightarrow> fileWrite io fh buf c = Some (r, c') \<Longrightarrow> card_inv c'"
  by (auto simp: fileWrite_def card_inv_def block_limit_def pumpOpen_def split: option.splits prod.splits if_splits)

definition stat_ok :: "card_stat \<Rightarrow> bool" where
  "stat_ok s \<longleftrightarrow> x30_iconAddr s < 4294967296 \<and> x34_iconFormat s < 65536 \<and> x36_iconSpeed s < 65536 \<and> x38_commentAddr s < 4294967296"

lemma status_inv:
  assumes "card_inv c" "stat_ok stat" "i < length (m_files (cur_dir c)) \<or> MaxFiles \<le> i"
  shows "card_inv (snd (setStatus_no i stat c))"
proof (cases "i < length (m_files (cur_dir c))")
  case False
  then have "setStatus_no i stat c = (NOFILE, c)"
    using assms by (auto simp: setStatus_no_def getFile_no_def pumpOpen_def card_inv_def)
  then show ?thesis using assms(1) by simp
next
  case i: True
  have op: "pumpOpen c = (CARD_READY, c)" and d: "dir_ok (cur_dir c)" using assms(1) by (auto simp: pumpOpen_def card_inv_def)
  have "file_ok (m_files (cur_dir c) ! i)" by (rule file_ok_entry [OF d i])
  then have "card_inv (updateDirAndBat (put_file i ((m_files (cur_dir c) ! i)\<lparr>m_bannerFlags := x2e_bannerFormat stat,
      m_iconAddress := x30_iconAddr stat, m_iconFmt := x34_iconFormat stat, m_animSpeed := x36_iconSpeed stat,
      m_commentAddr := x38_commentAddr stat\<rparr>) (cur_dir c)) (cur_bat c) c)"
    using assms(2) by (intro modify_entry_inv [OF assms(1)]) (simp_all add: file_ok_def stat_ok_def)
  then show ?thesis using assms(1) by (auto simp: setStatus_no_def op Let_def split: option.splits) (simp add: getFile_no_def split: if_splits)
qed

section \<open>The machine\<close>

text \<open>One call on the open card.  A directory index is one of the directory's or past the last a directory
  can have; the attributes are within their widths.  Of the creations only those are left out whose number
  of blocks, kept in 16 bits, wraps to zero (sizes of the last 8 KB below or at a multiple of 512 MB).\<close>

definition slot_ok :: "nat \<Rightarrow> 'd card \<Rightarrow> bool" where
  "slot_ok n c \<longleftrightarrow> n < length (m_files (cur_dir c)) \<or> MaxFiles \<le> n"

inductive card_step :: "'d host_io \<Rightarrow> 'd card \<Rightarrow> 'd card \<Rightarrow> bool" for io where
  step_create: "blocks_counted sz \<Longrightarrow> createFile now name sz c = (r, c') \<Longrightarrow> card_step io c c'"
| step_delete_handle: "slot_ok (fh_idx fh) c \<Longrightarrow> deleteFile_handle fh c = Some c' \<Longrightarrow> card_step io c c'"
| step_delete_name: "deleteFile_name name c = Some (r, c') \<Longrightarrow> card_step io c c'"
| step_delete_no: "slot_ok n c \<Longrightarrow> deleteFile_no n c = Some (r, c') \<Longrightarrow> card_step io c c'"
| step_rename: "renameFile old new c = Some (r, c') \<Longrightarrow> card_step io c c'"
| step_write: "fileWrite io fh buf c = Some ((r, fh'), c') \<Longrightarrow> card_step io c c'"
| step_status: "stat_ok stat \<Longrightarrow> slot_ok n c \<Longrightarrow> setStatus_no n stat c = (r, c') \<Longrightarrow> card_step io c c'"
| step_status_handle: "stat_ok stat \<Longrightarrow> slot_ok (fh_idx fh) c \<Longrightarrow> setStatus fh stat c = (r, c') \<Longrightarrow> card_step io c c'"
| step_public: "card_step io c (setPublic fh v c)"
| step_copy: "card_step io c (setCanCopy fh v c)"
| step_move: "card_step io c (setCanMove fh v c)"
| step_game: "card_step io c (setCurrentGame g c)"
| step_maker: "card_step io c (setCurrentMaker g c)"

inductive_cases card_stepE: "card_step io c c'"

lemma delete_name_run:
  assumes "card_inv c"
  shows "\<exists>r c'. deleteFile_name name c = Some (r, c') \<and> card_inv c'"
proof -
  have op: "pumpOpen c = (CARD_READY, c)" using assms by (simp add: pumpOpen_def card_inv_def)
  show ?thesis
  proof (cases "getFile_name (card_game c) (card_maker c) name (cur_dir c)")
    case None
    then show ?thesis using op assms by (simp add: deleteFile_name_def with_open_def)
  next
    case (Some i)
    then have "i < length (m_files (cur_dir c))" using find_index_SomeD(2) unfolding getFile_name_def by metis
    from delete_update_inv [OF assms this] Some op show ?thesis
      by (auto simp: deleteFile_name_def with_open_def)
  qed
qed

lemma delete_no_run:
  assumes "card_inv c" "slot_ok n c"
  shows "\<exists>r c'. deleteFile_no n c = Some (r, c') \<and> card_inv c'"
proof -
  have op: "pumpOpen c = (CARD_READY, c)" using assms(1) by (simp add: pumpOpen_def card_inv_def)
  then show ?thesis
    using delete_update_inv [OF assms(1), of n] assms
    by (cases "getFile_no n (cur_dir c)") (auto simp: deleteFile_no_def with_open_def getFile_no_def slot_ok_def split: if_splits)
qed

lemma delete_handle_inv:
  assumes "card_inv c" "slot_ok (fh_idx fh) c" "deleteFile_handle fh c = Some c'"
  shows "card_inv c'"
  using delete_update_inv [OF assms(1), of "fh_idx fh"] assms
  by (auto simp: deleteFile_handle_def getFile_no_def slot_ok_def split: if_splits)

lemma game_inv: "card_inv c \<Longrightarrow> card_inv (setCurrentGame g c)" "card_inv c \<Longrightarrow> card_inv (setCurrentMaker g c)"
  by (auto simp: setCurrentGame_def setCurrentMaker_def card_inv_def block_limit_def split: option.splits)

lemma card_step_inv: "card_step io c c' \<Longrightarrow> card_inv c \<Longrightarrow> card_inv c'"
proof (induction rule: card_step.induct)
  case (step_create sz now name c r c')
  then show ?case using create_inv [OF step_create.prems step_create.hyps(1), of now name] by simp
next
  case (step_delete_name name c r c')
  then show ?case using delete_name_run [of c name] by auto
next
  case (step_delete_no n c r c')
  then show ?case using delete_no_run [of c n] by auto
next
  case (step_rename old new c r c')
  then show ?case using rename_inv [of c old new] by auto
next
  case (step_write fh buf c r fh' c')
  then show ?case using write_inv by blast
next
  case (step_delete_handle fh c c')
  then show ?case using delete_handle_inv by blast
next
  case (step_status stat n c r c')
  then show ?case using status_inv [of c stat n] by (simp add: slot_ok_def)
next
  case (step_status_handle stat fh c r c')
  then show ?case using status_inv [of c stat "fh_idx fh"] by (auto simp: slot_ok_def setStatus_def split: if_splits)
qed (simp_all add: setPublic_def setCanCopy_def setCanMove_def set_permission_inv game_inv)

lemma card_reach_inv: "(card_step io)\<^sup>*\<^sup>* c c' \<Longrightarrow> card_inv c \<Longrightarrow> card_inv c'"
  by (induction rule: rtranclp_induct) (auto intro: card_step_inv)

text \<open>C5: whatever calls of the file operations are made on a card in good order (\<open>card_step\<close>: creating,
  deleting, renaming, writing, status and attributes), its files keep well-formed chains of blocks, no
  block belongs to two files or twice to one, and the directory's fields stay within their widths.  Left
  out are the creations of a size whose 16-bit number of blocks wraps to zero, which do break this
  (\<open>wrapped_creation_owns_free_block\<close>), and the formatting of the card.\<close>

theorem files_never_share_blocks:
  assumes "card_inv c" "(card_step io)\<^sup>*\<^sup>* c c'"
  shows "dir_ok (cur_dir c') \<and> bat_lastAllocated (cur_bat c') < block_limit c' \<and>
    (\<exists>cs. list_all2 (file_blocks (cur_bat c')) (m_files (cur_dir c')) cs \<and> distinct (concat cs))"
  using card_reach_inv [OF assms(2,1)] by (auto simp: card_inv_def owns_def)

text \<open>C12: on a card reached by such calls every deletion and renaming returns: the walk along a
  file's blocks comes to its end.\<close>

theorem deletions_return:
  assumes "card_inv c" "(card_step io)\<^sup>*\<^sup>* c c'"
  shows "deleteFile_name name c' \<noteq> None \<and> renameFile old new c' \<noteq> None \<and>
    \<not> (\<exists>n<length (m_files (cur_dir c')). deleteFile_no n c' = None)"
proof -
  have i: "card_inv c'" by (rule card_reach_inv [OF assms(2,1)])
  have "deleteFile_name name c' \<noteq> None" "renameFile old new c' \<noteq> None"
    using delete_name_run [OF i, of name] rename_inv [OF i, of old new] by auto
  moreover have "deleteFile_no n c' \<noteq> None" if "n < length (m_files (cur_dir c'))" for n
    using delete_no_run [OF i, of n] that by (auto simp: slot_ok_def)
  ultimately show ?thesis by blast
qed

text \<open>A creation whose number of blocks wraps to zero succeeds, and the first block of the new file stays
  free for the files created later.\<close>

lemma find_Some_member: "List.find P xs = Some x \<Longrightarrow> P x \<and> x \<in> set xs"
  by (induction xs) (auto split: if_splits)

lemma nextFreeBlock_free:
  assumes "nextFreeBlock b m s = k" "k \<noteq> 0xFFFF" "s < 65536"
  shows "at_block b k = 0" "k < 65536"
proof -
  let ?l = "[s..<min m BATSize] @ [FSTBlocks..<s]"
  have "List.find (\<lambda>i. at_block b i = 0) [s..<min m BATSize] = Some k \<or> List.find (\<lambda>i. at_block b i = 0) [FSTBlocks..<s] = Some k"
    using assms(1,2) unfolding nextFreeBlock_def Let_def by (simp split: option.splits if_splits)
  then have "at_block b k = 0 \<and> k \<in> set ?l" by (auto dest!: find_Some_member)
  then show "at_block b k = 0" "k < 65536" using assms(3) by (auto simp: BATSize_def)
qed

theorem wrapped_creation_owns_free_block:
  assumes "m_opened c" "0 < sz" "(sz + 8191) div BlockSize mod 65536 = 0" "length name \<le> 32"
    and "getFile_name (card_game c) (card_maker c) name (cur_dir c) = None" "hasFreeFile (cur_dir c)"
    and "dir_ok (cur_dir c)" "k = nextFreeBlock (cur_bat c) (block_limit c) ((bat_lastAllocated (cur_bat c) + 1) mod 65536)" "k \<noteq> 0xFFFF"
  shows "\<exists>i c'. createFile now name sz c = ((CARD_READY, Some (FileHandle i)), c') \<and>
    m_firstBlock (m_files (cur_dir c') ! i) = k \<and> at_block (cur_bat c') k = 0"
proof -
  let ?b = "(cur_bat c)\<lparr>bat_lastAllocated := k, bat_freeBlocks := u16_minus (bat_freeBlocks (cur_bat c)) 0\<rparr>"
  obtain i where i: "find_index file_free 0 (m_files (cur_dir c)) = Some i" using assms(6) by (auto simp: hasFreeFile_index)
  note I = find_index_SomeD [OF i]
  note free = nextFreeBlock_free [OF assms(8) [symmetric] assms(9), simplified]
  let ?n = "nextFreeBlock (cur_bat c) (u16_minus (u16_minus (m_maxBlock c) FSTBlocks) FSTBlocks) ((bat_lastAllocated (cur_bat c) + 1) mod 65536)"
  have n: "?n = k" unfolding assms(8) by (simp add: block_limit_def nextFreeBlock_def)
  then have al: "allocateBlocks 0 (u16_minus (m_maxBlock c) FSTBlocks) (cur_bat c) = (k, ?b)"
    using assms(9) by (simp add: allocateBlocks_def Let_def)
  let ?f = "new_entry now name k 0 c"
  have run: "createFile now name sz c = ((CARD_READY, Some (FileHandle i)), updateDirAndBat (put_file i ?f (cur_dir c)) ?b c)"
    using assms(1-6,9) al i I(2)
    by (simp add: createFile_def pumpOpen_def Let_def getFirstFreeFile_def new_entry_def put_file_def)
  let ?d = "put_file i ?f (cur_dir c)"
  let ?u = "?d\<lparr>dir_updateCounter := (dir_updateCounter ?d + 1) mod 65536\<rparr>"
  have "dir_ok ?d" using free(2) by (intro dir_ok_put(1) [OF assms(7)] new_entry_facts(7)) auto
  then have "dir_ok ?u" by (simp add: dir_ok_def)
  then have "m_firstBlock (m_files (cur_dir (updateDirAndBat ?d ?b c)) ! i) = k"
    using dir_checksum_update(1) [of ?u] I(2) new_entry_facts(2) by (simp add: updateDirAndBat_def Let_def)
  moreover have "at_block (cur_bat (updateDirAndBat ?d ?b c)) k = 0"
    using free(1) by (simp add: updateDirAndBat_def Let_def at_block_checksum) (simp add: at_block_def)
  ultimately show ?thesis using run by blast
qed

section \<open>A concrete run\<close>

lemma demo_card_inv: "card_inv demo_card"
proof -
  have b: "block_limit demo_card = 54" using demo_card_create(2) [of "[1]"] by simp
  have e: "file_blocks b File_empty []" for b by (simp add: file_blocks_def File_empty_def)
  have "file_blocks demo_table (m_files demo_dir ! 0) [5, 6]"
    using demo_table_facts(1,2) demo_dir_facts(3) by (simp add: file_blocks_def)
  then have "list_all2 (file_blocks demo_table) (m_files demo_dir) ([5, 6] # replicate 126 [])"
    using e by (simp add: demo_dir_def list_all2_conv_all_nth nth_Cons')
  moreover have "concat ([5, 6] # replicate 126 []) = [5, 6 :: nat]" by simp
  ultimately have "owns demo_table (m_files demo_dir) ([5, 6] # replicate 126 [])" by (simp only: owns_def) simp
  then show ?thesis using b demo_dir_facts(1) demo_table_facts(5)
    by (simp add: card_inv_def demo_card_def) blast
qed

lemma demo_step: "(card_step demo_io)\<^sup>*\<^sup>* demo_card (setPublic \<lparr>fh_idx = 0, fh_offset = 0\<rparr> True (snd (createFile 7 [67] 9000 demo_card)))"
proof -
  have "card_step demo_io demo_card (snd (createFile 7 [67] 9000 demo_card))"
    by (rule step_create [of 9000 7 "[67]" demo_card "fst (createFile 7 [67] 9000 demo_card)"]) (simp_all add: blocks_counted_def BlockSize_def)
  then show ?thesis using step_public by (meson converse_rtranclp_into_rtranclp rtranclp.rtrancl_refl)
qed

lemma files_never_share_blocks_witness:
  "let c' = setPublic \<lparr>fh_idx = 0, fh_offset = 0\<rparr> True (snd (createFile 7 [67] 9000 demo_card)) in
     dir_ok (cur_dir c') \<and> (\<exists>cs. list_all2 (file_blocks (cur_bat c')) (m_files (cur_dir c')) cs \<and> distinct (concat cs))"
  using files_never_share_blocks [OF demo_card_inv demo_step] unfolding Let_def by blast

lemma deletions_return_witness:
  "deleteFile_name [67] (setPublic \<lparr>fh_idx = 0, fh_offset = 0\<rparr> True (snd (createFile 7 [67] 9000 demo_card))) \<noteq> None"
  using deletions_return [OF demo_card_inv demo_step] by blast

end
