(* ===== verification/EggDecomp.thy ===== *)
theory EggDecomp
  imports Prelude
begin

unbundle bit_operations_syntax

text \<open>
  The Yaz0 decoder (\<open>runtime/src/hle/egg_decomp.cpp\<close>), which replaces the game's own because that
  one let a crafted file write past the output buffer.

  Memory is the flat view the decoder uses: one byte per 32-bit guest address, with addresses and
  indices wrapping at 32 bits.  \<open>Aborted m\<close> is the call of \<open>std::abort\<close>, with the memory it leaves.
\<close>

section \<open>The decoder\<close>

type_synonym guest_bytes = "u32 \<Rightarrow> u8"

datatype decoded = Decoded guest_bytes u32 | Aborted guest_bytes

text \<open>The copy of a back-reference, byte by byte, with the check of the output size before each.\<close>

fun copy_run :: "u32 \<Rightarrow> u32 \<Rightarrow> nat \<Rightarrow> u32 \<Rightarrow> u32 \<Rightarrow> guest_bytes \<Rightarrow> guest_bytes + u32 \<times> guest_bytes" where
  "copy_run dst expandSize 0 copyIdx dstIdx m = Inr (dstIdx, m)"
| "copy_run dst expandSize (Suc n) copyIdx dstIdx m =
     (if dstIdx \<ge> expandSize then Inl m
      else copy_run dst expandSize n (copyIdx + 1) (dstIdx + 1) (m(dst + dstIdx := m (dst + copyIdx))))"

text \<open>One back-reference: the distance, the run length and the source index after it.\<close>

definition read_reference :: "u32 \<Rightarrow> u32 \<Rightarrow> guest_bytes \<Rightarrow> u32 \<times> u32 \<times> u32" where
  "read_reference src srcIdx m =
    (let high = ucast (m (src + srcIdx)); low = ucast (m (src + srcIdx + 1)); srcIdx = srcIdx + 2;
         rep = push_bit 8 high OR low; distance = (rep AND 0xFFF) + 1; count = drop_bit 12 rep
     in if count \<noteq> 0 then (distance, count + 2, srcIdx)
        else (distance, ucast (m (src + srcIdx)) + 18, srcIdx + 1))"

partial_function (option) decode_loop ::
    "u32 \<Rightarrow> u32 \<Rightarrow> u32 \<Rightarrow> u32 \<Rightarrow> u32 \<Rightarrow> u32 \<Rightarrow> u32 \<Rightarrow> guest_bytes \<Rightarrow> decoded option" where
  "decode_loop src dst expandSize srcIdx dstIdx msk flags m =
    (if sint dstIdx < sint expandSize then
       let (flags, msk, srcIdx) = (if msk = 0 then (ucast (m (src + srcIdx)), 0x80, srcIdx + 1) else (flags, msk, srcIdx))
       in if flags AND msk \<noteq> 0
          then decode_loop src dst expandSize (srcIdx + 1) (dstIdx + 1) (drop_bit 1 msk) flags
                 (m(dst + dstIdx := m (src + srcIdx)))
          else let (distance, count, srcIdx) = read_reference src srcIdx m
            in if distance > dstIdx then Some (Aborted m)
               else (case copy_run dst expandSize (unat count) (dstIdx - distance) dstIdx m of
                       Inl m \<Rightarrow> Some (Aborted m)
                     | Inr (dstIdx, m) \<Rightarrow> decode_loop src dst expandSize srcIdx dstIdx (drop_bit 1 msk) flags m)
     else Some (Decoded m expandSize))"

definition expand_size :: "u32 \<Rightarrow> guest_bytes \<Rightarrow> u32" where
  "expand_size src m = push_bit 24 (ucast (m (src + 4))) OR push_bit 16 (ucast (m (src + 5))) OR
     push_bit 8 (ucast (m (src + 6))) OR ucast (m (src + 7))"

definition EGG_Decomp_decodeSZS :: "u32 \<Rightarrow> u32 \<Rightarrow> guest_bytes \<Rightarrow> decoded option" where
  "EGG_Decomp_decodeSZS src dst m = decode_loop src dst (expand_size src m) 16 0 0 0 m"

section \<open>Bounds and termination\<close>

definition in_buffer :: "u32 \<Rightarrow> nat \<Rightarrow> u32 set" where
  "in_buffer dst n = {dst + of_nat i |i. i < n}"

lemma in_bufferI: "unat k < n \<Longrightarrow> dst + k \<in> in_buffer dst n"
  unfolding in_buffer_def by (rule CollectI, rule exI [of _ "unat k"]) simp

lemma unat_inc: "unat (k :: u32) < n \<Longrightarrow> n < 4294967296 \<Longrightarrow> unat (k + 1) = unat k + 1"
  by (simp add: unat_word_ariths)

lemma u32_bound: "unat (k :: u32) < 4294967296"
  using unsigned_less [of k, where ?'a = nat] by simp

text \<open>Nothing outside the first \<open>n\<close> bytes of the buffer changes.\<close>

definition kept :: "u32 \<Rightarrow> nat \<Rightarrow> guest_bytes \<Rightarrow> guest_bytes \<Rightarrow> bool" where
  "kept dst n m m' \<longleftrightarrow> (\<forall>a. a \<notin> in_buffer dst n \<longrightarrow> m' a = m a)"

lemma kept_refl [simp]: "kept dst n m m"
  by (simp add: kept_def)

lemma kept_write: "unat k < n \<Longrightarrow> kept dst n (m(dst + k := v)) m' \<Longrightarrow> kept dst n m m'"
  using in_bufferI [of k n dst] unfolding kept_def by (metis fun_upd_other)

lemma kept_trans: "kept dst n m m' \<Longrightarrow> kept dst n m' m'' \<Longrightarrow> kept dst n m m''"
  by (simp add: kept_def)

lemma copy_run_bounds:
  assumes "unat dstIdx \<le> unat expandSize"
  shows "case copy_run dst expandSize n copyIdx dstIdx m of
      Inl m' \<Rightarrow> kept dst (unat expandSize) m m'
    | Inr (d, m') \<Rightarrow> unat d = unat dstIdx + n \<and> unat d \<le> unat expandSize \<and> kept dst (unat expandSize) m m'"
  using assms
proof (induction n arbitrary: copyIdx dstIdx m)
  case (Suc n)
  show ?case
  proof (cases "dstIdx \<ge> expandSize")
    case False
    then have lt: "unat dstIdx < unat expandSize" by (simp add: word_le_nat_alt)
    have inc: "unat (dstIdx + 1) = unat dstIdx + 1" using lt u32_bound [of expandSize] by (rule unat_inc)
    let ?m = "m(dst + dstIdx := m (dst + copyIdx))"
    note IH = Suc.IH [where dstIdx = "dstIdx + 1" and copyIdx = "copyIdx + 1" and m = ?m]
    show ?thesis
    proof (cases "copy_run dst expandSize n (copyIdx + 1) (dstIdx + 1) ?m")
      case (Inl m')
      then show ?thesis using IH False inc lt kept_write by (simp del: fun_upd_apply)
    next
      case (Inr x)
      then show ?thesis using IH False inc lt kept_write [OF lt] by (cases x) (auto simp del: fun_upd_apply)
    qed
  qed simp
qed simp

lemma unat_drop12: "unat (drop_bit 12 (r :: u32)) = unat r div 4096"
  by (subst unat_drop_bit_eq) (simp add: drop_bit_eq_div)

lemma unat_byte_plus: "unat (ucast (b :: u8) + 18 :: u32) = unat b + 18"
  using unsigned_less [of b, where ?'a = nat] by (simp add: unat_word_ariths unsigned_ucast_eq take_bit_eq_mod)

lemma read_reference_count:
  assumes "read_reference src srcIdx m = (distance, count, srcIdx')"
  shows "0 < unat count"
proof -
  have "unat (drop_bit 12 r :: u32) + 2 < 4294967296" for r :: u32
    unfolding unat_drop12 using u32_bound [of r] by linarith
  then have "0 < unat (drop_bit 12 r + 2 :: u32)" for r :: u32
    using unat_add_lem [of "drop_bit 12 r" "2 :: u32"] by simp
  then show ?thesis
    using assms unfolding read_reference_def Let_def
    by (cases "drop_bit 12 (push_bit 8 (ucast (m (src + srcIdx))) OR ucast (m (src + srcIdx + 1))) = (0 :: u32)")
      (auto simp del: drop_bit_or simp: unat_byte_plus)
qed

lemma sint_unat: "sint (k :: u32) = (if unat k < 2147483648 then int (unat k) else int (unat k) - 4294967296)"
proof -
  have s: "sint k = (uint k + 2147483648) mod 4294967296 - 2147483648" using sint_word_of_int_u32 [of "uint k"] by simp
  have s': "sint k = (if uint k < 2147483648 then uint k else uint k - 4294967296)"
    unfolding s using uint_u32_bounds [of k] by (simp add: wrap_once)
  have u: "uint k = int (unat k)" by simp
  show ?thesis
  proof (cases "unat k < 2147483648")
    case True
    then have "uint k < 2147483648" using u by linarith
    then show ?thesis using s' u True by presburger
  next
    case False
    then have "\<not> uint k < 2147483648" using u by linarith
    then show ?thesis using s' u False by presburger
  qed
qed

lemma sint_small: "unat (k :: u32) < 2147483648 \<Longrightarrow> sint k = int (unat k)"
  by (simp only: sint_unat if_True)

definition decode_safe :: "u32 \<Rightarrow> u32 \<Rightarrow> guest_bytes \<Rightarrow> decoded option \<Rightarrow> bool" where
  "decode_safe dst expandSize m r \<longleftrightarrow>
     (case r of None \<Rightarrow> False
      | Some (Aborted m') \<Rightarrow> kept dst (unat expandSize) m m'
      | Some (Decoded m' k) \<Rightarrow> k = expandSize \<and> kept dst (unat expandSize) m m')"

lemma decode_safe_trans: "kept dst (unat e) m m' \<Longrightarrow> decode_safe dst e m' r \<Longrightarrow> decode_safe dst e m r"
  by (auto simp: decode_safe_def split: option.splits decoded.splits intro: kept_trans)

lemma decode_loop_bounds:
  assumes "unat dstIdx \<le> unat expandSize" "unat expandSize < 2147483648"
  shows "decode_safe dst expandSize m (decode_loop src dst expandSize srcIdx dstIdx msk flags m)"
  using assms(1)
proof (induction "unat expandSize - unat dstIdx" arbitrary: srcIdx dstIdx msk flags m rule: less_induct)
  case less
  show ?case
  proof (cases "sint dstIdx < sint expandSize")
    case False
    then show ?thesis by (subst decode_loop.simps) (simp add: decode_safe_def)
  next
    case True
    then have lt: "unat dstIdx < unat expandSize"
      using less.prems assms(2) sint_small [of dstIdx] sint_small [of expandSize] by linarith
    obtain fl mk si where f: "(if msk = 0 then (ucast (m (src + srcIdx)), 0x80, srcIdx + 1) else (flags, msk, srcIdx)) = (fl, mk, si)"
      by (cases "msk = 0") auto
    show ?thesis
    proof (cases "fl AND mk = 0")
      case lit: False
      let ?m = "m(dst + dstIdx := m (src + si))"
      have inc: "unat (dstIdx + 1) = unat dstIdx + 1" using lt u32_bound [of expandSize] by (rule unat_inc)
      have "unat expandSize - unat (dstIdx + 1) < unat expandSize - unat dstIdx" "unat (dstIdx + 1) \<le> unat expandSize"
        using inc lt by simp_all
      note IH = less.hyps [OF this, where srcIdx = "si + 1" and msk = "drop_bit 1 mk" and flags = fl and m = ?m]
      have "kept dst (unat expandSize) m ?m" using kept_write [OF lt kept_refl] .
      from decode_safe_trans [OF this IH] show ?thesis
        using True f lit by (subst decode_loop.simps) (simp del: fun_upd_apply)
    next
      case run: True
      obtain d c s where r: "read_reference src si m = (d, c, s)" by (cases "read_reference src si m")
      note C = copy_run_bounds [OF less.prems, where dst = dst and n = "unat c" and copyIdx = "dstIdx - d" and m = m]
      show ?thesis
      proof (cases "copy_run dst expandSize (unat c) (dstIdx - d) dstIdx m")
        case (Inl m')
        then show ?thesis using True f run r C by (subst decode_loop.simps) (simp add: decode_safe_def)
      next
        case (Inr x)
        obtain d' m' where x: "x = (d', m')" by (cases x)
        have c: "unat d' = unat dstIdx + unat c" "unat d' \<le> unat expandSize" "kept dst (unat expandSize) m m'"
          using C Inr x by auto
        have "unat expandSize - unat d' < unat expandSize - unat dstIdx"
          using c(1) read_reference_count [OF r] lt by simp
        from less.hyps [OF this c(2), where srcIdx = s and msk = "drop_bit 1 mk" and flags = fl and m = m']
        have IH: "decode_safe dst expandSize m (decode_loop src dst expandSize s d' (drop_bit 1 mk) fl m')"
          using c(3) decode_safe_trans by blast
        show ?thesis
          using True f run r Inr x IH by (subst decode_loop.simps) (simp add: decode_safe_def)
      qed
    qed
  qed
qed

lemma decode_run_bounds: "decode_safe dst (expand_size src m) m (EGG_Decomp_decodeSZS src dst m)"
proof (cases "unat (expand_size src m) < 2147483648")
  case True
  then show ?thesis
    unfolding EGG_Decomp_decodeSZS_def by (intro decode_loop_bounds) simp_all
next
  case False
  then have "sint (expand_size src m) = int (unat (expand_size src m)) - 4294967296" by (simp only: sint_unat if_False)
  then have "\<not> sint (0 :: u32) < sint (expand_size src m)"
    using u32_bound [of "expand_size src m"] unfolding sint_0 by linarith
  then show ?thesis unfolding EGG_Decomp_decodeSZS_def by (subst decode_loop.simps) (simp add: decode_safe_def)
qed

section \<open>The format\<close>

text \<open>A Yaz0 stream is a sequence of literals and back-references; \<open>expand\<close> is its meaning, up to the
  size the header announces.\<close>

datatype token = Literal u8 | Reference nat nat

datatype expansion = Complete "u8 list" | Truncated | Malformed

fun copied :: "nat \<Rightarrow> nat \<Rightarrow> u8 list \<Rightarrow> u8 list" where
  "copied d 0 out = out"
| "copied d (Suc n) out = copied d n (out @ [out ! (length out - d)])"

fun expand :: "nat \<Rightarrow> token list \<Rightarrow> u8 list \<Rightarrow> expansion" where
  "expand N [] out = (if N \<le> length out then Complete out else Truncated)"
| "expand N (Literal b # ts) out = (if N \<le> length out then Complete out else expand N ts (out @ [b]))"
| "expand N (Reference d n # ts) out =
     (if N \<le> length out then Complete out
      else if length out < d \<or> N < length out + n then Malformed
      else expand N ts (copied d n out))"

fun token_ok :: "token \<Rightarrow> bool" where
  "token_ok (Literal b) = True"
| "token_ok (Reference d n) = (1 \<le> d \<and> d \<le> 4096 \<and> 3 \<le> n \<and> n \<le> 273)"

fun is_literal :: "token \<Rightarrow> bool" where
  "is_literal (Literal b) = True"
| "is_literal (Reference d n) = False"

fun token_bytes :: "token \<Rightarrow> u8 list" where
  "token_bytes (Literal b) = [b]"
| "token_bytes (Reference d n) =
     (if n \<le> 17 then [of_nat ((n - 2) * 16 + (d - 1) div 256), of_nat ((d - 1) mod 256)]
      else [of_nat ((d - 1) div 256), of_nat ((d - 1) mod 256), of_nat (n - 18)])"

text \<open>The bytes \<open>bs\<close> lie at \<open>p\<close>, at addresses of \<open>S\<close>.\<close>

fun bytes_at :: "u32 set \<Rightarrow> guest_bytes \<Rightarrow> u32 \<Rightarrow> u8 list \<Rightarrow> bool" where
  "bytes_at S m p [] = True"
| "bytes_at S m p (b # bs) = (p \<in> S \<and> m p = b \<and> bytes_at S m (p + 1) bs)"

text \<open>The stream at \<open>p\<close> encodes the tokens, \<open>k\<close> of the current flag bits being left.\<close>

function encodes :: "u32 set \<Rightarrow> guest_bytes \<Rightarrow> u32 \<Rightarrow> nat \<Rightarrow> u32 \<Rightarrow> token list \<Rightarrow> bool" where
  "encodes S m p k flags [] = True"
| "encodes S m p 0 flags (t # ts) = (p \<in> S \<and> encodes S m (p + 1) 8 (ucast (m p)) (t # ts))"
| "encodes S m p (Suc k) flags (t # ts) =
     (bit flags k = is_literal t \<and> bytes_at S m p (token_bytes t) \<and>
      encodes S m (p + of_nat (length (token_bytes t))) k flags ts)"
  by pat_completeness auto
termination
  by (relation "measure (\<lambda>(S, m, p, k, flags, ts). 2 * length ts + (if k = 0 then 1 else 0))") auto

section \<open>The decoder follows the format\<close>

lemma bytes_at_cong: "bytes_at S m p bs \<Longrightarrow> (\<And>a. a \<in> S \<Longrightarrow> m' a = m a) \<Longrightarrow> bytes_at S m' p bs"
  by (induction bs arbitrary: p) auto

lemma encodes_cong: "encodes S m p k flags ts \<Longrightarrow> (\<And>a. a \<in> S \<Longrightarrow> m' a = m a) \<Longrightarrow> encodes S m' p k flags ts"
  by (induction S m p k flags ts rule: encodes.induct) (auto intro: bytes_at_cong)

text \<open>The bytes decoded so far.\<close>

definition out_at :: "guest_bytes \<Rightarrow> u32 \<Rightarrow> u8 list \<Rightarrow> bool" where
  "out_at m dst out \<longleftrightarrow> (\<forall>i<length out. m (dst + of_nat i) = out ! i)"

lemma u32_of_nat: "i < 4294967296 \<Longrightarrow> unat (of_nat i :: u32) = i"
  by (simp add: unsigned_of_nat take_bit_eq_mod)

lemma of_nat_u32_inj: "i < 4294967296 \<Longrightarrow> j < 4294967296 \<Longrightarrow> (of_nat i = (of_nat j :: u32)) = (i = j)"
  using u32_of_nat by metis

lemma out_at_snoc:
  assumes "out_at m dst out" "length out < 4294967296"
  shows "out_at (m(dst + of_nat (length out) := b)) dst (out @ [b])"
  using assms by (auto simp: out_at_def nth_append less_Suc_eq of_nat_u32_inj)

lemma length_copied [simp]: "length (copied d n out) = length out + n"
  by (induction d n out rule: copied.induct) auto

lemma copy_run_copies:
  assumes "out_at m dst out" "1 \<le> d" "d \<le> length out" "length out \<le> N" "N < 4294967296"
  shows "if length out + n \<le> N
    then \<exists>m'. copy_run dst (of_nat N) n (of_nat (length out - d)) (of_nat (length out)) m = Inr (of_nat (length out + n), m') \<and>
      out_at m' dst (copied d n out)
    else \<exists>m'. copy_run dst (of_nat N) n (of_nat (length out - d)) (of_nat (length out)) m = Inl m'"
  using assms
proof (induction n arbitrary: out m)
  case (Suc n)
  let ?b = "out ! (length out - d)"
  have ge: "(of_nat N \<le> (of_nat (length out) :: u32)) = (N \<le> length out)"
    using Suc.prems(4,5) by (simp add: word_le_nat_alt u32_of_nat)
  show ?case
  proof (cases "N \<le> length out")
    case True
    then show ?thesis using ge by simp
  next
    case False
    have "length out - d < length out" using Suc.prems(2,3) by simp
    then have b: "m (dst + of_nat (length out - d)) = ?b" using Suc.prems(1) unfolding out_at_def by blast
    let ?m = "m(dst + of_nat (length out) := ?b)"
    define out' where "out' = out @ [?b]"
    have o: "out_at ?m dst out'" using out_at_snoc [OF Suc.prems(1)] Suc.prems(4,5) by (simp add: out'_def)
    have l: "length out + Suc n = length out' + n" "d \<le> length out'" "length out' \<le> N"
      using Suc.prems(3) False by (simp_all add: out'_def)
    have c: "copied d (Suc n) out = copied d n out'" by (simp add: out'_def)
    have i: "length out' - d = Suc (length out - d)" using Suc.prems(3) by (simp add: out'_def Suc_diff_le)
    have step: "copy_run dst (of_nat N) (Suc n) (of_nat (length out - d)) (of_nat (length out)) m =
        copy_run dst (of_nat N) n (of_nat (length out' - d)) (of_nat (length out')) ?m"
      unfolding i using ge False b by (simp add: out'_def add.commute del: of_nat_diff)
    show ?thesis unfolding step l(1) c using Suc.IH [OF o Suc.prems(2) l(2,3) Suc.prems(5)] .
  qed
qed simp

text \<open>What the two bytes of a back-reference encode.\<close>

lemma or_low_byte: "push_bit 8 (ucast (h :: u8)) OR ucast (l :: u8) = (of_nat (unat h * 256 + unat l) :: u32)"
proof -
  let ?a = "push_bit 8 (ucast h) :: u32" and ?b = "ucast l :: u32"
  have "?a + ?b = ?a OR ?b"
    by (rule disjunctive_add) (auto simp: bit_push_bit_iff bit_ucast_iff dest: bit_imp_le_length)
  moreover have "?a = of_nat (unat h * 256)" by (simp add: push_bit_eq_mult)
  ultimately show ?thesis by simp
qed

lemma mod_pages: "(l :: nat) < 256 \<Longrightarrow> (h * 256 + l) mod 4096 = h mod 16 * 256 + l"
proof -
  assume l: "l < 256"
  have "h * 256 + l = (h mod 16 * 256 + l) + 4096 * (h div 16)"
    using div_mult_mod_eq [of h 16] by linarith
  moreover have "h mod 16 * 256 + l < 4096" using l mod_less_divisor [of 16 h] by linarith
  ultimately show ?thesis by (metis mod_mult_self2 mod_less)
qed

lemma split_rep:
  "unat (drop_bit 12 (push_bit 8 (ucast (h :: u8)) OR ucast (l :: u8)) :: u32) = unat h div 16"
  "unat ((push_bit 8 (ucast h) OR ucast l) AND 0xFFF :: u32) = unat h mod 16 * 256 + unat l"
proof -
  have b: "unat h < 256" "unat l < 256"
    using unsigned_less [of h, where ?'a = nat] unsigned_less [of l, where ?'a = nat] by simp_all
  have u: "unat (push_bit 8 (ucast h) OR ucast l :: u32) = unat h * 256 + unat l"
    unfolding or_low_byte by (rule u32_of_nat) (use b in linarith)
  have "(unat h * 256 + unat l) div 4096 = unat h div 16" using b by linarith
  then show "unat (drop_bit 12 (push_bit 8 (ucast h) OR ucast l) :: u32) = unat h div 16"
    unfolding unat_drop12 u .
  have m: "(0xFFF :: u32) = mask 12" by (simp add: mask_eq_exp_minus_1)
  have a: "unat (r AND 0xFFF) = unat r mod 4096" for r :: u32
    unfolding m take_bit_eq_mask [symmetric] by (simp add: take_bit_eq_mod unat_mod)
  show "unat ((push_bit 8 (ucast h) OR ucast l) AND 0xFFF :: u32) = unat h mod 16 * 256 + unat l"
    unfolding a u by (rule mod_pages [OF b(2)])
qed

lemma read_reference_token:
  assumes "token_ok (Reference d n)" "bytes_at S m (src + srcIdx) (token_bytes (Reference d n))"
  shows "read_reference src srcIdx m = (of_nat d, of_nat n, srcIdx + of_nat (length (token_bytes (Reference d n))))"
proof -
  define h where "h = m (src + srcIdx)"
  define l where "l = m (src + srcIdx + 1)"
  let ?rep = "push_bit 8 (ucast h) OR ucast l :: u32"
  have u8: "unat (of_nat k :: u8) = k" if "k < 256" for k using that by (simp add: unsigned_of_nat take_bit_eq_mod)
  have d: "1 \<le> d" "d \<le> 4096" "3 \<le> n" "n \<le> 273" using assms(1) by simp_all
  have hb: "(d - 1) div 256 < 16" using d by simp
  have lb: "unat l = (d - 1) mod 256"
    using assms(2) by (auto simp: l_def u8 add.assoc split: if_splits)
  have h: "unat h = (if n \<le> 17 then (n - 2) * 16 else 0) + (d - 1) div 256"
  proof (cases "n \<le> 17")
    case True
    then have "h = of_nat ((n - 2) * 16 + (d - 1) div 256)"
      using assms(2) by (simp only: h_def token_bytes.simps if_True bytes_at.simps)
    moreover have "(n - 2) * 16 + (d - 1) div 256 < 256" using True hb by linarith
    ultimately show ?thesis using True u8 by (simp only: if_True)
  next
    case False
    then show ?thesis using assms(2) hb by (simp add: h_def u8)
  qed
  have "unat h mod 16 = (d - 1) div 256" "unat h div 16 = (if n \<le> 17 then n - 2 else 0)"
    using hb unfolding h by auto
  then have r: "unat (?rep AND 0xFFF) = d - 1" "unat (drop_bit 12 ?rep) = (if n \<le> 17 then n - 2 else 0)"
    unfolding split_rep lb by simp_all
  have of_unat: "w = of_nat k" if "unat w = k" for w :: u32 and k using that by auto
  have dist: "(?rep AND 0xFFF) + 1 = of_nat d"
    unfolding of_unat [OF r(1)] using d(1) by (simp add: of_nat_diff)
  show ?thesis
  proof (cases "n \<le> 17")
    case True
    then have c: "drop_bit 12 ?rep = of_nat (n - 2)" using of_unat [OF r(2)] by simp
    have "unat (of_nat (n - 2) :: u32) = n - 2" by (rule u32_of_nat) (use d(4) in linarith)
    then have "(of_nat (n - 2) :: u32) \<noteq> 0" using d(3) by (intro notI) (simp del: of_nat_diff)
    moreover have "of_nat (n - 2) + 2 = (of_nat n :: u32)" using d(3) by (simp add: of_nat_diff)
    ultimately show ?thesis
      using True dist c unfolding read_reference_def Let_def h_def l_def by simp
  next
    case False
    then have c: "drop_bit 12 ?rep = 0" using of_unat [OF r(2)] by simp
    have "m (src + srcIdx + 2) = of_nat (n - 18)" using assms(2) False by (simp add: add.assoc)
    moreover have "ucast (of_nat (n - 18) :: u8) + 18 = (of_nat n :: u32)"
      by (rule of_unat) (use False d in \<open>simp add: unat_byte_plus u8 del: of_nat_diff\<close>)
    ultimately show ?thesis
      using False dist c unfolding read_reference_def Let_def h_def l_def by (simp add: add.assoc)
  qed
qed

definition flag_mask :: "nat \<Rightarrow> u32" where
  "flag_mask k = (if k = 0 then 0 else push_bit (k - 1) 1)"

lemma flag_mask_step:
  assumes "k < 8"
  shows "drop_bit 1 (flag_mask (Suc k)) = flag_mask k" "(flags AND flag_mask (Suc k) = 0) = (\<not> bit flags k)"
    "flag_mask (Suc k) \<noteq> 0" "flag_mask 8 = 0x80" "flag_mask 0 = 0"
proof -
  have "k \<in> {0, 1, 2, 3, 4, 5, 6, 7}" using assms by auto
  then show "drop_bit 1 (flag_mask (Suc k)) = flag_mask k" "flag_mask (Suc k) \<noteq> 0"
    by (auto simp: flag_mask_def)
  show "(flags AND flag_mask (Suc k) = 0) = (\<not> bit flags k)"
    using and_single_bit_nonzero [of flags k] by (auto simp: flag_mask_def)
  show "flag_mask 8 = 0x80" "flag_mask 0 = 0" by (simp_all add: flag_mask_def)
qed

lemma load_flags:
  assumes "sint dstIdx < sint expandSize"
  shows "decode_loop src dst expandSize srcIdx dstIdx 0 flags m =
    decode_loop src dst expandSize (srcIdx + 1) dstIdx 0x80 (ucast (m (src + srcIdx))) m"
  using assms by (subst (1 2) decode_loop.simps) simp

lemma decode_stops: "\<not> sint dstIdx < sint expandSize \<Longrightarrow>
    decode_loop src dst expandSize srcIdx dstIdx msk flags m = Some (Decoded m expandSize)"
  by (subst decode_loop.simps) simp

lemma encodes_kept: "encodes S m p k flags ts \<Longrightarrow> kept dst n m m' \<Longrightarrow> S \<inter> in_buffer dst n = {} \<Longrightarrow> encodes S m' p k flags ts"
  by (erule encodes_cong) (auto simp: kept_def)

lemma expand_done: "N \<le> length out \<Longrightarrow> expand N ts out = Complete out"
  by (cases "(N, ts, out)" rule: expand.cases) auto

lemma u32_less: "d < 4294967296 \<Longrightarrow> e < 4294967296 \<Longrightarrow> (of_nat d < (of_nat e :: u32)) = (d < e)"
  by (simp add: word_less_nat_alt u32_of_nat)

definition follows :: "u32 \<Rightarrow> nat \<Rightarrow> expansion \<Rightarrow> decoded option \<Rightarrow> bool" where
  "follows dst N e r \<longleftrightarrow>
     (case e of Complete out \<Rightarrow> (case r of Some (Decoded m' k) \<Rightarrow> k = of_nat N \<and> out_at m' dst out | _ \<Rightarrow> False)
      | Malformed \<Rightarrow> (case r of Some (Aborted m') \<Rightarrow> True | _ \<Rightarrow> False)
      | Truncated \<Rightarrow> True)"

lemma decode_loop_follows:
  assumes "encodes S m (src + srcIdx) k flags ts" "\<forall>t\<in>set ts. token_ok t" "k \<le> 8" "out_at m dst out" "length out \<le> N"
    and N: "N < 2147483648" and S: "S \<inter> in_buffer dst N = {}"
  shows "follows dst N (expand N ts out) (decode_loop src dst (of_nat N) srcIdx (of_nat (length out)) (flag_mask k) flags m)"
  using assms(1-5)
proof (induction ts arbitrary: srcIdx k flags out m)
  case Nil
  have "\<not> sint (of_nat (length out) :: u32) < sint (of_nat N :: u32)" if "N \<le> length out"
    using that Nil.prems(5) by simp
  then show ?case using Nil.prems(4) by (auto simp: follows_def decode_stops)
next
  case (Cons t ts)
  have uN: "unat (of_nat N :: u32) = N" "unat (of_nat (length out) :: u32) = length out"
    using N Cons.prems(5) by (simp_all add: u32_of_nat)
  have si: "sint (of_nat N :: u32) = int N" "sint (of_nat (length out) :: u32) = int (length out)"
    using sint_small [of "of_nat N"] sint_small [of "of_nat (length out)"] uN N Cons.prems(5) by simp_all
  have step: "follows dst N (expand N (t # ts) out)
      (decode_loop src dst (of_nat N) srcIdx (of_nat (length out)) (flag_mask (Suc j)) flags m)"
    if j: "j < 8" and e: "encodes S m (src + srcIdx) (Suc j) flags (t # ts)" and less: "length out < N" for j srcIdx flags
  proof -
    note fm = flag_mask_step(1,3) [OF j] flag_mask_step(2) [OF j, of flags]
    have cond: "sint (of_nat (length out) :: u32) < sint (of_nat N :: u32)" using less by (simp only: si)
    have E: "bit flags j = is_literal t" "bytes_at S m (src + srcIdx) (token_bytes t)"
      "encodes S m (src + (srcIdx + of_nat (length (token_bytes t)))) j flags ts"
      using e by (simp_all add: add.assoc)
    have ok: "\<forall>t\<in>set ts. token_ok t" using Cons.prems(2) by simp
    show ?thesis
    proof (cases t)
      case (Literal b)
      let ?m = "m(dst + of_nat (length out) := b)"
      have K: "kept dst N m ?m" by (rule kept_write [OF _ kept_refl]) (use uN less in simp)
      have b: "m (src + srcIdx) = b" using E(2) Literal by simp
      have "decode_loop src dst (of_nat N) srcIdx (of_nat (length out)) (flag_mask (Suc j)) flags m =
          decode_loop src dst (of_nat N) (srcIdx + 1) (of_nat (length (out @ [b]))) (flag_mask j) flags ?m"
        using cond fm E(1) b Literal by (subst decode_loop.simps) (simp add: add.commute)
      moreover have "follows dst N (expand N ts (out @ [b]))
          (decode_loop src dst (of_nat N) (srcIdx + 1) (of_nat (length (out @ [b]))) (flag_mask j) flags ?m)"
        by (rule Cons.IH [OF _ ok])
          (use encodes_kept [OF E(3) K S] Literal j less N out_at_snoc [OF Cons.prems(4)] in \<open>auto simp del: fun_upd_apply\<close>)
      ultimately show ?thesis using less Literal by simp
    next
      case (Reference d n)
      have rr: "read_reference src srcIdx m = (of_nat d, of_nat n, srcIdx + of_nat (length (token_bytes t)))"
        using read_reference_token [of d n S m src srcIdx] E(2) Cons.prems(2) Reference by auto
      have ok': "1 \<le> d" "d \<le> 4096" "n \<le> 273" using Cons.prems(2) Reference by auto
      have far: "(of_nat (length out) < (of_nat d :: u32)) = (length out < d)"
        by (rule u32_less) (use ok' less N in auto)
      have un: "unat (of_nat n :: u32) = n" by (rule u32_of_nat) (use ok' in simp)
      show ?thesis
      proof (cases "length out < d")
        case True
        then show ?thesis using cond fm E(1) Reference rr far less
          by (subst decode_loop.simps) (simp add: follows_def)
      next
        case False
        have "(of_nat (length out) :: u32) - of_nat d = of_nat (length out - d)" using False by simp
        note L = this
        note C = copy_run_copies [where n = n, OF Cons.prems(4) ok'(1) _ Cons.prems(5)]
        show ?thesis
        proof (cases "length out + n \<le> N")
          case True
          then obtain m' where c: "copy_run dst (of_nat N) n (of_nat (length out - d)) (of_nat (length out)) m = Inr (of_nat (length out + n), m')"
            "out_at m' dst (copied d n out)" using C False N by (auto simp del: of_nat_diff)
          have K: "kept dst N m m'"
            using copy_run_bounds [where dstIdx = "of_nat (length out)" and expandSize = "of_nat N" and dst = dst and n = n and
                copyIdx = "of_nat (length out - d)" and m = m] uN Cons.prems(5) c(1) by simp
          have "decode_loop src dst (of_nat N) srcIdx (of_nat (length out)) (flag_mask (Suc j)) flags m =
              decode_loop src dst (of_nat N) (srcIdx + of_nat (length (token_bytes t))) (of_nat (length (copied d n out))) (flag_mask j) flags m'"
            using cond fm E(1) Reference rr far False un c(1) L by (subst decode_loop.simps) (simp del: of_nat_diff)
          moreover have "follows dst N (expand N ts (copied d n out))
              (decode_loop src dst (of_nat N) (srcIdx + of_nat (length (token_bytes t))) (of_nat (length (copied d n out))) (flag_mask j) flags m')"
            by (rule Cons.IH [OF _ ok]) (use encodes_kept [OF E(3) K S] j True c(2) in auto)
          ultimately show ?thesis using less Reference False True by simp
        next
          case bad: False
          then obtain m' where c: "copy_run dst (of_nat N) n (of_nat (length out - d)) (of_nat (length out)) m = Inl m'"
            using C False N by (auto simp del: of_nat_diff)
          then show ?thesis using cond fm E(1) Reference rr far False un L less bad
            by (subst decode_loop.simps) (simp add: follows_def del: of_nat_diff)
        qed
      qed
    qed
  qed
  show ?case
  proof (cases "length out < N")
    case False
    then have "\<not> sint (of_nat (length out) :: u32) < sint (of_nat N :: u32)" by (simp only: si)
    then show ?thesis using False Cons.prems(4) by (simp add: follows_def decode_stops expand_done)
  next
    case less: True
    show ?thesis
    proof (cases k)
      case (Suc j)
      then show ?thesis using step [of j] Cons.prems(1,3) less by simp
    next
      case 0
      have cond: "sint (of_nat (length out) :: u32) < sint (of_nat N :: u32)" using less by (simp only: si)
      have "encodes S m (src + (srcIdx + 1)) 8 (ucast (m (src + srcIdx))) (t # ts)"
        using Cons.prems(1) 0 by (simp add: add.assoc)
      from step [of 7, OF _ _ less] this show ?thesis
        using 0 flag_mask_step(4,5) [of 0] load_flags [OF cond] by simp
    qed
  qed
qed

section \<open>An encoder\<close>

fun flag_byte :: "nat \<Rightarrow> token list \<Rightarrow> nat" where
  "flag_byte 0 ts = 0"
| "flag_byte (Suc k) [] = 0"
| "flag_byte (Suc k) (t # ts) = (if is_literal t then 2 ^ k else 0) + flag_byte k ts"

text \<open>The stream from a point where \<open>k\<close> tokens of the current group are still to come.\<close>

function encode :: "nat \<Rightarrow> token list \<Rightarrow> u8 list" where
  "encode k [] = []"
| "encode 0 (t # ts) = of_nat (flag_byte 8 (t # ts)) # encode 8 (t # ts)"
| "encode (Suc k) (t # ts) = token_bytes t @ encode k ts"
  by pat_completeness auto
termination
  by (relation "measure (\<lambda>(k, ts). 2 * length ts + (if k = 0 then 1 else 0))") auto

lemma flag_byte_less: "flag_byte k ts < 2 ^ k"
  by (induction k ts rule: flag_byte.induct) (auto split: if_splits)

lemma flag_byte_bits:
  "bit (flag_byte (Suc k) (t # ts)) k = is_literal t"
  "j < k \<Longrightarrow> bit (flag_byte (Suc k) (t # ts)) j = bit (flag_byte k ts) j"
proof -
  have l: "flag_byte k ts < 2 ^ k" by (rule flag_byte_less)
  have "(2 ^ k + flag_byte k ts) div 2 ^ k = 1 + flag_byte k ts div 2 ^ k" using l div_add_self1 [of "2 ^ k" "flag_byte k ts"] by simp
  then show "bit (flag_byte (Suc k) (t # ts)) k = is_literal t" using l by (simp add: bit_iff_odd)
  assume "j < k"
  then have "k = j + Suc (k - Suc j)" by simp
  then have p: "(2 :: nat) ^ k = 2 * 2 ^ (k - Suc j) * 2 ^ j" by (metis power_Suc power_add mult.commute)
  have "(2 ^ k + flag_byte k ts) div 2 ^ j = 2 * 2 ^ (k - Suc j) + flag_byte k ts div 2 ^ j" unfolding p by simp
  then show "bit (flag_byte (Suc k) (t # ts)) j = bit (flag_byte k ts) j" by (simp add: bit_iff_odd)
qed

lemma bytes_at_append: "bytes_at S m p (as @ bs) = (bytes_at S m p as \<and> bytes_at S m (p + of_nat (length as)) bs)"
  by (induction as arbitrary: p) (simp_all add: add.assoc)

lemma encodes_encode:
  assumes "bytes_at S m p (encode k ts)" "k \<le> 8" "\<forall>j<k. bit flags j = bit (flag_byte k ts) j"
  shows "encodes S m p k flags ts"
  using assms
proof (induction k ts arbitrary: p flags rule: encode.induct)
  case (2 t ts)
  have "bit (ucast (of_nat (flag_byte 8 (t # ts)) :: u8) :: u32) j = bit (flag_byte 8 (t # ts)) j" if "j < 8" for j
    using that by (simp add: bit_ucast_iff bit_of_nat_iff)
  then show ?case using 2 by simp
next
  case (3 k t ts)
  have "\<forall>j<k. bit flags j = bit (flag_byte k ts) j"
    using 3 flag_byte_bits(2) [of _ k t ts] by simp
  then show ?case using 3 flag_byte_bits(1) [of k t ts] by (simp add: bytes_at_append)
qed simp

section \<open>What the decoder guarantees\<close>

text \<open>A file with the given header size and tokens lies at \<open>src\<close>, apart from the output buffer.\<close>

definition szs_file :: "u32 \<Rightarrow> u32 \<Rightarrow> nat \<Rightarrow> token list \<Rightarrow> guest_bytes \<Rightarrow> bool" where
  "szs_file src dst N ts m \<longleftrightarrow>
     unat (expand_size src m) = N \<and> N < 2147483648 \<and> (\<forall>t\<in>set ts. token_ok t) \<and>
     bytes_at (UNIV - in_buffer dst N) m (src + 16) (encode 0 ts)"

lemma decode_run_follows:
  assumes "szs_file src dst N ts m"
  shows "follows dst N (expand N ts []) (EGG_Decomp_decodeSZS src dst m)"
proof -
  note F = assms [unfolded szs_file_def]
  have e: "expand_size src m = of_nat N" using F by auto
  have "encodes (UNIV - in_buffer dst N) m (src + 16) 0 0 ts" by (rule encodes_encode) (use F in simp_all)
  from decode_loop_follows [OF this, where out = "[]" and dst = dst and N = N] F show ?thesis
    unfolding EGG_Decomp_decodeSZS_def e by (auto simp: out_at_def flag_mask_def)
qed

text \<open>C6: on every input, well formed or not, the decoder returns or aborts, and in both cases it has
  changed no byte outside the output buffer of the announced size; when it returns, it reports that
  size.\<close>

theorem decode_terminates_in_bounds:
  "case EGG_Decomp_decodeSZS src dst m of
     None \<Rightarrow> False
   | Some (Aborted m') \<Rightarrow> {a. m' a \<noteq> m a} \<subseteq> {dst + of_nat i |i. i < unat (expand_size src m)}
   | Some (Decoded m' r) \<Rightarrow> r = expand_size src m \<and> {a. m' a \<noteq> m a} \<subseteq> {dst + of_nat i |i. i < unat r}"
  using decode_run_bounds [of dst src m]
  by (auto simp: decode_safe_def kept_def in_buffer_def split: option.splits decoded.splits)

text \<open>C7: the decoder computes the meaning of the format: for a file that encodes a sequence of
  literals and back-references it writes their expansion to the output buffer when the expansion has
  the announced size, and aborts when a reference reaches before the output or past its end.\<close>

theorem decode_computes_expansion:
  assumes "szs_file src dst N ts m"
  shows "case expand N ts [] of
      Complete out \<Rightarrow> (\<exists>m'. EGG_Decomp_decodeSZS src dst m = Some (Decoded m' (of_nat N)) \<and>
        map (\<lambda>i. m' (dst + of_nat i)) [0..<length out] = out)
    | Malformed \<Rightarrow> (\<exists>m'. EGG_Decomp_decodeSZS src dst m = Some (Aborted m'))
    | Truncated \<Rightarrow> True"
  using decode_run_follows [OF assms]
  by (auto simp: follows_def out_at_def split: expansion.splits option.splits decoded.splits intro!: nth_equalityI)

lemma expand_literals: "expand (length out + length data) (map Literal data) out = Complete (out @ data)"
proof (induction data arbitrary: out)
  case (Cons b data)
  then show ?case using Cons.IH [of "out @ [b]"] by simp
qed simp

text \<open>C38: decoding the encoding of a byte string returns the string.\<close>

theorem decode_encode_roundtrip:
  assumes "szs_file src dst (length data) (map Literal data) m"
  shows "\<exists>m'. EGG_Decomp_decodeSZS src dst m = Some (Decoded m' (of_nat (length data))) \<and>
    map (\<lambda>i. m' (dst + of_nat i)) [0..<length data] = data"
  using decode_run_follows [OF assms] expand_literals [of "[]" data]
  by (auto simp: follows_def out_at_def split: option.splits decoded.splits intro!: nth_equalityI)

text \<open>A header size of two gigabytes or more is read as negative: the decoder writes nothing and
  still reports the announced size as decoded.\<close>

theorem huge_size_decodes_nothing:
  assumes "2147483648 \<le> unat (expand_size src m)"
  shows "EGG_Decomp_decodeSZS src dst m = Some (Decoded m (expand_size src m))"
proof -
  have "sint (expand_size src m) = int (unat (expand_size src m)) - 4294967296"
    using assms by (simp only: sint_unat not_less [symmetric] if_False)
  then have "\<not> sint (0 :: u32) < sint (expand_size src m)"
    using u32_bound [of "expand_size src m"] unfolding sint_0 by linarith
  then show ?thesis unfolding EGG_Decomp_decodeSZS_def by (rule decode_stops)
qed

section \<open>A concrete file\<close>

lemma in_buffer_iff: "n < 4294967296 \<Longrightarrow> a \<in> in_buffer dst n \<longleftrightarrow> unat (a - dst) < n"
proof
  assume n: "n < 4294967296" and "a \<in> in_buffer dst n"
  then obtain i where "a = dst + of_nat i" "i < n" by (auto simp: in_buffer_def)
  then show "unat (a - dst) < n" using n u32_of_nat [of i] by simp
next
  assume "unat (a - dst) < n"
  then show "a \<in> in_buffer dst n" using in_bufferI [of "a - dst" n dst] by simp
qed

definition demo_tokens :: "token list" where
  "demo_tokens = [Literal 7, Literal 9, Reference 2 5]"

definition demo_szs :: guest_bytes where
  "demo_szs = (\<lambda>_. 0)(0x80001007 := 7, 0x80001010 := 0xC0, 0x80001011 := 7, 0x80001012 := 9, 0x80001013 := 0x30, 0x80001014 := 1)"

definition demo_literal :: guest_bytes where
  "demo_literal = (\<lambda>_. 0)(0x80001007 := 3, 0x80001010 := 0xE0, 0x80001011 := 1, 0x80001012 := 2, 0x80001013 := 3)"

lemma demo_encode:
  "encode 0 demo_tokens = [0xC0, 7, 9, 0x30, 1]" "encode 0 (map Literal [1, 2, 3]) = [0xE0, 1, 2, 3]"
proof -
  have 8: "(8 :: nat) = Suc (Suc (Suc (Suc (Suc (Suc (Suc (Suc 0)))))))" by simp
  show "encode 0 demo_tokens = [0xC0, 7, 9, 0x30, 1]" "encode 0 (map Literal [1, 2, 3]) = [0xE0, 1, 2, 3]"
    by (simp_all add: demo_tokens_def 8)
qed

lemma demo_szs_file: "szs_file 0x80001000 0x80002000 7 demo_tokens demo_szs"
  unfolding szs_file_def demo_encode
  by (simp add: expand_size_def demo_szs_def in_buffer_iff) (simp add: demo_tokens_def)

lemma demo_literal_file: "szs_file 0x80001000 0x80002000 (length [1, 2, 3 :: u8]) (map Literal [1, 2, 3]) demo_literal"
  unfolding szs_file_def demo_encode
  by (simp add: expand_size_def demo_literal_def in_buffer_iff)

lemma decode_computes_expansion_witness:
  "\<exists>m'. EGG_Decomp_decodeSZS 0x80001000 0x80002000 demo_szs = Some (Decoded m' 7) \<and>
     map (\<lambda>i. m' (0x80002000 + of_nat i)) [0..<7] = [7, 9, 7, 9, 7, 9, 7]"
proof -
  have "expand 7 demo_tokens [] = Complete [7, 9, 7, 9, 7, 9, 7]" by (simp add: demo_tokens_def eval_nat_numeral)
  moreover have "length [7, 9, 7, 9, 7, 9, 7 :: u8] = 7" by simp
  ultimately show ?thesis using decode_computes_expansion [OF demo_szs_file] by (simp only: expansion.case) simp
qed

lemma decode_encode_roundtrip_witness:
  "\<exists>m'. EGG_Decomp_decodeSZS 0x80001000 0x80002000 demo_literal = Some (Decoded m' 3) \<and>
     map (\<lambda>i. m' (0x80002000 + of_nat i)) [0..<3] = [1, 2, 3]"
proof -
  have "length [1, 2, 3 :: u8] = 3" by simp
  then show ?thesis using decode_encode_roundtrip [OF demo_literal_file] by (simp only:) simp
qed

lemma huge_size_decodes_nothing_witness:
  "EGG_Decomp_decodeSZS 0 0 (\<lambda>_. 0x80) = Some (Decoded (\<lambda>_. 0x80) 0x80808080)"
  using huge_size_decodes_nothing [of 0 "\<lambda>_. 0x80"] by (simp add: expand_size_def)

end
