(* ===== verification/TextMaps.thy ===== *)
theory TextMaps
  imports Prelude "HOL-Library.Char_ord" "HOL-Library.List_Lexorder"
begin

text \<open>
  What the components that work on text share: \<open>std::map\<close> as an association list kept in key order
  (strings are compared byte by byte, as \<open>std::string\<close> does), and paths as lists of elements.
\<close>

section \<open>Ordered maps\<close>

fun ord_put :: "'k :: linorder \<Rightarrow> 'v \<Rightarrow> ('k \<times> 'v) list \<Rightarrow> ('k \<times> 'v) list" where
  "ord_put k v [] = [(k, v)]"
| "ord_put k v ((k', v') # m) =
     (if k < k' then (k, v) # (k', v') # m else if k = k' then (k, v) # m else (k', v') # ord_put k v m)"

lemma map_of_ord_put [simp]: "map_of (ord_put k v m) = (map_of m)(k \<mapsto> v)"
  by (induction m) (auto simp: fun_eq_iff)

lemma keys_ord_put [simp]: "fst ` set (ord_put k v m) = insert k (fst ` set m)"
  by (simp add: dom_map_of_conv_image_fst [symmetric])

lemma ord_put_ordered: "sorted_wrt (<) (map fst m) \<Longrightarrow> sorted_wrt (<) (map fst (ord_put k v m))"
proof (induction m)
  case (Cons x m)
  then have rest: "\<forall>y\<in>fst ` set m. fst x < y" by auto
  show ?case
  proof (cases "k < fst x \<or> k = fst x")
    case True
    then show ?thesis using Cons.prems rest by (cases x) (auto intro: less_trans)
  next
    case False
    then have "fst x < k" by auto
    then have "\<forall>y\<in>fst ` set (ord_put k v m). fst x < y" using rest by simp
    then show ?thesis using Cons False by (cases x) auto
  qed
qed simp

text \<open>A map in key order has no key twice.\<close>

lemma ordered_distinct: "sorted_wrt (<) (xs :: 'a :: linorder list) \<Longrightarrow> distinct xs"
  by (induction xs) auto

section \<open>Elements of paths\<close>

definition slash :: char where "slash = CHR ''/''"
definition backslash :: char where "backslash = CHR 0x5C"

fun split_slash :: "string \<Rightarrow> string list" where
  "split_slash [] = [[]]"
| "split_slash (c # cs) =
     (if c = slash then [] # split_slash cs
      else case split_slash cs of [] \<Rightarrow> [[c]] | e # es \<Rightarrow> (c # e) # es)"

definition proper :: "string \<Rightarrow> bool" where
  "proper e \<longleftrightarrow> e \<noteq> [] \<and> e \<noteq> ''.'' \<and> e \<noteq> ''..'' \<and> slash \<notin> set e"

lemma split_slash_nonempty [simp]: "split_slash s \<noteq> []"
  by (induction s) (auto split: list.splits)

lemma split_slash_no_slash: "e \<in> set (split_slash s) \<Longrightarrow> slash \<notin> set e"
  by (induction s arbitrary: e) (auto split: list.splits if_splits)

lemma split_slash_unfold:
  "split_slash s = takeWhile (\<lambda>c. c \<noteq> slash) s #
     (let after = dropWhile (\<lambda>c. c \<noteq> slash) s in if after = [] then [] else split_slash (tl after))"
  by (induction s) (auto simp: Let_def)

end
