(* ===== verification/Riivolution.thy ===== *)
theory Riivolution
  imports TextMaps "HOL-Library.Sublist"
begin

text \<open>
  Riivolution patch descriptions (\<open>runtime/include/hle/riivolution_contract.h\<close>): reading a parsed XML
  document into the data model, matching a game, selecting options, generating the active patches, and
  resolving the paths of replacement files inside the patch's directory.

  The XML text itself is parsed by a third-party library; the model starts from its element tree.
  A \<open>std::map\<close> is an association list kept in key order.  \<open>std::optional\<close> is an option, and so is the
  result of a call that may throw for an index out of range.
\<close>

section \<open>The element tree\<close>

datatype xml_node = XmlNode (xml_name: string) (xml_attributes: "(string \<times> string) list") (xml_children: "xml_node list")

definition FindAttribute :: "string \<Rightarrow> xml_node \<Rightarrow> string option" where
  "FindAttribute a n = map_of (xml_attributes n) a"

definition Attribute :: "string \<Rightarrow> string \<Rightarrow> xml_node \<Rightarrow> string" where
  "Attribute a fallback n = (case FindAttribute a n of None \<Rightarrow> fallback | Some v \<Rightarrow> v)"

definition AttributeBool :: "string \<Rightarrow> bool \<Rightarrow> xml_node \<Rightarrow> bool" where
  "AttributeBool a fallback n =
    (case FindAttribute a n of None \<Rightarrow> fallback
     | Some v \<Rightarrow> if v \<in> {''true'', ''1'', ''yes''} then True else if v \<in> {''false'', ''0'', ''no''} then False else fallback)"

definition digit_value :: "nat \<Rightarrow> char \<Rightarrow> nat option" where
  "digit_value base c =
    (if CHR ''0'' \<le> c \<and> c \<le> CHR ''9'' then Some (of_char c - of_char CHR ''0'')
     else if base = 16 \<and> CHR ''a'' \<le> c \<and> c \<le> CHR ''f'' then Some (of_char c - of_char CHR ''a'' + 10)
     else if base = 16 \<and> CHR ''A'' \<le> c \<and> c \<le> CHR ''F'' then Some (of_char c - of_char CHR ''A'' + 10)
     else None)"

fun parse_digits :: "nat \<Rightarrow> nat \<Rightarrow> string \<Rightarrow> nat option" where
  "parse_digits base result [] = Some result"
| "parse_digits base result (c # cs) =
     (case digit_value base c of None \<Rightarrow> None
      | Some d \<Rightarrow> let result = result * base + d in if result > 0xFFFFFFFF then None else parse_digits base result cs)"

definition uint_of_text :: "string \<Rightarrow> nat \<Rightarrow> nat" where
  "uint_of_text text fallback =
    (if text = [] then fallback
     else let hex = length text > 2 \<and> text ! 0 = CHR ''0'' \<and> (text ! 1 = CHR ''x'' \<or> text ! 1 = CHR ''X'')
       in case (if hex then parse_digits 16 0 (drop 2 text) else parse_digits 10 0 text) of
            None \<Rightarrow> fallback | Some r \<Rightarrow> r)"

definition AttributeUint :: "string \<Rightarrow> nat \<Rightarrow> xml_node \<Rightarrow> nat" where
  "AttributeUint a fallback n = (case FindAttribute a n of None \<Rightarrow> fallback | Some v \<Rightarrow> uint_of_text v fallback)"

definition to_int32 :: "int \<Rightarrow> int" where
  "to_int32 k = (k + 2147483648) mod 4294967296 - 2147483648"

definition AttributeInt :: "string \<Rightarrow> int \<Rightarrow> xml_node \<Rightarrow> int" where
  "AttributeInt a fallback n =
    (case FindAttribute a n of None \<Rightarrow> fallback
     | Some v \<Rightarrow>
         if v = [] then fallback
         else let negative = (v ! 0 = CHR ''-'');
                  magnitude = uint_of_text (if negative then drop 1 v else v) 0x80000000
              in if magnitude = 0x80000000 \<and> \<not> negative then fallback
                 else if negative then to_int32 (- to_int32 (int magnitude)) else to_int32 (int magnitude))"

section \<open>The data model\<close>

record game_filter =
  gf_game :: "string option"
  gf_developer :: "string option"
  gf_disc :: "int option"
  gf_version :: "int option"
  gf_regions :: "string list option"

record patch_reference =
  ref_id :: string
  ref_params :: "(string \<times> string) list"

record choice =
  choice_name :: string
  choice_patches :: "patch_reference list"

record patch_option =
  option_name :: string
  option_id :: string
  option_choices :: "choice list"
  selectedChoice :: nat

record patch_section =
  section_name :: string
  section_options :: "patch_option list"

record file_patch =
  file_disc :: string
  file_external :: string
  file_resize :: bool
  file_create :: bool
  file_offset :: nat
  file_fileoffset :: nat
  file_length :: nat

record folder_patch =
  folder_disc :: string
  folder_external :: string
  folder_resize :: bool
  folder_create :: bool
  folder_recursive :: bool
  folder_length :: nat

record savegame =
  save_external :: string
  save_clone :: bool

record memory_patch =
  mem_offset :: nat
  mem_value :: string
  mem_valuefile :: string
  mem_original :: string
  mem_ocarina :: bool
  mem_search :: bool
  mem_align :: nat

record patch =
  patch_id :: string
  patch_root :: string
  filePatches :: "file_patch list"
  folderPatches :: "folder_patch list"
  savegamePatches :: "savegame list"
  memoryPatches :: "memory_patch list"

record disc =
  disc_version :: int
  gameFilter :: game_filter
  disc_sections :: "patch_section list"
  disc_patches :: "patch list"

record config_option =
  config_id :: string
  defaultChoice :: nat

record config =
  config_version :: int
  config_options :: "config_option list"

record option_selection =
  sel_section :: string
  sel_option :: string
  sel_choice :: nat

section \<open>Reading the description\<close>

definition nodes_named :: "string \<Rightarrow> xml_node \<Rightarrow> xml_node list" where
  "nodes_named name n = filter (\<lambda>c. xml_name c = name) (xml_children n)"

definition ReadParams :: "xml_node \<Rightarrow> (string \<times> string) list \<Rightarrow> (string \<times> string) list" where
  "ReadParams n params =
     fold (\<lambda>p m. ord_put (Attribute ''name'' [] p) (Attribute ''value'' [] p) m) (nodes_named ''param'' n) params"

definition read_id :: "xml_node \<Rightarrow> game_filter \<Rightarrow> game_filter" where
  "read_id n f =
    (let f = fold (\<lambda>(a, v) f.
           if a = ''game'' then f\<lparr>gf_game := Some v\<rparr>
           else if a = ''developer'' then f\<lparr>gf_developer := Some v\<rparr>
           else if a = ''disc'' then f\<lparr>gf_disc := Some (AttributeInt ''disc'' (- 1) n)\<rparr>
           else if a = ''version'' then f\<lparr>gf_version := Some (AttributeInt ''version'' (- 1) n)\<rparr>
           else f) (xml_attributes n) f;
         regions = map (Attribute ''type'' []) (nodes_named ''region'' n)
     in if regions \<noteq> [] then f\<lparr>gf_regions := Some regions\<rparr> else f)"

definition read_choice :: "(string \<times> string) list \<Rightarrow> xml_node \<Rightarrow> choice" where
  "read_choice optionParams n =
    (let choiceParams = ReadParams n optionParams
     in \<lparr>choice_name = Attribute ''name'' [] n,
         choice_patches = map (\<lambda>p. \<lparr>ref_id = Attribute ''id'' [] p, ref_params = ReadParams p choiceParams\<rparr>)
           (nodes_named ''patch'' n)\<rparr>)"

definition read_option :: "xml_node \<Rightarrow> patch_option" where
  "read_option n =
    \<lparr>option_name = Attribute ''name'' [] n, option_id = Attribute ''id'' [] n,
     option_choices = map (read_choice (ReadParams n [])) (nodes_named ''choice'' n),
     selectedChoice = AttributeUint ''default'' 0 n\<rparr>"

definition read_section :: "xml_node \<Rightarrow> patch_section" where
  "read_section n = \<lparr>section_name = Attribute ''name'' [] n, section_options = map read_option (nodes_named ''option'' n)\<rparr>"

definition read_file :: "xml_node \<Rightarrow> file_patch" where
  "read_file n = \<lparr>file_disc = Attribute ''disc'' [] n, file_external = Attribute ''external'' [] n,
     file_resize = AttributeBool ''resize'' True n, file_create = AttributeBool ''create'' False n,
     file_offset = AttributeUint ''offset'' 0 n, file_fileoffset = AttributeUint ''fileoffset'' 0 n,
     file_length = AttributeUint ''length'' 0 n\<rparr>"

definition read_folder :: "xml_node \<Rightarrow> folder_patch" where
  "read_folder n = \<lparr>folder_disc = Attribute ''disc'' [] n, folder_external = Attribute ''external'' [] n,
     folder_resize = AttributeBool ''resize'' True n, folder_create = AttributeBool ''create'' False n,
     folder_recursive = AttributeBool ''recursive'' True n, folder_length = AttributeUint ''length'' 0 n\<rparr>"

definition read_memory :: "xml_node \<Rightarrow> memory_patch" where
  "read_memory n = \<lparr>mem_offset = AttributeUint ''offset'' 0 n, mem_value = Attribute ''value'' [] n,
     mem_valuefile = Attribute ''valuefile'' [] n, mem_original = Attribute ''original'' [] n,
     mem_ocarina = AttributeBool ''ocarina'' False n, mem_search = AttributeBool ''search'' False n,
     mem_align = AttributeUint ''align'' 1 n\<rparr>"

definition read_patch :: "string \<Rightarrow> xml_node \<Rightarrow> patch" where
  "read_patch defaultRoot n =
    (let root = Attribute ''root'' [] n
     in \<lparr>patch_id = Attribute ''id'' [] n, patch_root = (if root = [] then defaultRoot else root),
         filePatches = map read_file (nodes_named ''file'' n),
         folderPatches = map read_folder (nodes_named ''folder'' n),
         savegamePatches = map (\<lambda>s. \<lparr>save_external = Attribute ''external'' [] s, save_clone = AttributeBool ''clone'' True s\<rparr>)
           (nodes_named ''savegame'' n),
         memoryPatches = map read_memory (nodes_named ''memory'' n)\<rparr>)"

definition read_node :: "string \<Rightarrow> xml_node \<Rightarrow> disc \<Rightarrow> disc" where
  "read_node defaultRoot n d =
    (if xml_name n = ''id'' then d\<lparr>gameFilter := read_id n (gameFilter d)\<rparr>
     else if xml_name n = ''options'' then d\<lparr>disc_sections := disc_sections d @ map read_section (nodes_named ''section'' n)\<rparr>
     else if xml_name n = ''patch'' then d\<lparr>disc_patches := disc_patches d @ [read_patch defaultRoot n]\<rparr>
     else d)"

definition empty_filter :: game_filter where
  "empty_filter = \<lparr>gf_game = None, gf_developer = None, gf_disc = None, gf_version = None, gf_regions = None\<rparr>"

text \<open>The argument is what the XML library makes of the text.\<close>

definition ParseString :: "xml_node option \<Rightarrow> disc option" where
  "ParseString xml =
    (case xml of None \<Rightarrow> None
     | Some root \<Rightarrow>
         if xml_name root \<noteq> ''wiidisc'' then None
         else let version = AttributeInt ''version'' (- 1) root
           in if version \<noteq> 1 then None
              else Some (fold (read_node (Attribute ''root'' [] root)) (xml_children root)
                \<lparr>disc_version = version, gameFilter = empty_filter, disc_sections = [], disc_patches = []\<rparr>))"

definition ParseConfigString :: "xml_node option \<Rightarrow> config option" where
  "ParseConfigString xml =
    (case xml of None \<Rightarrow> None
     | Some root \<Rightarrow>
         if xml_name root \<noteq> ''riivolution'' then None
         else let version = AttributeInt ''version'' (- 1) root
           in if version \<noteq> 2 then None
              else Some \<lparr>config_version = version,
                config_options = map (\<lambda>n. \<lparr>config_id = Attribute ''id'' [] n, defaultChoice = AttributeUint ''default'' 0 n\<rparr>)
                  (nodes_named ''option'' root)\<rparr>)"

section \<open>Matching and generating\<close>

definition IsValidForGame :: "string \<Rightarrow> nat option \<Rightarrow> nat option \<Rightarrow> disc \<Rightarrow> bool" where
  "IsValidForGame gameId revision discNumber d =
    (if length gameId \<noteq> 6 then False
     else let f = gameFilter d; num = (\<lambda>n. case n of None \<Rightarrow> - 1 | Some k \<Rightarrow> int k)
       in \<not> (case gf_game f of None \<Rightarrow> False | Some g \<Rightarrow> \<not> prefix g gameId) \<and>
          \<not> (case gf_developer f of None \<Rightarrow> False | Some g \<Rightarrow> take 2 (drop 4 gameId) \<noteq> g) \<and>
          \<not> (case gf_disc f of None \<Rightarrow> False | Some g \<Rightarrow> num discNumber \<noteq> g) \<and>
          \<not> (case gf_version f of None \<Rightarrow> False | Some g \<Rightarrow> num revision \<noteq> g) \<and>
          \<not> (case gf_regions f of None \<Rightarrow> False | Some rs \<Rightarrow> rs \<noteq> [] \<and> take 1 (drop 3 gameId) \<notin> set rs))"

definition placeholder :: "string \<Rightarrow> string" where
  "placeholder name = ''{$'' @ name @ ''}''"

function replaceVariables :: "(string \<times> string) list \<Rightarrow> string \<Rightarrow> string" where
  "replaceVariables replacements [] = []"
| "replaceVariables replacements (c # cs) =
     (case List.find (\<lambda>(name, value). prefix (placeholder name) (c # cs)) replacements of
        Some (name, value) \<Rightarrow> value @ replaceVariables replacements (drop (length (placeholder name)) (c # cs))
      | None \<Rightarrow> c # replaceVariables replacements cs)"
  by pat_completeness auto
termination
  by (relation "measure (\<lambda>(rs, s). length s)") (auto simp: placeholder_def)

definition patch_replacements :: "string \<Rightarrow> patch_reference \<Rightarrow> (string \<times> string) list" where
  "patch_replacements gameId r =
     [(''__gameid'', take 3 gameId), (''__region'', take 1 (drop 3 gameId)),
      (''__maker'', if length gameId \<ge> 6 then take 2 (drop 4 gameId) else [])] @ ref_params r"

definition instantiate_patch :: "(string \<times> string) list \<Rightarrow> patch \<Rightarrow> patch" where
  "instantiate_patch rs p =
    (let sub = replaceVariables rs
     in p\<lparr>patch_root := sub (patch_root p),
          filePatches := map (\<lambda>f. f\<lparr>file_disc := sub (file_disc f), file_external := sub (file_external f)\<rparr>) (filePatches p),
          folderPatches := map (\<lambda>f. f\<lparr>folder_disc := sub (folder_disc f), folder_external := sub (folder_external f)\<rparr>) (folderPatches p),
          savegamePatches := map (\<lambda>s. s\<lparr>save_external := sub (save_external s)\<rparr>) (savegamePatches p),
          memoryPatches := map (\<lambda>m. m\<lparr>mem_valuefile := sub (mem_valuefile m)\<rparr>) (memoryPatches p)\<rparr>)"

definition selected_references :: "patch_option \<Rightarrow> patch_reference list" where
  "selected_references opt =
    (let selected = selectedChoice opt
     in if selected = 0 \<or> selected > length (option_choices opt) then []
        else choice_patches (option_choices opt ! (selected - 1)))"

definition active_patch :: "string \<Rightarrow> disc \<Rightarrow> patch_reference \<Rightarrow> patch list" where
  "active_patch gameId d r =
    (case List.find (\<lambda>p. patch_id p = ref_id r) (disc_patches d) of
       None \<Rightarrow> [] | Some p \<Rightarrow> [instantiate_patch (patch_replacements gameId r) p])"

text \<open>\<open>None\<close> when \<open>substr\<close> throws: a game identifier of fewer than three characters.\<close>

definition GeneratePatches :: "string \<Rightarrow> disc \<Rightarrow> patch list option" where
  "GeneratePatches gameId d =
    (if length gameId < 3 then None
     else Some (concat (map (active_patch gameId d)
       (concat (map (\<lambda>s. concat (map selected_references (section_options s))) (disc_sections d))))))"

section \<open>Choosing options\<close>

definition map_options :: "(patch_section \<Rightarrow> patch_option \<Rightarrow> patch_option) \<Rightarrow> disc \<Rightarrow> disc" where
  "map_options f d =
     d\<lparr>disc_sections := map (\<lambda>s. s\<lparr>section_options := map (f s) (section_options s)\<rparr>) (disc_sections d)\<rparr>"

definition config_matches :: "config_option \<Rightarrow> patch_section \<Rightarrow> patch_option \<Rightarrow> bool" where
  "config_matches c s opt =
    (if option_id opt = [] then section_name s @ option_name opt = config_id c else option_id opt = config_id c)"

definition ApplyConfigDefaults :: "disc \<Rightarrow> config \<Rightarrow> disc" where
  "ApplyConfigDefaults d config =
     fold (\<lambda>c. map_options (\<lambda>s opt. if config_matches c s opt then opt\<lparr>selectedChoice := defaultChoice c\<rparr> else opt))
       (config_options config) d"

definition selection_matches :: "option_selection \<Rightarrow> patch_section \<Rightarrow> patch_option \<Rightarrow> bool" where
  "selection_matches sel s opt \<longleftrightarrow>
     \<not> (sel_section sel \<noteq> [] \<and> section_name s \<noteq> sel_section sel) \<and>
     (option_id opt \<noteq> [] \<and> option_id opt = sel_option sel \<or> option_name opt = sel_option sel) \<and>
     sel_choice sel \<le> length (option_choices opt)"

definition ApplySelections :: "disc \<Rightarrow> option_selection list \<Rightarrow> disc" where
  "ApplySelections d selections =
     fold (\<lambda>sel. map_options (\<lambda>s opt. if selection_matches sel s opt then opt\<lparr>selectedChoice := sel_choice sel\<rparr> else opt))
       selections d"

section \<open>Paths of replacement files\<close>

definition strip_back :: "string \<Rightarrow> string" where
  "strip_back s = rev (dropWhile (\<lambda>c. c = slash) (rev s))"

text \<open>\<open>result.resize(result.rfind('/'))\<close>.\<close>

definition cut_last :: "string \<Rightarrow> string option" where
  "cut_last s = (if slash \<in> set s then Some (rev (tl (dropWhile (\<lambda>c. c \<noteq> slash) (rev s)))) else None)"

lemma tl_dropWhile_less: "work \<noteq> [] \<Longrightarrow> length (dropWhile P work) - Suc 0 < length work"
proof -
  assume "work \<noteq> []"
  then have "0 < length work" by simp
  then show ?thesis using length_dropWhile_le [of P work] by linarith
qed

function resolve_loop :: "string \<Rightarrow> nat \<Rightarrow> string \<Rightarrow> string option" where
  "resolve_loop work depth result =
    (if work = [] then Some result
     else let element = takeWhile (\<lambda>c. c \<noteq> slash) work;
              after = dropWhile (\<lambda>c. c \<noteq> slash) work;
              next_step = (\<lambda>depth result. if after = [] then Some result else resolve_loop (tl after) depth result)
       in if element = ''.'' then next_step depth result
          else if element = ''..'' then
            (if depth = 0 then None
             else case cut_last result of None \<Rightarrow> None | Some result \<Rightarrow> next_step (depth - 1) result)
          else if element \<noteq> [] then next_step (depth + 1) (result @ [slash] @ element)
          else next_step depth result)"
  by pat_completeness auto
termination
  by (relation "measure (\<lambda>(work, depth, result). length work)") (auto simp: tl_dropWhile_less)

declare resolve_loop.simps [simp del]

definition MakeAbsoluteFromRelative :: "string \<Rightarrow> string \<Rightarrow> string \<Rightarrow> string option" where
  "MakeAbsoluteFromRelative sdRoot patchRoot external =
    (if backslash \<in> set external then None
     else let absolute = (external \<noteq> [] \<and> external ! 0 = slash)
       in resolve_loop (strip_back (dropWhile (\<lambda>c. c = slash) external)) 0
            (strip_back (if absolute then sdRoot else patchRoot)))"

definition ResolvePatchRoot :: "string \<Rightarrow> string \<Rightarrow> string \<Rightarrow> string" where
  "ResolvePatchRoot sdRoot xmlDirectory rootAttribute =
    (if rootAttribute \<noteq> [] then
       (case MakeAbsoluteFromRelative sdRoot xmlDirectory rootAttribute of Some r \<Rightarrow> r | None \<Rightarrow> xmlDirectory)
     else xmlDirectory)"

definition FindSavegamePatch :: "patch list \<Rightarrow> savegame option" where
  "FindSavegamePatch ps = map_option (\<lambda>p. savegamePatches p ! 0) (List.find (\<lambda>p. savegamePatches p \<noteq> []) ps)"

section \<open>The sandbox\<close>

text \<open>The specification: the path as a list of elements, walked over a stack.\<close>

fun walk_elements :: "string list \<Rightarrow> string list \<Rightarrow> string list option" where
  "walk_elements [] stack = Some stack"
| "walk_elements (e # es) stack =
     (if e = [] \<or> e = ''.'' then walk_elements es stack
      else if e = ''..'' then (if stack = [] then None else walk_elements es (butlast stack))
      else walk_elements es (stack @ [e]))"

definition below :: "string \<Rightarrow> string list \<Rightarrow> string" where
  "below base stack = base @ concat (map (\<lambda>e. slash # e) stack)"

lemma below_snoc: "below base (stack @ [e]) = below base stack @ [slash] @ e"
  by (simp add: below_def)

lemma cut_last_below:
  assumes "slash \<notin> set e"
  shows "cut_last (below base (stack @ [e])) = Some (below base stack)"
proof -
  have "dropWhile (\<lambda>c. c \<noteq> slash) (rev (below base (stack @ [e]))) = slash # rev (below base stack)"
    using assms by (simp add: below_snoc dropWhile_append)
  then show ?thesis by (simp add: cut_last_def below_snoc)
qed

lemma resolve_loop_walks:
  assumes "\<forall>e\<in>set stack. proper e"
  shows "resolve_loop work (length stack) (below base stack) =
    (if work = [] then Some (below base stack) else map_option (below base) (walk_elements (split_slash work) stack))"
  using assms
proof (induction "length work" arbitrary: work stack rule: less_induct)
  case less
  show ?case
  proof (cases "work = []")
    case False
    define e where "e = takeWhile (\<lambda>c. c \<noteq> slash) work"
    define after where "after = dropWhile (\<lambda>c. c \<noteq> slash) work"
    have es: "slash \<notin> set e" by (auto simp: e_def dest: set_takeWhileD)
    have sp: "split_slash work = e # (if after = [] then [] else split_slash (tl after))"
      by (rule split_slash_unfold [of work, folded e_def after_def, unfolded Let_def])
    have rec: "(if after = [] then Some (below base st) else resolve_loop (tl after) (length st) (below base st)) =
        map_option (below base) (walk_elements (if after = [] then [] else split_slash (tl after)) st)"
      if "\<forall>e\<in>set st. proper e" for st
    proof (cases "after = []")
      case ne: False
      have "length (tl after) < length work" using tl_dropWhile_less [OF False] by (simp add: after_def)
      from less.hyps [OF this that] show ?thesis using ne walk_elements.simps(1) by (cases "tl after = []") auto
    qed simp
    have up: "stack = butlast stack @ [last stack]" "\<forall>e\<in>set (butlast stack). proper e" "slash \<notin> set (last stack)"
      if "stack \<noteq> []"
      using that less.prems in_set_butlastD [of _ stack] by (auto simp: proper_def)
    show ?thesis
    proof (cases "e = ''..''")
      case True
      show ?thesis
      proof (cases "stack = []")
        case True
        then show ?thesis using False \<open>e = ''..''\<close>
          by (subst resolve_loop.simps) (simp add: sp e_def [symmetric] Let_def)
      next
        case ne: False
        have cl: "cut_last (below base stack) = Some (below base (butlast stack))"
          using cut_last_below [OF up(3) [OF ne], of base "butlast stack"] up(1) [OF ne] by simp
        have "length stack \<noteq> 0" "length stack - 1 = length (butlast stack)" using ne by simp_all
        then show ?thesis using rec [OF up(2) [OF ne]] cl ne
          unfolding resolve_loop.simps [of work] e_def [symmetric] after_def [symmetric] Let_def sp True
          by (simp only: False if_False walk_elements.simps simp_thms option.case) simp
      qed
    next
      case nu: False
      show ?thesis
      proof (cases "e = [] \<or> e = ''.''")
        case True
        then show ?thesis using False rec [OF less.prems]
          by (subst resolve_loop.simps) (auto simp: sp e_def [symmetric] after_def [symmetric] Let_def)
      next
        case ok: False
        have "\<forall>x\<in>set (stack @ [e]). proper x" using less.prems ok nu es by (auto simp: proper_def)
        from rec [OF this] show ?thesis using False ok nu
          by (subst resolve_loop.simps, cases "after = []")
            (simp_all add: sp e_def [symmetric] after_def [symmetric] Let_def below_snoc)
      qed
    qed
  qed (subst resolve_loop.simps, simp)
qed

lemma walk_proper: "walk_elements es stack = Some st \<Longrightarrow> \<forall>e\<in>set stack. proper e \<Longrightarrow> \<forall>e\<in>set es. slash \<notin> set e \<Longrightarrow> \<forall>e\<in>set st. proper e"
proof (induction es arbitrary: stack)
  case (Cons e es)
  consider "e = [] \<or> e = ''.''" | "e = ''..''" "stack \<noteq> []" | "e \<noteq> []" "e \<noteq> ''.''" "e \<noteq> ''..''"
    using Cons.prems(1) by (cases "e = [] \<or> e = ''.''"; cases "e = ''..''"; cases "stack = []") (simp_all only: walk_elements.simps, auto)
  then show ?case
  proof cases
    case 1
    then show ?thesis using Cons.IH [of stack] Cons.prems by (simp split: if_splits)
  next
    case 2
    have "\<forall>e\<in>set (butlast stack). proper e" using Cons.prems(2) by (blast dest: in_set_butlastD)
    then show ?thesis using Cons.IH [of "butlast stack"] Cons.prems 2 by simp
  next
    case 3
    have "proper e" using 3 Cons.prems(3) by (simp add: proper_def)
    then show ?thesis using Cons.IH [of "stack @ [e]"] Cons.prems 3 by simp
  qed
qed simp

lemma split_slash_snoc: "split_slash (s @ [slash]) = split_slash s @ [[]]"
  by (induction s) (auto split: list.splits)

lemma walk_snoc_empty: "walk_elements (es @ [[]]) stack = walk_elements es stack"
  by (induction es stack rule: walk_elements.induct) auto

lemma walk_lead: "walk_elements (split_slash (dropWhile (\<lambda>c. c = slash) s)) [] = walk_elements (split_slash s) []"
  by (induction s) auto

lemma walk_trail: "walk_elements (split_slash (strip_back s)) [] = walk_elements (split_slash s) []"
proof (induction s rule: rev_induct)
  case (snoc c s)
  then show ?case by (cases "c = slash") (simp_all add: strip_back_def split_slash_snoc walk_snoc_empty)
qed (simp add: strip_back_def)

lemma make_absolute_walks:
  "MakeAbsoluteFromRelative sdRoot patchRoot ext =
    (if backslash \<in> set ext then None
     else map_option (below (strip_back (if ext \<noteq> [] \<and> ext ! 0 = slash then sdRoot else patchRoot)))
       (walk_elements (split_slash ext) []))"
proof -
  let ?w = "strip_back (dropWhile (\<lambda>c. c = slash) ext)" and ?b = "strip_back (if ext \<noteq> [] \<and> ext ! 0 = slash then sdRoot else patchRoot)"
  have w: "walk_elements (split_slash ?w) [] = walk_elements (split_slash ext) []" by (simp only: walk_trail walk_lead)
  have b: "?b = below ?b []" by (simp add: below_def)
  have "resolve_loop ?w 0 ?b = map_option (below ?b) (walk_elements (split_slash ?w) [])"
    using resolve_loop_walks [of "[]" ?w ?b] b by (cases "?w = []") auto
  then show ?thesis by (simp add: MakeAbsoluteFromRelative_def w Let_def)
qed

text \<open>C13: a replacement path never leaves its root: whenever resolution succeeds, the result is the
  root (the card for a path with a leading slash, the patch's directory otherwise) followed by plain
  names, none of them empty, dot, dot-dot or containing a slash; it fails exactly on a backslash or on a
  path that climbs above the root at any point.\<close>

theorem resolved_paths_stay_below_root:
  "case MakeAbsoluteFromRelative sdRoot patchRoot ext of
     None \<Rightarrow> backslash \<in> set ext \<or> walk_elements (split_slash ext) [] = None
   | Some p \<Rightarrow> backslash \<notin> set ext \<and> (\<exists>names. walk_elements (split_slash ext) [] = Some names \<and>
       p = strip_back (if ext \<noteq> [] \<and> ext ! 0 = slash then sdRoot else patchRoot) @ concat (map (\<lambda>e. slash # e) names) \<and>
       list_all proper names)"
proof -
  have "list_all proper st" if "walk_elements (split_slash ext) [] = Some st" for st
    using walk_proper [OF that] split_slash_no_slash by (auto simp: list_all_iff)
  then show ?thesis unfolding make_absolute_walks by (auto simp: below_def split: option.splits)
qed

section \<open>Placeholders\<close>

text \<open>A template is literal text and placeholders; \<open>render\<close> writes it the way an author does, \<open>expand_template\<close> is
  what it should become.\<close>

datatype piece = Lit string | Var string

definition render :: "piece list \<Rightarrow> string" where
  "render t = concat (map (\<lambda>p. case p of Lit s \<Rightarrow> s | Var n \<Rightarrow> placeholder n) t)"

definition expand_template :: "(string \<times> string) list \<Rightarrow> piece list \<Rightarrow> string" where
  "expand_template rs t = concat (map (\<lambda>p. case p of Lit s \<Rightarrow> s
     | Var n \<Rightarrow> (case map_of rs n of None \<Rightarrow> placeholder n | Some v \<Rightarrow> v)) t)"

definition plain :: "string \<Rightarrow> bool" where
  "plain s \<longleftrightarrow> CHR ''{'' \<notin> set s \<and> CHR ''}'' \<notin> set s"

fun plain_piece :: "piece \<Rightarrow> bool" where
  "plain_piece (Lit s) = (CHR ''{'' \<notin> set s)"
| "plain_piece (Var n) = plain n"

lemma replace_skip: "CHR ''{'' \<notin> set s \<Longrightarrow> replaceVariables rs (s @ u) = s @ replaceVariables rs u"
proof (induction s)
  case (Cons c s)
  have "List.find (\<lambda>(name, value). prefix (placeholder name) (c # (s @ u))) rs = None"
    using Cons.prems by (auto simp: find_None_iff placeholder_def)
  then show ?case using Cons by simp
qed simp

lemma prefix_bounded:
  assumes "x \<notin> set a" "x \<notin> set b"
  shows "prefix (a @ [x]) (b @ x # u) \<longleftrightarrow> a = b"
  using assms
proof (induction a arbitrary: b)
  case Nil
  then show ?case by (cases b) auto
next
  case (Cons c a)
  then show ?case by (cases b) auto
qed

lemma prefix_placeholder:
  assumes "plain n" "plain m"
  shows "prefix (placeholder m) (placeholder n @ u) \<longleftrightarrow> m = n"
  using prefix_bounded [of "CHR ''}''" m n u] assms by (simp add: placeholder_def plain_def)

lemma find_placeholder:
  assumes "plain n" "\<forall>(m, v)\<in>set rs. plain m"
  shows "List.find (\<lambda>(m, v). prefix (placeholder m) (placeholder n @ u)) rs = map_option (Pair n) (map_of rs n)"
  using assms(2)
proof (induction rs)
  case (Cons r rs)
  then show ?case using prefix_placeholder [OF assms(1), of "fst r" u] by (cases r) auto
qed simp

lemma replace_placeholder:
  assumes "plain n" "\<forall>(m, v)\<in>set rs. plain m"
  shows "replaceVariables rs (placeholder n @ u) =
    (case map_of rs n of None \<Rightarrow> placeholder n | Some v \<Rightarrow> v) @ replaceVariables rs u"
proof -
  obtain cs where cs: "placeholder n = CHR ''{'' # cs" "CHR ''{'' \<notin> set cs"
    using assms(1) by (simp add: placeholder_def plain_def)
  have f: "List.find (\<lambda>(m, v). prefix (placeholder m) (CHR ''{'' # (cs @ u))) rs = map_option (Pair n) (map_of rs n)"
    using find_placeholder [OF assms, of u] by (simp add: cs(1))
  have d: "drop (length (placeholder n)) (CHR ''{'' # (cs @ u)) = u" by (simp add: cs(1))
  show ?thesis using f d by (cases "map_of rs n") (simp_all add: cs replace_skip)
qed

text \<open>Placeholders are substituted in one pass: text outside placeholders is kept, a placeholder with a
  replacement becomes the value of the first one of that name (so the built-in game, region and maker
  variables win over parameters of the same name), an unknown placeholder stays as written, and a value
  that looks like a placeholder is not expanded again.\<close>

theorem replaceVariables_expands:
  assumes "\<forall>p\<in>set t. plain_piece p" "\<forall>(m, v)\<in>set rs. plain m"
  shows "replaceVariables rs (render t) = expand_template rs t"
  using assms(1)
proof (induction t)
  case (Cons p t)
  then show ?case using assms(2)
    by (cases p) (simp_all add: render_def expand_template_def replace_skip replace_placeholder)
qed (simp add: render_def expand_template_def)

lemma replaceVariables_expands_witness:
  "replaceVariables [(''__gameid'', ''RMC''), (''lang'', ''{$__gameid}''), (''__gameid'', ''XXX'')]
     (''/'' @ placeholder ''__gameid'' @ ''/'' @ placeholder ''lang'' @ placeholder ''other'') = ''/RMC/{$__gameid}{$other}''"
proof -
  let ?t = "[Lit ''/'', Var ''__gameid'', Lit ''/'', Var ''lang'', Var ''other'']"
  let ?rs = "[(''__gameid'', ''RMC''), (''lang'', ''{$__gameid}''), (''__gameid'', ''XXX'')]"
  have "replaceVariables ?rs (render ?t) = expand_template ?rs ?t"
    by (rule replaceVariables_expands) (simp_all add: plain_def)
  then show ?thesis by (simp add: render_def expand_template_def placeholder_def)
qed

section \<open>Numbers\<close>

text \<open>A number attribute that starts with a minus sign and does not parse gives the smallest integer, not the
  fallback its caller asked for.\<close>

lemma unparsable_negative_loses_fallback:
  assumes "FindAttribute a n = Some (CHR ''-'' # v)" "v = [] \<or> digit_value 10 (v ! 0) = None"
  shows "AttributeInt a fallback n = - 2147483648"
proof -
  have "uint_of_text v 0x80000000 = 0x80000000"
  proof (cases v)
    case (Cons c cs)
    then have c: "digit_value 10 c = None" using assms(2) by simp
    then have "c \<noteq> CHR ''0''" by (auto simp: digit_value_def)
    then show ?thesis using c by (simp add: Cons uint_of_text_def)
  qed (simp add: uint_of_text_def)
  then show ?thesis using assms(1) by (simp add: AttributeInt_def to_int32_def)
qed

lemma unparsable_negative_loses_fallback_witness:
  "AttributeInt ''version'' (- 1) (XmlNode ''id'' [(''version'', ''-x'')] []) = - 2147483648"
  by (rule unparsable_negative_loses_fallback [of _ _ "''x''"]) (simp_all add: FindAttribute_def digit_value_def)

section \<open>Selections\<close>

text \<open>The last selection that applies to an option decides, whatever the earlier ones said.\<close>

definition last_choice :: "('s \<Rightarrow> bool) \<Rightarrow> ('s \<Rightarrow> nat) \<Rightarrow> 's list \<Rightarrow> nat \<Rightarrow> nat" where
  "last_choice P ch sels k = (if filter P sels = [] then k else ch (last (filter P sels)))"

lemma map_options_comp: "map_options g (map_options f d) = map_options (\<lambda>s opt. g (s\<lparr>section_options := map (f s) (section_options s)\<rparr>) (f s opt)) d"
  by (simp add: map_options_def)

lemma map_options_id: "map_options (\<lambda>s opt. opt) d = d"
  by (simp add: map_options_def)

lemma last_choice_snoc: "last_choice P ch (sels @ [x]) k = (if P x then ch x else last_choice P ch sels k)"
  by (simp add: last_choice_def)

lemma chosen_twice: "opt\<lparr>selectedChoice := a, selectedChoice := b\<rparr> = opt\<lparr>selectedChoice := b\<rparr>"
  by simp

lemma choose_if: "(if c then opt\<lparr>selectedChoice := a\<rparr> else opt\<lparr>selectedChoice := b\<rparr>) = opt\<lparr>selectedChoice := if c then a else b\<rparr>"
  by simp

lemma apply_selections_run:
  "ApplySelections d sels = map_options (\<lambda>s opt. opt\<lparr>selectedChoice :=
     last_choice (\<lambda>sel. selection_matches sel s opt) sel_choice sels (selectedChoice opt)\<rparr>) d"
proof (induction sels rule: rev_induct)
  case Nil
  then show ?case by (simp add: ApplySelections_def last_choice_def map_options_id)
next
  case (snoc x sels)
  have m: "selection_matches x (s\<lparr>section_options := os\<rparr>) (opt\<lparr>selectedChoice := k\<rparr>) = selection_matches x s opt" for s os opt k
    by (simp add: selection_matches_def)
  have "ApplySelections d (sels @ [x]) =
      map_options (\<lambda>s opt. if selection_matches x s opt then opt\<lparr>selectedChoice := sel_choice x\<rparr> else opt) (ApplySelections d sels)"
    by (simp add: ApplySelections_def)
  also have "\<dots> = map_options (\<lambda>s opt. opt\<lparr>selectedChoice :=
      last_choice (\<lambda>sel. selection_matches sel s opt) sel_choice (sels @ [x]) (selectedChoice opt)\<rparr>) d"
    unfolding snoc map_options_comp m last_choice_snoc choose_if [symmetric] chosen_twice ..
  finally show ?case .
qed

lemma apply_config_run:
  "ApplyConfigDefaults d cfg = map_options (\<lambda>s opt. opt\<lparr>selectedChoice :=
     last_choice (\<lambda>c. config_matches c s opt) defaultChoice (config_options cfg) (selectedChoice opt)\<rparr>) d"
proof -
  have "fold (\<lambda>c. map_options (\<lambda>s opt. if config_matches c s opt then opt\<lparr>selectedChoice := defaultChoice c\<rparr> else opt)) cs d =
      map_options (\<lambda>s opt. opt\<lparr>selectedChoice := last_choice (\<lambda>c. config_matches c s opt) defaultChoice cs (selectedChoice opt)\<rparr>) d" for cs
  proof (induction cs rule: rev_induct)
    case Nil
    then show ?case by (simp add: last_choice_def map_options_id)
  next
    case (snoc x cs)
    have m: "config_matches x (s\<lparr>section_options := os\<rparr>) (opt\<lparr>selectedChoice := k\<rparr>) = config_matches x s opt" for s os opt k
      by (simp add: config_matches_def)
    show ?case unfolding fold_append comp_def fold.simps id_apply snoc map_options_comp m last_choice_snoc choose_if [symmetric] chosen_twice ..
  qed
  then show ?thesis by (simp add: ApplyConfigDefaults_def)
qed

text \<open>Pinned selections win over remembered choices and later ones over earlier ones: after both have
  been applied each option has the choice of the last pin that addresses it with a choice it has,
  else of the last remembered entry that addresses it, else its own default; nothing else changes.\<close>

theorem pins_win_over_remembered_choices:
  "disc_sections (ApplySelections (ApplyConfigDefaults d cfg) pins) =
     map (\<lambda>s. s\<lparr>section_options := map (\<lambda>opt. opt\<lparr>selectedChoice :=
       last_choice (\<lambda>sel. selection_matches sel s opt) sel_choice pins
         (last_choice (\<lambda>c. config_matches c s opt) defaultChoice (config_options cfg) (selectedChoice opt))\<rparr>) (section_options s)\<rparr>)
       (disc_sections d) \<and>
   disc_patches (ApplySelections (ApplyConfigDefaults d cfg) pins) = disc_patches d"
proof -
  have m: "selection_matches x (s\<lparr>section_options := os\<rparr>) (opt\<lparr>selectedChoice := k\<rparr>) = selection_matches x s opt" for x s os opt k
    by (simp add: selection_matches_def)
  show ?thesis unfolding apply_selections_run apply_config_run map_options_comp by (simp add: map_options_def m)
qed

end
