(* ===== verification/DvdFst.thy ===== *)
theory DvdFst
  imports TextMaps GuestMemory
begin

unbundle bit_operations_syntax

text \<open>
  The file table of the emulated disc, \<open>runtime/include/hle/dvd_contract.h\<close>: canonical paths, the tree
  of registered files, its entries in preorder, the image of the table in the console's format, and where
  it is put below the arena.  Host paths are opaque, and strings of the host's path type.  What the
  source throws is a value of \<open>fst_error\<close>.

  The index fields of an entry are naturals: \<open>BuildImage\<close> refuses more entries than would fit the
  32-bit words they are stored in.
\<close>

section \<open>Paths\<close>

definition lower_char :: "char \<Rightarrow> char" where
  "lower_char c = (if CHR ''A'' \<le> c \<and> c \<le> CHR ''Z'' then char_of (of_char c + 32 :: nat) else c)"

definition Lowercase :: "string \<Rightarrow> string" where
  "Lowercase = map lower_char"

text \<open>The loop over the rest of the path, from \<open>cursor\<close> on.\<close>

lemma after_component:
  assumes "path \<noteq> []"
  shows "length (dropWhile (\<lambda>c. c \<noteq> slash) (dropWhile (\<lambda>c. c = slash) path)) < length path"
proof (cases path)
  case (Cons c cs)
  have "length (dropWhile (\<lambda>c. c \<noteq> slash) (dropWhile (\<lambda>c. c = slash) cs)) \<le> length cs"
    by (rule order_trans [OF length_dropWhile_le length_dropWhile_le])
  then show ?thesis using Cons length_dropWhile_le [of "\<lambda>c. c \<noteq> slash" cs] by auto
qed (use assms in simp)

function canonical_loop :: "string list \<Rightarrow> string \<Rightarrow> string list" where
  "canonical_loop components path =
     (if path = [] then components
      else let start = dropWhile (\<lambda>c. c = slash) path;
               component = takeWhile (\<lambda>c. c \<noteq> slash) start;
               after = dropWhile (\<lambda>c. c \<noteq> slash) start
           in if component = [] \<or> component = ''.'' then canonical_loop components after
              else if component = ''..'' then canonical_loop (butlast components) after
              else canonical_loop (components @ [component]) after)"
  by pat_completeness auto
termination by (relation "measure (length \<circ> snd)") (auto simp: after_component)

declare canonical_loop.simps [simp del]

fun join_components :: "string list \<Rightarrow> string" where
  "join_components [] = []"
| "join_components [c] = c"
| "join_components (c # cs) = c @ slash # join_components cs"

definition CanonicalizePath :: "string \<Rightarrow> string" where
  "CanonicalizePath path =
     slash # join_components (canonical_loop [] (map (\<lambda>c. if c = backslash then slash else c) path))"

definition NormalizeLookupPath :: "string \<Rightarrow> string" where
  "NormalizeLookupPath path = map lower_char (CanonicalizePath path)"

function path_parts :: "string \<Rightarrow> string list" where
  "path_parts path = (if path = [] then []
     else let part = takeWhile (\<lambda>c. c \<noteq> slash) path in part # path_parts (drop (length part + 1) path))"
  by pat_completeness auto
termination by (relation "measure length") auto

declare path_parts.simps [simp del]

definition Components :: "string \<Rightarrow> string list" where
  "Components canonicalPath = (if canonicalPath = ''/'' then [] else path_parts (drop 1 canonicalPath))"

section \<open>The tree of registered files\<close>

record registered_file =
  hostPath :: string
  dvdPath :: string
  file_size :: u32
  discOffsetWords :: u32

record indexed_entry = registered_file +
  parentIndex :: nat
  subtreeEnd :: nat
  isDirectory :: bool

record fst_image =
  entries :: "indexed_entry list"
  pathToEntry :: "(string \<times> nat) list"

datatype fst_error = RootAsFile | FileAndDirectory string | EmptyNode string | TooManyEntries | NameTableTooLong

datatype tree_node = TreeNode (node_name: string) (node_children: "(string \<times> tree_node) list")
  (node_file: "registered_file option")

definition empty_node :: "string \<Rightarrow> tree_node" where
  "empty_node name = TreeNode name [] None"

text \<open>Walking down from a node along the components, creating what is missing: the last node takes the
  file and its spelling of the name.\<close>

fun insert_path :: "registered_file \<Rightarrow> string \<Rightarrow> string list \<Rightarrow> tree_node \<Rightarrow> tree_node" where
  "insert_path file lastName [] (TreeNode name cs f) = TreeNode lastName cs (Some file)"
| "insert_path file lastName (component # rest) (TreeNode name cs f) =
     (let key = Lowercase component;
          child = (case map_of cs key of None \<Rightarrow> empty_node component | Some t \<Rightarrow> t)
      in TreeNode name (ord_put key (insert_path file lastName rest child) cs) f)"

definition insert_file :: "registered_file \<Rightarrow> tree_node \<Rightarrow> tree_node" where
  "insert_file file root =
     (let components = Components (dvdPath file) in insert_path file (List.last components) components root)"

text \<open>\<open>pathToEntry.emplace\<close> keeps what is there.\<close>

definition emplace :: "string \<Rightarrow> nat \<Rightarrow> (string \<times> nat) list \<Rightarrow> (string \<times> nat) list" where
  "emplace k v m = (if map_of m k = None then ord_put k v m else m)"

definition push_entry :: "indexed_entry \<Rightarrow> fst_image \<Rightarrow> fst_image" where
  "push_entry e img = img\<lparr>entries := entries img @ [e],
     pathToEntry := emplace (NormalizeLookupPath (dvdPath e)) (length (entries img)) (pathToEntry img)\<rparr>"

definition child_path :: "string \<Rightarrow> string \<Rightarrow> string" where
  "child_path directoryPath name = (if directoryPath = ''/'' then slash # name else directoryPath @ slash # name)"

function EmitTree :: "(string \<times> tree_node) list \<Rightarrow> nat \<Rightarrow> string \<Rightarrow> fst_image \<times> string list \<Rightarrow>
    fst_error + fst_image \<times> string list" where
  "EmitTree [] directoryIndex directoryPath st = Inr st"
| "EmitTree ((key, TreeNode name children file) # rest) directoryIndex directoryPath (img, names) =
     (let childPath = child_path directoryPath name; index = length (entries img)
      in if children \<noteq> [] then
           (if file \<noteq> None then Inl (FileAndDirectory childPath)
            else case EmitTree children index childPath
                (push_entry \<lparr>hostPath = [], dvdPath = childPath, file_size = 0, discOffsetWords = 0,
                   parentIndex = directoryIndex, subtreeEnd = 0, isDirectory = True\<rparr> img, names @ [name]) of
              Inl e \<Rightarrow> Inl e
            | Inr (img', names') \<Rightarrow> EmitTree rest directoryIndex directoryPath
                (img'\<lparr>entries := (entries img')[index := (entries img' ! index)\<lparr>subtreeEnd := length (entries img')\<rparr>]\<rparr>, names'))
         else case file of
           None \<Rightarrow> Inl (EmptyNode childPath)
         | Some f \<Rightarrow> EmitTree rest directoryIndex directoryPath
             (push_entry \<lparr>hostPath = hostPath f, dvdPath = childPath, file_size = file_size f,
                discOffsetWords = discOffsetWords f, parentIndex = directoryIndex, subtreeEnd = index + 1,
                isDirectory = False\<rparr> img, names @ [name]))"
  by pat_completeness auto
termination by (relation "measure (\<lambda>(cs, _). size_list (size_prod (\<lambda>_. 0) size) cs)") auto

section \<open>The image\<close>

text \<open>Later registrations of a path replace earlier ones.\<close>

fun collapse :: "registered_file list \<Rightarrow> (string \<times> registered_file) list \<Rightarrow> fst_error + (string \<times> registered_file) list" where
  "collapse [] filesByPath = Inr filesByPath"
| "collapse (file # files) filesByPath =
     (let canonical = CanonicalizePath (dvdPath file) in
      if canonical = ''/'' then Inl RootAsFile
      else collapse files (ord_put (NormalizeLookupPath canonical) (file\<lparr>dvdPath := canonical\<rparr>) filesByPath))"

definition to_bytes :: "string \<Rightarrow> u8 list" where
  "to_bytes = map (\<lambda>c. of_nat (of_char c))"

text \<open>The names, each ended by a zero byte, behind the empty name of the root; and their offsets.\<close>

fun name_table :: "string list \<Rightarrow> u8 list \<Rightarrow> nat list \<Rightarrow> fst_error + u8 list \<times> nat list" where
  "name_table [] stringTable nameOffsets = Inr (stringTable, nameOffsets)"
| "name_table (name # names) stringTable nameOffsets =
     (if int (length stringTable) > 0x00FFFFFF then Inl NameTableTooLong
      else name_table names (stringTable @ to_bytes name @ [0]) (nameOffsets @ [length stringTable]))"

definition entry_bytes :: "indexed_entry \<Rightarrow> nat \<Rightarrow> u8 list" where
  "entry_bytes e nameOffset =
     be_bytes32 ((if isDirectory e then 0x01000000 else 0) OR of_nat nameOffset) @
     be_bytes32 (if isDirectory e then of_nat (parentIndex e) else discOffsetWords e) @
     be_bytes32 (if isDirectory e then of_nat (subtreeEnd e) else file_size e)"

definition root_entry :: indexed_entry where
  "root_entry = \<lparr>hostPath = [], dvdPath = ''/'', file_size = 0, discOffsetWords = 0, parentIndex = 0,
     subtreeEnd = 0, isDirectory = True\<rparr>"

definition BuildImage :: "registered_file list \<Rightarrow> fst_error + fst_image \<times> u8 list" where
  "BuildImage registrations = (case collapse registrations [] of
     Inl e \<Rightarrow> Inl e
   | Inr filesByPath \<Rightarrow>
       (let root = fold (\<lambda>(k, file). insert_file file) filesByPath (TreeNode [] [] None);
            start = \<lparr>entries = [root_entry], pathToEntry = [(''/'', 0)]\<rparr>
        in case EmitTree (node_children root) 0 ''/'' (start, [[]]) of
             Inl e \<Rightarrow> Inl e
           | Inr (img, names) \<Rightarrow>
               (let n = length (entries img);
                    es = (entries img)[0 := (entries img ! 0)\<lparr>subtreeEnd := n\<rparr>]
                in if int n > 4294967295 div 12 then Inl TooManyEntries
                   else case name_table (tl names) [0] [0] of
                     Inl e \<Rightarrow> Inl e
                   | Inr (stringTable, nameOffsets) \<Rightarrow>
                       Inr (img\<lparr>entries := es\<rparr>, concat (map2 entry_bytes es nameOffsets) @ stringTable))))"

section \<open>Where the table is put\<close>

definition ReserveBelowArena :: "u32 \<Rightarrow> u32 \<Rightarrow> nat \<Rightarrow> u32 option" where
  "ReserveBelowArena arenaLo arenaHi byteCount =
     (if byteCount = 0 \<or> byteCount > 4294967295 \<or> arenaHi \<le> arenaLo then None
      else let size = of_nat byteCount in
        if size > arenaHi - arenaLo then None
        else let unaligned = arenaHi - size; address = unaligned AND NOT (32 - 1) in
          if address < arenaLo \<or> unat address + unat size > unat arenaHi then None
          else Some address)"

section \<open>Canonical paths\<close>

lemma canonical_loop_Nil [simp]: "canonical_loop cs [] = cs"
  by (simp add: canonical_loop.simps)

lemma takeWhile_part: "slash \<notin> set c \<Longrightarrow> takeWhile (\<lambda>x. x \<noteq> slash) (c @ slash # s) = c"
  by (induction c) auto

lemma dropWhile_part: "slash \<notin> set c \<Longrightarrow> dropWhile (\<lambda>x. x \<noteq> slash) (c @ slash # s) = slash # s"
  by (induction c) auto

lemma part_alone: "slash \<notin> set c \<Longrightarrow> takeWhile (\<lambda>x. x \<noteq> slash) c = c" "slash \<notin> set c \<Longrightarrow> dropWhile (\<lambda>x. x \<noteq> slash) c = []"
  by (auto simp: takeWhile_eq_all_conv dropWhile_eq_Nil_conv)

lemma proper_no_lead: "proper c \<Longrightarrow> dropWhile (\<lambda>x. x = slash) (c @ s) = c @ s"
  by (cases c) (auto simp: proper_def)

lemma join_Cons: "cs \<noteq> [] \<Longrightarrow> join_components (c # cs) = c @ slash # join_components cs"
  by (cases cs) auto

lemma canonical_loop_unfold:
  assumes "path \<noteq> []" "dropWhile (\<lambda>c. c = slash) path = start" "takeWhile (\<lambda>c. c \<noteq> slash) start = component"
    "dropWhile (\<lambda>c. c \<noteq> slash) start = after"
  shows "canonical_loop cs path =
    (if component = [] \<or> component = ''.'' then canonical_loop cs after
     else if component = ''..'' then canonical_loop (butlast cs) after else canonical_loop (cs @ [component]) after)"
  using assms by (subst canonical_loop.simps) (simp add: Let_def)

lemma canonical_loop_lead: "canonical_loop cs (slash # s) = canonical_loop cs s"
proof (cases "s = []")
  case True
  then show ?thesis by (subst canonical_loop_unfold [where start = "[]" and component = "[]" and after = "[]"]) simp_all
next
  case False
  then show ?thesis
    by (subst (1 2) canonical_loop_unfold [OF _ _ refl refl, where start = "dropWhile (\<lambda>c. c = slash) s"]) simp_all
qed

lemma canonical_loop_proper:
  "\<forall>c\<in>set cs. proper c \<Longrightarrow> \<forall>c\<in>set (canonical_loop cs path). proper c"
proof (induction cs path rule: canonical_loop.induct)
  case (1 cs path)
  show ?case
  proof (cases "path = []")
    case False
    define start where "start = dropWhile (\<lambda>c. c = slash) path"
    define component where "component = takeWhile (\<lambda>c. c \<noteq> slash) start"
    define after where "after = dropWhile (\<lambda>c. c \<noteq> slash) start"
    have c: "slash \<notin> set component" by (auto simp: component_def dest: set_takeWhileD)
    have bl: "\<forall>c\<in>set (butlast cs). proper c" using 1(4) by (auto dest: in_set_butlastD)
    note e = canonical_loop_unfold [OF False start_def [symmetric] component_def [symmetric] after_def [symmetric], of cs]
    note IH = 1(1-3) [OF False start_def component_def after_def]
    consider "component = [] \<or> component = ''.''" | "\<not> (component = [] \<or> component = ''.'')" "component = ''..''"
      | "\<not> (component = [] \<or> component = ''.'')" "component \<noteq> ''..''" by blast
    then show ?thesis
    proof cases
      case 1
      from IH(1) [OF 1 \<open>\<forall>c\<in>set cs. proper c\<close>] show ?thesis using 1 by (simp add: e)
    next
      case 2
      from IH(2) [OF 2 bl] show ?thesis using 2 by (simp add: e)
    next
      case 3
      then have "\<forall>c\<in>set (cs @ [component]). proper c" using \<open>\<forall>c\<in>set cs. proper c\<close> c by (auto simp: proper_def)
      from IH(3) [OF 3 this] show ?thesis using 3 by (simp add: e)
    qed
  next
    case True
    with \<open>\<forall>c\<in>set cs. proper c\<close> show ?thesis by simp
  qed
qed

text \<open>Joining plain components and splitting them again.\<close>

lemma canonical_loop_join:
  "\<forall>c\<in>set ds. proper c \<Longrightarrow> canonical_loop cs (join_components ds) = cs @ ds"
proof (induction ds arbitrary: cs)
  case (Cons d ds)
  have d: "slash \<notin> set d" "proper d" "d \<noteq> []" "d \<noteq> ''.''" "d \<noteq> ''..''" using Cons.prems by (auto simp: proper_def)
  show ?case
  proof (cases "ds = []")
    case True
    then show ?thesis
      using d canonical_loop_unfold [OF d(3) _ part_alone [OF d(1)], of cs] proper_no_lead [OF d(2), of "[]"] by simp
  next
    case False
    have ne: "d @ slash # join_components ds \<noteq> []" by simp
    have "canonical_loop (cs @ [d]) (slash # join_components ds) = cs @ d # ds"
      using Cons.IH [of "cs @ [d]"] Cons.prems by (simp add: canonical_loop_lead)
    then show ?thesis
      using False d(3-5) canonical_loop_unfold [OF ne proper_no_lead [OF d(2)] takeWhile_part [OF d(1)] dropWhile_part [OF d(1)], of cs]
      by (simp add: join_Cons)
  qed
qed simp

lemma path_parts_Nil [simp]: "path_parts [] = []"
  by (simp add: path_parts.simps)

lemma path_parts_unfold:
  "path \<noteq> [] \<Longrightarrow> takeWhile (\<lambda>c. c \<noteq> slash) path = part \<Longrightarrow> path_parts path = part # path_parts (drop (length part + 1) path)"
  by (subst path_parts.simps) (simp add: Let_def)

lemma path_parts_join: "\<forall>c\<in>set cs. proper c \<Longrightarrow> path_parts (join_components cs) = cs"
proof (induction cs)
  case (Cons c cs)
  have c: "slash \<notin> set c" "c \<noteq> []" using Cons.prems by (auto simp: proper_def)
  show ?case
  proof (cases "cs = []")
    case True
    then show ?thesis using path_parts_unfold [OF c(2) part_alone(1) [OF c(1)]] by simp
  next
    case False
    have ne: "c @ slash # join_components cs \<noteq> []" by simp
    show ?thesis
      using Cons False path_parts_unfold [OF ne takeWhile_part [OF c(1)]] by (simp add: join_Cons)
  qed
qed simp

text \<open>The components of a path.\<close>

definition path_components :: "string \<Rightarrow> string list" where
  "path_components path = canonical_loop [] (map (\<lambda>c. if c = backslash then slash else c) path)"

lemma canonicalize_components: "CanonicalizePath path = slash # join_components (path_components path)"
  by (simp add: CanonicalizePath_def path_components_def)

lemma path_components_proper: "\<forall>c\<in>set (path_components path). proper c"
  unfolding path_components_def by (rule canonical_loop_proper) simp

lemma canonical_loop_chars:
  "\<forall>c\<in>set cs. set c \<subseteq> A \<Longrightarrow> set path \<subseteq> A \<Longrightarrow> \<forall>c\<in>set (canonical_loop cs path). set c \<subseteq> A"
proof (induction cs path rule: canonical_loop.induct)
  case (1 cs path)
  show ?case
  proof (cases "path = []")
    case True
    with \<open>\<forall>c\<in>set cs. set c \<subseteq> A\<close> show ?thesis by simp
  next
    case False
    define start where "start = dropWhile (\<lambda>c. c = slash) path"
    define component where "component = takeWhile (\<lambda>c. c \<noteq> slash) start"
    define after where "after = dropWhile (\<lambda>c. c \<noteq> slash) start"
    have sub: "set component \<subseteq> A" "set after \<subseteq> A"
      using \<open>set path \<subseteq> A\<close> unfolding component_def after_def start_def by (auto dest!: set_takeWhileD set_dropWhileD)
    have bl: "\<forall>c\<in>set (butlast cs). set c \<subseteq> A" using \<open>\<forall>c\<in>set cs. set c \<subseteq> A\<close> by (auto dest: in_set_butlastD)
    note e = canonical_loop_unfold [OF False start_def [symmetric] component_def [symmetric] after_def [symmetric], of cs]
    note IH = 1(1-3) [OF False start_def component_def after_def]
    consider "component = [] \<or> component = ''.''" | "\<not> (component = [] \<or> component = ''.'')" "component = ''..''"
      | "\<not> (component = [] \<or> component = ''.'')" "component \<noteq> ''..''" by blast
    then show ?thesis
    proof cases
      case 1
      from IH(1) [OF 1 \<open>\<forall>c\<in>set cs. set c \<subseteq> A\<close> sub(2)] show ?thesis using 1 by (simp add: e)
    next
      case 2
      from IH(2) [OF 2 bl sub(2)] show ?thesis using 2 by (simp add: e)
    next
      case 3
      have "\<forall>c\<in>set (cs @ [component]). set c \<subseteq> A" using \<open>\<forall>c\<in>set cs. set c \<subseteq> A\<close> sub(1) by simp
      from IH(3) [OF 3 this sub(2)] show ?thesis using 3 by (simp add: e)
    qed
  qed
qed

lemma path_components_chars: "backslash \<notin> set (concat (path_components path))"
proof -
  have "slash \<noteq> backslash" by (simp add: slash_def backslash_def)
  then have "\<forall>c\<in>set (path_components path). set c \<subseteq> - {backslash}"
    unfolding path_components_def by (intro canonical_loop_chars) auto
  then show ?thesis by auto
qed

lemma join_chars: "set (join_components cs) \<subseteq> insert slash (set (concat cs))"
  by (induction cs rule: join_components.induct) auto

lemma canonical_join:
  assumes "\<forall>c\<in>set cs. proper c" "backslash \<notin> set (concat cs)"
  shows "CanonicalizePath (slash # join_components cs) = slash # join_components cs"
    "Components (slash # join_components cs) = cs"
proof -
  have "backslash \<notin> set (slash # join_components cs)"
    using join_chars [of cs] assms(2) by (auto simp: slash_def backslash_def)
  then have "map (\<lambda>c. if c = backslash then slash else c) (slash # join_components cs) = slash # join_components cs"
    by (intro map_idI) auto
  then show "CanonicalizePath (slash # join_components cs) = slash # join_components cs"
    using canonical_loop_join [OF assms(1), of "[]"] by (simp add: CanonicalizePath_def canonical_loop_lead)
  have "cs = []" if "join_components cs = []"
    using that assms(1) by (cases cs rule: join_components.cases) (auto simp: proper_def)
  then show "Components (slash # join_components cs) = cs"
    using path_parts_join [OF assms(1)] by (auto simp: Components_def slash_def)
qed

lemma canonicalize_idem: "CanonicalizePath (CanonicalizePath path) = CanonicalizePath path"
  and components_canonical: "Components (CanonicalizePath path) = path_components path"
  using canonical_join [OF path_components_proper path_components_chars, of path]
  by (simp_all add: canonicalize_components [of path])

section \<open>Emitting is flattening in preorder\<close>

definition dir_entry :: "string \<Rightarrow> nat \<Rightarrow> nat \<Rightarrow> indexed_entry" where
  "dir_entry path parent end_index = \<lparr>hostPath = [], dvdPath = path, file_size = 0, discOffsetWords = 0,
     parentIndex = parent, subtreeEnd = end_index, isDirectory = True\<rparr>"

definition file_entry :: "registered_file \<Rightarrow> string \<Rightarrow> nat \<Rightarrow> nat \<Rightarrow> indexed_entry" where
  "file_entry f path parent end_index = \<lparr>hostPath = hostPath f, dvdPath = path, file_size = file_size f,
     discOffsetWords = discOffsetWords f, parentIndex = parent, subtreeEnd = end_index, isDirectory = False\<rparr>"

lemma entry_fields [simp]:
  "dvdPath (dir_entry q d e) = q" "parentIndex (dir_entry q d e) = d" "subtreeEnd (dir_entry q d e) = e" "isDirectory (dir_entry q d e)"
  "dvdPath (file_entry f q d e) = q" "parentIndex (file_entry f q d e) = d" "subtreeEnd (file_entry f q d e) = e"
  "\<not> isDirectory (file_entry f q d e)" "hostPath (file_entry f q d e) = hostPath f" "file_size (file_entry f q d e) = file_size f"
  "discOffsetWords (file_entry f q d e) = discOffsetWords f" "(dir_entry q d e)\<lparr>subtreeEnd := e'\<rparr> = dir_entry q d e'"
  by (simp_all add: dir_entry_def file_entry_def)

function flat :: "nat \<Rightarrow> nat \<Rightarrow> string \<Rightarrow> (string \<times> tree_node) list \<Rightarrow> indexed_entry list" where
  "flat i d p [] = []"
| "flat i d p ((k, TreeNode n cs f) # rest) =
     (let q = child_path p n in
      if cs \<noteq> [] then
        (let sub = flat (Suc i) i q cs; e = Suc i + length sub in dir_entry q d e # sub @ flat e d p rest)
      else file_entry (the f) q d (Suc i) # flat (Suc i) d p rest)"
  by pat_completeness auto
termination by (relation "measure (\<lambda>(i, d, p, cs). size_list (size_prod (\<lambda>_. 0) size) cs)") auto

function flat_names :: "(string \<times> tree_node) list \<Rightarrow> string list" where
  "flat_names [] = []"
| "flat_names ((k, TreeNode n cs f) # rest) = n # flat_names cs @ flat_names rest"
  by pat_completeness auto
termination by (relation "measure (size_list (size_prod (\<lambda>_. 0) size))") auto

fun index_paths :: "nat \<Rightarrow> string list \<Rightarrow> (string \<times> nat) list \<Rightarrow> (string \<times> nat) list" where
  "index_paths i [] m = m"
| "index_paths i (q # qs) m = index_paths (Suc i) qs (emplace (NormalizeLookupPath q) i m)"

lemma index_paths_append: "index_paths i (xs @ ys) m = index_paths (i + length xs) ys (index_paths i xs m)"
  by (induction xs arbitrary: i m) auto

text \<open>Every node without children is a file, and no node with children is.\<close>

function leaves_are_files :: "(string \<times> tree_node) list \<Rightarrow> bool" where
  "leaves_are_files [] = True"
| "leaves_are_files ((k, TreeNode n cs f) # rest) =
     ((if cs = [] then f \<noteq> None else f = None) \<and> leaves_are_files cs \<and> leaves_are_files rest)"
  by pat_completeness auto
termination by (relation "measure (size_list (size_prod (\<lambda>_. 0) size))") auto

lemma EmitTree_flat:
  "EmitTree cs d p (img, names) = Inr (img', names') \<Longrightarrow>
   leaves_are_files cs \<and> entries img' = entries img @ flat (length (entries img)) d p cs \<and> names' = names @ flat_names cs \<and>
   pathToEntry img' = index_paths (length (entries img)) (map dvdPath (flat (length (entries img)) d p cs)) (pathToEntry img)"
proof (induction cs arbitrary: d p img names img' names' rule: flat_names.induct)
  case (2 key name children leaf rest)
  define q where "q = child_path p name"
  define i where "i = length (entries img)"
  show ?case
  proof (cases "children = []")
    case True
    then obtain f where f: "leaf = Some f" using 2(3) by (auto simp: Let_def split: option.splits)
    let ?img1 = "push_entry (file_entry f q d (Suc i)) img"
    have e: "EmitTree rest d p (?img1, names @ [name]) = Inr (img', names')"
      using 2(3) True f by (simp add: Let_def q_def i_def file_entry_def)
    show ?thesis using 2(2) [OF e] True f by (simp add: Let_def push_entry_def q_def [symmetric] i_def [symmetric])
  next
    case False
    then have f: "leaf = None" using 2(3) by (auto simp: Let_def split: if_splits)
    let ?img1 = "push_entry (dir_entry q d 0) img"
    obtain img1 names1 where e1: "EmitTree children i q (?img1, names @ [name]) = Inr (img1, names1)"
      using 2(3) False f by (auto simp: Let_def q_def i_def dir_entry_def split: sum.splits)
    let ?img2 = "img1\<lparr>entries := (entries img1)[i := (entries img1 ! i)\<lparr>subtreeEnd := length (entries img1)\<rparr>]\<rparr>"
    have e2: "EmitTree rest d p (?img2, names1) = Inr (img', names')"
      using 2(3) False f e1 by (simp add: Let_def q_def i_def dir_entry_def)
    have l1: "length (entries ?img1) = Suc i" by (simp add: push_entry_def i_def)
    define sub where "sub = flat (Suc i) i q children"
    have IH1: "leaves_are_files children" "entries img1 = entries img @ dir_entry q d 0 # sub" "names1 = names @ name # flat_names children"
      "pathToEntry img1 = index_paths (Suc i) (map dvdPath sub) (pathToEntry ?img1)"
      using 2(1) [OF e1] l1 by (simp_all add: sub_def push_entry_def)
    have len: "length (entries img1) = Suc i + length sub" using IH1(2) by (simp add: i_def)
    have es: "entries ?img2 = entries img @ dir_entry q d (Suc i + length sub) # sub"
      using IH1(2) len by (simp add: i_def nth_append list_update_append)
    have l2: "length (entries ?img2) = Suc i + length sub" using len by simp
    note IH2 = 2(2) [OF e2, unfolded l2 es]
    show ?thesis
      using False f IH1 IH2 by (simp add: Let_def q_def [symmetric] i_def [symmetric] sub_def [symmetric] push_entry_def index_paths_append)
  qed
qed simp

section \<open>The table is well nested\<close>

text \<open>Entries \<open>es\<close> numbered from \<open>i\<close> below a directory numbered \<open>d\<close>: every subtree is a nonempty range
  inside the table, files are alone in theirs, and an entry's parent is an earlier directory whose range
  contains the entry's.\<close>

definition nested :: "nat \<Rightarrow> nat \<Rightarrow> indexed_entry list \<Rightarrow> bool" where
  "nested i d es \<longleftrightarrow> (\<forall>j<length es. let e = es ! j in
     i + j < subtreeEnd e \<and> subtreeEnd e \<le> i + length es \<and> (isDirectory e \<or> subtreeEnd e = Suc (i + j)) \<and>
     (parentIndex e = d \<or> (i \<le> parentIndex e \<and> parentIndex e < i + j \<and> isDirectory (es ! (parentIndex e - i)) \<and>
        subtreeEnd e \<le> subtreeEnd (es ! (parentIndex e - i)))))"

lemma nested_Nil [simp]: "nested i d []"
  by (simp add: nested_def)

lemma nested_append:
  assumes "nested i d xs" "nested (i + length xs) d ys"
  shows "nested i d (xs @ ys)"
  unfolding nested_def
proof (intro allI impI)
  fix j assume j: "j < length (xs @ ys)"
  show "let e = (xs @ ys) ! j in i + j < subtreeEnd e \<and> subtreeEnd e \<le> i + length (xs @ ys) \<and>
      (isDirectory e \<or> subtreeEnd e = Suc (i + j)) \<and>
      (parentIndex e = d \<or> i \<le> parentIndex e \<and> parentIndex e < i + j \<and> isDirectory ((xs @ ys) ! (parentIndex e - i)) \<and>
        subtreeEnd e \<le> subtreeEnd ((xs @ ys) ! (parentIndex e - i)))"
  proof (cases "j < length xs")
    case True
    then show ?thesis using assms(1) unfolding nested_def Let_def by (auto simp: nth_append)
  next
    case False
    define k where "k = j - length xs"
    have k: "j = length xs + k" "k < length ys" using False j by (auto simp: k_def)
    define e where "e = ys ! k"
    have n: "i + length xs + k < subtreeEnd e" "subtreeEnd e \<le> i + length xs + length ys"
      "isDirectory e \<or> subtreeEnd e = Suc (i + length xs + k)"
      "parentIndex e = d \<or> (i + length xs \<le> parentIndex e \<and> parentIndex e < i + length xs + k \<and>
         isDirectory (ys ! (parentIndex e - (i + length xs))) \<and> subtreeEnd e \<le> subtreeEnd (ys ! (parentIndex e - (i + length xs))))"
      using assms(2) k(2) unfolding nested_def Let_def e_def by auto
    have "(xs @ ys) ! j = e" by (simp add: k e_def)
    moreover have "(xs @ ys) ! (q - i) = ys ! (q - (i + length xs))" if "i + length xs \<le> q" for q
      using that by (simp add: nth_append)
    ultimately show ?thesis using n k by auto
  qed
qed

lemma nested_dir:
  assumes "nested (Suc i) i sub" "e = Suc i + length sub"
  shows "nested i d (dir_entry q d e # sub)"
  unfolding nested_def
proof (intro allI impI)
  fix j assume j: "j < length (dir_entry q d e # sub)"
  show "let x = (dir_entry q d e # sub) ! j in i + j < subtreeEnd x \<and> subtreeEnd x \<le> i + length (dir_entry q d e # sub) \<and>
      (isDirectory x \<or> subtreeEnd x = Suc (i + j)) \<and>
      (parentIndex x = d \<or> i \<le> parentIndex x \<and> parentIndex x < i + j \<and>
        isDirectory ((dir_entry q d e # sub) ! (parentIndex x - i)) \<and>
        subtreeEnd x \<le> subtreeEnd ((dir_entry q d e # sub) ! (parentIndex x - i)))"
  proof (cases j)
    case 0
    then show ?thesis using assms(2) by simp
  next
    case (Suc k)
    then have k: "k < length sub" using j by simp
    define x where "x = sub ! k"
    have n: "Suc i + k < subtreeEnd x" "subtreeEnd x \<le> Suc i + length sub" "isDirectory x \<or> subtreeEnd x = Suc (Suc i + k)"
      "parentIndex x = i \<or> (Suc i \<le> parentIndex x \<and> parentIndex x < Suc i + k \<and> isDirectory (sub ! (parentIndex x - Suc i)) \<and>
         subtreeEnd x \<le> subtreeEnd (sub ! (parentIndex x - Suc i)))"
      using assms(1) k unfolding nested_def Let_def x_def by auto
    have "(dir_entry q d e # sub) ! (q' - i) = sub ! (q' - Suc i)" if "Suc i \<le> q'" for q'
      using that by (simp add: nth_Cons' diff_Suc split: nat.splits)
    then show ?thesis using n assms(2) Suc by (auto simp: x_def [symmetric])
  qed
qed

lemma nested_file: "nested i d [file_entry f q d (Suc i)]"
  by (simp add: nested_def)

lemma flat_nested: "nested i d (flat i d p cs)"
proof (induction i d p cs rule: flat.induct)
  case (2 i d p k n cs f rest)
  define q where "q = child_path p n"
  show ?case
  proof (cases "cs = []")
    case True
    have r: "nested (Suc i) d (flat (Suc i) d p rest)" using 2(3) [OF q_def] True by simp
    show ?thesis using nested_append [OF nested_file [of i d "the f" q]] r True by (simp add: q_def Let_def)
  next
    case False
    define sub where "sub = flat (Suc i) i q cs"
    define e where "e = Suc i + length sub"
    have s: "nested (Suc i) i sub" using 2(1) [OF q_def False] by (simp add: sub_def)
    have r: "nested e d (flat e d p rest)" using 2(2) [OF q_def False sub_def e_def] .
    show ?thesis
      using nested_append [OF nested_dir [where d = d and q = q, OF s e_def]] r False
      by (simp add: q_def [symmetric] sub_def [symmetric] Let_def e_def)
  qed
qed simp

section \<open>The tree as a map\<close>

text \<open>Looking up a list of keys below a node, and what insertion does to it.\<close>

fun lookup_node :: "tree_node \<Rightarrow> string list \<Rightarrow> registered_file option" where
  "lookup_node (TreeNode name cs f) [] = f"
| "lookup_node (TreeNode name cs f) (k # ks) = (case map_of cs k of None \<Rightarrow> None | Some t \<Rightarrow> lookup_node t ks)"

lemma lookup_empty [simp]: "lookup_node (empty_node n) ks = None"
  by (cases ks) (simp_all add: empty_node_def)

lemma lookup_insert:
  "lookup_node (insert_path f l cs t) ks = (if ks = map Lowercase cs then Some f else lookup_node t ks)"
proof (induction f l cs t arbitrary: ks rule: insert_path.induct)
  case (1 f l name ch g)
  then show ?case by (cases ks) auto
next
  case (2 f l c rest name ch g)
  show ?case
  proof (cases ks)
    case (Cons k ks')
    show ?thesis
    proof (cases "k = Lowercase c")
      case True
      have "lookup_node (insert_path f l rest (case map_of ch (Lowercase c) of None \<Rightarrow> empty_node c | Some t \<Rightarrow> t)) ks' =
          (if ks' = map Lowercase rest then Some f
           else lookup_node (case map_of ch (Lowercase c) of None \<Rightarrow> empty_node c | Some t \<Rightarrow> t) ks')"
        by (rule 2) simp_all
      then show ?thesis using Cons True by (auto simp: Let_def split: option.splits)
    qed (use Cons in \<open>simp add: Let_def\<close>)
  qed (simp add: Let_def)
qed

text \<open>The shape of the tree: keys in order, each the lower case of its node's name, and all names plain.\<close>

fun node_ok :: "(string \<Rightarrow> bool) \<Rightarrow> tree_node \<Rightarrow> bool" where
  "node_ok P (TreeNode name cs f) = (sorted_wrt (<) (map fst cs) \<and>
     (\<forall>x\<in>set cs. fst x = Lowercase (node_name (snd x)) \<and> P (node_name (snd x)) \<and> node_ok P (snd x)))"

lemma node_name_insert [simp]: "node_name (insert_path f l cs t) = (if cs = [] then l else node_name t)"
  by (cases cs; cases t) (simp_all add: Let_def)

lemma set_ord_put: "set (ord_put k v m) \<subseteq> insert (k, v) (set m)"
  by (induction m) (auto split: if_splits)

lemma node_ok_insert:
  "node_ok P t \<Longrightarrow> \<forall>c\<in>set cs. P c \<Longrightarrow> cs \<noteq> [] \<Longrightarrow> l = List.last cs \<Longrightarrow> node_ok P (insert_path f l cs t)"
proof (induction f l cs t rule: insert_path.induct)
  case (2 f l c rest name ch g)
  define child where "child = (case map_of ch (Lowercase c) of None \<Rightarrow> empty_node c | Some t \<Rightarrow> t)"
  have ch: "node_ok P child \<and> Lowercase (node_name child) = Lowercase c \<and> P (node_name child)"
  proof (cases "map_of ch (Lowercase c)")
    case None
    then show ?thesis using 2(3) by (simp add: child_def empty_node_def)
  next
    case (Some t)
    then have "(Lowercase c, t) \<in> set ch" by (rule map_of_SomeD)
    then show ?thesis using 2(2) Some by (force simp: child_def)
  qed
  have new: "node_ok P (insert_path f l rest child)"
  proof (cases "rest = []")
    case True
    then show ?thesis using ch by (cases child) simp
  next
    case False
    then show ?thesis using 2(1) [OF refl child_def [unfolded child_def] ] 2(3,5) ch by (simp add: child_def)
  qed
  have nm: "Lowercase (node_name (insert_path f l rest child)) = Lowercase c" "P (node_name (insert_path f l rest child))"
    using ch 2(3,5) by auto
  have "\<forall>x\<in>set (ord_put (Lowercase c) (insert_path f l rest child) ch).
      fst x = Lowercase (node_name (snd x)) \<and> P (node_name (snd x)) \<and> node_ok P (snd x)"
    using set_ord_put [of "Lowercase c" "insert_path f l rest child" ch] 2(2) new nm by auto
  moreover have "sorted_wrt (<) (map fst (ord_put (Lowercase c) (insert_path f l rest child) ch))"
    using 2(2) by (intro ord_put_ordered) simp
  ultimately show ?case by (simp add: Let_def child_def [symmetric])
qed simp

text \<open>The key paths of the nodes, in the order of the entries.\<close>

function flat_keys :: "(string \<times> tree_node) list \<Rightarrow> string list list" where
  "flat_keys [] = []"
| "flat_keys ((k, TreeNode n cs f) # rest) = [k] # map ((#) k) (flat_keys cs) @ flat_keys rest"
  by pat_completeness auto
termination by (relation "measure (size_list (size_prod (\<lambda>_. 0) size))") auto

lemma flat_keys_nonempty: "[] \<notin> set (flat_keys cs)"
  by (induction cs rule: flat_keys.induct) auto

lemma flat_keys_heads: "ks \<in> set (flat_keys cs) \<Longrightarrow> List.hd ks \<in> fst ` set cs"
  by (induction cs arbitrary: ks rule: flat_keys.induct) auto

definition nodes_ok :: "(string \<Rightarrow> bool) \<Rightarrow> (string \<times> tree_node) list \<Rightarrow> bool" where
  "nodes_ok P cs \<longleftrightarrow> sorted_wrt (<) (map fst cs) \<and>
     (\<forall>x\<in>set cs. fst x = Lowercase (node_name (snd x)) \<and> P (node_name (snd x)) \<and> node_ok P (snd x))"

lemma node_ok_children: "node_ok P (TreeNode n cs f) = nodes_ok P cs"
  by (simp add: nodes_ok_def)

lemma nodes_ok_Nil [simp]: "nodes_ok P []"
  by (simp add: nodes_ok_def)

lemma nodes_ok_Cons: "nodes_ok P ((k, TreeNode n cs f) # rest) \<longleftrightarrow>
    k \<notin> fst ` set rest \<and> (\<forall>k'\<in>fst ` set rest. k < k') \<and> k = Lowercase n \<and> P n \<and> nodes_ok P cs \<and> nodes_ok P rest"
  unfolding nodes_ok_def by auto

lemma flat_keys_distinct: "nodes_ok P cs \<Longrightarrow> distinct (flat_keys cs)"
proof (induction cs rule: flat_keys.induct)
  case (2 k n cs f rest)
  have "k # ks \<notin> set (flat_keys rest)" for ks
    using flat_keys_heads [of "k # ks" rest] 2(3) by (auto simp: nodes_ok_Cons)
  then show ?case
    using 2 flat_keys_nonempty [of cs] by (auto simp: nodes_ok_Cons distinct_map inj_on_def)
qed simp

lemma flat_keys_length: "length (flat i d p cs) = length (flat_keys cs)"
proof (induction cs arbitrary: i d p rule: flat_keys.induct)
  case (2 k n cs f rest)
  then show ?case by (simp add: Let_def)
qed simp

lemma join_snoc: "join_components (ns @ [n]) = (if ns = [] then n else join_components ns @ slash # n)"
  by (induction ns rule: join_components.induct) auto

lemma join_Nil_iff: "\<forall>c\<in>set cs. c \<noteq> [] \<Longrightarrow> join_components cs = [] \<longleftrightarrow> cs = []"
  by (cases cs rule: join_components.cases) auto

lemma child_path_join: "\<forall>c\<in>set ns. c \<noteq> [] \<Longrightarrow> child_path (slash # join_components ns) n = slash # join_components (ns @ [n])"
  using join_Nil_iff [of ns] by (auto simp: child_path_def join_snoc slash_def)

lemma Lowercase_join: "map lower_char (join_components cs) = join_components (map Lowercase cs)"
  by (induction cs rule: join_components.induct) (auto simp: Lowercase_def lower_char_def slash_def)

text \<open>Plain names: what a component of a canonical path is.\<close>

definition plain :: "string \<Rightarrow> bool" where
  "plain c \<longleftrightarrow> proper c \<and> backslash \<notin> set c"

lemma normalize_join:
  assumes "\<forall>c\<in>set cs. plain c"
  shows "NormalizeLookupPath (slash # join_components cs) = slash # join_components (map Lowercase cs)"
proof -
  have "CanonicalizePath (slash # join_components cs) = slash # join_components cs"
    using assms by (intro canonical_join) (auto simp: plain_def)
  then show ?thesis by (simp add: NormalizeLookupPath_def Lowercase_join) (simp add: lower_char_def slash_def)
qed

lemma flat_paths:
  "nodes_ok plain cs \<Longrightarrow> \<forall>c\<in>set ns. plain c \<Longrightarrow>
   map (\<lambda>e. NormalizeLookupPath (dvdPath e)) (flat i d (slash # join_components ns) cs) =
   map (\<lambda>ks. slash # join_components (map Lowercase ns @ ks)) (flat_keys cs)"
proof (induction cs arbitrary: i d ns rule: flat_keys.induct)
  case (2 k n cs f rest)
  have p: "child_path (slash # join_components ns) n = slash # join_components (ns @ [n])"
    using 2(4) by (intro child_path_join) (auto simp: plain_def proper_def)
  have ok: "\<forall>c\<in>set (ns @ [n]). plain c" "k = Lowercase n" "nodes_ok plain cs" "nodes_ok plain rest"
    using 2(3,4) by (auto simp: nodes_ok_Cons)
  show ?case
    using 2(1) [OF ok(3,1)] 2(2) [OF ok(4) 2(4)] ok(2) normalize_join [OF ok(1)]
    by (simp add: p Let_def comp_def)
qed simp

text \<open>A file found by its keys has an entry at the position of its key path.\<close>

lemma flat_keys_prefix: "k # ks \<in> set (flat_keys cs) \<Longrightarrow> k \<in> fst ` set cs"
  using flat_keys_heads [of "k # ks" cs] by simp

lemma lookup_in_keys:
  "leaves_are_files cs \<Longrightarrow> nodes_ok P cs \<Longrightarrow> map_of cs k = Some t \<Longrightarrow> lookup_node t ks = Some g \<Longrightarrow>
   \<exists>j<length (flat_keys cs). flat_keys cs ! j = k # ks \<and>
     (\<forall>i d p. \<not> isDirectory (flat i d p cs ! j) \<and> hostPath (flat i d p cs ! j) = hostPath g \<and>
        file_size (flat i d p cs ! j) = file_size g \<and> discOffsetWords (flat i d p cs ! j) = discOffsetWords g)"
proof (induction cs arbitrary: k t ks rule: flat_keys.induct)
  case (2 key n cs f rest)
  show ?case
  proof (cases "k = key")
    case False
    then obtain j where j: "j < length (flat_keys rest)" "flat_keys rest ! j = k # ks"
      "\<And>i d p. \<not> isDirectory (flat i d p rest ! j) \<and> hostPath (flat i d p rest ! j) = hostPath g \<and>
        file_size (flat i d p rest ! j) = file_size g \<and> discOffsetWords (flat i d p rest ! j) = discOffsetWords g"
      using 2(2) [of k t ks] 2(3-6) by (auto simp: nodes_ok_Cons)
    show ?thesis
      using j by (intro exI [of _ "Suc (length (flat_keys cs) + j)"])
        (auto simp: nth_append Let_def flat_keys_length)
  next
    case True
    then have t: "t = TreeNode n cs f" using 2(5) by simp
    show ?thesis
    proof (cases ks)
      case Nil
      then have "f = Some g" using 2(6) t by simp
      moreover have "cs = []" using 2(3) calculation by (auto split: if_splits)
      ultimately show ?thesis using True Nil by (intro exI [of _ 0]) (auto simp: Let_def)
    next
      case (Cons k' ks')
      then obtain t' where t': "map_of cs k' = Some t'" "lookup_node t' ks' = Some g"
        using 2(6) t by (auto split: option.splits)
      have ne: "cs \<noteq> []" using t'(1) by auto
      obtain j where j: "j < length (flat_keys cs)" "flat_keys cs ! j = k' # ks'"
        "\<And>i d p. \<not> isDirectory (flat i d p cs ! j) \<and> hostPath (flat i d p cs ! j) = hostPath g \<and>
          file_size (flat i d p cs ! j) = file_size g \<and> discOffsetWords (flat i d p cs ! j) = discOffsetWords g"
        using 2(1) [OF _ _ t'] 2(3,4) by (auto simp: nodes_ok_Cons split: if_splits)
      show ?thesis
        using j ne True Cons by (intro exI [of _ "Suc j"]) (auto simp: nth_append Let_def flat_keys_length)
    qed
  qed
qed simp

lemma index_paths_notin:
  "NormalizeLookupPath q \<notin> NormalizeLookupPath ` set qs \<Longrightarrow>
   map_of (index_paths i qs m) (NormalizeLookupPath q) = map_of m (NormalizeLookupPath q)"
  by (induction qs arbitrary: i m) (auto simp: emplace_def)

lemma index_paths_lookup:
  "distinct (map NormalizeLookupPath qs) \<Longrightarrow> j < length qs \<Longrightarrow> NormalizeLookupPath (qs ! j) = key \<Longrightarrow>
   map_of m key = None \<Longrightarrow> map_of (index_paths i qs m) key = Some (i + j)"
proof (induction qs arbitrary: i j m)
  case (Cons q qs)
  show ?case
  proof (cases j)
    case 0
    then have "NormalizeLookupPath q = key" using Cons.prems(3) by simp
    then show ?thesis
      using 0 Cons.prems(1,4) index_paths_notin [of q qs "Suc i" "emplace key i m"] by (simp add: emplace_def)
  next
    case (Suc j')
    then have "NormalizeLookupPath q \<noteq> key" using Cons.prems by (auto simp: nth_mem)
    then show ?thesis using Cons.IH [of j' "emplace (NormalizeLookupPath q) i m" "Suc i"] Cons.prems Suc
      by (simp add: emplace_def)
  qed
qed simp

lemma lower_char_early:
  assumes "of_char c < (65 :: nat)"
  shows "lower_char x = c \<longleftrightarrow> x = c"
proof (cases "CHR ''A'' \<le> x \<and> x \<le> CHR ''Z''")
  case True
  then have r: "65 \<le> (of_char x :: nat)" "(of_char x :: nat) \<le> 90" by (simp_all add: less_eq_char_def)
  have "(of_char (lower_char x) :: nat) = of_char x + 32" using True r by (simp add: lower_char_def)
  then show ?thesis using assms r by auto
qed (auto simp: lower_char_def)

lemma proper_lower:
  assumes "plain c"
  shows "proper (Lowercase c)"
proof -
  have lc: "lower_char x = slash \<longleftrightarrow> x = slash" "lower_char x = CHR ''.'' \<longleftrightarrow> x = CHR ''.''" for x
    by (rule lower_char_early, simp add: slash_def)+
  have "slash \<notin> set (map lower_char c)" if "slash \<notin> set c" using that lc(1) by (metis imageE list.set_map)
  moreover have "map lower_char c \<noteq> ''.''" if "c \<noteq> ''.''" using that lc(2) by (cases c) auto
  moreover have "map lower_char c \<noteq> ''..''" if "c \<noteq> ''..''"
  proof (cases c)
    case (Cons x xs)
    then show ?thesis using that lc(2) by (cases xs) auto
  qed simp
  ultimately show ?thesis using assms by (simp add: plain_def proper_def Lowercase_def)
qed

lemma flat_keys_proper: "nodes_ok plain cs \<Longrightarrow> ks \<in> set (flat_keys cs) \<Longrightarrow> c \<in> set ks \<Longrightarrow> proper c"
proof (induction cs arbitrary: ks rule: flat_keys.induct)
  case (2 k n cs f rest)
  then show ?case using proper_lower [of n] by (auto simp: nodes_ok_Cons)
qed simp

lemma join_inject: "join_components cs = join_components ds \<Longrightarrow> \<forall>c\<in>set cs. proper c \<Longrightarrow> \<forall>c\<in>set ds. proper c \<Longrightarrow> cs = ds"
  using path_parts_join by metis

section \<open>The tree of a collection of files\<close>

text \<open>The files as collected: keyed by their canonical path in lower case, never the root.\<close>

definition keyed :: "string \<Rightarrow> registered_file \<Rightarrow> bool" where
  "keyed k f \<longleftrightarrow> (\<exists>cs. cs \<noteq> [] \<and> (\<forall>c\<in>set cs. plain c) \<and>
     dvdPath f = slash # join_components cs \<and> k = slash # join_components (map Lowercase cs))"

definition collected :: "(string \<times> registered_file) list \<Rightarrow> bool" where
  "collected m \<longleftrightarrow> sorted_wrt (<) (map fst m) \<and> (\<forall>x\<in>set m. keyed (fst x) (snd x))"

lemma path_components_plain: "\<forall>c\<in>set (path_components path). plain c"
  using path_components_proper [of path] path_components_chars [of path] by (auto simp: plain_def)

lemma normalize_components: "NormalizeLookupPath path = slash # join_components (map Lowercase (path_components path))"
  by (simp add: NormalizeLookupPath_def canonicalize_components Lowercase_join) (simp add: lower_char_def slash_def)

lemma normalize_canonical: "NormalizeLookupPath (CanonicalizePath path) = NormalizeLookupPath path"
  by (simp add: NormalizeLookupPath_def canonicalize_idem)

lemma collected_put:
  assumes "collected m" "keyed k f"
  shows "collected (ord_put k f m)"
  using assms set_ord_put [of k f m] ord_put_ordered [of m k f] by (auto simp: collected_def)

lemma keyed_canonical:
  assumes "CanonicalizePath (dvdPath f) \<noteq> ''/''"
  shows "keyed (NormalizeLookupPath (CanonicalizePath (dvdPath f))) (f\<lparr>dvdPath := CanonicalizePath (dvdPath f)\<rparr>)"
proof -
  let ?cs = "path_components (dvdPath f)"
  have "?cs \<noteq> []" using assms by (auto simp: canonicalize_components slash_def)
  moreover have "NormalizeLookupPath (CanonicalizePath (dvdPath f)) = slash # join_components (map Lowercase ?cs)"
    by (rule trans [OF normalize_canonical normalize_components])
  ultimately show ?thesis
    unfolding keyed_def
    using path_components_plain [of "dvdPath f"] by (intro exI [of _ ?cs]) (simp add: canonicalize_components)
qed

lemma collapse_collected: "collapse fs m = Inr m' \<Longrightarrow> collected m \<Longrightarrow> collected m'"
  by (induction fs arbitrary: m) (auto simp: Let_def collected_put keyed_canonical split: if_splits)

lemma collapse_map:
  "collapse fs m = Inr m' \<Longrightarrow> map_of m' = fold (\<lambda>f h. h(NormalizeLookupPath (dvdPath f) \<mapsto> f\<lparr>dvdPath := CanonicalizePath (dvdPath f)\<rparr>)) fs (map_of m)"
  by (induction fs arbitrary: m) (auto simp: Let_def normalize_canonical split: if_splits)

lemma fold_later:
  "\<forall>g\<in>set post. key g \<noteq> k \<Longrightarrow> fold (\<lambda>f h. h(key f \<mapsto> val f)) post h k = h k"
  by (induction post arbitrary: h) auto

lemma collapse_last:
  assumes "collapse (pre @ f # post) [] = Inr m'" "\<forall>g\<in>set post. NormalizeLookupPath (dvdPath g) \<noteq> NormalizeLookupPath (dvdPath f)"
  shows "map_of m' (NormalizeLookupPath (dvdPath f)) = Some (f\<lparr>dvdPath := CanonicalizePath (dvdPath f)\<rparr>)"
  using collapse_map [OF assms(1)]
    fold_later [where key = "\<lambda>f. NormalizeLookupPath (dvdPath f)" and val = "\<lambda>f. f\<lparr>dvdPath := CanonicalizePath (dvdPath f)\<rparr>", OF assms(2)]
  by simp

lemma keyed_inj:
  assumes "\<forall>c\<in>set cs. plain c" "\<forall>c\<in>set ds. plain c"
    "slash # join_components (map Lowercase cs) = slash # join_components (map Lowercase ds)"
  shows "map Lowercase cs = map Lowercase ds"
proof -
  have "\<forall>c\<in>set (map Lowercase cs). proper c" "\<forall>c\<in>set (map Lowercase ds). proper c"
    using assms(1,2) proper_lower by auto
  then show ?thesis using path_parts_join assms(3) by (metis list.inject)
qed

definition tree_of :: "(string \<times> registered_file) list \<Rightarrow> tree_node" where
  "tree_of m = fold (\<lambda>(k, f). insert_file f) m (TreeNode [] [] None)"

lemma insert_file_keyed:
  assumes "keyed k f"
  shows "\<exists>cs. cs \<noteq> [] \<and> (\<forall>c\<in>set cs. plain c) \<and> k = slash # join_components (map Lowercase cs) \<and>
    dvdPath f = slash # join_components cs \<and> insert_file f t = insert_path f (List.last cs) cs t"
proof -
  obtain cs where cs: "cs \<noteq> []" "\<forall>c\<in>set cs. plain c" "dvdPath f = slash # join_components cs"
    "k = slash # join_components (map Lowercase cs)" using assms by (auto simp: keyed_def)
  then have "Components (dvdPath f) = cs" by (simp add: canonical_join(2) plain_def)
  then show ?thesis using cs by (auto simp: insert_file_def Let_def)
qed

lemma fold_insert_ok: "\<forall>x\<in>set m. keyed (fst x) (snd x) \<Longrightarrow> node_ok plain t \<Longrightarrow> node_ok plain (fold (\<lambda>(k, f). insert_file f) m t)"
proof (induction m arbitrary: t)
  case (Cons x m)
  then obtain cs where "cs \<noteq> []" "\<forall>c\<in>set cs. plain c" "insert_file (snd x) t = insert_path (snd x) (List.last cs) cs t"
    using insert_file_keyed [of "fst x" "snd x" t] by auto
  then have "node_ok plain (insert_file (snd x) t)" using Cons.prems(2) by (simp add: node_ok_insert)
  then show ?case using Cons by (simp add: case_prod_unfold)
qed simp

lemma fold_insert_other:
  assumes "\<forall>x\<in>set m. keyed (fst x) (snd x)" "slash # join_components (map Lowercase cs) \<notin> fst ` set m"
  shows "lookup_node (fold (\<lambda>(k, f). insert_file f) m t) (map Lowercase cs) = lookup_node t (map Lowercase cs)"
  using assms
proof (induction m arbitrary: t)
  case (Cons x m)
  obtain ds where ds: "fst x = slash # join_components (map Lowercase ds)" "insert_file (snd x) t = insert_path (snd x) (List.last ds) ds t"
    using insert_file_keyed [of "fst x" "snd x" t] Cons.prems(1) by auto
  then have "map Lowercase ds \<noteq> map Lowercase cs" using Cons.prems(2) by auto
  then show ?case using Cons ds by (simp add: case_prod_unfold lookup_insert)
qed simp

lemma fold_insert_lookup:
  "\<forall>x\<in>set m. keyed (fst x) (snd x) \<Longrightarrow> distinct (map fst m) \<Longrightarrow> (k, f) \<in> set m \<Longrightarrow> k = slash # join_components (map Lowercase cs) \<Longrightarrow>
   \<forall>c\<in>set cs. plain c \<Longrightarrow> lookup_node (fold (\<lambda>(k, f). insert_file f) m t) (map Lowercase cs) = Some f"
proof (induction m arbitrary: t)
  case (Cons x m)
  show ?case
  proof (cases "x = (k, f)")
    case True
    then have "keyed k f" using Cons.prems(1) by simp
    from insert_file_keyed [OF this, of t]
    obtain ds where ds: "\<forall>c\<in>set ds. plain c" "k = slash # join_components (map Lowercase ds)" "insert_file f t = insert_path f (List.last ds) ds t"
      by blast
    have "map Lowercase ds = map Lowercase cs" by (rule keyed_inj [OF ds(1) Cons.prems(5) trans [OF ds(2) [symmetric] Cons.prems(4)]])
    moreover have "k \<notin> fst ` set m" using Cons.prems(2) True by simp
    ultimately have "lookup_node (fold (\<lambda>(k, f). insert_file f) m (insert_path f (List.last ds) ds t)) (map Lowercase cs) = Some f"
      using fold_insert_other [of m cs] Cons.prems(1,4) by (simp add: lookup_insert)
    then show ?thesis using True ds(3) by simp
  next
    case False
    then have "(k, f) \<in> set m" using Cons.prems(3) by auto
    moreover have "\<forall>x\<in>set m. keyed (fst x) (snd x)" "distinct (map fst m)" using Cons.prems(1,2) by simp_all
    ultimately show ?thesis unfolding fold_simps by (intro Cons.IH [OF _ _ _ Cons.prems(4,5)])
  qed
qed simp

section \<open>What the image holds\<close>

lemma BuildImage_cases:
  assumes "BuildImage rs = Inr (img, data)"
  obtains m cs n names table offsets where "collapse rs [] = Inr m" "cs = node_children (tree_of m)" "leaves_are_files cs"
    "n = Suc (length (flat 1 0 ''/'' cs))" "entries img = dir_entry ''/'' 0 n # flat 1 0 ''/'' cs" "int n \<le> 4294967295 div 12"
    "pathToEntry img = index_paths 1 (map dvdPath (flat 1 0 ''/'' cs)) [(''/'', 0)]"
    "name_table (flat_names cs) [0] [0] = Inr (table, offsets)" "data = concat (map2 entry_bytes (entries img) offsets) @ table"
proof -
  obtain m where m: "collapse rs [] = Inr m" using assms by (auto simp: BuildImage_def split: sum.splits)
  define cs where "cs = node_children (tree_of m)"
  let ?start = "\<lparr>entries = [root_entry], pathToEntry = [(''/'', 0)]\<rparr>"
  obtain img1 names where e: "EmitTree cs 0 ''/'' (?start, [[]]) = Inr (img1, names)"
    using assms m by (auto simp: BuildImage_def Let_def cs_def tree_of_def split: sum.splits)
  have flat: "leaves_are_files cs" "entries img1 = root_entry # flat 1 0 ''/'' cs" "names = [] # flat_names cs"
    "pathToEntry img1 = index_paths 1 (map dvdPath (flat 1 0 ''/'' cs)) [(''/'', 0)]"
    using EmitTree_flat [OF e] by simp_all
  define n where "n = length (entries img1)"
  define es where "es = (entries img1)[0 := (entries img1 ! 0)\<lparr>subtreeEnd := n\<rparr>]"
  have n: "int n \<le> 4294967295 div 12"
    using assms m e by (simp add: BuildImage_def Let_def cs_def tree_of_def n_def split: if_splits)
  have r: "(case name_table (flat_names cs) [0] [0] of Inl e \<Rightarrow> Inl e
      | Inr (table, offsets) \<Rightarrow> Inr (img1\<lparr>entries := es\<rparr>, concat (map2 entry_bytes es offsets) @ table)) = Inr (img, data)"
    using assms m e n unfolding BuildImage_def es_def n_def cs_def tree_of_def flat(3) [unfolded cs_def tree_of_def]
    by (simp add: Let_def split: if_splits)
  then obtain table offsets where t: "name_table (flat_names cs) [0] [0] = Inr (table, offsets)"
    "img = img1\<lparr>entries := es\<rparr>" "data = concat (map2 entry_bytes es offsets) @ table"
    by (auto split: sum.splits)
  have es: "es = dir_entry ''/'' 0 n # flat 1 0 ''/'' cs"
    using flat(2) by (simp add: es_def root_entry_def dir_entry_def)
  show ?thesis
    using that [OF m cs_def flat(1) _ _ _ _ t(1), of n] es t flat n by (simp add: n_def)
qed

lemma tree_ok: "collapse rs [] = Inr m \<Longrightarrow> collected m \<and> nodes_ok plain (node_children (tree_of m))"
proof -
  assume "collapse rs [] = Inr m"
  then have c: "collected m" by (rule collapse_collected) (simp add: collected_def)
  then have "node_ok plain (tree_of m)" unfolding tree_of_def by (intro fold_insert_ok) (auto simp: collected_def)
  then show ?thesis using c by (cases "tree_of m") (simp add: nodes_ok_def)
qed

text \<open>A path finds the last file registered under it.\<close>

lemma last_registration_lookup:
  assumes "BuildImage (pre @ f # post) = Inr (img, data)"
    and "\<forall>g\<in>set post. NormalizeLookupPath (dvdPath g) \<noteq> NormalizeLookupPath (dvdPath f)"
  shows "\<exists>i<length (entries img). map_of (pathToEntry img) (NormalizeLookupPath (dvdPath f)) = Some i \<and>
    (let e = entries img ! i in \<not> isDirectory e \<and> hostPath e = hostPath f \<and> file_size e = file_size f \<and>
       discOffsetWords e = discOffsetWords f \<and> NormalizeLookupPath (dvdPath e) = NormalizeLookupPath (dvdPath f))"
proof -
  let ?key = "NormalizeLookupPath (dvdPath f)"
  let ?f = "f\<lparr>dvdPath := CanonicalizePath (dvdPath f)\<rparr>"
  obtain m cs n where m: "collapse (pre @ f # post) [] = Inr m" "cs = node_children (tree_of m)" "leaves_are_files cs"
    "n = Suc (length (flat 1 0 ''/'' cs))" "entries img = dir_entry ''/'' 0 n # flat 1 0 ''/'' cs"
    "pathToEntry img = index_paths 1 (map dvdPath (flat 1 0 ''/'' cs)) [(''/'', 0)]"
    using BuildImage_cases [OF assms(1)] by metis
  have ok: "collected m" "nodes_ok plain cs" using tree_ok [OF m(1)] m(2) by simp_all
  have inm: "(?key, ?f) \<in> set m" using collapse_last [OF m(1) assms(2)] by (rule map_of_SomeD)
  define ps where "ps = path_components (dvdPath f)"
  have keyed: "keyed ?key ?f" using ok(1) inm by (auto simp: collected_def)
  have key: "?key = slash # join_components (map Lowercase ps)" by (simp add: ps_def normalize_components)
  have plain: "\<forall>c\<in>set ps. plain c" by (simp add: ps_def path_components_plain)
  have look: "lookup_node (tree_of m) (map Lowercase ps) = Some ?f"
    unfolding tree_of_def using ok(1) ordered_distinct inm key plain
    by (intro fold_insert_lookup) (auto simp: collected_def)
  have ne: "ps \<noteq> []"
  proof
    assume "ps = []"
    with key keyed obtain ds where "ds \<noteq> []" "\<forall>c\<in>set ds. plain c" "join_components (map Lowercase ds) = []"
      by (auto simp: keyed_def)
    then show False using join_Nil_iff [of "map Lowercase ds"] by (auto simp: plain_def proper_def Lowercase_def)
  qed
  then obtain k ks t where k: "map Lowercase ps = k # ks" "map_of cs k = Some t" "lookup_node t ks = Some ?f"
    using look m(2) by (cases "tree_of m"; cases ps) (auto split: option.splits)
  obtain j where j: "j < length (flat_keys cs)" "flat_keys cs ! j = k # ks" "\<not> isDirectory (flat 1 0 ''/'' cs ! j)"
      "hostPath (flat 1 0 ''/'' cs ! j) = hostPath f" "file_size (flat 1 0 ''/'' cs ! j) = file_size f"
      "discOffsetWords (flat 1 0 ''/'' cs ! j) = discOffsetWords f"
    using lookup_in_keys [OF m(3) ok(2) k(2,3)] by auto
  have paths: "map NormalizeLookupPath (map dvdPath (flat 1 0 ''/'' cs)) = map (\<lambda>ks. slash # join_components ks) (flat_keys cs)"
    using flat_paths [OF ok(2), of "[]" 1 0] by (simp add: slash_def comp_def)
  have len: "j < length (map dvdPath (flat 1 0 ''/'' cs))" using j(1) by (simp add: flat_keys_length)
  have at: "NormalizeLookupPath (map dvdPath (flat 1 0 ''/'' cs) ! j) = ?key"
    using arg_cong [OF paths, of "\<lambda>xs. xs ! j"] len j(1,2) k(1) key by simp
  have dist: "distinct (map NormalizeLookupPath (map dvdPath (flat 1 0 ''/'' cs)))"
    unfolding paths using flat_keys_distinct [OF ok(2)] flat_keys_proper [OF ok(2)]
    by (auto simp: distinct_map inj_on_def dest: join_inject)
  have "map_of [(''/'', 0)] ?key = None"
    using ne plain key join_Nil_iff [of "map Lowercase ps"] by (auto simp: plain_def proper_def Lowercase_def slash_def)
  then have "map_of (pathToEntry img) ?key = Some (1 + j)"
    using index_paths_lookup [OF dist len at, of "[(''/'', 0)]" 1] m(6) by simp
  then show ?thesis using j len at m(5) by (intro exI [of _ "Suc j"]) simp
qed

section \<open>Properties\<close>

text \<open>C19: The table of every accepted set of files is well nested: the root spans it, every other entry's
  range starts behind it and stays inside the table, files are alone in theirs, and the parent an entry
  names is an earlier directory whose range contains the entry's.
\<close>

theorem fst_is_well_nested:
  assumes "BuildImage rs = Inr (img, data)"
  shows "entries img \<noteq> [] \<and> isDirectory (entries img ! 0) \<and> subtreeEnd (entries img ! 0) = length (entries img) \<and>
    (\<forall>j\<in>{1..<length (entries img)}. let e = entries img ! j; parent = entries img ! parentIndex e in
       j < subtreeEnd e \<and> subtreeEnd e \<le> length (entries img) \<and> (isDirectory e \<or> subtreeEnd e = Suc j) \<and>
       parentIndex e < j \<and> isDirectory parent \<and> subtreeEnd e \<le> subtreeEnd parent)"
proof -
  obtain cs n where n: "n = Suc (length (flat 1 0 ''/'' cs))" "entries img = dir_entry ''/'' 0 n # flat 1 0 ''/'' cs"
    using BuildImage_cases [OF assms] by metis
  define es where "es = entries img"
  have nest: "nested 0 0 es" using nested_dir [of 0 "flat 1 0 ''/'' cs" n 0 "''/''"] flat_nested [of 1 0] n by (simp add: es_def)
  have root: "es \<noteq> []" "isDirectory (es ! 0)" "subtreeEnd (es ! 0) = length es" using n by (simp_all add: es_def)
  have "parentIndex (es ! j) < j \<and> isDirectory (es ! parentIndex (es ! j)) \<and> subtreeEnd (es ! j) \<le> subtreeEnd (es ! parentIndex (es ! j))"
    if "1 \<le> j" "j < length es" for j
    using nest that root unfolding nested_def Let_def by force
  moreover have "j < subtreeEnd (es ! j) \<and> subtreeEnd (es ! j) \<le> length es \<and> (isDirectory (es ! j) \<or> subtreeEnd (es ! j) = Suc j)"
    if "j < length es" for j
    using nest that unfolding nested_def Let_def by force
  ultimately show ?thesis using root unfolding es_def [symmetric] Let_def by auto
qed

definition sample_files :: "registered_file list" where
  "sample_files =
    [\<lparr>hostPath = ''h0'', dvdPath = ''/Race/Course.szs'', file_size = 7, discOffsetWords = 100\<rparr>,
     \<lparr>hostPath = ''h1'', dvdPath = ''/Race/Common/x'', file_size = 9, discOffsetWords = 200\<rparr>,
     \<lparr>hostPath = ''h2'', dvdPath = ''/x/../race/course.SZS'', file_size = 8, discOffsetWords = 300\<rparr>]"

lemma sample_image: "case BuildImage sample_files of Inl _ \<Rightarrow> False | Inr (img, data) \<Rightarrow> length (entries img) = 5"
  by code_simp

lemma unat_align32: "unat (x AND NOT (32 - 1) :: u32) = unat x div 32 * 32"
proof -
  have m: "(32 - 1 :: u32) = mask 5" by (simp add: mask_eq_exp_minus_1)
  have "x AND NOT (32 - 1) = push_bit 5 (drop_bit 5 x)"
    unfolding m by (rule bit_word_eqI) (auto simp: bit_simps)
  moreover have "unat x div 32 * 32 < 4294967296"
    using unsigned_less [of x, where 'a = nat] by simp
  then have "unat (push_bit 5 (drop_bit 5 x)) = unat x div 32 * 32"
    by (simp only: unsigned_push_bit_eq unsigned_drop_bit_eq)
      (simp only: push_bit_eq_mult drop_bit_eq_div take_bit_eq_mod len_bit0 len_num1, simp)
  ultimately show ?thesis by simp
qed

text \<open>
  The table's place below the arena: a placement is 32-byte aligned, inside the arena, and the
  highest such address; none is given only when there is none.
\<close>

theorem reserve_below_arena:
  "case ReserveBelowArena lo hi n of
     Some a \<Rightarrow> unat lo \<le> unat a \<and> unat a + n \<le> unat hi \<and> 32 dvd unat a \<and> (\<forall>b. 32 dvd b \<and> b + n \<le> unat hi \<longrightarrow> b \<le> unat a)
   | None \<Rightarrow> n = 0 \<or> (\<forall>b. 32 dvd b \<and> unat lo \<le> b \<longrightarrow> unat hi < b + n)"
proof (cases "n = 0 \<or> n > 4294967295 \<or> hi \<le> lo \<or> n > unat hi - unat lo")
  case True
  have "unat hi \<le> 4294967295" using unsigned_less [of hi, where 'a = nat] by simp
  moreover have "(of_nat n :: u32) > hi - lo" if "n \<le> 4294967295" "lo < hi" "n > unat hi - unat lo"
  proof -
    have "unat (of_nat n :: u32) = n" using that(1) by (simp add: unat_of_nat)
    then show ?thesis using that by (simp add: word_less_nat_alt unat_sub word_le_nat_alt)
  qed
  ultimately show ?thesis using True by (auto simp: ReserveBelowArena_def Let_def word_le_nat_alt word_less_nat_alt not_le)
next
  case False
  define x where "x = hi - (of_nat n :: u32)"
  define a where "a = x AND NOT (32 - 1 :: u32)"
  have u: "unat (of_nat n :: u32) = n" using False by (simp add: unat_of_nat)
  have lt: "unat lo < unat hi" "n \<le> unat hi - unat lo" "0 < n" using False by (auto simp: word_less_nat_alt not_le)
  have x: "unat x = unat hi - n" using lt u by (simp add: x_def unat_sub word_le_nat_alt)
  have a: "unat a = (unat hi - n) div 32 * 32" unfolding a_def unat_align32 x ..
  have diff: "unat (hi - lo) = unat hi - unat lo" using lt by (simp add: unat_sub word_le_nat_alt)
  have top: "b \<le> unat a" if "32 dvd b" "b + n \<le> unat hi" for b
  proof -
    have "b div 32 * 32 \<le> (unat hi - n) div 32 * 32" using that(2) by (intro mult_right_mono div_le_mono) auto
    then show ?thesis using that(1) a by simp
  qed
  have fit: "unat a + n \<le> unat hi" using a lt(2) by (metis div_times_less_eq_dividend le_diff_conv le_trans diff_le_self add.commute le_diff_conv2)
  have r: "ReserveBelowArena lo hi n = (if unat a < unat lo then None else Some a)"
    using False lt diff u fit
    unfolding ReserveBelowArena_def Let_def x_def [symmetric] a_def [symmetric]
    by (simp add: word_less_nat_alt)
  show ?thesis
  proof (cases "unat a < unat lo")
    case True
    have "unat hi < b + n" if "32 dvd b" "unat lo \<le> b" for b
      using top [OF that(1)] that(2) True by linarith
    then show ?thesis using r True by simp
  next
    case False
    then show ?thesis using r top fit a by simp
  qed
qed

theorem fst_is_well_nested_witness:
  "\<exists>img data. BuildImage sample_files = Inr (img, data) \<and> length (entries img) = 5 \<and>
     parentIndex (entries img ! 4) < 4 \<and> isDirectory (entries img ! parentIndex (entries img ! 4))"
proof -
  obtain img data where b: "BuildImage sample_files = Inr (img, data)" "length (entries img) = 5"
    using sample_image by (auto split: sum.splits)
  show ?thesis using fst_is_well_nested [OF b(1)] b by (intro exI [of _ img] exI [of _ data]) (auto simp: Let_def)
qed

theorem reserve_below_arena_witness:
  "ReserveBelowArena 0x90000000 0x90001010 0x21 = Some 0x90000FE0 \<and> unat (0x90000000 :: u32) \<le> unat (0x90000FE0 :: u32)"
proof -
  have r: "ReserveBelowArena 0x90000000 0x90001010 0x21 = Some 0x90000FE0" by (simp add: ReserveBelowArena_def Let_def)
  show ?thesis using reserve_below_arena [where lo = "0x90000000" and hi = "0x90001010" and n = "0x21"] by (simp add: r)
qed

end
