(* ===== verification/DvdIndex.thy ===== *)
theory DvdIndex
  imports DvdFst "HOL-Library.Multiset"
begin

unbundle bit_operations_syntax

text \<open>
  Reading the file table of the extracted disc back, \<open>LoadFstIndex\<close> of
  \<open>runtime/src/hle/storage/dvd.cpp\<close>, and that it recovers the files of a table that \<open>BuildImage\<close>
  made.  The bytes of \<open>sys/fst.bin\<close> are the argument \<open>data\<close>, the host file a path below the extracted
  files resolves to is the argument \<open>host\<close>.  A name that runs past the end of the data has no value:
  the source reads on behind its buffer.
\<close>

section \<open>The index\<close>

record fst_file =
  fst_start :: u32
  fst_end :: u32
  fst_size :: u32
  fst_dvdPath :: string
  fst_hostPath :: string

definition Read32_at :: "u8 list \<Rightarrow> nat \<Rightarrow> u32" where
  "Read32_at data i = be_word32 (data ! i) (data ! (i + 1)) (data ! (i + 2)) (data ! (i + 3))"

definition c_string :: "u8 list \<Rightarrow> string option" where
  "c_string bs = (if 0 \<in> set bs then Some (map (\<lambda>b. char_of (unat b)) (takeWhile (\<lambda>b. b \<noteq> 0) bs)) else None)"

text \<open>The stack of open directories, innermost first: the index their range ends at, and their path.\<close>

type_synonym dir_frame = "nat \<times> string"

fun fst_loop :: "(string \<Rightarrow> string) \<Rightarrow> u8 list \<Rightarrow> nat \<Rightarrow> nat list \<Rightarrow> dir_frame list \<Rightarrow> fst_file list \<Rightarrow> fst_file list option" where
  "fst_loop host data stringBase [] stack files = Some files"
| "fst_loop host data stringBase (i # is) stack files =
     (case dropWhile (\<lambda>f. fst f \<le> i) stack of
       [] \<Rightarrow> Some files
     | (endIndex, path) # outer \<Rightarrow>
         (let nameWord = Read32_at data (i * 12);
              nameAt = stringBase + unat (nameWord AND 0x00FFFFFF)
          in if nameAt \<ge> length data then Some files
             else case c_string (drop nameAt data) of
               None \<Rightarrow> None
             | Some name \<Rightarrow>
                 (let relPath = (if path = [] then name else path @ slash # name) in
                  if drop_bit 24 nameWord \<noteq> 0
                  then fst_loop host data stringBase is
                    ((unat (Read32_at data (i * 12 + 8)), relPath) # (endIndex, path) # outer) files
                  else let fileOffset = Read32_at data (i * 12 + 4); fileSize = Read32_at data (i * 12 + 8) in
                    if uint fileOffset * 4 > 0xFFFFFFFF then fst_loop host data stringBase is ((endIndex, path) # outer) files
                    else fst_loop host data stringBase is ((endIndex, path) # outer)
                      (files @ [\<lparr>fst_start = fileOffset * 4, fst_end = fileOffset * 4 + fileSize, fst_size = fileSize,
                         fst_dvdPath = slash # relPath, fst_hostPath = host (slash # relPath)\<rparr>]))))"

text \<open>
  The loop ends with the list collected so far, and the files it has are sorted by start.  \<open>std::sort\<close> by
  start is the argument \<open>std_sort\<close>: the order it leaves among files that start at the same byte is not defined.
\<close>

definition LoadFstIndex :: "(fst_file list \<Rightarrow> fst_file list) \<Rightarrow> (string \<Rightarrow> string) \<Rightarrow> u8 list \<Rightarrow> fst_file list option" where
  "LoadFstIndex std_sort host data =
     (if length data < 12 then Some []
      else let entryCount = unat (Read32_at data 8); entriesSize = entryCount * 12 in
        if entryCount = 0 \<or> int entryCount > 0x10000 \<or> entriesSize \<ge> length data then Some []
        else map_option std_sort (fst_loop host data entriesSize [1..<entryCount] [(entryCount, [])] []))"

section \<open>Rows of a table\<close>

definition row_ok :: "u8 list \<Rightarrow> nat \<Rightarrow> nat \<Rightarrow> indexed_entry \<Rightarrow> string \<Rightarrow> bool" where
  "row_ok data base i e name \<longleftrightarrow>
     (let w = Read32_at data (i * 12); at = base + unat (w AND 0x00FFFFFF) in
      (drop_bit 24 w \<noteq> 0) = isDirectory e \<and> at < length data \<and> c_string (drop at data) = Some name \<and>
      (if isDirectory e then unat (Read32_at data (i * 12 + 8)) = subtreeEnd e
       else Read32_at data (i * 12 + 4) = discOffsetWords e \<and> Read32_at data (i * 12 + 8) = file_size e))"

definition rows_ok :: "u8 list \<Rightarrow> nat \<Rightarrow> nat \<Rightarrow> indexed_entry list \<Rightarrow> string list \<Rightarrow> bool" where
  "rows_ok data base i es names \<longleftrightarrow> length es = length names \<and> (\<forall>j<length es. row_ok data base (i + j) (es ! j) (names ! j))"

lemma rows_ok_Nil [simp]: "rows_ok data base i [] []"
  by (simp add: rows_ok_def)

lemma rows_ok_Cons: "rows_ok data base i (e # es) (n # ns) \<longleftrightarrow> row_ok data base i e n \<and> rows_ok data base (Suc i) es ns"
  unfolding rows_ok_def by (auto simp: nth_Cons' less_Suc_eq_0_disj all_conj_distrib)

lemma rows_ok_append:
  "length es = length ns \<Longrightarrow> rows_ok data base i (es @ fs) (ns @ ms) \<longleftrightarrow> rows_ok data base i es ns \<and> rows_ok data base (i + length es) fs ms"
  by (induction es ns arbitrary: i rule: list_induct2) (simp_all add: rows_ok_Cons)

text \<open>What an entry becomes in the index.\<close>

definition indexed_file :: "(string \<Rightarrow> string) \<Rightarrow> indexed_entry \<Rightarrow> fst_file" where
  "indexed_file host e = \<lparr>fst_start = discOffsetWords e * 4, fst_end = discOffsetWords e * 4 + file_size e,
     fst_size = file_size e, fst_dvdPath = dvdPath e, fst_hostPath = host (dvdPath e)\<rparr>"

definition indexable :: "indexed_entry \<Rightarrow> bool" where
  "indexable e \<longleftrightarrow> \<not> isDirectory e \<and> uint (discOffsetWords e) * 4 \<le> 0xFFFFFFFF"

lemma dropWhile_frames:
  assumes "\<forall>f\<in>set fs. fst f \<le> i" "i < (e :: nat)"
  shows "dropWhile (\<lambda>f. fst f \<le> i) (fs @ (e, rp) # st) = (e, rp) # st"
proof -
  have "\<not> e \<le> i" using assms(2) by simp
  then show ?thesis using assms(1) by (simp add: dropWhile_append2)
qed

lemma loop_row:
  assumes "row_ok data base i e n" "\<forall>f\<in>set fs. fst f \<le> i" "i < lim"
    and "dvdPath e = slash # (if rp = [] then n else rp @ slash # n)"
  shows "fst_loop host data base (i # is) (fs @ (lim, rp) # st) files =
    fst_loop host data base is
      ((if isDirectory e then [(subtreeEnd e, List.tl (dvdPath e))] else []) @ (lim, rp) # st)
      (files @ (if indexable e then [indexed_file host e] else []))"
  using assms(1,4) unfolding row_ok_def Let_def
  by (simp add: dropWhile_frames [OF assms(2,3)] Let_def indexable_def indexed_file_def split: if_splits)

lemma child_path_rel: "child_path (slash # rp) n = slash # (if rp = [] then n else rp @ slash # n)"
  by (simp add: child_path_def slash_def)

lemma flat_names_length: "length (flat i d p cs) = length (flat_names cs)"
proof (induction cs arbitrary: i d p rule: flat_names.induct)
  case (2 k n cs f rest)
  then show ?case by (simp add: Let_def)
qed simp

lemma upt_first: "[i..<i + Suc a] = i # [Suc i..<Suc i + a]"
  by (simp add: upt_conv_Cons del: upt_Suc)

lemma upt_split: "[i..<i + Suc (a + b)] = i # [Suc i..<Suc i + a] @ [Suc i + a..<Suc i + a + b]"
  unfolding upt_first using upt_add_eq_append [of "Suc i" "Suc i + a" b] by (simp add: add.assoc del: upt_Suc)

lemma loop_forest:
  "leaves_are_files cs \<Longrightarrow> rows_ok data base i (flat i d (slash # rp) cs) (flat_names cs) \<Longrightarrow> \<forall>f\<in>set fs. fst f \<le> i \<Longrightarrow>
   i + length (flat i d (slash # rp) cs) \<le> lim \<Longrightarrow>
   \<exists>fs'. (\<forall>f\<in>set fs'. fst f \<le> i + length (flat i d (slash # rp) cs)) \<and>
     fst_loop host data base ([i..<i + length (flat i d (slash # rp) cs)] @ js) (fs @ (lim, rp) # st) files =
     fst_loop host data base js (fs' @ (lim, rp) # st)
       (files @ map (indexed_file host) (filter indexable (flat i d (slash # rp) cs)))"
proof (induction cs arbitrary: i d rp fs lim st files js rule: flat_names.induct)
  case 1
  then show ?case by (intro exI [of _ fs]) simp
next
  case (2 k n cs f rest)
  define q where "q = (if rp = [] then n else rp @ slash # n)"
  have p: "child_path (slash # rp) n = slash # q" by (simp add: child_path_rel q_def)
  show ?case
  proof (cases "cs = []")
    case True
    define e where "e = file_entry (the f) (slash # q) d (Suc i)"
    let ?rest = "flat (Suc i) d (slash # rp) rest"
    have fl: "flat i d (slash # rp) ((k, TreeNode n cs f) # rest) = e # ?rest" using True by (simp add: p e_def Let_def)
    have rows: "row_ok data base i e n" "rows_ok data base (Suc i) ?rest (flat_names rest)"
      using 2(4) True unfolding fl by (simp_all add: rows_ok_Cons)
    have step: "fst_loop host data base (i # ([Suc i..<Suc i + length ?rest] @ js)) (fs @ (lim, rp) # st) files =
        fst_loop host data base ([Suc i..<Suc i + length ?rest] @ js) ((lim, rp) # st)
          (files @ (if indexable e then [indexed_file host e] else []))"
      using loop_row [OF rows(1) 2(5)] 2(6) fl by (simp add: e_def q_def)
    have "leaves_are_files rest" "\<forall>f\<in>set []. fst f \<le> Suc i" "Suc i + length ?rest \<le> lim"
      using 2(3,6) unfolding fl by simp_all
    from 2(2) [OF this(1) rows(2) this(2,3), where js = js and st = st and files = "files @ (if indexable e then [indexed_file host e] else [])"]
    obtain fs' where fs': "\<forall>f\<in>set fs'. fst f \<le> Suc i + length ?rest"
      "fst_loop host data base ([Suc i..<Suc i + length ?rest] @ js) ([] @ (lim, rp) # st) (files @ (if indexable e then [indexed_file host e] else [])) =
       fst_loop host data base js (fs' @ (lim, rp) # st)
         ((files @ (if indexable e then [indexed_file host e] else [])) @ map (indexed_file host) (filter indexable ?rest))"
      by blast
    have "[i..<i + length (e # ?rest)] = i # [Suc i..<Suc i + length ?rest]" using upt_first [of i "length ?rest"] by simp
    then show ?thesis unfolding fl using fs' step by (intro exI [of _ fs']) (simp del: fst_loop.simps upt_Suc)
  next
    case False
    define sub where "sub = flat (Suc i) i (slash # q) cs"
    define e where "e = Suc i + length sub"
    define x where "x = dir_entry (slash # q) d e"
    let ?rest = "flat e d (slash # rp) rest"
    have fl: "flat i d (slash # rp) ((k, TreeNode n cs f) # rest) = x # sub @ ?rest"
      using False by (simp add: p sub_def e_def x_def Let_def)
    have rows: "row_ok data base i x n" "rows_ok data base (Suc i) sub (flat_names cs)" "rows_ok data base e ?rest (flat_names rest)"
      using 2(4) flat_names_length [of "Suc i" i "slash # q" cs] unfolding fl
      by (simp_all add: rows_ok_Cons rows_ok_append sub_def e_def)
    have len: "Suc i + length sub \<le> e" "e + length ?rest \<le> lim" using 2(6) unfolding fl by (simp_all add: e_def)
    have step: "fst_loop host data base (i # ([Suc i..<Suc i + length sub] @ [e..<e + length ?rest] @ js)) (fs @ (lim, rp) # st) files =
        fst_loop host data base ([Suc i..<Suc i + length sub] @ [e..<e + length ?rest] @ js) ([] @ (e, q) # (lim, rp) # st) files"
      using loop_row [OF rows(1) 2(5)] len by (simp add: x_def q_def indexable_def e_def)
    have "leaves_are_files cs" "\<forall>f\<in>set []. fst f \<le> Suc i" using 2(3) by simp_all
    from 2(1) [OF this(1) rows(2) [unfolded sub_def] this(2) len(1) [unfolded sub_def], folded sub_def,
      where js = "[e..<e + length ?rest] @ js" and st = "(lim, rp) # st" and files = files]
    obtain fs1 where fs1: "\<forall>f\<in>set fs1. fst f \<le> Suc i + length sub"
      "fst_loop host data base ([Suc i..<Suc i + length sub] @ [e..<e + length ?rest] @ js) ([] @ (e, q) # (lim, rp) # st) files =
       fst_loop host data base ([e..<e + length ?rest] @ js) (fs1 @ (e, q) # (lim, rp) # st) (files @ map (indexed_file host) (filter indexable sub))"
      by blast
    have "leaves_are_files rest" "\<forall>f\<in>set (fs1 @ [(e, q)]). fst f \<le> e" using 2(3) fs1(1) by (simp_all add: e_def)
    from 2(2) [OF this(1) rows(3) this(2) len(2), where js = js and st = st and files = "files @ map (indexed_file host) (filter indexable sub)"]
    obtain fs2 where fs2: "\<forall>f\<in>set fs2. fst f \<le> e + length ?rest"
      "fst_loop host data base ([e..<e + length ?rest] @ js) ((fs1 @ [(e, q)]) @ (lim, rp) # st) (files @ map (indexed_file host) (filter indexable sub)) =
       fst_loop host data base js (fs2 @ (lim, rp) # st) ((files @ map (indexed_file host) (filter indexable sub)) @ map (indexed_file host) (filter indexable ?rest))"
      by blast
    have "[i..<e + length ?rest] = i # [Suc i..<Suc i + length sub] @ [e..<e + length ?rest]"
      using upt_split [of i "length sub" "length ?rest"] by (simp add: e_def add.assoc del: upt_Suc)
    moreover have "\<not> indexable x" by (simp add: x_def indexable_def)
    moreover have tot: "i + length (x # sub @ ?rest) = e + length ?rest" by (simp add: e_def)
    ultimately show ?thesis unfolding fl tot using fs2 fs1(2) step by (intro exI [of _ fs2]) (simp del: fst_loop.simps upt_Suc)
  qed
qed


section \<open>The table that was built\<close>

definition c_name :: "string \<Rightarrow> bool" where
  "c_name n \<longleftrightarrow> CHR 0x00 \<notin> set n"

lemma c_string_bytes: "c_name n \<Longrightarrow> c_string (to_bytes n @ 0 # u) = Some n"
proof -
  assume n: "c_name n"
  have nz: "(of_nat (of_char c) :: u8) = 0 \<longleftrightarrow> c = CHR 0x00" for c
  proof -
    have "unat (of_nat (of_char c) :: u8) = of_char c" by (simp add: unat_of_nat)
    then have "(of_nat (of_char c) :: u8) = 0 \<longleftrightarrow> (of_char c :: nat) = of_char (CHR 0x00)" by (simp add: unat_eq_zero [symmetric])
    then show ?thesis by (simp only: of_char_eq_iff)
  qed
  have "takeWhile (\<lambda>b. b \<noteq> 0) (to_bytes n @ 0 # u) = to_bytes n"
  proof -
    have "b \<noteq> 0" if "b \<in> set (to_bytes n)" for b
    proof -
      obtain c where c: "b = of_nat (of_char c)" "c \<in> set n" using \<open>b \<in> set (to_bytes n)\<close> unfolding to_bytes_def by auto
      then have "c \<noteq> CHR 0x00" using n unfolding c_name_def by metis
      then show ?thesis unfolding c(1) nz .
    qed
    then show ?thesis using takeWhile_append2 [of "to_bytes n" "\<lambda>b. b \<noteq> 0" "0 # u"] by simp
  qed
  moreover have "map (\<lambda>b. char_of (unat b)) (to_bytes n) = n"
    by (simp add: to_bytes_def comp_def unat_of_nat)
  ultimately show ?thesis by (simp add: c_string_def)
qed

lemma name_table_offsets:
  "name_table ns t offs = Inr (t', offs') \<Longrightarrow>
   (\<exists>s. t' = t @ s) \<and> (\<exists>os. offs' = offs @ os \<and> length os = length ns \<and>
     (\<forall>k<length ns. os ! k \<le> 0x00FFFFFF \<and> os ! k < length t' \<and> (\<exists>u. drop (os ! k) t' = to_bytes (ns ! k) @ 0 # u)))"
proof (induction ns arbitrary: t offs)
  case (Cons n ns)
  let ?t = "t @ to_bytes n @ [0]"
  have l: "int (length t) \<le> 0x00FFFFFF" and e: "name_table ns ?t (offs @ [length t]) = Inr (t', offs')"
    using Cons.prems by (auto split: if_splits)
  from Cons.IH [OF e] obtain s os where r: "t' = ?t @ s" "offs' = (offs @ [length t]) @ os" "length os = length ns"
    "\<forall>k<length ns. os ! k \<le> 0x00FFFFFF \<and> os ! k < length t' \<and> (\<exists>u. drop (os ! k) t' = to_bytes (ns ! k) @ 0 # u)" by blast
  have "\<forall>k<length (n # ns). (length t # os) ! k \<le> 0x00FFFFFF \<and> (length t # os) ! k < length t' \<and>
      (\<exists>u. drop ((length t # os) ! k) t' = to_bytes ((n # ns) ! k) @ 0 # u)"
  proof (intro allI impI)
    fix k assume k: "k < length (n # ns)"
    show "(length t # os) ! k \<le> 0x00FFFFFF \<and> (length t # os) ! k < length t' \<and>
      (\<exists>u. drop ((length t # os) ! k) t' = to_bytes ((n # ns) ! k) @ 0 # u)"
    proof (cases k)
      case 0
      have "length t < length t'" "drop (length t) t' = to_bytes n @ 0 # s" unfolding r(1) by simp_all
      then show ?thesis using l 0 by auto
    next
      case (Suc k')
      then show ?thesis using r(4) k by simp
    qed
  qed
  then show ?case using r(1-3) by (intro conjI exI [of _ "to_bytes n @ [0] @ s"] exI [of _ "length t # os"]) simp_all
qed simp

lemma Read32_bytes: "Read32_at (pre @ be_bytes32 v @ post) (length pre) = v"
  by (simp add: Read32_at_def be_bytes32_def nth_append be_word32_bytes)

lemma length_entry_bytes [simp]: "length (entry_bytes e k) = 12"
  by (simp add: entry_bytes_def)

lemma concat_entry:
  assumes "length es = length offs" "i < length es"
  shows "\<exists>pre post. length pre = i * 12 \<and> concat (map2 entry_bytes es offs) @ table = pre @ entry_bytes (es ! i) (offs ! i) @ post"
  using assms
proof (induction es offs arbitrary: i rule: list_induct2)
  case (Cons e es k offs)
  show ?case
  proof (cases i)
    case 0
    then show ?thesis by (intro exI [of _ "[]"] exI [of _ "concat (map2 entry_bytes es offs) @ table"]) simp
  next
    case (Suc i')
    then obtain pre post where p: "length pre = i' * 12"
      "concat (map2 entry_bytes es offs) @ table = pre @ entry_bytes (es ! i') (offs ! i') @ post" using Cons by fastforce
    then show ?thesis using Suc by (intro exI [of _ "entry_bytes e k @ pre"] exI [of _ post]) simp
  qed
qed simp

lemma entry_words:
  assumes "length es = length offs" "i < length es"
  shows "Read32_at (concat (map2 entry_bytes es offs) @ table) (i * 12) = (if isDirectory (es ! i) then 0x01000000 else 0) OR of_nat (offs ! i)"
    "Read32_at (concat (map2 entry_bytes es offs) @ table) (i * 12 + 4) = (if isDirectory (es ! i) then of_nat (parentIndex (es ! i)) else discOffsetWords (es ! i))"
    "Read32_at (concat (map2 entry_bytes es offs) @ table) (i * 12 + 8) = (if isDirectory (es ! i) then of_nat (subtreeEnd (es ! i)) else file_size (es ! i))"
proof -
  from concat_entry [OF assms] obtain pre post where p: "length pre = i * 12"
    "concat (map2 entry_bytes es offs) @ table = pre @ entry_bytes (es ! i) (offs ! i) @ post" by metis
  let ?a = "be_bytes32 ((if isDirectory (es ! i) then 0x01000000 else 0) OR of_nat (offs ! i))"
  let ?b = "be_bytes32 (if isDirectory (es ! i) then of_nat (parentIndex (es ! i)) else discOffsetWords (es ! i))"
  let ?c = "be_bytes32 (if isDirectory (es ! i) then of_nat (subtreeEnd (es ! i)) else file_size (es ! i))"
  have e: "entry_bytes (es ! i) (offs ! i) = ?a @ ?b @ ?c" by (simp add: entry_bytes_def)
  show "Read32_at (concat (map2 entry_bytes es offs) @ table) (i * 12) = (if isDirectory (es ! i) then 0x01000000 else 0) OR of_nat (offs ! i)"
    using Read32_bytes [of pre _ "?b @ ?c @ post"] p(1) unfolding p(2) e by simp
  show "Read32_at (concat (map2 entry_bytes es offs) @ table) (i * 12 + 4) = (if isDirectory (es ! i) then of_nat (parentIndex (es ! i)) else discOffsetWords (es ! i))"
    using Read32_bytes [of "pre @ ?a" _ "?c @ post"] p(1) unfolding p(2) e by simp
  show "Read32_at (concat (map2 entry_bytes es offs) @ table) (i * 12 + 8) = (if isDirectory (es ! i) then of_nat (subtreeEnd (es ! i)) else file_size (es ! i))"
    using Read32_bytes [of "pre @ ?a @ ?b" _ post] p(1) unfolding p(2) e by simp
qed

lemma type_word:
  assumes "k \<le> 0x00FFFFFF"
  shows "unat (((if b then 0x01000000 else 0) OR of_nat k :: u32) AND 0x00FFFFFF) = k"
    "drop_bit 24 ((if b then 0x01000000 else 0) OR of_nat k :: u32) = (if b then 1 else 0)"
proof -
  have m: "(0x00FFFFFF :: u32) = mask 24" "(0x01000000 :: u32) = push_bit 24 1" by (simp_all add: mask_eq_exp_minus_1)
  have u: "unat (of_nat k :: u32) = k" using assms by (simp add: unat_of_nat)
  have lo: "take_bit 24 (of_nat k :: u32) = of_nat k"
    unfolding word_unat_eq_iff unsigned_take_bit_eq u using assms by (simp add: take_bit_eq_mod)
  have hi: "drop_bit 24 (of_nat k :: u32) = 0"
    unfolding word_unat_eq_iff unsigned_drop_bit_eq u using assms by (simp add: drop_bit_eq_div take_bit_eq_mod)
  show "unat (((if b then 0x01000000 else 0) OR of_nat k :: u32) AND 0x00FFFFFF) = k"
    unfolding m take_bit_eq_mask [symmetric] take_bit_or lo using u by simp
  show "drop_bit 24 ((if b then 0x01000000 else 0) OR of_nat k :: u32) = (if b then 1 else 0)"
    unfolding drop_bit_or hi m by simp
qed

lemma entries_length: "length es = length offs \<Longrightarrow> length (concat (map2 entry_bytes es offs)) = length es * 12"
  by (induction es offs rule: list_induct2) simp_all

lemma flat_names_ok: "nodes_ok P cs \<Longrightarrow> \<forall>n\<in>set (flat_names cs). P n"
proof (induction cs rule: flat_names.induct)
  case (2 k n cs f rest)
  then have "P n" "nodes_ok P cs" "nodes_ok P rest" unfolding nodes_ok_Cons by blast+
  with 2(1) [OF this(2)] 2(2) [OF this(3)] show ?case by auto
qed simp

lemma fold_insert_names:
  "\<forall>x\<in>set m. keyed (fst x) (snd x) \<and> (\<forall>c\<in>set (Components (dvdPath (snd x))). P c) \<Longrightarrow> node_ok P t \<Longrightarrow>
   node_ok P (fold (\<lambda>(k, f). insert_file f) m t)"
proof (induction m arbitrary: t)
  case (Cons x m)
  from Cons.prems(1) have "keyed (fst x) (snd x)" by simp
  from insert_file_keyed [OF this, of t] obtain cs where cs: "cs \<noteq> []" "\<forall>c\<in>set cs. plain c"
    "dvdPath (snd x) = slash # join_components cs" "insert_file (snd x) t = insert_path (snd x) (List.last cs) cs t" by blast
  then have "Components (dvdPath (snd x)) = cs" by (simp add: canonical_join(2) plain_def)
  then have "node_ok P (insert_file (snd x) t)" using Cons.prems cs by (simp add: node_ok_insert)
  then show ?case using Cons by (simp add: case_prod_unfold)
qed simp

lemma collapse_values:
  "collapse fs m = Inr m' \<Longrightarrow> x \<in> set m' \<Longrightarrow> x \<in> set m \<or> (\<exists>f\<in>set fs. dvdPath (snd x) = CanonicalizePath (dvdPath f))"
proof (induction fs arbitrary: m)
  case (Cons f fs)
  let ?c = "CanonicalizePath (dvdPath f)"
  have "collapse fs (ord_put (NormalizeLookupPath ?c) (f\<lparr>dvdPath := ?c\<rparr>) m) = Inr m'"
    using Cons.prems(1) by (auto simp: Let_def split: if_splits)
  from Cons.IH [OF this Cons.prems(2)] show ?case
    using set_ord_put [of "NormalizeLookupPath ?c" "f\<lparr>dvdPath := ?c\<rparr>" m] by auto
qed simp

lemma tree_names:
  assumes "collapse rs [] = Inr m" "\<forall>f\<in>set rs. c_name (dvdPath f)"
  shows "\<forall>n\<in>set (flat_names (node_children (tree_of m))). c_name n"
proof -
  have "\<forall>c\<in>set (Components (dvdPath (snd x))). c_name c" if "x \<in> set m" for x
  proof -
    obtain f where f: "f \<in> set rs" "dvdPath (snd x) = CanonicalizePath (dvdPath f)"
      using collapse_values [OF assms(1) \<open>x \<in> set m\<close>] by auto
    have "\<forall>c\<in>set (path_components (dvdPath f)). set c \<subseteq> - {CHR 0x00}"
      unfolding path_components_def using assms(2) f(1)
      by (intro canonical_loop_chars) (auto simp: c_name_def slash_def)
    then show ?thesis unfolding f(2) components_canonical by (auto simp: c_name_def)
  qed
  moreover have "collected m" using tree_ok [OF assms(1)] by simp
  ultimately have "node_ok c_name (tree_of m)"
    unfolding tree_of_def by (intro fold_insert_names) (auto simp: collected_def)
  then show ?thesis by (cases "tree_of m") (intro flat_names_ok, simp add: nodes_ok_def)
qed

lemma built_rows:
  assumes "BuildImage rs = Inr (img, data)" "\<forall>f\<in>set rs. c_name (dvdPath f)"
  shows "\<exists>cs. leaves_are_files cs \<and> entries img = dir_entry ''/'' 0 (length (entries img)) # flat 1 0 ''/'' cs \<and>
    rows_ok data (length (entries img) * 12) 1 (flat 1 0 ''/'' cs) (flat_names cs) \<and>
    length (entries img) * 12 < length data \<and> Read32_at data 8 = of_nat (length (entries img))"
proof -
  define es where "es = entries img"
  define n where "n = length es"
  obtain m cs table offs where b: "collapse rs [] = Inr m" "cs = node_children (tree_of m)" "leaves_are_files cs"
    "es = dir_entry ''/'' 0 n # flat 1 0 ''/'' cs" "int n \<le> 4294967295 div 12"
    "name_table (flat_names cs) [0] [0] = Inr (table, offs)" "data = concat (map2 entry_bytes es offs) @ table"
    using BuildImage_cases [OF assms(1)] unfolding es_def n_def by (metis length_Cons)
  obtain s os where t: "table = [0] @ s" "offs = [0] @ os" "length os = length (flat_names cs)"
    "\<forall>k<length (flat_names cs). os ! k \<le> 0x00FFFFFF \<and> os ! k < length table \<and> (\<exists>u. drop (os ! k) table = to_bytes (flat_names cs ! k) @ 0 # u)"
    using name_table_offsets [OF b(6)] by blast
  have len: "length es = length offs" using b(4) t(2,3) by (simp add: flat_names_length)
  have base: "length (concat (map2 entry_bytes es offs)) = n * 12" using entries_length [OF len] by (simp add: n_def)
  have count: "n = Suc (length (flat 1 0 ''/'' cs))" using arg_cong [OF b(4), of length] by (simp add: n_def)
  have nest: "nested 0 0 es"
    using nested_dir [of 0 "flat 1 0 ''/'' cs" n 0 "''/''"] flat_nested [of 1 0 "''/''" cs] count unfolding b(4) by simp
  have row: "row_ok data (n * 12) (1 + j) (flat 1 0 ''/'' cs ! j) (flat_names cs ! j)" if j: "j < length (flat 1 0 ''/'' cs)" for j
  proof -
    define e where "e = es ! Suc j"
    have e: "e = flat 1 0 ''/'' cs ! j" and jn: "Suc j < length es" using b(4) j by (simp_all add: e_def)
    have jl: "j < length (flat_names cs)" using j by (simp add: flat_names_length)
    obtain u where u: "os ! j \<le> 0x00FFFFFF" "os ! j < length table" "drop (os ! j) table = to_bytes (flat_names cs ! j) @ 0 # u"
      using t(4) jl by blast
    have o: "offs ! Suc j = os ! j" by (simp add: t(2))
    note words = entry_words [OF len jn, of table, folded b(7), folded e_def, unfolded o]
    have "c_string (drop (os ! j) table) = Some (flat_names cs ! j)"
      unfolding u(3) using tree_names [OF b(1) assms(2)] b(2) jl by (intro c_string_bytes) simp
    moreover have "drop (n * 12 + os ! j) data = drop (os ! j) table" "n * 12 + os ! j < length data"
      using base u(2) by (simp_all add: b(7))
    moreover have "subtreeEnd e < 4294967296"
      using nest jn b(5) unfolding nested_def Let_def e_def n_def by force
    ultimately show ?thesis
      unfolding row_ok_def Let_def e [symmetric]
      using words type_word [OF u(1), of "isDirectory e"] by (simp add: unat_of_nat split: if_splits)
  qed
  have "Read32_at data (0 * 12 + 8) = of_nat n"
  proof -
    have "0 < length es" "es ! 0 = dir_entry ''/'' 0 n" unfolding b(4) by simp_all
    then show ?thesis using entry_words(3) [OF len, of 0 table, folded b(7)] by simp
  qed
  moreover have "rows_ok data (n * 12) 1 (flat 1 0 ''/'' cs) (flat_names cs)"
    using row by (simp add: rows_ok_def flat_names_length)
  moreover have "n * 12 < length data" using base t(1) by (simp add: b(7))
  ultimately show ?thesis using b(3,4) unfolding es_def [symmetric] n_def [symmetric] by (intro exI [of _ cs]) simp
qed

section \<open>Property\<close>

text \<open>C14: Round trip: reading back the bytes of a built table (of at most 65536 entries, and paths without
  zero bytes) yields the files of the table that start within 4 GiB, each as often as the table has it,
  under its full path with its start, end and size, and by increasing start; the directories, and the
  files that start beyond 4 GiB, are left out.  \<open>std_sort\<close> is any sort by start: a permutation in order.
\<close>

theorem fst_round_trip:
  assumes "BuildImage rs = Inr (img, data)" "length (entries img) \<le> 0x10000" "\<forall>f\<in>set rs. c_name (dvdPath f)"
    and "\<forall>xs. mset (std_sort xs) = mset xs \<and> sorted (map fst_start (std_sort xs))"
  shows "\<exists>fs. LoadFstIndex std_sort host data = Some fs \<and> sorted (map fst_start fs) \<and>
    mset fs = image_mset (indexed_file host) {#e \<in># mset (entries img). \<not> isDirectory e \<and> uint (discOffsetWords e) * 4 < 2 ^ 32#}"
proof -
  define n where "n = length (entries img)"
  obtain cs where cs: "leaves_are_files cs" "entries img = dir_entry ''/'' 0 n # flat 1 0 ''/'' cs"
    "rows_ok data (n * 12) 1 (flat 1 0 ''/'' cs) (flat_names cs)" "n * 12 < length data" "Read32_at data 8 = of_nat n"
    using built_rows [OF assms(1,3)] by (auto simp: n_def)
  have n: "n = Suc (length (flat 1 0 ''/'' cs))" using arg_cong [OF cs(2), of length] by (simp add: n_def)
  have count: "unat (Read32_at data 8) = n" using assms(2) cs(5) by (simp add: n_def unat_of_nat)
  have sl: "''/'' = slash # []" by (simp add: slash_def)
  obtain fs where "fst_loop host data (n * 12) ([1..<1 + length (flat 1 0 (slash # []) cs)] @ []) ([] @ (n, []) # []) [] =
      fst_loop host data (n * 12) [] (fs @ (n, []) # []) ([] @ map (indexed_file host) (filter indexable (flat 1 0 (slash # []) cs)))"
    using loop_forest [OF cs(1) cs(3) [unfolded sl], of "[]" n host "[]" "[]" "[]"] n unfolding sl by auto
  then have loop: "fst_loop host data (n * 12) [1..<n] [(n, [])] [] = Some (map (indexed_file host) (filter indexable (flat 1 0 ''/'' cs)))"
    using n unfolding sl by (simp del: upt_Suc)
  have "\<not> indexable (dir_entry ''/'' 0 n)" by (simp add: indexable_def)
  moreover have "12 \<le> length data" using cs(4) n by simp
  ultimately have res: "LoadFstIndex std_sort host data = Some (std_sort (map (indexed_file host) (filter indexable (entries img))))"
    using loop count cs(2,4) assms(2) n by (simp add: LoadFstIndex_def Let_def n_def [symmetric] not_le del: fst_loop.simps upt_Suc)
  have "indexable = (\<lambda>e. \<not> isDirectory e \<and> uint (discOffsetWords e) * 4 < 2 ^ 32)" by (auto simp: indexable_def)
  then show ?thesis using assms(4) unfolding res by (simp add: mset_filter)
qed

lemma sample_indexable:
  "case BuildImage sample_files of Inl _ \<Rightarrow> False
   | Inr (img, data) \<Rightarrow> length (filter (\<lambda>e. \<not> isDirectory e \<and> uint (discOffsetWords e) * 4 < 2 ^ 32) (entries img)) = 2"
  by code_simp

theorem fst_round_trip_witness:
  "\<exists>img data fs. BuildImage sample_files = Inr (img, data) \<and> LoadFstIndex (sort_key fst_start) id data = Some fs \<and>
     sorted (map fst_start fs) \<and> length fs = 2"
proof -
  obtain img data where b: "BuildImage sample_files = Inr (img, data)" "length (entries img) = 5"
    "length (filter (\<lambda>e. \<not> isDirectory e \<and> uint (discOffsetWords e) * 4 < 2 ^ 32) (entries img)) = 2"
    using sample_image sample_indexable by (auto split: sum.splits)
  have "\<forall>f\<in>set sample_files. c_name (dvdPath f)" by (simp add: sample_files_def c_name_def)
  from fst_round_trip [OF b(1) _ this, of "sort_key fst_start" id] b(2)
  obtain fs where fs: "LoadFstIndex (sort_key fst_start) id data = Some fs" "sorted (map fst_start fs)"
    "mset fs = image_mset (indexed_file id) {#e \<in># mset (entries img). \<not> isDirectory e \<and> uint (discOffsetWords e) * 4 < 2 ^ 32#}" by auto
  have "length fs = 2" using arg_cong [OF fs(3), of size] b(3) by (simp flip: mset_filter)
  then show ?thesis using fs b(1) by blast
qed

end
