(* ===== verification/DvdDisc.thy ===== *)
theory DvdDisc
  imports DvdIndex "HOL-Library.Multiset"
begin

unbundle bit_operations_syntax

text \<open>
  The index of disc files of \<open>runtime/src/hle/storage/dvd.cpp\<close>: registration of the extracted disc and of
  the overlays over it, the disc offsets of the files (kept from the original table, or made up behind
  it), and the extents that map disc ranges back to files.

  The host file system is the record \<open>host_fs\<close> of what the code asks it; host paths are opaque.  The order
  among extents that start at the same byte is not defined (\<open>std::sort\<close>): the sort is an argument.
\<close>

section \<open>Registration\<close>

record dvd_entry = registered_file +
  isDir :: bool

record disc_index =
  g_fileEntries :: "dvd_entry list"
  g_pathToEntry :: "(string \<times> nat) list"

text \<open>A regular file below a directory: its path, the text of its path relative to the directory and of its
  name, and its size; the second and the last may not be had.\<close>

record host_entry =
  he_path :: string
  he_relative :: "string option"
  he_filename :: string
  he_size :: "nat option"

text \<open>\<open>listing root recursive\<close>: the regular files \<open>WalkDirectory\<close> visits, in its order.\<close>

record host_fs =
  listing :: "string \<Rightarrow> bool \<Rightarrow> host_entry list"
  size_of :: "string \<Rightarrow> nat option"
  is_regular_file :: "string \<Rightarrow> bool"
  is_directory :: "string \<Rightarrow> bool"

datatype mapping_kind = FileMapping | FolderMapping | FolderByName

record mapping =
  kind :: mapping_kind
  discPath :: string
  map_hostPath :: string
  recursive :: bool
  create :: bool

record overlay =
  overlay_root :: string
  patches :: "mapping list option"

definition RegisterFileEntry :: "string \<Rightarrow> string \<Rightarrow> u32 \<Rightarrow> disc_index \<Rightarrow> disc_index" where
  "RegisterFileEntry path host n ix =
     (let p = CanonicalizePath path;
          e = \<lparr>hostPath = host, dvdPath = p, file_size = n, discOffsetWords = 0, isDir = False\<rparr>;
          entryNum = length (g_fileEntries ix)
      in ix\<lparr>g_fileEntries := g_fileEntries ix @ [e], g_pathToEntry := ord_put (NormalizeLookupPath p) entryNum (g_pathToEntry ix)\<rparr>)"

definition DvdEntryExists :: "string \<Rightarrow> disc_index \<Rightarrow> bool" where
  "DvdEntryExists path ix = (map_of (g_pathToEntry ix) (NormalizeLookupPath (CanonicalizePath path)) \<noteq> None)"

definition scan_prefix :: "string \<Rightarrow> string" where
  "scan_prefix virtualPrefix =
     (let prefix = (if virtualPrefix = [] then ''/'' else virtualPrefix)
      in if List.last prefix \<noteq> slash \<and> List.last prefix \<noteq> backslash then prefix @ ''/'' else prefix)"

definition register_entry :: "string \<Rightarrow> bool \<Rightarrow> host_entry \<Rightarrow> disc_index \<Rightarrow> disc_index" where
  "register_entry virtualPrefix addNewFiles e ix =
     (case (he_size e, he_relative e) of
        (Some n, Some relative) \<Rightarrow>
          (let path = scan_prefix virtualPrefix @ relative in
           if \<not> addNewFiles \<and> \<not> DvdEntryExists path ix then ix
           else RegisterFileEntry path (he_path e) (of_nat n) ix)
      | _ \<Rightarrow> ix)"

definition ScanDirectory :: "host_fs \<Rightarrow> string \<Rightarrow> string \<Rightarrow> bool \<Rightarrow> bool \<Rightarrow> disc_index \<Rightarrow> disc_index" where
  "ScanDirectory H root virtualPrefix rec addNewFiles ix =
     fold (register_entry virtualPrefix addNewFiles) (listing H root rec) ix"

definition base_name :: "string \<Rightarrow> string" where
  "base_name path = rev (takeWhile (\<lambda>c. c \<noteq> slash) (rev path))"

text \<open>The disc paths of the entries with a name, among the entries there are before the mapping.\<close>

definition discPathsByName :: "disc_index \<Rightarrow> string \<Rightarrow> string list" where
  "discPathsByName ix name =
     (if name = [] then [] else map dvdPath (filter (\<lambda>e. Lowercase (base_name (dvdPath e)) = name) (g_fileEntries ix)))"

definition apply_by_name :: "(string \<Rightarrow> string list) \<Rightarrow> host_entry \<Rightarrow> disc_index \<Rightarrow> disc_index" where
  "apply_by_name byName e ix =
     (case he_size e of
        None \<Rightarrow> ix
      | Some n \<Rightarrow> fold (\<lambda>path. RegisterFileEntry path (he_path e) (of_nat n)) (byName (Lowercase (he_filename e))) ix)"

definition ApplyFolderByNameMapping :: "host_fs \<Rightarrow> mapping \<Rightarrow> disc_index \<Rightarrow> disc_index" where
  "ApplyFolderByNameMapping H m ix =
     fold (apply_by_name (discPathsByName ix)) (listing H (map_hostPath m) (recursive m)) ix"

definition apply_mapping :: "host_fs \<Rightarrow> mapping \<Rightarrow> disc_index \<Rightarrow> disc_index" where
  "apply_mapping H m ix = (case kind m of
     FileMapping \<Rightarrow>
       (if \<not> create m \<and> \<not> DvdEntryExists (discPath m) ix then ix
        else case size_of H (map_hostPath m) of
          None \<Rightarrow> ix
        | Some n \<Rightarrow> RegisterFileEntry (discPath m) (map_hostPath m) (of_nat n) ix)
   | FolderMapping \<Rightarrow> ScanDirectory H (map_hostPath m) (discPath m) (recursive m) (create m) ix
   | FolderByName \<Rightarrow> ApplyFolderByNameMapping H m ix)"

definition ScanOverlayRoot :: "host_fs \<Rightarrow> overlay \<Rightarrow> disc_index \<Rightarrow> disc_index" where
  "ScanOverlayRoot H ov ix = (case patches ov of
     None \<Rightarrow> ScanDirectory H (overlay_root ov) ''/'' True True ix
   | Some ms \<Rightarrow> fold (apply_mapping H) ms ix)"

text \<open>The scan of \<open>DVDInit\<close>: the disc, its system files, then the overlays from the last to the first.
  \<open>files\<close> and \<open>sys\<close> are the two directories of the extracted disc.\<close>

definition scan_disc :: "host_fs \<Rightarrow> string \<Rightarrow> string \<Rightarrow> overlay list \<Rightarrow> disc_index" where
  "scan_disc H files sys overlays =
     fold (ScanOverlayRoot H) (rev overlays)
       (ScanDirectory H sys ''/sys/'' True True
         (ScanDirectory H files ''/'' True True \<lparr>g_fileEntries = [], g_pathToEntry = []\<rparr>))"

text \<open>\<open>in_root root path\<close> is the host path of a relative path below a root.\<close>

definition ResolveDvdMappedHostPath :: "host_fs \<Rightarrow> (string \<Rightarrow> string \<Rightarrow> string) \<Rightarrow> overlay list \<Rightarrow> disc_index \<Rightarrow> string \<Rightarrow> string \<Rightarrow> string" where
  "ResolveDvdMappedHostPath H in_root overlays ix path fallback =
     (let normalized = NormalizeLookupPath path;
          candidate = (case List.find (\<lambda>c. is_regular_file H c) (map (\<lambda>ov. in_root (overlay_root ov) (drop 1 normalized)) overlays) of
            None \<Rightarrow> fallback | Some c \<Rightarrow> c)
      in case map_of (g_pathToEntry ix) normalized of
           None \<Rightarrow> candidate
         | Some i \<Rightarrow> if i < length (g_fileEntries ix) then hostPath (g_fileEntries ix ! i) else candidate)"

section \<open>Disc offsets\<close>

definition keep_offset :: "(string \<times> nat) list \<Rightarrow> fst_file \<Rightarrow> dvd_entry list \<Rightarrow> dvd_entry list" where
  "keep_offset paths f es = (case map_of paths (NormalizeLookupPath (fst_dvdPath f)) of
     None \<Rightarrow> es
   | Some i \<Rightarrow> if i < length es then es[i := (es ! i)\<lparr>discOffsetWords := fst_start f div 4\<rparr>] else es)"

definition next_free :: "fst_file list \<Rightarrow> dvd_entry list \<Rightarrow> nat" where
  "next_free fstFiles es =
     fold (\<lambda>e n. if discOffsetWords e \<noteq> 0 then max n (unat (discOffsetWords e) * 4 + unat (file_size e)) else n) es
       (fold (\<lambda>f n. max n (unat (fst_end f))) fstFiles 0)"

fun place_entries :: "nat \<Rightarrow> dvd_entry list \<Rightarrow> dvd_entry list option" where
  "place_entries nextFreeBytes [] = Some []"
| "place_entries nextFreeBytes (e # es) =
     (if isDir e \<or> discOffsetWords e \<noteq> 0 then map_option ((#) e) (place_entries nextFreeBytes es)
      else let start = (nextFreeBytes + 31) div 32 * 32 in
        if int (start div 4) > 0xFFFFFFFF then None
        else map_option ((#) (e\<lparr>discOffsetWords := of_nat (start div 4)\<rparr>))
               (place_entries (start + max (unat (file_size e)) 4) es))"

definition assign_offsets :: "fst_file list \<Rightarrow> disc_index \<Rightarrow> dvd_entry list option" where
  "assign_offsets fstFiles ix =
     (let es = fold (keep_offset (g_pathToEntry ix)) fstFiles (g_fileEntries ix)
      in place_entries (next_free fstFiles es) es)"

section \<open>Publishing\<close>

record published_extent =
  startBytes :: nat
  endBytes :: nat
  entryIndex :: nat

record published =
  pub_entries :: "dvd_entry list"
  pub_paths :: "(string \<times> nat) list"
  g_publishedExtents :: "published_extent list"
  fst_bytes :: "u8 list"

datatype publish_error = OffsetRange | TableError fst_error

definition entry_extents :: "dvd_entry list \<Rightarrow> published_extent list" where
  "entry_extents es = concat (map (\<lambda>(i, e).
     if isDir e \<or> discOffsetWords e = 0 then []
     else [\<lparr>startBytes = unat (discOffsetWords e) * 4,
            endBytes = unat (discOffsetWords e) * 4 + max (unat (file_size e)) 1, entryIndex = i\<rparr>]) (enumerate 0 es))"

definition to_registered :: "dvd_entry \<Rightarrow> registered_file" where
  "to_registered e = \<lparr>hostPath = hostPath e, dvdPath = dvdPath e, file_size = file_size e, discOffsetWords = discOffsetWords e\<rparr>"

definition from_indexed :: "indexed_entry \<Rightarrow> dvd_entry" where
  "from_indexed e = \<lparr>hostPath = hostPath e, dvdPath = dvdPath e, file_size = file_size e,
     discOffsetWords = discOffsetWords e, isDir = isDirectory e\<rparr>"

definition BuildRuntimeFst :: "(published_extent list \<Rightarrow> published_extent list) \<Rightarrow> fst_file list \<Rightarrow> disc_index \<Rightarrow> publish_error + published" where
  "BuildRuntimeFst std_sort fstFiles ix = (case assign_offsets fstFiles ix of
     None \<Rightarrow> Inl OffsetRange
   | Some es \<Rightarrow> (case BuildImage (map to_registered es) of
       Inl e \<Rightarrow> Inl (TableError e)
     | Inr (img, data) \<Rightarrow>
         (let indexed = map from_indexed (entries img)
          in Inr \<lparr>pub_entries = indexed, pub_paths = pathToEntry img, g_publishedExtents = std_sort (entry_extents indexed), fst_bytes = data\<rparr>)))"

section \<open>From a disc byte to a file\<close>

definition FindPublishedExtentForByteOffset :: "published_extent list \<Rightarrow> nat \<Rightarrow> published_extent option" where
  "FindPublishedExtentForByteOffset extents offset =
     (let before = takeWhile (\<lambda>e. \<not> offset < startBytes e) extents
      in if before = [] then None
         else let e = List.last before in if offset \<ge> startBytes e \<and> offset < endBytes e then Some e else None)"

record abs_read =
  read_entry :: dvd_entry
  fileOffset :: u32
  readLength :: u32

definition ResolveAbsRead :: "published \<Rightarrow> u32 \<Rightarrow> u32 \<Rightarrow> abs_read option" where
  "ResolveAbsRead P offset len =
     (let resolved = (case FindPublishedExtentForByteOffset (g_publishedExtents P) (unat offset) of
            Some x \<Rightarrow> Some (x, unat offset)
          | None \<Rightarrow> map_option (\<lambda>x. (x, unat offset * 4)) (FindPublishedExtentForByteOffset (g_publishedExtents P) (unat offset * 4)))
      in map_option (\<lambda>(x, effectiveOffset).
           let e = pub_entries P ! entryIndex x;
               fo = of_nat (effectiveOffset - startBytes x)
           in \<lparr>read_entry = e, fileOffset = fo,
               readLength = (if len = 0 \<or> fo + len > file_size e then file_size e - fo else len)\<rparr>) resolved)"

section \<open>The index\<close>

text \<open>Every path in the index leads to the last entry registered under it, and every entry's path is in
  the index.\<close>

definition index_ok :: "disc_index \<Rightarrow> bool" where
  "index_ok ix \<longleftrightarrow>
     (\<forall>k i. map_of (g_pathToEntry ix) k = Some i \<longrightarrow> i < length (g_fileEntries ix) \<and>
        NormalizeLookupPath (dvdPath (g_fileEntries ix ! i)) = k \<and>
        (\<forall>j<length (g_fileEntries ix). i < j \<longrightarrow> NormalizeLookupPath (dvdPath (g_fileEntries ix ! j)) \<noteq> k)) \<and>
     (\<forall>e\<in>set (g_fileEntries ix). NormalizeLookupPath (dvdPath e) \<in> dom (map_of (g_pathToEntry ix)))"

lemma Register_ok: "index_ok ix \<Longrightarrow> index_ok (RegisterFileEntry p h n ix)"
  unfolding index_ok_def RegisterFileEntry_def Let_def
  by (auto simp: normalize_canonical nth_append less_Suc_eq)

lemma fold_inv: "(\<And>x s. x \<in> set xs \<Longrightarrow> I s \<Longrightarrow> I (f x s)) \<Longrightarrow> I s \<Longrightarrow> I (fold f xs s)"
  by (induction xs arbitrary: s) auto

text \<open>Whatever every registration keeps, every scan keeps.\<close>

lemma register_entry_inv:
  assumes "\<And>p h n ix. I ix \<Longrightarrow> I (RegisterFileEntry p h n ix)" "I ix"
  shows "I (register_entry pre new e ix)"
  using assms by (auto simp: register_entry_def Let_def split: option.splits)

lemma ScanDirectory_inv:
  assumes "\<And>p h n ix. I ix \<Longrightarrow> I (RegisterFileEntry p h n ix)" "I ix"
  shows "I (ScanDirectory H root pre rec new ix)"
  unfolding ScanDirectory_def by (rule fold_inv [where I = I]) (use assms register_entry_inv [where I = I] in simp_all)

lemma apply_by_name_inv:
  assumes "\<And>p h n ix. p \<in> set (b (Lowercase (he_filename e))) \<Longrightarrow> I ix \<Longrightarrow> I (RegisterFileEntry p h n ix)" "I ix"
  shows "I (apply_by_name b e ix)"
proof (cases "he_size e")
  case (Some n)
  then show ?thesis
    unfolding apply_by_name_def Some option.case by (intro fold_inv [where I = I]) (use assms in simp_all)
qed (simp add: apply_by_name_def assms(2))

lemma apply_mapping_inv:
  assumes "\<And>p h n ix. I ix \<Longrightarrow> I (RegisterFileEntry p h n ix)" "I ix"
  shows "I (apply_mapping H m ix)"
proof (cases "kind m")
  case FileMapping
  then show ?thesis using assms by (simp add: apply_mapping_def split: option.splits)
next
  case FolderMapping
  then show ?thesis using ScanDirectory_inv [where I = I, OF assms] by (simp add: apply_mapping_def)
next
  case FolderByName
  have "I (ApplyFolderByNameMapping H m ix)"
    unfolding ApplyFolderByNameMapping_def
    by (rule fold_inv [where I = I]) (use assms apply_by_name_inv [where I = I] in simp_all)
  then show ?thesis using FolderByName by (simp add: apply_mapping_def)
qed

lemma ScanOverlayRoot_inv:
  assumes "\<And>p h n ix. I ix \<Longrightarrow> I (RegisterFileEntry p h n ix)" "I ix"
  shows "I (ScanOverlayRoot H ov ix)"
proof (cases "patches ov")
  case None
  then show ?thesis using ScanDirectory_inv [where I = I, OF assms] by (simp add: ScanOverlayRoot_def)
next
  case (Some ms)
  have "I (fold (apply_mapping H) ms ix)"
    by (rule fold_inv [where I = I]) (use assms apply_mapping_inv [where I = I] in simp_all)
  then show ?thesis using Some by (simp add: ScanOverlayRoot_def)
qed

lemma scan_disc_inv:
  assumes "\<And>p h n ix. I ix \<Longrightarrow> I (RegisterFileEntry p h n ix)" "I \<lparr>g_fileEntries = [], g_pathToEntry = []\<rparr>"
  shows "I (scan_disc H files sys ovs)"
  unfolding scan_disc_def
  by (rule fold_inv [where I = I])
    (use assms ScanOverlayRoot_inv [where I = I] ScanDirectory_inv [where I = I] in simp_all)

lemma scan_disc_ok: "index_ok (scan_disc H files sys ovs)"
  by (rule scan_disc_inv [where I = index_ok, OF Register_ok]) (simp_all add: index_ok_def)

definition no_dirs :: "disc_index \<Rightarrow> bool" where
  "no_dirs ix \<longleftrightarrow> (\<forall>e\<in>set (g_fileEntries ix). \<not> isDir e)"

lemma scan_disc_no_dirs: "no_dirs (scan_disc H files sys ovs)"
  by (rule scan_disc_inv [where I = no_dirs]) (auto simp: no_dirs_def RegisterFileEntry_def Let_def)

section \<open>Overlays\<close>

text \<open>What the index serves under a normalised path: the host file and its size.\<close>

definition disc_file :: "disc_index \<Rightarrow> string \<Rightarrow> (string \<times> u32) option" where
  "disc_file ix path = map_option (\<lambda>i. (hostPath (g_fileEntries ix ! i), file_size (g_fileEntries ix ! i))) (map_of (g_pathToEntry ix) path)"

text \<open>What an overlay holds for a path: the host files its mappings name for it, in order.\<close>

definition entry_offer :: "string \<Rightarrow> string \<Rightarrow> host_entry \<Rightarrow> (string \<times> u32) list" where
  "entry_offer prefix path e = (case (he_size e, he_relative e) of
     (Some n, Some relative) \<Rightarrow> if NormalizeLookupPath (scan_prefix prefix @ relative) = path then [(he_path e, of_nat n)] else []
   | _ \<Rightarrow> [])"

definition name_offer :: "string \<Rightarrow> host_entry \<Rightarrow> (string \<times> u32) list" where
  "name_offer path e = (case he_size e of
     Some n \<Rightarrow> if base_name path \<noteq> [] \<and> Lowercase (he_filename e) = base_name path then [(he_path e, of_nat n)] else []
   | None \<Rightarrow> [])"

definition offers :: "host_fs \<Rightarrow> string \<Rightarrow> mapping \<Rightarrow> (string \<times> u32) list" where
  "offers H path m = (case kind m of
     FileMapping \<Rightarrow> (case size_of H (map_hostPath m) of
         Some n \<Rightarrow> if NormalizeLookupPath (discPath m) = path then [(map_hostPath m, of_nat n)] else []
       | None \<Rightarrow> [])
   | FolderMapping \<Rightarrow> concat (map (entry_offer (discPath m) path) (listing H (map_hostPath m) (recursive m)))
   | FolderByName \<Rightarrow> concat (map (name_offer path) (listing H (map_hostPath m) (recursive m))))"

text \<open>A folder without a description is one mapping of the folder onto the disc.\<close>

definition overlay_mappings :: "overlay \<Rightarrow> mapping list" where
  "overlay_mappings ov = (case patches ov of
     None \<Rightarrow> [\<lparr>kind = FolderMapping, discPath = ''/'', map_hostPath = overlay_root ov, recursive = True, create = True\<rparr>]
   | Some ms \<Rightarrow> ms)"

definition may_create :: "mapping \<Rightarrow> bool" where
  "may_create m \<longleftrightarrow> create m \<and> kind m \<noteq> FolderByName"

text \<open>The last offer is taken where the path is there already or an offer may create it.\<close>

definition overwrite :: "'a list \<Rightarrow> bool \<Rightarrow> 'a option \<Rightarrow> 'a option" where
  "overwrite os new below = (if os \<noteq> [] \<and> (new \<or> below \<noteq> None) then Some (List.last os) else below)"

lemma overwrite_Nil [simp]: "overwrite [] new below = below"
  by (simp add: overwrite_def)

lemma fold_overwrite:
  assumes "\<And>x s. x \<in> set xs \<Longrightarrow> I s \<Longrightarrow> I (f x s) \<and> g (f x s) = overwrite (off x) (new x) (g s)" "I s"
  shows "I (fold f xs s) \<and> g (fold f xs s) = overwrite (concat (map off xs)) (\<exists>x\<in>set xs. off x \<noteq> [] \<and> new x) (g s)"
  using assms
proof (induction xs arbitrary: s)
  case (Cons x xs)
  have x: "I (f x s)" "g (f x s) = overwrite (off x) (new x) (g s)" using Cons.prems by auto
  have "I (fold f xs (f x s)) \<and> g (fold f xs (f x s)) = overwrite (concat (map off xs)) (\<exists>x\<in>set xs. off x \<noteq> [] \<and> new x) (g (f x s))"
    using Cons.prems(1) by (intro Cons.IH x(1)) auto
  then show ?case unfolding x(2) by (auto simp: overwrite_def)
qed simp

text \<open>The paths of the entries are canonical.\<close>

definition serving_ok :: "disc_index \<Rightarrow> bool" where
  "serving_ok ix \<longleftrightarrow> index_ok ix \<and> (\<forall>e\<in>set (g_fileEntries ix). CanonicalizePath (dvdPath e) = dvdPath e)"

lemma Register_serving: "serving_ok ix \<Longrightarrow> serving_ok (RegisterFileEntry p h n ix)"
  using Register_ok [of ix p h n] by (auto simp: serving_ok_def RegisterFileEntry_def Let_def canonicalize_idem)

lemma scan_disc_serving: "serving_ok (scan_disc H files sys ovs)"
  by (rule scan_disc_inv [where I = serving_ok, OF Register_serving]) (simp_all add: serving_ok_def index_ok_def)

lemma disc_file_Register:
  "serving_ok ix \<Longrightarrow> disc_file (RegisterFileEntry p h n ix) path = (if NormalizeLookupPath p = path then Some (h, n) else disc_file ix path)"
  by (auto simp: disc_file_def RegisterFileEntry_def Let_def normalize_canonical nth_append serving_ok_def index_ok_def split: option.splits)
    (cases "map_of (g_pathToEntry ix) path"; auto simp: nth_append)

lemma exists_disc_file: "DvdEntryExists p ix \<longleftrightarrow> disc_file ix (NormalizeLookupPath p) \<noteq> None"
  by (simp add: DvdEntryExists_def disc_file_def normalize_canonical)

lemma register_entry_offer:
  "serving_ok ix \<Longrightarrow> serving_ok (register_entry pre new e ix) \<and>
     disc_file (register_entry pre new e ix) path = overwrite (entry_offer pre path e) new (disc_file ix path)"
  by (auto simp: register_entry_def entry_offer_def Let_def disc_file_Register Register_serving exists_disc_file overwrite_def split: option.splits)

lemma ScanDirectory_offer:
  assumes "serving_ok ix"
  shows "serving_ok (ScanDirectory H root pre rec new ix) \<and>
     disc_file (ScanDirectory H root pre rec new ix) path =
       overwrite (concat (map (entry_offer pre path) (listing H root rec))) new (disc_file ix path)"
proof -
  let ?es = "listing H root rec"
  note fold_overwrite [where I = serving_ok and g = "\<lambda>ix. disc_file ix path" and f = "register_entry pre new" and xs = ?es
      and off = "entry_offer pre path" and new = "\<lambda>_. new", OF register_entry_offer assms]
  moreover have "overwrite (concat (map (entry_offer pre path) ?es)) (\<exists>x\<in>set ?es. entry_offer pre path x \<noteq> [] \<and> new) b =
      overwrite (concat (map (entry_offer pre path) ?es)) new b" for b
    by (auto simp: overwrite_def)
  ultimately show ?thesis by (simp add: ScanDirectory_def)
qed

lemma base_name_lower: "base_name (Lowercase p) = Lowercase (base_name p)"
proof -
  have "(lower_char c \<noteq> slash) = (c \<noteq> slash)" for c
    by (subst lower_char_early [of slash]) (simp_all add: slash_def)
  then show ?thesis by (simp add: base_name_def Lowercase_def takeWhile_map comp_def rev_map)
qed

lemma discPathsByName_offer:
  assumes "serving_ok ix"
  shows "(\<exists>p\<in>set (discPathsByName ix name). NormalizeLookupPath p = path) \<longleftrightarrow>
     name \<noteq> [] \<and> name = base_name path \<and> disc_file ix path \<noteq> None"
proof -
  have norm: "NormalizeLookupPath (dvdPath e) = Lowercase (dvdPath e)" if "e \<in> set (g_fileEntries ix)" for e
    using assms that by (simp add: serving_ok_def NormalizeLookupPath_def Lowercase_def)
  have ex: "(\<exists>e\<in>set (g_fileEntries ix). NormalizeLookupPath (dvdPath e) = path) \<longleftrightarrow> disc_file ix path \<noteq> None"
    using assms unfolding serving_ok_def index_ok_def disc_file_def
    by (auto simp: dom_def) (metis nth_mem)
  have "(\<exists>p\<in>set (discPathsByName ix name). NormalizeLookupPath p = path) \<longleftrightarrow>
      name \<noteq> [] \<and> (\<exists>e\<in>set (g_fileEntries ix). Lowercase (base_name (dvdPath e)) = name \<and> NormalizeLookupPath (dvdPath e) = path)"
    by (auto simp: discPathsByName_def)
  also have "\<dots> \<longleftrightarrow> name \<noteq> [] \<and> name = base_name path \<and> (\<exists>e\<in>set (g_fileEntries ix). NormalizeLookupPath (dvdPath e) = path)"
    using norm by (auto simp: base_name_lower)
  finally show ?thesis unfolding ex .
qed

lemma register_paths:
  "serving_ok ix \<Longrightarrow> serving_ok (fold (\<lambda>p. RegisterFileEntry p h n) ps ix) \<and>
     disc_file (fold (\<lambda>p. RegisterFileEntry p h n) ps ix) path =
       (if \<exists>p\<in>set ps. NormalizeLookupPath p = path then Some (h, n) else disc_file ix path)"
  by (induction ps arbitrary: ix) (auto simp: disc_file_Register Register_serving)

lemma by_name_offer:
  assumes "serving_ok ix0" "serving_ok ix" "(disc_file ix path = None) = (disc_file ix0 path = None)"
  shows "let ix' = apply_by_name (discPathsByName ix0) e ix in
     (serving_ok ix' \<and> (disc_file ix' path = None) = (disc_file ix0 path = None)) \<and>
     disc_file ix' path = overwrite (name_offer path e) False (disc_file ix path)"
  using assms discPathsByName_offer [OF assms(1), of "Lowercase (he_filename e)" path] register_paths [OF assms(2)]
  by (auto simp: apply_by_name_def name_offer_def overwrite_def Let_def split: option.splits)

lemma mapping_offer:
  assumes "serving_ok ix"
  shows "serving_ok (apply_mapping H m ix) \<and> disc_file (apply_mapping H m ix) path = overwrite (offers H path m) (may_create m) (disc_file ix path)"
proof (cases "kind m")
  case FileMapping
  then show ?thesis using assms
    by (auto simp: apply_mapping_def offers_def may_create_def disc_file_Register Register_serving exists_disc_file overwrite_def split: option.splits)
next
  case FolderMapping
  then show ?thesis using ScanDirectory_offer [OF assms] by (simp add: apply_mapping_def offers_def may_create_def)
next
  case FolderByName
  let ?es = "listing H (map_hostPath m) (recursive m)"
  have step: "(serving_ok (apply_by_name (discPathsByName ix) e ix') \<and> (disc_file (apply_by_name (discPathsByName ix) e ix') path = None) = (disc_file ix path = None)) \<and>
      disc_file (apply_by_name (discPathsByName ix) e ix') path = overwrite (name_offer path e) False (disc_file ix' path)"
    if "serving_ok ix' \<and> (disc_file ix' path = None) = (disc_file ix path = None)" for e ix'
    using by_name_offer [OF assms, of ix' path e, unfolded Let_def] that by blast
  have "serving_ok (fold (apply_by_name (discPathsByName ix)) ?es ix) \<and>
      disc_file (fold (apply_by_name (discPathsByName ix)) ?es ix) path = overwrite (concat (map (name_offer path) ?es)) False (disc_file ix path)"
    using fold_overwrite [where I = "\<lambda>ix'. serving_ok ix' \<and> (disc_file ix' path = None) = (disc_file ix path = None)" and g = "\<lambda>ix. disc_file ix path"
        and f = "apply_by_name (discPathsByName ix)" and xs = ?es and off = "name_offer path" and new = "\<lambda>_. False" and s = ix, OF step] assms
    by simp
  then show ?thesis using FolderByName by (simp add: apply_mapping_def ApplyFolderByNameMapping_def offers_def may_create_def)
qed

text \<open>C18: What an overlay contributes, exactly, for every path and every kind of mapping: the last host file
  its mappings offer for the path, in the order of the pack and of its folders, is what the index serves
  there, whatever the disc and the overlays found after it hold, when the path is there without it or one
  of the mappings that offer it may create files; in every other case the path is served, or missing, as
  without the overlay.  With the overlays applied from the last found to the first, the first found wins.
\<close>

theorem first_overlay_wins:
  "disc_file (scan_disc H files sys (ov # ovs)) path =
    (let os = concat (map (offers H path) (overlay_mappings ov));
         below = disc_file (scan_disc H files sys ovs) path
     in if os \<noteq> [] \<and> (below \<noteq> None \<or> (\<exists>m\<in>set (overlay_mappings ov). offers H path m \<noteq> [] \<and> may_create m))
        then Some (List.last os) else below)"
proof -
  have "scan_disc H files sys (ov # ovs) = fold (apply_mapping H) (overlay_mappings ov) (scan_disc H files sys ovs)"
    by (simp add: scan_disc_def ScanOverlayRoot_def overlay_mappings_def apply_mapping_def split: option.splits)
  moreover note fold_overwrite [where I = serving_ok and g = "\<lambda>ix. disc_file ix path" and f = "apply_mapping H"
      and xs = "overlay_mappings ov" and off = "offers H path" and new = may_create, OF mapping_offer scan_disc_serving]
  ultimately show ?thesis by (auto simp: overwrite_def Let_def)
qed

definition same_paths :: "disc_index \<Rightarrow> disc_index \<Rightarrow> bool" where
  "same_paths ix ix' \<longleftrightarrow> index_ok ix' \<and> dom (map_of (g_pathToEntry ix')) = dom (map_of (g_pathToEntry ix))"

lemma Register_same:
  "same_paths ix ix' \<Longrightarrow> DvdEntryExists p ix' \<Longrightarrow> same_paths ix (RegisterFileEntry p h n ix')"
  unfolding same_paths_def using Register_ok [of ix' p h n]
  by (auto simp: DvdEntryExists_def RegisterFileEntry_def Let_def normalize_canonical)

lemma mapping_same:
  assumes "same_paths ix ix'" "kind m = FolderByName \<or> \<not> create m"
  shows "same_paths ix (apply_mapping H m ix')"
proof (cases "kind m")
  case FileMapping
  then show ?thesis using assms by (auto simp: apply_mapping_def Register_same split: option.splits)
next
  case FolderMapping
  have "same_paths ix (register_entry p False e ix1)" if "same_paths ix ix1" for p e ix1
    using that by (auto simp: register_entry_def Let_def Register_same split: option.splits)
  then have "same_paths ix (ScanDirectory H (map_hostPath m) (discPath m) (recursive m) False ix')"
    unfolding ScanDirectory_def by (intro fold_inv [where I = "same_paths ix"] assms(1))
  then show ?thesis using FolderMapping assms(2) by (simp add: apply_mapping_def)
next
  case FolderByName
  have ex: "DvdEntryExists p ix1" if "p \<in> set (discPathsByName ix' name)" "same_paths ix ix1" for p name ix1
  proof -
    obtain e where "e \<in> set (g_fileEntries ix')" "p = dvdPath e" using \<open>p \<in> _\<close> by (auto simp: discPathsByName_def split: if_splits)
    then have "NormalizeLookupPath p \<in> dom (map_of (g_pathToEntry ix'))" using assms(1) by (auto simp: same_paths_def index_ok_def)
    then have "NormalizeLookupPath p \<in> dom (map_of (g_pathToEntry ix1))" using assms(1) that(2) by (auto simp: same_paths_def)
    then show ?thesis by (auto simp: DvdEntryExists_def normalize_canonical)
  qed
  have "same_paths ix (apply_by_name (discPathsByName ix') e ix1)" if "same_paths ix ix1" for e ix1
    by (rule apply_by_name_inv [where I = "same_paths ix", OF Register_same that]) (use ex in simp_all)
  then have "same_paths ix (ApplyFolderByNameMapping H m ix')"
    unfolding ApplyFolderByNameMapping_def by (intro fold_inv [where I = "same_paths ix"] assms(1))
  then show ?thesis using FolderByName by (simp add: apply_mapping_def)
qed

text \<open>C21: Without \<open>create\<close> an overlay only replaces: a pack whose file and folder mappings all lack \<open>create\<close>
  leaves the set of disc paths as it was, whatever files its folders hold; mappings by file name never add.
\<close>

theorem replacing_overlay_adds_no_path:
  assumes "patches ov = Some ms" "\<forall>m\<in>set ms. kind m = FolderByName \<or> \<not> create m"
  shows "dom (map_of (g_pathToEntry (scan_disc H files sys (ov # ovs)))) = dom (map_of (g_pathToEntry (scan_disc H files sys ovs)))"
proof -
  have "same_paths (scan_disc H files sys ovs) (fold (apply_mapping H) ms (scan_disc H files sys ovs))"
    using assms(2) by (intro fold_inv [where I = "same_paths (scan_disc H files sys ovs)"] mapping_same)
      (auto simp: same_paths_def scan_disc_ok)
  then show ?thesis by (simp add: scan_disc_def ScanOverlayRoot_def assms(1) same_paths_def)
qed

section \<open>Made-up disc offsets\<close>

definition ident :: "dvd_entry \<Rightarrow> string \<times> string \<times> u32 \<times> bool" where
  "ident e = (hostPath e, dvdPath e, file_size e, isDir e)"

definition needs_place :: "dvd_entry \<Rightarrow> bool" where
  "needs_place e \<longleftrightarrow> \<not> isDir e \<and> discOffsetWords e = 0"

definition disc_start :: "dvd_entry \<Rightarrow> nat" where
  "disc_start e = unat (discOffsetWords e) * 4"

lemma round_up: "n \<le> (n + 31) div 32 * 32" "4 dvd (n + 31) div 32 * (32 :: nat)"
  by (presburger, simp)

lemma place_entries_Some:
  "place_entries n es = Some es' \<Longrightarrow> map ident es' = map ident es \<and>
   (\<forall>j<length es. (\<not> needs_place (es ! j) \<longrightarrow> es' ! j = es ! j) \<and>
     (needs_place (es ! j) \<longrightarrow> n \<le> disc_start (es' ! j) \<and> 32 dvd disc_start (es' ! j) \<and>
       (\<forall>i<j. needs_place (es ! i) \<longrightarrow> disc_start (es' ! i) + max (unat (file_size (es ! i))) 4 \<le> disc_start (es' ! j))))"
proof (induction n es arbitrary: es' rule: place_entries.induct)
  case (2 n e es)
  show ?case
  proof (cases "needs_place e")
    case False
    then obtain es1 where es1: "place_entries n es = Some es1" "es' = e # es1"
      using 2(3) by (auto simp: needs_place_def split: if_splits)
    show ?thesis using 2(1) [OF _ es1(1)] False es1(2)
      by (auto simp: needs_place_def nth_Cons' less_Suc_eq_0_disj)
  next
    case True
    define start where "start = (n + 31) div 32 * 32"
    have fits: "int (start div 4) \<le> 0xFFFFFFFF"
      using 2(3) True by (auto simp: needs_place_def Let_def start_def split: if_splits)
    obtain es1 where es1: "place_entries (start + max (unat (file_size e)) 4) es = Some es1"
      "es' = e\<lparr>discOffsetWords := of_nat (start div 4)\<rparr> # es1"
      using 2(3) True by (auto simp: needs_place_def Let_def start_def split: if_splits)
    have "unat (of_nat (start div 4) :: u32) = start div 4" using fits by (simp add: unat_of_nat)
    then have ds: "disc_start (es' ! 0) = start" using es1(2) round_up(2) [of n] by (simp add: disc_start_def start_def)
    have IH: "map ident es1 = map ident es" "\<And>j. j < length es \<Longrightarrow> \<not> needs_place (es ! j) \<Longrightarrow> es1 ! j = es ! j"
      "\<And>j. j < length es \<Longrightarrow> needs_place (es ! j) \<Longrightarrow> start + max (unat (file_size e)) 4 \<le> disc_start (es1 ! j) \<and> 32 dvd disc_start (es1 ! j) \<and>
       (\<forall>i<j. needs_place (es ! i) \<longrightarrow> disc_start (es1 ! i) + max (unat (file_size (es ! i))) 4 \<le> disc_start (es1 ! j))"
      using 2(2) [OF _ start_def _ es1(1)] True fits by (auto simp: needs_place_def start_def)
    have le: "n \<le> start" "32 dvd start" using round_up(1) by (simp_all add: start_def)
    show ?thesis
    proof (intro conjI allI impI)
      show "map ident es' = map ident (e # es)" using IH(1) by (simp add: es1(2) ident_def)
    next
      fix j assume "j < length (e # es)" "\<not> needs_place ((e # es) ! j)"
      then show "es' ! j = (e # es) ! j" using IH(2) True es1(2) by (cases j) auto
    next
      fix j assume "j < length (e # es)" "needs_place ((e # es) ! j)"
      then show "n \<le> disc_start (es' ! j)" "32 dvd disc_start (es' ! j)"
        using IH(3) [of "j - 1"] le ds es1(2) by (cases j; fastforce)+
    next
      fix j i assume "j < length (e # es)" "needs_place ((e # es) ! j)" "i < j" "needs_place ((e # es) ! i)"
      then show "disc_start (es' ! i) + max (unat (file_size ((e # es) ! i))) 4 \<le> disc_start (es' ! j)"
        using IH(3) [of "j - 1"] ds es1(2) by (cases j; cases i) auto
    qed
  qed
qed simp

text \<open>With nothing on the disc before it, the first made-up offset is zero, which means none: the file gets
  no extent.\<close>

lemma first_made_up_offset_may_be_zero:
  assumes "place_entries 0 (e # es) = Some es'" "needs_place e"
  shows "discOffsetWords (es' ! 0) = 0"
  using assms by (auto simp: needs_place_def Let_def)

lemma fold_max_ge: "n \<le> fold (\<lambda>x n. if P x then max n (g x) else n) xs (n :: nat)"
  by (induction xs arbitrary: n) (auto intro: order_trans [rotated] max.coboundedI1 le_trans)

lemma fold_max_mem: "x \<in> set xs \<Longrightarrow> P x \<Longrightarrow> g x \<le> fold (\<lambda>x n. if P x then max n (g x) else n) xs (n :: nat)"
proof (induction xs arbitrary: n)
  case (Cons y ys)
  then show ?case using fold_max_ge [of "max n (g y)" P g ys] by (auto intro: order_trans)
qed simp

lemma next_free_fst: "f \<in> set fs \<Longrightarrow> unat (fst_end f) \<le> next_free fs es"
  using fold_max_mem [of f fs "\<lambda>_. True" "\<lambda>f. unat (fst_end f)" 0]
    fold_max_ge [of "fold (\<lambda>f n. max n (unat (fst_end f))) fs 0" "\<lambda>e. discOffsetWords e \<noteq> 0" _ es]
  by (auto simp: next_free_def intro: order_trans)

lemma next_free_entry: "e \<in> set es \<Longrightarrow> discOffsetWords e \<noteq> 0 \<Longrightarrow> disc_start e + unat (file_size e) \<le> next_free fs es"
  using fold_max_mem [of e es "\<lambda>e. discOffsetWords e \<noteq> 0" "\<lambda>e. unat (discOffsetWords e) * 4 + unat (file_size e)"]
  by (simp add: next_free_def disc_start_def)

text \<open>C20: The disc range made up for a file that the original table does not place is free: it starts on a
  32-byte boundary behind every file of the original table, and no other file of the index, placed or
  kept, has a byte in it.
\<close>

theorem made_up_ranges_are_free:
  assumes "assign_offsets fstFiles ix = Some es" "placed = fold (keep_offset (g_pathToEntry ix)) fstFiles (g_fileEntries ix)"
    and "i < length placed" "\<not> isDir (placed ! i)" "discOffsetWords (placed ! i) = 0"
  shows "length es = length placed \<and> file_size (es ! i) = file_size (placed ! i) \<and>
    (let start = unat (discOffsetWords (es ! i)) * 4 in 32 dvd start \<and> (\<forall>f\<in>set fstFiles. unat (fst_end f) \<le> start) \<and>
       (\<forall>j<length es. j \<noteq> i \<and> \<not> isDir (es ! j) \<longrightarrow>
          start + max (unat (file_size (es ! i))) 4 \<le> unat (discOffsetWords (es ! j)) * 4 \<or>
          unat (discOffsetWords (es ! j)) * 4 + unat (file_size (es ! j)) \<le> start))"
proof -
  have pl: "place_entries (next_free fstFiles placed) placed = Some es"
    using assms(1,2) by (simp add: assign_offsets_def Let_def)
  note r = place_entries_Some [OF pl]
  have len: "length es = length placed" using r by (metis length_map)
  have idj: "ident (es ! j) = ident (placed ! j)" if "j < length placed" for j
    using r that len by (metis nth_map)
  have np: "needs_place (placed ! i)" using assms(4,5) by (simp add: needs_place_def)
  have st: "next_free fstFiles placed \<le> disc_start (es ! i)" "32 dvd disc_start (es ! i)" using r assms(3) np by auto
  have sz: "file_size (es ! j) = file_size (placed ! j)" "isDir (es ! j) = isDir (placed ! j)" if "j < length placed" for j
    using idj [OF that] by (simp_all add: ident_def)
  have other: "disc_start (es ! i) + max (unat (file_size (es ! i))) 4 \<le> disc_start (es ! j) \<or> disc_start (es ! j) + unat (file_size (es ! j)) \<le> disc_start (es ! i)"
    if j: "j < length es" "j \<noteq> i" "\<not> isDir (es ! j)" for j
  proof (cases "needs_place (placed ! j)")
    case True
    consider "i < j" | "j < i" using j(2) by linarith
    then show ?thesis
    proof cases
      case 1
      then have "disc_start (es ! i) + max (unat (file_size (placed ! i))) 4 \<le> disc_start (es ! j)" using r j(1) len True np by auto
      then show ?thesis using sz assms(3) by simp
    next
      case 2
      then have "disc_start (es ! j) + max (unat (file_size (placed ! j))) 4 \<le> disc_start (es ! i)" using r assms(3) True np by auto
      then show ?thesis using sz(1) [of j] j(1) len by (simp add: max_def split: if_splits)
    qed
  next
    case False
    have jl: "j < length placed" using j(1) len by simp
    have e: "es ! j = placed ! j" using r jl False by auto
    then have "discOffsetWords (placed ! j) \<noteq> 0" using False j(3) by (simp add: needs_place_def)
    then have "disc_start (es ! j) + unat (file_size (es ! j)) \<le> next_free fstFiles placed"
      unfolding e using jl by (intro next_free_entry) auto
    then show ?thesis using st(1) by simp
  qed
  have "\<forall>f\<in>set fstFiles. unat (fst_end f) \<le> disc_start (es ! i)" using next_free_fst st(1) by (meson order_trans)
  then show ?thesis using len sz assms(3) st(2) other unfolding Let_def disc_start_def by blast
qed

section \<open>The published table\<close>

lemma keep_offset_ident: "map ident (keep_offset paths f es) = map ident es"
proof -
  have "map ident (es[i := (es ! i)\<lparr>discOffsetWords := w\<rparr>]) = map ident es" for i w
    by (cases "i < length es") (simp_all add: map_update ident_def list_update_same_conv list_update_beyond)
  then show ?thesis by (simp add: keep_offset_def split: option.splits)
qed

lemma fold_keep_ident: "map ident (fold (keep_offset paths) fs es) = map ident es"
  by (induction fs arbitrary: es) (simp_all add: keep_offset_ident)

lemma keep_offset_at:
  assumes "map_of paths (NormalizeLookupPath (fst_dvdPath f)) = Some i" "i < length es"
  shows "discOffsetWords (keep_offset paths f es ! i) = fst_start f div 4"
  using assms by (simp add: keep_offset_def)

lemma keep_offset_elsewhere:
  assumes "map_of paths (NormalizeLookupPath (fst_dvdPath f)) \<noteq> Some i"
  shows "discOffsetWords (keep_offset paths f es ! i) = discOffsetWords (es ! i)"
proof (cases "map_of paths (NormalizeLookupPath (fst_dvdPath f))")
  case (Some j)
  then have "j \<noteq> i" using assms by simp
  then show ?thesis using Some by (simp add: keep_offset_def)
qed (simp add: keep_offset_def)

lemma fold_keep_same:
  assumes "i < length es" "\<forall>f\<in>set fs. map_of paths (NormalizeLookupPath (fst_dvdPath f)) = Some i \<longrightarrow> fst_start f div 4 = w"
    and "discOffsetWords (es ! i) = w \<or> (\<exists>f\<in>set fs. map_of paths (NormalizeLookupPath (fst_dvdPath f)) = Some i)"
  shows "discOffsetWords (fold (keep_offset paths) fs es ! i) = w"
  using assms
proof (induction fs arbitrary: es)
  case (Cons f fs)
  have len: "length (keep_offset paths f es) = length es" using keep_offset_ident by (metis length_map)
  show ?case
  proof (cases "map_of paths (NormalizeLookupPath (fst_dvdPath f)) = Some i")
    case True
    then have "discOffsetWords (keep_offset paths f es ! i) = w" using keep_offset_at Cons.prems(1,2) by simp
    then show ?thesis using Cons len by simp
  next
    case False
    then show ?thesis using Cons len keep_offset_elsewhere by simp
  qed
qed auto

lemma BuildRuntimeFst_cases:
  assumes "BuildRuntimeFst std_sort fs ix = Inr P"
  obtains es img where "assign_offsets fs ix = Some es" "BuildImage (map to_registered es) = Inr (img, fst_bytes P)"
    "pub_entries P = map from_indexed (entries img)" "pub_paths P = pathToEntry img"
    "g_publishedExtents P = std_sort (entry_extents (pub_entries P))"
  using assms by (auto simp: BuildRuntimeFst_def Let_def split: option.splits sum.splits)

lemma published_lookup:
  assumes "index_ok ix" "no_dirs ix" "BuildRuntimeFst std_sort fs ix = Inr P" "map_of (g_pathToEntry ix) k = Some i"
  shows "\<exists>j<length (pub_entries P). map_of (pub_paths P) k = Some j \<and>
    (let e = pub_entries P ! j; e0 = g_fileEntries ix ! i in
       \<not> isDir e \<and> hostPath e = hostPath e0 \<and> file_size e = file_size e0 \<and>
       (\<forall>w\<noteq>0. (\<exists>f\<in>set fs. NormalizeLookupPath (fst_dvdPath f) = k) \<and>
          (\<forall>f\<in>set fs. NormalizeLookupPath (fst_dvdPath f) = k \<longrightarrow> fst_start f div 4 = w) \<longrightarrow> discOffsetWords e = w))"
proof -
  obtain es img where b: "assign_offsets fs ix = Some es" "BuildImage (map to_registered es) = Inr (img, fst_bytes P)"
    "pub_entries P = map from_indexed (entries img)" "pub_paths P = pathToEntry img"
    using BuildRuntimeFst_cases [OF assms(3)] by metis
  define placed where "placed = fold (keep_offset (g_pathToEntry ix)) fs (g_fileEntries ix)"
  have pl: "place_entries (next_free fs placed) placed = Some es" using b(1) by (simp add: assign_offsets_def Let_def placed_def)
  have ids: "map ident es = map ident (g_fileEntries ix)"
    using place_entries_Some [OF pl] fold_keep_ident unfolding placed_def by metis
  then have len: "length es = length (g_fileEntries ix)" by (metis length_map)
  have same: "ident (es ! j) = ident (g_fileEntries ix ! j)" if "j < length es" for j using ids that len by (metis nth_map)
  have i: "i < length es" "NormalizeLookupPath (dvdPath (es ! i)) = k"
    "\<forall>j<length es. i < j \<longrightarrow> NormalizeLookupPath (dvdPath (es ! j)) \<noteq> k"
    using assms(1,4) len same by (auto simp: index_ok_def ident_def)
  define rs where "rs = map to_registered es"
  have split: "rs = take i rs @ to_registered (es ! i) # drop (Suc i) rs"
    using i(1) id_take_nth_drop [of i rs] by (simp add: rs_def)
  have post: "\<forall>g\<in>set (drop (Suc i) rs). NormalizeLookupPath (dvdPath g) \<noteq> NormalizeLookupPath (dvdPath (to_registered (es ! i)))"
  proof
    fix g assume "g \<in> set (drop (Suc i) rs)"
    then obtain l where "l < length es - Suc i" "g = to_registered (es ! (Suc i + l))"
      by (auto simp: in_set_conv_nth rs_def)
    then show "NormalizeLookupPath (dvdPath g) \<noteq> NormalizeLookupPath (dvdPath (to_registered (es ! i)))"
      using i(2,3) by (auto simp: to_registered_def)
  qed
  have build: "BuildImage (take i rs @ to_registered (es ! i) # drop (Suc i) rs) = Inr (img, fst_bytes P)"
    using b(2) split unfolding rs_def by metis
  obtain j where j: "j < length (entries img)" "map_of (pathToEntry img) k = Some j" "\<not> isDirectory (entries img ! j)"
    "hostPath (entries img ! j) = hostPath (es ! i)" "file_size (entries img ! j) = file_size (es ! i)"
    "discOffsetWords (entries img ! j) = discOffsetWords (es ! i)"
    using last_registration_lookup [OF build post] i(2) by (auto simp: Let_def to_registered_def)
  have kept: "discOffsetWords (es ! i) = w" if w: "w \<noteq> 0" "\<exists>f\<in>set fs. NormalizeLookupPath (fst_dvdPath f) = k"
      "\<forall>f\<in>set fs. NormalizeLookupPath (fst_dvdPath f) = k \<longrightarrow> fst_start f div 4 = w" for w
  proof -
    have key: "map_of (g_pathToEntry ix) (NormalizeLookupPath (fst_dvdPath f)) = Some i \<longleftrightarrow> NormalizeLookupPath (fst_dvdPath f) = k" for f
      using assms(1,4) unfolding index_ok_def by metis
    have "discOffsetWords (placed ! i) = w"
      unfolding placed_def using i(1) len w(2,3) key by (intro fold_keep_same) auto
    then show ?thesis using place_entries_Some [OF pl] i(1) w(1) ids fold_keep_ident
      by (metis (no_types, lifting) len length_map needs_place_def placed_def)
  qed
  show ?thesis
    using j same [OF i(1)] kept b(3,4) by (intro exI [of _ j]) (auto simp: Let_def from_indexed_def ident_def)
qed

text \<open>C15: The published table serves the index: every path of the index is in the table, and leads to a file
  entry with the host file and size of the index's entry; where the original table places the file behind
  its first four bytes, the entry keeps that disc offset.
\<close>

theorem published_table_serves_index:
  assumes "ix = scan_disc H files sys overlays" "BuildRuntimeFst std_sort fstFiles ix = Inr P"
    and "map_of (g_pathToEntry ix) path = Some i"
  shows "\<exists>j<length (pub_entries P). map_of (pub_paths P) path = Some j \<and>
    (let e = pub_entries P ! j; e0 = g_fileEntries ix ! i in
       \<not> isDir e \<and> hostPath e = hostPath e0 \<and> file_size e = file_size e0 \<and>
       (\<forall>w\<noteq>0. (\<exists>f\<in>set fstFiles. NormalizeLookupPath (fst_dvdPath f) = path) \<and>
          (\<forall>f\<in>set fstFiles. NormalizeLookupPath (fst_dvdPath f) = path \<longrightarrow> fst_start f div 4 = w) \<longrightarrow> discOffsetWords e = w))"
  using published_lookup [OF _ _ assms(2,3)] assms(1) scan_disc_ok scan_disc_no_dirs by simp

section \<open>Extents\<close>

definition extent_of :: "nat \<Rightarrow> dvd_entry \<Rightarrow> published_extent" where
  "extent_of i e = \<lparr>startBytes = disc_start e, endBytes = disc_start e + max (unat (file_size e)) 1, entryIndex = i\<rparr>"

lemma extent_fields [simp]:
  "startBytes (extent_of i e) = disc_start e" "endBytes (extent_of i e) = disc_start e + max (unat (file_size e)) 1" "entryIndex (extent_of i e) = i"
  by (simp_all add: extent_of_def)

lemma set_entry_extents:
  "set (entry_extents es) = {extent_of i (es ! i) | i. i < length es \<and> \<not> isDir (es ! i) \<and> discOffsetWords (es ! i) \<noteq> 0}"
proof (intro set_eqI iffI)
  fix x assume "x \<in> set (entry_extents es)"
  then show "x \<in> {extent_of i (es ! i) | i. i < length es \<and> \<not> isDir (es ! i) \<and> discOffsetWords (es ! i) \<noteq> 0}"
    by (auto simp: entry_extents_def in_set_enumerate_eq extent_of_def disc_start_def split: if_splits)
next
  fix x assume "x \<in> {extent_of i (es ! i) | i. i < length es \<and> \<not> isDir (es ! i) \<and> discOffsetWords (es ! i) \<noteq> 0}"
  then obtain i where i: "i < length es" "\<not> isDir (es ! i)" "discOffsetWords (es ! i) \<noteq> 0" "x = extent_of i (es ! i)" by auto
  then have "(i, es ! i) \<in> set (enumerate 0 es)" by (simp add: in_set_enumerate_eq)
  then show "x \<in> set (entry_extents es)"
    using i by (force simp: entry_extents_def extent_of_def disc_start_def)
qed

text \<open>In a sorted table the lookup finds the one extent with the last start before the byte.\<close>

lemma find_extent:
  assumes "sorted (map startBytes xs)" "x \<in> set xs" "startBytes x \<le> b" "b < endBytes x"
    and "\<forall>y\<in>set xs. y = x \<or> startBytes y < startBytes x \<or> b < startBytes y"
  shows "FindPublishedExtentForByteOffset xs b = Some x"
proof -
  have "takeWhile (\<lambda>e. \<not> b < startBytes e) xs \<noteq> [] \<and> List.last (takeWhile (\<lambda>e. \<not> b < startBytes e) xs) = x"
    using assms(1,2,3,5)
  proof (induction xs)
    case (Cons y ys)
    have ys: "sorted (map startBytes ys)" "\<forall>z\<in>set ys. startBytes y \<le> startBytes z" using Cons.prems(1) by auto
    show ?case
    proof (cases "x \<in> set ys")
      case True
      then have "startBytes y \<le> b" using ys(2) Cons.prems(3) by fastforce
      then show ?thesis using Cons True ys(1) by (auto simp: not_less)
    next
      case False
      then have y: "y = x" using Cons.prems(2) by simp
      have "takeWhile (\<lambda>e. \<not> b < startBytes e) ys = []"
      proof (cases ys)
        case (Cons z zs)
        then have "z \<noteq> x" "startBytes x \<le> startBytes z" using False ys(2) y by auto
        then have "b < startBytes z" using Cons.prems(4) Cons by auto
        then show ?thesis using Cons by simp
      qed simp
      then show ?thesis using y Cons.prems(3) by (simp add: not_less)
    qed
  qed simp
  then show ?thesis using assms(3,4) by (simp add: FindPublishedExtentForByteOffset_def Let_def)
qed

lemma file_extent_found:
  assumes "\<forall>xs. mset (std_sort xs) = mset xs \<and> sorted (map startBytes (std_sort xs))"
    and "xs = std_sort (entry_extents es)" "i < length es" "\<not> isDir (es ! i)" "discOffsetWords (es ! i) \<noteq> 0" "n < max (unat (file_size (es ! i))) 1"
    and "\<forall>j<length es. j \<noteq> i \<and> \<not> isDir (es ! j) \<and> discOffsetWords (es ! j) \<noteq> 0 \<longrightarrow>
      \<not> (disc_start (es ! i) \<le> disc_start (es ! j) \<and> disc_start (es ! j) \<le> disc_start (es ! i) + n)"
  shows "FindPublishedExtentForByteOffset xs (disc_start (es ! i) + n) = Some (extent_of i (es ! i))"
proof (rule find_extent)
  have "mset xs = mset (entry_extents es)" "sorted (map startBytes xs)" using assms(1,2) by auto
  then have set_xs: "set xs = set (entry_extents es)" by (metis set_mset_mset)
  show "sorted (map startBytes xs)" by fact
  show "extent_of i (es ! i) \<in> set xs" using assms(3-5) unfolding set_xs set_entry_extents by blast
  show "\<forall>y\<in>set xs. y = extent_of i (es ! i) \<or> startBytes y < startBytes (extent_of i (es ! i)) \<or> disc_start (es ! i) + n < startBytes y"
    using assms(7) unfolding set_xs set_entry_extents by (fastforce simp: not_le)
qed (use assms(6) in simp_all)

text \<open>A file that is longer than the gap to the next file on the disc, as an overlay's may be, is shadowed
  from there on: its bytes resolve to the file behind it.\<close>

lemma grown_file_is_shadowed:
  assumes "\<forall>xs. mset (std_sort xs) = mset xs \<and> sorted (map startBytes (std_sort xs))"
    and "xs = std_sort (entry_extents es)" "j < length es" "\<not> isDir (es ! j)" "discOffsetWords (es ! j) \<noteq> 0"
    and "disc_start (es ! i) < disc_start (es ! j)" "disc_start (es ! j) + n < disc_start (es ! i) + unat (file_size (es ! i))"
    and "n < max (unat (file_size (es ! j))) 1"
    and "\<forall>k<length es. k \<noteq> j \<and> \<not> isDir (es ! k) \<and> discOffsetWords (es ! k) \<noteq> 0 \<longrightarrow>
      \<not> (disc_start (es ! j) \<le> disc_start (es ! k) \<and> disc_start (es ! k) \<le> disc_start (es ! j) + n)"
  shows "FindPublishedExtentForByteOffset xs (disc_start (es ! j) + n) = Some (extent_of j (es ! j))"
  by (rule file_extent_found [OF assms(1-5,8,9)])

text \<open>
  A handle finds its file: a byte of a published file's disc range resolves to that file, whatever
  order the sort gives to equal starts, when no other published file starts between the file's start and
  that byte.
\<close>

theorem disc_byte_finds_its_file:
  assumes "\<forall>xs. mset (std_sort xs) = mset xs \<and> sorted (map startBytes (std_sort xs))"
    and "BuildRuntimeFst std_sort fstFiles ix = Inr P" "es = pub_entries P"
    and "i < length es" "\<not> isDir (es ! i)" "discOffsetWords (es ! i) \<noteq> 0" "n < max (unat (file_size (es ! i))) 1"
    and "\<forall>j<length es. j \<noteq> i \<and> \<not> isDir (es ! j) \<and> discOffsetWords (es ! j) \<noteq> 0 \<longrightarrow>
      \<not> (disc_start (es ! i) \<le> disc_start (es ! j) \<and> disc_start (es ! j) \<le> disc_start (es ! i) + n)"
  shows "\<exists>x. FindPublishedExtentForByteOffset (g_publishedExtents P) (disc_start (es ! i) + n) = Some x \<and>
    entryIndex x = i \<and> startBytes x = disc_start (es ! i)"
proof -
  have "g_publishedExtents P = std_sort (entry_extents es)" using BuildRuntimeFst_cases [OF assms(2)] assms(3) by metis
  from file_extent_found [OF assms(1) this assms(4-8)] show ?thesis by simp
qed

section \<open>A disc with an overlay\<close>

definition sample_fs :: host_fs where
  "sample_fs = \<lparr>listing = (\<lambda>root rec.
       if root = ''files'' then [\<lparr>he_path = ''files/a'', he_relative = Some ''a'', he_filename = ''a'', he_size = Some 3\<rparr>,
         \<lparr>he_path = ''files/d/b'', he_relative = Some ''d/b'', he_filename = ''b'', he_size = Some 8\<rparr>]
       else []),
     size_of = (\<lambda>p. if p = ''pack/a'' then Some 5 else None), is_regular_file = (\<lambda>_. False), is_directory = (\<lambda>_. False)\<rparr>"

definition sample_overlay :: "bool \<Rightarrow> overlay" where
  "sample_overlay new = \<lparr>overlay_root = ''pack'', patches = Some
     [\<lparr>kind = FileMapping, discPath = ''D/../A'', map_hostPath = ''pack/a'', recursive = True, create = new\<rparr>]\<rparr>"

definition sample_index :: disc_index where
  "sample_index = scan_disc sample_fs ''files'' ''sys'' [sample_overlay True]"

definition sample_table :: "fst_file list" where
  "sample_table = [\<lparr>fst_start = 16, fst_end = 24, fst_size = 8, fst_dvdPath = ''/d/b'', fst_hostPath = []\<rparr>]"

definition sample_published :: "publish_error + published" where
  "sample_published = BuildRuntimeFst (sort_key startBytes) sample_table sample_index"

lemma sample_values:
  "case sample_published of Inl _ \<Rightarrow> False | Inr P \<Rightarrow>
     map (\<lambda>e. (isDir e, discOffsetWords e, file_size e, hostPath e)) (pub_entries P) =
       [(True, 0, 0, []), (False, 16, 5, ''pack/a''), (True, 0, 0, []), (False, 4, 8, ''files/d/b'')]"
  "map_of (g_pathToEntry sample_index) ''/a'' = Some 2"
  "map_option (map (\<lambda>e. (isDir e, discOffsetWords e, file_size e))) (assign_offsets sample_table sample_index) =
     Some [(False, 8, 3), (False, 4, 8), (False, 16, 5)]"
  "map (\<lambda>e. (isDir e, discOffsetWords e)) (fold (keep_offset (g_pathToEntry sample_index)) sample_table (g_fileEntries sample_index)) =
     [(False, 0), (False, 4), (False, 0)]"
  by code_simp+

lemma sample_published_entries:
  obtains P where "sample_published = Inr P" "length (pub_entries P) = 4"
    "map (\<lambda>e. (isDir e, discOffsetWords e, file_size e, hostPath e)) (pub_entries P) =
       [(True, 0, 0, []), (False, 16, 5, ''pack/a''), (True, 0, 0, []), (False, 4, 8, ''files/d/b'')]"
  using sample_values(1) by (auto split: sum.splits dest: map_eq_imp_length_eq)

theorem first_overlay_wins_witness:
  "disc_file sample_index ''/a'' = Some (''pack/a'', 5) \<and> disc_file (scan_disc sample_fs ''files'' ''sys'' []) ''/a'' = Some (''files/a'', 3)"
proof -
  have "offers sample_fs ''/a'' \<lparr>kind = FileMapping, discPath = ''D/../A'', map_hostPath = ''pack/a'', recursive = True, create = True\<rparr> = [(''pack/a'', 5)]"
    by code_simp
  moreover have "disc_file (scan_disc sample_fs ''files'' ''sys'' []) ''/a'' = Some (''files/a'', 3)" by code_simp
  ultimately show ?thesis
    using first_overlay_wins [of sample_fs "''files''" "''sys''" "sample_overlay True" "[]" "''/a''"]
    by (simp add: sample_index_def sample_overlay_def overlay_mappings_def)
qed

theorem replacing_overlay_adds_no_path_witness:
  "dom (map_of (g_pathToEntry (scan_disc sample_fs ''files'' ''sys'' [sample_overlay False]))) =
   dom (map_of (g_pathToEntry (scan_disc sample_fs ''files'' ''sys'' [])))"
  by (rule replacing_overlay_adds_no_path [of "sample_overlay False"
      "[\<lparr>kind = FileMapping, discPath = ''D/../A'', map_hostPath = ''pack/a'', recursive = True, create = False\<rparr>]"])
    (simp_all add: sample_overlay_def)

theorem made_up_ranges_are_free_witness:
  "\<exists>es. assign_offsets sample_table sample_index = Some es \<and> 32 dvd unat (discOffsetWords (es ! 2)) * 4"
proof -
  obtain es where es: "assign_offsets sample_table sample_index = Some es" using sample_values(3) by auto
  define placed where "placed = fold (keep_offset (g_pathToEntry sample_index)) sample_table (g_fileEntries sample_index)"
  have len: "length placed = 3" using arg_cong [OF sample_values(4), of length] by (simp add: placed_def)
  have "(isDir (placed ! 2), discOffsetWords (placed ! 2)) = (False, 0)"
    using arg_cong [OF sample_values(4), of "\<lambda>xs. xs ! 2"] len by (simp add: placed_def [symmetric])
  then show ?thesis using made_up_ranges_are_free [OF es placed_def, of 2] len es by (auto simp: Let_def)
qed

theorem published_table_serves_index_witness:
  "\<exists>P j. sample_published = Inr P \<and> map_of (pub_paths P) ''/a'' = Some j \<and>
     hostPath (pub_entries P ! j) = hostPath (g_fileEntries sample_index ! 2)"
proof -
  obtain P where P: "sample_published = Inr P" by (rule sample_published_entries)
  from published_table_serves_index [OF sample_index_def P [unfolded sample_published_def] sample_values(2)] P
  show ?thesis by (auto simp: Let_def)
qed

theorem disc_byte_finds_its_file_witness:
  "\<exists>P x. sample_published = Inr P \<and> FindPublishedExtentForByteOffset (g_publishedExtents P) 66 = Some x \<and> entryIndex x = 1"
proof -
  obtain P where P: "sample_published = Inr P" "length (pub_entries P) = 4"
    and e: "map (\<lambda>e. (isDir e, discOffsetWords e, file_size e, hostPath e)) (pub_entries P) =
       [(True, 0, 0, []), (False, 16, 5, ''pack/a''), (True, 0, 0, []), (False, 4, 8, ''files/d/b'')]"
    by (rule sample_published_entries)
  have n: "(isDir (pub_entries P ! j), discOffsetWords (pub_entries P ! j), file_size (pub_entries P ! j), hostPath (pub_entries P ! j)) =
      [(True, 0, 0, []), (False, 16, 5, ''pack/a''), (True, 0, 0, []), (False, 4, 8, ''files/d/b'')] ! j" if "j < 4" for j
    using arg_cong [OF e, of "\<lambda>xs. xs ! j"] P(2) that by simp
  have "disc_start (pub_entries P ! 1) = 64" "disc_start (pub_entries P ! 3) = 16" "isDir (pub_entries P ! 0)" "isDir (pub_entries P ! 2)"
    "\<not> isDir (pub_entries P ! 1)" "discOffsetWords (pub_entries P ! 1) = 16" "file_size (pub_entries P ! 1) = 5"
    using n [of 0] n [of 1] n [of 2] n [of 3] by (simp_all add: disc_start_def)
  moreover have "j = 0 \<or> j = 1 \<or> j = 2 \<or> j = 3" if "j < 4" for j :: nat using that by linarith
  ultimately show ?thesis
    using disc_byte_finds_its_file [of "sort_key startBytes", OF _ P(1) [unfolded sample_published_def] refl, of 1 2] P
    by fastforce
qed

end
