(* ===== verification/DvdRead.thy ===== *)
theory DvdRead
  imports DvdDisc
begin

unbundle bit_operations_syntax

text \<open>
  Reading the disc, the handlers of \<open>runtime/src/hle/storage/dvd.cpp\<close> that the game calls once the table
  is published, and \<open>DvdReadContract\<close> of \<open>dvd_contract.h\<close>.  The contents of host files, the registry of
  translated functions and what an invoked one does are arguments; the log of read errors and the
  notification of the graphics caches are left out.
\<close>

section \<open>Host reads\<close>

datatype HostReadFailure = MissingFile | BadOffset | ShortRead

definition ReadExact :: "(string \<Rightarrow> u8 list option) \<Rightarrow> string \<Rightarrow> nat \<Rightarrow> nat \<Rightarrow> HostReadFailure + u8 list" where
  "ReadExact host path offset len = (case host path of
     None \<Rightarrow> Inl MissingFile
   | Some f \<Rightarrow>
       (if offset \<ge> length f then Inl BadOffset
        else if len > length f - offset then Inl ShortRead
        else Inr (take len (drop offset f))))"

section \<open>Guest side\<close>

primrec CopyToGuestAsDma :: "u32 \<Rightarrow> u8 list \<Rightarrow> ('z, unit) guest" where
  "CopyToGuestAsDma dest [] = State_Monad.return ()"
| "CopyToGuestAsDma dest (b # bs) = do { Write8 dest b; CopyToGuestAsDma (dest + 1) bs }"

definition DVD_CB_OFFSET_STATE :: u32 where "DVD_CB_OFFSET_STATE = 0x0C"
definition DVD_CB_OFFSET_TRANSFERRED :: u32 where "DVD_CB_OFFSET_TRANSFERRED = 0x20"
definition DVD_FILEINFO_OFFSET_ADDR :: u32 where "DVD_FILEINFO_OFFSET_ADDR = 0x30"
definition DVD_STATE_FATAL_ERROR :: u32 where "DVD_STATE_FATAL_ERROR = -1"
definition DVD_STATE_END :: u32 where "DVD_STATE_END = 0"
definition kDvdFatalError :: u32 where "kDvdFatalError = -3"

primrec init_queues :: "u32 list \<Rightarrow> ('z, unit) guest" where
  "init_queues [] = State_Monad.return ()"
| "init_queues (q # qs) = do { Write32 (q + 0) q; Write32 (q + 4) q; init_queues qs }"

definition InitDvdWaitingQueues :: "('z, unit) guest" where
  "InitDvdWaitingQueues = init_queues (map (\<lambda>i. 0x80343230 + of_nat i * 8) [0..<4])"

definition CompleteDvdCancelState :: "('z, unit) guest" where
  "CompleteDvdCancelState = do {
     InitDvdWaitingQueues;
     Write32 0x80386664 0;
     Write32 0x80386668 0;
     Write32 0x80386670 0;
     Write32 0x8038667C 1;
     Write32 0x803866A8 1;
     Write32 0x803866F0 0
   }"

definition DvdReadFatal :: "u32 \<Rightarrow> ('z, u32) guest" where
  "DvdReadFatal fileInfoPtr = do {
     try_catch (do {
         Write32 (fileInfoPtr + DVD_CB_OFFSET_STATE) DVD_STATE_FATAL_ERROR;
         Write32 (fileInfoPtr + DVD_CB_OFFSET_TRANSFERRED) 0
       }) (State_Monad.return ());
     State_Monad.return kDvdFatalError
   }"

text \<open>\<open>registered\<close>: the addresses with a translated function; \<open>invoke\<close>: calling one.\<close>

definition InvokeDvdCallback :: "(u32 \<Rightarrow> bool) \<Rightarrow> (u32 \<Rightarrow> ('z, unit) guest) \<Rightarrow> u32 \<Rightarrow> u32 \<Rightarrow> u32 \<Rightarrow> ('z, unit) guest" where
  "InvokeDvdCallback registered invoke callbackPtr result fileInfoPtr =
     whenM (callbackPtr \<noteq> 0 \<and> registered callbackPtr) (do {
       gpr_put 3 result;
       gpr_put 4 fileInfoPtr;
       invoke callbackPtr
     })"

definition InvokeDvdLowCallback :: "(u32 \<Rightarrow> bool) \<Rightarrow> (u32 \<Rightarrow> ('z, unit) guest) \<Rightarrow> u32 \<Rightarrow> u32 \<Rightarrow> ('z, unit) guest" where
  "InvokeDvdLowCallback registered invoke callbackPtr result =
     whenM (callbackPtr \<noteq> 0 \<and> registered callbackPtr) (do {
       gpr_put 3 result;
       invoke callbackPtr
     })"

section \<open>Reads by file handle\<close>

text \<open>The end of the read: the buffer check, the host read and, when both succeed, the transfer.\<close>

definition deliver_read :: "(string \<Rightarrow> u8 list option) \<Rightarrow> string \<Rightarrow> u32 \<Rightarrow> u32 \<Rightarrow> nat \<Rightarrow> nat \<Rightarrow> ('z, u32) guest" where
  "deliver_read host path fileInfoPtr bufferPtr uOffset uLength = do {
     inMemory \<leftarrow> get_host (\<lambda>s. Contains (regions s) bufferPtr uLength);
     (if uLength \<noteq> 0 \<and> \<not> inMemory then DvdReadFatal fileInfoPtr
      else case ReadExact host path uOffset uLength of
        Inl failure \<Rightarrow> DvdReadFatal fileInfoPtr
      | Inr tempBuf \<Rightarrow> do {
          CopyToGuestAsDma bufferPtr tempBuf;
          Write32 (fileInfoPtr + DVD_CB_OFFSET_TRANSFERRED) (of_nat uLength);
          Write32 (fileInfoPtr + DVD_CB_OFFSET_STATE) DVD_STATE_END;
          CompleteDvdCancelState;
          State_Monad.return (of_nat uLength)
        })
   }"

definition DVDReadPrio :: "(string \<Rightarrow> u8 list option) \<Rightarrow> published \<Rightarrow> u32 \<Rightarrow> u32 \<Rightarrow> u32 \<Rightarrow> u32 \<Rightarrow> ('z, u32) guest" where
  "DVDReadPrio host P fileInfoPtr bufferPtr len offset = do {
     start \<leftarrow> try_catch (do { w \<leftarrow> Read32 (fileInfoPtr + DVD_FILEINFO_OFFSET_ADDR); State_Monad.return (Some w) }) (State_Monad.return None);
     (case start of
        None \<Rightarrow> DvdReadFatal fileInfoPtr
      | Some startWords \<Rightarrow>
          (let startByte = unat startWords * 4 in
           case FindPublishedExtentForByteOffset (g_publishedExtents P) startByte of
             None \<Rightarrow> DvdReadFatal fileInfoPtr
           | Some x \<Rightarrow>
               (let e = pub_entries P ! entryIndex x;
                    requestedOffset = startByte - startBytes x + unat offset;
                    fileSize = unat (file_size e)
                in if sint offset < 0 \<or> sint len < 0 then DvdReadFatal fileInfoPtr
                   else if requestedOffset \<ge> fileSize then DvdReadFatal fileInfoPtr
                   else deliver_read host (hostPath e) fileInfoPtr bufferPtr requestedOffset
                     (if unat len > fileSize - requestedOffset then fileSize - requestedOffset else unat len))))
   }"

definition DVDReadAsyncPrio :: "(u32 \<Rightarrow> bool) \<Rightarrow> (u32 \<Rightarrow> ('z, unit) guest) \<Rightarrow> (string \<Rightarrow> u8 list option) \<Rightarrow> published \<Rightarrow>
    u32 \<Rightarrow> u32 \<Rightarrow> u32 \<Rightarrow> u32 \<Rightarrow> u32 \<Rightarrow> ('z, u32) guest" where
  "DVDReadAsyncPrio registered invoke host P fileInfoPtr bufferPtr len offset callbackPtr = do {
     bytesRead \<leftarrow> DVDReadPrio host P fileInfoPtr bufferPtr len offset;
     InvokeDvdCallback registered invoke callbackPtr bytesRead fileInfoPtr;
     CompleteDvdCancelState;
     State_Monad.return (if 0 \<le> sint bytesRead then 1 else 0)
   }"

section \<open>Reads by disc offset\<close>

text \<open>The transfer of an absolute read: what it copies to the guest, and its result.\<close>

definition read_absolute :: "(string \<Rightarrow> u8 list option) \<Rightarrow> published \<Rightarrow> u32 \<Rightarrow> u32 \<Rightarrow> u32 \<Rightarrow> u32 \<Rightarrow> ('z, u32) guest" where
  "read_absolute host P cmdBlockPtr bufferPtr len offset =
     (let requestedLength = (if 0 < sint len then len else 0) in
      if sint len < 0 then DvdReadFatal cmdBlockPtr
      else case ResolveAbsRead P offset requestedLength of
        None \<Rightarrow> DvdReadFatal cmdBlockPtr
      | Some r \<Rightarrow>
          (if requestedLength \<noteq> 0 \<and> readLength r \<noteq> requestedLength then DvdReadFatal cmdBlockPtr
           else do {
             inMemory \<leftarrow> get_host (\<lambda>s. Contains (regions s) bufferPtr (unat requestedLength));
             (if requestedLength \<noteq> 0 \<and> \<not> inMemory then DvdReadFatal cmdBlockPtr
              else case ReadExact host (hostPath (read_entry r)) (unat (fileOffset r)) (unat (readLength r)) of
                Inl failure \<Rightarrow> DvdReadFatal cmdBlockPtr
              | Inr tempBuf \<Rightarrow> do {
                  CopyToGuestAsDma bufferPtr tempBuf;
                  State_Monad.return (of_nat (length tempBuf))
                })
           }))"

definition DVDReadAbsAsyncPrio :: "(u32 \<Rightarrow> bool) \<Rightarrow> (u32 \<Rightarrow> ('z, unit) guest) \<Rightarrow> (string \<Rightarrow> u8 list option) \<Rightarrow> published \<Rightarrow>
    u32 \<Rightarrow> u32 \<Rightarrow> u32 \<Rightarrow> u32 \<Rightarrow> u32 \<Rightarrow> ('z, u32) guest" where
  "DVDReadAbsAsyncPrio registered invoke host P cmdBlockPtr bufferPtr len offset callbackPtr = do {
     bytesRead \<leftarrow> read_absolute host P cmdBlockPtr bufferPtr len offset;
     whenM (0 \<le> sint bytesRead) (try_catch (do {
         Write32 (cmdBlockPtr + DVD_CB_OFFSET_STATE) DVD_STATE_END;
         Write32 (cmdBlockPtr + DVD_CB_OFFSET_TRANSFERRED) bytesRead
       }) (State_Monad.return ()));
     InvokeDvdCallback registered invoke callbackPtr bytesRead cmdBlockPtr;
     CompleteDvdCancelState;
     State_Monad.return (if 0 \<le> sint bytesRead then 1 else 0)
   }"

section \<open>The drive\<close>

definition IsValidGameCode :: "u32 \<Rightarrow> bool" where
  "IsValidGameCode code = (\<forall>b\<in>set (be_bytes32 code). 48 \<le> b \<and> b \<le> 57 \<or> 65 \<le> b \<and> b \<le> 90 \<or> 97 \<le> b \<and> b \<le> 122)"

definition CurrentGameCode :: "u32 \<Rightarrow> ('z, u32) guest" where
  "CurrentGameCode fallback = do {
     present \<leftarrow> get_host (\<lambda>s. Contains (regions s) 0x80000000 4);
     (if present then do {
        code \<leftarrow> Read32 0x80000000;
        State_Monad.return (if IsValidGameCode code then code else fallback)
      }
      else State_Monad.return fallback)
   }"

definition CurrentDiscGameCode :: "('z, u32) guest" where
  "CurrentDiscGameCode = CurrentGameCode 0x524D4350"

text \<open>\<open>CompletionFor\<close>: what a low read returns, and what it tells its callback.\<close>

definition CompletionFor :: "bool \<Rightarrow> u32 \<times> u32" where
  "CompletionFor succeeded = (if succeeded then (1, 1) else (0, 2))"

definition low_read :: "(string \<Rightarrow> u8 list option) \<Rightarrow> published \<Rightarrow> u32 \<Rightarrow> u32 \<Rightarrow> u32 \<Rightarrow> ('z, bool) guest" where
  "low_read host P buffer len offset =
     (if len = 0 then State_Monad.return True
      else if offset = 0 \<and> len \<ge> 0x20 then do {
        inMemory \<leftarrow> get_host (\<lambda>s. Contains (regions s) buffer (unat len));
        (if \<not> inMemory then State_Monad.return False
         else do {
           code \<leftarrow> CurrentDiscGameCode;
           Write32 (buffer + 0) code;
           Write16 (buffer + 4) 0x3031;
           State_Monad.return True
         })
      }
      else case ResolveAbsRead P offset len of
        None \<Rightarrow> State_Monad.return False
      | Some r \<Rightarrow>
          (if readLength r \<noteq> len then State_Monad.return False
           else do {
             inMemory \<leftarrow> get_host (\<lambda>s. Contains (regions s) buffer (unat len));
             (if \<not> inMemory then State_Monad.return False
              else case ReadExact host (hostPath (read_entry r)) (unat (fileOffset r)) (unat (readLength r)) of
                Inl failure \<Rightarrow> State_Monad.return False
              | Inr tempBuf \<Rightarrow> do {
                  CopyToGuestAsDma buffer tempBuf;
                  State_Monad.return True
                })
           }))"

definition DVDLowRead :: "(u32 \<Rightarrow> bool) \<Rightarrow> (u32 \<Rightarrow> ('z, unit) guest) \<Rightarrow> (string \<Rightarrow> u8 list option) \<Rightarrow> published \<Rightarrow>
    u32 \<Rightarrow> u32 \<Rightarrow> u32 \<Rightarrow> u32 \<Rightarrow> ('z, u32) guest" where
  "DVDLowRead registered invoke host P buffer len offset callback = do {
     succeeded \<leftarrow> low_read host P buffer len offset;
     InvokeDvdLowCallback registered invoke callback (snd (CompletionFor succeeded));
     CompleteDvdCancelState;
     State_Monad.return (fst (CompletionFor succeeded))
   }"

definition DVDLowInquiry :: "u32 \<Rightarrow> ('z, u32) guest" where
  "DVDLowInquiry cmdBlockPtr = do {
     whenM (cmdBlockPtr \<noteq> 0) (Write32 (cmdBlockPtr + DVD_CB_OFFSET_STATE) DVD_STATE_END);
     CompleteDvdCancelState;
     State_Monad.return 1
   }"

definition DVDLowReadDiskID :: "u32 \<Rightarrow> ('z, u32) guest" where
  "DVDLowReadDiskID diskIdPtr = do {
     whenM (diskIdPtr \<noteq> 0) (do {
       code \<leftarrow> CurrentDiscGameCode;
       Write32 (diskIdPtr + 0) code;
       Write16 (diskIdPtr + 4) 0x3031;
       Write8 (diskIdPtr + 6) 1
     });
     CompleteDvdCancelState;
     State_Monad.return 1
   }"

section \<open>Initialisation\<close>

primrec init_contexts :: "nat list \<Rightarrow> ('z, unit) guest" where
  "init_contexts [] = State_Monad.return ()"
| "init_contexts (i # is) = do {
     Write32 (0x803434E0 + of_nat i * 0x20 + 0x0C) 0xFEEBDAED;
     Write32 (0x803434E0 + of_nat i * 0x20 + 0x10) (of_nat i);
     init_contexts is
   }"

definition init_drive_state :: "('z, unit) guest" where
  "init_drive_state = do {
     Write8 0x80386724 1;
     Write8 0x80386725 1;
     Write32 0x80386720 0;
     Write8 0x803866A0 1;
     CompleteDvdCancelState;
     init_contexts [0..<4];
     code \<leftarrow> CurrentDiscGameCode;
     Write32 0x80000000 code;
     Write16 0x80000004 0x3031;
     Write8 0x80000006 1
   }"

text \<open>The table goes into the memory reserved at boot; a reservation that is missing, too small or outside
  memory ends the program (\<open>None\<close>).\<close>

definition publish_to_guest :: "u32 \<Rightarrow> u32 \<Rightarrow> u8 list \<Rightarrow> ('z, unit option) guest" where
  "publish_to_guest reservedBase reservedSize data = do {
     inMemory \<leftarrow> get_host (\<lambda>s. Contains (regions s) reservedBase (unat reservedSize));
     (if reservedBase = 0 \<or> length data > unat reservedSize \<or> \<not> inMemory then State_Monad.return None
      else do {
        CopyToGuestAsDma reservedBase data;
        Write32 0x80000038 reservedBase;
        Write32 0x8000003C (of_nat (length data));
        State_Monad.return (Some ())
      })
   }"

text \<open>
  What \<open>DVDInit\<close> needs of the host: its file system, the two directories and the bytes of the original
  table of the extracted disc, the host path of a disc path without and with an overlay root, the
  overlays, the reservation, and the two sorts.
\<close>

record dvd_host =
  dh_fs :: host_fs
  dh_files :: string
  dh_sys :: string
  dh_fst_bin :: "u8 list option"
  dh_base :: "string \<Rightarrow> string"
  dh_in_root :: "string \<Rightarrow> string \<Rightarrow> string"
  dh_overlays :: "overlay list"
  dh_reservedBase :: u32
  dh_reservedSize :: u32
  dh_sort_files :: "fst_file list \<Rightarrow> fst_file list"
  dh_sort_extents :: "published_extent list \<Rightarrow> published_extent list"

definition load_table :: "dvd_host \<Rightarrow> disc_index \<Rightarrow> fst_file list option" where
  "load_table D ix = (case dh_fst_bin D of
     None \<Rightarrow> Some []
   | Some data \<Rightarrow> LoadFstIndex (dh_sort_files D)
       (\<lambda>path. ResolveDvdMappedHostPath (dh_fs D) (dh_in_root D) (dh_overlays D) ix path (dh_base D path)) data)"

text \<open>The first call: nothing is published when the program stops.\<close>

definition DVDInit :: "(u32 \<Rightarrow> bool) \<Rightarrow> (u32 \<Rightarrow> ('z, unit) guest) \<Rightarrow> dvd_host \<Rightarrow> ('z, published option) guest" where
  "DVDInit registered invoke D = do {
     init_drive_state;
     (let ix = scan_disc (dh_fs D) (dh_files D) (dh_sys D) (dh_overlays D) in
      case load_table D ix of
        None \<Rightarrow> State_Monad.return None
      | Some fstFiles \<Rightarrow>
          (case BuildRuntimeFst (dh_sort_extents D) fstFiles ix of
             Inl e \<Rightarrow> State_Monad.return None
           | Inr P \<Rightarrow> do {
               ok \<leftarrow> publish_to_guest (dh_reservedBase D) (dh_reservedSize D) (fst_bytes P);
               (if ok = None then State_Monad.return None
                else do {
                  whenM (registered 0x8015DF1C) (invoke 0x8015DF1C);
                  State_Monad.return (Some P)
                })
             }))
   }"

section \<open>Copying into guest memory\<close>

definition poke :: "u32 \<Rightarrow> u8 list \<Rightarrow> 'z machine_scheme \<Rightarrow> 'z machine_scheme" where
  "poke a bs s = (case TryResolveRegion (regions s) a (length bs) of
     None \<Rightarrow> s | Some r \<Rightarrow> s\<lparr>bytes := store_bytes (bytes s) r a 0 bs\<rparr>)"

lemma find_unique: "r \<in> set xs \<Longrightarrow> P r \<Longrightarrow> \<forall>x\<in>set xs. P x \<longrightarrow> x = r \<Longrightarrow> List.find P xs = Some r"
proof (induction xs)
  case (Cons x xs)
  show ?case
  proof (cases "P x")
    case True
    then have "x = r" using Cons.prems(3) by (meson list.set_intros(1))
    then show ?thesis using True by simp
  next
    case False
    then have "r \<in> set xs" using Cons.prems(1,2) by (cases "x = r") simp_all
    moreover have "\<forall>x\<in>set xs. P x \<longrightarrow> x = r" using Cons.prems(3) by (meson list.set_intros(2))
    ultimately have "List.find P xs = Some r" using Cons.IH Cons.prems(2) by blast
    then show ?thesis using False by simp
  qed
qed simp

lemma regions_disjoint:
  "\<forall>r\<in>set WiiDefaults. \<forall>r'\<in>set WiiDefaults. r = r' \<or> unat (base_address r) + size_bytes r \<le> unat (base_address r') \<or>
     unat (base_address r') + size_bytes r' \<le> unat (base_address r)"
  by (simp add: WiiDefaults_def memory_sizes)

lemma regions_bounds:
  "\<forall>r\<in>set WiiDefaults. unat (base_address r) + size_bytes r \<le> 4294967296 \<and>
     (unat (base_address r) + size_bytes r \<le> 0xCC000000 \<or> 0xCE000000 \<le> unat (base_address r))"
  by (simp add: WiiDefaults_def memory_sizes)

lemma region_byte:
  assumes "TryResolveRegion WiiDefaults a n = Some r" "i < n"
  shows "unat (a + of_nat i) = unat a + i" "TryResolveRegion WiiDefaults (a + of_nat i) 1 = Some r"
    "\<not> IsMmioAddress (a + of_nat i)" "\<not> IsGpuFifoAddress (a + of_nat i)"
proof -
  define m where "m = unat a"
  have r: "r \<in> set WiiDefaults" "unat (base_address r) \<le> m" "m + n \<le> unat (base_address r) + size_bytes r"
    using assms(1) unfolding TryResolveRegion_def m_def by (auto simp: find_Some_iff)
  note b = bspec [OF regions_bounds r(1)]
  have top: "m + i < 4294967296" using r(2,3) b assms(2) by linarith
  then have "unat (of_nat i :: u32) = i" by (simp add: unat_of_nat)
  then show u: "unat (a + of_nat i) = unat a + i" using top by (simp add: unat_word_ariths m_def)
  show "TryResolveRegion WiiDefaults (a + of_nat i) 1 = Some r"
    unfolding TryResolveRegion_def u m_def [symmetric]
  proof (rule find_unique [OF r(1)])
    show "\<forall>x\<in>set WiiDefaults. unat (base_address x) \<le> m + i \<and> m + i + 1 \<le> unat (base_address x) + size_bytes x \<longrightarrow> x = r"
    proof (intro ballI impI)
      fix x assume "x \<in> set WiiDefaults" "unat (base_address x) \<le> m + i \<and> m + i + 1 \<le> unat (base_address x) + size_bytes x"
      moreover have "r = x \<or> unat (base_address r) + size_bytes r \<le> unat (base_address x) \<or> unat (base_address x) + size_bytes x \<le> unat (base_address r)"
        using regions_disjoint r(1) calculation(1) by blast
      ultimately show "x = r" using r(2,3) assms(2) by (elim disjE conjE) (simp, linarith+)
    qed
  qed (use r(2,3) assms(2) in linarith)
  have "unat (a + of_nat i) < 0xCC000000 \<or> 0xCE000000 \<le> unat (a + of_nat i)"
    unfolding u m_def [symmetric] using r(2,3) b assms(2) by linarith
  then show "\<not> IsMmioAddress (a + of_nat i)" "\<not> IsGpuFifoAddress (a + of_nat i)"
    by (auto simp: IsMmioAddress_def IsGpuFifoAddress_def word_le_nat_alt word_less_nat_alt)
qed

lemma contains_shorter:
  assumes "Contains WiiDefaults a n" "m \<le> n"
  shows "Contains WiiDefaults a m"
proof -
  obtain r where "r \<in> set WiiDefaults" "unat (base_address r) \<le> unat a" "unat a + n \<le> unat (base_address r) + size_bytes r"
    using assms(1) by (auto simp: Contains_def TryResolveRegion_def find_None_iff2 find_Some_iff dest: nth_mem)
  then have "\<exists>r\<in>set WiiDefaults. unat (base_address r) \<le> unat a \<and> unat a + m \<le> unat (base_address r) + size_bytes r"
    using assms(2) by (meson add_left_mono order_trans)
  then show ?thesis by (auto simp: Contains_def TryResolveRegion_def find_None_iff)
qed

lemma run_copy_from:
  assumes "wii s" "TryResolveRegion WiiDefaults a (i + length bs) = Some r"
  shows "run_state (CopyToGuestAsDma (a + of_nat i) bs) s = ((), s\<lparr>bytes := store_bytes (bytes s) r a i bs\<rparr>)"
  using assms
proof (induction bs arbitrary: i s)
  case (Cons b bs)
  note rb = region_byte [OF Cons.prems(2), of i, simplified]
  have hl: "host_location r (a + of_nat i) 0 = host_location r a i"
  proof -
    have "unat (base_address r) \<le> unat a" using Cons.prems(2) by (auto simp: TryResolveRegion_def find_Some_iff)
    then show ?thesis by (simp add: host_location_def rb(1))
  qed
  let ?s = "s\<lparr>bytes := (bytes s)(host_location r a i := b)\<rparr>"
  have "run_state (Write8 (a + of_nat i) b) s = ((), ?s)"
    using Cons.prems(1) rb hl by (simp add: Write8_def access_def Write8Slow_def write_scalar_def wii_def)
  moreover have "run_state (CopyToGuestAsDma (a + of_nat (Suc i)) bs) ?s =
      ((), ?s\<lparr>bytes := store_bytes (bytes ?s) r a (Suc i) bs\<rparr>)"
    using Cons.prems by (intro Cons.IH) (simp_all add: wii_def)
  ultimately show ?case by (simp add: run_simps add.assoc add.commute [of 1])
qed (simp add: run_simps)

lemma run_copy:
  assumes "wii s" "bs = [] \<or> Contains (regions s) a (length bs)"
  shows "run_state (CopyToGuestAsDma a bs) s = ((), poke a bs s)" "wii (poke a bs s)"
proof -
  show "run_state (CopyToGuestAsDma a bs) s = ((), poke a bs s)"
  proof (cases "bs = []")
    case True
    then show ?thesis by (simp add: run_simps poke_def split: option.split)
  next
    case False
    then obtain r where "TryResolveRegion (regions s) a (length bs) = Some r" using assms(2) by (auto simp: Contains_def)
    then show ?thesis using run_copy_from [OF assms(1), of a 0 bs r] assms(1) by (simp add: poke_def wii_def)
  qed
  show "wii (poke a bs s)" using assms(1) by (simp add: poke_def wii_def split: option.split)
qed

section \<open>The bookkeeping\<close>

definition cancel_done :: "'z machine_scheme \<Rightarrow> 'z machine_scheme" where
  "cancel_done s = wr32 0x803866F0 0 (wr32 0x803866A8 1 (wr32 0x8038667C 1 (wr32 0x80386670 0 (wr32 0x80386668 0 (wr32 0x80386664 0
     (fold (\<lambda>q s. wr32 (q + 4) q (wr32 q q s)) [0x80343230, 0x80343238, 0x80343240, 0x80343248] s))))))"

lemma run_cancel: "wii s \<Longrightarrow> run_state CompleteDvdCancelState s = ((), cancel_done s)"
proof -
  assume w: "wii s"
  have l: "map (\<lambda>i. 0x80343230 + of_nat i * 8) [0..<4] = [0x80343230, 0x80343238, 0x80343240, 0x80343248 :: u32]"
    by (simp add: upt_rec)
  show ?thesis
    unfolding CompleteDvdCancelState_def InitDvdWaitingQueues_def l cancel_done_def
    using w by (simp add: run_simps word_ok_def cached_def)
qed

definition handle_ok :: "u32 \<Rightarrow> bool" where
  "handle_ok fi \<longleftrightarrow> word_ok (fi + 0x0C) \<and> word_ok (fi + 0x20) \<and> word_ok (fi + 0x30)"

lemma run_fatal:
  assumes "wii s" "handle_ok fi"
  shows "run_state (DvdReadFatal fi) s = (-3, wr32 (fi + 0x20) 0 (wr32 (fi + 0x0C) (-1) s))"
  using assms
  by (simp add: DvdReadFatal_def run_simps handle_ok_def DVD_CB_OFFSET_STATE_def DVD_CB_OFFSET_TRANSFERRED_def
      DVD_STATE_FATAL_ERROR_def kDvdFatalError_def run_try_catch [of s _ "()"] wii_fault)

section \<open>What a read delivers\<close>

text \<open>The contract of a read by handle: the bytes of the file in whose disc range the handle starts, from
  the handle's start plus the offset on, as many as asked for or left, and all of them there on the host.\<close>

definition file_slice :: "(string \<Rightarrow> u8 list option) \<Rightarrow> published \<Rightarrow> u32 \<Rightarrow> u32 \<Rightarrow> u32 \<Rightarrow> u8 list option" where
  "file_slice host P startWords len offset =
     (case FindPublishedExtentForByteOffset (g_publishedExtents P) (unat startWords * 4) of
        None \<Rightarrow> None
      | Some x \<Rightarrow>
          (let e = pub_entries P ! entryIndex x; pos = unat startWords * 4 - startBytes x + unat offset;
               n = min (unat len) (unat (file_size e) - pos)
           in if sint offset < 0 \<or> sint len < 0 \<or> unat (file_size e) \<le> pos then None
              else case host (hostPath e) of
                None \<Rightarrow> None
              | Some f \<Rightarrow> if pos < length f \<and> pos + n \<le> length f then Some (take n (drop pos f)) else None))"

definition read_failed :: "u32 \<Rightarrow> 'z machine_scheme \<Rightarrow> 'z machine_scheme" where
  "read_failed fi s = wr32 (fi + 0x20) 0 (wr32 (fi + 0x0C) (-1) s)"

definition read_done :: "u32 \<Rightarrow> u32 \<Rightarrow> u8 list \<Rightarrow> 'z machine_scheme \<Rightarrow> 'z machine_scheme" where
  "read_done fi buf d s = cancel_done (wr32 (fi + 0x0C) 0 (wr32 (fi + 0x20) (of_nat (length d)) (poke buf d s)))"

lemma run_step: "run_state m s = (a, s') \<Longrightarrow> run_state (m \<bind> f) s = run_state (f a) s'"
  by (simp add: run_bind)

lemma read_start:
  assumes "wii s" "handle_ok fi"
  shows "run_state (try_catch (Read32 (fi + DVD_FILEINFO_OFFSET_ADDR) \<bind> (\<lambda>w. State_Monad.return (Some w))) (State_Monad.return None)) s =
    (Some (mem s (fi + 0x30)), s)"
  by (rule run_try_catch)
    (use assms in \<open>simp_all add: run_simps DVD_FILEINFO_OFFSET_ADDR_def handle_ok_def wii_fault\<close>)

lemma ReadExact_eq: "ReadExact host path pos n = (case host path of
    None \<Rightarrow> Inl MissingFile
  | Some f \<Rightarrow> if pos < length f \<and> pos + n \<le> length f then Inr (take n (drop pos f))
              else Inl (if pos < length f then ShortRead else BadOffset))"
  by (auto simp: ReadExact_def split: option.split)

lemma run_deliver:
  assumes "wii s" "handle_ok fi"
  shows "run_state (deliver_read host path fi buf pos n) s =
    (case host path of
       Some f \<Rightarrow> (if pos < length f \<and> pos + n \<le> length f \<and> (n = 0 \<or> Contains (regions s) buf n)
                 then (of_nat n, read_done fi buf (take n (drop pos f)) s) else (-3, read_failed fi s))
     | None \<Rightarrow> (-3, read_failed fi s))"
proof -
  note fatal = run_fatal [OF assms, folded read_failed_def]
  show ?thesis
  proof (cases "\<exists>f. host path = Some f \<and> pos < length f \<and> pos + n \<le> length f \<and> (n = 0 \<or> Contains (regions s) buf n)")
    case True
    then obtain f where f: "host path = Some f" "pos < length f" "pos + n \<le> length f" "n = 0 \<or> Contains (regions s) buf n" by blast
    define d where "d = take n (drop pos f)"
    have l: "length d = n" using f(3) by (simp add: d_def)
    then have c: "d = [] \<or> Contains (regions s) buf (length d)" using f(4) by auto
    note copy = run_copy [OF assms(1) c]
    have ex: "ReadExact host path pos n = Inr d" using f by (simp add: ReadExact_eq d_def)
    have nf: "\<not> (n \<noteq> 0 \<and> \<not> Contains (regions s) buf n)" using f(4) by blast
    have "run_state (deliver_read host path fi buf pos n) s = (of_nat n, read_done fi buf d s)"
      unfolding deliver_read_def run_step [OF run_get_host] if_not_P [OF nf] ex sum.case run_step [OF copy(1)]
      using assms(2) copy(2) l
      by (simp add: run_bind write32_cached run_cancel run_return handle_ok_def DVD_CB_OFFSET_STATE_def
          DVD_CB_OFFSET_TRANSFERRED_def DVD_STATE_END_def read_done_def)
    then show ?thesis using f by (simp add: d_def)
  next
    case False
    then have bad: "n \<noteq> 0 \<and> \<not> Contains (regions s) buf n \<or> (\<exists>x. ReadExact host path pos n = Inl x)"
      by (auto simp: ReadExact_eq split: option.split)
    have "run_state (deliver_read host path fi buf pos n) s = (-3, read_failed fi s)"
      unfolding deliver_read_def run_step [OF run_get_host] using bad fatal by auto
    then show ?thesis using False by (auto split: option.split)
  qed
qed

lemma run_read_prio:
  assumes "wii s" "handle_ok fi"
  shows "run_state (DVDReadPrio host P fi buf len offset) s =
    (case file_slice host P (mem s (fi + 0x30)) len offset of
       Some d \<Rightarrow> (if d = [] \<or> Contains (regions s) buf (length d) then (of_nat (length d), read_done fi buf d s)
                 else (-3, read_failed fi s))
     | None \<Rightarrow> (-3, read_failed fi s))"
proof -
  note fatal = run_fatal [OF assms, folded read_failed_def]
  define w where "w = mem s (fi + 0x30)"
  show ?thesis
  proof (cases "FindPublishedExtentForByteOffset (g_publishedExtents P) (unat w * 4)")
    case None
    then show ?thesis
      unfolding DVDReadPrio_def run_step [OF read_start [OF assms]] w_def [symmetric] by (simp add: fatal file_slice_def)
  next
    case (Some x)
    define e where "e = pub_entries P ! entryIndex x"
    define pos where "pos = unat w * 4 - startBytes x + unat offset"
    define n where "n = (if unat len > unat (file_size e) - pos then unat (file_size e) - pos else unat len)"
    have slice: "file_slice host P w len offset = (if sint offset < 0 \<or> sint len < 0 \<or> unat (file_size e) \<le> pos then None
        else case host (hostPath e) of None \<Rightarrow> None
          | Some f \<Rightarrow> if pos < length f \<and> pos + n \<le> length f then Some (take n (drop pos f)) else None)"
      unfolding file_slice_def n_def pos_def e_def using Some by (simp add: Let_def min_def not_less)
    have body: "run_state (DVDReadPrio host P fi buf len offset) s =
      (if sint offset < 0 \<or> sint len < 0 \<or> unat (file_size e) \<le> pos then (-3, read_failed fi s)
       else run_state (deliver_read host (hostPath e) fi buf pos n) s)"
      unfolding DVDReadPrio_def run_step [OF read_start [OF assms]] option.case Let_def w_def [symmetric] Some
        e_def [symmetric] pos_def [symmetric] n_def [symmetric] by (simp add: fatal)
    have nil: "take n (drop pos f) = [] \<longleftrightarrow> n = 0" "length (take n (drop pos f)) = n" if "pos < length f" "pos + n \<le> length f" for f :: "u8 list"
      using that by auto
    show ?thesis
      unfolding body w_def [symmetric] slice run_deliver [OF assms] using nil by (auto split: option.split)
  qed
qed

section \<open>Properties\<close>

text \<open>C16: A read by handle meets its contract, and delivers all or nothing: it copies exactly the file's slice
  into the buffer, records its length and completes the request; on every failure, a truncated host file
  and a buffer outside memory included, the buffer is untouched and only the request is marked failed.
\<close>

theorem read_delivers_all_or_nothing:
  assumes "wii s" "handle_ok fi"
  shows "run_state (DVDReadPrio host P fi buf len offset) s =
    (case file_slice host P (mem s (fi + 0x30)) len offset of
       Some d \<Rightarrow> (if d = [] \<or> Contains (regions s) buf (length d) then (of_nat (length d), read_done fi buf d s)
                 else (-3, read_failed fi s))
     | None \<Rightarrow> (-3, read_failed fi s))"
  using run_read_prio [OF assms] .

text \<open>C17: From the index to the guest: a handle that holds the disc offset the published table gives for a
  file reads that file's bytes, whatever else the table holds, as long as no other file starts at the same
  disc byte.
\<close>

theorem opened_file_reads_its_bytes:
  assumes "\<forall>xs. mset (std_sort xs) = mset xs \<and> sorted (map startBytes (std_sort xs))"
    and "BuildRuntimeFst std_sort fstFiles ix = Inr P" "i < length (pub_entries P)" "e = pub_entries P ! i"
    and "\<not> isDir e" "discOffsetWords e \<noteq> 0"
    and "\<forall>j<length (pub_entries P). j \<noteq> i \<and> \<not> isDir (pub_entries P ! j) \<longrightarrow> discOffsetWords (pub_entries P ! j) \<noteq> discOffsetWords e"
    and "wii s" "handle_ok fi" "mem s (fi + 0x30) = discOffsetWords e"
    and "0 \<le> sint offset" "0 \<le> sint len" "unat offset < unat (file_size e)"
    and "host (hostPath e) = Some f" "unat (file_size e) \<le> length f"
    and "n = min (unat len) (unat (file_size e) - unat offset)" "Contains (regions s) buf n"
  shows "run_state (DVDReadPrio host P fi buf len offset) s =
    (of_nat n, read_done fi buf (take n (drop (unat offset) f)) s)"
proof -
  have xs: "g_publishedExtents P = std_sort (entry_extents (pub_entries P))" using BuildRuntimeFst_cases [OF assms(2)] by metis
  have "FindPublishedExtentForByteOffset (g_publishedExtents P) (disc_start e + 0) = Some (extent_of i e)"
    unfolding assms(4) using assms(3-7) by (intro file_extent_found [OF assms(1) xs]) (auto simp: disc_start_def word_unat_eq_iff)
  then have slice: "file_slice host P (discOffsetWords e) len offset = Some (take n (drop (unat offset) f))"
    unfolding file_slice_def disc_start_def [symmetric] assms(16)
    using assms(11-15) by (simp add: assms(4) [symmetric] Let_def not_less not_le)
  have "length (take n (drop (unat offset) f)) = n" using assms(13,15,16) by simp
  then show ?thesis unfolding run_read_prio [OF assms(8,9)] assms(10) slice using assms(17) by simp
qed

text \<open>C40: An absolute read of length zero is not empty: where the offset lies in a file, everything from there
  to the file's end is copied over the guest's buffer, although a low-level read of length zero copies
  nothing.
\<close>

theorem empty_absolute_read_copies_the_rest:
  assumes "wii s" "ResolveAbsRead P offset 0 = Some r" "host (hostPath (read_entry r)) = Some f"
    and "length f = unat (file_size (read_entry r))" "unat (fileOffset r) < length f"
    and "Contains (regions s) buf (length f - unat (fileOffset r))"
  shows "run_state (read_absolute host P cmd buf 0 offset) s = (of_nat (length f - unat (fileOffset r)), poke buf (drop (unat (fileOffset r)) f) s) \<and>
    run_state (low_read host P buf 0 offset) s = (True, s)"
proof -
  have rl: "readLength r = file_size (read_entry r) - fileOffset r"
    using assms(2) by (auto simp: ResolveAbsRead_def Let_def)
  have "fileOffset r \<le> file_size (read_entry r)" using assms(4,5) by (simp add: word_le_nat_alt)
  then have n: "unat (readLength r) = length f - unat (fileOffset r)" unfolding rl using assms(4) by (simp add: unat_sub)
  have ex: "ReadExact host (hostPath (read_entry r)) (unat (fileOffset r)) (unat (readLength r)) = Inr (drop (unat (fileOffset r)) f)"
    using assms(3,5) by (simp add: ReadExact_eq n)
  have c: "drop (unat (fileOffset r)) f = [] \<or> Contains (regions s) buf (length (drop (unat (fileOffset r)) f))" using assms(6) by simp
  show ?thesis
    using assms(2) run_copy(1) [OF assms(1) c]
    by (simp add: read_absolute_def low_read_def ex run_bind run_get_host run_return)
qed

text \<open>
  Publishing the table: when the reservation holds it, its bytes are at the reserved address and the
  two low-memory words name that address and its length; otherwise nothing is written and start-up stops.
\<close>

theorem table_is_published_or_startup_stops:
  assumes "wii s"
  shows "run_state (publish_to_guest base room data) s =
    (if base \<noteq> 0 \<and> length data \<le> unat room \<and> Contains (regions s) base (unat room)
     then (Some (), wr32 0x8000003C (of_nat (length data)) (wr32 0x80000038 base (poke base data s)))
     else (None, s))"
proof (cases "base \<noteq> 0 \<and> length data \<le> unat room \<and> Contains (regions s) base (unat room)")
  case True
  have "data = [] \<or> Contains (regions s) base (length data)"
    using True assms contains_shorter [of base "unat room" "length data"] by (auto simp: wii_def)
  note copy = run_copy [OF assms this]
  have nf: "\<not> (base = 0 \<or> length data > unat room \<or> \<not> Contains (regions s) base (unat room))" using True by auto
  show ?thesis
    unfolding publish_to_guest_def run_step [OF run_get_host] if_not_P [OF nf] run_step [OF copy(1)] if_P [OF True]
    using copy(2) by (simp add: run_simps word_ok_def cached_def)
next
  case False
  then have bad: "base = 0 \<or> length data > unat room \<or> \<not> Contains (regions s) base (unat room)" by auto
  show ?thesis
    unfolding publish_to_guest_def run_step [OF run_get_host] if_P [OF bad] if_not_P [OF False] by (rule run_return)
qed

section \<open>Witnesses\<close>

definition sample_host :: "string \<Rightarrow> u8 list option" where
  "sample_host p = (if p = ''pack/a'' then Some [1, 2, 3, 4, 5] else None)"

definition sample_machine :: machine where
  "sample_machine = wr32 0x80400030 16 boot_machine"

lemma sample_machine_ok:
  "wii sample_machine" "handle_ok 0x80400000" "mem sample_machine (0x80400000 + 0x30) = 16" "regions sample_machine = WiiDefaults"
proof -
  show w: "wii sample_machine" by (simp add: sample_machine_def)
  show "handle_ok 0x80400000" by (simp add: handle_ok_def word_ok_def cached_def)
  show "mem sample_machine (0x80400000 + 0x30) = 16" by (simp add: sample_machine_def mem_def word_ok_def cached_def)
  show "regions sample_machine = WiiDefaults" using w by (simp add: wii_def)
qed

lemma sample_buffer: "0 < n \<Longrightarrow> n \<le> 16 \<Longrightarrow> Contains WiiDefaults 0x80500000 n"
  by (simp add: Contains_def find_cached cached_def)

lemma sample_entries:
  obtains P where "sample_published = Inr P" "length (pub_entries P) = 4" "\<not> isDir (pub_entries P ! 1)" "discOffsetWords (pub_entries P ! 1) = 16"
    "file_size (pub_entries P ! 1) = 5" "hostPath (pub_entries P ! 1) = ''pack/a''" "isDir (pub_entries P ! 0)" "isDir (pub_entries P ! 2)"
    "discOffsetWords (pub_entries P ! 3) = 4"
proof -
  obtain P where P: "sample_published = Inr P" "length (pub_entries P) = 4"
    and e: "map (\<lambda>e. (isDir e, discOffsetWords e, file_size e, hostPath e)) (pub_entries P) =
       [(True, 0, 0, []), (False, 16, 5, ''pack/a''), (True, 0, 0, []), (False, 4, 8, ''files/d/b'')]"
    by (rule sample_published_entries)
  have n: "(isDir (pub_entries P ! j), discOffsetWords (pub_entries P ! j), file_size (pub_entries P ! j), hostPath (pub_entries P ! j)) =
      [(True, 0, 0, []), (False, 16, 5, ''pack/a''), (True, 0, 0, []), (False, 4, 8, ''files/d/b'')] ! j" if "j < 4" for j
    using arg_cong [OF e, of "\<lambda>xs. xs ! j"] P(2) that by simp
  show ?thesis by (rule that [OF P]) (use n [of 0] n [of 1] n [of 2] n [of 3] in simp_all)
qed

theorem read_delivers_all_or_nothing_witness:
  "run_state (DVDReadPrio sample_host \<lparr>pub_entries = [], pub_paths = [], g_publishedExtents = [], fst_bytes = []\<rparr> 0x80400000 0x80500000 4 0) sample_machine =
    (-3, read_failed 0x80400000 sample_machine)"
  by (subst read_delivers_all_or_nothing [OF sample_machine_ok(1,2)]) (simp add: file_slice_def FindPublishedExtentForByteOffset_def)

theorem opened_file_reads_its_bytes_witness:
  "\<exists>P. sample_published = Inr P \<and>
     run_state (DVDReadPrio sample_host P 0x80400000 0x80500000 100 1) sample_machine = (4, read_done 0x80400000 0x80500000 [2, 3, 4, 5] sample_machine)"
proof -
  obtain P where P: "sample_published = Inr P" "length (pub_entries P) = 4" "\<not> isDir (pub_entries P ! 1)" "discOffsetWords (pub_entries P ! 1) = 16"
    "file_size (pub_entries P ! 1) = 5" "hostPath (pub_entries P ! 1) = ''pack/a''" "isDir (pub_entries P ! 0)" "isDir (pub_entries P ! 2)"
    "discOffsetWords (pub_entries P ! 3) = 4" by (rule sample_entries)
  have j: "j = 0 \<or> j = 1 \<or> j = 2 \<or> j = 3" if "j < 4" for j :: nat using that by linarith
  have "run_state (DVDReadPrio sample_host P 0x80400000 0x80500000 100 1) sample_machine =
    (of_nat 4, read_done 0x80400000 0x80500000 (take 4 (drop (unat (1 :: u32)) [1, 2, 3, 4, 5])) sample_machine)"
  proof (rule opened_file_reads_its_bytes [OF _ P(1) [unfolded sample_published_def] _ refl, of 1])
    show "\<forall>j<length (pub_entries P). j \<noteq> 1 \<and> \<not> isDir (pub_entries P ! j) \<longrightarrow> discOffsetWords (pub_entries P ! j) \<noteq> discOffsetWords (pub_entries P ! 1)"
      using P j by fastforce
    show "Contains (regions sample_machine) 0x80500000 4" by (simp add: sample_machine_ok(4) sample_buffer)
  qed (use P sample_machine_ok in \<open>simp_all add: sample_host_def\<close>)
  then show ?thesis using P(1) by (intro exI [of _ P]) (simp add: numeral_2_eq_2)
qed

theorem empty_absolute_read_copies_the_rest_witness:
  "\<exists>P. sample_published = Inr P \<and>
     run_state (read_absolute sample_host P 0x80400000 0x80500000 0 66) sample_machine = (3, poke 0x80500000 [3, 4, 5] sample_machine) \<and>
     run_state (low_read sample_host P 0x80500000 0 66) sample_machine = (True, sample_machine)"
proof -
  have res: "case sample_published of Inl _ \<Rightarrow> False | Inr P \<Rightarrow>
      map_option (\<lambda>r. (hostPath (read_entry r), file_size (read_entry r), fileOffset r)) (ResolveAbsRead P 66 0) = Some (''pack/a'', 5, 2)"
    by code_simp
  then obtain P r where P: "sample_published = Inr P" "ResolveAbsRead P 66 0 = Some r" "hostPath (read_entry r) = ''pack/a''"
    "file_size (read_entry r) = 5" "fileOffset r = 2" by (auto split: sum.splits)
  have "run_state (read_absolute sample_host P 0x80400000 0x80500000 0 66) sample_machine =
      (of_nat (length [1, 2, 3, 4, 5 :: u8] - unat (fileOffset r)), poke 0x80500000 (drop (unat (fileOffset r)) [1, 2, 3, 4, 5]) sample_machine) \<and>
    run_state (low_read sample_host P 0x80500000 0 66) sample_machine = (True, sample_machine)"
    by (rule empty_absolute_read_copies_the_rest [OF sample_machine_ok(1) P(2)])
      (simp_all add: P sample_host_def sample_machine_ok(4) sample_buffer)
  then show ?thesis using P(1) by (intro exI [of _ P]) (simp add: P(5))
qed

theorem table_is_published_or_startup_stops_witness:
  "run_state (publish_to_guest 0x80500000 16 [1, 2]) sample_machine =
    (Some (), wr32 0x8000003C 2 (wr32 0x80000038 0x80500000 (poke 0x80500000 [1, 2] sample_machine)))"
  using table_is_published_or_startup_stops [OF sample_machine_ok(1), of "0x80500000" 16 "[1, 2]"]
  by (simp add: sample_machine_ok(4) sample_buffer)

end
