(* ===== verification/RiivOverlay.thy ===== *)
theory RiivOverlay
  imports DvdRead Riivolution
begin

unbundle bit_operations_syntax

text \<open>
  Overlays from Riivolution packs, \<open>runtime/src/hle/storage/riivolution.cpp\<close>: what the active patches of
  the descriptions of a pack map, and the redirect of the saves.  How the roots and the descriptions are
  found on the host is the argument: for each root its card root and, per description in order, its
  directory and its element tree (\<open>None\<close> where the file cannot be read).
\<close>

section \<open>The game's identity\<close>

definition is_alnum :: "u8 \<Rightarrow> bool" where
  "is_alnum b \<longleftrightarrow> 48 \<le> b \<and> b \<le> 57 \<or> 65 \<le> b \<and> b \<le> 90 \<or> 97 \<le> b \<and> b \<le> 122"

definition RiivoGameId :: "('z, string) guest" where
  "RiivoGameId = do {
     code \<leftarrow> CurrentGameCode 0x524D4350;
     present \<leftarrow> get_host (\<lambda>s. Contains (regions s) 0x80000004 2);
     maker \<leftarrow> (if present then Read16 0x80000004 else State_Monad.return 0);
     (let game = map (\<lambda>b. char_of (unat b)) (be_bytes32 code); hi_lo = be_bytes16 maker
      in State_Monad.return (game @ (if list_all is_alnum hi_lo then map (\<lambda>b. char_of (unat b)) hi_lo else ''01'')))
   }"

section \<open>The mappings of a patch\<close>

record patch_set =
  mappings :: "mapping list"
  skippedExternals :: nat

definition skip :: "patch_set \<Rightarrow> patch_set" where
  "skip S = S\<lparr>skippedExternals := skippedExternals S + 1\<rparr>"

definition add_mapping :: "mapping \<Rightarrow> patch_set \<Rightarrow> patch_set" where
  "add_mapping m S = S\<lparr>mappings := mappings S @ [m]\<rparr>"

definition collect_file :: "host_fs \<Rightarrow> string \<Rightarrow> string \<Rightarrow> file_patch \<Rightarrow> patch_set \<Rightarrow> patch_set" where
  "collect_file H sdRoot patchRoot f S =
     (if file_disc f = [] then skip S
      else case MakeAbsoluteFromRelative sdRoot patchRoot (file_external f) of
        None \<Rightarrow> skip S
      | Some hostFile \<Rightarrow>
          (if \<not> is_regular_file H hostFile then skip S
           else add_mapping \<lparr>kind = FileMapping, discPath = file_disc f, map_hostPath = hostFile,
                  recursive = True, create = file_create f\<rparr> S))"

definition collect_folder :: "host_fs \<Rightarrow> string \<Rightarrow> string \<Rightarrow> folder_patch \<Rightarrow> patch_set \<Rightarrow> patch_set" where
  "collect_folder H sdRoot patchRoot f S =
     (case MakeAbsoluteFromRelative sdRoot patchRoot (folder_external f) of
        None \<Rightarrow> skip S
      | Some hostFolder \<Rightarrow>
          (if \<not> is_directory H hostFolder then skip S
           else add_mapping \<lparr>kind = (if folder_disc f = [] then FolderByName else FolderMapping), discPath = folder_disc f,
                  map_hostPath = hostFolder, recursive = folder_recursive f, create = folder_create f\<rparr> S))"

definition RiivoCollectMappings :: "host_fs \<Rightarrow> string \<Rightarrow> string \<Rightarrow> patch \<Rightarrow> patch_set \<Rightarrow> patch_set" where
  "RiivoCollectMappings H sdRoot xmlDir p S =
     (let patchRoot = ResolvePatchRoot sdRoot xmlDir (patch_root p)
      in fold (collect_folder H sdRoot patchRoot) (folderPatches p)
           (fold (collect_file H sdRoot patchRoot) (filePatches p) S))"

section \<open>Packs\<close>

record save_redirect =
  redirect_directory :: string
  redirect_clone :: bool

record pack =
  pack_sdRoot :: string
  pack_xmls :: "(string \<times> xml_node option option) list"
  pack_config :: "xml_node option option"

text \<open>The set collected so far and the redirect; a description that cannot be read, is no version 1 disc, or
  is for another game is passed over.  \<open>GeneratePatches\<close> has a value for every identity of six characters.\<close>

definition load_description :: "host_fs \<Rightarrow> string \<Rightarrow> string \<Rightarrow> config option \<Rightarrow> option_selection list \<Rightarrow>
    string \<times> xml_node option option \<Rightarrow> patch_set \<times> save_redirect option \<Rightarrow> patch_set \<times> save_redirect option" where
  "load_description H gameId sdRoot config pins x st =
     (case x of (xmlDir, xml) \<Rightarrow> (case st of (S, redirect) \<Rightarrow>
       (case Option.bind xml ParseString of
          None \<Rightarrow> (S, redirect)
        | Some d \<Rightarrow>
            (if \<not> IsValidForGame gameId None None d then (S, redirect)
             else let d1 = (case config of None \<Rightarrow> d | Some c \<Rightarrow> ApplyConfigDefaults d c);
                      activePatches = (case GeneratePatches gameId (ApplySelections d1 pins) of None \<Rightarrow> [] | Some ps \<Rightarrow> ps);
                      S' = fold (RiivoCollectMappings H sdRoot xmlDir) activePatches S;
                      found = (case FindSavegamePatch activePatches of
                        None \<Rightarrow> None
                      | Some sg \<Rightarrow> map_option (\<lambda>p. \<lparr>redirect_directory = p, redirect_clone = save_clone sg\<rparr>)
                          (MakeAbsoluteFromRelative sdRoot xmlDir (save_external sg)))
                  in (S', if redirect = None then found else redirect)))))"

definition RiivoLoadPatchSet :: "host_fs \<Rightarrow> string \<Rightarrow> option_selection list \<Rightarrow> pack \<Rightarrow> save_redirect option \<Rightarrow> patch_set \<times> save_redirect option" where
  "RiivoLoadPatchSet H gameId pins pk redirect =
     (let config = Option.bind (pack_config pk) ParseConfigString
      in fold (load_description H gameId (pack_sdRoot pk) config pins) (pack_xmls pk) (\<lparr>mappings = [], skippedExternals = 0\<rparr>, redirect))"

text \<open>All roots, in order: those without a description are plain directories.\<close>

fun RiivoInitialize :: "host_fs \<Rightarrow> string \<Rightarrow> option_selection list \<Rightarrow> (string \<times> pack option) list \<Rightarrow> save_redirect option \<Rightarrow> overlay list \<times> save_redirect option" where
  "RiivoInitialize H gameId pins [] redirect = ([], redirect)"
| "RiivoInitialize H gameId pins ((root, None) # roots) redirect =
     (let (ovs, r) = RiivoInitialize H gameId pins roots redirect in (\<lparr>overlay_root = root, patches = None\<rparr> # ovs, r))"
| "RiivoInitialize H gameId pins ((root, Some pk) # roots) redirect =
     (let (S, redirect') = RiivoLoadPatchSet H gameId pins pk redirect;
          (ovs, r) = RiivoInitialize H gameId pins roots redirect'
      in (\<lparr>overlay_root = root, patches = Some (mappings S)\<rparr> # ovs, r))"

section \<open>Where the files of a pack come from\<close>

definition inside :: "string \<Rightarrow> string \<Rightarrow> bool" where
  "inside root p \<longleftrightarrow> (\<exists>names. list_all proper names \<and> p = strip_back root @ concat (map (\<lambda>e. slash # e) names))"

lemma strip_back_idem [simp]: "strip_back (strip_back s) = strip_back s"
  by (simp add: strip_back_def)

lemma strip_back_below:
  assumes "list_all proper names"
  shows "strip_back (strip_back root @ concat (map (\<lambda>e. slash # e) names)) = strip_back root @ concat (map (\<lambda>e. slash # e) names)"
proof (cases names rule: rev_cases)
  case (snoc ns e)
  then have "e \<noteq> []" "slash \<notin> set e" using assms by (auto simp: proper_def)
  then have "rev e \<noteq> []" "List.hd (rev e) \<noteq> slash" by (auto simp: hd_rev) (metis last_in_set)
  then show ?thesis by (cases "rev e") (auto simp: snoc strip_back_def rev_swap)
qed simp

lemma resolve_inside:
  assumes "MakeAbsoluteFromRelative sd root ext = Some p"
  shows "inside (if ext \<noteq> [] \<and> ext ! 0 = slash then sd else root) p"
proof -
  obtain st where st: "walk_elements (split_slash ext) [] = Some st"
    "p = below (strip_back (if ext \<noteq> [] \<and> ext ! 0 = slash then sd else root)) st"
    using assms unfolding make_absolute_walks by (auto split: if_splits)
  have "list_all proper st"
    using walk_proper [OF st(1)] split_slash_no_slash by (auto simp: list_all_iff)
  then show ?thesis using st(2) unfolding inside_def below_def by blast
qed

lemma inside_trans:
  assumes "inside root q" "inside q p"
  shows "inside root p"
proof -
  obtain ns ms where n: "list_all proper ns" "q = strip_back root @ concat (map (\<lambda>e. slash # e) ns)"
    and m: "list_all proper ms" "p = strip_back q @ concat (map (\<lambda>e. slash # e) ms)" using assms unfolding inside_def by blast
  have "strip_back q = q" unfolding n(2) by (rule strip_back_below [OF n(1)])
  then show ?thesis unfolding inside_def using n m by (intro exI [of _ "ns @ ms"]) simp
qed

lemma patch_root_inside: "ResolvePatchRoot sd dir attr = dir \<or> inside sd (ResolvePatchRoot sd dir attr) \<or> inside dir (ResolvePatchRoot sd dir attr)"
proof (cases "attr \<noteq> [] \<and> MakeAbsoluteFromRelative sd dir attr \<noteq> None")
  case True
  then obtain r where "MakeAbsoluteFromRelative sd dir attr = Some r" by auto
  then show ?thesis using resolve_inside [of sd dir attr r] True by (auto simp: ResolvePatchRoot_def split: if_splits)
qed (auto simp: ResolvePatchRoot_def split: option.split)

definition sourced :: "host_fs \<Rightarrow> string \<Rightarrow> string \<Rightarrow> mapping \<Rightarrow> bool" where
  "sourced H sd dir m \<longleftrightarrow> (inside sd (map_hostPath m) \<or> inside dir (map_hostPath m)) \<and>
     (if kind m = FileMapping then is_regular_file H (map_hostPath m) \<and> discPath m \<noteq> [] else is_directory H (map_hostPath m)) \<and>
     (kind m = FolderByName \<longleftrightarrow> discPath m = [])"

lemma external_inside:
  assumes "MakeAbsoluteFromRelative sd (ResolvePatchRoot sd dir attr) ext = Some p"
  shows "inside sd p \<or> inside dir p"
  using resolve_inside [OF assms] patch_root_inside [of sd dir attr] inside_trans by (metis (full_types))

lemma collect_sourced:
  "m \<in> set (mappings (RiivoCollectMappings H sd dir p S)) \<Longrightarrow> m \<in> set (mappings S) \<or> sourced H sd dir m"
proof -
  let ?root = "ResolvePatchRoot sd dir (patch_root p)"
  let ?I = "\<lambda>S'. \<forall>m\<in>set (mappings S'). m \<in> set (mappings S) \<or> sourced H sd dir m"
  have one: "?I (collect_file H sd ?root f S')" if "?I S'" for f S'
    using that external_inside [of sd dir "patch_root p" "file_external f"]
    by (auto simp: collect_file_def skip_def add_mapping_def sourced_def split: option.splits)
  have folder: "?I (collect_folder H sd ?root f S')" if "?I S'" for f S'
    using that external_inside [of sd dir "patch_root p" "folder_external f"]
    by (auto simp: collect_folder_def skip_def add_mapping_def sourced_def split: option.splits)
  have files: "?I (fold (collect_file H sd ?root) (filePatches p) S)"
    by (rule fold_inv [where I = ?I, OF one]) simp_all
  have "?I (RiivoCollectMappings H sd dir p S)"
    unfolding RiivoCollectMappings_def Let_def by (rule fold_inv [where I = ?I, OF folder files])
  then show "m \<in> set (mappings (RiivoCollectMappings H sd dir p S)) \<Longrightarrow> m \<in> set (mappings S) \<or> sourced H sd dir m" by blast
qed

lemma description_sourced:
  assumes "m \<in> set (mappings (fst (load_description H gameId sd config pins (dir, xml) (S, redirect))))"
  shows "m \<in> set (mappings S) \<or> sourced H sd dir m"
proof -
  let ?I = "\<lambda>S'. \<forall>m\<in>set (mappings S'). m \<in> set (mappings S) \<or> sourced H sd dir m"
  have "?I (fold (RiivoCollectMappings H sd dir) ps S)" for ps
    by (rule fold_inv [where I = ?I]) (use collect_sourced in blast)+
  then show ?thesis using assms by (auto simp: load_description_def Let_def split: option.splits if_splits)
qed

text \<open>C22: Whatever a pack's descriptions say, the files it puts on the disc lie below its card root or the
  directory of one of its descriptions, under plain names, and each mapping's source was there as a file or
  a directory of the kind the mapping needs.
\<close>

theorem pack_files_stay_below_its_roots:
  assumes "RiivoLoadPatchSet H gameId pins pk redirect = (S, redirect')" "m \<in> set (mappings S)"
  shows "(\<exists>root\<in>insert (pack_sdRoot pk) (fst ` set (pack_xmls pk)). \<exists>names. list_all proper names \<and>
      map_hostPath m = strip_back root @ concat (map (\<lambda>e. slash # e) names)) \<and>
    (if kind m = FileMapping then is_regular_file H (map_hostPath m) else is_directory H (map_hostPath m))"
proof -
  let ?dirs = "fst ` set (pack_xmls pk)"
  let ?I = "\<lambda>st. \<forall>m\<in>set (mappings (fst st)). \<exists>dir\<in>?dirs. sourced H (pack_sdRoot pk) dir m"
  have keep: "?I (load_description H gameId (pack_sdRoot pk) config pins x st)"
    if "x \<in> set (pack_xmls pk)" "?I st" for x st config
  proof
    fix m assume m: "m \<in> set (mappings (fst (load_description H gameId (pack_sdRoot pk) config pins x st)))"
    have "m \<in> set (mappings (fst st)) \<or> sourced H (pack_sdRoot pk) (fst x) m"
      using description_sourced [of m H gameId "pack_sdRoot pk" config pins "fst x" "snd x" "fst st" "snd st"] m by simp
    then show "\<exists>dir\<in>?dirs. sourced H (pack_sdRoot pk) dir m" using that by blast
  qed
  have "?I (RiivoLoadPatchSet H gameId pins pk redirect)"
    unfolding RiivoLoadPatchSet_def Let_def by (rule fold_inv [where I = ?I, OF keep]) simp_all
  then obtain dir where "dir \<in> ?dirs" "sourced H (pack_sdRoot pk) dir m" using assms by fastforce
  then have in_: "inside (pack_sdRoot pk) (map_hostPath m) \<or> inside dir (map_hostPath m)"
    and "if kind m = FileMapping then is_regular_file H (map_hostPath m) else is_directory H (map_hostPath m)"
    by (simp_all add: sourced_def split: if_splits)
  moreover have "\<exists>root\<in>insert (pack_sdRoot pk) ?dirs. inside root (map_hostPath m)" using in_ \<open>dir \<in> ?dirs\<close> by blast
  ultimately show ?thesis unfolding inside_def by simp
qed

definition sample_xml :: xml_node where
  "sample_xml = XmlNode ''wiidisc'' [(''version'', ''1'')]
     [XmlNode ''options'' [] [XmlNode ''section'' [(''name'', ''s'')]
        [XmlNode ''option'' [(''name'', ''o'')] [XmlNode ''choice'' [(''name'', ''c'')] [XmlNode ''patch'' [(''id'', ''p'')] []]]]],
      XmlNode ''patch'' [(''id'', ''p''), (''root'', ''/mod'')]
        [XmlNode ''file'' [(''disc'', ''/a''), (''external'', ''x/../a''), (''create'', ''true'')] []]]"

definition sample_disc :: disc where
  "sample_disc = fold (read_node []) (xml_children sample_xml)
     \<lparr>disc_version = 1, gameFilter = empty_filter, disc_sections = [], disc_patches = []\<rparr>"

definition sample_patch :: patch where
  "sample_patch = \<lparr>patch_id = ''p'', patch_root = ''/mod'',
     filePatches = [\<lparr>file_disc = ''/a'', file_external = ''x/../a'', file_resize = True, file_create = True,
       file_offset = 0, file_fileoffset = 0, file_length = 0\<rparr>], folderPatches = [], savegamePatches = [], memoryPatches = []\<rparr>"

definition sample_pack :: pack where
  "sample_pack = \<lparr>pack_sdRoot = ''/sd'', pack_xmls = [(''/sd/riivolution'', Some (Some sample_xml))], pack_config = None\<rparr>"

definition sample_pins :: "option_selection list" where
  "sample_pins = [\<lparr>sel_section = ''s'', sel_option = ''o'', sel_choice = 1\<rparr>]"

definition pack_fs :: host_fs where
  "pack_fs = \<lparr>listing = (\<lambda>_ _. []), size_of = (\<lambda>_. Some 5), is_regular_file = (\<lambda>_. True), is_directory = (\<lambda>_. False)\<rparr>"

lemma sample_parsed: "ParseString (Some sample_xml) = Some sample_disc"
proof -
  have "AttributeInt ''version'' (- 1) sample_xml = 1"
    by (simp add: sample_xml_def AttributeInt_def FindAttribute_def uint_of_text_def digit_value_def to_int32_def Let_def)
  moreover have "Attribute ''root'' [] sample_xml = []" "xml_name sample_xml = ''wiidisc''"
    by (simp_all add: sample_xml_def Attribute_def FindAttribute_def)
  ultimately show ?thesis by (simp add: ParseString_def sample_disc_def)
qed

lemma sample_active:
  "IsValidForGame ''RMCP01'' None None sample_disc"
  "GeneratePatches ''RMCP01'' (ApplySelections sample_disc sample_pins) = Some [sample_patch]"
  "map map_hostPath (mappings (RiivoCollectMappings pack_fs ''/sd'' ''/sd/riivolution'' sample_patch \<lparr>mappings = [], skippedExternals = 0\<rparr>)) = [''/sd/mod/a'']"
  by code_simp+

lemma sample_pack_set: "map map_hostPath (mappings (fst (RiivoLoadPatchSet pack_fs ''RMCP01'' sample_pins sample_pack None))) = [''/sd/mod/a'']"
  using sample_active(3) by (simp add: RiivoLoadPatchSet_def sample_pack_def load_description_def sample_parsed sample_active Let_def)

theorem pack_files_stay_below_its_roots_witness:
  "\<exists>m :: mapping. map_hostPath m = ''/sd/mod/a'' \<and> (\<exists>root\<in>{''/sd'', ''/sd/riivolution''}. \<exists>names. list_all proper names \<and>
     map_hostPath m = strip_back root @ concat (map (\<lambda>e. slash # e) names))"
proof -
  obtain S redirect where S: "RiivoLoadPatchSet pack_fs ''RMCP01'' sample_pins sample_pack None = (S, redirect)"
    by (cases "RiivoLoadPatchSet pack_fs ''RMCP01'' sample_pins sample_pack None")
  obtain m where m: "m \<in> set (mappings S)" "map_hostPath m = ''/sd/mod/a''" using sample_pack_set unfolding S by auto
  have roots: "insert (pack_sdRoot sample_pack) (fst ` set (pack_xmls sample_pack)) = {''/sd'', ''/sd/riivolution''}"
    by (simp add: sample_pack_def)
  from pack_files_stay_below_its_roots [OF S m(1), unfolded roots] have X:
    "\<exists>root\<in>{''/sd'', ''/sd/riivolution''}. \<exists>names. list_all proper names \<and>
     map_hostPath m = strip_back root @ concat (map (\<lambda>e. slash # e) names)" by (rule conjunct1)
  show ?thesis by (rule exI [of _ m], rule conjI [OF m(2) X])
qed

end
