(* ===== verification/Spec2Isabelle.thy ===== *)
theory Spec2Isabelle
  imports PpcInt PpcXer GuestMemory OsThread OsRunQueue OsMessage OsMutex OsAlarmFire OsSleep OsHeapOps CardStep EggDecomp Riivolution
    DvdFst DvdIndex DvdDisc DvdRead RiivOverlay
begin

text \<open>
  A model of the runtime of the statically recompiled Mario Kart Wii, and proofs about it.

  The repository translates the game's PowerPC code to C++ ahead of time.  What is written by hand is
  the runtime the translated code calls: the helpers that give PowerPC instructions their meaning, the
  emulated memory, a reimplementation of the console's operating system over that memory
  (\<open>src/runtime\<close>), and a library of native replacements for the console's services
  (\<open>src/aurora-main\<close>).  The development models the parts of it that decide something by their own
  logic; what hands its work to a device or a library is left out (see the end).

  \<^bold>\<open>The parts and how they interact.\<close>

  \<^item> The processor.  \<open>CpuContext\<close> is the register file.  \<open>PpcInt\<close> models the pure helpers of
    \<open>isa/ppc_isa_int.h\<close> and \<open>isa/ppc_isa_cr.h\<close>; \<open>PpcXer\<close> those of \<open>ppc_helpers.cpp\<close> that keep carry,
    overflow and summary overflow, the traps, the special purpose registers and the condition
    register.  The theorems state the architecture's results: exact carries and overflows over the
    integers, shifts for all amounts, divisions that do not fit, read-after-write of the registers.

  \<^item> Memory.  \<open>GuestMemory\<close> is the checked access path of \<open>memory.cpp\<close> and \<open>memory_access.h\<close> over the
    region table of the console: mirrored views, big-endian scalars, the gather pipe, MMIO, and
    access violations as a pending fault that stops a sequence of accesses where the C++ exception
    does.  The theorems: aligned words behave as a map, the three views of each memory alias the
    same bytes, and a store has one of four outcomes.  Everything of the operating system below runs
    on this memory.

  \<^item> The operating system.  \<open>GuestList\<close> has the doubly linked lists in guest memory and
    \<open>UnlinkGuestListNode\<close>; \<open>OsThread\<close> the thread queues, priorities and mutex priority inheritance
    of \<open>os_thread.cpp\<close>; \<open>OsSched\<close> interrupts, contexts, fibers, \<open>SelectThread\<close>, sleep and wakeup of
    \<open>os_scheduler.cpp\<close>, \<open>os_interrupt.cpp\<close>, \<open>os_context.cpp\<close>, \<open>os_sleep.cpp\<close> and \<open>fiber_manager.cpp\<close>;
    \<open>OsRunQueue\<close> proves the scheduler's queue invariant; \<open>OsWakeup\<close> has what the callers of a wakeup
    share, the bracket of disabled interrupts and the wakeup with the switch deferred; \<open>OsMessage\<close> is
    the message queues of \<open>os_message.cpp\<close> and \<open>OsMutex\<close> the recursive mutexes of \<open>os_scheduler.cpp\<close>,
    both of which block and wake threads through the scheduler.  \<open>OsTime\<close> is the time base over a host
    clock (\<open>timebase_contract.h\<close>, \<open>os_time.cpp\<close>); \<open>OsAlarm\<close> the alarm queue of \<open>os_alarm.cpp\<close>, which is
    kept by fire time, and \<open>OsAlarmFire\<close> what processing it does, round by round over the list of alarms,
    for handlers that may change that list.  \<open>OsLifecycle\<close> is the creation and the end
    of threads, joining, suspending and resuming (\<open>os_thread.cpp\<close>); \<open>OsSuspend\<close> proves that suspensions
    are counted and that a thread is in its run queue exactly while its count is zero.  \<open>OsSleep\<close> is the
    timer table of \<open>os_sleep.cpp\<close>, whose pump resumes the ready threads by those same calls, defers the timers of running ones and
    drops all others: \<open>with_sleep_timers\<close>
    ties the knot of the scheduler calling the pump and the pump resuming threads through the scheduler.

  \<^item> The heaps.  \<open>OsHeap\<close> is the arena allocator of \<open>aurora-main/lib/dolphin/os/OSAlloc.cpp\<close>, function
    by function; \<open>OsHeapCorrect\<close> its invariant and the steps operations are made of; \<open>OsHeapOps\<close> the
    operations on well-formed heaps.

  \<^item> The memory card.  \<open>CardBat\<close> is the block table with its checksum, \<open>CardDir\<close> the directory,
    \<open>CardFile\<close> the operations of \<open>CardRawFile.cpp\<close>, \<open>CardCorrect\<close> what they guarantee, \<open>CardStep\<close> the
    card as a state machine whose steps are those operations.

  \<^item> Decompression.  \<open>EggDecomp\<close> is the native Yaz0 decoder of \<open>hle/egg_decomp.cpp\<close> and the format it
    implements.

  \<^item> Game patches.  \<open>Riivolution\<close> is \<open>hle/riivolution_contract.h\<close>: a patch description, read from its
    element tree, matched against the game, its options chosen, the active patches generated with
    their placeholders substituted, and the paths of replacement files resolved.  The theorems: a
    resolved path stays below its root, substitution is one pass, and pinned choices win.
    \<open>TextMaps\<close> has what it shares with the disc: ordered maps of strings and the elements of paths.

  \<^item> The disc.  \<open>DvdFst\<close> is \<open>hle/dvd_contract.h\<close>: canonical paths, the tree of registered files, the
    file table with its bytes, and its place below the arena.  \<open>DvdIndex\<close> reads the table of the
    extracted disc back (\<open>LoadFstIndex\<close> of \<open>hle/storage/dvd.cpp\<close>).  \<open>DvdDisc\<close> is the rest of that file up to
    the table: the scan of the disc and of the overlays over it, the disc offsets that are kept or made
    up, the table's publication, and the extents from which a disc byte finds its file.  \<open>DvdRead\<close> is the
    read handlers and \<open>DVDInit\<close>, over the guest memory.  \<open>RiivOverlay\<close> is \<open>hle/storage/riivolution.cpp\<close>,
    which turns the active patches of \<open>Riivolution\<close> into the mappings \<open>DvdDisc\<close> applies.  The theorems
    follow a file from the pack to the guest: it comes from below the pack's roots, the first overlay
    wins and one without \<open>create\<close> adds nothing, the table serves the index and is well nested, what it
    is built from can be read back from its bytes, made-up disc ranges are free, and a handle reads the
    bytes of its file, all of them or none.

  \<^bold>\<open>Interfaces.\<close>  \<open>QueueSpec\<close> states two contracts as locales, a queue kept in key order by insertion
  and a bounded first-in-first-out queue; \<open>OsThread\<close> interprets the first on the guest's thread
  queues and \<open>OsAlarm\<close> on the alarm queue, \<open>OsMessage\<close> the second on the ring buffer.  \<open>AllocSpec\<close> states what the client of an
  allocator relies on; \<open>OsHeapOps\<close> interprets it on the arena heaps.  The properties about sequences
  of operations rest on the facts the locales prove once.

  \<^bold>\<open>How state is modelled.\<close>  A C++ struct is a record, an enumeration or union a datatype, a value
  whose width matters a machine word (or a natural with its modulus written out: the memory card's
  16-bit fields; or an integer wrapped by \<open>s32\<close>: the heaps' sizes).  Code on guest memory is in the
  state monad over the machine record of \<open>GuestMemory\<close>.  Host pointers of the heap allocator are
  integers with 0 for null.  A pointer into the card's directory is an index.  Errors are values:
  the pending fault, \<open>card_result\<close>, \<open>decoded\<close>, options.

  \<^bold>\<open>Loops.\<close>  Loops over guest lists take a fuel argument; running out is the fault \<open>OutOfFuel\<close>, and the
  theorems give the fuel that is enough (the length of the list, plus one).  Loops over heap cells,
  block chains and compressed data are partial functions with \<open>None\<close> for not returning, and the
  theorems prove that they return: on well-formed heaps and cards, and on every input for the decoder.

  \<^bold>\<open>Parameters.\<close>  Translated guest code, the host context switch and the services polled by the idle
  loop are the record \<open>world\<close> of \<open>OsSched\<close>, as are the alarm handlers, which are translated code, and
  the completions of the network and of the NAND that alarm processing also delivers.  The host clock
  is the stream of the values its readings will return (\<open>host_clock\<close>), of which each reading takes one.  The host file behind a memory card is the record
  \<open>host_io\<close>, with the documented laws of a positioned read and write as \<open>io_laws\<close>.  The date on a
  card is an argument.  The element tree that the XML library makes of a description is one too.  What
  the disc asks of the host file system is the record \<open>host_fs\<close>: the regular files below a directory in
  the order they are visited, and sizes; the contents of host files are a map.  Host paths are opaque.
  \<open>std::sort\<close> is not stable, so the sorts of the original files and of the extents are arguments of which
  the theorems ask that they permute and sort.

  \<^bold>\<open>What the theorems showed.\<close>  Adding a range to a heap counts the neighbour it merges with twice; a
  request of nearly four gigabytes is truncated; a message queue of capacity zero loses messages;
  deleting a card file gives back one block only; renaming a file to its own name deletes it; a name
  of 32 bytes is accepted and lost; the card's system blocks are subtracted twice; a compressed size of
  two gigabytes or more decodes to nothing; an unreadable negative number in a patch description is the
  smallest integer and not the default; an alarm whose fire time is before the origin of time blocks
  the alarm queue, which is sorted by signed and read by unsigned times; an absolute disc read of length
  zero copies the rest of the file without a check of its destination; a card file of 512 megabytes
  is created with no block of its own; a replaced file that grew is
  shadowed by the next file on the disc; a disc without a table gives its first file the offset that
  means none.  Each is a theorem next to the operation.

  \<^bold>\<open>Not modelled.\<close>  The write guards of executable pages and deferred disc reads of the memory; the
  diagnostics of the operating system;
  formatting of card images and their bytes (writing a card back and opening it again is the step between
  structures \<open>written_back\<close> of \<open>CardFile\<close>); \<open>OSDumpHeap\<close>, which only logs.  Floating point and paired singles, audio
  mixing, graphics, network, NAND storage, input and the user interface hand their work to
  host arithmetic, devices or libraries; the translator and the launcher are C# programs.  Of the disc,
  the discovery of overlay roots and descriptions on the host, the log of read errors, the popups that
  end the program and the notification of the graphics caches are left out.
\<close>

end
